(* ===== verification/Lazers_Prelude.thy ===== *)
theory Lazers_Prelude
  imports Main "HOL-Library.Word"
begin

text \<open>
  The vocabulary every component of the development shares:

  \<^item> the machine integers of the Rust sources as fixed-width words (the images are built with
    \<^verbatim>\<open>cargo build --release\<close>, so unchecked arithmetic wraps around);
  \<^item> the type \<open>outcome\<close>: what a Rust call can do, that is return \<open>Ok\<close>, return \<open>Err\<close>
    or panic (an index or slice out of range, a failed \<^verbatim>\<open>assert!\<close>, an \<^verbatim>\<open>expect\<close> on
    \<^verbatim>\<open>None\<close>), with \<open>and_then\<close> for the \<^verbatim>\<open>?\<close> operator;
  \<^item> arrays and slices with the range checks of the language written out;
  \<^item> the parts of the Rust standard library the sources use: checked arithmetic,
    \<^verbatim>\<open>from_utf8\<close>, \<^verbatim>\<open>split\<close>, little-endian conversion;
  \<^item> generic lemmas on lists, ring buffers, words and byte memory.
\<close>

unbundle bit_operations_syntax

section \<open>Machine integers\<close>

type_synonym u8 = "8 word"
type_synonym u16 = "16 word"
type_synonym u32 = "32 word"
type_synonym u64 = "64 word"
type_synonym bytes = "u8 list"

named_theorems panic_free \<open>facts that a call does not panic\<close>
named_theorems unat_simps \<open>words as natural numbers\<close>

section \<open>Outcomes of a Rust call\<close>

datatype ('a, 'e) outcome = Ok 'a | Err 'e | Panic

primrec and_then :: "('a, 'e) outcome \<Rightarrow> ('a \<Rightarrow> ('b, 'e) outcome) \<Rightarrow> ('b, 'e) outcome" where
  "and_then (Ok a) f = f a"
| "and_then (Err e) f = Err e"
| "and_then Panic f = Panic"

primrec map_err :: "('e \<Rightarrow> 'f) \<Rightarrow> ('a, 'e) outcome \<Rightarrow> ('a, 'f) outcome" where
  "map_err g (Ok a) = Ok a"
| "map_err g (Err e) = Err (g e)"
| "map_err g Panic = Panic"

definition ok_or :: "'a option \<Rightarrow> 'e \<Rightarrow> ('a, 'e) outcome" where
  "ok_or x e = (case x of None \<Rightarrow> Err e | Some a \<Rightarrow> Ok a)"

definition expect :: "'a option \<Rightarrow> ('a, 'e) outcome" where
  "expect x = (case x of None \<Rightarrow> Panic | Some a \<Rightarrow> Ok a)"

definition rust_assert :: "bool \<Rightarrow> (unit, 'e) outcome" where
  "rust_assert b = (if b then Ok () else Panic)"

text \<open>Stateful calls return the state with the outcome: an early \<^verbatim>\<open>return Err\<close> keeps the
  writes made before it.\<close>

definition bind_st ::
  "('s \<Rightarrow> ('a, 'e) outcome \<times> 's) \<Rightarrow> ('a \<Rightarrow> 's \<Rightarrow> ('b, 'e) outcome \<times> 's)
   \<Rightarrow> 's \<Rightarrow> ('b, 'e) outcome \<times> 's" where
  "bind_st m f s = (case m s of
       (Ok a, s') \<Rightarrow> f a s'
     | (Err e, s') \<Rightarrow> (Err e, s')
     | (Panic, s') \<Rightarrow> (Panic, s'))"

section \<open>Arrays and slices\<close>

definition index :: "'a list \<Rightarrow> nat \<Rightarrow> ('a, 'e) outcome" where
  "index xs i = (if i < length xs then Ok (xs ! i) else Panic)"

definition store :: "'a list \<Rightarrow> nat \<Rightarrow> 'a \<Rightarrow> ('a list, 'e) outcome" where
  "store xs i v = (if i < length xs then Ok (xs[i := v]) else Panic)"

definition slice :: "'a list \<Rightarrow> nat \<Rightarrow> nat \<Rightarrow> ('a list, 'e) outcome" where
  "slice xs a b = (if a \<le> b \<and> b \<le> length xs then Ok (take (b - a) (drop a xs)) else Panic)"

definition overwrite :: "'a list \<Rightarrow> nat \<Rightarrow> 'a list \<Rightarrow> 'a list" where
  "overwrite xs a ys = take a xs @ ys @ drop (a + length ys) xs"

text \<open>\<^verbatim>\<open>xs[a..a + ys.len()].copy_from_slice(ys)\<close>\<close>

definition copy_at :: "'a list \<Rightarrow> nat \<Rightarrow> 'a list \<Rightarrow> ('a list, 'e) outcome" where
  "copy_at xs a ys = (if a + length ys \<le> length xs then Ok (overwrite xs a ys) else Panic)"

text \<open>The two shifting loops the fixed-capacity tables use:
  \<^verbatim>\<open>while i + 1 < n { xs[i] = xs[i + 1]; i += 1 }\<close> closes the gap at \<open>i\<close>,
  \<^verbatim>\<open>while j > i { xs[j] = xs[j - 1]; j -= 1 }\<close> opens one.\<close>

function shift_left :: "'a list \<Rightarrow> nat \<Rightarrow> nat \<Rightarrow> ('a list, 'e) outcome" where
  "shift_left xs i n =
     (if i + 1 < n
      then and_then (index xs (i + 1)) (\<lambda>v. and_then (store xs i v) (\<lambda>xs'. shift_left xs' (i + 1) n))
      else Ok xs)"
  by pat_completeness auto
termination
  by (relation "measure (\<lambda>(xs, i, n). n - i)") auto

fun shift_right :: "'a list \<Rightarrow> nat \<Rightarrow> nat \<Rightarrow> ('a list, 'e) outcome" where
  "shift_right xs i 0 = Ok xs"
| "shift_right xs i (Suc j) =
     (if i < Suc j
      then and_then (index xs j) (\<lambda>v. and_then (store xs (Suc j) v) (\<lambda>xs'. shift_right xs' i j))
      else Ok xs)"

section \<open>Checked arithmetic\<close>

definition checked_add :: "'a::len word \<Rightarrow> 'a word \<Rightarrow> 'a word option" where
  "checked_add a b = (if unat a + unat b < 2 ^ LENGTH('a) then Some (a + b) else None)"

definition checked_mul :: "'a::len word \<Rightarrow> 'a word \<Rightarrow> 'a word option" where
  "checked_mul a b = (if unat a * unat b < 2 ^ LENGTH('a) then Some (a * b) else None)"

definition checked_sub :: "'a::len word \<Rightarrow> 'a word \<Rightarrow> 'a word option" where
  "checked_sub a b = (if b \<le> a then Some (a - b) else None)"

definition saturating_mul :: "'a::len word \<Rightarrow> 'a word \<Rightarrow> 'a word" where
  "saturating_mul a b = (if unat a * unat b < 2 ^ LENGTH('a) then a * b else - 1)"

section \<open>Bytes, text and little-endian integers\<close>

text \<open>\<^verbatim>\<open>core::str::from_utf8\<close> accepts exactly the well-formed UTF-8 sequences: no overlong
  forms, no surrogates, nothing above U+10FFFF.\<close>

definition utf8_cont :: "u8 \<Rightarrow> bool" where
  "utf8_cont b \<longleftrightarrow> 0x80 \<le> b \<and> b \<le> 0xbf"

fun utf8_valid :: "bytes \<Rightarrow> bool" where
  "utf8_valid [] = True"
| "utf8_valid (b # bs) =
     (if b < 0x80 then utf8_valid bs
      else if 0xc2 \<le> b \<and> b \<le> 0xdf then
        (case bs of c1 # r \<Rightarrow> utf8_cont c1 \<and> utf8_valid r | _ \<Rightarrow> False)
      else if 0xe0 \<le> b \<and> b \<le> 0xef then
        (case bs of c1 # c2 # r \<Rightarrow>
             utf8_cont c1 \<and> (b = 0xe0 \<longrightarrow> 0xa0 \<le> c1) \<and> (b = 0xed \<longrightarrow> c1 \<le> 0x9f) \<and>
             utf8_cont c2 \<and> utf8_valid r
         | _ \<Rightarrow> False)
      else if 0xf0 \<le> b \<and> b \<le> 0xf4 then
        (case bs of c1 # c2 # c3 # r \<Rightarrow>
             utf8_cont c1 \<and> (b = 0xf0 \<longrightarrow> 0x90 \<le> c1) \<and> (b = 0xf4 \<longrightarrow> c1 \<le> 0x8f) \<and>
             utf8_cont c2 \<and> utf8_cont c3 \<and> utf8_valid r
         | _ \<Rightarrow> False)
      else False)"

definition from_utf8 :: "bytes \<Rightarrow> bytes option" where
  "from_utf8 bs = (if utf8_valid bs then Some bs else None)"

text \<open>\<^verbatim>\<open>str::split\<close> on a one-byte separator: one piece more than there are separators.\<close>

fun split_on :: "'a \<Rightarrow> 'a list \<Rightarrow> 'a list list" where
  "split_on s [] = [[]]"
| "split_on s (x # xs) =
     (if x = s then [] # split_on s xs
      else (x # hd (split_on s xs)) # tl (split_on s xs))"

fun from_le_bytes :: "bytes \<Rightarrow> 'a::len word" where
  "from_le_bytes [] = 0"
| "from_le_bytes (b # bs) = ucast b + 256 * from_le_bytes bs"

primrec to_le_bytes :: "nat \<Rightarrow> 'a::len word \<Rightarrow> bytes" where
  "to_le_bytes 0 w = []"
| "to_le_bytes (Suc n) w = ucast w # to_le_bytes n (drop_bit 8 w)"

section \<open>Byte-addressed memory\<close>

type_synonym memory = "u64 \<Rightarrow> u8"

definition fill_bytes :: "memory \<Rightarrow> u64 \<Rightarrow> u8 \<Rightarrow> nat \<Rightarrow> memory" where
  "fill_bytes m a b n = (\<lambda>x. if unat (x - a) < n then b else m x)"

definition write_mem :: "memory \<Rightarrow> u64 \<Rightarrow> bytes \<Rightarrow> memory" where
  "write_mem m a bs = (\<lambda>x. if unat (x - a) < length bs then bs ! unat (x - a) else m x)"

definition read_mem :: "memory \<Rightarrow> u64 \<Rightarrow> nat \<Rightarrow> bytes" where
  "read_mem m a n = map (\<lambda>i. m (a + of_nat i)) [0..<n]"

section \<open>Ring buffers\<close>

definition ring_contents :: "'a list \<Rightarrow> nat \<Rightarrow> nat \<Rightarrow> 'a list" where
  "ring_contents xs r n = map (\<lambda>i. xs ! ((r + i) mod length xs)) [0..<n]"

section \<open>Lemmas on outcomes\<close>

lemma and_then_cong [fundef_cong]:
  "m = m' \<Longrightarrow> (\<And>x. m' = Ok x \<Longrightarrow> f x = f' x) \<Longrightarrow> and_then m f = and_then m' f'"
  by (cases m') auto

lemma and_then_eq_Ok [simp]:
  "and_then m f = Ok b \<longleftrightarrow> (\<exists>a. m = Ok a \<and> f a = Ok b)"
  by (cases m) auto

lemma and_then_eq_Err:
  "and_then m f = Err e \<longleftrightarrow> m = Err e \<or> (\<exists>a. m = Ok a \<and> f a = Err e)"
  by (cases m) auto

lemma and_then_eq_Panic:
  "and_then m f = Panic \<longleftrightarrow> m = Panic \<or> (\<exists>a. m = Ok a \<and> f a = Panic)"
  by (cases m) auto

lemma and_then_assoc: "and_then (and_then m f) g = and_then m (\<lambda>x. and_then (f x) g)"
  by (cases m) auto

lemma ok_or_simps [simp]: "ok_or (Some a) e = Ok a" "ok_or None e = Err e"
  by (simp_all add: ok_or_def)

lemma expect_simps [simp]: "expect (Some a) = Ok a" "expect None = Panic"
  by (simp_all add: expect_def)

lemma rust_assert_simps [simp]: "rust_assert True = Ok ()" "rust_assert False = Panic"
  by (simp_all add: rust_assert_def)

lemma index_ok [simp]: "i < length xs \<Longrightarrow> index xs i = Ok (xs ! i)"
  by (simp add: index_def)

lemma store_ok [simp]: "i < length xs \<Longrightarrow> store xs i v = Ok (xs[i := v])"
  by (simp add: store_def)

lemma slice_ok [simp]: "a \<le> b \<Longrightarrow> b \<le> length xs \<Longrightarrow> slice xs a b = Ok (take (b - a) (drop a xs))"
  by (simp add: slice_def)

lemma copy_at_ok [simp]: "a + length ys \<le> length xs \<Longrightarrow> copy_at xs a ys = Ok (overwrite xs a ys)"
  by (simp add: copy_at_def)

section \<open>Lemmas on lists and ring buffers\<close>

lemma length_overwrite [simp]:
  "a + length ys \<le> length xs \<Longrightarrow> length (overwrite xs a ys) = length xs"
  by (simp add: overwrite_def)

lemma take_overwrite_prefix [simp]:
  "n \<le> a \<Longrightarrow> a \<le> length xs \<Longrightarrow> take n (overwrite xs a ys) = take n xs"
  by (simp add: overwrite_def)

lemma take_overwrite [simp]:
  "n = a + length ys \<Longrightarrow> a \<le> length xs \<Longrightarrow> take n (overwrite xs a ys) = take a xs @ ys"
  by (simp add: overwrite_def)

lemma overwrite_append:
  assumes "a \<le> length xs"
  shows "overwrite (overwrite xs a ys) (a + length ys) zs = overwrite xs a (ys @ zs)"
  using assms by (simp add: overwrite_def ac_simps)

lemma list_update_overwrite:
  "a < length xs \<Longrightarrow> xs[a := v] = overwrite xs a [v]"
  by (simp add: overwrite_def upd_conv_take_nth_drop)

lemma take_Suc_store:
  "n < length xs \<Longrightarrow> take (Suc n) (xs[n := v]) = take n xs @ [v]"
  by (simp add: take_Suc_conv_app_nth)

lemma map_of_update_nth:
  assumes "distinct (map fst xs)" "j < length xs" "fst (xs ! j) = k"
  shows "map_of (xs[j := (k, v)]) = (map_of xs)(k \<mapsto> v)"
  using assms
proof (induction xs arbitrary: j)
  case Nil
  then show ?case by simp
next
  case (Cons x xs)
  then show ?case
    by (cases j) (auto simp: fun_eq_iff image_iff, metis nth_mem prod.collapse)
qed

lemma map_of_remove_nth:
  assumes "distinct (map fst xs)" "j < length xs" "fst (xs ! j) = k"
  shows "map_of (take j xs @ drop (Suc j) xs) = (map_of xs)(k := None)"
  using assms
proof (induction xs arbitrary: j)
  case Nil
  then show ?case by simp
next
  case (Cons x xs)
  show ?case
  proof (cases j)
    case 0
    with Cons.prems have "k \<notin> fst ` set xs" by auto
    with 0 Cons.prems show ?thesis by (auto simp: fun_eq_iff map_of_eq_None_iff)
  next
    case (Suc i)
    then have "fst x \<noteq> k" using Cons.prems by (metis distinct.simps(2) list.simps(9) length_Cons
      not_less_eq nth_Cons_Suc nth_map nth_mem length_map)
    with Suc Cons show ?thesis by (auto simp: fun_eq_iff)
  qed
qed

lemma nth_not_in_take: "distinct xs \<Longrightarrow> i < length xs \<Longrightarrow> xs ! i \<notin> set (take i xs)"
  by (metis Cons_nth_drop_Suc append_take_drop_id distinct_append disjoint_insert(1) list.set(2))

lemma distinct_remove_nth: "distinct xs \<Longrightarrow> distinct (take j xs @ drop (Suc j) xs)"
  by (simp add: set_take_disj_set_drop_if_distinct)

lemma map_of_snoc_fresh:
  "k \<notin> fst ` set xs \<Longrightarrow> map_of (xs @ [(k, v)]) = (map_of xs)(k \<mapsto> v)"
  by (induction xs) (auto simp: fun_upd_twist)

declare shift_left.simps [simp del]

lemma shift_left_eq:
  assumes "i < n" "n \<le> length xs"
  shows "shift_left xs i n = Ok (take i xs @ drop (Suc i) (take n xs) @ drop (n - 1) xs)"
  using assms
proof (induction xs i n rule: shift_left.induct)
  case (1 xs i n)
  show ?case
  proof (cases "i + 1 < n")
    case True
    let ?xs = "xs[i := xs ! Suc i]"
    have "take (Suc i) ?xs @ drop (Suc (Suc i)) (take n ?xs) @ drop (n - 1) ?xs
        = take i xs @ drop (Suc i) (take n xs) @ drop (n - 1) xs"
      using True "1.prems" Cons_nth_drop_Suc [of "Suc i" "take n xs"]
      by (simp add: take_Suc_store take_update_cancel drop_update_cancel drop_take)
    with True 1 show ?thesis by (subst shift_left.simps) simp
  next
    case False
    with "1.prems" have "n = Suc i" by simp
    with "1.prems" show ?thesis by (subst shift_left.simps) simp
  qed
qed

lemma shift_right_eq:
  assumes "i \<le> j" "j < length xs"
  shows "shift_right xs i j = Ok (take i xs @ [xs ! i] @ drop i (take j xs) @ drop (Suc j) xs)"
  using assms
proof (induction j arbitrary: xs)
  case 0
  then show ?case by (cases xs) auto
next
  case (Suc j)
  show ?case
  proof (cases "i = Suc j")
    case True
    with Suc.prems show ?thesis by (simp add: id_take_nth_drop)
  next
    case False
    let ?xs = "xs[Suc j := xs ! j]"
    have "take i ?xs @ [?xs ! i] @ drop i (take j ?xs) @ drop (Suc j) ?xs
        = take i xs @ [xs ! i] @ drop i (take (Suc j) xs) @ drop (Suc (Suc j)) xs"
      using False Suc.prems
      by (simp add: take_update_cancel take_Suc_conv_app_nth Cons_nth_drop_Suc [symmetric]
          drop_update_cancel)
    with False Suc show ?thesis by simp
  qed
qed

lemma length_ring_contents [simp]: "length (ring_contents xs r n) = n"
  by (simp add: ring_contents_def)

lemma mod_neq_below:
  fixes r i j c :: nat
  assumes "i < j" "j < c"
  shows "(r + i) mod c \<noteq> (r + j) mod c"
proof
  assume "(r + i) mod c = (r + j) mod c"
  then have "c dvd (r + j) - (r + i)"
    using assms by (metis add_left_mono less_imp_le_nat mod_eq_dvd_iff_nat)
  with assms show False by (auto dest: dvd_imp_le)
qed

lemma ring_slot_neq:
  fixes r i j c :: nat
  shows "i < c \<Longrightarrow> j < c \<Longrightarrow> i \<noteq> j \<Longrightarrow> (r + i) mod c \<noteq> (r + j) mod c"
  using mod_neq_below [of i j c r] mod_neq_below [of j i c r] by linarith

text \<open>The shape both kernel queues keep: \<open>w\<close> is the slot after the \<open>n\<close> slots in use, which
  start at \<open>r\<close>.\<close>

definition ring_inv :: "nat \<Rightarrow> 'a list \<Rightarrow> nat \<Rightarrow> nat \<Rightarrow> nat \<Rightarrow> bool" where
  "ring_inv c xs r w n \<longleftrightarrow> length xs = c \<and> r < c \<and> n \<le> c \<and> w = (r + n) mod c"

lemma ring_contents_push:
  assumes "ring_inv c xs r w n" "n < c"
  shows "ring_contents (xs[w := a]) r (Suc n) = ring_contents xs r n @ [a]"
proof -
  have "(r + n) mod c < c"
    using assms by (intro mod_less_divisor) linarith
  with assms show ?thesis
    by (auto simp: ring_inv_def ring_contents_def nth_list_update ring_slot_neq)
qed

lemma ring_contents_pop:
  assumes "ring_inv c xs r w (Suc n)"
  shows "ring_contents xs r (Suc n) = xs ! r # ring_contents xs (Suc r mod c) n"
  using assms
  by (auto simp: ring_inv_def ring_contents_def upt_conv_Cons map_Suc_upt [symmetric] mod_simps
      simp del: upt_Suc)

lemma ring_contents_clear_head:
  assumes "ring_inv c xs r w (Suc n)"
  shows "ring_contents (xs[r := a]) (Suc r mod c) n = ring_contents xs (Suc r mod c) n"
proof -
  have "(Suc r + i) mod c \<noteq> r" if "i < n" for i
    using ring_slot_neq [of "Suc i" c 0 r] that assms by (force simp: ring_inv_def)
  with assms show ?thesis
    by (auto simp: ring_inv_def ring_contents_def mod_simps) (metis nth_list_update_neq)
qed

lemma ring_inv_push:
  "ring_inv c xs r w n \<Longrightarrow> n < c \<Longrightarrow> ring_inv c (xs[w := a]) r (Suc w mod c) (Suc n)"
  by (auto simp: ring_inv_def mod_simps)

lemma ring_inv_pop:
  "ring_inv c xs r w (Suc n) \<Longrightarrow> ring_inv c xs (Suc r mod c) w n"
  by (auto simp: ring_inv_def mod_simps)

lemma ring_inv_store: "ring_inv c xs r w n \<Longrightarrow> ring_inv c (xs[i := a]) r w n"
  by (simp add: ring_inv_def)

lemma ring_inv_bounds:
  "ring_inv c xs r w n \<Longrightarrow> length xs = c \<and> r < c \<and> n \<le> c \<and> w < c"
  by (auto simp: ring_inv_def intro!: mod_less_divisor)

lemma ring_contents_0 [simp]: "ring_contents xs r 0 = []"
  by (simp add: ring_contents_def)

lemma ring_contents_eq_Nil [simp]: "ring_contents xs r n = [] \<longleftrightarrow> n = 0"
  by (simp add: ring_contents_def)

end
