(* ===== verification/Queue_Interface.thy ===== *)
theory Queue_Interface
  imports Lazers_Prelude
begin

text \<open>
  The contract of the kernel's two fixed-capacity queues, the terminal byte queues
  (\<^verbatim>\<open>terminal.rs\<close>) and the keyboard event queue (\<^verbatim>\<open>keyboard.rs\<close>): a push is refused
  exactly when the queue is full, a pop fails exactly when it is empty, and what comes out is what
  went in, in order. The locale \<open>bounded_queue\<close> states the contract over a list abstraction and
  derives, once for both queues, that every interleaving of pushes and pops is first-in first-out.
\<close>

datatype 'a queue_op = Push 'a | Pop

fun run_queue ::
  "('a \<Rightarrow> 'q \<Rightarrow> bool \<times> 'q) \<Rightarrow> ('q \<Rightarrow> 'a option \<times> 'q) \<Rightarrow> 'a queue_op list \<Rightarrow> 'q
   \<Rightarrow> 'a list \<times> 'a list \<times> 'q" where
  "run_queue push pop [] q = ([], [], q)"
| "run_queue push pop (Push a # ops) q =
     (let (acc, q') = push a q; (ins, outs, q'') = run_queue push pop ops q'
      in (if acc then a # ins else ins, outs, q''))"
| "run_queue push pop (Pop # ops) q =
     (let (x, q') = pop q; (ins, outs, q'') = run_queue push pop ops q'
      in (ins, (case x of None \<Rightarrow> outs | Some a \<Rightarrow> a # outs), q''))"

locale bounded_queue =
  fixes cap :: nat
    and push :: "'a \<Rightarrow> 'q \<Rightarrow> bool \<times> 'q"
    and pop :: "'q \<Rightarrow> 'a option \<times> 'q"
    and contents :: "'q \<Rightarrow> 'a list"
    and invar :: "'q \<Rightarrow> bool"
  assumes push_room: "invar q \<Longrightarrow> length (contents q) < cap \<Longrightarrow>
      \<exists>q'. push a q = (True, q') \<and> invar q' \<and> contents q' = contents q @ [a]"
    and push_full: "invar q \<Longrightarrow> length (contents q) = cap \<Longrightarrow> push a q = (False, q)"
    and pop_some: "invar q \<Longrightarrow> contents q = a # as \<Longrightarrow>
      \<exists>q'. pop q = (Some a, q') \<and> invar q' \<and> contents q' = as"
    and pop_none: "invar q \<Longrightarrow> contents q = [] \<Longrightarrow> pop q = (None, q)"
    and contents_bound: "invar q \<Longrightarrow> length (contents q) \<le> cap"
begin

lemma push_cases:
  assumes "invar q" and "push a q = (acc, q')"
  shows "invar q' \<and> contents q' = contents q @ (if acc then [a] else [])"
proof (cases "length (contents q) = cap")
  case True
  with assms show ?thesis by (simp add: push_full)
next
  case False
  with assms(1) have "length (contents q) < cap"
    using contents_bound by fastforce
  with assms show ?thesis using push_room [of q a] by auto
qed

lemma pop_cases:
  assumes "invar q" and "pop q = (x, q')"
  shows "invar q' \<and> contents q = (case x of None \<Rightarrow> [] | Some a \<Rightarrow> [a]) @ contents q'"
proof (cases "contents q")
  case Nil
  with assms show ?thesis by (simp add: pop_none)
next
  case (Cons a as)
  with assms show ?thesis using pop_some [of q a as] by auto
qed

lemma run_fifo:
  assumes "invar q" and "run_queue push pop ops q = (ins, outs, q')"
  shows "invar q' \<and> outs @ contents q' = contents q @ ins"
  using assms
proof (induction ops arbitrary: q ins outs)
  case Nil
  then show ?case by simp
next
  case (Cons op ops)
  show ?case
  proof (cases op)
    case (Push a)
    obtain acc q1 where p: "push a q = (acc, q1)" by fastforce
    obtain ins1 outs1 where r: "run_queue push pop ops q1 = (ins1, outs1, q')"
      using Cons.prems p Push by (auto split: prod.splits)
    from push_cases [OF Cons.prems(1) p] Cons.IH [OF _ r] Cons.prems p r Push
    show ?thesis by auto
  next
    case Pop
    obtain x q1 where p: "pop q = (x, q1)" by fastforce
    obtain ins1 outs1 where r: "run_queue push pop ops q1 = (ins1, outs1, q')"
      using Cons.prems p Pop by (auto split: prod.splits)
    from pop_cases [OF Cons.prems(1) p] Cons.IH [OF _ r] Cons.prems p r Pop
    show ?thesis by (auto split: option.splits)
  qed
qed

end

end
