(* ===== verification/Keyboard.thy ===== *)
theory Keyboard
  imports Queue_Interface
begin

text \<open>
  The PS/2 keyboard driver, \<^verbatim>\<open>kernel/kernel/src/keyboard.rs\<close>: scan-code decoding with the shift
  and extended-prefix state, the fixed-capacity event queue and the polling loop over the
  controller's status and data ports. The ports are a parameter: the list of (status, data) bytes
  the controller presents to successive reads.
\<close>

section \<open>Data\<close>

datatype key_state = Pressed | Released

datatype key_code =
    KeyA | KeyB | KeyC | KeyD | KeyE | KeyF | KeyG | KeyH | KeyI | KeyJ | KeyK | KeyL | KeyM
  | KeyN | KeyO | KeyP | KeyQ | KeyR | KeyS | KeyT | KeyU | KeyV | KeyW | KeyX | KeyY | KeyZ
  | Digit0 | Digit1 | Digit2 | Digit3 | Digit4 | Digit5 | Digit6 | Digit7 | Digit8 | Digit9
  | Space | Minus | Equals | LeftBracket | RightBracket | Backslash | Semicolon | Apostrophe
  | Grave | Comma | Period | Slash | Enter | Backspace | LeftShift | RightShift | Unknown

record key_event =
  ke_key :: key_code
  ke_state :: key_state
  ke_shift_active :: bool

definition EVENT_QUEUE_CAPACITY :: nat where
  "EVENT_QUEUE_CAPACITY = 64"

record event_queue =
  eq_entries :: "key_event option list"
  eq_read_index :: nat
  eq_write_index :: nat
  eq_len :: nat

record keyboard_state =
  left_shift_active :: bool
  right_shift_active :: bool
  extended_prefix :: bool
  kb_queue :: event_queue

section \<open>The event queue\<close>

definition event_queue_new :: event_queue where
  "event_queue_new =
     \<lparr>eq_entries = replicate EVENT_QUEUE_CAPACITY None,
      eq_read_index = 0, eq_write_index = 0, eq_len = 0\<rparr>"

definition event_queue_push :: "key_event \<Rightarrow> event_queue \<Rightarrow> bool \<times> event_queue" where
  "event_queue_push ev q =
     (if length (eq_entries q) \<le> eq_len q then (False, q)
      else (True, q\<lparr>eq_entries := (eq_entries q)[eq_write_index q := Some ev],
                   eq_write_index := (eq_write_index q + 1) mod length (eq_entries q),
                   eq_len := eq_len q + 1\<rparr>))"

definition event_queue_pop :: "event_queue \<Rightarrow> key_event option \<times> event_queue" where
  "event_queue_pop q =
     (if eq_len q = 0 then (None, q)
      else (eq_entries q ! eq_read_index q,
            q\<lparr>eq_entries := (eq_entries q)[eq_read_index q := None],
              eq_read_index := (eq_read_index q + 1) mod length (eq_entries q),
              eq_len := eq_len q - 1\<rparr>))"

section \<open>Scan codes\<close>

definition decode_key :: "u8 \<Rightarrow> key_code" where
  "decode_key scan_code =
     (case map_of
        [(0x02, Digit1), (0x03, Digit2), (0x04, Digit3), (0x05, Digit4), (0x06, Digit5),
         (0x07, Digit6), (0x08, Digit7), (0x09, Digit8), (0x0a, Digit9), (0x0b, Digit0),
         (0x0c, Minus), (0x0d, Equals), (0x0e, Backspace),
         (0x10, KeyQ), (0x11, KeyW), (0x12, KeyE), (0x13, KeyR), (0x14, KeyT), (0x15, KeyY), (0x16, KeyU),
         (0x17, KeyI), (0x18, KeyO), (0x19, KeyP), (0x1a, LeftBracket), (0x1b, RightBracket),
         (0x1c, Enter),
         (0x1e, KeyA), (0x1f, KeyS), (0x20, KeyD), (0x21, KeyF), (0x22, KeyG), (0x23, KeyH), (0x24, KeyJ),
         (0x25, KeyK), (0x26, KeyL), (0x27, Semicolon), (0x28, Apostrophe), (0x29, Grave),
         (0x2a, LeftShift), (0x2b, Backslash),
         (0x2c, KeyZ), (0x2d, KeyX), (0x2e, KeyC), (0x2f, KeyV), (0x30, KeyB), (0x31, KeyN), (0x32, KeyM),
         (0x33, Comma), (0x34, Period), (0x35, Slash), (0x36, RightShift), (0x39, Space)]
        scan_code of
        Some key \<Rightarrow> key
      | None \<Rightarrow> Unknown)"

definition shift_active :: "keyboard_state \<Rightarrow> bool" where
  "shift_active kb \<longleftrightarrow> left_shift_active kb \<or> right_shift_active kb"

definition decode_set1 :: "keyboard_state \<Rightarrow> u8 \<Rightarrow> key_event option" where
  "decode_set1 kb byte =
     (let released = (byte AND 0x80 \<noteq> 0); scan_code = byte AND 0x7f; key = decode_key scan_code
      in if key = Unknown then None
         else Some \<lparr>ke_key = key, ke_state = (if released then Released else Pressed),
                    ke_shift_active = shift_active kb\<rparr>)"

text \<open>The extended table is empty: every extended scan code decodes to \<^verbatim>\<open>Unknown\<close>.\<close>

definition decode_extended :: "keyboard_state \<Rightarrow> u8 \<Rightarrow> key_event option" where
  "decode_extended kb byte =
     (let released = (byte AND 0x80 \<noteq> 0); key = Unknown
      in if key = Unknown then None
         else Some \<lparr>ke_key = key, ke_state = (if released then Released else Pressed),
                    ke_shift_active = shift_active kb\<rparr>)"

definition process_byte :: "u8 \<Rightarrow> keyboard_state \<Rightarrow> keyboard_state" where
  "process_byte byte kb =
     (if byte = 0xe0 then kb\<lparr>extended_prefix := True\<rparr>
      else
        let (event, kb1) =
              (if extended_prefix kb
               then let kb0 = kb\<lparr>extended_prefix := False\<rparr> in (decode_extended kb0 byte, kb0)
               else (decode_set1 kb byte, kb))
        in case event of
             None \<Rightarrow> kb1
           | Some ev \<Rightarrow>
               let kb2 = (if ke_key ev = LeftShift
                          then kb1\<lparr>left_shift_active := (ke_state ev = Pressed)\<rparr>
                          else if ke_key ev = RightShift
                          then kb1\<lparr>right_shift_active := (ke_state ev = Pressed)\<rparr>
                          else kb1);
                   ev' = ev\<lparr>ke_shift_active := shift_active kb2\<rparr>
               in kb2\<lparr>kb_queue := snd (event_queue_push ev' (kb_queue kb2))\<rparr>)"

definition keyboard_new :: keyboard_state where
  "keyboard_new = \<lparr>left_shift_active = False, right_shift_active = False,
                   extended_prefix = False, kb_queue = event_queue_new\<rparr>"

section \<open>Polling\<close>

definition OUTPUT_BUFFER_FULL :: u8 where "OUTPUT_BUFFER_FULL = 1"
definition AUXILIARY_DATA :: u8 where "AUXILIARY_DATA = 0x20"

text \<open>One read of the controller: \<open>(status, data)\<close> are what the two ports return. The data byte
  is consumed whenever the output buffer is full, also when it belongs to the mouse.\<close>

definition read_controller_byte :: "u8 \<times> u8 \<Rightarrow> u8 option" where
  "read_controller_byte sd =
     (let (status, data) = sd
      in if status AND OUTPUT_BUFFER_FULL = 0 then None
         else if status AND AUXILIARY_DATA \<noteq> 0 then None
         else Some data)"

fun poll :: "(u8 \<times> u8) list \<Rightarrow> keyboard_state \<Rightarrow> keyboard_state" where
  "poll [] kb = kb"
| "poll (sd # ports) kb =
     (case read_controller_byte sd of
        None \<Rightarrow> kb
      | Some byte \<Rightarrow> poll ports (process_byte byte kb))"

definition pop_event :: "keyboard_state \<Rightarrow> key_event option \<times> keyboard_state" where
  "pop_event kb = (let (ev, q) = event_queue_pop (kb_queue kb) in (ev, kb\<lparr>kb_queue := q\<rparr>))"

section \<open>The event queue is a bounded FIFO\<close>

definition event_queue_inv :: "event_queue \<Rightarrow> bool" where
  "event_queue_inv q \<longleftrightarrow>
     ring_inv EVENT_QUEUE_CAPACITY (eq_entries q) (eq_read_index q) (eq_write_index q) (eq_len q) \<and>
     None \<notin> set (ring_contents (eq_entries q) (eq_read_index q) (eq_len q))"

definition event_queue_contents :: "event_queue \<Rightarrow> key_event list" where
  "event_queue_contents q =
     map the (ring_contents (eq_entries q) (eq_read_index q) (eq_len q))"

lemmas event_queue_defs =
  event_queue_push_def event_queue_pop_def event_queue_inv_def event_queue_contents_def

lemma event_queue_inv_new [simp]: "event_queue_inv event_queue_new"
  by (simp add: event_queue_inv_def ring_inv_def event_queue_new_def EVENT_QUEUE_CAPACITY_def)

lemma event_queue_contents_new [simp]: "event_queue_contents event_queue_new = []"
  by (simp add: event_queue_contents_def event_queue_new_def)

lemma event_queue_push_room:
  assumes inv: "event_queue_inv q" and room: "length (event_queue_contents q) < EVENT_QUEUE_CAPACITY"
  shows "\<exists>q'. event_queue_push a q = (True, q') \<and> event_queue_inv q' \<and>
              event_queue_contents q' = event_queue_contents q @ [a]"
proof -
  note r = inv [unfolded event_queue_inv_def, THEN conjunct1]
  have n: "eq_len q < EVENT_QUEUE_CAPACITY"
    using room by (simp add: event_queue_contents_def)
  with inv ring_contents_push [OF r n] ring_inv_push [OF r n] ring_inv_bounds [OF r]
  show ?thesis by (auto simp: event_queue_defs)
qed

lemma event_queue_pop_some:
  assumes inv: "event_queue_inv q" and c: "event_queue_contents q = a # as"
  shows "\<exists>q'. event_queue_pop q = (Some a, q') \<and> event_queue_inv q' \<and> event_queue_contents q' = as"
proof -
  from c obtain n where n: "eq_len q = Suc n"
    by (cases "eq_len q") (auto simp: event_queue_contents_def)
  note r = inv [unfolded event_queue_inv_def n, THEN conjunct1]
  note ring = ring_contents_pop [OF r] ring_contents_clear_head [OF r]
  from inv c n ring have "eq_entries q ! eq_read_index q = Some a"
    by (auto simp: event_queue_defs)
  with inv c n ring ring_inv_pop [OF ring_inv_store [OF r]] ring_inv_bounds [OF r] show ?thesis
    by (auto simp: event_queue_defs)
qed

interpretation eventq: bounded_queue
  EVENT_QUEUE_CAPACITY event_queue_push event_queue_pop event_queue_contents event_queue_inv
proof unfold_locales
  fix q :: event_queue and a :: key_event
  assume "event_queue_inv q"
  then show "length (event_queue_contents q) \<le> EVENT_QUEUE_CAPACITY"
    and "length (event_queue_contents q) = EVENT_QUEUE_CAPACITY \<Longrightarrow> event_queue_push a q = (False, q)"
    and "event_queue_contents q = [] \<Longrightarrow> event_queue_pop q = (None, q)"
    by (auto simp: event_queue_defs ring_inv_def)
qed (auto intro: event_queue_push_room event_queue_pop_some)

lemma process_byte_queue_inv:
  "event_queue_inv (kb_queue kb) \<Longrightarrow> event_queue_inv (kb_queue (process_byte byte kb))"
  using eventq.push_cases
  by (auto simp: process_byte_def Let_def split: option.splits prod.splits)
     (metis eventq.push_cases prod.collapse)+

section \<open>Properties\<close>

text \<open>A scan code behind the extended prefix is swallowed whole: it changes neither the shift
  state nor the event queue, so the fake shifts some keyboards send around extended keys have no
  effect.\<close>

theorem extended_codes_swallowed:
  assumes "\<not> extended_prefix kb" and "byte \<noteq> 0xe0"
  shows "process_byte byte (process_byte 0xe0 kb) = kb"
  using assms by (simp add: process_byte_def decode_extended_def Let_def)

theorem extended_codes_swallowed_witness:
  "process_byte 0x2a (process_byte 0xe0 keyboard_new) = keyboard_new"
  by (rule extended_codes_swallowed) (simp_all add: keyboard_new_def)

end
