(* ===== verification/Terminal.thy ===== *)
theory Terminal
  imports Keyboard
begin

text \<open>
  The terminal endpoint and its users on the kernel side: \<^verbatim>\<open>kernel/kernel/src/terminal.rs\<close> (byte
  queues, endpoint, translation of key events), \<^verbatim>\<open>serial.rs\<close> (the COM1 copy of the output) and
  the handle objects of \<^verbatim>\<open>io.rs\<close>. Endpoints are static objects that several handles share, so
  they live in a store indexed by an endpoint number; the store, the serial port and its log form
  the record \<open>io_state\<close>. The UART's line-status wait is outside the model: a byte handed to the
  port is appended to the log.
\<close>

section \<open>Byte queues\<close>

definition TERMINAL_INPUT_CAPACITY :: nat where "TERMINAL_INPUT_CAPACITY = 256"
definition TERMINAL_OUTPUT_CAPACITY :: nat where "TERMINAL_OUTPUT_CAPACITY = 1024"

record byte_queue =
  bq_bytes :: bytes
  bq_read_index :: nat
  bq_write_index :: nat
  bq_len :: nat

definition byte_queue_new :: "nat \<Rightarrow> byte_queue" where
  "byte_queue_new cap =
     \<lparr>bq_bytes = replicate cap 0, bq_read_index = 0, bq_write_index = 0, bq_len = 0\<rparr>"

definition byte_queue_push :: "nat \<Rightarrow> u8 \<Rightarrow> byte_queue \<Rightarrow> bool \<times> byte_queue" where
  "byte_queue_push cap byte q =
     (if cap \<le> bq_len q then (False, q)
      else (True, q\<lparr>bq_bytes := (bq_bytes q)[bq_write_index q := byte],
                   bq_write_index := (bq_write_index q + 1) mod cap,
                   bq_len := bq_len q + 1\<rparr>))"

definition byte_queue_pop :: "nat \<Rightarrow> byte_queue \<Rightarrow> u8 option \<times> byte_queue" where
  "byte_queue_pop cap q =
     (if bq_len q = 0 then (None, q)
      else (Some (bq_bytes q ! bq_read_index q),
            q\<lparr>bq_read_index := (bq_read_index q + 1) mod cap, bq_len := bq_len q - 1\<rparr>))"

section \<open>Endpoints, serial port and handle objects\<close>

record terminal_endpoint =
  te_input :: byte_queue
  te_output :: byte_queue

record io_state =
  endpoints :: "nat \<Rightarrow> terminal_endpoint"
  serial_ready :: bool
  serial_log :: bytes

definition terminal_endpoint_new :: terminal_endpoint where
  "terminal_endpoint_new =
     \<lparr>te_input = byte_queue_new TERMINAL_INPUT_CAPACITY,
      te_output = byte_queue_new TERMINAL_OUTPUT_CAPACITY\<rparr>"

definition serial_write_byte :: "u8 \<Rightarrow> io_state \<Rightarrow> io_state" where
  "serial_write_byte byte io =
     (if \<not> serial_ready io then io
      else io\<lparr>serial_log := serial_log io @ (if byte = 0x0a then [0x0d] else []) @ [byte]\<rparr>)"

definition push_input_byte :: "nat \<Rightarrow> u8 \<Rightarrow> io_state \<Rightarrow> bool \<times> io_state" where
  "push_input_byte ep byte io =
     (let (acc, q) = byte_queue_push TERMINAL_INPUT_CAPACITY byte (te_input (endpoints io ep))
      in (acc, io\<lparr>endpoints := (endpoints io)(ep := (endpoints io ep)\<lparr>te_input := q\<rparr>)\<rparr>))"

definition pop_input_byte :: "nat \<Rightarrow> io_state \<Rightarrow> u8 option \<times> io_state" where
  "pop_input_byte ep io =
     (let (x, q) = byte_queue_pop TERMINAL_INPUT_CAPACITY (te_input (endpoints io ep))
      in (x, io\<lparr>endpoints := (endpoints io)(ep := (endpoints io ep)\<lparr>te_input := q\<rparr>)\<rparr>))"

definition push_output_byte :: "nat \<Rightarrow> u8 \<Rightarrow> io_state \<Rightarrow> bool \<times> io_state" where
  "push_output_byte ep byte io =
     (let io1 = serial_write_byte byte io;
          (acc, q) = byte_queue_push TERMINAL_OUTPUT_CAPACITY byte (te_output (endpoints io1 ep))
      in (acc, io1\<lparr>endpoints := (endpoints io1)(ep := (endpoints io1 ep)\<lparr>te_output := q\<rparr>)\<rparr>))"

definition pop_output_byte :: "nat \<Rightarrow> io_state \<Rightarrow> u8 option \<times> io_state" where
  "pop_output_byte ep io =
     (let (x, q) = byte_queue_pop TERMINAL_OUTPUT_CAPACITY (te_output (endpoints io ep))
      in (x, io\<lparr>endpoints := (endpoints io)(ep := (endpoints io ep)\<lparr>te_output := q\<rparr>)\<rparr>))"

datatype kernel_object = TerminalEndpoint nat | Null

fun object_read_byte :: "kernel_object \<Rightarrow> io_state \<Rightarrow> u8 option \<times> io_state" where
  "object_read_byte (TerminalEndpoint ep) io = pop_input_byte ep io"
| "object_read_byte Null io = (None, io)"

fun object_write_byte :: "kernel_object \<Rightarrow> u8 \<Rightarrow> io_state \<Rightarrow> bool \<times> io_state" where
  "object_write_byte (TerminalEndpoint ep) byte io = push_output_byte ep byte io"
| "object_write_byte Null byte io = (True, io)"

section \<open>Key events as terminal input\<close>

definition shifted_byte :: "u8 \<Rightarrow> u8 \<Rightarrow> bool \<Rightarrow> u8" where
  "shifted_byte normal shifted shift_on = (if shift_on then shifted else normal)"

definition key_event_to_input_byte :: "key_event \<Rightarrow> u8 option" where
  "key_event_to_input_byte event =
     (if ke_state event \<noteq> Pressed then None
      else let shifted = ke_shift_active event in
      (case ke_key event of
         Enter \<Rightarrow> Some 0x0a
       | Backspace \<Rightarrow> Some 0x7f
       | KeyA \<Rightarrow> Some (shifted_byte 0x61 0x41 shifted)
       | KeyB \<Rightarrow> Some (shifted_byte 0x62 0x42 shifted)
       | KeyC \<Rightarrow> Some (shifted_byte 0x63 0x43 shifted)
       | KeyD \<Rightarrow> Some (shifted_byte 0x64 0x44 shifted)
       | KeyE \<Rightarrow> Some (shifted_byte 0x65 0x45 shifted)
       | KeyF \<Rightarrow> Some (shifted_byte 0x66 0x46 shifted)
       | KeyG \<Rightarrow> Some (shifted_byte 0x67 0x47 shifted)
       | KeyH \<Rightarrow> Some (shifted_byte 0x68 0x48 shifted)
       | KeyI \<Rightarrow> Some (shifted_byte 0x69 0x49 shifted)
       | KeyJ \<Rightarrow> Some (shifted_byte 0x6a 0x4a shifted)
       | KeyK \<Rightarrow> Some (shifted_byte 0x6b 0x4b shifted)
       | KeyL \<Rightarrow> Some (shifted_byte 0x6c 0x4c shifted)
       | KeyM \<Rightarrow> Some (shifted_byte 0x6d 0x4d shifted)
       | KeyN \<Rightarrow> Some (shifted_byte 0x6e 0x4e shifted)
       | KeyO \<Rightarrow> Some (shifted_byte 0x6f 0x4f shifted)
       | KeyP \<Rightarrow> Some (shifted_byte 0x70 0x50 shifted)
       | KeyQ \<Rightarrow> Some (shifted_byte 0x71 0x51 shifted)
       | KeyR \<Rightarrow> Some (shifted_byte 0x72 0x52 shifted)
       | KeyS \<Rightarrow> Some (shifted_byte 0x73 0x53 shifted)
       | KeyT \<Rightarrow> Some (shifted_byte 0x74 0x54 shifted)
       | KeyU \<Rightarrow> Some (shifted_byte 0x75 0x55 shifted)
       | KeyV \<Rightarrow> Some (shifted_byte 0x76 0x56 shifted)
       | KeyW \<Rightarrow> Some (shifted_byte 0x77 0x57 shifted)
       | KeyX \<Rightarrow> Some (shifted_byte 0x78 0x58 shifted)
       | KeyY \<Rightarrow> Some (shifted_byte 0x79 0x59 shifted)
       | KeyZ \<Rightarrow> Some (shifted_byte 0x7a 0x5a shifted)
       | Digit0 \<Rightarrow> Some (shifted_byte 0x30 0x29 shifted)
       | Digit1 \<Rightarrow> Some (shifted_byte 0x31 0x21 shifted)
       | Digit2 \<Rightarrow> Some (shifted_byte 0x32 0x40 shifted)
       | Digit3 \<Rightarrow> Some (shifted_byte 0x33 0x23 shifted)
       | Digit4 \<Rightarrow> Some (shifted_byte 0x34 0x24 shifted)
       | Digit5 \<Rightarrow> Some (shifted_byte 0x35 0x25 shifted)
       | Digit6 \<Rightarrow> Some (shifted_byte 0x36 0x5e shifted)
       | Digit7 \<Rightarrow> Some (shifted_byte 0x37 0x26 shifted)
       | Digit8 \<Rightarrow> Some (shifted_byte 0x38 0x2a shifted)
       | Digit9 \<Rightarrow> Some (shifted_byte 0x39 0x28 shifted)
       | Space \<Rightarrow> Some 0x20
       | Minus \<Rightarrow> Some (shifted_byte 0x2d 0x5f shifted)
       | Equals \<Rightarrow> Some (shifted_byte 0x3d 0x2b shifted)
       | LeftBracket \<Rightarrow> Some (shifted_byte 0x5b 0x7b shifted)
       | RightBracket \<Rightarrow> Some (shifted_byte 0x5d 0x7d shifted)
       | Backslash \<Rightarrow> Some (shifted_byte 0x5c 0x7c shifted)
       | Semicolon \<Rightarrow> Some (shifted_byte 0x3b 0x3a shifted)
       | Apostrophe \<Rightarrow> Some (shifted_byte 0x27 0x22 shifted)
       | Grave \<Rightarrow> Some (shifted_byte 0x60 0x7e shifted)
       | Comma \<Rightarrow> Some (shifted_byte 0x2c 0x3c shifted)
       | Period \<Rightarrow> Some (shifted_byte 0x2e 0x3e shifted)
       | Slash \<Rightarrow> Some (shifted_byte 0x2f 0x3f shifted)
       | LeftShift \<Rightarrow> None
       | RightShift \<Rightarrow> None
       | Unknown \<Rightarrow> None))"

definition handle_key_event :: "nat \<Rightarrow> key_event \<Rightarrow> io_state \<Rightarrow> io_state" where
  "handle_key_event ep event io =
     (case key_event_to_input_byte event of
        Some byte \<Rightarrow> snd (push_input_byte ep byte io)
      | None \<Rightarrow> io)"

text \<open>The first half of the terminal thread's loop body (\<^verbatim>\<open>main.rs\<close>): every queued key event is
  handed to the surface. The queue holds at most \<open>EVENT_QUEUE_CAPACITY\<close> events, which bounds the
  \<^verbatim>\<open>while let\<close> loop.\<close>

fun drain_key_events :: "nat \<Rightarrow> nat \<Rightarrow> keyboard_state \<Rightarrow> io_state \<Rightarrow> (keyboard_state \<times> io_state) option" where
  "drain_key_events 0 ep kb io = None"
| "drain_key_events (Suc fuel) ep kb io =
     (case pop_event kb of
        (None, kb') \<Rightarrow> Some (kb', io)
      | (Some ev, kb') \<Rightarrow> drain_key_events fuel ep kb' (handle_key_event ep ev io))"

section \<open>The byte queues are bounded FIFOs\<close>

definition byte_queue_inv :: "nat \<Rightarrow> byte_queue \<Rightarrow> bool" where
  "byte_queue_inv cap q \<longleftrightarrow>
     ring_inv cap (bq_bytes q) (bq_read_index q) (bq_write_index q) (bq_len q)"

definition byte_queue_contents :: "byte_queue \<Rightarrow> bytes" where
  "byte_queue_contents q = ring_contents (bq_bytes q) (bq_read_index q) (bq_len q)"

lemmas byte_queue_defs =
  byte_queue_push_def byte_queue_pop_def byte_queue_inv_def byte_queue_contents_def

lemma byte_queue_new_props [simp]:
  "0 < cap \<Longrightarrow> byte_queue_inv cap (byte_queue_new cap)" "byte_queue_contents (byte_queue_new cap) = []"
  by (simp_all add: byte_queue_inv_def ring_inv_def byte_queue_new_def byte_queue_contents_def)

lemma byte_queue_is_bounded_queue:
  "bounded_queue cap (byte_queue_push cap) (byte_queue_pop cap) byte_queue_contents (byte_queue_inv cap)"
proof unfold_locales
  fix q :: byte_queue and a :: u8 and as :: bytes
  assume inv: "byte_queue_inv cap q"
  then have r: "ring_inv cap (bq_bytes q) (bq_read_index q) (bq_write_index q) (bq_len q)"
    by (simp add: byte_queue_inv_def)
  {
    assume "length (byte_queue_contents q) < cap"
    then have n: "bq_len q < cap" by (simp add: byte_queue_contents_def)
    show "\<exists>q'. byte_queue_push cap a q = (True, q') \<and> byte_queue_inv cap q' \<and>
               byte_queue_contents q' = byte_queue_contents q @ [a]"
      using n ring_contents_push [OF r n] ring_inv_push [OF r n] by (auto simp: byte_queue_defs)
  next
    assume c: "byte_queue_contents q = a # as"
    then obtain n where n: "bq_len q = Suc n"
      by (cases "bq_len q") (auto simp: byte_queue_contents_def)
    show "\<exists>q'. byte_queue_pop cap q = (Some a, q') \<and> byte_queue_inv cap q' \<and>
               byte_queue_contents q' = as"
      using c n ring_contents_pop [OF r [unfolded n]] ring_inv_pop [OF r [unfolded n]]
      by (auto simp: byte_queue_defs)
  next
    show "length (byte_queue_contents q) = cap \<Longrightarrow> byte_queue_push cap a q = (False, q)"
      and "byte_queue_contents q = [] \<Longrightarrow> byte_queue_pop cap q = (None, q)"
      and "length (byte_queue_contents q) \<le> cap"
      using r by (auto simp: byte_queue_defs ring_inv_def)
  }
qed

interpretation inputq: bounded_queue
  TERMINAL_INPUT_CAPACITY "byte_queue_push TERMINAL_INPUT_CAPACITY"
  "byte_queue_pop TERMINAL_INPUT_CAPACITY" byte_queue_contents "byte_queue_inv TERMINAL_INPUT_CAPACITY"
  by (rule byte_queue_is_bounded_queue)

interpretation outputq: bounded_queue
  TERMINAL_OUTPUT_CAPACITY "byte_queue_push TERMINAL_OUTPUT_CAPACITY"
  "byte_queue_pop TERMINAL_OUTPUT_CAPACITY" byte_queue_contents "byte_queue_inv TERMINAL_OUTPUT_CAPACITY"
  by (rule byte_queue_is_bounded_queue)

text \<open>A key for every printable character, in character order: scan code and shift state.\<close>

definition us_layout :: "(u8 \<times> bool) list" where
  "us_layout =
   [(0x39, False), (0x02, True), (0x28, True), (0x04, True), (0x05, True), (0x06, True), (0x08,
    True), (0x28, False), (0x0a, True), (0x0b, True), (0x09, True), (0x0d, True), (0x33,
    False), (0x0c, False), (0x34, False), (0x35, False), (0x0b, False), (0x02, False),
    (0x03, False), (0x04, False), (0x05, False), (0x06, False), (0x07, False), (0x08,
    False), (0x09, False), (0x0a, False), (0x27, True), (0x27, False), (0x33, True), (0x0d,
    False), (0x34, True), (0x35, True), (0x03, True), (0x1e, True), (0x30, True), (0x2e,
    True), (0x20, True), (0x12, True), (0x21, True), (0x22, True), (0x23, True), (0x17,
    True), (0x24, True), (0x25, True), (0x26, True), (0x32, True), (0x31, True), (0x18,
    True), (0x19, True), (0x10, True), (0x13, True), (0x1f, True), (0x14, True), (0x16,
    True), (0x2f, True), (0x11, True), (0x2d, True), (0x15, True), (0x2c, True), (0x1a,
    False), (0x2b, False), (0x1b, False), (0x07, True), (0x0c, True), (0x29, False), (0x1e,
    False), (0x30, False), (0x2e, False), (0x20, False), (0x12, False), (0x21, False),
    (0x22, False), (0x23, False), (0x17, False), (0x24, False), (0x25, False), (0x26,
    False), (0x32, False), (0x31, False), (0x18, False), (0x19, False), (0x10, False),
    (0x13, False), (0x1f, False), (0x14, False), (0x16, False), (0x2f, False), (0x11,
    False), (0x2d, False), (0x15, False), (0x2c, False), (0x1a, True), (0x2b, True), (0x1b,
    True), (0x29, True)]"

section \<open>From key events to input bytes\<close>

lemma us_layout_types_printable:
  "map (\<lambda>(sc, shift). key_event_to_input_byte
          \<lparr>ke_key = decode_key sc, ke_state = Pressed, ke_shift_active = shift\<rparr>) us_layout
   = map Some (map of_nat [0x20..<0x7f])"
  by (simp add: us_layout_def key_event_to_input_byte_def decode_key_def shifted_byte_def upt_rec)

lemma printable_listed: "0x20 \<le> b \<Longrightarrow> b \<le> 0x7e \<Longrightarrow> b \<in> set (map of_nat [0x20..<0x7f])" for b :: u8
proof -
  assume "0x20 \<le> b" "b \<le> 0x7e"
  then have "unat b \<in> {0x20..<0x7f}" by (simp add: word_le_nat_alt)
  then have "(of_nat (unat b) :: u8) \<in> of_nat ` {0x20..<0x7f}" by (rule imageI)
  then show ?thesis by (simp only: set_map set_upt of_nat_unat ucast_id)
qed

definition terminal_inv :: "nat \<Rightarrow> io_state \<Rightarrow> bool" where
  "terminal_inv ep io \<longleftrightarrow>
     byte_queue_inv TERMINAL_INPUT_CAPACITY (te_input (endpoints io ep)) \<and>
     byte_queue_inv TERMINAL_OUTPUT_CAPACITY (te_output (endpoints io ep))"

definition pending_input :: "nat \<Rightarrow> io_state \<Rightarrow> bytes" where
  "pending_input ep io = byte_queue_contents (te_input (endpoints io ep))"

definition pending_output :: "nat \<Rightarrow> io_state \<Rightarrow> bytes" where
  "pending_output ep io = byte_queue_contents (te_output (endpoints io ep))"

lemmas terminal_defs = terminal_inv_def pending_input_def pending_output_def

lemma push_input_byte_spec:
  assumes "terminal_inv ep io"
  shows "terminal_inv ep (snd (push_input_byte ep b io)) \<and>
         pending_input ep (snd (push_input_byte ep b io)) =
           take TERMINAL_INPUT_CAPACITY (pending_input ep io @ [b])"
proof -
  obtain acc q where p: "byte_queue_push TERMINAL_INPUT_CAPACITY b (te_input (endpoints io ep)) = (acc, q)"
    by fastforce
  have inv: "byte_queue_inv TERMINAL_INPUT_CAPACITY (te_input (endpoints io ep))"
    using assms by (simp add: terminal_inv_def)
  have "acc \<longleftrightarrow> length (pending_input ep io) < TERMINAL_INPUT_CAPACITY"
    using p by (auto simp: byte_queue_push_def pending_input_def byte_queue_contents_def split: if_splits)
  with inputq.push_cases [OF inv p] inputq.contents_bound [OF inv] assms p show ?thesis
    by (auto simp: push_input_byte_def terminal_defs)
qed

lemma handle_key_event_spec:
  assumes "terminal_inv ep io"
  shows "terminal_inv ep (handle_key_event ep ev io) \<and>
         pending_input ep (handle_key_event ep ev io) =
           take TERMINAL_INPUT_CAPACITY
             (pending_input ep io @ (case key_event_to_input_byte ev of None \<Rightarrow> [] | Some b \<Rightarrow> [b]))"
  using assms push_input_byte_spec [OF assms] inputq.contents_bound
  by (auto simp: handle_key_event_def terminal_defs split: option.split)

lemma take_take_append: "take n (take n xs @ ys) = take n (xs @ ys)"
  by (cases "n \<le> length xs") auto

lemma drain_key_events_exact:
  assumes "event_queue_inv (kb_queue kb)" and "terminal_inv ep io"
    and "event_queue_contents (kb_queue kb) = evs" and "length evs < fuel"
  shows "\<exists>kb' io'. drain_key_events fuel ep kb io = Some (kb', io') \<and>
           event_queue_contents (kb_queue kb') = [] \<and> terminal_inv ep io' \<and>
           pending_input ep io' =
             take TERMINAL_INPUT_CAPACITY
               (pending_input ep io @ List.map_filter key_event_to_input_byte evs)"
  using assms
proof (induction evs arbitrary: fuel kb io)
  case Nil
  then obtain f where "fuel = Suc f" by (cases fuel) auto
  with Nil eventq.pop_none [of "kb_queue kb"] show ?case
    using inputq.contents_bound by (auto simp: pop_event_def terminal_defs List.map_filter_def)
next
  case (Cons ev evs)
  then obtain f where f: "fuel = Suc f" "length evs < f" by (cases fuel) auto
  obtain q' where q': "event_queue_pop (kb_queue kb) = (Some ev, q')" "event_queue_inv q'"
      "event_queue_contents q' = evs"
    using eventq.pop_some [OF Cons.prems(1,3)] by auto
  let ?io = "handle_key_event ep ev io"
  have "\<exists>kb' io'. drain_key_events f ep (kb\<lparr>kb_queue := q'\<rparr>) ?io = Some (kb', io') \<and>
           event_queue_contents (kb_queue kb') = [] \<and> terminal_inv ep io' \<and>
           pending_input ep io' = take TERMINAL_INPUT_CAPACITY
             (pending_input ep ?io @ List.map_filter key_event_to_input_byte evs)"
    using q' f handle_key_event_spec [OF Cons.prems(2)] by (intro Cons.IH) auto
  with f q' handle_key_event_spec [OF Cons.prems(2), of ev] show ?case
    by (auto simp: pop_event_def take_take_append List.map_filter_simps simp del: take_append
        split: option.splits)
qed

section \<open>Properties\<close>

text \<open>Whatever the interleaving of key events pushed by the terminal thread and reads by
  programs, the bytes taken from a terminal endpoint's input queue, followed by the bytes still
  queued, are exactly the bytes the queue accepted, in order; the queue never holds more than its
  capacity.\<close>

theorem terminal_input_fifo:
  "case run_queue (byte_queue_push TERMINAL_INPUT_CAPACITY) (byte_queue_pop TERMINAL_INPUT_CAPACITY)
          ops (byte_queue_new TERMINAL_INPUT_CAPACITY) of
     (accepted, taken, q) \<Rightarrow>
       taken @ byte_queue_contents q = accepted \<and>
       length (byte_queue_contents q) \<le> TERMINAL_INPUT_CAPACITY"
proof (cases "run_queue (byte_queue_push TERMINAL_INPUT_CAPACITY)
          (byte_queue_pop TERMINAL_INPUT_CAPACITY) ops (byte_queue_new TERMINAL_INPUT_CAPACITY)")
  case (fields accepted taken q)
  have "byte_queue_inv TERMINAL_INPUT_CAPACITY (byte_queue_new TERMINAL_INPUT_CAPACITY)"
    by (simp add: TERMINAL_INPUT_CAPACITY_def)
  from inputq.run_fifo [OF this fields] fields inputq.contents_bound show ?thesis by simp
qed

text \<open>C36. The terminal thread's loop over queued key events ends, empties the event queue and
  appends to the endpoint's input the characters of the pressed keys, in order; what does not fit
  in the input queue is dropped from the end.\<close>

theorem key_events_reach_terminal:
  assumes "event_queue_inv (kb_queue kb)" and "terminal_inv ep io"
  shows "\<exists>kb' io'. drain_key_events (Suc EVENT_QUEUE_CAPACITY) ep kb io = Some (kb', io') \<and>
           event_queue_contents (kb_queue kb') = [] \<and> terminal_inv ep io' \<and>
           pending_input ep io' =
             take TERMINAL_INPUT_CAPACITY
               (pending_input ep io @
                List.map_filter key_event_to_input_byte (event_queue_contents (kb_queue kb)))"
  using eventq.contents_bound [OF assms(1)]
  by (intro drain_key_events_exact [OF assms refl]) simp

theorem key_events_reach_terminal_witness:
  "\<exists>kb' io'. drain_key_events (Suc EVENT_QUEUE_CAPACITY) 0
       (process_byte 0x23 (process_byte 0x2a keyboard_new))
       \<lparr>endpoints = (\<lambda>_. terminal_endpoint_new), serial_ready = False, serial_log = []\<rparr>
     = Some (kb', io') \<and> pending_input 0 io' = [0x48]"
proof -
  let ?kb = "process_byte 0x23 (process_byte 0x2a keyboard_new)"
  let ?io = "\<lparr>endpoints = (\<lambda>_. terminal_endpoint_new), serial_ready = False, serial_log = []\<rparr>"
  have kb: "event_queue_inv (kb_queue ?kb)"
    by (intro process_byte_queue_inv) (simp add: keyboard_new_def)
  have io: "terminal_inv 0 ?io"
    by (simp add: terminal_inv_def terminal_endpoint_new_def TERMINAL_INPUT_CAPACITY_def
        TERMINAL_OUTPUT_CAPACITY_def)
  have "event_queue_contents (kb_queue ?kb) =
      [\<lparr>ke_key = LeftShift, ke_state = Pressed, ke_shift_active = True\<rparr>,
       \<lparr>ke_key = KeyH, ke_state = Pressed, ke_shift_active = True\<rparr>]"
    by code_simp
  moreover have "pending_input 0 ?io = []"
    by (simp add: pending_input_def terminal_endpoint_new_def)
  ultimately show ?thesis
    using key_events_reach_terminal [OF kb io]
    by (auto simp: List.map_filter_simps key_event_to_input_byte_def shifted_byte_def
        TERMINAL_INPUT_CAPACITY_def)
qed

text \<open>A key event gives a newline, a delete or a printable ASCII byte, and nothing else: no
  control byte can be typed.\<close>

theorem typed_bytes_are_text:
  "key_event_to_input_byte ev = Some b \<Longrightarrow> b = 0x0a \<or> b = 0x7f \<or> (0x20 \<le> b \<and> b \<le> 0x7e)"
  by (auto simp: key_event_to_input_byte_def shifted_byte_def Let_def
      split: key_code.splits if_splits)

theorem typed_bytes_are_text_witness:
  "key_event_to_input_byte \<lparr>ke_key = KeyA, ke_state = Pressed, ke_shift_active = True\<rparr> = Some 0x41
   \<and> (0x41 = (0x0a::u8) \<or> 0x41 = (0x7f::u8) \<or> (0x20 \<le> (0x41::u8) \<and> 0x41 \<le> (0x7e::u8)))"
proof -
  have h: "key_event_to_input_byte
      \<lparr>ke_key = KeyA, ke_state = Pressed, ke_shift_active = True\<rparr> = Some 0x41"
    by (simp add: key_event_to_input_byte_def shifted_byte_def)
  from h typed_bytes_are_text [OF h] show ?thesis by simp
qed

text \<open>The keyboard covers its alphabet: every printable ASCII character is produced by some
  scan code with or without shift.\<close>

theorem every_printable_byte_typable:
  assumes "0x20 \<le> b" and "b \<le> 0x7e"
  shows "\<exists>sc shift. key_event_to_input_byte
           \<lparr>ke_key = decode_key sc, ke_state = Pressed, ke_shift_active = shift\<rparr> = Some b"
proof -
  have "Some b \<in> set (map Some (map of_nat [0x20..<0x7f]))"
    using printable_listed [OF assms] by (simp del: upt_conv_Cons)
  then obtain sc shift where "Some b = key_event_to_input_byte
      \<lparr>ke_key = decode_key sc, ke_state = Pressed, ke_shift_active = shift\<rparr>"
    unfolding us_layout_types_printable [symmetric] by auto
  then show ?thesis by (metis (full_types))
qed

theorem every_printable_byte_typable_witness:
  "\<exists>sc shift. key_event_to_input_byte
     \<lparr>ke_key = decode_key sc, ke_state = Pressed, ke_shift_active = shift\<rparr> = Some 0x7b"
  using every_printable_byte_typable [of "0x7b"] by simp

end
