(* ===== verification/Environment.thy ===== *)
theory Environment
  imports Lazers_Prelude
begin

text \<open>
  The fixed-capacity environment block of a process, \<^verbatim>\<open>kernel/kernel/src/env.rs\<close>. Keys and
  values are Rust \<^verbatim>\<open>str\<close>s, that is well-formed UTF-8 byte sequences; entries store them in
  fixed arrays with a length. The locale \<open>key_value_store\<close> is the contract the process services
  and the shell rely on: a finite map with a capacity. The block implements it, keeps insertion
  order, and none of its operations panics.
\<close>

section \<open>Data\<close>

definition MAX_ENV_VARS :: nat where "MAX_ENV_VARS = 16"
definition MAX_ENV_KEY_LEN :: nat where "MAX_ENV_KEY_LEN = 32"
definition MAX_ENV_VALUE_LEN :: nat where "MAX_ENV_VALUE_LEN = 128"

datatype environment_error = InvalidKey | KeyTooLong | ValueTooLong | CapacityExceeded

record env_entry =
  ee_key :: bytes
  ee_key_len :: nat
  ee_value :: bytes
  ee_value_len :: nat

record environment =
  env_entries :: "env_entry list"
  env_len :: nat

section \<open>Entries\<close>

definition env_entry_empty :: env_entry where
  "env_entry_empty =
     \<lparr>ee_key = replicate MAX_ENV_KEY_LEN 0, ee_key_len = 0,
      ee_value = replicate MAX_ENV_VALUE_LEN 0, ee_value_len = 0\<rparr>"

definition entry_set_value :: "env_entry \<Rightarrow> bytes \<Rightarrow> (env_entry, environment_error) outcome" where
  "entry_set_value e value =
     and_then (copy_at (ee_value e) 0 value)
       (\<lambda>v. Ok (e\<lparr>ee_value := v, ee_value_len := length value\<rparr>))"

definition entry_set_pair :: "env_entry \<Rightarrow> bytes \<Rightarrow> bytes \<Rightarrow> (env_entry, environment_error) outcome" where
  "entry_set_pair e key value =
     and_then (copy_at (ee_key e) 0 key)
       (\<lambda>k. entry_set_value (e\<lparr>ee_key := k, ee_key_len := length key\<rparr>) value)"

definition entry_key :: "env_entry \<Rightarrow> (bytes, environment_error) outcome" where
  "entry_key e = and_then (slice (ee_key e) 0 (ee_key_len e))
     (\<lambda>s. Ok (case from_utf8 s of Some k \<Rightarrow> k | None \<Rightarrow> []))"

definition entry_value :: "env_entry \<Rightarrow> (bytes, environment_error) outcome" where
  "entry_value e = and_then (slice (ee_value e) 0 (ee_value_len e))
     (\<lambda>s. Ok (case from_utf8 s of Some v \<Rightarrow> v | None \<Rightarrow> []))"

definition validate_key :: "bytes \<Rightarrow> (unit, environment_error) outcome" where
  "validate_key key =
     (if key = [] \<or> 0x3d \<in> set key then Err InvalidKey
      else if MAX_ENV_KEY_LEN < length key then Err KeyTooLong
      else Ok ())"

section \<open>The block\<close>

definition environment_new :: environment where
  "environment_new = \<lparr>env_entries = replicate MAX_ENV_VARS env_entry_empty, env_len = 0\<rparr>"

function env_find_from :: "environment \<Rightarrow> bytes \<Rightarrow> nat \<Rightarrow> (nat option, environment_error) outcome" where
  "env_find_from env key i =
     (if i < env_len env
      then and_then (index (env_entries env) i)
             (\<lambda>e. and_then (entry_key e)
               (\<lambda>k. if k = key then Ok (Some i) else env_find_from env key (i + 1)))
      else Ok None)"
  by pat_completeness auto
termination
  by (relation "measure (\<lambda>(env, key, i). env_len env - i)") auto

definition env_find_index :: "environment \<Rightarrow> bytes \<Rightarrow> (nat option, environment_error) outcome" where
  "env_find_index env key = env_find_from env key 0"

definition env_set :: "bytes \<Rightarrow> bytes \<Rightarrow> environment \<Rightarrow> (environment, environment_error) outcome" where
  "env_set key value env =
     and_then (validate_key key) (\<lambda>_.
       if MAX_ENV_VALUE_LEN < length value then Err ValueTooLong
       else and_then (env_find_index env key) (\<lambda>found.
         case found of
           Some i \<Rightarrow>
             and_then (index (env_entries env) i) (\<lambda>e.
             and_then (entry_set_value e value) (\<lambda>e'.
             and_then (store (env_entries env) i e') (\<lambda>es. Ok (env\<lparr>env_entries := es\<rparr>))))
         | None \<Rightarrow>
             if env_len env = length (env_entries env) then Err CapacityExceeded
             else
               and_then (index (env_entries env) (env_len env)) (\<lambda>e.
               and_then (entry_set_pair e key value) (\<lambda>e'.
               and_then (store (env_entries env) (env_len env) e') (\<lambda>es.
                 Ok (env\<lparr>env_entries := es, env_len := env_len env + 1\<rparr>))))))"

definition env_remove :: "bytes \<Rightarrow> environment \<Rightarrow> (bool \<times> environment, environment_error) outcome" where
  "env_remove key env =
     and_then (validate_key key) (\<lambda>_.
       and_then (env_find_index env key) (\<lambda>found.
         case found of
           None \<Rightarrow> Ok (False, env)
         | Some i \<Rightarrow>
             and_then (shift_left (env_entries env) i (env_len env)) (\<lambda>es.
             and_then (store es (env_len env - 1) env_entry_empty) (\<lambda>es'.
               Ok (True, env\<lparr>env_entries := es', env_len := env_len env - 1\<rparr>)))))"

definition env_get :: "bytes \<Rightarrow> environment \<Rightarrow> (bytes option, environment_error) outcome" where
  "env_get key env =
     and_then (validate_key key) (\<lambda>_.
       and_then (env_find_index env key) (\<lambda>found.
         case found of
           None \<Rightarrow> Ok None
         | Some i \<Rightarrow> and_then (index (env_entries env) i) (\<lambda>e.
                      and_then (entry_value e) (\<lambda>v. Ok (Some v)))))"

function env_clear_from :: "environment \<Rightarrow> nat \<Rightarrow> (environment, environment_error) outcome" where
  "env_clear_from env i =
     (if i < env_len env
      then and_then (store (env_entries env) i env_entry_empty)
             (\<lambda>es. env_clear_from (env\<lparr>env_entries := es\<rparr>) (i + 1))
      else Ok (env\<lparr>env_len := 0\<rparr>))"
  by pat_completeness auto
termination
  by (relation "measure (\<lambda>(env, i). env_len env - i)") auto

definition env_clear :: "environment \<Rightarrow> (environment, environment_error) outcome" where
  "env_clear env = env_clear_from env 0"

text \<open>The child block is changed entry by entry, so a failing \<^verbatim>\<open>set\<close> leaves the entries copied
  so far: the child is returned with the outcome.\<close>

function env_copy_from ::
  "environment \<Rightarrow> nat \<Rightarrow> environment \<Rightarrow> (unit, environment_error) outcome \<times> environment" where
  "env_copy_from env i child =
     (if i < env_len env
      then case and_then (index (env_entries env) i) (\<lambda>e.
                  and_then (entry_key e) (\<lambda>k.
                  and_then (entry_value e) (\<lambda>v. env_set k v child))) of
             Ok child' \<Rightarrow> env_copy_from env (i + 1) child'
           | Err e \<Rightarrow> (Err e, child)
           | Panic \<Rightarrow> (Panic, child)
      else (Ok (), child))"
  by pat_completeness auto
termination
  by (relation "measure (\<lambda>(env, i, child). env_len env - i)") auto

definition env_inherit_into ::
  "environment \<Rightarrow> environment \<Rightarrow> (unit, environment_error) outcome \<times> environment" where
  "env_inherit_into env child =
     (case env_clear child of
        Ok child' \<Rightarrow> env_copy_from env 0 child'
      | Err e \<Rightarrow> (Err e, child)
      | Panic \<Rightarrow> (Panic, child))"

text \<open>\<^verbatim>\<open>write_listing_into\<close>: the number of bytes written, with the buffer. On
  \<^verbatim>\<open>CapacityExceeded\<close> the entries that fitted stay in the buffer.\<close>

definition env_write_line ::
  "env_entry \<Rightarrow> nat \<Rightarrow> bytes \<Rightarrow> (bytes \<times> nat, environment_error) outcome" where
  "env_write_line e written buf =
     and_then (slice (ee_key e) 0 (ee_key_len e)) (\<lambda>k.
     and_then (slice (ee_value e) 0 (ee_value_len e)) (\<lambda>v.
     and_then (copy_at buf written k) (\<lambda>b1.
     and_then (store b1 (written + length k) 0x3d) (\<lambda>b2.
     and_then (copy_at b2 (written + length k + 1) v) (\<lambda>b3.
     and_then (store b3 (written + length k + 1 + length v) 0x0a) (\<lambda>b4.
       Ok (b4, written + length k + 1 + length v + 1)))))))"

function env_list_from ::
  "environment \<Rightarrow> nat \<Rightarrow> nat \<Rightarrow> bytes \<Rightarrow> (nat, environment_error) outcome \<times> bytes" where
  "env_list_from env i written buf =
     (if i < env_len env
      then case index (env_entries env) i of
             Ok e \<Rightarrow>
               (let needed = ee_key_len e + 1 + ee_value_len e + 1
                in if length buf < written + needed then (Err CapacityExceeded, buf)
                   else case env_write_line e written buf of
                          Ok (buf', written') \<Rightarrow> env_list_from env (i + 1) written' buf'
                        | Err err \<Rightarrow> (Err err, buf)
                        | Panic \<Rightarrow> (Panic, buf))
           | Err err \<Rightarrow> (Err err, buf)
           | Panic \<Rightarrow> (Panic, buf)
      else (Ok written, buf))"
  by pat_completeness auto
termination
  by (relation "measure (\<lambda>(env, i, written, buf). env_len env - i)") auto

definition env_write_listing_into ::
  "environment \<Rightarrow> bytes \<Rightarrow> (nat, environment_error) outcome \<times> bytes" where
  "env_write_listing_into env buf = env_list_from env 0 0 buf"

declare env_find_from.simps [simp del] env_clear_from.simps [simp del]
  env_copy_from.simps [simp del] env_list_from.simps [simp del]

section \<open>The contract\<close>

text \<open>What the callers of the block rely on. \<open>set_ok\<close> and \<open>set_full\<close> together say when a
  \<^verbatim>\<open>set\<close> succeeds: always, except for a fresh key in a full store.\<close>

locale key_value_store =
  fixes set_kv :: "'k \<Rightarrow> 'v \<Rightarrow> 's \<Rightarrow> ('s, 'e) outcome"
    and get_kv :: "'k \<Rightarrow> 's \<Rightarrow> ('v option, 'e) outcome"
    and remove_kv :: "'k \<Rightarrow> 's \<Rightarrow> (bool \<times> 's, 'e) outcome"
    and lookup :: "'s \<Rightarrow> 'k \<Rightarrow> 'v option"
    and invar :: "'s \<Rightarrow> bool"
    and good_key :: "'k \<Rightarrow> bool"
    and good_value :: "'v \<Rightarrow> bool"
    and full :: 'e
    and cap :: nat
  assumes set_ok: "invar s \<Longrightarrow> good_key k \<Longrightarrow> good_value v \<Longrightarrow>
        k \<in> dom (lookup s) \<or> card (dom (lookup s)) < cap \<Longrightarrow>
        \<exists>s'. set_kv k v s = Ok s' \<and> invar s' \<and> lookup s' = (lookup s)(k \<mapsto> v)"
    and set_full: "invar s \<Longrightarrow> good_key k \<Longrightarrow> good_value v \<Longrightarrow>
        k \<notin> dom (lookup s) \<Longrightarrow> card (dom (lookup s)) = cap \<Longrightarrow> set_kv k v s = Err full"
    and get_ok: "invar s \<Longrightarrow> good_key k \<Longrightarrow> get_kv k s = Ok (lookup s k)"
    and remove_ok: "invar s \<Longrightarrow> good_key k \<Longrightarrow>
        \<exists>s'. remove_kv k s = Ok (k \<in> dom (lookup s), s') \<and> invar s' \<and>
             lookup s' = (lookup s)(k := None)"
    and cap_bound: "invar s \<Longrightarrow> card (dom (lookup s)) \<le> cap"
begin

lemma set_cases:
  assumes "invar s" "good_key k" "good_value v"
  shows "(set_kv k v s = Err full \<and> k \<notin> dom (lookup s) \<and> card (dom (lookup s)) = cap) \<or>
         (\<exists>s'. set_kv k v s = Ok s' \<and> invar s' \<and> lookup s' = (lookup s)(k \<mapsto> v))"
  using set_ok [OF assms] set_full [OF assms] cap_bound [OF assms(1)] by fastforce

lemma get_after_set:
  assumes "invar s" "good_key k" "good_value v" "good_key k'" "set_kv k v s = Ok s'"
  shows "get_kv k' s' = Ok (if k' = k then Some v else lookup s k')"
  using set_cases [OF assms(1-3)] assms(4,5) by (auto simp: get_ok)

lemma get_after_remove:
  assumes "invar s" "good_key k" "good_key k'" "remove_kv k s = Ok (b, s')"
  shows "get_kv k' s' = Ok (if k' = k then None else lookup s k') \<and> (b \<longleftrightarrow> lookup s k \<noteq> None)"
  using remove_ok [OF assms(1,2)] assms(3,4) by (auto simp: get_ok)

end

section \<open>Invariant and abstraction\<close>

definition entry_wf :: "env_entry \<Rightarrow> bool" where
  "entry_wf e \<longleftrightarrow> length (ee_key e) = MAX_ENV_KEY_LEN \<and> length (ee_value e) = MAX_ENV_VALUE_LEN"

definition entry_pair :: "env_entry \<Rightarrow> bytes \<times> bytes" where
  "entry_pair e = (take (ee_key_len e) (ee_key e), take (ee_value_len e) (ee_value e))"

definition env_good_key :: "bytes \<Rightarrow> bool" where
  "env_good_key k \<longleftrightarrow> validate_key k = Ok () \<and> utf8_valid k"

definition env_good_value :: "bytes \<Rightarrow> bool" where
  "env_good_value v \<longleftrightarrow> length v \<le> MAX_ENV_VALUE_LEN \<and> utf8_valid v"

definition entry_ok :: "env_entry \<Rightarrow> bool" where
  "entry_ok e \<longleftrightarrow> ee_key_len e \<le> MAX_ENV_KEY_LEN \<and> ee_value_len e \<le> MAX_ENV_VALUE_LEN \<and>
     env_good_key (fst (entry_pair e)) \<and> env_good_value (snd (entry_pair e))"

definition env_pairs :: "environment \<Rightarrow> (bytes \<times> bytes) list" where
  "env_pairs env = map entry_pair (take (env_len env) (env_entries env))"

definition env_inv :: "environment \<Rightarrow> bool" where
  "env_inv env \<longleftrightarrow>
     length (env_entries env) = MAX_ENV_VARS \<and> env_len env \<le> MAX_ENV_VARS \<and>
     (\<forall>e \<in> set (env_entries env). entry_wf e) \<and>
     (\<forall>e \<in> set (take (env_len env) (env_entries env)). entry_ok e) \<and>
     distinct (map fst (env_pairs env))"

abbreviation env_lookup :: "environment \<Rightarrow> bytes \<Rightarrow> bytes option" where
  "env_lookup env \<equiv> map_of (env_pairs env)"

lemma length_env_pairs: "env_inv env \<Longrightarrow> length (env_pairs env) = env_len env"
  by (simp add: env_inv_def env_pairs_def)

lemma env_invD:
  assumes "env_inv env" "i < env_len env"
  shows "i < length (env_entries env)" "entry_wf (env_entries env ! i)" "entry_ok (env_entries env ! i)"
    "env_pairs env ! i = entry_pair (env_entries env ! i)"
proof -
  show i: "i < length (env_entries env)" using assms by (simp add: env_inv_def)
  then show "entry_wf (env_entries env ! i)" using assms by (simp add: env_inv_def)
  have "env_entries env ! i \<in> set (take (env_len env) (env_entries env))"
    using i assms(2) nth_mem [of i "take (env_len env) (env_entries env)"] by simp
  then show "entry_ok (env_entries env ! i)" using assms(1) by (simp add: env_inv_def)
  show "env_pairs env ! i = entry_pair (env_entries env ! i)"
    using i assms(2) by (simp add: env_pairs_def)
qed

lemma entry_key_ok:
  "entry_wf e \<Longrightarrow> entry_ok e \<Longrightarrow> entry_key e = Ok (fst (entry_pair e))"
  by (simp add: entry_wf_def entry_ok_def entry_key_def entry_pair_def env_good_key_def from_utf8_def)

lemma entry_value_ok:
  "entry_wf e \<Longrightarrow> entry_ok e \<Longrightarrow> entry_value e = Ok (snd (entry_pair e))"
  by (simp add: entry_wf_def entry_ok_def entry_value_def entry_pair_def env_good_value_def from_utf8_def)

lemma entry_set_value_ok:
  assumes "entry_wf e" "env_good_value v"
  shows "\<exists>e'. entry_set_value e v = Ok e' \<and> entry_wf e' \<and>
              ee_key e' = ee_key e \<and> ee_key_len e' = ee_key_len e \<and>
              ee_value_len e' = length v \<and> entry_pair e' = (fst (entry_pair e), v)"
  using assms by (auto simp: entry_set_value_def entry_wf_def env_good_value_def entry_pair_def)

lemma entry_set_pair_ok:
  assumes "entry_wf e" "env_good_key k" "env_good_value v"
  shows "\<exists>e'. entry_set_pair e k v = Ok e' \<and> entry_wf e' \<and> entry_ok e' \<and> entry_pair e' = (k, v)"
proof -
  have k: "length k \<le> MAX_ENV_KEY_LEN"
    using assms(2) by (auto simp: env_good_key_def validate_key_def split: if_splits)
  with assms show ?thesis
    by (auto simp: entry_set_pair_def entry_set_value_def entry_wf_def entry_ok_def
        env_good_value_def entry_pair_def)
qed

lemma env_find_from_spec:
  assumes "env_inv env"
  shows "\<exists>r. env_find_from env k i = Ok r \<and>
      (case r of
         None \<Rightarrow> \<forall>j. i \<le> j \<and> j < env_len env \<longrightarrow> fst (env_pairs env ! j) \<noteq> k
       | Some j \<Rightarrow> j < env_len env \<and> fst (env_pairs env ! j) = k)"
  using assms
proof (induction env k i rule: env_find_from.induct)
  case (1 env k i)
  show ?case
  proof (cases "i < env_len env")
    case True
    note e = env_invD [OF "1.prems" True]
    show ?thesis
    proof (cases "fst (env_pairs env ! i) = k")
      case eq: True
      with True e show ?thesis by (subst env_find_from.simps) (simp add: entry_key_ok)
    next
      case neq: False
      from 1(1) [OF True, of "env_entries env ! i" "fst (env_pairs env ! i)"] True e neq "1.prems"
      obtain r where r: "env_find_from env k (i + 1) = Ok r"
        "case r of None \<Rightarrow> \<forall>j. i + 1 \<le> j \<and> j < env_len env \<longrightarrow> fst (env_pairs env ! j) \<noteq> k
         | Some j \<Rightarrow> j < env_len env \<and> fst (env_pairs env ! j) = k"
        by (auto simp: entry_key_ok)
      then have "case r of None \<Rightarrow> \<forall>j. i \<le> j \<and> j < env_len env \<longrightarrow> fst (env_pairs env ! j) \<noteq> k
         | Some j \<Rightarrow> j < env_len env \<and> fst (env_pairs env ! j) = k"
        using neq by (auto simp: Suc_le_eq split: option.splits) (metis le_neq_implies_less)
      with True e neq r(1) show ?thesis
        by (subst env_find_from.simps) (simp add: entry_key_ok)
    qed
  next
    case False
    then show ?thesis by (subst env_find_from.simps) auto
  qed
qed

lemma env_find_index_cases:
  assumes "env_inv env"
  obtains (absent) "env_find_index env k = Ok None" "env_lookup env k = None" "k \<notin> fst ` set (env_pairs env)"
  | (present) j where "env_find_index env k = Ok (Some j)" "j < env_len env"
      "fst (env_pairs env ! j) = k" "env_lookup env k = Some (snd (env_pairs env ! j))"
proof -
  obtain r where r: "env_find_index env k = Ok r"
    and c: "case r of None \<Rightarrow> \<forall>j. 0 \<le> j \<and> j < env_len env \<longrightarrow> fst (env_pairs env ! j) \<noteq> k
         | Some j \<Rightarrow> j < env_len env \<and> fst (env_pairs env ! j) = k"
    using env_find_from_spec [OF assms, of k 0] by (auto simp: env_find_index_def)
  show ?thesis
  proof (cases r)
    case None
    with c have "k \<notin> fst ` set (env_pairs env)"
      using length_env_pairs [OF assms] by (simp add: image_iff) (metis in_set_conv_nth)
    with None r show ?thesis by (intro absent) (auto simp: map_of_eq_None_iff)
  next
    case (Some j)
    with c have j: "j < length (env_pairs env)" "fst (env_pairs env ! j) = k"
      using length_env_pairs [OF assms] by auto
    from nth_mem [OF j(1)] have "(k, snd (env_pairs env ! j)) \<in> set (env_pairs env)"
      using j(2) by (metis prod.collapse)
    then have "env_lookup env k = Some (snd (env_pairs env ! j))"
      using assms by (intro map_of_is_SomeI) (auto simp: env_inv_def)
    with Some r c show ?thesis by (intro present) auto
  qed
qed

lemma card_dom_env_lookup: "env_inv env \<Longrightarrow> card (dom (env_lookup env)) = env_len env"
  using distinct_card [of "map fst (env_pairs env)"] length_env_pairs [of env]
  by (simp add: dom_map_of_conv_image_fst env_inv_def)

section \<open>The operations on the abstraction\<close>

lemma env_set_eq:
  assumes "env_inv env" "env_good_key k" "env_good_value v"
  shows "(k \<in> dom (env_lookup env) \<or> env_len env < MAX_ENV_VARS \<longrightarrow>
           (\<exists>env'. env_set k v env = Ok env' \<and> env_inv env' \<and>
              env_lookup env' = (env_lookup env)(k \<mapsto> v) \<and>
              (k \<notin> dom (env_lookup env) \<longrightarrow> env_pairs env' = env_pairs env @ [(k, v)]))) \<and>
         (k \<notin> dom (env_lookup env) \<and> env_len env = MAX_ENV_VARS \<longrightarrow>
           env_set k v env = Err CapacityExceeded)"
proof (rule env_find_index_cases [OF assms(1), of k], goal_cases absent present)
  case absent
  show ?thesis
  proof (cases "env_len env < MAX_ENV_VARS")
    case True
    let ?n = "env_len env"
    have n: "?n < length (env_entries env)" "entry_wf (env_entries env ! ?n)"
      using True assms(1) by (auto simp: env_inv_def)
    obtain e' where e': "entry_set_pair (env_entries env ! ?n) k v = Ok e'"
      "entry_wf e'" "entry_ok e'" "entry_pair e' = (k, v)"
      using entry_set_pair_ok [OF n(2) assms(2,3)] by blast
    let ?env = "env\<lparr>env_entries := (env_entries env)[?n := e'], env_len := ?n + 1\<rparr>"
    have p: "env_pairs ?env = env_pairs env @ [(k, v)]"
      using n e' by (simp add: env_pairs_def take_Suc_store)
    moreover have "env_inv ?env"
      using assms(1) True n e' p absent(3)
      by (auto simp: env_inv_def take_Suc_store dest!: set_update_subset_insert [THEN subsetD])
    moreover have "env_set k v env = Ok ?env"
      using assms(2,3) absent n e'
      by (simp add: env_set_def env_good_key_def env_good_value_def)
    ultimately show ?thesis
      using True absent map_of_snoc_fresh [OF absent(3)] by auto
  next
    case False
    with assms absent show ?thesis
      by (auto simp: env_set_def env_good_key_def env_good_value_def env_inv_def)
  qed
next
  case (present j)
  note e = env_invD [OF assms(1) present(2)]
  obtain e' where e': "entry_set_value (env_entries env ! j) v = Ok e'" "entry_wf e'"
    "ee_key e' = ee_key (env_entries env ! j)" "ee_key_len e' = ee_key_len (env_entries env ! j)"
    "ee_value_len e' = length v" "entry_pair e' = (fst (entry_pair (env_entries env ! j)), v)"
    using entry_set_value_ok [OF e(2) assms(3)] by blast
  let ?env = "env\<lparr>env_entries := (env_entries env)[j := e']\<rparr>"
  have k: "entry_pair e' = (k, v)" using e'(6) e(4) present(3) by simp
  have p: "env_pairs ?env = (env_pairs env)[j := (k, v)]"
    using k by (simp add: env_pairs_def take_update_swap map_update)
  have "entry_ok e'"
    using e(3) e' k assms(2,3) by (simp add: entry_ok_def env_good_value_def)
  moreover have "map fst ((env_pairs env)[j := (k, v)]) = map fst (env_pairs env)"
    using present(2,3) length_env_pairs [OF assms(1)] by (simp add: map_update list_update_same_conv)
  ultimately have "env_inv ?env"
    using assms(1) e'(2) p
    by (auto simp: env_inv_def take_update_swap dest!: set_update_subset_insert [THEN subsetD])
  moreover have "env_set k v env = Ok ?env"
    using assms(2,3) present e e' by (simp add: env_set_def env_good_key_def env_good_value_def)
  moreover have "env_lookup ?env = (env_lookup env)(k \<mapsto> v)"
    using p map_of_update_nth [of "env_pairs env" j k v] present(2,3) assms(1)
      length_env_pairs [OF assms(1)] by (simp add: env_inv_def)
  ultimately show ?thesis using present by auto
qed

lemma env_get_eq:
  assumes "env_inv env" "env_good_key k"
  shows "env_get k env = Ok (env_lookup env k)"
proof (rule env_find_index_cases [OF assms(1), of k], goal_cases absent present)
  case absent
  with assms(2) show ?thesis by (simp add: env_get_def env_good_key_def)
next
  case (present j)
  note e = env_invD [OF assms(1) present(2)]
  from present e assms(2) show ?thesis
    by (simp add: env_get_def env_good_key_def entry_value_ok)
qed

lemma entry_wf_empty [simp]: "entry_wf env_entry_empty"
  by (simp add: entry_wf_def env_entry_empty_def)

lemma env_remove_eq:
  assumes "env_inv env" "env_good_key k"
  shows "\<exists>env'. env_remove k env = Ok (k \<in> dom (env_lookup env), env') \<and> env_inv env' \<and>
           env_lookup env' = (env_lookup env)(k := None)"
proof (rule env_find_index_cases [OF assms(1), of k], goal_cases absent present)
  case absent
  with assms show ?thesis
    by (auto simp: env_remove_def env_good_key_def fun_eq_iff)
next
  case (present j)
  let ?es = "env_entries env" and ?n = "env_len env"
  have n: "?n \<le> length ?es" "j < ?n" using assms(1) present(2) by (auto simp: env_inv_def)
  let ?sh = "take j ?es @ drop (Suc j) (take ?n ?es) @ drop (?n - 1) ?es"
  let ?env = "env\<lparr>env_entries := ?sh[?n - 1 := env_entry_empty], env_len := ?n - 1\<rparr>"
  have sh: "(shift_left ?es j ?n :: (_, environment_error) outcome) = Ok ?sh" using n by (intro shift_left_eq) auto
  have tk: "take (?n - 1) (?sh[?n - 1 := env_entry_empty]) = take j ?es @ drop (Suc j) (take ?n ?es)"
    using n by (simp add: take_update_cancel del: drop_take) 
  have p: "env_pairs ?env = take j (env_pairs env) @ drop (Suc j) (env_pairs env)"
    using tk n by (simp add: env_pairs_def take_map drop_map min_def)
  have "set (?sh[?n - 1 := env_entry_empty]) \<subseteq> insert env_entry_empty (set ?es)"
    by (rule set_update_subsetI) (auto dest: in_set_takeD in_set_dropD)
  moreover have "set (take j ?es @ drop (Suc j) (take ?n ?es)) \<subseteq> set (take ?n ?es)"
    using n set_take_subset_set_take [of j ?n ?es] set_drop_subset [of "Suc j" "take ?n ?es"]
    by (auto simp del: drop_take)
  moreover have "distinct (map fst (take j (env_pairs env) @ drop (Suc j) (env_pairs env)))"
    using assms(1) distinct_remove_nth [of "map fst (env_pairs env)" j]
    by (simp add: env_inv_def take_map drop_map)
  ultimately have "env_inv ?env"
    using assms(1) p tk n by (auto simp: env_inv_def)
  moreover have "env_remove k env = Ok (True, ?env)"
    using assms(2) present n sh by (simp add: env_remove_def env_good_key_def)
  moreover have "env_lookup ?env = (env_lookup env)(k := None)"
    using p map_of_remove_nth [of "env_pairs env" j k] present(2,3) assms(1)
      length_env_pairs [OF assms(1)] by (simp add: env_inv_def)
  ultimately show ?thesis using present by auto
qed

lemma card_dom_le_cap: "env_inv env \<Longrightarrow> card (dom (env_lookup env)) \<le> MAX_ENV_VARS"
  by (simp add: card_dom_env_lookup env_inv_def)

interpretation env: key_value_store env_set env_get env_remove env_lookup env_inv
  env_good_key env_good_value CapacityExceeded MAX_ENV_VARS
proof
  fix s k v
  assume a: "env_inv s" "env_good_key k" "env_good_value v"
  show "\<exists>s'. env_set k v s = Ok s' \<and> env_inv s' \<and> env_lookup s' = (env_lookup s)(k \<mapsto> v)"
    if "k \<in> dom (env_lookup s) \<or> card (dom (env_lookup s)) < MAX_ENV_VARS"
    using that env_set_eq [OF a] a(1) by (simp add: card_dom_env_lookup) metis
  show "env_set k v s = Err CapacityExceeded"
    if "k \<notin> dom (env_lookup s)" "card (dom (env_lookup s)) = MAX_ENV_VARS"
    using that env_set_eq [OF a] a(1) by (simp add: card_dom_env_lookup)
qed (use env_get_eq env_remove_eq card_dom_le_cap in auto)

lemma env_inv_new: "env_inv environment_new"
  by (simp add: env_inv_def environment_new_def env_pairs_def)

lemma env_pairs_new [simp]: "env_pairs environment_new = []"
  by (simp add: environment_new_def env_pairs_def)

section \<open>Clearing and inheriting\<close>

lemma env_clear_from_spec:
  assumes "length (env_entries env) = MAX_ENV_VARS" "env_len env \<le> MAX_ENV_VARS"
    "\<forall>e \<in> set (env_entries env). entry_wf e"
  shows "\<exists>env'. env_clear_from env i = Ok env' \<and> env_inv env' \<and> env_len env' = 0"
  using assms
proof (induction env i rule: env_clear_from.induct)
  case (1 env i)
  show ?case
  proof (cases "i < env_len env")
    case True
    let ?es = "(env_entries env)[i := env_entry_empty]"
    have "\<forall>e \<in> set ?es. entry_wf e"
      using "1.prems" by (auto dest!: set_update_subset_insert [THEN subsetD])
    with 1(1) [OF True, of ?es] True "1.prems" show ?thesis
      by (subst env_clear_from.simps) auto
  next
    case False
    with "1.prems" show ?thesis
      by (subst env_clear_from.simps) (auto simp: env_inv_def env_pairs_def)
  qed
qed

lemma env_clear_spec:
  assumes "env_inv env"
  shows "\<exists>env'. env_clear env = Ok env' \<and> env_inv env' \<and> env_pairs env' = []"
proof -
  obtain env' where "env_clear_from env 0 = Ok env'" "env_inv env'" "env_len env' = 0"
    using env_clear_from_spec [of env 0] assms by (auto simp: env_inv_def)
  then show ?thesis by (auto simp: env_clear_def env_pairs_def)
qed

lemma env_copy_from_spec:
  assumes "env_inv env" "env_inv child" "env_pairs child = take i (env_pairs env)"
    "i \<le> env_len env"
  shows "\<exists>child'. env_copy_from env i child = (Ok (), child') \<and> env_inv child' \<and>
           env_pairs child' = env_pairs env"
  using assms
proof (induction env i child rule: env_copy_from.induct)
  case (1 env i child)
  note len = length_env_pairs [OF "1.prems"(1)]
  show ?case
  proof (cases "i < env_len env")
    case True
    note e = env_invD [OF "1.prems"(1) True]
    let ?k = "fst (env_pairs env ! i)" and ?v = "snd (env_pairs env ! i)"
    have good: "env_good_key ?k" "env_good_value ?v"
      using e by (auto simp: entry_ok_def)
    have "distinct (map fst (env_pairs env))" using "1.prems"(1) by (simp add: env_inv_def)
    then have "?k \<notin> fst ` set (take i (env_pairs env))"
      using True len nth_not_in_take [of "map fst (env_pairs env)" i]
      by (simp add: take_map flip: set_map)
    then have fresh: "?k \<notin> dom (env_lookup child)"
      using "1.prems"(3) by (simp add: dom_map_of_conv_image_fst)
    have "env_len child = i"
      using length_env_pairs [OF "1.prems"(2)] "1.prems"(3) len True by simp
    then have room: "env_len child < MAX_ENV_VARS" using True "1.prems"(1) by (simp add: env_inv_def)
    obtain child' where c: "env_set ?k ?v child = Ok child'" "env_inv child'"
      "env_pairs child' = env_pairs child @ [(?k, ?v)]"
      using env_set_eq [OF "1.prems"(2) good] fresh room by auto
    then have p: "env_pairs child' = take (i + 1) (env_pairs env)"
      using "1.prems"(3) True len by (simp add: take_Suc_conv_app_nth)
    have step: "and_then (index (env_entries env) i) (\<lambda>e. and_then (entry_key e) (\<lambda>k.
        and_then (entry_value e) (\<lambda>v. env_set k v child))) = Ok child'"
      using e c(1) by (simp add: entry_key_ok entry_value_ok)
    from 1(1) [OF True step "1.prems"(1) c(2) p] True show ?thesis
      by (subst env_copy_from.simps) (simp only: step, simp)
  next
    case False
    with "1.prems" len show ?thesis by (subst env_copy_from.simps) auto
  qed
qed

lemma env_inherit_spec:
  assumes "env_inv env" "env_inv child"
  shows "\<exists>child'. env_inherit_into env child = (Ok (), child') \<and> env_inv child' \<and>
           env_pairs child' = env_pairs env"
proof -
  obtain c where "env_clear child = Ok c" "env_inv c" "env_pairs c = []"
    using env_clear_spec [OF assms(2)] by blast
  with env_copy_from_spec [OF assms(1), of c 0] show ?thesis by (auto simp: env_inherit_into_def)
qed

section \<open>Listing\<close>

definition listing_line :: "bytes \<times> bytes \<Rightarrow> bytes" where
  "listing_line p = fst p @ [0x3d] @ snd p @ [0x0a]"

abbreviation env_listing :: "environment \<Rightarrow> bytes" where
  "env_listing env \<equiv> concat (map listing_line (env_pairs env))"

lemma write_line:
  assumes "entry_wf e" "entry_ok e" "written + length (listing_line (entry_pair e)) \<le> length buf"
  shows "env_write_line e written buf
       = Ok (overwrite buf written (listing_line (entry_pair e)),
             written + length (listing_line (entry_pair e)))"
proof -
  define k where "k = fst (entry_pair e)"
  define v where "v = snd (entry_pair e)"
  have kv: "slice (ee_key e) 0 (ee_key_len e) = Ok k" "slice (ee_value e) 0 (ee_value_len e) = Ok v"
    using assms(1,2) by (auto simp: entry_wf_def entry_ok_def entry_pair_def k_def v_def)
  have fits: "written + length k + 1 + length v + 1 \<le> length buf"
    using assms(3) by (simp add: listing_line_def k_def v_def)
  have o: "overwrite buf written (k @ [0x3d] @ v @ [0x0a]) =
      ((overwrite ((overwrite buf written k)[written + length k := 0x3d]) (written + length k + 1) v)
        [written + length k + 1 + length v := 0x0a])"
    using fits overwrite_append [of written buf k "[0x3d]"]
      overwrite_append [of written buf "k @ [0x3d]" v]
      overwrite_append [of written buf "k @ [0x3d] @ v" "[0x0a]"]
    by (simp add: list_update_overwrite add.assoc)
  show ?thesis
    using fits o by (simp add: env_write_line_def kv listing_line_def flip: k_def v_def)
qed

lemma env_list_from_spec:
  assumes "env_inv env" "i \<le> env_len env" "written \<le> length buf"
  defines "rest \<equiv> concat (map listing_line (drop i (env_pairs env)))"
  shows "(written + length rest \<le> length buf \<longrightarrow>
            env_list_from env i written buf = (Ok (written + length rest), overwrite buf written rest)) \<and>
         (length buf < written + length rest \<longrightarrow>
            (\<exists>buf'. env_list_from env i written buf = (Err CapacityExceeded, buf') \<and>
               length buf' = length buf))"
  using assms(1-3) unfolding rest_def
proof (induction env i written buf rule: env_list_from.induct)
  case (1 env i written buf)
  note len = length_env_pairs [OF "1.prems"(1)]
  show ?case
  proof (cases "i < env_len env")
    case True
    note e = env_invD [OF "1.prems"(1) True]
    let ?e = "env_entries env ! i"
    let ?line = "listing_line (env_pairs env ! i)"
    have ln: "length ?line = ee_key_len ?e + 1 + ee_value_len ?e + 1"
      using e by (simp add: listing_line_def entry_pair_def entry_wf_def entry_ok_def)
    have pieces: "drop i (env_pairs env) = env_pairs env ! i # drop (i + 1) (env_pairs env)"
      using True len by (simp add: Cons_nth_drop_Suc)
    show ?thesis
    proof (cases "written + length ?line \<le> length buf")
      case fits: True
      note w = write_line [OF e(2,3), of written buf, folded e(4), OF fits]
      have IH: "(written + length ?line + length (concat (map listing_line (drop (i + 1) (env_pairs env)))) \<le> length buf \<longrightarrow>
            env_list_from env (i + 1) (written + length ?line) (overwrite buf written ?line) =
              (Ok (written + length ?line + length (concat (map listing_line (drop (i + 1) (env_pairs env))))),
               overwrite (overwrite buf written ?line) (written + length ?line)
                 (concat (map listing_line (drop (i + 1) (env_pairs env)))))) \<and>
         (length buf < written + length ?line + length (concat (map listing_line (drop (i + 1) (env_pairs env)))) \<longrightarrow>
            (\<exists>buf'. env_list_from env (i + 1) (written + length ?line) (overwrite buf written ?line) =
                 (Err CapacityExceeded, buf') \<and> length buf' = length buf))"
        using 1(1) [OF True index_ok [OF e(1)] refl _ w refl "1.prems"(1)] fits True ln by simp
      have step: "env_list_from env i written buf =
          env_list_from env (i + 1) (written + length ?line) (overwrite buf written ?line)"
        using True fits ln e(1) by (subst env_list_from.simps) (simp add: w)
      show ?thesis
        using IH overwrite_append [of written buf ?line] "1.prems"(3)
        by (simp add: step pieces add.assoc)
    next
      case False
      with True ln e(1) pieces show ?thesis
        by (subst (1 2) env_list_from.simps) simp
    qed
  next
    case False
    with "1.prems" len show ?thesis
      by (subst (1 2) env_list_from.simps) (simp add: overwrite_def)
  qed
qed

lemma env_listing_spec:
  assumes "env_inv env"
  shows "(length (env_listing env) \<le> length buf \<longrightarrow>
            env_write_listing_into env buf
              = (Ok (length (env_listing env)), overwrite buf 0 (env_listing env))) \<and>
         (length buf < length (env_listing env) \<longrightarrow>
            (\<exists>buf'. env_write_listing_into env buf = (Err CapacityExceeded, buf') \<and>
               length buf' = length buf))"
  using env_list_from_spec [OF assms, of 0 0 buf] by (simp add: env_write_listing_into_def)

section \<open>Sequences of operations\<close>

text \<open>The operations a process can apply to its block through the environment system calls, on the
  block itself and on a finite map. The model's arguments are \<^verbatim>\<open>str\<close>s, so well-formed UTF-8.\<close>

datatype env_op = EnvSet bytes bytes | EnvUnset bytes | EnvGet bytes | EnvClear

datatype env_reply = Done | Existed bool | Found "bytes option"

fun env_op_utf8 :: "env_op \<Rightarrow> bool" where
  "env_op_utf8 (EnvSet k v) = (utf8_valid k \<and> utf8_valid v)"
| "env_op_utf8 (EnvUnset k) = utf8_valid k"
| "env_op_utf8 (EnvGet k) = utf8_valid k"
| "env_op_utf8 EnvClear = True"

fun env_apply :: "env_op \<Rightarrow> environment \<Rightarrow> (env_reply, environment_error) outcome \<times> environment" where
  "env_apply (EnvSet k v) env =
     (case env_set k v env of Ok env' \<Rightarrow> (Ok Done, env') | Err e \<Rightarrow> (Err e, env) | Panic \<Rightarrow> (Panic, env))"
| "env_apply (EnvUnset k) env =
     (case env_remove k env of Ok (b, env') \<Rightarrow> (Ok (Existed b), env') | Err e \<Rightarrow> (Err e, env) | Panic \<Rightarrow> (Panic, env))"
| "env_apply (EnvGet k) env =
     (case env_get k env of Ok r \<Rightarrow> (Ok (Found r), env) | Err e \<Rightarrow> (Err e, env) | Panic \<Rightarrow> (Panic, env))"
| "env_apply EnvClear env =
     (case env_clear env of Ok env' \<Rightarrow> (Ok Done, env') | Err e \<Rightarrow> (Err e, env) | Panic \<Rightarrow> (Panic, env))"

text \<open>The specification: a partial map with at most \<open>MAX_ENV_VARS\<close> keys, and the errors in the
  order the code checks them.\<close>

definition key_error :: "bytes \<Rightarrow> environment_error option" where
  "key_error k =
     (if k = [] \<or> 0x3d \<in> set k then Some InvalidKey
      else if MAX_ENV_KEY_LEN < length k then Some KeyTooLong else None)"

fun spec_apply :: "env_op \<Rightarrow> (bytes \<rightharpoonup> bytes) \<Rightarrow>
    (env_reply, environment_error) outcome \<times> (bytes \<rightharpoonup> bytes)" where
  "spec_apply (EnvSet k v) m =
     (case key_error k of
        Some e \<Rightarrow> (Err e, m)
      | None \<Rightarrow>
          if MAX_ENV_VALUE_LEN < length v then (Err ValueTooLong, m)
          else if k \<notin> dom m \<and> card (dom m) = MAX_ENV_VARS then (Err CapacityExceeded, m)
          else (Ok Done, m(k \<mapsto> v)))"
| "spec_apply (EnvUnset k) m =
     (case key_error k of Some e \<Rightarrow> (Err e, m) | None \<Rightarrow> (Ok (Existed (k \<in> dom m)), m(k := None)))"
| "spec_apply (EnvGet k) m =
     (case key_error k of Some e \<Rightarrow> (Err e, m) | None \<Rightarrow> (Ok (Found (m k)), m))"
| "spec_apply EnvClear m = (Ok Done, Map.empty)"

primrec run_ops :: "('op \<Rightarrow> 's \<Rightarrow> 'r \<times> 's) \<Rightarrow> 'op list \<Rightarrow> 's \<Rightarrow> 'r list \<times> 's" where
  "run_ops f [] s = ([], s)"
| "run_ops f (x # xs) s =
     (let (r, s') = f x s; (rs, s'') = run_ops f xs s' in (r # rs, s''))"

lemma validate_key_eq: "validate_key k = (case key_error k of Some e \<Rightarrow> Err e | None \<Rightarrow> Ok ())"
  by (simp add: validate_key_def key_error_def)

lemma env_good_key_iff: "env_good_key k \<longleftrightarrow> key_error k = None \<and> utf8_valid k"
  by (simp add: env_good_key_def validate_key_eq split: option.splits)

lemma env_apply_spec:
  assumes "env_inv env" "env_op_utf8 op"
  shows "fst (env_apply op env) = fst (spec_apply op (env_lookup env)) \<and>
         env_inv (snd (env_apply op env)) \<and>
         env_lookup (snd (env_apply op env)) = snd (spec_apply op (env_lookup env))"
proof (cases op)
  case (EnvSet k v)
  show ?thesis
  proof (cases "env_good_key k \<and> env_good_value v")
    case True
    then show ?thesis
      using env.set_cases [OF assms(1), of k v] env.set_full [OF assms(1), of k v] EnvSet assms(1)
      by (auto simp: env_good_key_iff env_good_value_def card_dom_env_lookup domIff)
  next
    case False
    with EnvSet assms show ?thesis
      by (auto simp: env_set_def validate_key_eq env_good_key_iff env_good_value_def
          split: option.splits)
  qed
next
  case (EnvUnset k)
  show ?thesis
  proof (cases "env_good_key k")
    case True
    then show ?thesis
      using env.remove_ok [OF assms(1), of k] EnvUnset by (auto simp: env_good_key_iff)
  next
    case False
    with EnvUnset assms show ?thesis
      by (auto simp: env_remove_def validate_key_eq env_good_key_iff split: option.splits)
  qed
next
  case (EnvGet k)
  show ?thesis
  proof (cases "env_good_key k")
    case True
    then show ?thesis using env.get_ok [OF assms(1), of k] EnvGet assms(1) by (auto simp: env_good_key_iff)
  next
    case False
    with EnvGet assms show ?thesis
      by (auto simp: env_get_def validate_key_eq env_good_key_iff split: option.splits)
  qed
next
  case EnvClear
  with env_clear_spec [OF assms(1)] show ?thesis by auto
qed

lemma env_set_example:
  "\<exists>env. env_set [0x41] [0x62] environment_new = Ok env \<and> env_inv env \<and>
     env_pairs env = [([0x41], [0x62])]"
proof -
  have "env_good_key [0x41]" "env_good_value [0x62]" by code_simp+
  moreover have "env_len environment_new < MAX_ENV_VARS"
    by (simp add: environment_new_def MAX_ENV_VARS_def)
  ultimately show ?thesis using env_set_eq [OF env_inv_new, of "[0x41]" "[0x62]"] by auto
qed

section \<open>Properties\<close>

text \<open>C15. Any sequence of set, unset, get and clear calls on an environment block, starting from the
  empty one, answers exactly as a finite map of at most 16 variables does, errors included; the
  block never panics, and it ends representing the map.\<close>

theorem environment_refines_map:
  assumes "\<forall>op \<in> set ops. env_op_utf8 op"
  shows "fst (run_ops env_apply ops environment_new) = fst (run_ops spec_apply ops Map.empty) \<and>
         env_lookup (snd (run_ops env_apply ops environment_new)) = snd (run_ops spec_apply ops Map.empty)"
proof -
  have "fst (run_ops env_apply ops env) = fst (run_ops spec_apply ops (env_lookup env)) \<and>
        env_lookup (snd (run_ops env_apply ops env)) = snd (run_ops spec_apply ops (env_lookup env))"
    if "env_inv env" for env
    using that assms
  proof (induction ops arbitrary: env)
    case (Cons op ops)
    then have ok: "env_op_utf8 op" "\<forall>op \<in> set ops. env_op_utf8 op" by auto
    note step = env_apply_spec [OF Cons.prems(1) ok(1)]
    with Cons.IH [OF _ ok(2), of "snd (env_apply op env)"] show ?case
      by (simp add: Let_def split_beta)
  qed simp
  from this [OF env_inv_new] show ?thesis by simp
qed

theorem environment_refines_map_witness:
  "fst (run_ops env_apply [EnvSet [0x41] [0x62], EnvSet [0x3d] [], EnvGet [0x41], EnvUnset [0x41], EnvGet [0x41]]
          environment_new)
     = [Ok Done, Err InvalidKey, Ok (Found (Some [0x62])), Ok (Existed True), Ok (Found None)]"
  using environment_refines_map [of "[EnvSet [0x41] [0x62], EnvSet [0x3d] [], EnvGet [0x41],
      EnvUnset [0x41], EnvGet [0x41]]"]
  by (simp add: key_error_def MAX_ENV_KEY_LEN_def MAX_ENV_VALUE_LEN_def MAX_ENV_VARS_def)

text \<open>Spawning copies the whole environment: whatever the child's block held before, after
  \<^verbatim>\<open>inherit_into\<close> it lists exactly the parent's variables, in the parent's order, and the copy
  cannot fail.\<close>

theorem inherit_copies_environment:
  assumes "env_inv parent" "env_inv child"
  shows "\<exists>child'. env_inherit_into parent child = (Ok (), child') \<and> env_inv child' \<and>
           env_pairs child' = env_pairs parent"
  using assms by (rule env_inherit_spec)

theorem inherit_copies_environment_witness:
  "\<exists>parent child'. env_set [0x41] [0x62] environment_new = Ok parent \<and>
     env_inherit_into parent environment_new = (Ok (), child') \<and> env_pairs child' = [([0x41], [0x62])]"
  using inherit_copies_environment [OF _ env_inv_new] env_set_example by metis

text \<open>C35. \<^verbatim>\<open>write_listing_into\<close> writes one \<^verbatim>\<open>KEY=VALUE\<close> line per variable in insertion
  order, touches nothing behind them, and reports \<^verbatim>\<open>CapacityExceeded\<close> exactly when the listing
  does not fit.\<close>

theorem listing_writes_every_variable:
  assumes "env_inv env"
  shows "(length (env_listing env) \<le> length buf \<longrightarrow>
            env_write_listing_into env buf
              = (Ok (length (env_listing env)), env_listing env @ drop (length (env_listing env)) buf)) \<and>
         (length buf < length (env_listing env) \<longrightarrow>
            fst (env_write_listing_into env buf) = Err CapacityExceeded)"
  using env_listing_spec [OF assms, of buf] by (auto simp: overwrite_def)

theorem listing_writes_every_variable_witness:
  "\<exists>env. env_set [0x41] [0x62] environment_new = Ok env \<and>
     env_write_listing_into env [1, 2, 3, 4, 5] = (Ok 4, [0x41, 0x3d, 0x62, 0x0a, 5])"
proof -
  obtain env where e: "env_set [0x41] [0x62] environment_new = Ok env" "env_inv env"
    "env_pairs env = [([0x41], [0x62])]"
    using env_set_example by blast
  with listing_writes_every_variable [OF e(2), of "[1, 2, 3, 4, 5]"] show ?thesis
    by (simp add: listing_line_def numeral_eq_Suc)
qed

end
