(* ===== verification/Lzutil.thy ===== *)
theory Lzutil
  imports Lazers_Prelude
begin

text \<open>
  The shared helpers of \<^verbatim>\<open>libs/lzutil/src/lib.rs\<close>: alignment of addresses and little-endian
  readers. The readers slice first, so they panic when the field does not lie inside the buffer.
\<close>

definition align_down :: "u64 \<Rightarrow> u64 \<Rightarrow> u64" where
  "align_down v align = v AND NOT (align - 1)"

definition align_up :: "u64 \<Rightarrow> u64 \<Rightarrow> u64" where
  "align_up v align = (if v = 0 then 0 else (v + align - 1) AND NOT (align - 1))"

definition read_le_u16 :: "bytes \<Rightarrow> nat \<Rightarrow> (u16, 'e) outcome" where
  "read_le_u16 bs off = and_then (slice bs off (off + 2)) (\<lambda>s. Ok (from_le_bytes s))"

definition read_le_u32 :: "bytes \<Rightarrow> nat \<Rightarrow> (u32, 'e) outcome" where
  "read_le_u32 bs off = and_then (slice bs off (off + 4)) (\<lambda>s. Ok (from_le_bytes s))"

definition read_le_u64 :: "bytes \<Rightarrow> nat \<Rightarrow> (u64, 'e) outcome" where
  "read_le_u64 bs off = and_then (slice bs off (off + 8)) (\<lambda>s. Ok (from_le_bytes s))"

section \<open>Alignment\<close>

lemma and_not_mask_eq: "w AND NOT (mask n) = push_bit n (drop_bit n w)" for w :: "'a::len word"
  by (rule bit_word_eqI) (auto simp: bit_simps)

lemma unat_and_not_mask:
  "unat (w AND NOT (mask n)) = unat w div 2 ^ n * 2 ^ n" for w :: "'a::len word"
proof -
  have "unat w div 2 ^ n * 2 ^ n \<le> unat w" by (rule div_times_less_eq_dividend)
  also have "\<dots> < 2 ^ LENGTH('a)" by simp
  finally show ?thesis
    by (simp add: and_not_mask_eq unsigned_push_bit_eq unsigned_drop_bit_eq take_bit_nat_eq_self
        push_bit_eq_mult [where ?'a = nat] drop_bit_eq_div [where ?'a = nat] min_def)
qed

lemma unat_align_down_pow:
  "unat (align_down v (2 ^ n)) = unat v div 2 ^ n * 2 ^ n"
  by (simp add: align_down_def unat_and_not_mask flip: mask_eq_exp_minus_1)

lemma unat_align_up_pow:
  assumes "unat v + 2 ^ n \<le> 2 ^ 64" and "n < 64"
  shows "unat (align_up v (2 ^ n)) = (unat v + 2 ^ n - 1) div 2 ^ n * 2 ^ n"
proof (cases "v = 0")
  case True
  then show ?thesis by (simp add: align_up_def)
next
  case False
  then have v: "0 < unat v" by (simp add: unat_gt_0)
  have pow: "unat (2 ^ n :: u64) = 2 ^ n"
    using assms(2) unat_of_nat [of "2 ^ n", where ?'a = 64] power_strict_increasing [of n 64 "2::nat"]
    by simp
  have le: "(1::u64) \<le> 2 ^ n" using pow by (simp add: word_le_nat_alt)
  then have m1: "unat ((2::u64) ^ n - 1) = 2 ^ n - 1"
    using pow by (simp add: unat_sub)
  moreover have "unat v + (2 ^ n - 1) < 2 ^ 64"
    using assms(1) v zero_less_power [of "2::nat" n] by linarith
  ultimately have "unat (v + mask n) = unat v + 2 ^ n - 1"
    using unat_add_lem [of v "mask n"] by (simp add: mask_eq_exp_minus_1)
  moreover have "align_up v (2 ^ n) = (v + mask n) AND NOT (mask n)"
    using False by (simp add: align_up_def mask_eq_exp_minus_1 add_diff_eq)
  ultimately show ?thesis by (simp add: unat_and_not_mask)
qed

lemmas unat_align_page =
  unat_align_down_pow [of _ 12, simplified]
  unat_align_up_pow [of _ 12, simplified]

lemmas unat_align_huge =
  unat_align_down_pow [of _ 21, simplified]
  unat_align_up_pow [of _ 21, simplified]

lemma align_down_le: "align_down v (2 ^ n) \<le> v"
  by (simp add: word_le_nat_alt unat_align_down_pow)

section \<open>Little-endian readers\<close>

lemma read_le_in_range [simp]:
  "off + 2 \<le> length bs \<Longrightarrow> read_le_u16 bs off = Ok (from_le_bytes (take 2 (drop off bs)))"
  "off + 4 \<le> length bs \<Longrightarrow> read_le_u32 bs off = Ok (from_le_bytes (take 4 (drop off bs)))"
  "off + 8 \<le> length bs \<Longrightarrow> read_le_u64 bs off = Ok (from_le_bytes (take 8 (drop off bs)))"
  by (simp_all add: read_le_u16_def read_le_u32_def read_le_u64_def)

lemma read_le_panics:
  "length bs < off + 2 \<Longrightarrow> read_le_u16 bs off = Panic"
  "length bs < off + 4 \<Longrightarrow> read_le_u32 bs off = Panic"
  "length bs < off + 8 \<Longrightarrow> read_le_u64 bs off = Panic"
  by (simp_all add: read_le_u16_def read_le_u32_def read_le_u64_def slice_def)

section \<open>Writing and reading little-endian integers\<close>

lemma length_to_le_bytes [simp]: "length (to_le_bytes n w) = n"
  by (induction n arbitrary: w) auto

lemma from_to_le_bytes_take: "from_le_bytes (to_le_bytes n w) = take_bit (8 * n) w"
  for w :: "'a::len word"
proof (induction n arbitrary: w)
  case 0
  then show ?case by simp
next
  case (Suc n)
  have low: "ucast (ucast w :: u8) = take_bit 8 w"
    by (rule bit_word_eqI) (auto simp: bit_simps)
  have "ucast (ucast w :: u8) + 256 * take_bit (8 * n) (drop_bit 8 w)
      = take_bit 8 w + push_bit 8 (take_bit (8 * n) (drop_bit 8 w))"
    by (simp add: low push_bit_eq_mult)
  also have "\<dots> = take_bit 8 w OR push_bit 8 (take_bit (8 * n) (drop_bit 8 w))"
    by (rule disjunctive_add) (auto simp: bit_simps)
  also have "\<dots> = take_bit (8 * Suc n) w"
    by (rule bit_word_eqI) (auto simp: bit_simps)
  finally show ?case using Suc.IH by simp
qed

lemma from_to_le_bytes [simp]:
  "from_le_bytes (to_le_bytes 2 w16) = w16"
  "from_le_bytes (to_le_bytes 4 w32) = w32"
  "from_le_bytes (to_le_bytes 8 w64) = w64"
  for w16 :: u16 and w32 :: u32 and w64 :: u64
  by (simp_all add: from_to_le_bytes_take take_bit_word_eq_self)

text \<open>A field at its offset in a concatenation of encoded fields.\<close>

lemma field_at:
  "off = length pre \<Longrightarrow> n = length fld \<Longrightarrow> take n (drop off (pre @ fld @ rest)) = fld"
  by simp

end
