(* ===== verification/Kernel_Errors.thy ===== *)
theory Kernel_Errors
  imports Lazers_Prelude
begin

text \<open>
  The error enums that cross component boundaries: \<^verbatim>\<open>ElfError\<close> of \<^verbatim>\<open>libs/elf\<close>,
  \<^verbatim>\<open>MemoryError\<close> of the kernel's memory subsystem and \<^verbatim>\<open>StorageError\<close> of its storage stack,
  each wrapping the one below it the way the source does.
\<close>

datatype elf_error =
    HeaderTooSmall
  | InvalidMagic
  | UnsupportedClass
  | UnsupportedEncoding
  | UnsupportedType
  | UnsupportedMachine
  | UnsupportedVersion
  | ProgramHeaderTruncated
  | ProgramHeaderTableOutOfRange
  | SegmentExtendsPastFile
  | AddressOutOfRange
  | ZeroLoadAddress

datatype memory_error =
    NoUsableMemory
  | AddressSpaceUninitialized
  | AllocatorExhausted
  | InvalidKernelBufferSize
  | SharedKernelMappingCapacityExceeded
  | Elf elf_error
  | UserImageOutOfRange
  | InvalidStartupArguments
  | StartupArgumentsTooLarge
  | SegmentOverlapCapacityExceeded
  | OwnedPageCapacityExceeded

datatype storage_error =
    Memory memory_error
  | AhciControllerNotFound
  | AhciPortNotFound
  | AhciCommandTimeout
  | AhciTaskFileError
  | InvalidGptHeader
  | InvalidPartitionTable
  | MissingEspPartition
  | MissingSystemPartition
  | InvalidFat32BootSector
  | InvalidPath
  | PathNotAbsolute
  | InvalidShortName
  | FileNotFound
  | NotAFile
  | NotADirectory
  | BufferTooSmall
  | RootFsUnavailable

end
