(* ===== verification/Allocator.thy ===== *)
theory Allocator
  imports Lzutil Kernel_Errors
begin

text \<open>
  The physical page allocator, \<^verbatim>\<open>kernel/kernel/src/memory/allocator.rs\<close>: a fixed table of free
  address ranges. The first part is the code; the second shows that its table operations are
  functions on the list of ranges in use and that this list stays sorted with gaps between its
  ranges; the third states the allocator as a set of free addresses. The locale
  \<open>page_source\<close> is what the page-table builder, the program loader and the kernel buffers rely
  on.
\<close>

section \<open>The code\<close>

definition PAGE_SIZE :: u64 where "PAGE_SIZE = 4096"
definition MAX_FREE_RANGES :: nat where "MAX_FREE_RANGES = 128"

record physical_region =
  pr_start :: u64
  pr_end :: u64

record physical_allocator =
  pa_regions :: "physical_region list"
  pa_count :: nat

definition region_empty :: physical_region where
  "region_empty = \<lparr>pr_start = 0, pr_end = 0\<rparr>"

definition region_is_empty :: "physical_region \<Rightarrow> bool" where
  "region_is_empty r \<longleftrightarrow> pr_start r = 0 \<or> pr_end r \<le> pr_start r"

definition region_allocate_page :: "physical_region \<Rightarrow> (u64 \<times> physical_region) option" where
  "region_allocate_page r =
     (if region_is_empty r then None
      else case checked_add (pr_start r) PAGE_SIZE of
             None \<Rightarrow> None
           | Some nxt \<Rightarrow> if pr_end r < nxt then None else Some (pr_start r, r\<lparr>pr_start := nxt\<rparr>))"

definition region_allocate_contiguous ::
  "physical_region \<Rightarrow> u64 \<Rightarrow> (u64 \<times> physical_region) option" where
  "region_allocate_contiguous r count =
     (if count = 0 \<or> region_is_empty r then None
      else case checked_mul count PAGE_SIZE of
             None \<Rightarrow> None
           | Some bytes \<Rightarrow>
               (case checked_add (pr_start r) bytes of
                  None \<Rightarrow> None
                | Some e \<Rightarrow> if pr_end r < e then None else Some (pr_start r, r\<lparr>pr_start := e\<rparr>)))"

definition allocator_new :: physical_allocator where
  "allocator_new = \<lparr>pa_regions = replicate MAX_FREE_RANGES region_empty, pa_count = 0\<rparr>"

definition allocator_reset :: "physical_allocator \<Rightarrow> physical_allocator" where
  "allocator_reset pa = allocator_new"

definition remove_region ::
  "physical_allocator \<Rightarrow> nat \<Rightarrow> (physical_allocator, memory_error) outcome" where
  "remove_region pa i =
     and_then (shift_left (pa_regions pa) i (pa_count pa)) (\<lambda>rs.
       if 0 < pa_count pa
       then and_then (store rs (pa_count pa - 1) region_empty) (\<lambda>rs'.
              Ok \<lparr>pa_regions = rs', pa_count = pa_count pa - 1\<rparr>)
       else Ok (pa\<lparr>pa_regions := rs\<rparr>))"

lemma remove_region_count: "remove_region pa i = Ok pa' \<Longrightarrow> pa_count pa' = pa_count pa - 1"
  by (auto simp: remove_region_def split: if_splits)

text \<open>The two search loops differ only in what they ask of a region, which is a parameter here;
  \<open>zeroed\<close> is the number of bytes \<^verbatim>\<open>write_bytes\<close> clears.\<close>

function allocate_from ::
  "(physical_region \<Rightarrow> (u64 \<times> physical_region) option) \<Rightarrow> nat \<Rightarrow> physical_allocator \<Rightarrow> memory \<Rightarrow> nat \<Rightarrow>
   (u64 \<times> physical_allocator \<times> memory, memory_error) outcome" where
  "allocate_from f zeroed pa m i =
     (if i < pa_count pa
      then and_then (index (pa_regions pa) i) (\<lambda>region.
        case f region of
          Some (page, region') \<Rightarrow>
            and_then (store (pa_regions pa) i region') (\<lambda>rs.
            and_then (if region_is_empty region' then remove_region (pa\<lparr>pa_regions := rs\<rparr>) i
                      else Ok (pa\<lparr>pa_regions := rs\<rparr>)) (\<lambda>pa'.
              Ok (page, pa', fill_bytes m page 0 zeroed)))
        | None \<Rightarrow> allocate_from f zeroed pa m (i + 1))
      else Err AllocatorExhausted)"
  by pat_completeness auto
termination
  by (relation "measure (\<lambda>(f, z, pa, m, i). pa_count pa - i)") auto

definition allocate_page ::
  "physical_allocator \<Rightarrow> memory \<Rightarrow> (u64 \<times> physical_allocator \<times> memory, memory_error) outcome" where
  "allocate_page pa m = allocate_from region_allocate_page (unat PAGE_SIZE) pa m 0"

definition allocate_contiguous_pages ::
  "physical_allocator \<Rightarrow> memory \<Rightarrow> u64 \<Rightarrow> (u64 \<times> physical_allocator \<times> memory, memory_error) outcome" where
  "allocate_contiguous_pages pa m count =
     allocate_from (\<lambda>r. region_allocate_contiguous r count) (unat (count * PAGE_SIZE)) pa m 0"

text \<open>\<^verbatim>\<open>insert_range\<close>: absorb every region that touches the new range, then open a slot.\<close>

function insert_merge ::
  "physical_allocator \<Rightarrow> nat \<Rightarrow> u64 \<Rightarrow> u64 \<Rightarrow> (physical_allocator \<times> u64 \<times> u64, memory_error) outcome" where
  "insert_merge pa i ms me =
     (if i < pa_count pa
      then and_then (index (pa_regions pa) i) (\<lambda>region.
        if pr_end region < ms \<or> me < pr_start region then insert_merge pa (i + 1) ms me
        else and_then (remove_region pa i) (\<lambda>pa'.
               insert_merge pa' i (min ms (pr_start region)) (max me (pr_end region))))
      else Ok (pa, ms, me))"
  by pat_completeness auto
termination
  by (relation "measure (\<lambda>(pa, i, ms, me). pa_count pa - i)") (auto dest: remove_region_count)

function insert_position :: "physical_allocator \<Rightarrow> u64 \<Rightarrow> nat \<Rightarrow> (nat, memory_error) outcome" where
  "insert_position pa ms i =
     (if i < pa_count pa
      then and_then (index (pa_regions pa) i) (\<lambda>region.
             if pr_start region < ms then insert_position pa ms (i + 1) else Ok i)
      else Ok i)"
  by pat_completeness auto
termination
  by (relation "measure (\<lambda>(pa, ms, i). pa_count pa - i)") auto

definition insert_range ::
  "physical_allocator \<Rightarrow> u64 \<Rightarrow> u64 \<Rightarrow> (physical_allocator, memory_error) outcome" where
  "insert_range pa start end =
     (if end \<le> start then Ok pa
      else
        and_then (insert_merge pa 0 start end) (\<lambda>(pa', ms, me).
        and_then (rust_assert (pa_count pa' < length (pa_regions pa'))) (\<lambda>_.
        and_then (insert_position pa' ms 0) (\<lambda>at.
        and_then (shift_right (pa_regions pa') at (pa_count pa')) (\<lambda>rs.
        and_then (store rs at \<lparr>pr_start = ms, pr_end = me\<rparr>) (\<lambda>rs'.
          Ok \<lparr>pa_regions = rs', pa_count = pa_count pa' + 1\<rparr>))))))"

definition add_region ::
  "physical_allocator \<Rightarrow> u64 \<Rightarrow> u64 \<Rightarrow> (physical_allocator, memory_error) outcome" where
  "add_region pa start end = insert_range pa start end"

definition free_contiguous_pages ::
  "physical_allocator \<Rightarrow> u64 \<Rightarrow> u64 \<Rightarrow> (physical_allocator, memory_error) outcome" where
  "free_contiguous_pages pa start count =
     (if count = 0 then Ok pa
      else insert_range pa start (start + count * PAGE_SIZE))"

text \<open>\<^verbatim>\<open>reserve_range\<close>: drop, trim or split every region that meets the range.\<close>

function reserve_from ::
  "u64 \<Rightarrow> u64 \<Rightarrow> physical_allocator \<Rightarrow> nat \<Rightarrow> (physical_allocator, memory_error) outcome" where
  "reserve_from start end pa i =
     (if i < pa_count pa
      then and_then (index (pa_regions pa) i) (\<lambda>region.
        if pr_end region \<le> start \<or> end \<le> pr_start region then reserve_from start end pa (i + 1)
        else if start \<le> pr_start region \<and> pr_end region \<le> end then
          and_then (remove_region pa i) (\<lambda>pa'. reserve_from start end pa' i)
        else if start \<le> pr_start region then
          and_then (store (pa_regions pa) i (region\<lparr>pr_start := min end (pr_end region)\<rparr>)) (\<lambda>rs.
            reserve_from start end (pa\<lparr>pa_regions := rs\<rparr>) (i + 1))
        else if pr_end region \<le> end then
          and_then (store (pa_regions pa) i (region\<lparr>pr_end := max start (pr_start region)\<rparr>)) (\<lambda>rs.
            reserve_from start end (pa\<lparr>pa_regions := rs\<rparr>) (i + 1))
        else
          and_then (rust_assert (pa_count pa < length (pa_regions pa))) (\<lambda>_.
          and_then (store (pa_regions pa) i (region\<lparr>pr_end := start\<rparr>)) (\<lambda>rs.
          and_then (shift_right rs (i + 1) (pa_count pa)) (\<lambda>rs'.
          and_then (store rs' (i + 1) \<lparr>pr_start = end, pr_end = pr_end region\<rparr>) (\<lambda>rs''.
            reserve_from start end \<lparr>pa_regions = rs'', pa_count = pa_count pa + 1\<rparr> (i + 2))))))
      else Ok pa)"
  by pat_completeness auto
termination
  by (relation "measure (\<lambda>(start, end, pa, i). pa_count pa - i)") (auto dest: remove_region_count)

definition reserve_range ::
  "physical_allocator \<Rightarrow> u64 \<Rightarrow> u64 \<Rightarrow> (physical_allocator, memory_error) outcome" where
  "reserve_range pa start end = (if end \<le> start then Ok pa else reserve_from start end pa 0)"

declare allocate_from.simps [simp del] insert_merge.simps [simp del]
  insert_position.simps [simp del] reserve_from.simps [simp del]

section \<open>The table as a list of ranges\<close>

text \<open>\<open>active\<close> is the list of ranges in use, \<open>gapped\<close> the order the code keeps: sorted, every
  range non-empty, and a gap between any two (touching ranges are merged).\<close>

definition active :: "physical_allocator \<Rightarrow> physical_region list" where
  "active pa = take (pa_count pa) (pa_regions pa)"

definition table_wf :: "physical_allocator \<Rightarrow> bool" where
  "table_wf pa \<longleftrightarrow> length (pa_regions pa) = MAX_FREE_RANGES \<and> pa_count pa \<le> MAX_FREE_RANGES"

definition gapped :: "physical_region list \<Rightarrow> bool" where
  "gapped rs \<longleftrightarrow> sorted_wrt (\<lambda>r s. pr_end r < pr_start s) rs \<and> (\<forall>r \<in> set rs. pr_start r < pr_end r)"

definition span :: "physical_region \<Rightarrow> u64 set" where
  "span r = {pr_start r..<pr_end r}"

definition spans :: "physical_region list \<Rightarrow> u64 set" where
  "spans rs = (\<Union>r \<in> set rs. span r)"

definition alloc_inv :: "physical_allocator \<Rightarrow> bool" where
  "alloc_inv pa \<longleftrightarrow> table_wf pa \<and> gapped (active pa)"

abbreviation free_set :: "physical_allocator \<Rightarrow> u64 set" where
  "free_set pa \<equiv> spans (active pa)"

lemma spans_simps [simp]:
  "spans [] = {}" "spans (r # rs) = span r \<union> spans rs" "spans (rs @ ss) = spans rs \<union> spans ss"
  by (auto simp: spans_def)

lemma spans_takeWhile: "spans (takeWhile P rs) \<union> spans (dropWhile P rs) = spans rs"
  by (metis spans_simps(3) takeWhile_dropWhile_id)

lemma length_active: "table_wf pa \<Longrightarrow> length (active pa) = pa_count pa"
  by (simp add: table_wf_def active_def)

lemma index_active:
  "table_wf pa \<Longrightarrow> i < pa_count pa \<Longrightarrow> index (pa_regions pa) i = Ok (active pa ! i)"
  by (simp add: table_wf_def active_def)

lemma remove_region_active:
  assumes "table_wf pa" "i < pa_count pa"
  shows "\<exists>pa'. remove_region pa i = Ok pa' \<and> table_wf pa' \<and> pa_count pa' = pa_count pa - 1 \<and>
           active pa' = take i (active pa) @ drop (Suc i) (active pa)"
proof -
  let ?rs = "pa_regions pa" and ?n = "pa_count pa"
  let ?sh = "take i ?rs @ drop (Suc i) (take ?n ?rs) @ drop (?n - 1) ?rs"
  have n: "?n \<le> length ?rs" using assms(1) by (simp add: table_wf_def)
  have sh: "(shift_left ?rs i ?n :: (_, memory_error) outcome) = Ok ?sh"
    using assms(2) n by (rule shift_left_eq)
  have len: "length ?sh = length ?rs" using n assms(2) by simp
  have st: "store ?sh (?n - 1) region_empty = Ok (?sh[?n - 1 := region_empty])"
    using n assms(2) len by (intro store_ok) linarith
  have tk: "take (?n - 1) (?sh[?n - 1 := region_empty]) = take i ?rs @ drop (Suc i) (take ?n ?rs)"
    using n assms(2) by (simp add: take_update_cancel del: drop_take)
  let ?pa = "\<lparr>pa_regions = ?sh[?n - 1 := region_empty], pa_count = ?n - 1\<rparr>"
  have "remove_region pa i = Ok ?pa"
    using assms(2) by (simp add: remove_region_def sh st [simplified])
  moreover have "active ?pa = take i (active pa) @ drop (Suc i) (active pa)"
    using tk assms(2) by (simp add: active_def min_def)
  moreover have "table_wf ?pa" using len assms(1) by (auto simp: table_wf_def simp del: length_append length_drop)
  ultimately show ?thesis by auto
qed

lemma store_active:
  assumes "table_wf pa" "i < pa_count pa"
  shows "store (pa_regions pa) i r = Ok ((pa_regions pa)[i := r])"
    "table_wf (pa\<lparr>pa_regions := (pa_regions pa)[i := r]\<rparr>)"
    "active (pa\<lparr>pa_regions := (pa_regions pa)[i := r]\<rparr>) = (active pa)[i := r]"
  using assms by (auto simp: table_wf_def active_def take_update_swap)

lemma open_slot_active:
  assumes "table_wf pa" "at \<le> pa_count pa" "pa_count pa < MAX_FREE_RANGES"
  shows "\<exists>rs rs'. (shift_right (pa_regions pa) at (pa_count pa) :: (_, memory_error) outcome) = Ok rs \<and>
           (store rs at r :: (_, memory_error) outcome) = Ok rs' \<and>
           table_wf \<lparr>pa_regions = rs', pa_count = pa_count pa + 1\<rparr> \<and>
           active \<lparr>pa_regions = rs', pa_count = pa_count pa + 1\<rparr>
             = take at (active pa) @ [r] @ drop at (active pa)"
proof -
  let ?rs = "pa_regions pa" and ?n = "pa_count pa"
  let ?sh = "take at ?rs @ [?rs ! at] @ drop at (take ?n ?rs) @ drop (Suc ?n) ?rs"
  have l: "length ?rs = MAX_FREE_RANGES" using assms(1) by (simp add: table_wf_def)
  have sh: "(shift_right ?rs at ?n :: (_, memory_error) outcome) = Ok ?sh"
    using assms l by (intro shift_right_eq) auto
  have len: "length ?sh = MAX_FREE_RANGES" using assms l by simp
  have st: "(store ?sh at r :: (_, memory_error) outcome) = Ok (?sh[at := r])"
    using assms len by (intro store_ok) linarith
  have upd: "?sh[at := r] = take at ?rs @ [r] @ drop at (take ?n ?rs) @ drop (Suc ?n) ?rs"
    using assms l by (simp add: list_update_append)
  let ?pa = "\<lparr>pa_regions = ?sh[at := r], pa_count = ?n + 1\<rparr>"
  have "table_wf ?pa" using len assms(3) by (simp add: table_wf_def del: length_append length_drop)
  moreover have "active ?pa = take at (active pa) @ [r] @ drop at (active pa)"
    unfolding upd using assms l by (simp add: active_def min_def Suc_diff_le)
  ultimately show ?thesis using sh st by blast
qed

section \<open>Inserting\<close>

fun merge_list ::
  "u64 \<Rightarrow> u64 \<Rightarrow> physical_region list \<Rightarrow> physical_region list \<times> u64 \<times> u64" where
  "merge_list ms me [] = ([], ms, me)"
| "merge_list ms me (r # rs) =
     (if pr_end r < ms \<or> me < pr_start r
      then (let (ys, ms', me') = merge_list ms me rs in (r # ys, ms', me'))
      else merge_list (min ms (pr_start r)) (max me (pr_end r)) rs)"

lemma insert_merge_list:
  assumes "table_wf pa" "i \<le> pa_count pa"
  shows "\<exists>pa' ys ms' me'. merge_list ms me (drop i (active pa)) = (ys, ms', me') \<and>
     insert_merge pa i ms me = Ok (pa', ms', me') \<and> table_wf pa' \<and>
     active pa' = take i (active pa) @ ys"
  using assms
proof (induction pa i ms me rule: insert_merge.induct)
  case (1 pa i ms me)
  show ?case
  proof (cases "i < pa_count pa")
    case True
    let ?r = "active pa ! i"
    have d: "drop i (active pa) = ?r # drop (Suc i) (active pa)"
      using True length_active [OF "1.prems"(1)] by (simp add: Cons_nth_drop_Suc)
    note ix = index_active [OF "1.prems"(1) True]
    show ?thesis
    proof (cases "pr_end ?r < ms \<or> me < pr_start ?r")
      case skip: True
      from 1(1) [OF True ix skip "1.prems"(1)] True obtain pa' ys ms' me' where
        "merge_list ms me (drop (Suc i) (active pa)) = (ys, ms', me')"
        "insert_merge pa (i + 1) ms me = Ok (pa', ms', me')" "table_wf pa'"
        "active pa' = take (Suc i) (active pa) @ ys" by auto
      with True skip ix d length_active [OF "1.prems"(1)] show ?thesis
        by (subst insert_merge.simps) (auto simp: take_Suc_conv_app_nth)
    next
      case False
      obtain pa1 where r: "remove_region pa i = Ok pa1" "table_wf pa1" "pa_count pa1 = pa_count pa - 1"
        "active pa1 = take i (active pa) @ drop (Suc i) (active pa)"
        using remove_region_active [OF "1.prems"(1) True] by blast
      have t: "take i (active pa1) = take i (active pa)" "drop i (active pa1) = drop (Suc i) (active pa)"
        using r True length_active [OF "1.prems"(1)] by (auto simp: min_def)
      from 1(2) [OF True ix False r(1,2)] True r(3) obtain pa' ys ms' me' where
        "merge_list (min ms (pr_start ?r)) (max me (pr_end ?r)) (drop i (active pa1)) = (ys, ms', me')"
        "insert_merge pa1 i (min ms (pr_start ?r)) (max me (pr_end ?r)) = Ok (pa', ms', me')"
        "table_wf pa'" "active pa' = take i (active pa1) @ ys" by fastforce
      with True False ix d r(1) t show ?thesis
        by (subst insert_merge.simps) auto
    qed
  next
    case False
    with "1.prems" length_active [OF "1.prems"(1)] show ?thesis
      by (subst insert_merge.simps) auto
  qed
qed

lemma insert_position_spec:
  assumes "table_wf pa" "i \<le> pa_count pa"
  shows "insert_position pa ms i =
     Ok (i + length (takeWhile (\<lambda>r. pr_start r < ms) (drop i (active pa))))"
  using assms
proof (induction pa ms i rule: insert_position.induct)
  case (1 pa ms i)
  show ?case
  proof (cases "i < pa_count pa")
    case True
    have "drop i (active pa) = active pa ! i # drop (Suc i) (active pa)"
      using True length_active [OF "1.prems"(1)] by (simp add: Cons_nth_drop_Suc)
    with True 1(1) [OF True index_active [OF "1.prems"(1) True]] "1.prems" show ?thesis
      by (subst insert_position.simps) (auto simp: index_active)
  next
    case False
    with "1.prems" length_active [OF "1.prems"(1)] show ?thesis
      by (subst insert_position.simps) auto
  qed
qed

lemma gapped_Cons:
  "gapped (r # rs) \<longleftrightarrow> pr_start r < pr_end r \<and> (\<forall>s \<in> set rs. pr_end r < pr_start s) \<and> gapped rs"
  by (auto simp: gapped_def)

lemma gapped_append:
  "gapped (rs @ ss) \<longleftrightarrow> gapped rs \<and> gapped ss \<and> (\<forall>r \<in> set rs. \<forall>s \<in> set ss. pr_end r < pr_start s)"
  by (auto simp: gapped_def sorted_wrt_append)

lemma merge_list_later:
  "\<forall>r \<in> set rs. me < pr_start r \<Longrightarrow> merge_list ms me rs = (rs, ms, me)"
  by (induction rs) auto

lemma merge_list_lower:
  "merge_list ms me rs = (ys, ms', me') \<Longrightarrow> \<forall>r \<in> set rs. b < pr_start r \<Longrightarrow> b < ms \<Longrightarrow> b < ms'"
  by (induction ms me rs arbitrary: ys rule: merge_list.induct)
    (auto simp: Let_def split: prod.splits if_splits)

lemma merge_list_set:
  "merge_list ms me rs = (ys, ms', me') \<Longrightarrow> set ys \<subseteq> set rs \<and> ms' \<le> ms \<and> me \<le> me' \<and> length ys \<le> length rs"
  by (induction ms me rs arbitrary: ys rule: merge_list.induct)
    (fastforce simp: Let_def split: prod.splits if_splits)+

lemma span_union:
  fixes a b c e :: "'a::linorder"
  assumes "c \<le> b" "a \<le> e"
  shows "{min c a..<max e b} = {a..<b} \<union> {c..<e}"
  using assms by (auto simp: min_def max_def)

lemma merge_list_spec:
  assumes "gapped rs" "ms < me" "merge_list ms me rs = (ys, ms', me')"
  shows "gapped ys \<and> (\<forall>r \<in> set ys. pr_end r < ms' \<or> me' < pr_start r) \<and>
         spans ys \<union> {ms'..<me'} = spans rs \<union> {ms..<me}"
  using assms
proof (induction ms me rs arbitrary: ys rule: merge_list.induct)
  case (2 ms me r rs)
  have g: "gapped rs" "pr_start r < pr_end r" "\<forall>s \<in> set rs. pr_end r < pr_start s"
    using "2.prems"(1) by (auto simp: gapped_Cons)
  consider "me < pr_start r" | "pr_end r < ms" "\<not> me < pr_start r"
    | "\<not> pr_end r < ms" "\<not> me < pr_start r" by linarith
  then show ?case
  proof cases
    case 1
    then have "\<forall>s \<in> set (r # rs). me < pr_start s"
      using g(2,3) by (auto dest: order.strict_trans)
    from merge_list_later [OF this, of ms] have "ys = r # rs" "ms' = ms" "me' = me"
      using "2.prems"(3) by auto
    with "2.prems"(1) \<open>\<forall>s \<in> set (r # rs). me < pr_start s\<close> show ?thesis by auto
  next
    case 2
    then obtain zs where z: "ys = r # zs" "merge_list ms me rs = (zs, ms', me')"
      using "2.prems"(3) by (auto simp: Let_def split: prod.splits)
    note IH = "2.IH"(1) [OF disjI1 [OF 2(1)] g(1) "2.prems"(2) z(2)]
    have "pr_end r < ms'" using merge_list_lower [OF z(2) g(3) 2(1)] .
    moreover have "\<forall>s \<in> set zs. pr_end r < pr_start s"
      using merge_list_set [OF z(2)] g(3) by auto
    ultimately show ?thesis using IH z(1) g(2) by (auto simp: gapped_Cons)
  next
    case 3
    then have m: "merge_list (min ms (pr_start r)) (max me (pr_end r)) rs = (ys, ms', me')"
      using "2.prems"(3) by auto
    have "min ms (pr_start r) < max me (pr_end r)"
      using "2.prems"(2) by (meson less_max_iff_disj min_less_iff_disj)
    moreover have "{min ms (pr_start r)..<max me (pr_end r)} = span r \<union> {ms..<me}"
      unfolding span_def using 3 by (intro span_union) auto
    ultimately show ?thesis using "2.IH"(2) [OF _ g(1) _ m] 3 by auto
  qed
qed auto

lemma insert_sorted_gapped:
  assumes "gapped ys" "\<forall>r \<in> set ys. pr_end r < ms \<or> me < pr_start r" "ms < me"
  shows "gapped (takeWhile (\<lambda>r. pr_start r < ms) ys @ [\<lparr>pr_start = ms, pr_end = me\<rparr>]
                 @ dropWhile (\<lambda>r. pr_start r < ms) ys)"
proof -
  let ?P = "\<lambda>r. pr_start r < ms"
  have g: "gapped (takeWhile ?P ys @ dropWhile ?P ys)" using assms(1) by simp
  have wf: "pr_start r < pr_end r" if "r \<in> set ys" for r using assms(1) that by (simp add: gapped_def)
  have "pr_end r < ms" if "r \<in> set (takeWhile ?P ys)" for r
    using set_takeWhileD [OF that] assms(2,3) by (meson less_trans not_less_iff_gr_or_eq)
  moreover have "me < pr_start r" if "r \<in> set (dropWhile ?P ys)" for r
  proof -
    from that obtain d ds where d: "dropWhile ?P ys = d # ds" by (cases "dropWhile ?P ys") auto
    then have "\<not> ?P d" using hd_dropWhile [of ?P ys] by simp
    moreover have "gapped (d # ds)" using g d by (simp add: gapped_append)
    ultimately have "\<not> ?P r" using that d by (auto simp: gapped_Cons not_less dest: order.strict_trans)
    with assms(2) wf set_dropWhileD [OF that] show ?thesis
      by (metis order.strict_trans)
  qed
  ultimately show ?thesis
    using g [unfolded gapped_append] assms(3) by (simp add: gapped_append gapped_Cons del: takeWhile_dropWhile_id) 
qed

text \<open>\<open>crowded\<close> says that the range would need a 129th slot.\<close>

definition crowded :: "physical_allocator \<Rightarrow> u64 \<Rightarrow> u64 \<Rightarrow> bool" where
  "crowded pa start end \<longleftrightarrow> length (fst (merge_list start end (active pa))) = MAX_FREE_RANGES"

lemma insert_range_spec:
  assumes "alloc_inv pa" "start < end"
  shows "(crowded pa start end \<longrightarrow> insert_range pa start end = Panic) \<and>
         (\<not> crowded pa start end \<longrightarrow>
            (\<exists>pa'. insert_range pa start end = Ok pa' \<and> alloc_inv pa' \<and>
                   free_set pa' = free_set pa \<union> {start..<end}))"
proof -
  have wf: "table_wf pa" "gapped (active pa)" using assms(1) by (auto simp: alloc_inv_def)
  obtain pa1 ys ms me where m: "merge_list start end (active pa) = (ys, ms, me)"
    "insert_merge pa 0 start end = Ok (pa1, ms, me)" "table_wf pa1" "active pa1 = ys"
    using insert_merge_list [OF wf(1), of 0 start "end"] by auto
  note ml = merge_list_spec [OF wf(2) assms(2) m(1)] merge_list_set [OF m(1)]
  have lt: "ms < me" using ml assms(2) by (meson order.strict_trans1 order.strict_trans2)
  have len: "length ys = pa_count pa1" using length_active [OF m(3)] m(4) by simp
  have regs: "length (pa_regions pa1) = MAX_FREE_RANGES" using m(3) by (simp add: table_wf_def)
  let ?at = "length (takeWhile (\<lambda>r. pr_start r < ms) ys)"
  have pos: "insert_position pa1 ms 0 = Ok ?at"
    using insert_position_spec [OF m(3), of 0 ms] m(4) by simp
  show ?thesis
  proof (cases "pa_count pa1 < MAX_FREE_RANGES")
    case True
    have "?at \<le> pa_count pa1" using len length_takeWhile_le [of _ ys] by metis
    from open_slot_active [OF m(3) this True, of "\<lparr>pr_start = ms, pr_end = me\<rparr>"]
    obtain rs rs' where slot:
      "(shift_right (pa_regions pa1) ?at (pa_count pa1) :: (_, memory_error) outcome) = Ok rs"
      "(store rs ?at \<lparr>pr_start = ms, pr_end = me\<rparr> :: (_, memory_error) outcome) = Ok rs'"
      "table_wf \<lparr>pa_regions = rs', pa_count = pa_count pa1 + 1\<rparr>"
      "active \<lparr>pa_regions = rs', pa_count = pa_count pa1 + 1\<rparr>
         = takeWhile (\<lambda>r. pr_start r < ms) ys @ [\<lparr>pr_start = ms, pr_end = me\<rparr>]
           @ dropWhile (\<lambda>r. pr_start r < ms) ys"
      by (auto simp: m(4) takeWhile_eq_take [symmetric] dropWhile_eq_drop [symmetric])
    let ?pa = "\<lparr>pa_regions = rs', pa_count = pa_count pa1 + 1\<rparr>"
    have "insert_range pa start end = Ok ?pa"
      using assms(2) m(2) True pos slot(1,2) regs by (simp add: insert_range_def)
    moreover have "alloc_inv ?pa"
      using slot(3,4) insert_sorted_gapped [of ys ms me] ml lt by (simp add: alloc_inv_def)
    moreover have "free_set ?pa = spans ys \<union> {ms..<me}"
      unfolding slot(4) using spans_takeWhile [of _ ys] by (auto simp: span_def)
    moreover have "\<not> crowded pa start end" using True len m(1) by (simp add: crowded_def)
    ultimately show ?thesis using ml(1) by auto
  next
    case False
    then have "pa_count pa1 = MAX_FREE_RANGES" using m(3) by (simp add: table_wf_def)
    with assms(2) m(1,2) regs len show ?thesis by (simp add: insert_range_def crowded_def)
  qed
qed

section \<open>Allocating\<close>

lemma checked_add_Some:
  "checked_add a b = Some c \<longleftrightarrow> unat a + unat b < 2 ^ LENGTH('a) \<and> c = a + b" for a b c :: "'a::len word"
  by (auto simp: checked_add_def)

lemma checked_add_ge: "checked_add a b = Some c \<Longrightarrow> a \<le> c" for a b c :: "'a::len word"
  by (simp add: checked_add_Some word_le_nat_alt) (metis le_add1 unat_add_lem)

text \<open>What both region operations do: carve \<open>n\<close> bytes off the front.\<close>

definition carves :: "(physical_region \<Rightarrow> (u64 \<times> physical_region) option) \<Rightarrow> u64 \<Rightarrow> bool" where
  "carves f n \<longleftrightarrow> 0 < n \<and> (\<forall>r. f r = (if pr_start r \<noteq> 0 \<and> unat (pr_start r) + unat n \<le> unat (pr_end r)
       then Some (pr_start r, r\<lparr>pr_start := pr_start r + n\<rparr>) else None))"

lemma unat_less_power: "unat (w :: 'a::len word) < 2 ^ LENGTH('a)"
  by simp

lemma carve_front:
  fixes r :: physical_region
  assumes "0 < n"
  shows "(case checked_add (pr_start r) n of None \<Rightarrow> None
          | Some e \<Rightarrow> if pr_end r < e then None else Some (pr_start r, r\<lparr>pr_start := e\<rparr>))
       = (if unat (pr_start r) + unat n \<le> unat (pr_end r)
          then Some (pr_start r, r\<lparr>pr_start := pr_start r + n\<rparr>) else None)"
proof (cases "unat (pr_start r) + unat n < 2 ^ LENGTH(64)")
  case True
  then have "unat (pr_start r + n) = unat (pr_start r) + unat n"
    using unat_add_lem [of "pr_start r" n] by simp
  with True show ?thesis by (auto simp: checked_add_def word_less_nat_alt)
next
  case False
  with unat_less_power [of "pr_end r"] show ?thesis by (auto simp: checked_add_def)
qed

lemma carves_page: "carves region_allocate_page PAGE_SIZE"
proof -
  have "region_is_empty r \<Longrightarrow> pr_start r \<noteq> 0 \<Longrightarrow> \<not> unat (pr_start r) + unat PAGE_SIZE \<le> unat (pr_end r)" for r
    by (auto simp: region_is_empty_def PAGE_SIZE_def word_le_nat_alt)
  then show ?thesis
    using carve_front [of PAGE_SIZE]
    by (auto simp: carves_def region_allocate_page_def region_is_empty_def PAGE_SIZE_def)
qed

lemma carves_contiguous:
  assumes "count \<noteq> 0" "unat count * 4096 < 2 ^ 64"
  shows "carves (\<lambda>r. region_allocate_contiguous r count) (count * PAGE_SIZE)"
proof -
  have u: "unat (count * PAGE_SIZE) = unat count * 4096"
    using assms(2) unat_mult_lem [of count PAGE_SIZE] by (simp add: PAGE_SIZE_def)
  have pos: "0 < count * PAGE_SIZE"
    using assms(1) u by (simp add: word_less_nat_alt unat_gt_0 [symmetric] word_neq_0_conv)
  have "checked_mul count PAGE_SIZE = Some (count * PAGE_SIZE)"
    using assms(2) by (simp add: checked_mul_def PAGE_SIZE_def)
  moreover have "region_is_empty r \<Longrightarrow> pr_start r \<noteq> 0 \<Longrightarrow>
      \<not> unat (pr_start r) + unat (count * PAGE_SIZE) \<le> unat (pr_end r)" for r
    using pos by (auto simp: region_is_empty_def word_le_nat_alt word_less_nat_alt)
  ultimately show ?thesis
    using carve_front [OF pos] pos assms(1)
    by (auto simp: carves_def region_allocate_contiguous_def region_is_empty_def)
qed

definition block :: "u64 \<Rightarrow> u64 \<Rightarrow> u64 set" where
  "block page n = {page..<page + n}"

definition fits :: "u64 \<Rightarrow> physical_region \<Rightarrow> bool" where
  "fits n r \<longleftrightarrow> pr_start r \<noteq> 0 \<and> unat (pr_start r) + unat n \<le> unat (pr_end r)"

lemma fits_add:
  assumes "fits n r"
  shows "unat (pr_start r + n) = unat (pr_start r) + unat n"
    "pr_start r \<le> pr_start r + n" "pr_start r + n \<le> pr_end r"
proof -
  have "unat (pr_start r) + unat n < 2 ^ LENGTH(64)"
    using assms unat_less_power [of "pr_end r"] by (simp add: fits_def)
  then show u: "unat (pr_start r + n) = unat (pr_start r) + unat n" using unat_add_lem by blast
  then show "pr_start r \<le> pr_start r + n" "pr_start r + n \<le> pr_end r"
    using assms by (auto simp: word_le_nat_alt fits_def)
qed

lemma spans_carve:
  assumes "gapped (as @ r # bs)" "fits n r"
  shows "spans as \<inter> block (pr_start r) n = {}" "spans bs \<inter> block (pr_start r) n = {}"
    "span r - block (pr_start r) n = {pr_start r + n..<pr_end r}" "block (pr_start r) n \<subseteq> span r"
proof -
  note le = fits_add [OF assms(2)]
  have g: "\<forall>a \<in> set as. pr_end a < pr_start r" "\<forall>b \<in> set bs. pr_end r < pr_start b"
    using assms(1) by (auto simp: gapped_append gapped_Cons)
  show "spans as \<inter> block (pr_start r) n = {}"
    using g(1) by (fastforce simp: spans_def span_def block_def)
  show "spans bs \<inter> block (pr_start r) n = {}"
    using g(2) le(3) by (fastforce simp: spans_def span_def block_def)
  show "span r - block (pr_start r) n = {pr_start r + n..<pr_end r}" "block (pr_start r) n \<subseteq> span r"
    using le by (auto simp: span_def block_def)
qed

text \<open>Carving a block off the front of one range of the table.\<close>

lemma allocate_at:
  assumes "alloc_inv pa" "i < pa_count pa" "fits n (active pa ! i)" "0 < n"
  defines "r \<equiv> active pa ! i"
  defines "r' \<equiv> r\<lparr>pr_start := pr_start r + n\<rparr>"
  shows "\<exists>pa'. (if region_is_empty r' then remove_region (pa\<lparr>pa_regions := (pa_regions pa)[i := r']\<rparr>) i
                else Ok (pa\<lparr>pa_regions := (pa_regions pa)[i := r']\<rparr>)) = Ok pa' \<and>
           alloc_inv pa' \<and> free_set pa' = free_set pa - block (pr_start r) n \<and>
           block (pr_start r) n \<subseteq> free_set pa \<and> set (active pa') \<subseteq> insert r' (set (active pa)) \<and>
           (pa_count pa' < pa_count pa \<or> (\<exists>s \<in> set (active pa'). pr_start s = pr_start r + n))"
proof -
  have wf: "table_wf pa" "gapped (active pa)" using assms(1) by (auto simp: alloc_inv_def)
  define as where "as = take i (active pa)"
  define bs where "bs = drop (Suc i) (active pa)"
  have len: "i < length (active pa)" using length_active [OF wf(1)] assms(2) by simp
  have split: "active pa = as @ r # bs"
    unfolding as_def bs_def r_def using len by (rule id_take_nth_drop)
  have las: "length as = i" using len by (simp add: as_def)
  have g: "gapped (as @ r # bs)" using wf(2) split by simp
  have ft: "fits n r" using assms(3) by (simp add: r_def)
  note sp = spans_carve [OF g ft] and le = fits_add [OF ft]
  let ?pa = "pa\<lparr>pa_regions := (pa_regions pa)[i := r']\<rparr>"
  have upd: "table_wf ?pa" "active ?pa = as @ r' # bs"
    using store_active [OF wf(1) assms(2), of r'] split las by (auto simp: list_update_append)
  have ne: "pr_start r + n \<noteq> 0"
    using le(1) ft by (metis add_is_0 fits_def unat_eq_zero)
  have sub: "block (pr_start r) n \<subseteq> free_set pa" using sp(4) split by auto
  have free: "free_set pa - block (pr_start r) n = spans as \<union> {pr_start r + n..<pr_end r} \<union> spans bs"
    using sp split by auto
  show ?thesis
  proof (cases "region_is_empty r'")
    case True
    then have e: "pr_start r + n = pr_end r" using ne le(3) by (simp add: region_is_empty_def r'_def)
    obtain pa' where p: "remove_region ?pa i = Ok pa'" "table_wf pa'" "pa_count pa' = pa_count pa - 1"
      "active pa' = as @ bs"
      using remove_region_active [OF upd(1), of i] assms(2) unfolding upd(2) by (auto simp: las)
    have "gapped (as @ bs)" using g by (simp add: gapped_append gapped_Cons)
    then have "alloc_inv pa'" using p(2,4) by (simp add: alloc_inv_def)
    moreover have "free_set pa' = free_set pa - block (pr_start r) n"
      unfolding free p(4) using e by simp
    moreover have "set (active pa') \<subseteq> insert r' (set (active pa))" unfolding p(4) split by auto
    ultimately show ?thesis using True p(1,3) sub assms(2) by simp
  next
    case False
    then have "pr_start r + n < pr_end r" by (auto simp: region_is_empty_def r'_def)
    then have "gapped (as @ r' # bs)"
      using g le(2) by (auto simp: gapped_append gapped_Cons r'_def)
    moreover have "span r' = {pr_start r + n..<pr_end r}" by (simp add: span_def r'_def)
    ultimately have "alloc_inv ?pa" "free_set ?pa = free_set pa - block (pr_start r) n"
      using upd(1) unfolding free alloc_inv_def upd(2) by auto
    moreover have "set (active ?pa) \<subseteq> insert r' (set (active pa))" unfolding upd(2) split by auto
    moreover have "\<exists>s \<in> set (active ?pa). pr_start s = pr_start r + n" unfolding upd(2) by (simp add: r'_def)
    ultimately show ?thesis using False sub by auto
  qed
qed

lemma allocate_from_spec:
  assumes "carves f n" "alloc_inv pa"
  shows "(\<exists>r pa'. r \<in> set (active pa) \<and> fits n r \<and>
            allocate_from f z pa m i = Ok (pr_start r, pa', fill_bytes m (pr_start r) 0 z) \<and>
            alloc_inv pa' \<and> free_set pa' = free_set pa - block (pr_start r) n \<and>
            block (pr_start r) n \<subseteq> free_set pa \<and>
            set (active pa') \<subseteq> insert (r\<lparr>pr_start := pr_start r + n\<rparr>) (set (active pa)) \<and>
            (pa_count pa' < pa_count pa \<or> (\<exists>s \<in> set (active pa'). pr_start s = pr_start r + n))) \<or>
         (allocate_from f z pa m i = Err AllocatorExhausted \<and>
            (\<forall>j. i \<le> j \<and> j < pa_count pa \<longrightarrow> \<not> fits n (active pa ! j)))"
  using assms
proof (induction f z pa m i rule: allocate_from.induct)
  case (1 f z pa m i)
  have wf: "table_wf pa" using "1.prems"(2) by (simp add: alloc_inv_def)
  have f: "f r = (if fits n r then Some (pr_start r, r\<lparr>pr_start := pr_start r + n\<rparr>) else None)" and pos: "0 < n" for r
    using "1.prems"(1) by (auto simp: carves_def fits_def)
  show ?case
  proof (cases "i < pa_count pa")
    case True
    let ?r = "active pa ! i"
    note ix = index_active [OF wf True] and st = store_active [OF wf True]
    show ?thesis
    proof (cases "fits n ?r")
      case fit: True
      from allocate_at [OF "1.prems"(2) True fit pos] obtain pa' where
        "(if region_is_empty (?r\<lparr>pr_start := pr_start ?r + n\<rparr>)
          then remove_region (pa\<lparr>pa_regions := (pa_regions pa)[i := ?r\<lparr>pr_start := pr_start ?r + n\<rparr>]\<rparr>) i
          else Ok (pa\<lparr>pa_regions := (pa_regions pa)[i := ?r\<lparr>pr_start := pr_start ?r + n\<rparr>]\<rparr>)) = Ok pa'"
        and rest: "alloc_inv pa' \<and> free_set pa' = free_set pa - block (pr_start ?r) n \<and>
           block (pr_start ?r) n \<subseteq> free_set pa \<and>
           set (active pa') \<subseteq> insert (?r\<lparr>pr_start := pr_start ?r + n\<rparr>) (set (active pa)) \<and>
           (pa_count pa' < pa_count pa \<or> (\<exists>s \<in> set (active pa'). pr_start s = pr_start ?r + n))" by blast
      then have "allocate_from f z pa m i = Ok (pr_start ?r, pa', fill_bytes m (pr_start ?r) 0 z)"
        using True fit by (subst allocate_from.simps) (simp add: ix st(1) f)
      moreover have "?r \<in> set (active pa)" using True length_active [OF wf] by simp
      ultimately show ?thesis using rest fit by blast
    next
      case False
      have "allocate_from f z pa m i = allocate_from f z pa m (i + 1)"
        using True False by (subst allocate_from.simps) (simp add: ix f)
      moreover have "\<forall>j. i \<le> j \<and> j < pa_count pa \<longrightarrow> \<not> fits n (active pa ! j)"
        if "\<forall>j. i + 1 \<le> j \<and> j < pa_count pa \<longrightarrow> \<not> fits n (active pa ! j)"
        using that False by (metis Suc_eq_plus1 le_neq_implies_less Suc_leI)
      moreover have "f ?r = None" using False f by simp
      note IH = 1(1) [OF True ix this "1.prems"]
      ultimately show ?thesis by (metis (no_types, lifting))
    qed
  next
    case False
    then show ?thesis by (subst (2) allocate_from.simps) auto
  qed
qed

section \<open>Reserving\<close>

definition reserve_region :: "u64 \<Rightarrow> u64 \<Rightarrow> physical_region \<Rightarrow> physical_region list" where
  "reserve_region s e r =
     (if pr_end r \<le> s \<or> e \<le> pr_start r then [r]
      else if s \<le> pr_start r \<and> pr_end r \<le> e then []
      else if s \<le> pr_start r then [r\<lparr>pr_start := min e (pr_end r)\<rparr>]
      else if pr_end r \<le> e then [r\<lparr>pr_end := max s (pr_start r)\<rparr>]
      else [r\<lparr>pr_end := s\<rparr>, \<lparr>pr_start = e, pr_end = pr_end r\<rparr>])"

definition reserve_list :: "u64 \<Rightarrow> u64 \<Rightarrow> physical_region list \<Rightarrow> physical_region list" where
  "reserve_list s e rs = concat (map (reserve_region s e) rs)"

text \<open>The range lies strictly inside the region, which it would split in two.\<close>

definition splits :: "u64 \<Rightarrow> u64 \<Rightarrow> physical_region \<Rightarrow> bool" where
  "splits s e r \<longleftrightarrow> pr_start r < s \<and> e < pr_end r"

lemma spans_reserve_region:
  "s < e \<Longrightarrow> pr_start r < pr_end r \<Longrightarrow> spans (reserve_region s e r) = span r - {s..<e}"
  by (auto simp: reserve_region_def span_def min_def max_def)

lemma gapped_reserve_region:
  assumes "s < e" "pr_start r < pr_end r"
  shows "gapped (reserve_region s e r) \<and>
         (\<forall>q \<in> set (reserve_region s e r). pr_start r \<le> pr_start q \<and> pr_end q \<le> pr_end r)"
  using assms by (auto simp: reserve_region_def gapped_Cons gapped_def [of "[]"] min_def max_def)

lemma reserve_list_spec:
  assumes "s < e" "gapped rs"
  shows "spans (reserve_list s e rs) = spans rs - {s..<e} \<and> gapped (reserve_list s e rs) \<and>
         (\<forall>q \<in> set (reserve_list s e rs). \<exists>r \<in> set rs. pr_start r \<le> pr_start q \<and> pr_end q \<le> pr_end r)"
  using assms(2)
proof (induction rs)
  case Nil
  then show ?case by (simp add: reserve_list_def gapped_def)
next
  case (Cons r rs)
  then have r: "pr_start r < pr_end r" "\<forall>q \<in> set rs. pr_end r < pr_start q"
    and IH: "spans (reserve_list s e rs) = spans rs - {s..<e}" "gapped (reserve_list s e rs)"
      "\<forall>q \<in> set (reserve_list s e rs). \<exists>r \<in> set rs. pr_start r \<le> pr_start q \<and> pr_end q \<le> pr_end r"
    by (auto simp: gapped_Cons)
  note g = gapped_reserve_region [OF assms(1) r(1)]
  have cons: "reserve_list s e (r # rs) = reserve_region s e r @ reserve_list s e rs"
    by (simp add: reserve_list_def)
  have "pr_end a < pr_start b" if "a \<in> set (reserve_region s e r)" "b \<in> set (reserve_list s e rs)" for a b
    using g that IH(3) r(2) by (meson order.strict_trans1 order.strict_trans2)
  with g IH(2) have "gapped (reserve_list s e (r # rs))"
    by (simp add: cons gapped_append)
  moreover have "spans (reserve_list s e (r # rs)) = spans (r # rs) - {s..<e}"
    using spans_reserve_region [OF assms(1) r(1)] IH(1) by (auto simp: cons)
  moreover have "\<forall>q \<in> set (reserve_list s e (r # rs)).
      \<exists>p \<in> set (r # rs). pr_start p \<le> pr_start q \<and> pr_end q \<le> pr_end p"
    unfolding cons using g IH(3) by auto
  ultimately show ?case by blast
qed

lemma reserve_list_beyond: "\<forall>r \<in> set rs. e \<le> pr_start r \<Longrightarrow> reserve_list s e rs = rs"
  by (induction rs) (auto simp: reserve_list_def reserve_region_def)

lemma reserve_from_list:
  assumes "table_wf pa" "i \<le> pa_count pa" "gapped (drop i (active pa))" "s < e"
  shows "if (\<exists>r \<in> set (drop i (active pa)). splits s e r) \<and> pa_count pa = MAX_FREE_RANGES
         then reserve_from s e pa i = Panic
         else \<exists>pa'. reserve_from s e pa i = Ok pa' \<and> table_wf pa' \<and>
                    active pa' = take i (active pa) @ reserve_list s e (drop i (active pa))"
  using assms
proof (induction s e pa i rule: reserve_from.induct)
  case (1 s e pa i)
  note wf = "1.prems"(1) and len = length_active [OF "1.prems"(1)]
  show ?case
  proof (cases "i < pa_count pa")
    case True
    let ?r = "active pa ! i" and ?rs = "drop (Suc i) (active pa)"
    have d: "drop i (active pa) = ?r # ?rs" using True len by (simp add: Cons_nth_drop_Suc)
    have tk: "take (Suc i) (active pa) = take i (active pa) @ [?r]"
      using True len by (simp add: take_Suc_conv_app_nth)
    have g: "gapped ?rs" "pr_start ?r < pr_end ?r" "\<forall>q \<in> set ?rs. pr_end ?r < pr_start q"
      using "1.prems"(3) d by (auto simp: gapped_Cons)
    have nosplit: "\<not> (\<exists>q \<in> set ?rs. splits s e q)" if "s < pr_end ?r"
      using that g(3) by (auto simp: splits_def dest: order.strict_trans)
    note ix = index_active [OF wf True] and st = store_active [OF wf True]
    have ds: "reserve_list s e (?r # ?rs) = reserve_region s e ?r @ reserve_list s e ?rs"
      by (simp add: reserve_list_def)
    consider (skip) "pr_end ?r \<le> s \<or> e \<le> pr_start ?r"
      | (drop) "\<not> (pr_end ?r \<le> s \<or> e \<le> pr_start ?r)" "s \<le> pr_start ?r \<and> pr_end ?r \<le> e"
      | (front) "\<not> (pr_end ?r \<le> s \<or> e \<le> pr_start ?r)" "s \<le> pr_start ?r" "\<not> pr_end ?r \<le> e"
      | (rear) "\<not> (pr_end ?r \<le> s \<or> e \<le> pr_start ?r)" "\<not> s \<le> pr_start ?r" "pr_end ?r \<le> e"
      | (inside) "\<not> (pr_end ?r \<le> s \<or> e \<le> pr_start ?r)" "\<not> s \<le> pr_start ?r" "\<not> pr_end ?r \<le> e"
      by blast
    then show ?thesis
    proof cases
      case skip
      have eq: "reserve_from s e pa i = reserve_from s e pa (i + 1)"
        using True skip by (subst reserve_from.simps) (simp add: ix)
      have "\<not> splits s e ?r" using skip g(2) "1.prems"(4) by (auto simp: splits_def)
      with 1(1) [OF True ix skip wf] True g(1) "1.prems"(4) skip show ?thesis
        unfolding eq by (auto simp: d ds tk reserve_region_def split: if_splits)
    next
      case drop
      obtain pa1 where p: "remove_region pa i = Ok pa1" "table_wf pa1" "pa_count pa1 = pa_count pa - 1"
        "active pa1 = take i (active pa) @ ?rs"
        using remove_region_active [OF wf True] by blast
      have t: "take i (active pa1) = take i (active pa)" "drop i (active pa1) = ?rs"
        using p(4) True len by (auto simp: min_def)
      have eq: "reserve_from s e pa i = reserve_from s e pa1 i"
        using True drop p(1) by (subst reserve_from.simps) (simp add: ix)
      have "\<not> splits s e ?r" using drop by (auto simp: splits_def)
      with 1(2) [OF True ix drop p(1,2)] True g(1) "1.prems"(4) drop nosplit p(3) show ?thesis
        unfolding eq by (auto simp: d ds t reserve_region_def split: if_splits)
    next
      case front
      define r' where "r' = ?r\<lparr>pr_start := min e (pr_end ?r)\<rparr>"
      define pa2 where "pa2 = pa\<lparr>pa_regions := (pa_regions pa)[i := r']\<rparr>"
      note st2 = st [of r', folded pa2_def]
      have t: "take (i + 1) (active pa2) = take i (active pa) @ [r']" "drop (i + 1) (active pa2) = ?rs"
        "pa_count pa2 = pa_count pa"
        unfolding st2(3) using True len by (simp_all add: take_Suc_store pa2_def)
      have eq: "reserve_from s e pa i = reserve_from s e pa2 (i + 1)"
        using True front by (subst reserve_from.simps) (simp add: ix st(1) pa2_def r'_def)
      have "\<not> splits s e ?r" using front by (auto simp: splits_def)
      moreover have "\<exists>pa'. reserve_from s e pa2 (i + 1) = Ok pa' \<and> table_wf pa' \<and>
          active pa' = take (i + 1) (active pa2) @ reserve_list s e (drop (i + 1) (active pa2))"
        using 1(3) [OF True ix front(1) _ front(2) st(1) [of r', unfolded r'_def], folded r'_def, folded pa2_def]
          st2(2) True g(1) "1.prems"(4) front nosplit t by auto
      ultimately show ?thesis
        using nosplit front unfolding eq t by (auto simp: d ds reserve_region_def r'_def)
    next
      case rear
      define r' where "r' = ?r\<lparr>pr_end := max s (pr_start ?r)\<rparr>"
      define pa2 where "pa2 = pa\<lparr>pa_regions := (pa_regions pa)[i := r']\<rparr>"
      note st2 = st [of r', folded pa2_def]
      have t: "take (i + 1) (active pa2) = take i (active pa) @ [r']" "drop (i + 1) (active pa2) = ?rs"
        "pa_count pa2 = pa_count pa"
        unfolding st2(3) using True len by (simp_all add: take_Suc_store pa2_def)
      have eq: "reserve_from s e pa i = reserve_from s e pa2 (i + 1)"
        using True rear by (subst reserve_from.simps) (simp add: ix st(1) pa2_def r'_def)
      have "\<not> splits s e ?r" using rear by (auto simp: splits_def)
      moreover have "\<exists>pa'. reserve_from s e pa2 (i + 1) = Ok pa' \<and> table_wf pa' \<and>
          active pa' = take (i + 1) (active pa2) @ reserve_list s e (drop (i + 1) (active pa2))"
        using 1(4) [OF True ix rear(1) _ rear(2,3) st(1) [of r', unfolded r'_def], folded r'_def, folded pa2_def]
          st2(2) True g(1) "1.prems"(4) rear nosplit t by auto
      ultimately show ?thesis
        using nosplit rear unfolding eq t by (auto simp: d ds reserve_region_def r'_def)
    next
      case inside
      then have sp: "splits s e ?r" by (auto simp: splits_def)
      have beyond: "reserve_list s e ?rs = ?rs"
        using inside g(3) by (intro reserve_list_beyond) (auto dest: order.strict_trans)
      show ?thesis
      proof (cases "pa_count pa < MAX_FREE_RANGES")
        case room: True
        let ?pa = "pa\<lparr>pa_regions := (pa_regions pa)[i := ?r\<lparr>pr_end := s\<rparr>]\<rparr>"
        from open_slot_active [of ?pa "i + 1" "\<lparr>pr_start = e, pr_end = pr_end ?r\<rparr>"] st True room
        obtain rs rs' where slot:
          "(shift_right (pa_regions ?pa) (i + 1) (pa_count pa) :: (_, memory_error) outcome) = Ok rs"
          "(store rs (i + 1) \<lparr>pr_start = e, pr_end = pr_end ?r\<rparr> :: (_, memory_error) outcome) = Ok rs'"
          "table_wf \<lparr>pa_regions = rs', pa_count = pa_count pa + 1\<rparr>"
          "active \<lparr>pa_regions = rs', pa_count = pa_count pa + 1\<rparr>
             = take (Suc i) (active ?pa) @ [\<lparr>pr_start = e, pr_end = pr_end ?r\<rparr>] @ drop (Suc i) (active ?pa)"
          by auto
        let ?pa2 = "\<lparr>pa_regions = rs', pa_count = pa_count pa + 1\<rparr>"
        have act: "active ?pa2 = take i (active pa) @ [?r\<lparr>pr_end := s\<rparr>, \<lparr>pr_start = e, pr_end = pr_end ?r\<rparr>] @ ?rs"
          unfolding slot(4) st(3) using True len by (simp add: take_Suc_store)
        have t: "take (i + 2) (active ?pa2) = take i (active pa) @ [?r\<lparr>pr_end := s\<rparr>, \<lparr>pr_start = e, pr_end = pr_end ?r\<rparr>]"
          "drop (i + 2) (active ?pa2) = ?rs"
          unfolding act using True len by (simp_all add: min_def)
        have lenr: "length (pa_regions pa) = MAX_FREE_RANGES" using wf by (simp add: table_wf_def)
        have slot1: "(shift_right ((pa_regions pa)[i := ?r\<lparr>pr_end := s\<rparr>]) (i + 1) (pa_count pa)
            :: (_, memory_error) outcome) = Ok rs" using slot(1) by simp
        have asrt: "rust_assert (pa_count pa < length (pa_regions pa)) = Ok ()" using room lenr by simp
        have no: "\<not> (s \<le> pr_start ?r \<and> pr_end ?r \<le> e)" using inside(2) by blast
        have eq: "reserve_from s e pa i = reserve_from s e ?pa2 (i + 2)"
          using True inside slot(1,2) room lenr by (subst reserve_from.simps) (simp add: ix st(1))
        have "if (\<exists>r \<in> set (drop (i + 2) (active ?pa2)). splits s e r) \<and> pa_count ?pa2 = MAX_FREE_RANGES
         then reserve_from s e ?pa2 (i + 2) = Panic
         else \<exists>pa'. reserve_from s e ?pa2 (i + 2) = Ok pa' \<and> table_wf pa' \<and>
                    active pa' = take (i + 2) (active ?pa2) @ reserve_list s e (drop (i + 2) (active ?pa2))"
          using 1(5) [OF True ix inside(1) no inside(2,3) asrt st(1) slot1 slot(2,3) _ _ "1.prems"(4)]
            g(1) True t by auto
        with nosplit inside room sp show ?thesis
          unfolding eq t by (auto simp: d ds reserve_region_def split: if_splits)
      next
        case False
        with wf have "pa_count pa = MAX_FREE_RANGES" "length (pa_regions pa) = MAX_FREE_RANGES"
          by (auto simp: table_wf_def)
        with True inside sp show ?thesis
          by (subst (1 2) reserve_from.simps) (simp add: ix d)
      qed
    qed
  next
    case False
    with "1.prems"(2) len show ?thesis
      by (subst (1 2) reserve_from.simps) (simp add: reserve_list_def wf)
  qed
qed

lemma reserve_range_spec:
  assumes "alloc_inv pa" "s < e"
  shows "if (\<exists>r \<in> set (active pa). splits s e r) \<and> pa_count pa = MAX_FREE_RANGES
         then reserve_range pa s e = Panic
         else \<exists>pa'. reserve_range pa s e = Ok pa' \<and> alloc_inv pa' \<and>
                    free_set pa' = free_set pa - {s..<e}"
  using reserve_from_list [of pa 0 s e] reserve_list_spec [OF assms(2), of "active pa"] assms
  by (auto simp: alloc_inv_def reserve_range_def not_le [symmetric] split: if_splits)

section \<open>The allocator as a page source\<close>

lemma allocate_from_none: "(\<And>r. f r = None) \<Longrightarrow> table_wf pa \<Longrightarrow> allocate_from f z pa m i = Err AllocatorExhausted"
proof (induction f z pa m i rule: allocate_from.induct)
  case (1 f z pa m i)
  show ?case
  proof (cases "i < pa_count pa")
    case True
    note ix = index_active [OF "1.prems"(2) True]
    have "allocate_from f z pa m (i + 1) = Err AllocatorExhausted"
      using "1.IH" [OF True ix "1.prems"(1)] "1.prems" by blast
    with True "1.prems"(1) show ?thesis by (subst allocate_from.simps) (simp add: ix)
  next
    case False
    then show ?thesis by (subst allocate_from.simps) simp
  qed
qed

lemma allocate_page_cases:
  assumes "alloc_inv pa"
  obtains (page) r pa' where "r \<in> set (active pa)" "fits PAGE_SIZE r"
      "allocate_page pa m = Ok (pr_start r, pa', fill_bytes m (pr_start r) 0 4096)" "alloc_inv pa'"
      "free_set pa' = free_set pa - block (pr_start r) PAGE_SIZE" "block (pr_start r) PAGE_SIZE \<subseteq> free_set pa"
      "set (active pa') \<subseteq> insert (r\<lparr>pr_start := pr_start r + PAGE_SIZE\<rparr>) (set (active pa))"
  | (exhausted) "allocate_page pa m = Err AllocatorExhausted" "\<forall>r \<in> set (active pa). \<not> fits PAGE_SIZE r"
proof -
  have "pa_count pa = length (active pa)" using assms by (simp add: alloc_inv_def length_active)
  then have all: "\<forall>j. 0 \<le> j \<and> j < pa_count pa \<longrightarrow> \<not> fits PAGE_SIZE (active pa ! j) \<Longrightarrow>
      \<forall>r \<in> set (active pa). \<not> fits PAGE_SIZE r"
    by (metis in_set_conv_nth le0)
  have "unat PAGE_SIZE = 4096" by (simp add: PAGE_SIZE_def)
  then show ?thesis
    using allocate_from_spec [OF carves_page assms, of 4096 m 0] page exhausted all
    by (simp only: allocate_page_def) blast
qed

lemma allocate_contiguous_cases:
  assumes "alloc_inv pa"
  obtains (pages) r pa' where "r \<in> set (active pa)" "fits (count * PAGE_SIZE) r" "0 < count * PAGE_SIZE"
      "unat (count * PAGE_SIZE) = unat count * 4096"
      "allocate_contiguous_pages pa m count =
         Ok (pr_start r, pa', fill_bytes m (pr_start r) 0 (unat (count * PAGE_SIZE)))" "alloc_inv pa'"
      "free_set pa' = free_set pa - block (pr_start r) (count * PAGE_SIZE)"
      "block (pr_start r) (count * PAGE_SIZE) \<subseteq> free_set pa"
      "pa_count pa' < pa_count pa \<or> (\<exists>s \<in> set (active pa'). pr_start s = pr_start r + count * PAGE_SIZE)"
  | (exhausted) "allocate_contiguous_pages pa m count = Err AllocatorExhausted"
proof (cases "count \<noteq> 0 \<and> unat count * 4096 < 2 ^ 64")
  case True
  then have c: "carves (\<lambda>r. region_allocate_contiguous r count) (count * PAGE_SIZE)"
    using carves_contiguous by blast
  have "0 < count * PAGE_SIZE" using c by (simp add: carves_def)
  moreover have "unat (count * PAGE_SIZE) = unat count * 4096"
    using True unat_mult_lem [of count PAGE_SIZE] by (simp add: PAGE_SIZE_def)
  ultimately show ?thesis
    using allocate_from_spec [OF c assms, of "unat (count * PAGE_SIZE)" m 0] pages exhausted
    by (simp only: allocate_contiguous_pages_def) blast
next
  case False
  then have "region_allocate_contiguous r count = None" for r
    by (auto simp: region_allocate_contiguous_def checked_mul_def PAGE_SIZE_def)
  with assms have "allocate_contiguous_pages pa m count = Err AllocatorExhausted"
    by (simp add: allocate_contiguous_pages_def allocate_from_none alloc_inv_def)
  then show ?thesis by (rule exhausted)
qed

text \<open>The contract of a source of zeroed pages. Its client lemma: pages taken one after the other
  are pairwise disjoint, were free before, and are all still zero after the last one is taken.\<close>

primrec take_pages ::
  "('s \<Rightarrow> memory \<Rightarrow> (u64 \<times> 's \<times> memory, 'e) outcome) \<Rightarrow> nat \<Rightarrow> 's \<Rightarrow> memory \<Rightarrow>
   (u64 list \<times> 's \<times> memory, 'e) outcome" where
  "take_pages alloc 0 s m = Ok ([], s, m)"
| "take_pages alloc (Suc n) s m =
     and_then (alloc s m) (\<lambda>(p, s', m').
     and_then (take_pages alloc n s' m') (\<lambda>(ps, s'', m''). Ok (p # ps, s'', m'')))"

locale page_source =
  fixes alloc :: "'s \<Rightarrow> memory \<Rightarrow> (u64 \<times> 's \<times> memory, 'e) outcome"
    and inv :: "'s \<Rightarrow> bool"
    and free :: "'s \<Rightarrow> u64 set"
  assumes alloc_law: "inv s \<Longrightarrow> alloc s m = Ok (p, s', m') \<Longrightarrow>
        inv s' \<and> block p PAGE_SIZE \<subseteq> free s \<and> free s' = free s - block p PAGE_SIZE \<and>
        m' = fill_bytes m p 0 4096 \<and> unat p + 4096 < 2 ^ 64"
    and alloc_no_panic: "inv s \<Longrightarrow> alloc s m \<noteq> Panic"
begin

lemma zeroed_block:
  assumes "unat p + 4096 < 2 ^ 64"
  shows "x \<in> block p PAGE_SIZE \<Longrightarrow> fill_bytes m p 0 4096 x = 0"
    and "x \<notin> block p PAGE_SIZE \<Longrightarrow> fill_bytes m p 0 4096 x = m x"
proof -
  have u: "unat (p + PAGE_SIZE) = unat p + 4096"
    using assms unat_add_lem [of p PAGE_SIZE] by (simp add: PAGE_SIZE_def)
  show "x \<in> block p PAGE_SIZE \<Longrightarrow> fill_bytes m p 0 4096 x = 0"
    using u by (auto simp: block_def fill_bytes_def word_le_nat_alt word_less_nat_alt unat_sub)
  show "x \<notin> block p PAGE_SIZE \<Longrightarrow> fill_bytes m p 0 4096 x = m x"
  proof (cases "p \<le> x")
    case True
    moreover assume "x \<notin> block p PAGE_SIZE"
    ultimately show ?thesis
      using u by (auto simp: block_def fill_bytes_def word_le_nat_alt word_less_nat_alt unat_sub)
  next
    case False
    then have "\<not> unat (x - p) < 4096"
      using assms by (simp add: unat_sub_if' word_le_nat_alt)
    then show ?thesis by (simp add: fill_bytes_def)
  qed
qed

lemma take_pages_disjoint:
  assumes "inv s" "take_pages alloc n s m = Ok (ps, s', m')"
  shows "inv s' \<and> length ps = n \<and> (\<forall>p \<in> set ps. block p PAGE_SIZE \<subseteq> free s) \<and>
         free s' = free s - (\<Union>p \<in> set ps. block p PAGE_SIZE) \<and>
         (\<forall>i j. i < j \<and> j < n \<longrightarrow> block (ps ! i) PAGE_SIZE \<inter> block (ps ! j) PAGE_SIZE = {}) \<and>
         (\<forall>p \<in> set ps. \<forall>x \<in> block p PAGE_SIZE. m' x = 0) \<and>
         (\<forall>x. x \<notin> free s \<longrightarrow> m' x = m x)"
  using assms
proof (induction n arbitrary: s m ps)
  case 0
  then show ?case by simp
next
  case (Suc n)
  from Suc.prems(2) obtain p s1 m1 qs where a: "alloc s m = Ok (p, s1, m1)" "take_pages alloc n s1 m1 = Ok (qs, s', m')"
    "ps = p # qs" by auto
  note l = alloc_law [OF Suc.prems(1) a(1)]
  then have m1: "m1 = fill_bytes m p 0 4096" and up: "unat p + 4096 < 2 ^ 64" by auto
  note IH = Suc.IH [OF conjunct1 [OF l] a(2)]
  have "\<forall>x. x \<notin> free s1 \<longrightarrow> m' x = m1 x" using IH by (elim conjE) assumption
  then have keep: "x \<notin> free s1 \<Longrightarrow> m' x = m1 x" for x by simp
  have "m' x = 0" if "x \<in> block p PAGE_SIZE" for x
  proof -
    have "x \<notin> free s1" using l that by simp
    from keep [OF this] zeroed_block(1) [OF up that] show ?thesis by (simp add: m1)
  qed
  moreover have "m' x = m x" if "x \<notin> free s" for x
  proof -
    have "x \<notin> free s1" "x \<notin> block p PAGE_SIZE" using l that by auto
    from keep [OF this(1)] zeroed_block(2) [OF up this(2)] show ?thesis by (simp add: m1)
  qed
  moreover have "\<forall>i j. i < j \<and> j < Suc n \<longrightarrow> block (ps ! i) PAGE_SIZE \<inter> block (ps ! j) PAGE_SIZE = {}"
  proof (intro allI impI)
    fix i j assume ij: "i < j \<and> j < Suc n"
    then obtain j' where "j = Suc j'" "j' < n" by (cases j) auto
    then show "block (ps ! i) PAGE_SIZE \<inter> block (ps ! j) PAGE_SIZE = {}"
      using IH l a(3) ij by (cases i) (auto dest!: nth_mem)
  qed
  ultimately show ?case using IH l a(3) by auto
qed

end

lemma fits_page_bound: "fits PAGE_SIZE r \<Longrightarrow> unat (pr_start r) + 4096 < 2 ^ 64"
  using unat_less_power [of "pr_end r"] by (simp add: fits_def PAGE_SIZE_def)

interpretation frames: page_source allocate_page alloc_inv free_set
proof
  fix s m p s' m'
  assume "alloc_inv s" "allocate_page s m = Ok (p, s', m')"
  then show "alloc_inv s' \<and> block p PAGE_SIZE \<subseteq> free_set s \<and>
      free_set s' = free_set s - block p PAGE_SIZE \<and> m' = fill_bytes m p 0 4096 \<and> unat p + 4096 < 2 ^ 64"
    using fits_page_bound by (elim allocate_page_cases [of s m]) auto
next
  fix s m
  assume "alloc_inv s"
  then show "allocate_page s m \<noteq> Panic" by (elim allocate_page_cases [of s m]) auto
qed

section \<open>Freeing\<close>

lemma merge_list_touch:
  assumes "merge_list ms me rs = (ys, ms', me')" "r \<in> set rs" "\<not> (pr_end r < ms \<or> me < pr_start r)"
  shows "length ys < length rs"
  using assms
proof (induction ms me rs arbitrary: ys rule: merge_list.induct)
  case (2 ms me q rs)
  show ?case
  proof (cases "pr_end q < ms \<or> me < pr_start q")
    case True
    then have "r \<in> set rs" using "2.prems"(2,3) by auto
    with True 2 show ?thesis by (auto simp: Let_def split: prod.splits)
  next
    case False
    with "2.prems"(1) have "merge_list (min ms (pr_start q)) (max me (pr_end q)) rs = (ys, ms', me')" by auto
    from merge_list_set [OF this] show ?thesis by simp
  qed
qed simp

lemma free_after_allocate:
  assumes "alloc_inv pa" "allocate_contiguous_pages pa m count = Ok (p, pa', m')"
  shows "\<exists>pa''. free_contiguous_pages pa' p count = Ok pa'' \<and> alloc_inv pa'' \<and>
           free_set pa'' = free_set pa"
proof (rule allocate_contiguous_cases [OF assms(1), of count m], goal_cases pages exhausted)
  case (pages r pa1)
  then have eq: "p = pr_start r" "pa' = pa1" using assms(2) by auto
  let ?n = "count * PAGE_SIZE"
  have lt: "p < p + ?n"
    using fits_add(1) [OF pages(2)] pages(3) eq by (simp add: word_less_nat_alt)
  obtain ys ms me where m: "merge_list p (p + ?n) (active pa1) = (ys, ms, me)"
    by (cases "merge_list p (p + ?n) (active pa1)") auto
  have cnt: "length (active pa1) = pa_count pa1" "pa_count pa1 \<le> MAX_FREE_RANGES" "pa_count pa \<le> MAX_FREE_RANGES"
    using pages(6) assms(1) by (auto simp: alloc_inv_def length_active table_wf_def)
  have "length ys < MAX_FREE_RANGES"
    using pages(9)
  proof
    assume "pa_count pa1 < pa_count pa"
    with merge_list_set [OF m] cnt show ?thesis by linarith
  next
    assume "\<exists>s \<in> set (active pa1). pr_start s = pr_start r + ?n"
    then obtain s where s: "s \<in> set (active pa1)" "pr_start s = p + ?n" using eq by auto
    moreover have "pr_start s < pr_end s" using s(1) pages(6) by (simp add: alloc_inv_def gapped_def)
    ultimately have "\<not> (pr_end s < p \<or> p + ?n < pr_start s)" using lt by auto
    with merge_list_touch [OF m s(1)] cnt show ?thesis by linarith
  qed
  then have "\<not> crowded pa1 p (p + ?n)" using m by (simp add: crowded_def)
  with insert_range_spec [OF pages(6) lt] obtain pa'' where
    i: "insert_range pa1 p (p + ?n) = Ok pa''" "alloc_inv pa''" "free_set pa'' = free_set pa1 \<union> {p..<p + ?n}"
    by blast
  have "count \<noteq> 0" using pages(3) by auto
  with i(1) eq have "free_contiguous_pages pa' p count = Ok pa''" by (simp add: free_contiguous_pages_def)
  moreover have "free_set pa'' = free_set pa" using i(3) pages(7,8) eq by (auto simp: block_def)
  ultimately show ?thesis using i(2) by blast
next
  case exhausted
  with assms(2) show ?thesis by simp
qed

section \<open>Ownership\<close>

text \<open>The allocator with the blocks its clients hold: any interleaving of page allocations,
  contiguous allocations and frees of held blocks.\<close>

inductive owner_step ::
  "physical_allocator \<times> (u64 \<times> u64) set \<Rightarrow> physical_allocator \<times> (u64 \<times> u64) set \<Rightarrow> bool" where
  get_page: "allocate_page pa m = Ok (p, pa', m') \<Longrightarrow> owner_step (pa, held) (pa', insert (p, 1) held)"
| get_pages: "allocate_contiguous_pages pa m n = Ok (p, pa', m') \<Longrightarrow>
    owner_step (pa, held) (pa', insert (p, n) held)"
| put_pages: "(p, n) \<in> held \<Longrightarrow> free_contiguous_pages pa p n = Ok pa' \<Longrightarrow>
    owner_step (pa, held) (pa', held - {(p, n)})"

inductive_cases owner_stepE: "owner_step (pa, held) (pa', held')"

definition held_block :: "u64 \<times> u64 \<Rightarrow> u64 set" where
  "held_block h = block (fst h) (snd h * PAGE_SIZE)"

definition ownership_inv :: "u64 set \<Rightarrow> physical_allocator \<times> (u64 \<times> u64) set \<Rightarrow> bool" where
  "ownership_inv whole st \<longleftrightarrow>
     (case st of (pa, held) \<Rightarrow>
       alloc_inv pa \<and>
       (\<forall>h \<in> held. snd h \<noteq> 0 \<and> fst h < fst h + snd h * PAGE_SIZE) \<and>
       (\<forall>h \<in> held. held_block h \<inter> free_set pa = {}) \<and>
       (\<forall>h \<in> held. \<forall>k \<in> held. h \<noteq> k \<longrightarrow> held_block h \<inter> held_block k = {}) \<and>
       free_set pa \<union> (\<Union>h \<in> held. held_block h) = whole)"

lemma ownershipD:
  assumes "ownership_inv whole (pa, held)"
  shows "alloc_inv pa" "h \<in> held \<Longrightarrow> snd h \<noteq> 0" "h \<in> held \<Longrightarrow> fst h < fst h + snd h * PAGE_SIZE"
    "h \<in> held \<Longrightarrow> held_block h \<inter> free_set pa = {}"
    "h \<in> held \<Longrightarrow> k \<in> held \<Longrightarrow> h \<noteq> k \<Longrightarrow> held_block h \<inter> held_block k = {}"
    "free_set pa \<union> (\<Union>h \<in> held. held_block h) = whole"
  using assms unfolding ownership_inv_def by auto

lemma ownership_get:
  assumes "ownership_inv whole (pa, held)" "alloc_inv pa'" "n \<noteq> 0" "p < p + n * PAGE_SIZE"
    "free_set pa' = free_set pa - block p (n * PAGE_SIZE)" "block p (n * PAGE_SIZE) \<subseteq> free_set pa"
  shows "ownership_inv whole (pa', insert (p, n) held)"
proof -
  note inv = ownershipD [OF assms(1)]
  have hb: "held_block (p, n) = block p (n * PAGE_SIZE)" by (simp add: held_block_def)
  have dis: "held_block h \<inter> held_block (p, n) = {}" if "h \<in> held" for h
    using inv(4) [OF that] assms(6) hb by blast
  have old: "held_block h \<inter> free_set pa' = {}" if "h \<in> held" for h
    using inv(4) [OF that] assms(5) by blast
  have new: "held_block (p, n) \<inter> free_set pa' = {}" using assms(5) hb by blast
  have whole: "free_set pa' \<union> held_block (p, n) = free_set pa" using assms(5,6) hb by blast
  show ?thesis
    unfolding ownership_inv_def prod.case
  proof (intro conjI ballI impI)
    fix h k assume "h \<in> insert (p, n) held" "k \<in> insert (p, n) held" "h \<noteq> k"
    then show "held_block h \<inter> held_block k = {}" using inv(5) dis by (metis Int_commute insertE)
  next
    fix h assume "h \<in> insert (p, n) held"
    then show "held_block h \<inter> free_set pa' = {}" using old new by (elim insertE) simp_all
  qed (use inv assms(2-4) old new whole in auto)
qed

lemma ownership_put:
  assumes "ownership_inv whole (pa, held)" "(p, n) \<in> held" "free_contiguous_pages pa p n = Ok pa'"
  shows "ownership_inv whole (pa', held - {(p, n)})"
proof -
  note inv = ownershipD [OF assms(1)]
  have pn: "n \<noteq> 0" "p < p + n * PAGE_SIZE" using inv(2,3) assms(2) by force+
  have "insert_range pa p (p + n * PAGE_SIZE) = Ok pa'"
    using assms(3) pn(1) by (simp add: free_contiguous_pages_def)
  then have f: "alloc_inv pa'" "free_set pa' = free_set pa \<union> held_block (p, n)"
    using insert_range_spec [OF inv(1) pn(2)] by (auto simp: held_block_def block_def)
  have old: "held_block h \<inter> free_set pa' = {}" if "h \<in> held - {(p, n)}" for h
    using inv(4) [of h] inv(5) [of h "(p, n)"] assms(2) that unfolding f(2) by blast
  show ?thesis
    unfolding ownership_inv_def prod.case
  proof (intro conjI ballI impI)
    fix h k assume "h \<in> held - {(p, n)}" "k \<in> held - {(p, n)}" "h \<noteq> k"
    then show "held_block h \<inter> held_block k = {}" using inv(5) by blast
  next
    show "free_set pa' \<union> (\<Union>h \<in> held - {(p, n)}. held_block h) = whole"
      using inv(6) assms(2) unfolding f(2) by blast
  qed (use inv f(1) old in auto)
qed

lemma owner_step_inv:
  assumes "owner_step st st'" "ownership_inv whole st"
  shows "ownership_inv whole st'"
  using assms
proof (induction rule: owner_step.induct)
  case (get_page pa m p pa' m' held)
  then have inv: "alloc_inv pa" by (simp add: ownership_inv_def)
  show ?case
  proof (rule allocate_page_cases [OF inv, of m], goal_cases page exhausted)
    case (page r pa1)
    have "0 < PAGE_SIZE" by (simp add: PAGE_SIZE_def)
    then have "p < p + PAGE_SIZE"
      using fits_add(1) [OF page(2)] page(3) get_page(1) by (auto simp: word_less_nat_alt)
    with page get_page show ?thesis by (intro ownership_get) auto
  next
    case exhausted
    with get_page show ?thesis by simp
  qed
next
  case (get_pages pa m n p pa' m' held)
  then have inv: "alloc_inv pa" by (simp add: ownership_inv_def)
  show ?case
  proof (rule allocate_contiguous_cases [OF inv, of n m], goal_cases pages exhausted)
    case (pages r pa1)
    then have "p < p + n * PAGE_SIZE" "n \<noteq> 0"
      using fits_add(1) [OF pages(2)] get_pages(1) by (auto simp: word_less_nat_alt)
    with pages get_pages show ?thesis by (intro ownership_get) auto
  next
    case exhausted
    with get_pages show ?thesis by simp
  qed
next
  case (put_pages p n held pa pa')
  then show ?case using ownership_put by blast
qed

lemma owner_reach_inv:
  "owner_step\<^sup>*\<^sup>* st st' \<Longrightarrow> ownership_inv whole st \<Longrightarrow> ownership_inv whole st'"
  by (induction rule: rtranclp_induct) (auto intro: owner_step_inv)

section \<open>Page-aligned tables\<close>

definition aligned_region :: "physical_region \<Rightarrow> bool" where
  "aligned_region r \<longleftrightarrow> 4096 dvd unat (pr_start r) \<and> 4096 dvd unat (pr_end r)"

lemma aligned_fits:
  assumes "aligned_region r" "pr_start r < pr_end r" "pr_start r \<noteq> 0"
  shows "fits PAGE_SIZE r"
proof -
  obtain a b where "unat (pr_start r) = 4096 * a" "unat (pr_end r) = 4096 * b"
    using assms(1) by (auto simp: aligned_region_def elim!: dvdE)
  moreover from this have "4096 * a < 4096 * b" using assms(2) by (simp add: word_less_nat_alt)
  then have "a < b" by simp
  ultimately show ?thesis using assms(3) by (simp add: fits_def PAGE_SIZE_def)
qed

text \<open>A concrete table for the examples: one free range of two pages.\<close>

definition two_pages :: physical_allocator where
  "two_pages = \<lparr>pa_regions = (replicate MAX_FREE_RANGES region_empty)[0 := \<lparr>pr_start = 0x1000000, pr_end = 0x1002000\<rparr>],
      pa_count = 1\<rparr>"

lemma active_two_pages: "active two_pages = [\<lparr>pr_start = 0x1000000, pr_end = 0x1002000\<rparr>]"
  by (simp add: active_def two_pages_def MAX_FREE_RANGES_def numeral_eq_Suc)

lemma two_pages_inv: "alloc_inv two_pages"
  by (simp add: alloc_inv_def active_two_pages gapped_def table_wf_def)
    (simp add: two_pages_def MAX_FREE_RANGES_def)

section \<open>Properties\<close>

text \<open>C13. No memory is ever handed out twice: in every state reachable by allocating pages and
  contiguous blocks and freeing held blocks, in any order, the held blocks are pairwise disjoint
  and disjoint from the free set, and free and held memory together are exactly the memory the
  allocator started with.\<close>

theorem pages_never_shared:
  assumes "alloc_inv pa" "owner_step\<^sup>*\<^sup>* (pa, {}) (pa', held)"
  shows "alloc_inv pa' \<and>
         (\<forall>h \<in> held. \<forall>k \<in> held. h \<noteq> k \<longrightarrow> held_block h \<inter> held_block k = {}) \<and>
         (\<forall>h \<in> held. held_block h \<inter> free_set pa' = {}) \<and>
         free_set pa' \<union> (\<Union>h \<in> held. held_block h) = free_set pa"
proof -
  have "ownership_inv (free_set pa) (pa, {})" using assms(1) by (simp add: ownership_inv_def)
  with owner_reach_inv [OF assms(2)] have "ownership_inv (free_set pa) (pa', held)" .
  note inv = ownershipD [OF this]
  show ?thesis by (intro conjI ballI impI inv)
qed

theorem pages_never_shared_witness:
  "\<exists>pa' p. owner_step (two_pages, {}) (pa', {(p, 1)}) \<and>
     held_block (p, 1) \<inter> free_set pa' = {} \<and> free_set pa' \<union> held_block (p, 1) = free_set two_pages"
proof (rule allocate_page_cases [OF two_pages_inv, of "\<lambda>_. 0"], goal_cases page exhausted)
  case (page r pa')
  then have step: "owner_step (two_pages, {}) (pa', {(pr_start r, 1)})"
    using owner_step.get_page [of two_pages "\<lambda>_. 0"] by blast
  then have "owner_step\<^sup>*\<^sup>* (two_pages, {}) (pa', {(pr_start r, 1)})" by blast
  from pages_never_shared [OF two_pages_inv this] step show ?case by auto
next
  case exhausted
  then show ?case by (simp add: active_two_pages fits_def PAGE_SIZE_def)
qed

text \<open>C33. A successful page allocation returns memory that was free, removes exactly that page from the
  free set and zeroes it; on a page-aligned table without page 0 the allocator reports
  exhaustion only when nothing is free, and it never panics.\<close>

theorem allocate_page_correct:
  assumes "alloc_inv pa" "\<forall>r \<in> set (active pa). aligned_region r \<and> pr_start r \<noteq> 0"
  shows "case allocate_page pa m of
           Ok (p, pa', m') \<Rightarrow> alloc_inv pa' \<and> block p PAGE_SIZE \<subseteq> free_set pa \<and>
             free_set pa' = free_set pa - block p PAGE_SIZE \<and> 4096 dvd unat p \<and>
             (\<forall>x \<in> block p PAGE_SIZE. m' x = 0) \<and> (\<forall>x. x \<notin> block p PAGE_SIZE \<longrightarrow> m' x = m x)
         | Err e \<Rightarrow> e = AllocatorExhausted \<and> free_set pa = {}
         | Panic \<Rightarrow> False"
proof (rule allocate_page_cases [OF assms(1), of m], goal_cases page exhausted)
  case (page r pa')
  note z = frames.zeroed_block [OF fits_page_bound [OF page(2)], of _ m]
  from page assms(2) z show ?case by (auto simp: aligned_region_def)
next
  case exhausted
  have "active pa = []"
  proof (rule ccontr)
    assume "active pa \<noteq> []"
    then obtain r where r: "r \<in> set (active pa)" by (cases "active pa") auto
    then have "pr_start r < pr_end r" using assms(1) by (simp add: alloc_inv_def gapped_def)
    with aligned_fits r assms(2) exhausted(2) show False by blast
  qed
  with exhausted(1) show ?case by simp
qed

theorem allocate_page_correct_witness:
  "case allocate_page two_pages (\<lambda>_. 7) of
     Ok (p, pa', m') \<Rightarrow> block p PAGE_SIZE \<subseteq> free_set two_pages \<and> (\<forall>x \<in> block p PAGE_SIZE. m' x = 0)
   | Err e \<Rightarrow> False
   | Panic \<Rightarrow> False"
proof -
  have "\<forall>r \<in> set (active two_pages). aligned_region r \<and> pr_start r \<noteq> 0"
    by (simp add: active_two_pages aligned_region_def)
  moreover have "0x1000000 \<in> free_set two_pages" by (simp add: active_two_pages span_def)
  ultimately show ?thesis
    using allocate_page_correct [OF two_pages_inv, of "\<lambda>_. 7"] by (auto split: outcome.splits)
qed

text \<open>C34. Allocating a contiguous block and freeing it again succeeds and restores the free set: the
  freed block always finds a slot, because it merges with the range it was cut from or refills
  the slot that range left.\<close>

theorem allocate_free_roundtrip:
  assumes "alloc_inv pa" "allocate_contiguous_pages pa m count = Ok (p, pa', m')"
  shows "\<exists>pa''. free_contiguous_pages pa' p count = Ok pa'' \<and> alloc_inv pa'' \<and>
           free_set pa'' = free_set pa"
  using assms by (rule free_after_allocate)

theorem allocate_free_roundtrip_witness:
  "\<exists>p pa' m' pa''. allocate_contiguous_pages two_pages (\<lambda>_. 0) 2 = Ok (p, pa', m') \<and>
     free_contiguous_pages pa' p 2 = Ok pa'' \<and> free_set pa'' = free_set two_pages"
proof -
  have "\<exists>p pa' m'. allocate_contiguous_pages two_pages (\<lambda>_. 0) 2 = Ok (p, pa', m')"
    by (simp add: allocate_contiguous_pages_def allocate_from.simps two_pages_def MAX_FREE_RANGES_def
        region_allocate_contiguous_def region_is_empty_def PAGE_SIZE_def checked_mul_def
        checked_add_def remove_region_def shift_left.simps)
  with allocate_free_roundtrip [OF two_pages_inv] show ?thesis by blast
qed

text \<open>C32. Adding a range to the allocator and reserving a range from it are set union and set
  difference on the free memory, and keep the table sorted with gaps. Each aborts exactly when
  the result would need a 129th table slot.\<close>

theorem insert_reserve_are_set_operations:
  assumes "alloc_inv pa" "start < end"
  shows "(crowded pa start end \<longrightarrow> add_region pa start end = Panic) \<and>
         (\<not> crowded pa start end \<longrightarrow>
            (\<exists>pa'. add_region pa start end = Ok pa' \<and> alloc_inv pa' \<and>
                   free_set pa' = free_set pa \<union> {start..<end})) \<and>
         (if (\<exists>r \<in> set (active pa). splits start end r) \<and> pa_count pa = MAX_FREE_RANGES
          then reserve_range pa start end = Panic
          else \<exists>pa'. reserve_range pa start end = Ok pa' \<and> alloc_inv pa' \<and>
                     free_set pa' = free_set pa - {start..<end})"
  using insert_range_spec [OF assms] reserve_range_spec [OF assms] by (simp add: add_region_def)

theorem insert_reserve_are_set_operations_witness:
  "\<exists>pa'. reserve_range two_pages 0x1001000 0x2000000 = Ok pa' \<and>
     free_set pa' = free_set two_pages - {0x1001000..<0x2000000}"
  using insert_reserve_are_set_operations [OF two_pages_inv, of "0x1001000" "0x2000000"]
  by (auto simp: active_two_pages splits_def two_pages_def MAX_FREE_RANGES_def)

end
