(* ===== verification/Memory_Types.thy ===== *)
theory Memory_Types
  imports Allocator
begin

text \<open>
  The memory subsystem's shared types, \<^verbatim>\<open>kernel/kernel/src/memory/types.rs\<close>: address spaces, loaded
  programs, kernel buffers and the list of physical pages a process owns, with the operations that
  give their pages back to the allocator.
\<close>

definition USER_IMAGE_BASE :: u64 where "USER_IMAGE_BASE = 0x400000"
definition USER_STACK_TOP :: u64 where "USER_STACK_TOP = 0x800000"
definition USER_STACK_PAGES :: nat where "USER_STACK_PAGES = 16"
definition MAX_SEGMENT_PAGES :: nat where "MAX_SEGMENT_PAGES = 128"
definition MAX_OWNED_PAGES :: nat where "MAX_OWNED_PAGES = MAX_SEGMENT_PAGES + USER_STACK_PAGES + 32"
definition MAX_STARTUP_ARGS :: nat where "MAX_STARTUP_ARGS = 32"

record address_space =
  as_root_paddr :: u64

record owned_pages =
  op_pages :: "u64 list"
  op_len :: nat

record loaded_user_program =
  lp_address_space :: address_space
  lp_entry_point :: u64
  lp_user_stack_top :: u64
  lp_owned_pages :: owned_pages

record program_startup =
  ps_argv0 :: bytes
  ps_argv_tail :: bytes

record kernel_buffer =
  kb_start_paddr :: u64
  kb_len :: u64
  kb_page_count :: u64

section \<open>Owned pages\<close>

definition owned_pages_empty :: owned_pages where
  "owned_pages_empty = \<lparr>op_pages = replicate MAX_OWNED_PAGES 0, op_len = 0\<rparr>"

definition owned_pages_push :: "u64 \<Rightarrow> owned_pages \<Rightarrow> (owned_pages, memory_error) outcome" where
  "owned_pages_push page op =
     (if length (op_pages op) \<le> op_len op then Err OwnedPageCapacityExceeded
      else and_then (store (op_pages op) (op_len op) page) (\<lambda>ps.
             Ok \<lparr>op_pages = ps, op_len = op_len op + 1\<rparr>))"

function release_pages_from ::
  "owned_pages \<Rightarrow> nat \<Rightarrow> physical_allocator \<Rightarrow> (physical_allocator, memory_error) outcome" where
  "release_pages_from op i pa =
     (if i < op_len op
      then and_then (index (op_pages op) i) (\<lambda>page.
           and_then (free_contiguous_pages pa page 1) (\<lambda>pa'. release_pages_from op (i + 1) pa'))
      else Ok pa)"
  by pat_completeness auto
termination
  by (relation "measure (\<lambda>(op, i, pa). op_len op - i)") auto

definition owned_pages_release ::
  "owned_pages \<Rightarrow> physical_allocator \<Rightarrow> (physical_allocator, memory_error) outcome" where
  "owned_pages_release op pa = release_pages_from op 0 pa"

declare release_pages_from.simps [simp del]

section \<open>Kernel buffers\<close>

definition kernel_buffer_as_slice :: "memory \<Rightarrow> kernel_buffer \<Rightarrow> bytes" where
  "kernel_buffer_as_slice m kb = read_mem m (kb_start_paddr kb) (unat (kb_len kb))"

definition kernel_buffer_release ::
  "kernel_buffer \<Rightarrow> physical_allocator \<Rightarrow> (physical_allocator, memory_error) outcome" where
  "kernel_buffer_release kb pa = free_contiguous_pages pa (kb_start_paddr kb) (kb_page_count kb)"

section \<open>Lemmas\<close>

definition owned_list :: "owned_pages \<Rightarrow> u64 list" where
  "owned_list op = take (op_len op) (op_pages op)"

definition owned_pages_wf :: "owned_pages \<Rightarrow> bool" where
  "owned_pages_wf op \<longleftrightarrow> length (op_pages op) = MAX_OWNED_PAGES \<and> op_len op \<le> MAX_OWNED_PAGES"

lemma owned_pages_empty_wf [simp]: "owned_pages_wf owned_pages_empty" "owned_list owned_pages_empty = []"
  by (simp_all add: owned_pages_wf_def owned_pages_empty_def owned_list_def)

lemma owned_pages_push_spec:
  assumes "owned_pages_wf op"
  shows "owned_pages_push page op =
     (if op_len op = MAX_OWNED_PAGES then Err OwnedPageCapacityExceeded
      else Ok \<lparr>op_pages = (op_pages op)[op_len op := page], op_len = op_len op + 1\<rparr>)"
  using assms by (auto simp: owned_pages_push_def owned_pages_wf_def)

lemma owned_pages_push_wf:
  assumes "owned_pages_wf op" "owned_pages_push page op = Ok op'"
  shows "owned_pages_wf op' \<and> owned_list op' = owned_list op @ [page]"
  using assms
  by (auto simp: owned_pages_push_spec owned_pages_wf_def owned_list_def take_Suc_store split: if_splits)

lemma release_pages_from_eq:
  assumes "owned_pages_wf op" "i \<le> op_len op"
  shows "release_pages_from op i pa =
     fold (\<lambda>page r. and_then r (\<lambda>pa. free_contiguous_pages pa page 1)) (drop i (owned_list op)) (Ok pa)"
  using assms
proof (induction op i pa rule: release_pages_from.induct)
  case (1 op i pa)
  let ?step = "\<lambda>page r. and_then r (\<lambda>pa. free_contiguous_pages pa page 1)"
  have fixed: "fold ?step ps (Err e) = Err e" "fold ?step ps Panic = Panic" for ps e
    by (induction ps) auto
  show ?case
  proof (cases "i < op_len op")
    case True
    have i: "i < length (op_pages op)" using True "1.prems"(1) by (simp add: owned_pages_wf_def)
    have d: "drop i (owned_list op) = op_pages op ! i # drop (i + 1) (owned_list op)"
      using True i by (simp add: owned_list_def Cons_nth_drop_Suc [symmetric])
    show ?thesis
    proof (cases "free_contiguous_pages pa (op_pages op ! i) 1")
      case (Ok pa')
      with 1(1) [OF True _ Ok] True i d "1.prems" show ?thesis
        by (subst release_pages_from.simps) simp
    qed (use True i d fixed in \<open>subst release_pages_from.simps, simp\<close>)+
  next
    case False
    with "1.prems" show ?thesis
      by (subst release_pages_from.simps) (simp add: owned_list_def)
  qed
qed

end
