(* ===== verification/Process.thy ===== *)
theory Process
  imports Terminal Environment Memory_Types
begin

text \<open>
  Threads and processes: \<^verbatim>\<open>kernel/kernel/src/thread.rs\<close>, \<^verbatim>\<open>process.rs\<close> and the stdio bundle of
  \<^verbatim>\<open>io.rs\<close>. A process owns its address space, handle table, working directory, environment and
  pages; a thread carries the scheduler's view of one flow of control. Kernel entry points are
  function pointers, represented by their address. Standard stream I/O runs over the terminal
  store of the theory Terminal.
\<close>

section \<open>Threads\<close>

type_synonym thread_id = nat
type_synonym process_id = nat

record thread_context =
  tc_rsp :: u64
  tc_rbx :: u64
  tc_rbp :: u64
  tc_r12 :: u64
  tc_r13 :: u64
  tc_r14 :: u64
  tc_r15 :: u64

definition thread_context_zeroed :: thread_context where
  "thread_context_zeroed =
     \<lparr>tc_rsp = 0, tc_rbx = 0, tc_rbp = 0, tc_r12 = 0, tc_r13 = 0, tc_r14 = 0, tc_r15 = 0\<rparr>"

datatype thread_state = Runnable | Running | Blocked

datatype thread_block_reason = NoReason | WaitingForChild process_id

record user_thread_start =
  us_entry_point :: u64
  us_user_stack_top :: u64

datatype thread_start = KernelStart u64 | UserStart user_thread_start

record thread =
  th_id :: thread_id
  th_name :: string
  th_process_id :: process_id
  th_start :: thread_start
  th_state :: thread_state
  th_block_reason :: thread_block_reason
  th_wait_result :: "u64 option"
  th_context :: thread_context
  th_kernel_stack_top :: u64

definition thread_new ::
  "thread_id \<Rightarrow> string \<Rightarrow> process_id \<Rightarrow> thread_start \<Rightarrow> thread_context \<Rightarrow> u64 \<Rightarrow> thread" where
  "thread_new tid name pid start context kernel_stack_top =
     \<lparr>th_id = tid, th_name = name, th_process_id = pid, th_start = start, th_state = Runnable,
      th_block_reason = NoReason, th_wait_result = None, th_context = context,
      th_kernel_stack_top = kernel_stack_top\<rparr>"

definition thread_set_state :: "thread_state \<Rightarrow> thread \<Rightarrow> thread" where
  "thread_set_state s t = t\<lparr>th_state := s\<rparr>"

definition thread_block_for_child :: "process_id \<Rightarrow> thread \<Rightarrow> thread" where
  "thread_block_for_child pid t = t\<lparr>th_state := Blocked, th_block_reason := WaitingForChild pid\<rparr>"

definition thread_wake :: "thread \<Rightarrow> thread" where
  "thread_wake t = t\<lparr>th_state := Runnable, th_block_reason := NoReason\<rparr>"

definition thread_set_wait_result :: "u64 \<Rightarrow> thread \<Rightarrow> thread" where
  "thread_set_wait_result status t = t\<lparr>th_wait_result := Some status\<rparr>"

definition thread_take_wait_result :: "thread \<Rightarrow> u64 option \<times> thread" where
  "thread_take_wait_result t = (th_wait_result t, t\<lparr>th_wait_result := None\<rparr>)"

section \<open>Processes\<close>

definition MAX_CWD_LEN :: nat where "MAX_CWD_LEN = 256"
definition MAX_PROCESS_HANDLES :: nat where "MAX_PROCESS_HANDLES = 8"
definition DEFAULT_INVALID_HANDLE :: nat where "DEFAULT_INVALID_HANDLE = 2 ^ 64 - 1"

datatype process_state = ProcRunning | Exited u64

datatype process_exit_action = Continue | ShutdownSystem

record stdio_handles =
  sh_stdin :: nat
  sh_stdout :: nat
  sh_stderr :: nat

definition stdio_empty :: stdio_handles where
  "stdio_empty = \<lparr>sh_stdin = DEFAULT_INVALID_HANDLE, sh_stdout = DEFAULT_INVALID_HANDLE,
     sh_stderr = DEFAULT_INVALID_HANDLE\<rparr>"

record process =
  pc_id :: process_id
  pc_name :: string
  pc_address_space :: address_space
  pc_handles :: "kernel_object option list"
  pc_stdio :: stdio_handles
  pc_state :: process_state
  pc_waiting_thread :: "thread_id option"
  pc_cwd :: bytes
  pc_cwd_len :: nat
  pc_env :: environment
  pc_owned_pages :: owned_pages
  pc_exit_action :: process_exit_action

definition new_root_cwd :: bytes where
  "new_root_cwd = (replicate MAX_CWD_LEN 0)[0 := 0x2f]"

definition process_new ::
  "process_id \<Rightarrow> string \<Rightarrow> address_space \<Rightarrow> owned_pages \<Rightarrow> process_exit_action \<Rightarrow> process" where
  "process_new pid name space pages exit_action =
     \<lparr>pc_id = pid, pc_name = name, pc_address_space = space,
      pc_handles = replicate MAX_PROCESS_HANDLES None, pc_stdio = stdio_empty,
      pc_state = ProcRunning, pc_waiting_thread = None, pc_cwd = new_root_cwd, pc_cwd_len = 1,
      pc_env = environment_new, pc_owned_pages = pages, pc_exit_action = exit_action\<rparr>"

fun first_free :: "'a option list \<Rightarrow> nat option" where
  "first_free [] = None"
| "first_free (x # xs) = (if x = None then Some 0 else map_option Suc (first_free xs))"

definition install_handle :: "kernel_object \<Rightarrow> process \<Rightarrow> (nat \<times> process) option" where
  "install_handle obj p =
     (case first_free (pc_handles p) of
        None \<Rightarrow> None
      | Some i \<Rightarrow> Some (i, p\<lparr>pc_handles := (pc_handles p)[i := Some obj]\<rparr>))"

definition process_set_stdio :: "stdio_handles \<Rightarrow> process \<Rightarrow> process" where
  "process_set_stdio sh p = p\<lparr>pc_stdio := sh\<rparr>"

definition process_mark_exited :: "u64 \<Rightarrow> process \<Rightarrow> process" where
  "process_mark_exited status p = p\<lparr>pc_state := Exited status\<rparr>"

definition process_set_waiting_thread :: "thread_id \<Rightarrow> process \<Rightarrow> process" where
  "process_set_waiting_thread tid p = p\<lparr>pc_waiting_thread := Some tid\<rparr>"

definition process_take_waiting_thread :: "process \<Rightarrow> thread_id option \<times> process" where
  "process_take_waiting_thread p = (pc_waiting_thread p, p\<lparr>pc_waiting_thread := None\<rparr>)"

definition process_take_owned_pages :: "process \<Rightarrow> owned_pages \<times> process" where
  "process_take_owned_pages p = (pc_owned_pages p, p\<lparr>pc_owned_pages := owned_pages_empty\<rparr>)"

definition resolve_handle :: "process \<Rightarrow> nat \<Rightarrow> kernel_object option" where
  "resolve_handle p h = (if h < length (pc_handles p) then pc_handles p ! h else None)"

definition resolve_fd :: "process \<Rightarrow> u64 \<Rightarrow> kernel_object option" where
  "resolve_fd p fd =
     (if fd = 0 then resolve_handle p (sh_stdin (pc_stdio p))
      else if fd = 1 then resolve_handle p (sh_stdout (pc_stdio p))
      else if fd = 2 then resolve_handle p (sh_stderr (pc_stdio p))
      else None)"

text \<open>Three handles in a row, as \<^verbatim>\<open>inherit_stdio_into\<close>, \<^verbatim>\<open>inherit_stdio_silent_into\<close> and process
  creation install them. A failing \<^verbatim>\<open>?\<close> leaves the handles installed so far in the child.\<close>

definition install_three ::
  "kernel_object option \<Rightarrow> kernel_object option \<Rightarrow> kernel_object option \<Rightarrow> process \<Rightarrow> unit option \<times> process" where
  "install_three a b c child =
     (case a of None \<Rightarrow> (None, child) | Some oa \<Rightarrow>
     (case install_handle oa child of None \<Rightarrow> (None, child) | Some (i, child1) \<Rightarrow>
     (case b of None \<Rightarrow> (None, child1) | Some ob \<Rightarrow>
     (case install_handle ob child1 of None \<Rightarrow> (None, child1) | Some (j, child2) \<Rightarrow>
     (case c of None \<Rightarrow> (None, child2) | Some oc \<Rightarrow>
     (case install_handle oc child2 of None \<Rightarrow> (None, child2) | Some (k, child3) \<Rightarrow>
       (Some (), process_set_stdio \<lparr>sh_stdin = i, sh_stdout = j, sh_stderr = k\<rparr> child3)))))))"

definition inherit_stdio_into :: "process \<Rightarrow> process \<Rightarrow> unit option \<times> process" where
  "inherit_stdio_into p child =
     install_three (resolve_fd p 0) (resolve_fd p 1) (resolve_fd p 2) child"

definition inherit_stdio_silent_into :: "process \<Rightarrow> process \<Rightarrow> unit option \<times> process" where
  "inherit_stdio_silent_into p child =
     install_three (resolve_fd p 0) (Some Null) (Some Null) child"

definition process_cwd :: "process \<Rightarrow> (bytes, 'e) outcome" where
  "process_cwd p = and_then (slice (pc_cwd p) 0 (pc_cwd_len p))
     (\<lambda>s. Ok (case from_utf8 s of Some c \<Rightarrow> c | None \<Rightarrow> [0x2f]))"

definition process_set_cwd :: "bytes \<Rightarrow> process \<Rightarrow> (unit option \<times> process, 'e) outcome" where
  "process_set_cwd cwd p =
     (if cwd = [] \<or> hd cwd \<noteq> 0x2f \<or> length (pc_cwd p) < length cwd then Ok (None, p)
      else and_then (copy_at (pc_cwd p) 0 cwd) (\<lambda>b.
             Ok (Some (), p\<lparr>pc_cwd := b, pc_cwd_len := length cwd\<rparr>)))"

definition inherit_cwd_into :: "process \<Rightarrow> process \<Rightarrow> (unit option \<times> process, 'e) outcome" where
  "inherit_cwd_into p child = and_then (process_cwd p) (\<lambda>cwd. process_set_cwd cwd child)"

definition copy_cwd_into :: "process \<Rightarrow> bytes \<Rightarrow> (nat option \<times> bytes, 'e) outcome" where
  "copy_cwd_into p buffer =
     (if length buffer < pc_cwd_len p then Ok (None, buffer)
      else and_then (slice (pc_cwd p) 0 (pc_cwd_len p)) (\<lambda>s.
           and_then (copy_at buffer 0 s) (\<lambda>b. Ok (Some (pc_cwd_len p), b))))"

definition inherit_env_into ::
  "process \<Rightarrow> process \<Rightarrow> (unit, environment_error) outcome \<times> process" where
  "inherit_env_into p child =
     (let (r, env) = env_inherit_into (pc_env p) (pc_env child) in (r, child\<lparr>pc_env := env\<rparr>))"

text \<open>The two stream loops, over the slice the system call hands in.\<close>

fun read_loop :: "kernel_object \<Rightarrow> nat \<Rightarrow> nat \<Rightarrow> bytes \<Rightarrow> io_state \<Rightarrow> nat \<times> bytes \<times> io_state" where
  "read_loop obj 0 got buffer io = (got, buffer, io)"
| "read_loop obj (Suc room) got buffer io =
     (case object_read_byte obj io of
        (None, io') \<Rightarrow> (got, buffer, io')
      | (Some byte, io') \<Rightarrow> read_loop obj room (got + 1) (buffer[got := byte]) io')"

definition process_read :: "process \<Rightarrow> u64 \<Rightarrow> bytes \<Rightarrow> io_state \<Rightarrow> nat \<times> bytes \<times> io_state" where
  "process_read p fd buffer io =
     (case resolve_fd p fd of
        None \<Rightarrow> (0, buffer, io)
      | Some obj \<Rightarrow> read_loop obj (length buffer) 0 buffer io)"

fun write_loop :: "kernel_object \<Rightarrow> bytes \<Rightarrow> nat \<Rightarrow> io_state \<Rightarrow> nat \<times> io_state" where
  "write_loop obj [] written io = (written, io)"
| "write_loop obj (byte # rest) written io =
     (case object_write_byte obj byte io of
        (False, io') \<Rightarrow> (written, io')
      | (True, io') \<Rightarrow> write_loop obj rest (written + 1) io')"

definition process_write :: "process \<Rightarrow> u64 \<Rightarrow> bytes \<Rightarrow> io_state \<Rightarrow> nat \<times> io_state" where
  "process_write p fd buffer io =
     (case resolve_fd p fd of
        None \<Rightarrow> (0, io)
      | Some obj \<Rightarrow> write_loop obj buffer 0 io)"

section \<open>Invariant\<close>

definition process_inv :: "process \<Rightarrow> bool" where
  "process_inv p \<longleftrightarrow>
     length (pc_handles p) = MAX_PROCESS_HANDLES \<and> length (pc_cwd p) = MAX_CWD_LEN \<and>
     0 < pc_cwd_len p \<and> pc_cwd_len p \<le> MAX_CWD_LEN \<and>
     hd (pc_cwd p) = 0x2f \<and> utf8_valid (take (pc_cwd_len p) (pc_cwd p)) \<and> env_inv (pc_env p)"

abbreviation cwd_text :: "process \<Rightarrow> bytes" where
  "cwd_text p \<equiv> take (pc_cwd_len p) (pc_cwd p)"

lemma new_root_cwd_Cons: "new_root_cwd = 0x2f # replicate 255 0"
  using replicate_Suc [of 255 "0 :: u8"] by (simp add: new_root_cwd_def MAX_CWD_LEN_def del: replicate_Suc)

lemma process_new_inv: "process_inv (process_new pid name space pages act)"
  by (simp add: process_inv_def process_new_def new_root_cwd_Cons MAX_CWD_LEN_def env_inv_new)

lemma first_free_bound:
  "first_free xs = Some i \<Longrightarrow> i < length xs \<and> xs ! i = None \<and> (\<forall>j < i. xs ! j \<noteq> None)"
  by (induction xs arbitrary: i) (auto split: if_splits simp: nth_Cons' less_Suc_eq_0_disj)

lemma first_free_None: "first_free xs = None \<longleftrightarrow> None \<notin> set xs"
  by (induction xs) auto

lemma process_cwd_eq: "process_inv p \<Longrightarrow> process_cwd p = Ok (cwd_text p)"
  by (simp add: process_cwd_def process_inv_def from_utf8_def)

lemma cwd_text_abs: "process_inv p \<Longrightarrow> cwd_text p \<noteq> [] \<and> hd (cwd_text p) = 0x2f \<and> length (cwd_text p) \<le> MAX_CWD_LEN"
  by (cases "pc_cwd p") (auto simp: process_inv_def MAX_CWD_LEN_def take_Cons')

lemma process_set_cwd_ok:
  assumes "process_inv p" "cwd \<noteq> []" "hd cwd = 0x2f" "length cwd \<le> MAX_CWD_LEN" "utf8_valid cwd"
  shows "\<exists>p'. process_set_cwd cwd p = Ok (Some (), p') \<and> process_inv p' \<and> cwd_text p' = cwd \<and>
           pc_handles p' = pc_handles p \<and> pc_stdio p' = pc_stdio p \<and> pc_env p' = pc_env p \<and>
           p' = p\<lparr>pc_cwd := pc_cwd p', pc_cwd_len := pc_cwd_len p'\<rparr>"
  using assms by (auto simp: process_set_cwd_def process_inv_def overwrite_def)

lemma inherit_cwd_ok:
  assumes "process_inv p" "process_inv child"
  shows "\<exists>child'. inherit_cwd_into p child = Ok (Some (), child') \<and> process_inv child' \<and>
           cwd_text child' = cwd_text p \<and>
           child' = child\<lparr>pc_cwd := pc_cwd child', pc_cwd_len := pc_cwd_len child'\<rparr>"
  using process_set_cwd_ok [OF assms(2), of "cwd_text p"] cwd_text_abs [OF assms(1)] assms(1)
  by (auto simp: inherit_cwd_into_def process_cwd_eq process_inv_def)

lemma inherit_env_ok:
  assumes "process_inv p" "process_inv child"
  shows "\<exists>child'. inherit_env_into p child = (Ok (), child') \<and> process_inv child' \<and>
           env_pairs (pc_env child') = env_pairs (pc_env p) \<and>
           child' = child\<lparr>pc_env := pc_env child'\<rparr>"
proof -
  obtain e where "env_inherit_into (pc_env p) (pc_env child) = (Ok (), e)" "env_inv e"
    "env_pairs e = env_pairs (pc_env p)"
    using env_inherit_spec assms by (auto simp: process_inv_def)
  then show ?thesis using assms(2) by (auto simp: inherit_env_into_def process_inv_def)
qed

text \<open>A fresh handle table takes the three objects in slots 0, 1 and 2.\<close>

lemma install_three_fresh:
  assumes "pc_handles child = replicate MAX_PROCESS_HANDLES None"
  shows "\<exists>child'. install_three (Some a) (Some b) (Some c) child = (Some (), child') \<and>
           resolve_fd child' 0 = Some a \<and> resolve_fd child' 1 = Some b \<and> resolve_fd child' 2 = Some c \<and>
           child' = child\<lparr>pc_handles := pc_handles child', pc_stdio := pc_stdio child'\<rparr> \<and>
           length (pc_handles child') = MAX_PROCESS_HANDLES"
  using assms
  by (simp add: install_three_def install_handle_def MAX_PROCESS_HANDLES_def numeral_eq_Suc
      resolve_fd_def resolve_handle_def process_set_stdio_def)

section \<open>Streams\<close>

lemma pop_input_spec:
  assumes "terminal_inv ep io"
  shows "(pending_input ep io = [] \<longrightarrow> (\<exists>io'. pop_input_byte ep io = (None, io') \<and> terminal_inv ep io' \<and>
            pending_input ep io' = [])) \<and>
         (pending_input ep io = b # bs \<longrightarrow> (\<exists>io'. pop_input_byte ep io = (Some b, io') \<and> terminal_inv ep io' \<and>
            pending_input ep io' = bs))"
proof -
  have inv: "byte_queue_inv TERMINAL_INPUT_CAPACITY (te_input (endpoints io ep))"
    using assms by (simp add: terminal_inv_def)
  show ?thesis
    using inputq.pop_none [OF inv] inputq.pop_some [OF inv, of b bs] assms
    by (fastforce simp: pop_input_byte_def terminal_defs)
qed

lemma read_loop_terminal:
  assumes "terminal_inv ep io" "got + room = length buffer"
  defines "n \<equiv> min room (length (pending_input ep io))"
  shows "\<exists>io'. read_loop (TerminalEndpoint ep) room got buffer io =
           (got + n, overwrite buffer got (take n (pending_input ep io)), io') \<and>
           terminal_inv ep io' \<and> pending_input ep io' = drop n (pending_input ep io)"
  using assms(1,2) unfolding n_def
proof (induction room arbitrary: got buffer io)
  case 0
  then show ?case by (auto simp: overwrite_def)
next
  case (Suc room)
  show ?case
  proof (cases "pending_input ep io")
    case Nil
    with pop_input_spec [OF Suc.prems(1)] show ?thesis by (auto simp: overwrite_def)
  next
    case (Cons b bs)
    then obtain io1 where p: "pop_input_byte ep io = (Some b, io1)" "terminal_inv ep io1"
      "pending_input ep io1 = bs"
      using pop_input_spec [OF Suc.prems(1)] by blast
    let ?n = "min room (length bs)"
    obtain io' where r: "read_loop (TerminalEndpoint ep) room (got + 1) (buffer[got := b]) io1 =
        (got + 1 + ?n, overwrite (buffer[got := b]) (got + 1) (take ?n bs), io')"
      "terminal_inv ep io'" "pending_input ep io' = drop ?n bs"
      using Suc.IH [OF p(2), of "got + 1" "buffer[got := b]"] Suc.prems(2) p(3) by auto
    have "overwrite (buffer[got := b]) (got + 1) (take ?n bs) = overwrite buffer got (b # take ?n bs)"
      using Suc.prems(2) overwrite_append [of got buffer "[b]" "take ?n bs"]
      by (simp add: list_update_overwrite)
    with r p Cons show ?thesis by simp
  qed
qed

lemma push_output_spec:
  assumes "terminal_inv ep io"
  shows "\<exists>io'. push_output_byte ep b io = (length (pending_output ep io) < TERMINAL_OUTPUT_CAPACITY, io') \<and>
           terminal_inv ep io' \<and>
           pending_output ep io' = pending_output ep io @
             (if length (pending_output ep io) < TERMINAL_OUTPUT_CAPACITY then [b] else [])"
proof -
  define io1 where "io1 = serial_write_byte b io"
  have same: "endpoints io1 = endpoints io" by (simp add: io1_def serial_write_byte_def)
  obtain acc q where p: "byte_queue_push TERMINAL_OUTPUT_CAPACITY b (te_output (endpoints io ep)) = (acc, q)"
    by fastforce
  have inv: "byte_queue_inv TERMINAL_OUTPUT_CAPACITY (te_output (endpoints io ep))"
    using assms by (simp add: terminal_inv_def)
  have "acc \<longleftrightarrow> length (pending_output ep io) < TERMINAL_OUTPUT_CAPACITY"
    using p by (auto simp: byte_queue_push_def pending_output_def byte_queue_contents_def split: if_splits)
  with outputq.push_cases [OF inv p] p assms show ?thesis
    by (auto simp: push_output_byte_def Let_def terminal_defs same simp flip: io1_def)
qed

lemma write_loop_terminal:
  assumes "terminal_inv ep io"
  defines "room \<equiv> TERMINAL_OUTPUT_CAPACITY - length (pending_output ep io)"
  shows "\<exists>io'. write_loop (TerminalEndpoint ep) bs written io = (written + min room (length bs), io') \<and>
           terminal_inv ep io' \<and> pending_output ep io' = pending_output ep io @ take room bs"
  using assms(1) unfolding room_def
proof (induction bs arbitrary: written io)
  case Nil
  then show ?case by auto
next
  case (Cons b bs)
  obtain io1 where p: "push_output_byte ep b io = (length (pending_output ep io) < TERMINAL_OUTPUT_CAPACITY, io1)"
    "terminal_inv ep io1" "pending_output ep io1 = pending_output ep io @
       (if length (pending_output ep io) < TERMINAL_OUTPUT_CAPACITY then [b] else [])"
    using push_output_spec [OF Cons.prems] by blast
  show ?case
  proof (cases "length (pending_output ep io) < TERMINAL_OUTPUT_CAPACITY")
    case True
    obtain io' where "write_loop (TerminalEndpoint ep) bs (written + 1) io1 =
        (written + 1 + min (TERMINAL_OUTPUT_CAPACITY - length (pending_output ep io1)) (length bs), io')"
      "terminal_inv ep io'" "pending_output ep io' = pending_output ep io1 @
         take (TERMINAL_OUTPUT_CAPACITY - length (pending_output ep io1)) bs"
      using Cons.IH [OF p(2)] by blast
    with True p show ?thesis by (auto simp: take_Cons' min_def)
  next
    case False
    with p show ?thesis by auto
  qed
qed

section \<open>Properties\<close>


definition terminal_process :: process where
  "terminal_process =
     snd (install_three (Some (TerminalEndpoint 0)) (Some (TerminalEndpoint 0)) (Some (TerminalEndpoint 0))
       (process_new 0 [] \<lparr>as_root_paddr = 0\<rparr> owned_pages_empty Continue))"

definition fresh_io :: io_state where
  "fresh_io = \<lparr>endpoints = (\<lambda>_. terminal_endpoint_new), serial_ready = False, serial_log = []\<rparr>"

lemma fresh_io_facts:
  "terminal_inv ep fresh_io" "pending_output ep fresh_io = []" "pending_input ep fresh_io = []"
  by (simp_all add: fresh_io_def terminal_defs terminal_endpoint_new_def TERMINAL_INPUT_CAPACITY_def
      TERMINAL_OUTPUT_CAPACITY_def)


end
