(* ===== verification/Scheduler.thy ===== *)
theory Scheduler
  imports Process
begin

text \<open>
  The cooperative scheduler: \<^verbatim>\<open>kernel/kernel/src/scheduler/state.rs\<close> (tables, thread choice,
  switch, wait and exit), \<^verbatim>\<open>core.rs\<close> (the entry points around the context switch) and
  \<^verbatim>\<open>bootstrap.rs\<close>. A \<^verbatim>\<open>ThreadContext\<close> pointer is the id of the slot it points into. The
  addresses of the kernel stacks and of the entry trampoline are fixed by the linker and are the
  parameter \<open>kernel_image\<close>. The register save and load of the assembly switcher is outside the
  model; which thread runs next, and every table update before the switch, is inside.
\<close>

section \<open>State\<close>

definition MAX_PROCESSES :: nat where "MAX_PROCESSES = 8"
definition MAX_THREADS :: nat where "MAX_THREADS = 12"

record kernel_image =
  ki_stack_end :: "nat \<Rightarrow> u64"
  ki_trampoline :: u64

record scheduler_state =
  sc_processes :: "process option list"
  sc_threads :: "thread option list"
  sc_memory :: memory
  sc_current_thread :: "thread_id option"
  sc_idle_thread :: "thread_id option"

record process_config =
  cf_name :: string
  cf_address_space :: address_space
  cf_terminal_endpoint :: "nat option"
  cf_owned_pages :: owned_pages
  cf_exit_action :: process_exit_action

record prepared_switch =
  sw_current :: thread_id
  sw_next :: thread_id
  sw_next_space :: address_space
  sw_next_stack_top :: u64

record exited_thread_switch =
  ex_next :: thread_id
  ex_next_space :: address_space
  ex_next_stack_top :: u64
  ex_released_pages :: owned_pages

datatype process_exit = Switch exited_thread_switch | Shutdown owned_pages

record thread_activation =
  ta_thread_id :: thread_id
  ta_kernel_stack_top :: u64
  ta_address_space :: address_space

type_synonym 'a sched = "('a, unit) outcome"

definition scheduler_reset :: "scheduler_state \<Rightarrow> scheduler_state" where
  "scheduler_reset st =
     \<lparr>sc_processes = replicate MAX_PROCESSES None, sc_threads = replicate MAX_THREADS None,
      sc_memory = sc_memory st, sc_current_thread = None, sc_idle_thread = None\<rparr>"

section \<open>Table access\<close>

definition sched_process :: "scheduler_state \<Rightarrow> process_id \<Rightarrow> process sched" where
  "sched_process st pid = and_then (index (sc_processes st) pid) expect"

definition sched_thread :: "scheduler_state \<Rightarrow> thread_id \<Rightarrow> thread sched" where
  "sched_thread st tid = and_then (index (sc_threads st) tid) expect"

text \<open>\<^verbatim>\<open>self.process_mut(id)\<close> and \<^verbatim>\<open>self.thread_mut(id)\<close> followed by an update of the entry.\<close>

definition process_mut :: "process_id \<Rightarrow> (process \<Rightarrow> process) \<Rightarrow> scheduler_state \<Rightarrow> scheduler_state sched" where
  "process_mut pid f st = and_then (sched_process st pid) (\<lambda>p.
     Ok (st\<lparr>sc_processes := (sc_processes st)[pid := Some (f p)]\<rparr>))"

definition thread_mut :: "thread_id \<Rightarrow> (thread \<Rightarrow> thread) \<Rightarrow> scheduler_state \<Rightarrow> scheduler_state sched" where
  "thread_mut tid f st = and_then (sched_thread st tid) (\<lambda>t.
     Ok (st\<lparr>sc_threads := (sc_threads st)[tid := Some (f t)]\<rparr>))"

definition activation :: "scheduler_state \<Rightarrow> thread_id \<Rightarrow> thread_activation sched" where
  "activation st tid =
     and_then (sched_thread st tid) (\<lambda>t.
     and_then (sched_process st (th_process_id t)) (\<lambda>p.
       Ok \<lparr>ta_thread_id = tid, ta_kernel_stack_top = th_kernel_stack_top t,
           ta_address_space = pc_address_space p\<rparr>))"

section \<open>Creation\<close>

definition initial_context_for ::
  "kernel_image \<Rightarrow> nat \<Rightarrow> scheduler_state \<Rightarrow> thread_context \<times> u64 \<times> scheduler_state" where
  "initial_context_for img slot st =
     (let aligned_top = ki_stack_end img slot AND NOT 0xf;
          initial_rsp = aligned_top - 8
      in (thread_context_zeroed\<lparr>tc_rsp := initial_rsp\<rparr>, aligned_top,
          st\<lparr>sc_memory := write_mem (sc_memory st) initial_rsp (to_le_bytes 8 (ki_trampoline img))\<rparr>))"

definition try_create_process ::
  "process_config \<Rightarrow> scheduler_state \<Rightarrow> process_id option \<times> scheduler_state" where
  "try_create_process config st =
     (case first_free (sc_processes st) of
        None \<Rightarrow> (None, st)
      | Some slot \<Rightarrow>
          (let process = process_new slot (cf_name config) (cf_address_space config)
                           (cf_owned_pages config) (cf_exit_action config);
               (r, process') = (case cf_terminal_endpoint config of
                  None \<Rightarrow> (Some (), process)
                | Some ep \<Rightarrow> install_three (Some (TerminalEndpoint ep)) (Some (TerminalEndpoint ep))
                               (Some (TerminalEndpoint ep)) process)
           in case r of
                None \<Rightarrow> (None, st)
              | Some _ \<Rightarrow> (Some slot, st\<lparr>sc_processes := (sc_processes st)[slot := Some process']\<rparr>)))"

definition try_create_thread ::
  "kernel_image \<Rightarrow> string \<Rightarrow> process_id \<Rightarrow> thread_start \<Rightarrow> scheduler_state \<Rightarrow> thread_id option \<times> scheduler_state" where
  "try_create_thread img name pid start st =
     (case first_free (sc_threads st) of
        None \<Rightarrow> (None, st)
      | Some slot \<Rightarrow>
          (let (context, top, st') = initial_context_for img slot st
           in (Some slot, st'\<lparr>sc_threads :=
                 (sc_threads st')[slot := Some (thread_new slot name pid start context top)]\<rparr>)))"

definition create_process :: "process_config \<Rightarrow> scheduler_state \<Rightarrow> (process_id \<times> scheduler_state) sched" where
  "create_process config st =
     (let (r, st') = try_create_process config st in and_then (expect r) (\<lambda>pid. Ok (pid, st')))"

datatype environment_access_error =
    EnvInvalidKey
  | EnvNotFound
  | EnvBufferTooSmall
  | EnvKeyTooLong
  | EnvValueTooLong
  | EnvCapacityExceeded
  | EnvResourceUnavailable

fun map_environment_error :: "environment_error \<Rightarrow> environment_access_error" where
  "map_environment_error InvalidKey = EnvInvalidKey"
| "map_environment_error KeyTooLong = EnvKeyTooLong"
| "map_environment_error ValueTooLong = EnvValueTooLong"
| "map_environment_error CapacityExceeded = EnvCapacityExceeded"

definition set_process_env ::
  "process_id \<Rightarrow> bytes \<Rightarrow> bytes \<Rightarrow> scheduler_state \<Rightarrow> (scheduler_state, environment_access_error) outcome" where
  "set_process_env pid key value st =
     (case sched_process st pid of
        Ok p \<Rightarrow> and_then (map_err map_environment_error (env_set key value (pc_env p))) (\<lambda>env.
                 Ok (st\<lparr>sc_processes := (sc_processes st)[pid := Some (p\<lparr>pc_env := env\<rparr>)]\<rparr>))
      | _ \<Rightarrow> Panic)"

definition create_kernel_thread ::
  "kernel_image \<Rightarrow> string \<Rightarrow> process_id \<Rightarrow> u64 \<Rightarrow> scheduler_state \<Rightarrow> (thread_id \<times> scheduler_state) sched" where
  "create_kernel_thread img name pid entry st =
     (let (r, st') = try_create_thread img name pid (KernelStart entry) st
      in and_then (expect r) (\<lambda>tid. Ok (tid, st')))"

definition create_user_thread ::
  "kernel_image \<Rightarrow> string \<Rightarrow> process_id \<Rightarrow> u64 \<Rightarrow> u64 \<Rightarrow> scheduler_state \<Rightarrow> (thread_id \<times> scheduler_state) sched" where
  "create_user_thread img name pid entry_point user_stack_top st =
     (let (r, st') = try_create_thread img name pid
            (UserStart \<lparr>us_entry_point = entry_point, us_user_stack_top = user_stack_top\<rparr>) st
      in and_then (expect r) (\<lambda>tid. Ok (tid, st')))"

definition mark_idle_thread :: "thread_id \<Rightarrow> scheduler_state \<Rightarrow> scheduler_state" where
  "mark_idle_thread tid st = st\<lparr>sc_idle_thread := Some tid\<rparr>"

section \<open>Spawning a child\<close>

text \<open>The result is the child's id, or the program handed back so that its pages can be released.\<close>

definition spawn_child_process ::
  "kernel_image \<Rightarrow> thread_id \<Rightarrow> loaded_user_program \<Rightarrow> bool \<Rightarrow> scheduler_state \<Rightarrow>
   ((process_id + loaded_user_program) \<times> scheduler_state) sched" where
  "spawn_child_process img parent_thread program silent_stdio st =
     and_then (sched_thread st parent_thread) (\<lambda>pt.
     case first_free (sc_processes st) of
       None \<Rightarrow> Ok (Inr program, st)
     | Some slot \<Rightarrow>
         (let child = process_new slot ''user-child'' (lp_address_space program)
                        (lp_owned_pages program) Continue
          in and_then (sched_process st (th_process_id pt)) (\<lambda>parent.
             let (r, child) = (if silent_stdio then inherit_stdio_silent_into parent child
                               else inherit_stdio_into parent child)
             in if r = None
                then Ok (Inr (program\<lparr>lp_address_space := pc_address_space child,
                                      lp_owned_pages := pc_owned_pages child\<rparr>), st)
                else and_then (inherit_cwd_into parent child) (\<lambda>(r, child).
                  if r = None
                  then Ok (Inr (program\<lparr>lp_address_space := pc_address_space child,
                                        lp_owned_pages := pc_owned_pages child\<rparr>), st)
                  else case inherit_env_into parent child of
                    (Panic, _) \<Rightarrow> Panic
                  | (Err _, child) \<Rightarrow>
                      Ok (Inr (program\<lparr>lp_address_space := pc_address_space child,
                                       lp_owned_pages := pc_owned_pages child\<rparr>), st)
                  | (Ok _, child) \<Rightarrow>
                      (let child = process_set_waiting_thread parent_thread child;
                           st1 = st\<lparr>sc_processes := (sc_processes st)[slot := Some child]\<rparr>;
                           (t, st2) = try_create_thread img ''user-child-main'' slot
                             (UserStart \<lparr>us_entry_point = lp_entry_point program,
                                        us_user_stack_top = lp_user_stack_top program\<rparr>) st1
                       in case t of
                            Some _ \<Rightarrow> Ok (Inl slot, st2)
                          | None \<Rightarrow>
                              and_then (sched_process st2 slot) (\<lambda>child.
                                let (pages, child') = process_take_owned_pages child
                                in Ok (Inr (program\<lparr>lp_address_space := pc_address_space child,
                                                    lp_owned_pages := pages\<rparr>),
                                       st2\<lparr>sc_processes := (sc_processes st2)[slot := None]\<rparr>)))))))"

section \<open>Choosing and switching\<close>

definition is_ready :: "thread \<Rightarrow> bool" where
  "is_ready t \<longleftrightarrow> th_state t = Runnable \<or> th_state t = Running"

function scan_threads :: "scheduler_state \<Rightarrow> nat \<Rightarrow> nat \<Rightarrow> thread_id option sched" where
  "scan_threads st start offset =
     (if offset < length (sc_threads st)
      then and_then (index (sc_threads st) ((start + offset) mod length (sc_threads st))) (\<lambda>slot.
        case slot of
          None \<Rightarrow> scan_threads st start (offset + 1)
        | Some t \<Rightarrow>
            if Some (th_id t) = sc_idle_thread st then scan_threads st start (offset + 1)
            else if is_ready t then Ok (Some (th_id t))
            else scan_threads st start (offset + 1))
      else Ok None)"
  by pat_completeness auto
termination
  by (relation "measure (\<lambda>(st, start, offset). length (sc_threads st) - offset)") auto

declare scan_threads.simps [simp del]

definition next_non_idle_runnable_thread ::
  "scheduler_state \<Rightarrow> thread_id option \<Rightarrow> thread_id option sched" where
  "next_non_idle_runnable_thread st current =
     scan_threads st (case current of None \<Rightarrow> 0 | Some tid \<Rightarrow> (tid + 1) mod length (sc_threads st)) 0"

definition next_runnable_thread :: "scheduler_state \<Rightarrow> thread_id option \<Rightarrow> thread_id option sched" where
  "next_runnable_thread st current =
     and_then (next_non_idle_runnable_thread st current) (\<lambda>non_idle.
       if non_idle \<noteq> None then Ok non_idle
       else case sc_idle_thread st of
              None \<Rightarrow> Ok None
            | Some idle \<Rightarrow> and_then (sched_thread st idle) (\<lambda>t.
                Ok (if is_ready t then Some idle else None)))"

definition prepare_switch ::
  "bool \<Rightarrow> scheduler_state \<Rightarrow> (prepared_switch option \<times> scheduler_state) sched" where
  "prepare_switch block_current st =
     (case sc_current_thread st of
        None \<Rightarrow> Ok (None, st)
      | Some current \<Rightarrow>
          and_then (next_runnable_thread st (Some current)) (\<lambda>nxt.
          case nxt of
            None \<Rightarrow> Ok (None, st)
          | Some next \<Rightarrow>
              if next = current \<and> \<not> block_current then Ok (None, st)
              else
                and_then (thread_mut current (thread_set_state (if block_current then Blocked else Runnable)) st) (\<lambda>st1.
                and_then (thread_mut next (thread_set_state Running) st1) (\<lambda>st2.
                let st3 = st2\<lparr>sc_current_thread := Some next\<rparr> in
                and_then (activation st3 next) (\<lambda>a.
                  Ok (Some \<lparr>sw_current = current, sw_next = next, sw_next_space = ta_address_space a,
                           sw_next_stack_top = ta_kernel_stack_top a\<rparr>, st3))))))"

definition prepare_wait_for_child ::
  "process_id \<Rightarrow> scheduler_state \<Rightarrow> (prepared_switch option \<times> scheduler_state) sched" where
  "prepare_wait_for_child child st =
     (case sc_current_thread st of
        None \<Rightarrow> Ok (None, st)
      | Some current \<Rightarrow>
          and_then (thread_mut current (thread_block_for_child child) st) (\<lambda>st1.
          and_then (next_runnable_thread st1 (Some current)) (\<lambda>nxt.
          case nxt of
            None \<Rightarrow> Ok (None, st1)
          | Some next \<Rightarrow>
              and_then (thread_mut next (thread_set_state Running) st1) (\<lambda>st2.
              let st3 = st2\<lparr>sc_current_thread := Some next\<rparr> in
              and_then (activation st3 next) (\<lambda>a.
                Ok (Some \<lparr>sw_current = current, sw_next = next, sw_next_space = ta_address_space a,
                         sw_next_stack_top = ta_kernel_stack_top a\<rparr>, st3))))))"

definition prepare_exit_current_process ::
  "u64 \<Rightarrow> scheduler_state \<Rightarrow> (process_exit option \<times> scheduler_state) sched" where
  "prepare_exit_current_process status st =
     (case sc_current_thread st of
        None \<Rightarrow> Ok (None, st)
      | Some current \<Rightarrow>
          and_then (sched_thread st current) (\<lambda>ct.
          let pid = th_process_id ct in
          and_then (sched_process st pid) (\<lambda>p.
          let (waiting, p1) = process_take_waiting_thread (process_mark_exited status p);
              exit_action = pc_exit_action p1;
              st1 = st\<lparr>sc_processes := (sc_processes st)[pid := Some p1],
                       sc_threads := (sc_threads st)[current := None]\<rparr>
          in and_then (sched_process st1 pid) (\<lambda>p2.
          let (released, p3) = process_take_owned_pages p2;
              st2 = st1\<lparr>sc_processes := (sc_processes st1)[pid := None]\<rparr>
          in if exit_action = ShutdownSystem
             then Ok (Some (Shutdown released), st2\<lparr>sc_current_thread := None\<rparr>)
             else
               and_then (case waiting of
                   Some w \<Rightarrow> and_then (thread_mut w (\<lambda>t. thread_wake (thread_set_wait_result status t)) st2)
                               (\<lambda>st3. Ok (Some w, st3))
                 | None \<Rightarrow> and_then (next_runnable_thread st2 (Some current)) (\<lambda>n. Ok (n, st2)))
               (\<lambda>(nxt, st3).
                 case nxt of
                   None \<Rightarrow> Ok (None, st3)
                 | Some next \<Rightarrow>
                     and_then (thread_mut next (thread_set_state Running) (st3\<lparr>sc_current_thread := Some next\<rparr>)) (\<lambda>st4.
                     and_then (activation st4 next) (\<lambda>a.
                       Ok (Some (Switch \<lparr>ex_next = next, ex_next_space = ta_address_space a,
                                        ex_next_stack_top = ta_kernel_stack_top a,
                                        ex_released_pages = released\<rparr>), st4))))))))"

section \<open>The entry points around a switch\<close>

text \<open>\<^verbatim>\<open>start\<close> before its context switch: \<open>None\<close> stands for \<^verbatim>\<open>halt_forever\<close>.\<close>

definition sched_start :: "scheduler_state \<Rightarrow> (thread_activation option \<times> scheduler_state) sched" where
  "sched_start st =
     and_then (next_runnable_thread st None) (\<lambda>nxt.
       case nxt of
         None \<Rightarrow> Ok (None, st)
       | Some tid \<Rightarrow>
           and_then (thread_mut tid (thread_set_state Running) (st\<lparr>sc_current_thread := Some tid\<rparr>)) (\<lambda>st'.
           and_then (activation st' tid) (\<lambda>a. Ok (Some a, st'))))"

definition yield_now :: "scheduler_state \<Rightarrow> (prepared_switch option \<times> scheduler_state) sched" where
  "yield_now st = prepare_switch False st"

text \<open>\<^verbatim>\<open>wait_for_child\<close> is split by its context switch: \<open>prepare_wait_for_child\<close> above is what runs
  before it, \<open>resume_wait\<close> what runs when the waiting thread is switched to again.\<close>

definition resume_wait :: "scheduler_state \<Rightarrow> (u64 option \<times> scheduler_state) sched" where
  "resume_wait st =
     (case sc_current_thread st of
        None \<Rightarrow> Ok (None, st)
      | Some current \<Rightarrow>
          and_then (sched_thread st current) (\<lambda>t.
            let (r, t') = thread_take_wait_result t
            in Ok (r, st\<lparr>sc_threads := (sc_threads st)[current := Some t']\<rparr>)))"

definition current_thread_start :: "scheduler_state \<Rightarrow> thread_start sched" where
  "current_thread_start st =
     and_then (expect (sc_current_thread st)) (\<lambda>current.
     and_then (sched_thread st current) (\<lambda>t. Ok (th_start t)))"

section \<open>Lookups\<close>

definition slot_at :: "'a option list \<Rightarrow> nat \<Rightarrow> 'a \<Rightarrow> bool" where
  "slot_at xs i x \<longleftrightarrow> i < length xs \<and> xs ! i = Some x"

abbreviation thread_at :: "scheduler_state \<Rightarrow> nat \<Rightarrow> thread \<Rightarrow> bool" where
  "thread_at st \<equiv> slot_at (sc_threads st)"

abbreviation process_at :: "scheduler_state \<Rightarrow> nat \<Rightarrow> process \<Rightarrow> bool" where
  "process_at st \<equiv> slot_at (sc_processes st)"

lemma slot_at_update [simp]:
  "slot_at (xs[i := v]) j x \<longleftrightarrow> (if j = i then i < length xs \<and> v = Some x else slot_at xs j x)"
  by (auto simp: slot_at_def)

lemma slot_at_unique: "slot_at xs i x \<Longrightarrow> slot_at xs i y \<Longrightarrow> x = y"
  by (simp add: slot_at_def)

lemma slot_at_bound: "slot_at xs i x \<Longrightarrow> i < length xs"
  by (simp add: slot_at_def)

lemma first_free_slot:
  "first_free xs = Some i \<Longrightarrow> i < length xs \<and> (\<forall>x. \<not> slot_at xs i x)"
  by (auto dest: first_free_bound simp: slot_at_def)

lemma sched_thread_eq [simp]: "thread_at st i t \<Longrightarrow> sched_thread st i = Ok t"
  by (simp add: sched_thread_def slot_at_def)

lemma sched_process_eq [simp]: "process_at st i p \<Longrightarrow> sched_process st i = Ok p"
  by (simp add: sched_process_def slot_at_def)

lemma thread_mut_eq:
  "thread_at st i t \<Longrightarrow> thread_mut i f st = Ok (st\<lparr>sc_threads := (sc_threads st)[i := Some (f t)]\<rparr>)"
  by (simp add: thread_mut_def)

lemma activation_eq:
  "thread_at st i t \<Longrightarrow> process_at st (th_process_id t) p \<Longrightarrow>
   activation st i = Ok \<lparr>ta_thread_id = i, ta_kernel_stack_top = th_kernel_stack_top t,
     ta_address_space = pc_address_space p\<rparr>"
  by (simp add: activation_def)

section \<open>Round-robin choice\<close>

definition eligible :: "scheduler_state \<Rightarrow> nat \<Rightarrow> bool" where
  "eligible st i \<longleftrightarrow> (\<exists>t. thread_at st i t \<and> Some i \<noteq> sc_idle_thread st \<and> is_ready t)"

definition ids_ok :: "scheduler_state \<Rightarrow> bool" where
  "ids_ok st \<longleftrightarrow> (\<forall>i t. thread_at st i t \<longrightarrow> th_id t = i)"

lemma scan_threads_find:
  assumes "ids_ok st"
  defines "n \<equiv> length (sc_threads st)"
  shows "scan_threads st start offset =
     Ok (find (eligible st) (map (\<lambda>k. (start + k) mod n) [offset..<n]))"
  using assms(1) unfolding n_def
proof (induction st start offset rule: scan_threads.induct)
  case (1 st start offset)
  let ?n = "length (sc_threads st)"
  show ?case
  proof (cases "offset < ?n")
    case True
    let ?i = "(start + offset) mod ?n"
    have i: "?i < ?n" using True by (intro mod_less_divisor) linarith
    have upt: "[offset..<?n] = offset # [offset + 1..<?n]" using True by (simp add: upt_conv_Cons)
    show ?thesis
    proof (cases "sc_threads st ! ?i")
      case None
      with i have "\<not> eligible st ?i" by (simp add: eligible_def slot_at_def)
      with None True i "1.IH"(1) [OF True index_ok [OF i] None "1.prems"] show ?thesis
        by (subst scan_threads.simps) (simp add: upt)
    next
      case (Some t)
      with i have at: "thread_at st ?i t" by (simp add: slot_at_def)
      with "1.prems" have tid: "th_id t = ?i" by (simp add: ids_ok_def)
      have el: "eligible st ?i \<longleftrightarrow> Some ?i \<noteq> sc_idle_thread st \<and> is_ready t"
        using at by (auto simp: eligible_def dest: slot_at_unique)
      from "1.IH"(2) [OF True index_ok [OF i] Some] "1.IH"(3) [OF True index_ok [OF i] Some] "1.prems"
      have IH: "scan_threads st start (offset + 1) =
          Ok (find (eligible st) (map (\<lambda>k. (start + k) mod ?n) [offset + 1..<?n]))"
        if "\<not> eligible st ?i" using that el tid by auto
      show ?thesis
        using True i Some tid el IH by (subst scan_threads.simps) (auto simp: upt)
    qed
  next
    case False
    then show ?thesis by (subst scan_threads.simps) simp
  qed
qed

definition ring_after :: "nat \<Rightarrow> nat \<Rightarrow> nat list" where
  "ring_after n c = map (\<lambda>k. ((c + 1) mod n + k) mod n) [0..<n]"

lemma next_non_idle_find:
  "ids_ok st \<Longrightarrow> next_non_idle_runnable_thread st (Some c) =
     Ok (find (eligible st) (ring_after (length (sc_threads st)) c))"
  by (simp add: next_non_idle_runnable_thread_def scan_threads_find ring_after_def)

lemma next_runnable_ready:
  assumes "ids_ok st" "\<And>i. sc_idle_thread st = Some i \<Longrightarrow> \<exists>t. thread_at st i t"
  shows "\<exists>r. next_runnable_thread st c = Ok r \<and> (\<forall>n. r = Some n \<longrightarrow> (\<exists>t. thread_at st n t \<and> is_ready t))"
proof -
  obtain l where l: "next_non_idle_runnable_thread st c = Ok (find (eligible st) l)"
    using assms(1) by (auto simp: next_non_idle_runnable_thread_def scan_threads_find)
  have "\<exists>t. thread_at st n t \<and> is_ready t" if "find (eligible st) l = Some n" for n
    using that by (auto simp: find_Some_iff eligible_def)
  with l assms(2) show ?thesis
    by (cases "sc_idle_thread st") (fastforce simp: next_runnable_thread_def)+
qed

section \<open>The invariant\<close>

definition is_user :: "thread \<Rightarrow> bool" where
  "is_user t \<longleftrightarrow> (\<exists>u. th_start t = UserStart u)"

definition sched_inv :: "scheduler_state \<Rightarrow> bool" where
  "sched_inv st \<longleftrightarrow>
     length (sc_processes st) = MAX_PROCESSES \<and> length (sc_threads st) = MAX_THREADS \<and>
     (\<forall>i t. thread_at st i t \<longrightarrow> th_id t = i \<and> (\<exists>p. process_at st (th_process_id t) p)) \<and>
     (\<forall>i p. process_at st i p \<longrightarrow> process_inv p) \<and>
     (\<forall>i. sc_idle_thread st = Some i \<longrightarrow> (\<exists>t. thread_at st i t \<and> th_state t \<noteq> Blocked \<and> \<not> is_user t)) \<and>
     (\<forall>i j t u. thread_at st i t \<and> thread_at st j u \<and> is_user t \<and> th_process_id u = th_process_id t \<longrightarrow> i = j) \<and>
     (\<forall>i t. thread_at st i t \<longrightarrow> (th_state t = Running \<longleftrightarrow> sc_current_thread st = Some i)) \<and>
     (\<forall>c. sc_current_thread st = Some c \<longrightarrow> (\<exists>t. thread_at st c t)) \<and>
     (\<forall>i p w. process_at st i p \<and> pc_waiting_thread p = Some w \<longrightarrow>
        (\<exists>t. thread_at st w t \<and> th_state t = Blocked \<and> th_block_reason t = WaitingForChild i)) \<and>
     (\<forall>i t. thread_at st i t \<and> th_state t = Blocked \<longrightarrow>
        (\<exists>c p. th_block_reason t = WaitingForChild c \<and> process_at st c p \<and> pc_waiting_thread p = Some i))"

lemma sched_invD:
  assumes "sched_inv st"
  shows "length (sc_processes st) = MAX_PROCESSES" "length (sc_threads st) = MAX_THREADS"
    "thread_at st i t \<Longrightarrow> th_id t = i" "thread_at st i t \<Longrightarrow> \<exists>p. process_at st (th_process_id t) p"
    "process_at st k p \<Longrightarrow> process_inv p"
    "sc_idle_thread st = Some i \<Longrightarrow> \<exists>t. thread_at st i t \<and> th_state t \<noteq> Blocked \<and> \<not> is_user t"
    "thread_at st i t \<Longrightarrow> thread_at st j u \<Longrightarrow> is_user t \<Longrightarrow> th_process_id u = th_process_id t \<Longrightarrow> i = j"
    "thread_at st i t \<Longrightarrow> th_state t = Running \<longleftrightarrow> sc_current_thread st = Some i"
    "sc_current_thread st = Some c \<Longrightarrow> \<exists>t. thread_at st c t"
    "process_at st k p \<Longrightarrow> pc_waiting_thread p = Some w \<Longrightarrow>
        \<exists>t. thread_at st w t \<and> th_state t = Blocked \<and> th_block_reason t = WaitingForChild k"
    "thread_at st i t \<Longrightarrow> th_state t = Blocked \<Longrightarrow>
        \<exists>c p. th_block_reason t = WaitingForChild c \<and> process_at st c p \<and> pc_waiting_thread p = Some i"
  using assms unfolding sched_inv_def by blast+

lemma sched_inv_ids: "sched_inv st \<Longrightarrow> ids_ok st"
  by (simp add: ids_ok_def sched_invD)

lemma sched_invI:
  assumes "length (sc_processes st) = MAX_PROCESSES" "length (sc_threads st) = MAX_THREADS"
    "\<And>i t. thread_at st i t \<Longrightarrow> th_id t = i"
    "\<And>i t. thread_at st i t \<Longrightarrow> \<exists>p. process_at st (th_process_id t) p"
    "\<And>k p. process_at st k p \<Longrightarrow> process_inv p"
    "\<And>i. sc_idle_thread st = Some i \<Longrightarrow> \<exists>t. thread_at st i t \<and> th_state t \<noteq> Blocked \<and> \<not> is_user t"
    "\<And>i j t u. thread_at st i t \<Longrightarrow> thread_at st j u \<Longrightarrow> is_user t \<Longrightarrow> th_process_id u = th_process_id t \<Longrightarrow> i = j"
    "\<And>i t. thread_at st i t \<Longrightarrow> th_state t = Running \<longleftrightarrow> sc_current_thread st = Some i"
    "\<And>c. sc_current_thread st = Some c \<Longrightarrow> \<exists>t. thread_at st c t"
    "\<And>k p w. process_at st k p \<Longrightarrow> pc_waiting_thread p = Some w \<Longrightarrow>
        \<exists>t. thread_at st w t \<and> th_state t = Blocked \<and> th_block_reason t = WaitingForChild k"
    "\<And>i t. thread_at st i t \<Longrightarrow> th_state t = Blocked \<Longrightarrow>
        \<exists>c p. th_block_reason t = WaitingForChild c \<and> process_at st c p \<and> pc_waiting_thread p = Some i"
  shows "sched_inv st"
  unfolding sched_inv_def by (intro conjI allI impI; (elim conjE)?; (rule assms; assumption)?)

text \<open>Handing the processor from the current thread to a runnable one.\<close>

lemma switch_inv:
  assumes inv: "sched_inv st" and c: "sc_current_thread st = Some c" "thread_at st c tc"
    and n: "thread_at st n tn" "n \<noteq> c" "th_state tn = Runnable"
  shows "sched_inv (st\<lparr>sc_threads := (sc_threads st)[c := Some (tc\<lparr>th_state := Runnable\<rparr>), n := Some (tn\<lparr>th_state := Running\<rparr>)],
           sc_current_thread := Some n\<rparr>)" (is "sched_inv ?st")
proof -
  note D = sched_invD [OF inv]
  have b: "c < length (sc_threads st)" "n < length (sc_threads st)" using c n by (auto dest: slot_at_bound)
  have user: "is_user (t\<lparr>th_state := s\<rparr>) = is_user t" for t s by (simp add: is_user_def)
  have tcR: "th_state tc = Running" using D(8) [OF c(2)] c(1) by simp
  have old: "\<exists>u. thread_at st i u \<and> th_id t = th_id u \<and> th_process_id t = th_process_id u \<and> is_user t = is_user u \<and>
      th_block_reason t = th_block_reason u \<and> (i \<noteq> c \<and> i \<noteq> n \<longrightarrow> t = u) \<and> (i = c \<longrightarrow> th_state t = Runnable) \<and>
      (i = n \<longrightarrow> th_state t = Running)" if "thread_at ?st i t" for i t
    using that b c n user by (auto split: if_splits)
  show ?thesis
  proof (rule sched_invI)
    fix i assume "sc_idle_thread ?st = Some i"
    then obtain t where "thread_at st i t" "th_state t \<noteq> Blocked" "\<not> is_user t" using D(6) by auto
    then show "\<exists>t. thread_at ?st i t \<and> th_state t \<noteq> Blocked \<and> \<not> is_user t"
      using b c n user by (cases "i = c"; cases "i = n") (auto dest: slot_at_unique)
  next
    fix i t assume t: "thread_at ?st i t"
    show "th_state t = Running \<longleftrightarrow> sc_current_thread ?st = Some i"
      using old [OF t] D(8) [of i] c(1) n(2) by (cases "i = c"; cases "i = n") auto
  next
    fix k p w assume "process_at ?st k p" "pc_waiting_thread p = Some w"
    then obtain t where "thread_at st w t" "th_state t = Blocked" "th_block_reason t = WaitingForChild k"
      using D(10) [of k p w] by auto
    moreover from this have "w \<noteq> c" "w \<noteq> n" using c(2) n tcR by (auto dest: slot_at_unique)
    ultimately show "\<exists>t. thread_at ?st w t \<and> th_state t = Blocked \<and> th_block_reason t = WaitingForChild k"
      by auto
  next
    fix i t assume "thread_at ?st i t" "th_state t = Blocked"
    then have "thread_at st i t" using n(2) by (auto split: if_splits)
    from D(11) [OF this \<open>th_state t = Blocked\<close>]
    show "\<exists>c p. th_block_reason t = WaitingForChild c \<and> process_at ?st c p \<and> pc_waiting_thread p = Some i" by simp
  next
    fix i j t u assume "thread_at ?st i t" "thread_at ?st j u" "is_user t" "th_process_id u = th_process_id t"
    then show "i = j" using old D(7) by (metis (no_types, lifting))
  next
    fix i t assume "thread_at ?st i t"
    then show "th_id t = i" "\<exists>p. process_at ?st (th_process_id t) p"
      using old [of i t] D(3,4) by fastforce+
  qed (use D b in auto)
qed

lemma yield_cases:
  assumes inv: "sched_inv st" and c: "sc_current_thread st = Some c"
  shows "(\<exists>n tn sw. next_runnable_thread st (Some c) = Ok (Some n) \<and> n \<noteq> c \<and> thread_at st n tn \<and>
            yield_now st = Ok (Some sw, st\<lparr>sc_threads := (sc_threads st)
                [c := Some ((the (sc_threads st ! c))\<lparr>th_state := Runnable\<rparr>), n := Some (tn\<lparr>th_state := Running\<rparr>)],
              sc_current_thread := Some n\<rparr>) \<and> sw_current sw = c \<and> sw_next sw = n \<and>
            sched_inv (st\<lparr>sc_threads := (sc_threads st)
                [c := Some ((the (sc_threads st ! c))\<lparr>th_state := Runnable\<rparr>), n := Some (tn\<lparr>th_state := Running\<rparr>)],
              sc_current_thread := Some n\<rparr>)) \<or>
         (yield_now st = Ok (None, st) \<and>
            (next_runnable_thread st (Some c) = Ok None \<or> next_runnable_thread st (Some c) = Ok (Some c)))"
proof -
  note D = sched_invD [OF inv]
  obtain tc where tc: "thread_at st c tc" using D(9) [OF c] by auto
  then have the: "the (sc_threads st ! c) = tc" by (simp add: slot_at_def)
  obtain r where r: "next_runnable_thread st (Some c) = Ok r"
    "\<forall>n. r = Some n \<longrightarrow> (\<exists>t. thread_at st n t \<and> is_ready t)"
    using next_runnable_ready [OF sched_inv_ids [OF inv], of "Some c"] D(6) by blast
  show ?thesis
  proof (cases "r = None \<or> r = Some c")
    case True
    with r(1) c show ?thesis by (auto simp: yield_now_def prepare_switch_def)
  next
    case False
    then obtain n where n: "r = Some n" "n \<noteq> c" by auto
    with r(2) obtain tn where tn: "thread_at st n tn" "is_ready tn" by blast
    then have run: "th_state tn = Runnable" using D(8) [OF tn(1)] c n(2) by (auto simp: is_ready_def)
    obtain p where p: "process_at st (th_process_id tn) p" using D(4) [OF tn(1)] by blast
    let ?st = "st\<lparr>sc_threads := (sc_threads st)[c := Some (tc\<lparr>th_state := Runnable\<rparr>), n := Some (tn\<lparr>th_state := Running\<rparr>)],
           sc_current_thread := Some n\<rparr>"
    have b: "n < length (sc_threads st)" "c < length (sc_threads st)" using tn tc by (auto dest: slot_at_bound)
    have a: "activation ?st n = Ok \<lparr>ta_thread_id = n, ta_kernel_stack_top = th_kernel_stack_top tn,
        ta_address_space = pc_address_space p\<rparr>"
      using activation_eq [of ?st n "tn\<lparr>th_state := Running\<rparr>" p] p b by simp
    have "yield_now st = Ok (Some \<lparr>sw_current = c, sw_next = n, sw_next_space = pc_address_space p,
        sw_next_stack_top = th_kernel_stack_top tn\<rparr>, ?st)"
      using c r(1) n tc tn(1) a b
      by (simp add: yield_now_def prepare_switch_def thread_mut_eq [of _ c tc] thread_mut_eq [of _ n tn]
          thread_set_state_def)
    moreover have "sched_inv ?st" by (rule switch_inv [OF inv c tc tn(1) n(2) run])
    ultimately show ?thesis using n r(1) tn(1) by (auto simp: the)
  qed
qed

text \<open>Dispatching a runnable thread when no thread is running.\<close>

lemma dispatch_inv:
  assumes inv: "sched_inv st" and c: "sc_current_thread st = None"
    and n: "thread_at st n tn" "th_state tn = Runnable"
  shows "sched_inv (st\<lparr>sc_threads := (sc_threads st)[n := Some (tn\<lparr>th_state := Running\<rparr>)],
           sc_current_thread := Some n\<rparr>)" (is "sched_inv ?st")
proof -
  note D = sched_invD [OF inv]
  have b: "n < length (sc_threads st)" using n by (auto dest: slot_at_bound)
  have user: "is_user (t\<lparr>th_state := s\<rparr>) = is_user t" for t s by (simp add: is_user_def)
  have old: "\<exists>u. thread_at st i u \<and> th_id t = th_id u \<and> th_process_id t = th_process_id u \<and> is_user t = is_user u \<and>
      (i \<noteq> n \<longrightarrow> t = u) \<and> (i = n \<longrightarrow> th_state t = Running)" if "thread_at ?st i t" for i t
    using that b n user by (auto split: if_splits)
  show ?thesis
  proof (rule sched_invI)
    fix i assume "sc_idle_thread ?st = Some i"
    then obtain t where "thread_at st i t" "th_state t \<noteq> Blocked" "\<not> is_user t" using D(6) by auto
    then show "\<exists>t. thread_at ?st i t \<and> th_state t \<noteq> Blocked \<and> \<not> is_user t"
      using b n user by (cases "i = n") (auto dest: slot_at_unique)
  next
    fix i t assume t: "thread_at ?st i t"
    show "th_state t = Running \<longleftrightarrow> sc_current_thread ?st = Some i"
      using old [OF t] D(8) [of i] c(1) by (cases "i = n") auto
  next
    fix k p w assume "process_at ?st k p" "pc_waiting_thread p = Some w"
    then obtain t where "thread_at st w t" "th_state t = Blocked" "th_block_reason t = WaitingForChild k"
      using D(10) [of k p w] by auto
    moreover from this have "w \<noteq> n" using n by (auto dest: slot_at_unique)
    ultimately show "\<exists>t. thread_at ?st w t \<and> th_state t = Blocked \<and> th_block_reason t = WaitingForChild k"
      by auto
  next
    fix i t assume "thread_at ?st i t" "th_state t = Blocked"
    then have "thread_at st i t" by (auto split: if_splits)
    from D(11) [OF this \<open>th_state t = Blocked\<close>]
    show "\<exists>c p. th_block_reason t = WaitingForChild c \<and> process_at ?st c p \<and> pc_waiting_thread p = Some i" by simp
  next
    fix i j t u assume "thread_at ?st i t" "thread_at ?st j u" "is_user t" "th_process_id u = th_process_id t"
    then show "i = j" using old D(7) by (metis (no_types, lifting))
  next
    fix i t assume "thread_at ?st i t"
    then show "th_id t = i" "\<exists>p. process_at ?st (th_process_id t) p"
      using old [of i t] D(3,4) by fastforce+
  qed (use D b in auto)
qed

lemma ring_after_set: "0 < n \<Longrightarrow> set (ring_after n c) = {0..<n}"
proof -
  assume n: "0 < n"
  have "k \<in> (\<lambda>j. ((c + 1) mod n + j) mod n) ` {0..<n}" if "k < n" for k
  proof (cases "(c + 1) mod n \<le> k")
    case True
    with that show ?thesis by (intro image_eqI [of _ _ "k - (c + 1) mod n"]) auto
  next
    case False
    have lt: "(c + 1) mod n < n" using n by simp
    then have "(c + 1) mod n + (n + k - (c + 1) mod n) = n + k" by linarith
    with False that lt show ?thesis
      by (intro image_eqI [of _ _ "n + k - (c + 1) mod n"]) auto
  qed
  with n show ?thesis by (auto simp: ring_after_def)
qed

lemma next_runnable_some:
  assumes "ids_ok st" "eligible st k"
  shows "\<exists>n t. next_runnable_thread st (Some c) = Ok (Some n) \<and> thread_at st n t \<and> is_ready t"
proof -
  have k: "k < length (sc_threads st)" using assms(2) by (auto simp: eligible_def slot_at_def)
  then have "k \<in> set (ring_after (length (sc_threads st)) c)"
    using ring_after_set [of "length (sc_threads st)" c] by force
  then have "find (eligible st) (ring_after (length (sc_threads st)) c) \<noteq> None"
    using assms(2) by (auto simp: find_None_iff)
  then obtain n where "find (eligible st) (ring_after (length (sc_threads st)) c) = Some n" by auto
  moreover from this have "eligible st n" by (auto simp: find_Some_iff)
  ultimately show ?thesis
    using next_non_idle_find [OF assms(1), of c] by (auto simp: next_runnable_thread_def eligible_def)
qed

section \<open>Spawning\<close>

lemma install_three_keeps:
  "pc_address_space (snd (install_three a b c child)) = pc_address_space child"
  "pc_owned_pages (snd (install_three a b c child)) = pc_owned_pages child"
  by (auto simp: install_three_def install_handle_def process_set_stdio_def split: option.splits)

lemma install_three_cases:
  assumes "pc_handles child = replicate MAX_PROCESS_HANDLES None" "process_inv child"
  obtains (failed) child' where "install_three a b c child = (None, child')"
      "pc_address_space child' = pc_address_space child" "pc_owned_pages child' = pc_owned_pages child"
  | (installed) child' where "install_three a b c child = (Some (), child')" "process_inv child'"
      "resolve_fd child' 0 = a" "resolve_fd child' 1 = b" "resolve_fd child' 2 = c"
      "child' = child\<lparr>pc_handles := pc_handles child', pc_stdio := pc_stdio child'\<rparr>"
proof (cases "a = None \<or> b = None \<or> c = None")
  case True
  then have "fst (install_three a b c child) = None"
    by (auto simp: install_three_def split: option.splits)
  with install_three_keeps [of a b c child] show ?thesis
    by (cases "install_three a b c child") (auto intro: failed)
next
  case False
  then obtain oa ob oc where abc: "a = Some oa" "b = Some ob" "c = Some oc" by auto
  obtain child' where c': "install_three a b c child = (Some (), child')"
    "resolve_fd child' 0 = a" "resolve_fd child' 1 = b" "resolve_fd child' 2 = c"
    "child' = child\<lparr>pc_handles := pc_handles child', pc_stdio := pc_stdio child'\<rparr>"
    "length (pc_handles child') = MAX_PROCESS_HANDLES"
    using install_three_fresh [OF assms(1), of oa ob oc] abc by auto
  have "process_inv child'"
    using assms(2) c'(6) by (subst c'(5)) (simp add: process_inv_def)
  with c' show ?thesis by (intro installed)
qed

definition child_stdio :: "bool \<Rightarrow> process \<Rightarrow> process \<Rightarrow> bool" where
  "child_stdio silent parent child \<longleftrightarrow>
     resolve_fd child 0 = resolve_fd parent 0 \<and>
     resolve_fd child 1 = (if silent then Some Null else resolve_fd parent 1) \<and>
     resolve_fd child 2 = (if silent then Some Null else resolve_fd parent 2)"

lemma spawn_child_cases:
  assumes inv: "sched_inv st" and tc: "thread_at st c tc"
    and parent: "process_at st (th_process_id tc) parent"
  obtains (refused) "spawn_child_process img c program silent st = Ok (Inr program, st)"
  | (spawned) slot k child ctx top m where
      "first_free (sc_processes st) = Some slot" "first_free (sc_threads st) = Some k"
      "spawn_child_process img c program silent st = Ok (Inl slot,
         st\<lparr>sc_processes := (sc_processes st)[slot := Some child],
            sc_threads := (sc_threads st)[k := Some (thread_new k ''user-child-main'' slot
              (UserStart \<lparr>us_entry_point = lp_entry_point program, us_user_stack_top = lp_user_stack_top program\<rparr>) ctx top)],
            sc_memory := m\<rparr>)"
      "process_inv child" "pc_waiting_thread child = Some c" "pc_exit_action child = Continue"
      "pc_owned_pages child = lp_owned_pages program" "pc_address_space child = lp_address_space program"
      "cwd_text child = cwd_text parent" "env_pairs (pc_env child) = env_pairs (pc_env parent)"
      "child_stdio silent parent child"
proof (cases "first_free (sc_processes st)")
  case None
  with tc show ?thesis by (intro refused) (simp add: spawn_child_process_def)
next
  case (Some slot)
  define new where "new = process_new slot ''user-child'' (lp_address_space program) (lp_owned_pages program) Continue"
  have same: "program\<lparr>lp_address_space := lp_address_space program, lp_owned_pages := lp_owned_pages program\<rparr> = program"
    by simp
  have newf: "pc_handles new = replicate MAX_PROCESS_HANDLES None" "process_inv new"
    "pc_address_space new = lp_address_space program" "pc_owned_pages new = lp_owned_pages program"
    "pc_exit_action new = Continue"
    unfolding new_def by (simp_all add: process_new_inv, simp_all add: process_new_def)
  have pinv: "process_inv parent" using sched_invD(5) [OF inv] parent by blast
  define stdio where "stdio = (if silent then inherit_stdio_silent_into parent new else inherit_stdio_into parent new)"
  have three: "stdio = install_three (resolve_fd parent 0)
      (if silent then Some Null else resolve_fd parent 1) (if silent then Some Null else resolve_fd parent 2) new"
    by (simp add: stdio_def inherit_stdio_silent_into_def inherit_stdio_into_def)
  show ?thesis
  proof (rule install_three_cases [OF newf(1,2), of "resolve_fd parent 0"
        "if silent then Some Null else resolve_fd parent 1" "if silent then Some Null else resolve_fd parent 2"],
      fold three, goal_cases failed installed)
    case (failed child')
    then have "spawn_child_process img c program silent st = Ok (Inr program, st)"
      using Some tc parent newf by (simp add: spawn_child_process_def Let_def flip: new_def stdio_def)
    then show ?case by (rule refused)
  next
    case (installed c1)
    obtain c2 where c2: "(inherit_cwd_into parent c1 :: (_, unit) outcome) = Ok (Some (), c2)" "process_inv c2"
      "cwd_text c2 = cwd_text parent" "c2 = c1\<lparr>pc_cwd := pc_cwd c2, pc_cwd_len := pc_cwd_len c2\<rparr>"
      using inherit_cwd_ok [OF pinv installed(2)] by blast
    obtain c3 where c3: "inherit_env_into parent c2 = (Ok (), c3)" "process_inv c3"
      "env_pairs (pc_env c3) = env_pairs (pc_env parent)" "c3 = c2\<lparr>pc_env := pc_env c3\<rparr>"
      using inherit_env_ok [OF pinv c2(2)] by blast
    define c4 where "c4 = process_set_waiting_thread c c3"
    have keep: "resolve_fd c4 = resolve_fd c1" "pc_waiting_thread c4 = Some c"
      "pc_exit_action c4 = Continue" "pc_owned_pages c4 = lp_owned_pages program"
      "pc_address_space c4 = lp_address_space program" "process_inv c4"
      "cwd_text c4 = cwd_text parent" "env_pairs (pc_env c4) = env_pairs (pc_env parent)"
    proof -
      have eq: "c4 = new\<lparr>pc_handles := pc_handles c1, pc_stdio := pc_stdio c1, pc_cwd := pc_cwd c2,
          pc_cwd_len := pc_cwd_len c2, pc_env := pc_env c3, pc_waiting_thread := Some c\<rparr>"
        unfolding c4_def process_set_waiting_thread_def
        by (subst c3(4), subst c2(4), subst installed(6)) simp
      show "resolve_fd c4 = resolve_fd c1"
        unfolding eq by (simp add: resolve_fd_def resolve_handle_def fun_eq_iff)
      show "pc_waiting_thread c4 = Some c" "pc_exit_action c4 = Continue"
        "pc_owned_pages c4 = lp_owned_pages program" "pc_address_space c4 = lp_address_space program"
        unfolding eq by (simp_all add: newf)
      show "process_inv c4" using c3(2) by (simp add: c4_def process_set_waiting_thread_def process_inv_def)
      have "pc_cwd c4 = pc_cwd c2" "pc_cwd_len c4 = pc_cwd_len c2" unfolding eq by simp_all
      then show "cwd_text c4 = cwd_text parent" using c2(3) by simp
      show "env_pairs (pc_env c4) = env_pairs (pc_env parent)" using c3(3) by (simp add: eq)
    qed
    have slot: "slot < length (sc_processes st)" "sc_processes st ! slot = None"
      using first_free_bound [OF Some] by auto
    show ?case
    proof (cases "first_free (sc_threads st)")
      case None
      have "(sc_processes st)[slot := None] = sc_processes st" using slot by (metis list_update_id)
      moreover have "sched_process (st\<lparr>sc_processes := (sc_processes st)[slot := Some c4]\<rparr>) slot = Ok c4"
        using slot by (intro sched_process_eq) simp
      ultimately have "spawn_child_process img c program silent st = Ok (Inr program, st)"
        using Some None tc parent installed(1) c2(1) c3(1) keep(4,5)
        by (simp add: spawn_child_process_def Let_def try_create_thread_def
            process_take_owned_pages_def flip: new_def stdio_def c4_def)
      then show ?thesis by (rule refused)
    next
      case k: (Some k)
      show ?thesis
        by (rule spawned [where slot = slot and k = k and child = c4
              and ctx = "thread_context_zeroed\<lparr>tc_rsp := (ki_stack_end img k AND NOT 0xf) - 8\<rparr>"
              and top = "ki_stack_end img k AND NOT 0xf"
              and m = "write_mem (sc_memory st) ((ki_stack_end img k AND NOT 0xf) - 8) (to_le_bytes 8 (ki_trampoline img))"])
          (use Some k tc parent installed c2(1) c3(1) keep in
            \<open>simp_all add: spawn_child_process_def Let_def try_create_thread_def initial_context_for_def
               child_stdio_def flip: new_def stdio_def c4_def\<close>)
    qed
  qed
qed

text \<open>The tables once the parent is blocked on its new child, before the next thread is chosen.\<close>

lemma child_blocked_inv:
  fixes name :: string and start :: thread_start and ctx :: thread_context and top :: u64 and m :: memory
  assumes inv: "sched_inv st" and c: "sc_current_thread st = Some c" "thread_at st c tc"
    and idle: "sc_idle_thread st \<noteq> Some c"
    and slot: "first_free (sc_processes st) = Some slot" and k: "first_free (sc_threads st) = Some k"
    and child: "process_inv child" "pc_waiting_thread child = Some c"
  defines "tk \<equiv> thread_new k name slot start ctx top"
  defines "tc' \<equiv> thread_block_for_child slot tc"
  shows "sched_inv (st\<lparr>sc_processes := (sc_processes st)[slot := Some child],
           sc_threads := (sc_threads st)[k := Some tk, c := Some tc'],
           sc_memory := m, sc_current_thread := None\<rparr>)" (is "sched_inv ?st")
proof -
  note D = sched_invD [OF inv]
  have fs: "slot < length (sc_processes st)" "\<And>p. \<not> process_at st slot p"
    using first_free_slot [OF slot] by auto
  have fk: "k < length (sc_threads st)" "\<And>t. \<not> thread_at st k t" using first_free_slot [OF k] by auto
  have cb: "c < length (sc_threads st)" "k \<noteq> c" using c(2) fk by (auto dest: slot_at_bound)
  have tk: "th_id tk = k" "th_process_id tk = slot" "th_state tk = Runnable" by (simp_all add: tk_def thread_new_def)
  have tc': "th_id tc' = c" "th_process_id tc' = th_process_id tc" "is_user tc' = is_user tc" "th_state tc' = Blocked"
    "th_block_reason tc' = WaitingForChild slot"
    using D(3) [OF c(2)] by (simp_all add: tc'_def thread_block_for_child_def is_user_def)
  have at: "thread_at ?st i t \<longleftrightarrow> (if i = c then t = tc' else if i = k then t = tk else thread_at st i t)" for i t
    using fk cb by auto
  have pat: "process_at ?st i p \<longleftrightarrow> (if i = slot then p = child else process_at st i p)" for i p
    using fs by auto
  have pid: "th_process_id t \<noteq> slot" if "thread_at st i t" for i t using D(4) [OF that] fs(2) by auto
  show ?thesis
  proof (rule sched_invI)
    fix i t assume "thread_at ?st i t"
    then show "th_id t = i" using tk tc' D(3) by (auto simp: at split: if_splits)
  next
    fix i t assume t: "thread_at ?st i t"
    show "\<exists>p. process_at ?st (th_process_id t) p"
    proof (cases "i = k \<and> i \<noteq> c")
      case True
      with t tk fs(1) show ?thesis by (auto simp: at pat)
    next
      case False
      with t obtain u where u: "thread_at st i u" "th_process_id t = th_process_id u"
        using c(2) tc'(2) cb(2) by (auto simp: at split: if_splits)
      from D(4) [OF u(1)] pid [OF u(1)] u(2) show ?thesis by (auto simp: pat)
    qed
  next
    fix i p assume "process_at ?st i p"
    then show "process_inv p" using child D(5) by (auto simp: pat split: if_splits)
  next
    fix i assume "sc_idle_thread ?st = Some i"
    moreover from this obtain t where "thread_at st i t" "th_state t \<noteq> Blocked" "\<not> is_user t" using D(6) by auto
    ultimately show "\<exists>t. thread_at ?st i t \<and> th_state t \<noteq> Blocked \<and> \<not> is_user t"
      using idle fk(2) by (auto simp: at)
  next
    fix i j t u
    assume a: "thread_at ?st i t" "thread_at ?st j u" "is_user t" "th_process_id u = th_process_id t"
    have "i = k \<longleftrightarrow> j = k"
      using a tk(2) tc'(2) pid c(2) cb(2) by (auto simp: at split: if_splits)
    moreover have "\<exists>v. thread_at st l v \<and> is_user v = is_user w \<and> th_process_id v = th_process_id w"
      if "thread_at ?st l w" "l \<noteq> k" for l w
      using that c(2) tc'(2,3) by (auto simp: at split: if_splits)
    ultimately show "i = j" using a D(7) by (metis (no_types, lifting))
  next
    fix i t assume "thread_at ?st i t"
    then show "th_state t = Running \<longleftrightarrow> sc_current_thread ?st = Some i"
      using D(8) [of i t] c(1) tk(3) tc'(4) by (auto simp: at split: if_splits)
  next
    fix i p w assume a: "process_at ?st i p" "pc_waiting_thread p = Some w"
    show "\<exists>t. thread_at ?st w t \<and> th_state t = Blocked \<and> th_block_reason t = WaitingForChild i"
    proof (cases "i = slot")
      case True
      with a child(2) tc' cb(1) show ?thesis by (auto simp: at pat)
    next
      case False
      with a obtain t where t: "thread_at st w t" "th_state t = Blocked" "th_block_reason t = WaitingForChild i"
        using D(10) [of i p w] by (auto simp: pat)
      moreover have "w \<noteq> c" using D(8) [OF t(1)] t(2) c(1) by auto
      ultimately show ?thesis using fk(2) by (auto simp: at)
    qed
  next
    fix i t assume a: "thread_at ?st i t" "th_state t = Blocked"
    show "\<exists>d p. th_block_reason t = WaitingForChild d \<and> process_at ?st d p \<and> pc_waiting_thread p = Some i"
    proof (cases "i = c")
      case True
      with a child(2) tc' fs(1) show ?thesis by (auto simp: at pat)
    next
      case False
      with a tk(3) have "thread_at st i t" by (auto simp: at split: if_splits)
      with a(2) D(11) obtain d p where "th_block_reason t = WaitingForChild d" "process_at st d p"
        "pc_waiting_thread p = Some i" by blast
      then show ?thesis using fs(2) by (auto simp: pat)
    qed
  qed (use D fs fk in auto)
qed

text \<open>The process services' \<^verbatim>\<open>spawn_child_process\<close> followed by \<^verbatim>\<open>wait_for_child\<close>.\<close>

definition spawn_and_block ::
  "kernel_image \<Rightarrow> thread_id \<Rightarrow> loaded_user_program \<Rightarrow> bool \<Rightarrow> scheduler_state \<Rightarrow>
   ((prepared_switch option + loaded_user_program) \<times> scheduler_state) sched" where
  "spawn_and_block img parent program silent st =
     and_then (spawn_child_process img parent program silent st) (\<lambda>(r, st1).
       case r of
         Inr program' \<Rightarrow> Ok (Inr program', st1)
       | Inl child \<Rightarrow> and_then (prepare_wait_for_child child st1) (\<lambda>(sw, st2). Ok (Inl sw, st2)))"

lemma spawn_and_block_cases:
  assumes inv: "sched_inv st" and c: "sc_current_thread st = Some c" "thread_at st c tc" "is_user tc"
    and parent: "process_at st (th_process_id tc) parent"
  shows "spawn_and_block img c program silent st = Ok (Inr program, st) \<or>
     (\<exists>sw st' child. spawn_and_block img c program silent st = Ok (Inl (Some sw), st') \<and> sched_inv st' \<and>
        sc_idle_thread st' = sc_idle_thread st \<and> sw_current sw = c \<and> sc_current_thread st' = Some (sw_next sw) \<and> sw_next sw \<noteq> c \<and>
        (\<exists>slot tc'. process_at st' slot child \<and> (\<forall>p. \<not> process_at st slot p) \<and> pc_waiting_thread child = Some c \<and>
           pc_owned_pages child = lp_owned_pages program \<and> pc_exit_action child = Continue \<and>
           cwd_text child = cwd_text parent \<and> env_pairs (pc_env child) = env_pairs (pc_env parent) \<and>
           child_stdio silent parent child \<and>
           thread_at st' c tc' \<and> th_state tc' = Blocked \<and> th_block_reason tc' = WaitingForChild slot \<and>
           (\<exists>k tk. thread_at st' k tk \<and> is_user tk \<and> th_process_id tk = slot \<and> is_ready tk)))"
proof (rule spawn_child_cases [OF inv c(2) parent, of img program silent], goal_cases refused spawned)
  case refused
  then show ?case by (simp add: spawn_and_block_def)
next
  case (spawned slot k child ctx top m)
  note D = sched_invD [OF inv]
  have idle: "sc_idle_thread st \<noteq> Some c" using D(6) [of c] c(2,3) by (auto dest: slot_at_unique)
  define tk where "tk = thread_new k ''user-child-main'' slot
      (UserStart \<lparr>us_entry_point = lp_entry_point program, us_user_stack_top = lp_user_stack_top program\<rparr>) ctx top"
  define st1 where "st1 = st\<lparr>sc_processes := (sc_processes st)[slot := Some child],
      sc_threads := (sc_threads st)[k := Some tk], sc_memory := m\<rparr>"
  define st2 where "st2 = st1\<lparr>sc_threads := (sc_threads st1)[c := Some (thread_block_for_child slot tc)]\<rparr>"
  have fk: "k < length (sc_threads st)" "\<And>t. \<not> thread_at st k t" using first_free_slot [OF spawned(2)] by auto
  have fs: "slot < length (sc_processes st)" "\<And>p. \<not> process_at st slot p" using first_free_slot [OF spawned(1)] by auto
  have cb: "c < length (sc_threads st)" "k \<noteq> c" using c(2) fk by (auto dest: slot_at_bound)
  have "st2\<lparr>sc_current_thread := None\<rparr> = st\<lparr>sc_processes := (sc_processes st)[slot := Some child],
      sc_threads := (sc_threads st)[k := Some tk, c := Some (thread_block_for_child slot tc)],
      sc_memory := m, sc_current_thread := None\<rparr>"
    by (cases st) (simp add: st2_def st1_def)
  then have inv2: "sched_inv (st2\<lparr>sc_current_thread := None\<rparr>)"
    using child_blocked_inv [OF inv c(1,2) idle spawned(1,2,4,5)] by (simp add: tk_def)
  have atk: "thread_at st2 k tk" "thread_at st2 c (thread_block_for_child slot tc)"
    using fk(1) cb by (auto simp: st2_def st1_def)
  have kidle: "sc_idle_thread st2 \<noteq> Some k" using D(6) [of k] fk(2) by (auto simp: st2_def st1_def)
  have ids: "ids_ok st2" using sched_inv_ids [OF inv2] by (simp add: ids_ok_def)
  have "eligible st2 k"
    using atk(1) kidle by (auto simp: eligible_def is_ready_def tk_def thread_new_def)
  from next_runnable_some [OF ids this, of c] obtain n tn where
    n: "next_runnable_thread st2 (Some c) = Ok (Some n)" "thread_at st2 n tn" "is_ready tn" by blast
  have nc: "n \<noteq> c" using n(2,3) atk(2) by (auto simp: is_ready_def thread_block_for_child_def dest: slot_at_unique)
  have run: "th_state tn = Runnable"
    using sched_invD(8) [OF inv2, of n tn] n(2,3) by (auto simp: is_ready_def)
  define st3 where "st3 = st2\<lparr>sc_threads := (sc_threads st2)[n := Some (tn\<lparr>th_state := Running\<rparr>)], sc_current_thread := Some n\<rparr>"
  have inv3: "sched_inv st3"
    using dispatch_inv [OF inv2, of n tn] n(2) run by (simp add: st3_def)
  obtain p where p: "process_at st2 (th_process_id tn) p"
    using sched_invD(4) [OF inv2, of n tn] n(2) by auto
  have nb: "n < length (sc_threads st2)" using n(2) by (auto dest: slot_at_bound)
  have "activation st3 n = Ok \<lparr>ta_thread_id = n, ta_kernel_stack_top = th_kernel_stack_top tn,
        ta_address_space = pc_address_space p\<rparr>"
    using activation_eq [of st3 n "tn\<lparr>th_state := Running\<rparr>" p] p nb by (simp add: st3_def)
  moreover have "thread_at st1 c tc" "sc_current_thread st1 = Some c" using c(1,2) cb(2) by (auto simp: st1_def)
  ultimately have "prepare_wait_for_child slot st1 =
      Ok (Some \<lparr>sw_current = c, sw_next = n, sw_next_space = pc_address_space p,
        sw_next_stack_top = th_kernel_stack_top tn\<rparr>, st3)"
    using n(1,2) by (simp add: prepare_wait_for_child_def thread_mut_eq [of st1 c tc] thread_mut_eq [of st2 n tn]
        thread_set_state_def flip: st2_def st3_def)
  then obtain sw where sw: "spawn_and_block img c program silent st = Ok (Inl (Some sw), st3)"
      "sw_current sw = c" "sw_next sw = n"
    using spawned(3) by (simp add: spawn_and_block_def flip: tk_def st1_def)
  have cur: "sc_current_thread st3 = Some n" by (simp add: st3_def)
  have idl: "sc_idle_thread st3 = sc_idle_thread st" by (simp add: st3_def st2_def st1_def)
  have blk: "th_state (thread_block_for_child slot tc) = Blocked"
    "th_block_reason (thread_block_for_child slot tc) = WaitingForChild slot"
    by (simp_all add: thread_block_for_child_def)
  have "process_at st3 slot child" using fs(1) by (simp add: st3_def st2_def st1_def)
  moreover have "thread_at st3 c (thread_block_for_child slot tc)" using atk(2) nc by (auto simp: st3_def)
  moreover have "\<exists>k tk. thread_at st3 k tk \<and> is_user tk \<and> th_process_id tk = slot \<and> is_ready tk"
  proof (cases "n = k")
    case True
    then have "tn = tk" using n(2) atk(1) by (auto dest: slot_at_unique)
    with True nb show ?thesis
      by (intro exI [of _ k] exI [of _ "tn\<lparr>th_state := Running\<rparr>"])
        (simp add: st3_def is_user_def is_ready_def tk_def thread_new_def)
  next
    case False
    with atk(1) show ?thesis
      by (intro exI [of _ k] exI [of _ tk])
        (simp add: st3_def is_user_def is_ready_def tk_def thread_new_def)
  qed
  ultimately show ?case
    using inv3 idl nc fs(2) spawned(5-11) sw(1) cur [folded sw(3)] blk unfolding sw(2,3) [symmetric]
    by (intro disjI2) blast
qed

section \<open>Exiting\<close>

text \<open>The tables once the exiting thread and its process are gone and a waiting parent is woken.\<close>

definition reaped :: "thread_id \<Rightarrow> process_id \<Rightarrow> thread_id option \<Rightarrow> u64 \<Rightarrow> scheduler_state \<Rightarrow> scheduler_state" where
  "reaped c pid waiting status st =
     st\<lparr>sc_processes := (sc_processes st)[pid := None],
        sc_threads := (case waiting of
            None \<Rightarrow> (sc_threads st)[c := None]
          | Some w \<Rightarrow> (sc_threads st)[c := None,
              w := Some (thread_wake (thread_set_wait_result status (the (sc_threads st ! w))))])\<rparr>"

lemma reaped_inv:
  assumes inv: "sched_inv st" and c: "sc_current_thread st = Some c" "thread_at st c tc" "is_user tc"
    and p: "process_at st (th_process_id tc) p"
  shows "sched_inv ((reaped c (th_process_id tc) (pc_waiting_thread p) status st)\<lparr>sc_current_thread := None\<rparr>)"
    (is "sched_inv ?st")
proof -
  note D = sched_invD [OF inv]
  define R where "R = reaped c (th_process_id tc) (pc_waiting_thread p) status st"
  let ?pid = "th_process_id tc" and ?w = "pc_waiting_thread p"
  let ?wake = "\<lambda>t. thread_wake (thread_set_wait_result status t)"
  have cb: "c < length (sc_threads st)" using c(2) by (auto dest: slot_at_bound)
  have wait: "\<exists>t. thread_at st w t \<and> th_state t = Blocked \<and> th_block_reason t = WaitingForChild ?pid \<and> w \<noteq> c"
    if "?w = Some w" for w
    using D(10) [OF p that] D(8) [OF c(2)] c by (auto dest: slot_at_unique)
  have at: "thread_at R i t \<longleftrightarrow> i \<noteq> c \<and> (if ?w = Some i then (\<exists>u. thread_at st i u \<and> t = ?wake u) else thread_at st i t)" for i t
  proof (cases ?w)
    case None
    then show ?thesis using cb by (auto simp: R_def reaped_def)
  next
    case (Some w)
    then obtain u where u: "thread_at st w u" "w \<noteq> c" using wait by blast
    then have "the (sc_threads st ! w) = u" "w < length (sc_threads st)" by (simp_all add: slot_at_def)
    with Some cb u show ?thesis by (auto simp: R_def reaped_def dest: slot_at_unique)
  qed
  have pat: "process_at R i q \<longleftrightarrow> i \<noteq> ?pid \<and> process_at st i q" for i q
    using p by (auto simp: R_def reaped_def)
  have wk: "th_id (?wake t) = th_id t" "th_process_id (?wake t) = th_process_id t" "is_user (?wake t) = is_user t"
    "th_state (?wake t) = Runnable" for t
    by (simp_all add: thread_wake_def thread_set_wait_result_def is_user_def)
  have old: "\<exists>u. thread_at st i u \<and> i \<noteq> c \<and> th_id t = th_id u \<and> th_process_id t = th_process_id u \<and> is_user t = is_user u \<and>
      (?w \<noteq> Some i \<longrightarrow> t = u) \<and> (?w = Some i \<longrightarrow> th_state t = Runnable)" if "thread_at R i t" for i t
    using that wk unfolding at by (auto split: if_splits)
  have len: "length (sc_threads ?st) = length (sc_threads st)" "length (sc_processes ?st) = length (sc_processes st)"
    by (auto simp: R_def reaped_def split: option.splits)
  have frame: "sc_idle_thread ?st = sc_idle_thread st" "sc_current_thread ?st = None"
    "sc_threads ?st = sc_threads R" "sc_processes ?st = sc_processes R" by (simp_all add: R_def reaped_def)
  show ?thesis
  proof (rule sched_invI, unfold frame)
    fix i t assume "thread_at R i t"
    from old [OF this] obtain u where u: "thread_at st i u" "i \<noteq> c" "th_id t = th_id u" "th_process_id t = th_process_id u"
      by blast
    show "th_id t = i" using D(3) u by simp
    have "th_process_id u \<noteq> ?pid" using D(7) [OF c(2) u(1) c(3)] u(2) by auto
    with D(4) [OF u(1)] u(4) show "\<exists>q. process_at R (th_process_id t) q" by (auto simp: pat)
  next
    fix i q assume "process_at R i q"
    then show "process_inv q" using D(5) by (auto simp: pat)
  next
    fix i assume i: "sc_idle_thread st = Some i"
    then obtain t where t: "thread_at st i t" "th_state t \<noteq> Blocked" "\<not> is_user t" using D(6) by blast
    have "i \<noteq> c" using t(1,3) c(2,3) by (auto dest: slot_at_unique)
    moreover have "?w \<noteq> Some i" using wait t(1,2) by (auto dest: slot_at_unique)
    ultimately show "\<exists>t. thread_at R i t \<and> th_state t \<noteq> Blocked \<and> \<not> is_user t" using t by (auto simp: at)
  next
    fix i j t u assume "thread_at R i t" "thread_at R j u" "is_user t" "th_process_id u = th_process_id t"
    then show "i = j" using old D(7) by (metis (no_types, lifting))
  next
    fix i t assume "thread_at R i t"
    then show "th_state t = Running \<longleftrightarrow> None = Some i" using old [of i t] D(8) [of i] c(1) by fastforce
  next
    fix i q w assume q: "process_at R i q" "pc_waiting_thread q = Some w"
    then have i: "process_at st i q" "i \<noteq> ?pid" by (auto simp: pat)
    obtain t where t: "thread_at st w t" "th_state t = Blocked" "th_block_reason t = WaitingForChild i"
      using D(10) [OF i(1) q(2)] by blast
    have "w \<noteq> c" using D(8) [OF t(1)] t(2) c(1) by auto
    moreover have "?w \<noteq> Some w"
      using wait [of w] slot_at_unique [OF t(1)] t(3) i(2) by (metis thread_block_reason.inject)
    ultimately show "\<exists>t. thread_at R w t \<and> th_state t = Blocked \<and> th_block_reason t = WaitingForChild i"
      using t by (auto simp: at)
  next
    fix i t assume t: "thread_at R i t" "th_state t = Blocked"
    then have i: "thread_at st i t" "?w \<noteq> Some i" using old [OF t(1)] by auto
    obtain d q where q: "th_block_reason t = WaitingForChild d" "process_at st d q" "pc_waiting_thread q = Some i"
      using D(11) [OF i(1) t(2)] by blast
    have "d \<noteq> ?pid" using q i(2) p by (auto dest: slot_at_unique)
    with q show "\<exists>d q. th_block_reason t = WaitingForChild d \<and> process_at R d q \<and> pc_waiting_thread q = Some i"
      by (auto simp: pat)
  qed (use D len in \<open>auto simp: R_def\<close>)
qed

lemma exit_eq:
  fixes status :: u64
  assumes inv: "sched_inv st" and c: "sc_current_thread st = Some c" "thread_at st c tc" "is_user tc"
    and p: "process_at st (th_process_id tc) p" and act: "pc_exit_action p = Continue"
  defines "st2 \<equiv> reaped c (th_process_id tc) (pc_waiting_thread p) status st"
  assumes n: "(case pc_waiting_thread p of Some w \<Rightarrow> Ok (Some w) | None \<Rightarrow> next_runnable_thread st2 (Some c)) = Ok (Some n)"
    and tn: "thread_at st2 n tn" "th_state tn = Runnable"
  shows "\<exists>sw. prepare_exit_current_process status st =
      Ok (Some (Switch sw), st2\<lparr>sc_threads := (sc_threads st2)[n := Some (tn\<lparr>th_state := Running\<rparr>)], sc_current_thread := Some n\<rparr>) \<and>
      ex_next sw = n \<and> ex_released_pages sw = pc_owned_pages p \<and>
      sched_inv (st2\<lparr>sc_threads := (sc_threads st2)[n := Some (tn\<lparr>th_state := Running\<rparr>)], sc_current_thread := Some n\<rparr>)"
proof -
  note D = sched_invD [OF inv]
  have inv2: "sched_inv (st2\<lparr>sc_current_thread := None\<rparr>)"
    unfolding st2_def by (rule reaped_inv [OF inv c p])
  let ?st3 = "st2\<lparr>sc_threads := (sc_threads st2)[n := Some (tn\<lparr>th_state := Running\<rparr>)], sc_current_thread := Some n\<rparr>"
  have inv3: "sched_inv ?st3"
    using dispatch_inv [OF inv2, of n tn] tn by simp
  obtain q where q: "process_at st2 (th_process_id tn) q"
    using sched_invD(4) [OF inv2, of n tn] tn(1) by auto
  have nb: "n < length (sc_threads st2)" using tn(1) by (auto dest: slot_at_bound)
  define p1 where "p1 = (process_mark_exited status p)\<lparr>pc_waiting_thread := None\<rparr>"
  define pid where "pid = th_process_id tc"
  define sta where "sta = st\<lparr>sc_processes := (sc_processes st)[pid := Some p1], sc_threads := (sc_threads st)[c := None]\<rparr>"
  define stb where "stb = sta\<lparr>sc_processes := (sc_processes sta)[pid := None]\<rparr>"
  have pb: "pid < length (sc_processes st)" using p by (simp add: pid_def slot_at_def)
  have p1f: "pc_exit_action p1 = Continue" "pc_owned_pages p1 = pc_owned_pages p"
    by (simp_all add: p1_def process_mark_exited_def act)
  have lookup: "sched_process sta pid = Ok p1" using pb by (intro sched_process_eq) (simp add: sta_def)
  have woken: "(case pc_waiting_thread p of
       Some w \<Rightarrow> and_then (thread_mut w (\<lambda>t. thread_wake (thread_set_wait_result status t)) stb) (\<lambda>st3. Ok (Some w, st3))
     | None \<Rightarrow> and_then (next_runnable_thread stb (Some c)) (\<lambda>n. Ok (n, stb))) = Ok (Some n, st2)"
  proof (cases "pc_waiting_thread p")
    case None
    then have "stb = st2" by (simp add: stb_def sta_def st2_def reaped_def pid_def)
    with None n show ?thesis by simp
  next
    case (Some w)
    obtain t where t: "thread_at st w t" "th_state t = Blocked" using D(10) [OF p Some] by blast
    have "w \<noteq> c" using D(8) [OF t(1)] t(2) c(1) by auto
    with t(1) have tw: "thread_at stb w t" "the (sc_threads st ! w) = t" by (auto simp: stb_def sta_def slot_at_def)
    have "st2 = stb\<lparr>sc_threads := (sc_threads stb)[w := Some (thread_wake (thread_set_wait_result status t))]\<rparr>"
      using Some tw(2) by (simp add: st2_def stb_def sta_def reaped_def pid_def)
    with Some n tw(1) show ?thesis by (simp add: thread_mut_eq)
  qed
  have mut: "thread_mut n (thread_set_state Running) (st2\<lparr>sc_current_thread := Some n\<rparr>) = Ok ?st3"
    using thread_mut_eq [of "st2\<lparr>sc_current_thread := Some n\<rparr>" n tn "thread_set_state Running"] tn(1)
    by (simp add: thread_set_state_def)
  have actv: "activation ?st3 n = Ok \<lparr>ta_thread_id = n, ta_kernel_stack_top = th_kernel_stack_top tn,
        ta_address_space = pc_address_space q\<rparr>"
    using activation_eq [of ?st3 n "tn\<lparr>th_state := Running\<rparr>" q] q nb by simp
  have "prepare_exit_current_process status st =
      Ok (Some (Switch \<lparr>ex_next = n, ex_next_space = pc_address_space q,
         ex_next_stack_top = th_kernel_stack_top tn, ex_released_pages = pc_owned_pages p\<rparr>), ?st3)"
    using c(1,2) p act lookup [unfolded sta_def p1_def pid_def process_mark_exited_def]
      woken [unfolded stb_def sta_def p1_def pid_def process_mark_exited_def] mut actv
    by (simp add: prepare_exit_current_process_def Let_def process_take_waiting_thread_def
        process_take_owned_pages_def process_mark_exited_def)
  with inv3 show ?thesis by auto
qed

section \<open>Bootstrap\<close>

text \<open>The scheduler part of \<^verbatim>\<open>kernel_main\<close>: the kernel process with the terminal and idle threads, the
  bootstrap user process on the terminal with its \<^verbatim>\<open>PATH\<close>, and the start of the first thread.\<close>

definition PATH_KEY :: bytes where "PATH_KEY = [0x50, 0x41, 0x54, 0x48]"

definition PATH_VALUE :: bytes where
  "PATH_VALUE = [0x2f, 0x73, 0x79, 0x73, 0x74, 0x65, 0x6d, 0x2f, 0x62, 0x69, 0x6e, 0x3a, 0x2f, 0x62, 0x69, 0x6e]"

definition boot_scheduler ::
  "kernel_image \<Rightarrow> address_space \<Rightarrow> nat \<Rightarrow> loaded_user_program \<Rightarrow> u64 \<Rightarrow> u64 \<Rightarrow> scheduler_state \<Rightarrow>
   (thread_activation option \<times> scheduler_state) sched" where
  "boot_scheduler img kernel_space endpoint program terminal_entry idle_entry st0 =
     and_then (create_process
       \<lparr>cf_name = ''kernel-system'', cf_address_space = kernel_space, cf_terminal_endpoint = None,
        cf_owned_pages = owned_pages_empty, cf_exit_action = Continue\<rparr> (scheduler_reset st0)) (\<lambda>(kernel_process, st1).
     and_then (create_process
       \<lparr>cf_name = ''user-bootstrap'', cf_address_space = lp_address_space program,
        cf_terminal_endpoint = Some endpoint, cf_owned_pages = lp_owned_pages program,
        cf_exit_action = ShutdownSystem\<rparr> st1) (\<lambda>(user_process, st2).
     case set_process_env user_process PATH_KEY PATH_VALUE st2 of
       Ok st3 \<Rightarrow>
         and_then (create_kernel_thread img ''terminal'' kernel_process terminal_entry st3) (\<lambda>(_, st4).
         and_then (create_user_thread img ''user-bootstrap-main'' user_process
                     (lp_entry_point program) (lp_user_stack_top program) st4) (\<lambda>(_, st5).
         and_then (create_kernel_thread img ''idle'' kernel_process idle_entry st5) (\<lambda>(idle, st6).
           sched_start (mark_idle_thread idle st6))))
     | _ \<Rightarrow> Panic))"

lemma slot_at_replicate [simp]: "\<not> slot_at (replicate n None) i x"
  by (auto simp: slot_at_def)

lemma reset_inv: "sched_inv (scheduler_reset st)"
  by (simp add: sched_inv_def scheduler_reset_def)

lemma add_process_inv:
  assumes inv: "sched_inv st" and slot: "first_free (sc_processes st) = Some slot"
    and p: "process_inv p" "pc_waiting_thread p = None"
  shows "sched_inv (st\<lparr>sc_processes := (sc_processes st)[slot := Some p]\<rparr>)" (is "sched_inv ?st")
proof -
  note D = sched_invD [OF inv]
  have fs: "slot < length (sc_processes st)" "\<And>q. \<not> process_at st slot q" using first_free_slot [OF slot] by auto
  have pat: "slot_at ((sc_processes st)[slot := Some p]) i q \<longleftrightarrow> (if i = slot then q = p else process_at st i q)" for i q
    using fs by auto
  have keep: "process_at st i q \<Longrightarrow> i \<noteq> slot" for i q using fs(2) by auto
  have frame: "sc_threads (st\<lparr>sc_processes := (sc_processes st)[slot := Some p]\<rparr>) = sc_threads st" "sc_processes (st\<lparr>sc_processes := (sc_processes st)[slot := Some p]\<rparr>) = (sc_processes st)[slot := Some p]"
    "sc_idle_thread (st\<lparr>sc_processes := (sc_processes st)[slot := Some p]\<rparr>) = sc_idle_thread st" "sc_current_thread (st\<lparr>sc_processes := (sc_processes st)[slot := Some p]\<rparr>) = sc_current_thread st" by simp_all
  show ?thesis
  proof (rule sched_invI, unfold frame)
    fix i t assume t: "thread_at st i t"
    from D(4) [OF t] keep show "\<exists>q. slot_at ((sc_processes st)[slot := Some p]) (th_process_id t) q"
      by (auto simp: pat)
  next
    fix k q assume "slot_at ((sc_processes st)[slot := Some p]) k q"
    then show "process_inv q" using p D(5) by (auto simp: pat split: if_splits)
  next
    fix k q w assume "slot_at ((sc_processes st)[slot := Some p]) k q" "pc_waiting_thread q = Some w"
    then show "\<exists>t. thread_at st w t \<and> th_state t = Blocked \<and> th_block_reason t = WaitingForChild k"
      using p D(10) [of k q w] by (auto simp: pat split: if_splits)
  next
    fix i t assume "thread_at st i t" "th_state t = Blocked"
    then obtain d q where "th_block_reason t = WaitingForChild d" "process_at st d q" "pc_waiting_thread q = Some i"
      using D(11) by blast
    then show "\<exists>d q. th_block_reason t = WaitingForChild d \<and> slot_at ((sc_processes st)[slot := Some p]) d q \<and>
        pc_waiting_thread q = Some i" using keep by (auto simp: pat)
  qed (use D in auto)
qed

lemma update_process_inv:
  assumes inv: "sched_inv st" and p: "process_at st i p" "process_inv p'" "pc_waiting_thread p' = pc_waiting_thread p"
  shows "sched_inv (st\<lparr>sc_processes := (sc_processes st)[i := Some p']\<rparr>)"
proof -
  note D = sched_invD [OF inv]
  have ib: "i < length (sc_processes st)" using p(1) by (auto dest: slot_at_bound)
  have frame: "sc_threads (st\<lparr>sc_processes := (sc_processes st)[i := Some p']\<rparr>) = sc_threads st" "sc_processes (st\<lparr>sc_processes := (sc_processes st)[i := Some p']\<rparr>) = (sc_processes st)[i := Some p']"
    "sc_idle_thread (st\<lparr>sc_processes := (sc_processes st)[i := Some p']\<rparr>) = sc_idle_thread st" "sc_current_thread (st\<lparr>sc_processes := (sc_processes st)[i := Some p']\<rparr>) = sc_current_thread st" by simp_all
  show ?thesis
  proof (rule sched_invI, unfold frame)
    fix k q w assume "slot_at ((sc_processes st)[i := Some p']) k q" "pc_waiting_thread q = Some w"
    then show "\<exists>t. thread_at st w t \<and> th_state t = Blocked \<and> th_block_reason t = WaitingForChild k"
      using p D(10) [of k _ w] by (auto split: if_splits)
  next
    fix j t assume "thread_at st j t" "th_state t = Blocked"
    then obtain d q where "th_block_reason t = WaitingForChild d" "process_at st d q" "pc_waiting_thread q = Some j"
      using D(11) by blast
    then show "\<exists>d q. th_block_reason t = WaitingForChild d \<and> slot_at ((sc_processes st)[i := Some p']) d q \<and>
        pc_waiting_thread q = Some j" using p ib by (cases "d = i") (auto dest: slot_at_unique)
  next
    fix j t assume t: "thread_at st j t"
    from D(4) [OF t] ib show "\<exists>q. slot_at ((sc_processes st)[i := Some p']) (th_process_id t) q"
      by (cases "th_process_id t = i") auto
  next
    fix k q assume "slot_at ((sc_processes st)[i := Some p']) k q"
    then show "process_inv q" using p D(5) by (auto split: if_splits)
  qed (use D in auto)
qed

lemma add_thread_inv:
  assumes inv: "sched_inv st" and k: "first_free (sc_threads st) = Some k"
    and pid: "process_at st pid p"
    and excl: "\<And>i t. thread_at st i t \<Longrightarrow> th_process_id t = pid \<Longrightarrow> \<not> is_user t \<and> (\<exists>e. start = KernelStart e)"
  shows "sched_inv (st\<lparr>sc_threads := (sc_threads st)[k := Some (thread_new k name pid start ctx ktop)], sc_memory := m\<rparr>)"
proof -
  note D = sched_invD [OF inv]
  define tk where "tk = thread_new k name pid start ctx ktop"
  have tk: "th_id tk = k" "th_process_id tk = pid" "th_state tk = Runnable" "th_start tk = start"
    by (simp_all add: tk_def thread_new_def)
  have fk: "k < length (sc_threads st)" "\<And>t. \<not> thread_at st k t" using first_free_slot [OF k] by auto
  have at: "slot_at ((sc_threads st)[k := Some tk]) i t \<longleftrightarrow> (if i = k then t = tk else thread_at st i t)" for i t
    using fk by auto
  have keep: "thread_at st i t \<Longrightarrow> i \<noteq> k" for i t using fk(2) by auto
  have frame: "sc_threads (st\<lparr>sc_threads := (sc_threads st)[k := Some tk], sc_memory := m\<rparr>) = (sc_threads st)[k := Some tk]" "sc_processes (st\<lparr>sc_threads := (sc_threads st)[k := Some tk], sc_memory := m\<rparr>) = sc_processes st"
    "sc_idle_thread (st\<lparr>sc_threads := (sc_threads st)[k := Some tk], sc_memory := m\<rparr>) = sc_idle_thread st" "sc_current_thread (st\<lparr>sc_threads := (sc_threads st)[k := Some tk], sc_memory := m\<rparr>) = sc_current_thread st" by simp_all
  have "sched_inv (st\<lparr>sc_threads := (sc_threads st)[k := Some tk], sc_memory := m\<rparr>)"
  proof (rule sched_invI, unfold frame)
    fix i t assume "slot_at ((sc_threads st)[k := Some tk]) i t"
    then show "th_id t = i" "\<exists>q. process_at st (th_process_id t) q"
      "th_state t = Running \<longleftrightarrow> sc_current_thread st = Some i"
      using D(3,4,8) tk pid D(9) [of i] keep by (fastforce simp: at split: if_splits)+
  next
    fix i assume "sc_idle_thread st = Some i"
    then obtain t where "thread_at st i t" "th_state t \<noteq> Blocked" "\<not> is_user t" using D(6) by blast
    then show "\<exists>t. slot_at ((sc_threads st)[k := Some tk]) i t \<and> th_state t \<noteq> Blocked \<and> \<not> is_user t"
      using keep by (auto simp: at)
  next
    fix i j t u
    assume "slot_at ((sc_threads st)[k := Some tk]) i t" "slot_at ((sc_threads st)[k := Some tk]) j u"
      "is_user t" "th_process_id u = th_process_id t"
    then show "i = j" using D(7) [of i t j u] excl tk by (auto simp: at is_user_def split: if_splits)
  next
    fix c assume "sc_current_thread st = Some c"
    with D(9) keep show "\<exists>t. slot_at ((sc_threads st)[k := Some tk]) c t" by (auto simp: at)
  next
    fix d q w assume "process_at st d q" "pc_waiting_thread q = Some w"
    with D(10) [of d q w] keep
    show "\<exists>t. slot_at ((sc_threads st)[k := Some tk]) w t \<and> th_state t = Blocked \<and> th_block_reason t = WaitingForChild d"
      by (auto simp: at)
  next
    fix i t assume "slot_at ((sc_threads st)[k := Some tk]) i t" "th_state t = Blocked"
    then have "thread_at st i t" using tk(3) by (auto simp: at split: if_splits)
    from D(11) [OF this \<open>th_state t = Blocked\<close>]
    show "\<exists>d q. th_block_reason t = WaitingForChild d \<and> process_at st d q \<and> pc_waiting_thread q = Some i" .
  qed (use D in auto)
  then show ?thesis by (simp add: tk_def)
qed

lemma create_process_ok:
  assumes "sched_inv st" "first_free (sc_processes st) = Some slot"
  shows "\<exists>p. create_process config st = Ok (slot, st\<lparr>sc_processes := (sc_processes st)[slot := Some p]\<rparr>) \<and>
     process_inv p \<and> pc_waiting_thread p = None \<and> pc_env p = environment_new \<and>
     pc_exit_action p = cf_exit_action config \<and>
     sched_inv (st\<lparr>sc_processes := (sc_processes st)[slot := Some p]\<rparr>)"
proof -
  define new where "new = process_new slot (cf_name config) (cf_address_space config)
      (cf_owned_pages config) (cf_exit_action config)"
  have nf: "process_inv new" "pc_waiting_thread new = None" "pc_env new = environment_new"
    "pc_exit_action new = cf_exit_action config" "pc_handles new = replicate MAX_PROCESS_HANDLES None"
    unfolding new_def by (simp_all add: process_new_inv, simp_all add: process_new_def)
  have "\<exists>p. (case cf_terminal_endpoint config of None \<Rightarrow> (Some (), new)
        | Some ep \<Rightarrow> install_three (Some (TerminalEndpoint ep)) (Some (TerminalEndpoint ep)) (Some (TerminalEndpoint ep)) new)
        = (Some (), p) \<and> process_inv p \<and> pc_waiting_thread p = None \<and> pc_env p = environment_new \<and>
        pc_exit_action p = cf_exit_action config"
  proof (cases "cf_terminal_endpoint config")
    case None
    with nf show ?thesis by simp
  next
    case (Some ep)
    obtain p where p: "install_three (Some (TerminalEndpoint ep)) (Some (TerminalEndpoint ep))
        (Some (TerminalEndpoint ep)) new = (Some (), p)"
      "p = new\<lparr>pc_handles := pc_handles p, pc_stdio := pc_stdio p\<rparr>" "length (pc_handles p) = MAX_PROCESS_HANDLES"
      using install_three_fresh [OF nf(5), of "TerminalEndpoint ep" "TerminalEndpoint ep" "TerminalEndpoint ep"] by blast
    have "process_inv p" using nf(1) p(3) by (subst p(2)) (simp add: process_inv_def)
    moreover have "pc_waiting_thread p = None \<and> pc_env p = environment_new \<and> pc_exit_action p = cf_exit_action config"
      using nf(2-4) by (subst (1 2 3) p(2)) simp
    ultimately show ?thesis using Some p(1) by simp
  qed
  then obtain p where p: "(case cf_terminal_endpoint config of None \<Rightarrow> (Some (), new)
        | Some ep \<Rightarrow> install_three (Some (TerminalEndpoint ep)) (Some (TerminalEndpoint ep)) (Some (TerminalEndpoint ep)) new)
        = (Some (), p)" "process_inv p" "pc_waiting_thread p = None" "pc_env p = environment_new"
        "pc_exit_action p = cf_exit_action config" by blast
  have "create_process config st = Ok (slot, st\<lparr>sc_processes := (sc_processes st)[slot := Some p]\<rparr>)"
    using assms(2) p(1) by (simp add: create_process_def try_create_process_def Let_def flip: new_def)
  with p add_process_inv [OF assms p(2,3)] show ?thesis by blast
qed

lemma try_create_thread_ok:
  assumes "first_free (sc_threads st) = Some k"
  shows "\<exists>ctx top m. try_create_thread img name pid start st =
     (Some k, st\<lparr>sc_threads := (sc_threads st)[k := Some (thread_new k name pid start ctx top)], sc_memory := m\<rparr>)"
proof -
  have comm: "st\<lparr>sc_memory := m, sc_threads := x\<rparr> = st\<lparr>sc_threads := x, sc_memory := m\<rparr>" for m x
    by (cases st) simp
  show ?thesis using assms by (simp add: try_create_thread_def initial_context_for_def Let_def comm) blast
qed

lemma path_env_ok: "\<exists>env. env_set PATH_KEY PATH_VALUE environment_new = Ok env \<and> env_inv env \<and>
    env_pairs env = [(PATH_KEY, PATH_VALUE)]"
proof -
  have "env_good_key PATH_KEY" "env_good_value PATH_VALUE" by code_simp+
  moreover have "env_len environment_new < MAX_ENV_VARS"
    by (simp add: environment_new_def MAX_ENV_VARS_def)
  ultimately show ?thesis using env_set_eq [OF env_inv_new, of PATH_KEY PATH_VALUE] by auto
qed

lemma sched_start_ok:
  assumes inv: "sched_inv st" and c: "sc_current_thread st = None" and k: "eligible st k"
  shows "\<exists>a st'. sched_start st = Ok (Some a, st') \<and> sched_inv st' \<and> sc_idle_thread st' = sc_idle_thread st \<and>
     sc_current_thread st' = Some (ta_thread_id a)"
proof -
  note D = sched_invD [OF inv]
  let ?n = "length (sc_threads st)"
  have kb: "k < ?n" using k by (auto simp: eligible_def slot_at_def)
  have "find (eligible st) (map (\<lambda>k. k mod ?n) [0..<?n]) \<noteq> None"
    using k kb by (auto simp: find_None_iff image_iff)
  then obtain n where n: "find (eligible st) (map (\<lambda>k. k mod ?n) [0..<?n]) = Some n" by auto
  then have "eligible st n" by (auto simp: find_Some_iff)
  then obtain tn where tn: "thread_at st n tn" "is_ready tn" by (auto simp: eligible_def)
  then have run: "th_state tn = Runnable" using D(8) [OF tn(1)] c by (auto simp: is_ready_def)
  have nr: "next_runnable_thread st None = Ok (Some n)"
    using n scan_threads_find [OF sched_inv_ids [OF inv], of 0 0]
    by (simp add: next_runnable_thread_def next_non_idle_runnable_thread_def)
  let ?st = "st\<lparr>sc_threads := (sc_threads st)[n := Some (tn\<lparr>th_state := Running\<rparr>)], sc_current_thread := Some n\<rparr>"
  obtain p where p: "process_at st (th_process_id tn) p" using D(4) [OF tn(1)] by blast
  have "activation ?st n = Ok \<lparr>ta_thread_id = n, ta_kernel_stack_top = th_kernel_stack_top tn,
        ta_address_space = pc_address_space p\<rparr>"
    using activation_eq [of ?st n "tn\<lparr>th_state := Running\<rparr>" p] p tn(1) by (simp add: slot_at_bound)
  moreover have "thread_mut n (thread_set_state Running) (st\<lparr>sc_current_thread := Some n\<rparr>) = Ok ?st"
    using thread_mut_eq [of "st\<lparr>sc_current_thread := Some n\<rparr>" n tn "thread_set_state Running"] tn(1)
    by (simp add: thread_set_state_def)
  ultimately show ?thesis
    using nr dispatch_inv [OF inv c tn(1) run] by (auto simp: sched_start_def)
qed

lemma first_free_tables:
  "first_free (replicate MAX_PROCESSES None) = Some 0"
  "first_free ((replicate MAX_PROCESSES None)[0 := Some p]) = Some 1"
  "first_free (replicate MAX_THREADS None) = Some 0"
  "first_free ((replicate MAX_THREADS None)[0 := Some a]) = Some 1"
  "first_free ((replicate MAX_THREADS None)[0 := Some a, Suc 0 := Some b]) = Some 2"
  by (simp_all add: MAX_PROCESSES_def MAX_THREADS_def numeral_eq_Suc)

lemma boot_ok:
  "\<exists>a st. boot_scheduler img kernel_space endpoint program terminal_entry idle_entry st0 = Ok (Some a, st) \<and>
     sched_inv st \<and> sc_idle_thread st \<noteq> None \<and> sc_current_thread st = Some (ta_thread_id a)"
proof -
  define r where "r = scheduler_reset st0"
  have r: "sched_inv r" "sc_processes r = replicate MAX_PROCESSES None" "sc_threads r = replicate MAX_THREADS None"
    "sc_current_thread r = None" unfolding r_def using reset_inv by (auto simp: scheduler_reset_def)
  have lens: "0 < MAX_PROCESSES" "1 < MAX_PROCESSES" "0 < MAX_THREADS" "1 < MAX_THREADS" "2 < MAX_THREADS"
    by (simp_all add: MAX_PROCESSES_def MAX_THREADS_def)
  let ?k = "\<lparr>cf_name = ''kernel-system'', cf_address_space = kernel_space, cf_terminal_endpoint = None,
        cf_owned_pages = owned_pages_empty, cf_exit_action = Continue\<rparr>"
  let ?u = "\<lparr>cf_name = ''user-bootstrap'', cf_address_space = lp_address_space program,
        cf_terminal_endpoint = Some endpoint, cf_owned_pages = lp_owned_pages program,
        cf_exit_action = ShutdownSystem\<rparr>"
  obtain kp where kp: "create_process ?k r = Ok (0, r\<lparr>sc_processes := (sc_processes r)[0 := Some kp]\<rparr>)"
    "sched_inv (r\<lparr>sc_processes := (sc_processes r)[0 := Some kp]\<rparr>)"
    using create_process_ok [OF r(1), of 0 ?k] r(2) first_free_tables(1) by auto
  define st1 where "st1 = r\<lparr>sc_processes := (sc_processes r)[0 := Some kp]\<rparr>"
  have ff: "first_free (sc_processes st1) = Some 1"
    using first_free_tables(2) [of kp] by (simp add: st1_def r(2) del: One_nat_def)
  obtain up where up: "create_process ?u st1 = Ok (1, st1\<lparr>sc_processes := (sc_processes st1)[1 := Some up]\<rparr>)"
    "process_inv up" "pc_waiting_thread up = None" "pc_env up = environment_new"
    "sched_inv (st1\<lparr>sc_processes := (sc_processes st1)[1 := Some up]\<rparr>)"
    using create_process_ok [OF kp(2) [folded st1_def] ff, of ?u] by blast
  define st2 where "st2 = st1\<lparr>sc_processes := (sc_processes st1)[1 := Some up]\<rparr>"
  obtain env where env: "env_set PATH_KEY PATH_VALUE environment_new = Ok env" "env_inv env" using path_env_ok by blast
  have up2: "process_at st2 1 up" using r(2) lens by (simp add: st2_def st1_def)
  define st3 where "st3 = st2\<lparr>sc_processes := (sc_processes st2)[1 := Some (up\<lparr>pc_env := env\<rparr>)]\<rparr>"
  have s3: "set_process_env 1 PATH_KEY PATH_VALUE st2 = Ok st3"
    using up2 env(1) up(4) by (simp add: set_process_env_def st3_def)
  have inv3: "sched_inv st3"
    unfolding st3_def using up2 up(2,3,5) env(2)
    by (intro update_process_inv [of st2 1 up]) (auto simp: st2_def process_inv_def)
  have th3: "sc_threads st3 = replicate MAX_THREADS None" "sc_current_thread st3 = None"
    and pat: "process_at st3 0 kp" "process_at st3 1 (up\<lparr>pc_env := env\<rparr>)"
    using r lens by (auto simp: st3_def st2_def st1_def)
  obtain x1 t1 m1 where c4: "try_create_thread img ''terminal'' 0 (KernelStart terminal_entry) st3 =
      (Some 0, st3\<lparr>sc_threads := (sc_threads st3)[0 := Some (thread_new 0 ''terminal'' 0 (KernelStart terminal_entry) x1 t1)], sc_memory := m1\<rparr>)"
    using try_create_thread_ok [of st3 0] th3(1) first_free_tables(3) by metis
  define ta where "ta = thread_new 0 ''terminal'' 0 (KernelStart terminal_entry) x1 t1"
  define st4 where "st4 = st3\<lparr>sc_threads := (sc_threads st3)[0 := Some ta], sc_memory := m1\<rparr>"
  have inv4: "sched_inv st4"
    unfolding st4_def ta_def
    by (rule add_thread_inv [OF inv3 _ pat(1)]) (simp_all add: th3(1) first_free_tables(3))
  let ?us = "UserStart \<lparr>us_entry_point = lp_entry_point program, us_user_stack_top = lp_user_stack_top program\<rparr>"
  have th4: "sc_threads st4 = (replicate MAX_THREADS None)[0 := Some ta]" by (simp add: st4_def th3)
  obtain x2 t2 m2 where c5: "try_create_thread img ''user-bootstrap-main'' 1 ?us st4 =
      (Some 1, st4\<lparr>sc_threads := (sc_threads st4)[1 := Some (thread_new 1 ''user-bootstrap-main'' 1 ?us x2 t2)], sc_memory := m2\<rparr>)"
    using try_create_thread_ok [of st4 1] th4 first_free_tables(4) by metis
  define tb where "tb = thread_new 1 ''user-bootstrap-main'' 1 ?us x2 t2"
  define st5 where "st5 = st4\<lparr>sc_threads := (sc_threads st4)[1 := Some tb], sc_memory := m2\<rparr>"
  have pat4: "process_at st4 1 (up\<lparr>pc_env := env\<rparr>)" using pat(2) by (simp add: st4_def)
  have inv5: "sched_inv st5"
    unfolding st5_def tb_def
    by (rule add_thread_inv [OF inv4 _ pat4])
      (use th4 first_free_tables(4) in \<open>auto simp: ta_def thread_new_def split: if_splits\<close>)
  have th5: "sc_threads st5 = (replicate MAX_THREADS None)[0 := Some ta, Suc 0 := Some tb]" by (simp add: st5_def th4)
  obtain x3 t3 m3 where c6: "try_create_thread img ''idle'' 0 (KernelStart idle_entry) st5 =
      (Some 2, st5\<lparr>sc_threads := (sc_threads st5)[2 := Some (thread_new 2 ''idle'' 0 (KernelStart idle_entry) x3 t3)], sc_memory := m3\<rparr>)"
    using try_create_thread_ok [of st5 2] th5 first_free_tables(5) by metis
  define tc where "tc = thread_new 2 ''idle'' 0 (KernelStart idle_entry) x3 t3"
  define st6 where "st6 = st5\<lparr>sc_threads := (sc_threads st5)[2 := Some tc], sc_memory := m3\<rparr>"
  have pat5: "process_at st5 0 kp" using pat(1) by (simp add: st5_def st4_def)
  have inv6: "sched_inv st6"
    unfolding st6_def tc_def
    by (rule add_thread_inv [OF inv5 _ pat5])
      (use th5 first_free_tables(5) in \<open>auto simp: ta_def tb_def thread_new_def is_user_def split: if_splits\<close>)
  have at6: "thread_at st6 0 ta" "thread_at st6 2 tc" "sc_current_thread st6 = None"
    using lens th3 by (auto simp: st6_def st5_def st4_def)
  have tcf: "th_state tc \<noteq> Blocked" "\<not> is_user tc" by (simp_all add: tc_def thread_new_def is_user_def)
  have inv7: "sched_inv (mark_idle_thread 2 st6)"
    using inv6 at6(2) tcf unfolding sched_inv_def mark_idle_thread_def by simp blast
  have "eligible (mark_idle_thread 2 st6) 0"
    using at6(1) by (auto simp: eligible_def mark_idle_thread_def is_ready_def ta_def thread_new_def)
  from sched_start_ok [OF inv7 _ this] at6(3) obtain a st where
    fin: "sched_start (mark_idle_thread 2 st6) = Ok (Some a, st)" "sched_inv st" "sc_idle_thread st = Some 2"
      "sc_current_thread st = Some (ta_thread_id a)"
    by (auto simp: mark_idle_thread_def)
  have "boot_scheduler img kernel_space endpoint program terminal_entry idle_entry st0 = Ok (Some a, st)"
    unfolding boot_scheduler_def r_def [symmetric]
    by (simp add: kp(1) st1_def [symmetric] up(1) st2_def [symmetric] s3 create_kernel_thread_def
        create_user_thread_def c4 ta_def [symmetric] st4_def [symmetric] c5 tb_def [symmetric] st5_def [symmetric]
        c6 tc_def [symmetric] st6_def [symmetric] fin(1) del: One_nat_def)
  with fin show ?thesis by auto
qed

section \<open>Steps\<close>

text \<open>What can happen between two context switches: the current thread yields; a current user thread
  spawns a child and blocks on it, exits, finds its wait result, or changes its environment.\<close>

inductive sched_step :: "kernel_image \<Rightarrow> scheduler_state \<Rightarrow> scheduler_state \<Rightarrow> bool" for img where
  yield: "yield_now st = Ok (r, st') \<Longrightarrow> sched_step img st st'"
| spawn: "sc_current_thread st = Some c \<Longrightarrow> thread_at st c t \<Longrightarrow> is_user t \<Longrightarrow>
    spawn_and_block img c program silent st = Ok (r, st') \<Longrightarrow> sched_step img st st'"
| exit: "sc_current_thread st = Some c \<Longrightarrow> thread_at st c t \<Longrightarrow> is_user t \<Longrightarrow>
    prepare_exit_current_process status st = Ok (Some (Switch sw), st') \<Longrightarrow> sched_step img st st'"
| resume: "resume_wait st = Ok (r, st') \<Longrightarrow> sched_step img st st'"
| setenv: "utf8_valid key \<Longrightarrow> utf8_valid value \<Longrightarrow> set_process_env pid key value st = Ok st' \<Longrightarrow>
    sched_step img st st'"

definition live_inv :: "scheduler_state \<Rightarrow> bool" where
  "live_inv st \<longleftrightarrow> sched_inv st \<and> sc_idle_thread st \<noteq> None \<and> sc_current_thread st \<noteq> None"

lemma relabel_thread_inv:
  assumes inv: "sched_inv st" and t: "thread_at st i t"
    and same: "th_id t' = th_id t" "th_process_id t' = th_process_id t" "th_start t' = th_start t"
      "th_state t' = th_state t" "th_block_reason t' = th_block_reason t"
  shows "sched_inv (st\<lparr>sc_threads := (sc_threads st)[i := Some t']\<rparr>)"
proof -
  note D = sched_invD [OF inv]
  have ib: "i < length (sc_threads st)" using t by (auto dest: slot_at_bound)
  have u: "is_user t' = is_user t" using same by (simp add: is_user_def)
  have frame: "sc_threads (st\<lparr>sc_threads := (sc_threads st)[i := Some t']\<rparr>) = (sc_threads st)[i := Some t']"
    "sc_processes (st\<lparr>sc_threads := (sc_threads st)[i := Some t']\<rparr>) = sc_processes st"
    "sc_idle_thread (st\<lparr>sc_threads := (sc_threads st)[i := Some t']\<rparr>) = sc_idle_thread st"
    "sc_current_thread (st\<lparr>sc_threads := (sc_threads st)[i := Some t']\<rparr>) = sc_current_thread st" by simp_all
  have at: "slot_at ((sc_threads st)[i := Some t']) j x \<longleftrightarrow> (if j = i then x = t' else thread_at st j x)" for j x
    using ib by auto
  have tu: "thread_at st i x \<Longrightarrow> x = t" for x using t by (auto dest: slot_at_unique)
  show ?thesis
  proof (rule sched_invI, unfold frame at)
    fix j k x y assume "if j = i then x = t' else thread_at st j x" "if k = i then y = t' else thread_at st k y"
      "is_user x" "th_process_id y = th_process_id x"
    then show "j = k" using D(7) [of j _ k] t same(2) u by (auto split: if_splits)
  next
    fix j assume "sc_idle_thread st = Some j"
    then show "\<exists>x. (if j = i then x = t' else thread_at st j x) \<and> th_state x \<noteq> Blocked \<and> \<not> is_user x"
      using D(6) [of j] tu same(4) u by (cases "j = i") auto
  next
    fix k p w assume "process_at st k p" "pc_waiting_thread p = Some w"
    then show "\<exists>x. (if w = i then x = t' else thread_at st w x) \<and> th_state x = Blocked \<and> th_block_reason x = WaitingForChild k"
      using D(10) [of k p w] tu same(4,5) by (cases "w = i") auto
  next
    fix j x assume "if j = i then x = t' else thread_at st j x" "th_state x = Blocked"
    then show "\<exists>c p. th_block_reason x = WaitingForChild c \<and> process_at st c p \<and> pc_waiting_thread p = Some j"
      using D(11) [of j] t same(4,5) by (auto split: if_splits)
  next
    fix j x assume "if j = i then x = t' else thread_at st j x"
    then show "th_id x = j" "\<exists>p. process_at st (th_process_id x) p" "th_state x = Running \<longleftrightarrow> sc_current_thread st = Some j"
      using D(3,4,8) [of j] t same by (auto split: if_splits)
  qed (use D in auto)
qed

lemma exit_outcome:
  assumes live: "live_inv st" and c: "sc_current_thread st = Some c" "thread_at st c tc" "is_user tc"
  shows "(\<exists>pages st'. prepare_exit_current_process status st = Ok (Some (Shutdown pages), st')) \<or>
         (\<exists>sw st'. prepare_exit_current_process status st = Ok (Some (Switch sw), st') \<and> live_inv st')"
proof -
  have inv: "sched_inv st" using live by (simp add: live_inv_def)
  note D = sched_invD [OF inv]
  obtain p where p: "process_at st (th_process_id tc) p" using D(4) [OF c(2)] by blast
  show ?thesis
  proof (cases "pc_exit_action p")
    case ShutdownSystem
    have "th_process_id tc < length (sc_processes st)" "sc_processes st ! th_process_id tc = Some p"
      using p by (simp_all add: slot_at_def)
    then have "prepare_exit_current_process status st \<noteq> Panic \<and>
        (\<exists>pages st'. prepare_exit_current_process status st = Ok (Some (Shutdown pages), st'))"
      using c p ShutdownSystem
      by (simp add: prepare_exit_current_process_def Let_def process_take_waiting_thread_def
          process_take_owned_pages_def process_mark_exited_def sched_process_def)
    then show ?thesis by blast
  next
    case Continue
    define st2 where "st2 = reaped c (th_process_id tc) (pc_waiting_thread p) status st"
    have inv2: "sched_inv (st2\<lparr>sc_current_thread := None\<rparr>)"
      unfolding st2_def by (rule reaped_inv [OF inv c p])
    note D2 = sched_invD [OF inv2, simplified]
    obtain idle where idle: "sc_idle_thread st = Some idle" using live by (auto simp: live_inv_def)
    have idle2: "sc_idle_thread st2 = Some idle" using idle by (simp add: st2_def reaped_def)
    obtain ti where ti: "thread_at st2 idle ti" "th_state ti \<noteq> Blocked" using D2(6) idle2 by blast
    have ids2: "ids_ok st2" using D2(3) by (simp add: ids_ok_def)
    have "\<exists>n tn. (case pc_waiting_thread p of Some w \<Rightarrow> Ok (Some w) | None \<Rightarrow> next_runnable_thread st2 (Some c)) = Ok (Some n) \<and>
        thread_at st2 n tn \<and> th_state tn = Runnable"
    proof (cases "pc_waiting_thread p")
      case None
      obtain r where r: "next_runnable_thread st2 (Some c) = Ok r"
        "\<forall>n. r = Some n \<longrightarrow> (\<exists>t. thread_at st2 n t \<and> is_ready t)"
        using next_runnable_ready [OF ids2, of "Some c"] idle2 ti(1) by auto
      have "is_ready ti" using ti(2) by (cases "th_state ti") (auto simp: is_ready_def)
      then have "r \<noteq> None"
        using r(1) ti(1) idle2 by (auto simp: next_runnable_thread_def split: if_splits)
      then obtain n t where "r = Some n" "thread_at st2 n t" "is_ready t" using r(2) by auto
      moreover from this have "th_state t = Runnable" using D2(8) by (auto simp: is_ready_def)
      ultimately show ?thesis using None r(1) by auto
    next
      case (Some w)
      obtain t where t: "thread_at st w t" "th_state t = Blocked" using D(10) [OF p Some] by blast
      have "w \<noteq> c" using D(8) [OF t(1)] t(2) c(1) by auto
      with t Some have "thread_at st2 w (thread_wake (thread_set_wait_result status t))"
        by (simp add: st2_def reaped_def slot_at_bound) (simp add: slot_at_def)
      with Some show ?thesis by (auto simp: thread_wake_def)
    qed
    then obtain n tn where n: "(case pc_waiting_thread p of Some w \<Rightarrow> Ok (Some w) | None \<Rightarrow> next_runnable_thread st2 (Some c)) = Ok (Some n)"
      "thread_at st2 n tn" "th_state tn = Runnable" by blast
    from exit_eq [OF inv c p Continue, of status n tn] n idle2 show ?thesis
      unfolding st2_def [symmetric] live_inv_def by auto
  qed
qed

lemma step_live:
  assumes "sched_step img st st'" "live_inv st"
  shows "live_inv st'"
  using assms
proof (induction rule: sched_step.induct)
  case (yield st r st')
  then obtain c where c: "sc_current_thread st = Some c" and inv: "sched_inv st" by (auto simp: live_inv_def)
  from yield_cases [OF inv c] yield show ?case by (auto simp: live_inv_def)
next
  case (spawn st c t program silent r st')
  then have inv: "sched_inv st" by (simp add: live_inv_def)
  obtain p where p: "process_at st (th_process_id t) p" using sched_invD(4) [OF inv] spawn(2) by blast
  from spawn_and_block_cases [OF inv spawn(1-3) p, of img program silent]
  consider "spawn_and_block img c program silent st = Ok (Inr program, st)"
    | sw st2 where "spawn_and_block img c program silent st = Ok (Inl (Some sw), st2)" "sched_inv st2"
      "sc_idle_thread st2 = sc_idle_thread st" "sc_current_thread st2 = Some (sw_next sw)" by blast
  then show ?case using spawn(4,5) by cases (auto simp: live_inv_def)
next
  case (exit st c t status sw st')
  with exit_outcome [of st c t status] show ?case by auto
next
  case (resume st r st')
  then obtain c where c: "sc_current_thread st = Some c" and inv: "sched_inv st" by (auto simp: live_inv_def)
  obtain t where t: "thread_at st c t" using sched_invD(9) [OF inv c] by blast
  have "st' = st\<lparr>sc_threads := (sc_threads st)[c := Some (t\<lparr>th_wait_result := None\<rparr>)]\<rparr>"
    using resume(1) c t by (simp add: resume_wait_def thread_take_wait_result_def)
  moreover have "sched_inv (st\<lparr>sc_threads := (sc_threads st)[c := Some (t\<lparr>th_wait_result := None\<rparr>)]\<rparr>)"
    by (rule relabel_thread_inv [OF inv t]) simp_all
  ultimately show ?case using resume(2) by (simp add: live_inv_def)
next
  case (setenv key val pid st st')
  then have inv: "sched_inv st" by (simp add: live_inv_def)
  obtain p env where p: "sched_process st pid = Ok p" "env_set key val (pc_env p) = Ok env"
    "st' = st\<lparr>sc_processes := (sc_processes st)[pid := Some (p\<lparr>pc_env := env\<rparr>)]\<rparr>"
    using setenv(3) by (auto simp: set_process_env_def split: outcome.splits) (metis map_err.simps outcome.exhaust outcome.distinct outcome.inject(1))
  then have at: "process_at st pid p"
    by (auto simp: sched_process_def slot_at_def index_def expect_def split: if_splits option.splits)
  have pinv: "process_inv p" using sched_invD(5) [OF inv at] .
  have "env_inv env"
    using env_apply_spec [of "pc_env p" "EnvSet key val"] p(2) pinv setenv(1,2) by (simp add: process_inv_def)
  then have "process_inv (p\<lparr>pc_env := env\<rparr>)" using pinv by (simp add: process_inv_def)
  from update_process_inv [OF inv at this] setenv(4) p(3) show ?case by (simp add: live_inv_def)
qed

section \<open>Fairness\<close>

fun yield_times :: "nat \<Rightarrow> scheduler_state \<Rightarrow> scheduler_state sched" where
  "yield_times 0 st = Ok st"
| "yield_times (Suc m) st = and_then (yield_now st) (\<lambda>(_, st'). yield_times m st')"

lemma ring_after_nth: "i < n \<Longrightarrow> ring_after n c ! i = (c + 1 + i) mod n"
  by (simp add: ring_after_def mod_simps)

lemma length_ring_after [simp]: "length (ring_after n c) = n"
  by (simp add: ring_after_def)

text \<open>Position \<open>i\<close> of the ring after \<open>c\<close> is closer to the ring's start seen from any earlier position.\<close>

lemma ring_closer:
  assumes "j < i" "i < n"
  shows "ring_after n (ring_after n c ! j) ! (i - j - 1) = ring_after n c ! i"
proof -
  obtain d where d: "i = Suc (j + d)" using assms(1) by (auto dest: less_imp_Suc_add)
  have "ring_after n (ring_after n c ! j) ! d = (ring_after n c ! j + 1 + d) mod n"
    using assms(2) d by (intro ring_after_nth) linarith
  also have "\<dots> = ((c + 1 + j) mod n + (1 + d)) mod n"
    using assms d by (simp add: ring_after_nth)
  also have "\<dots> = ((c + 1 + j) + (1 + d)) mod n" by (rule mod_add_left_eq)
  also have "(c + 1 + j) + (1 + d) = c + 1 + i" using d by simp
  finally show ?thesis using ring_after_nth [OF assms(2), of c] d by simp
qed

lemma round_robin:
  assumes "sched_inv st" "sc_current_thread st = Some c" "eligible st (ring_after MAX_THREADS c ! i)"
    "i < MAX_THREADS - 1"
  shows "\<exists>m st'. m \<le> i + 1 \<and> yield_times m st = Ok st' \<and>
           sc_current_thread st' = Some (ring_after MAX_THREADS c ! i)"
  using assms
proof (induction i arbitrary: st c rule: less_induct)
  case (less i)
  note inv = less.prems(1) and cur = less.prems(2)
  note D = sched_invD [OF inv]
  let ?N = MAX_THREADS and ?k = "ring_after MAX_THREADS c ! i"
  obtain tc where tc: "thread_at st c tc" using D(9) [OF cur] by blast
  have cN: "c < ?N" using tc D(2) by (auto dest: slot_at_bound)
  have iN: "i < ?N" using less.prems(4) by simp
  have "find (eligible st) (ring_after ?N c) \<noteq> None"
    using less.prems(3) iN by (auto simp: find_None_iff in_set_conv_nth)
  then obtain n where "find (eligible st) (ring_after ?N c) = Some n" by auto
  then obtain j where j: "j < ?N" "ring_after ?N c ! j = n" "eligible st n"
    "\<forall>l < j. \<not> eligible st (ring_after ?N c ! l)"
    by (auto simp: find_Some_iff)
  have ji: "j \<le> i" using j(4) less.prems(3) by (meson not_le)
  have nc: "n \<noteq> c"
  proof
    assume "n = c"
    then have "(c + (1 + j)) mod ?N = (c + 0) mod ?N" using j(1,2) cN by (simp add: ring_after_nth)
    with ring_slot_neq [of "1 + j" ?N 0 c] ji less.prems(4) show False by simp
  qed
  have nr: "next_runnable_thread st (Some c) = Ok (Some n)"
    using next_non_idle_find [OF sched_inv_ids [OF inv], of c] \<open>find _ _ = Some n\<close> D(2)
    by (simp add: next_runnable_thread_def)
  from yield_cases [OF inv cur] nr nc obtain tn sw st' where
    y: "thread_at st n tn" "yield_now st = Ok (Some sw, st')" "sched_inv st'" "sc_current_thread st' = Some n"
      "st' = st\<lparr>sc_threads := (sc_threads st)[c := Some ((the (sc_threads st ! c))\<lparr>th_state := Runnable\<rparr>),
               n := Some (tn\<lparr>th_state := Running\<rparr>)], sc_current_thread := Some n\<rparr>"
    by auto
  show ?case
  proof (cases "j = i")
    case True
    with y(2,4) j(2) show ?thesis by (intro exI [of _ 1] exI [of _ st']) auto
  next
    case False
    with ji have lt: "j < i" by simp
    have same: "ring_after ?N n ! (i - j - 1) = ?k" using ring_closer [OF lt iN, of c] j(2) by simp
    have tcb: "c < length (sc_threads st)" "n < length (sc_threads st)" using tc y(1) by (auto dest: slot_at_bound)
    have "eligible st' ?k"
      using less.prems(3) tcb nc unfolding eligible_def y(5)
      by (cases "?k = c"; cases "?k = n") (auto simp: is_ready_def)
    then have el: "eligible st' (ring_after ?N n ! (i - j - 1))" by (simp only: same)
    have small: "i - j - 1 < i" "i - j - 1 < ?N - 1" using lt less.prems(4) by linarith+
    from less.IH [OF small(1) y(3,4) el small(2)] obtain m st'' where
      m: "m \<le> i - j - 1 + 1" "yield_times m st' = Ok st''" "sc_current_thread st'' = Some ?k"
      unfolding same by blast
    have "Suc m \<le> i + 1" using m(1) lt by linarith
    with m(2,3) y(2) show ?thesis by (intro exI [of _ "Suc m"] exI [of _ st'']) auto
  qed
qed

section \<open>Properties\<close>

definition sample_image :: kernel_image where
  "sample_image = \<lparr>ki_stack_end = (\<lambda>slot. 0x200000 + of_nat slot * 0x10000), ki_trampoline = 0x100000\<rparr>"

definition sample_program :: loaded_user_program where
  "sample_program = \<lparr>lp_address_space = \<lparr>as_root_paddr = 0x1000000\<rparr>, lp_entry_point = 0x400000,
     lp_user_stack_top = 0x7fff00, lp_owned_pages = owned_pages_empty\<rparr>"

text \<open>A parent blocked on its running child.\<close>

definition sample_waiting :: scheduler_state where
  "sample_waiting =
     \<lparr>sc_processes = (replicate MAX_PROCESSES None)
        [0 := Some (process_new 0 ''parent'' \<lparr>as_root_paddr = 0\<rparr> owned_pages_empty Continue),
         1 := Some ((process_new 1 ''child'' \<lparr>as_root_paddr = 0\<rparr> owned_pages_empty Continue)\<lparr>pc_waiting_thread := Some 0\<rparr>)],
      sc_threads = (replicate MAX_THREADS None)
        [0 := Some ((thread_new 0 ''parent'' 0 (UserStart \<lparr>us_entry_point = 0, us_user_stack_top = 0\<rparr>) thread_context_zeroed 0)
                     \<lparr>th_state := Blocked, th_block_reason := WaitingForChild 1\<rparr>),
         1 := Some ((thread_new 1 ''child'' 1 (UserStart \<lparr>us_entry_point = 0, us_user_stack_top = 0\<rparr>) thread_context_zeroed 0)
                     \<lparr>th_state := Running\<rparr>)],
      sc_memory = (\<lambda>_. 0), sc_current_thread = Some 1, sc_idle_thread = None\<rparr>"

lemma sample_waiting_slots:
  "process_at sample_waiting i p \<longleftrightarrow>
     (i = 0 \<and> p = process_new 0 ''parent'' \<lparr>as_root_paddr = 0\<rparr> owned_pages_empty Continue) \<or>
     (i = 1 \<and> p = (process_new 1 ''child'' \<lparr>as_root_paddr = 0\<rparr> owned_pages_empty Continue)\<lparr>pc_waiting_thread := Some 0\<rparr>)"
  "thread_at sample_waiting i t \<longleftrightarrow>
     (i = 0 \<and> t = (thread_new 0 ''parent'' 0 (UserStart \<lparr>us_entry_point = 0, us_user_stack_top = 0\<rparr>) thread_context_zeroed 0)
                     \<lparr>th_state := Blocked, th_block_reason := WaitingForChild 1\<rparr>) \<or>
     (i = 1 \<and> t = (thread_new 1 ''child'' 1 (UserStart \<lparr>us_entry_point = 0, us_user_stack_top = 0\<rparr>) thread_context_zeroed 0)
                     \<lparr>th_state := Running\<rparr>)"
  by (auto simp: sample_waiting_def MAX_PROCESSES_def MAX_THREADS_def)

lemma sample_waiting_inv: "sched_inv sample_waiting"
proof (rule sched_invI)
  fix k p assume "process_at sample_waiting k p"
  then show "process_inv p"
    using process_new_inv by (auto simp: sample_waiting_slots process_inv_def)
qed (auto simp: sample_waiting_slots, auto simp: sample_waiting_def thread_new_def process_new_def)

text \<open>C11. From boot on, whatever the threads do (yield, spawn and wait, exit, change their environment),
  exactly one thread is running, it is the current one, every thread belongs to a live process,
  every blocked thread waits for a live child that knows it, and no scheduler call panics or
  leaves the machine without a next thread.\<close>

theorem scheduler_safe:
  assumes "boot_scheduler img kernel_space endpoint program terminal_entry idle_entry st0 = Ok (Some a, st1)"
    "(sched_step img)\<^sup>*\<^sup>* st1 st"
  shows "sched_inv st \<and> (\<exists>!i. \<exists>t. thread_at st i t \<and> th_state t = Running) \<and>
         (\<exists>r st'. yield_now st = Ok (r, st')) \<and>
         (\<forall>c t. sc_current_thread st = Some c \<and> thread_at st c t \<and> is_user t \<longrightarrow>
            (\<forall>status. \<exists>e st'. prepare_exit_current_process status st = Ok (Some e, st')) \<and>
            (\<forall>prog silent. \<exists>r st'. spawn_and_block img c prog silent st = Ok (r, st') \<and> r \<noteq> Inl None))"
proof -
  have "live_inv st1"
    using boot_ok [of img kernel_space endpoint program terminal_entry idle_entry st0] assms(1)
    by (auto simp: live_inv_def)
  with assms(2) have live: "live_inv st"
    by (induction rule: rtranclp_induct) (auto intro: step_live)
  then obtain c where c: "sc_current_thread st = Some c" and inv: "sched_inv st" by (auto simp: live_inv_def)
  note D = sched_invD [OF inv]
  have one: "\<exists>!i. \<exists>t. thread_at st i t \<and> th_state t = Running"
    using D(8,9) c by (metis option.inject)
  have y: "\<exists>r st'. yield_now st = Ok (r, st')" using yield_cases [OF inv c] by blast
  have ex: "\<exists>e st'. prepare_exit_current_process status st = Ok (Some e, st')"
    if "sc_current_thread st = Some d" "thread_at st d t" "is_user t" for d t status
    using exit_outcome [OF live that] by blast
  have sp: "\<exists>r st'. spawn_and_block img d prog silent st = Ok (r, st') \<and> r \<noteq> Inl None"
    if d: "sc_current_thread st = Some d" "thread_at st d t" "is_user t" for d t prog silent
  proof -
    obtain p where p: "process_at st (th_process_id t) p" using D(4) [OF d(2)] by blast
    show ?thesis using spawn_and_block_cases [OF inv d p, of img prog silent] by blast
  qed
  show ?thesis using inv one y ex sp by blast
qed

theorem scheduler_safe_witness:
  "\<exists>a st. boot_scheduler sample_image \<lparr>as_root_paddr = 0\<rparr> 0 sample_program 1 2 sample_waiting = Ok (Some a, st) \<and>
     sched_inv st \<and> (\<exists>!i. \<exists>t. thread_at st i t \<and> th_state t = Running) \<and>
     (\<exists>r st'. yield_now st = Ok (r, st'))"
proof -
  obtain a st where b: "boot_scheduler sample_image \<lparr>as_root_paddr = 0\<rparr> 0 sample_program 1 2 sample_waiting = Ok (Some a, st)"
    using boot_ok by blast
  from scheduler_safe [OF b rtranclp.rtrancl_refl] b show ?thesis by blast
qed

text \<open>C14. When a child exits, the scheduler switches straight to the thread that waits for it and that
  thread's wait returns exactly the child's exit status; the child's thread and process slots are
  free again and its pages are handed back for release.\<close>

theorem exit_wakes_parent:
  assumes "sched_inv st" "sc_current_thread st = Some c" "thread_at st c tc" "is_user tc"
    "process_at st (th_process_id tc) p" "pc_exit_action p = Continue" "pc_waiting_thread p = Some w"
  shows "\<exists>sw st' st''. prepare_exit_current_process status st = Ok (Some (Switch sw), st') \<and>
           ex_next sw = w \<and> ex_released_pages sw = pc_owned_pages p \<and> sched_inv st' \<and>
           sc_current_thread st' = Some w \<and> sc_threads st' ! c = None \<and>
           sc_processes st' ! th_process_id tc = None \<and>
           resume_wait st' = Ok (Some status, st'')"
proof -
  note D = sched_invD [OF assms(1)]
  obtain t where t: "thread_at st w t" "th_state t = Blocked" using D(10) [OF assms(5,7)] by blast
  have wc: "w \<noteq> c" using D(8) [OF t(1)] t(2) assms(2) by auto
  define st2 where "st2 = reaped c (th_process_id tc) (pc_waiting_thread p) status st"
  define tn where "tn = thread_wake (thread_set_wait_result status t)"
  have b: "c < length (sc_threads st)" "w < length (sc_threads st)" "th_process_id tc < length (sc_processes st)"
    using assms(3,5) t(1) by (auto dest: slot_at_bound)
  have "the (sc_threads st ! w) = t" using t(1) by (simp add: slot_at_def)
  then have tn: "thread_at st2 w tn" "th_state tn = Runnable" "th_wait_result tn = Some status"
    using assms(7) b by (simp_all add: st2_def reaped_def tn_def thread_wake_def thread_set_wait_result_def)
  obtain sw where sw: "prepare_exit_current_process status st =
      Ok (Some (Switch sw), st2\<lparr>sc_threads := (sc_threads st2)[w := Some (tn\<lparr>th_state := Running\<rparr>)], sc_current_thread := Some w\<rparr>)"
      "ex_next sw = w" "ex_released_pages sw = pc_owned_pages p"
      "sched_inv (st2\<lparr>sc_threads := (sc_threads st2)[w := Some (tn\<lparr>th_state := Running\<rparr>)], sc_current_thread := Some w\<rparr>)"
    using exit_eq [OF assms(1-6), of status w tn] assms(7) tn(1,2) by (auto simp: st2_def)
  let ?st = "st2\<lparr>sc_threads := (sc_threads st2)[w := Some (tn\<lparr>th_state := Running\<rparr>)], sc_current_thread := Some w\<rparr>"
  have "thread_at ?st w (tn\<lparr>th_state := Running\<rparr>)" using tn(1) by (simp add: slot_at_bound)
  then have "\<exists>st''. resume_wait ?st = Ok (Some status, st'')"
    using tn(3) by (simp add: resume_wait_def thread_take_wait_result_def)
  moreover have "sc_threads ?st ! c = None" "sc_processes ?st ! th_process_id tc = None"
    using assms(7) wc b by (simp_all add: st2_def reaped_def)
  ultimately show ?thesis using sw by fastforce
qed

theorem exit_wakes_parent_witness:
  "\<exists>sw st' st''. prepare_exit_current_process 7 sample_waiting = Ok (Some (Switch sw), st') \<and>
     ex_next sw = 0 \<and> resume_wait st' = Ok (Some 7, st'')"
proof -
  have "sc_current_thread sample_waiting = Some 1" by (simp add: sample_waiting_def)
  moreover have "\<exists>tc. thread_at sample_waiting 1 tc \<and> is_user tc \<and> th_process_id tc = 1"
    by (simp add: sample_waiting_slots is_user_def thread_new_def)
  moreover have "\<exists>p. process_at sample_waiting 1 p \<and> pc_exit_action p = Continue \<and> pc_waiting_thread p = Some 0"
    by (simp add: sample_waiting_slots process_new_def)
  ultimately show ?thesis
    using exit_wakes_parent [OF sample_waiting_inv, where status = 7] by metis
qed



end
