(* ===== verification/Pci.thy ===== *)
theory Pci
  imports Lazers_Prelude
begin

text \<open>
  PCI device discovery, \<^verbatim>\<open>kernel/kernel/src/pci.rs\<close>. The configuration space behind the two I/O ports
  is a parameter: a function from the value written to the address port to the value the data port
  answers. A configuration write is modelled by the pair of values sent to the two ports.
\<close>

section \<open>The code\<close>

definition CLASS_MASS_STORAGE :: u8 where "CLASS_MASS_STORAGE = 0x01"
definition SUBCLASS_SATA :: u8 where "SUBCLASS_SATA = 0x06"
definition PROG_IF_AHCI :: u8 where "PROG_IF_AHCI = 0x01"
definition PCI_COMMAND_OFFSET :: u8 where "PCI_COMMAND_OFFSET = 0x04"
definition PCI_CLASS_OFFSET :: u8 where "PCI_CLASS_OFFSET = 0x08"
definition PCI_HEADER_TYPE_OFFSET :: u8 where "PCI_HEADER_TYPE_OFFSET = 0x0c"
definition PCI_BAR5_OFFSET :: u8 where "PCI_BAR5_OFFSET = 0x24"
definition PCI_COMMAND_MEMORY_SPACE :: u16 where "PCI_COMMAND_MEMORY_SPACE = push_bit 1 1"
definition PCI_COMMAND_BUS_MASTER :: u16 where "PCI_COMMAND_BUS_MASTER = push_bit 2 1"

record pci_location =
  pl_bus :: u8
  pl_slot :: u8
  pl_function :: u8

record ahci_controller_info =
  ac_location :: pci_location
  ac_abar :: u64

type_synonym pci_config = "u32 \<Rightarrow> u32"

definition pci_config_address :: "pci_location \<Rightarrow> u8 \<Rightarrow> u32" where
  "pci_config_address location offset =
     push_bit 31 1 OR push_bit 16 (ucast (pl_bus location)) OR push_bit 11 (ucast (pl_slot location)) OR
     push_bit 8 (ucast (pl_function location)) OR (ucast offset AND 0xfc)"

definition pci_read_u32 :: "pci_config \<Rightarrow> pci_location \<Rightarrow> u8 \<Rightarrow> u32" where
  "pci_read_u32 config location offset = config (pci_config_address location offset)"

definition pci_read_u8 :: "pci_config \<Rightarrow> pci_location \<Rightarrow> u8 \<Rightarrow> u8" where
  "pci_read_u8 config location offset =
     (let shift = (offset AND 0x03) * 8
      in ucast (drop_bit (unat shift) (pci_read_u32 config location (offset AND NOT 0x03)) AND 0xff))"

definition pci_read_u16 :: "pci_config \<Rightarrow> pci_location \<Rightarrow> u8 \<Rightarrow> u16" where
  "pci_read_u16 config location offset =
     (let shift = (offset AND 0x02) * 8
      in ucast (drop_bit (unat shift) (pci_read_u32 config location (offset AND NOT 0x03)) AND 0xffff))"

definition pci_write_u16 :: "pci_config \<Rightarrow> pci_location \<Rightarrow> u8 \<Rightarrow> u16 \<Rightarrow> u32 \<times> u32" where
  "pci_write_u16 config location offset v =
     (let aligned = offset AND NOT 0x03;
          shift = (offset AND 0x02) * 8;
          register = pci_read_u32 config location aligned;
          register = register AND NOT (push_bit (unat shift) 0xffff);
          register = register OR push_bit (unat shift) (ucast v)
      in (pci_config_address location aligned, register))"

text \<open>The three loops: functions of a slot, slots of a bus, buses.\<close>

function scan_functions :: "pci_config \<Rightarrow> u8 \<Rightarrow> u8 \<Rightarrow> nat \<Rightarrow> nat \<Rightarrow> ahci_controller_info option" where
  "scan_functions config bus slot f function_count =
     (if f < function_count
      then
        (let location = \<lparr>pl_bus = bus, pl_slot = slot, pl_function = of_nat f\<rparr>
         in if pci_read_u16 config location 0x00 = 0xffff
            then scan_functions config bus slot (f + 1) function_count
            else
              (let class_reg = pci_read_u32 config location PCI_CLASS_OFFSET;
                   class_code = ucast (drop_bit 24 class_reg AND 0xff) :: u8;
                   subclass = ucast (drop_bit 16 class_reg AND 0xff) :: u8;
                   prog_if = ucast (drop_bit 8 class_reg AND 0xff) :: u8;
                   abar = ucast (pci_read_u32 config location PCI_BAR5_OFFSET) AND 0xfffffff0 :: u64
               in if class_code = CLASS_MASS_STORAGE \<and> subclass = SUBCLASS_SATA \<and> prog_if = PROG_IF_AHCI \<and> abar \<noteq> 0
                  then Some \<lparr>ac_location = location, ac_abar = abar\<rparr>
                  else scan_functions config bus slot (f + 1) function_count))
      else None)"
  by pat_completeness auto
termination
  by (relation "measure (\<lambda>(c, b, s, f, n). n - f)") auto

function scan_slots :: "pci_config \<Rightarrow> u8 \<Rightarrow> nat \<Rightarrow> ahci_controller_info option" where
  "scan_slots config bus slot =
     (if slot < 32
      then
        (let location = \<lparr>pl_bus = bus, pl_slot = of_nat slot, pl_function = 0\<rparr>
         in if pci_read_u16 config location 0x00 \<noteq> 0xffff
            then
              (let header_type = pci_read_u8 config location PCI_HEADER_TYPE_OFFSET AND 0x80;
                   function_count = if header_type \<noteq> 0 then 8 else 1
               in case scan_functions config bus (of_nat slot) 0 function_count of
                    Some info \<Rightarrow> Some info
                  | None \<Rightarrow> scan_slots config bus (slot + 1))
            else scan_slots config bus (slot + 1))
      else None)"
  by pat_completeness auto
termination
  by (relation "measure (\<lambda>(c, b, s). 32 - s)") auto

function scan_buses :: "pci_config \<Rightarrow> nat \<Rightarrow> ahci_controller_info option" where
  "scan_buses config bus =
     (if bus \<le> 255
      then (case scan_slots config (of_nat bus) 0 of
              Some info \<Rightarrow> Some info
            | None \<Rightarrow> scan_buses config (bus + 1))
      else None)"
  by pat_completeness auto
termination
  by (relation "measure (\<lambda>(c, b). 256 - b)") auto

declare scan_functions.simps [simp del] scan_slots.simps [simp del] scan_buses.simps [simp del]

definition find_ahci_controller :: "pci_config \<Rightarrow> ahci_controller_info option" where
  "find_ahci_controller config = scan_buses config 0"

definition enable_memory_bus_mastering :: "pci_config \<Rightarrow> pci_location \<Rightarrow> u32 \<times> u32" where
  "enable_memory_bus_mastering config location =
     (let command = pci_read_u16 config location PCI_COMMAND_OFFSET;
          updated = command OR PCI_COMMAND_MEMORY_SPACE OR PCI_COMMAND_BUS_MASTER
      in pci_write_u16 config location PCI_COMMAND_OFFSET updated)"

section \<open>The specification\<close>

text \<open>An AHCI function, its base address, and the functions the scan visits.\<close>

definition is_ahci :: "pci_config \<Rightarrow> pci_location \<Rightarrow> bool" where
  "is_ahci config location \<longleftrightarrow>
     pci_read_u16 config location 0 \<noteq> 0xffff \<and>
     drop_bit 8 (pci_read_u32 config location PCI_CLASS_OFFSET) = 0x010601 \<and>
     pci_read_u32 config location PCI_BAR5_OFFSET AND 0xfffffff0 \<noteq> 0"

definition abar_of :: "pci_config \<Rightarrow> pci_location \<Rightarrow> u64" where
  "abar_of config location = ucast (pci_read_u32 config location PCI_BAR5_OFFSET AND 0xfffffff0)"

definition pci_at :: "nat \<Rightarrow> nat \<Rightarrow> nat \<Rightarrow> pci_location" where
  "pci_at bus slot f = \<lparr>pl_bus = of_nat bus, pl_slot = of_nat slot, pl_function = of_nat f\<rparr>"

definition visited_functions :: "pci_config \<Rightarrow> nat \<Rightarrow> nat \<Rightarrow> nat" where
  "visited_functions config bus slot =
     (if pci_read_u16 config (pci_at bus slot 0) 0 = 0xffff then 0
      else if bit (pci_read_u32 config (pci_at bus slot 0) 0x0c) 7 then 8 else 1)"

definition visited :: "pci_config \<Rightarrow> pci_location list" where
  "visited config = concat (map (\<lambda>bus. concat (map (\<lambda>slot. map (pci_at bus slot) [0..<visited_functions config bus slot]) [0..<32])) [0..<256])"

section \<open>Lemmas\<close>

lemma unat_byte: "unat (ucast (drop_bit n r AND 0xff) :: u8) = unat (r :: u32) div 2 ^ n mod 256"
proof -
  have eq: "drop_bit n r AND 0xff = take_bit 8 (drop_bit n r)"
    by (simp add: take_bit_eq_mask mask_eq_exp_minus_1)
  have u: "unat (ucast w :: u8) = unat w mod 256" for w :: u32
    by (simp add: unsigned_ucast_eq take_bit_eq_mod [where ?'a = nat])
  have t: "unat (take_bit 8 w) = unat w mod 256" for w :: u32
    by (simp add: unsigned_take_bit_eq take_bit_eq_mod [where ?'a = nat])
  have "unat r < 2 ^ 32" using unsigned_less [of r] by simp
  then have "unat (drop_bit n r) = unat r div 2 ^ n"
    by (simp add: unsigned_drop_bit_eq drop_bit_eq_div [where ?'a = nat] take_bit_nat_eq_self)
  then show ?thesis by (simp only: eq u t mod_mod_trivial)
qed

lemma class_reg_iff:
  fixes r :: u32
  shows "ucast (drop_bit 24 r AND 0xff) = CLASS_MASS_STORAGE \<and> ucast (drop_bit 16 r AND 0xff) = SUBCLASS_SATA \<and>
    ucast (drop_bit 8 r AND 0xff) = PROG_IF_AHCI \<longleftrightarrow> drop_bit 8 r = 0x010601"
proof -
  have lt: "unat r < 2 ^ 32" using unsigned_less [of r] by simp
  define q where "q = unat r div 2 ^ 8"
  have q: "unat (drop_bit 8 r) = q" "unat r div 2 ^ 16 = q div 256" "unat r div 2 ^ 24 = q div 65536" "q < 2 ^ 24"
    using lt by (simp_all add: q_def unsigned_drop_bit_eq drop_bit_eq_div [where ?'a = nat] take_bit_nat_eq_self
        div_mult2_eq [symmetric])
  have "q div 65536 mod 256 = 1 \<and> q div 256 mod 256 = 6 \<and> q mod 256 = 1 \<longleftrightarrow> q = 0x010601"
  proof
    assume b: "q div 65536 mod 256 = 1 \<and> q div 256 mod 256 = 6 \<and> q mod 256 = 1"
    have "q div 65536 = q div 256 div 256" by (simp add: div_mult2_eq [symmetric])
    moreover have "q div 65536 < 256" using q(4) by (simp add: less_mult_imp_div_less)
    ultimately have "q div 256 = 256 * 1 + 6" using b mult_div_mod_eq [of 256 "q div 256"] by simp
    then show "q = 0x010601" using b mult_div_mod_eq [of 256 q] by simp
  qed simp
  moreover have "(w = CLASS_MASS_STORAGE) = (unat w = 1)" "(w = SUBCLASS_SATA) = (unat w = 6)" "(w = PROG_IF_AHCI) = (unat w = 1)" for w
    by (simp_all add: word_unat_eq_iff CLASS_MASS_STORAGE_def SUBCLASS_SATA_def PROG_IF_AHCI_def)
  moreover have "drop_bit 8 r = 0x010601 \<longleftrightarrow> q = 0x010601" by (simp add: word_unat_eq_iff q(1))
  ultimately show ?thesis by (simp only: unat_byte q(2,3) q_def [symmetric])
qed

lemma header_bit:
  "pci_read_u8 config location PCI_HEADER_TYPE_OFFSET AND 0x80 \<noteq> 0 \<longleftrightarrow> bit (pci_read_u32 config location 0x0c) 7"
proof -
  have m: "w AND 0x80 \<noteq> 0 \<longleftrightarrow> bit w 7" for w :: u8
    using and_exp_eq_0_iff_not_bit [of w 7] by simp
  have "bit (ucast (r AND 0xff) :: u8) 7 \<longleftrightarrow> bit r 7" for r :: u32 by (simp add: bit_simps)
  then show ?thesis by (simp add: m pci_read_u8_def PCI_HEADER_TYPE_OFFSET_def Let_def)
qed

text \<open>What the scan reports for the first match in a list of functions.\<close>

definition first_ahci :: "pci_config \<Rightarrow> pci_location list \<Rightarrow> ahci_controller_info option" where
  "first_ahci config ls = map_option (\<lambda>l. \<lparr>ac_location = l, ac_abar = abar_of config l\<rparr>) (find (is_ahci config) ls)"

lemma first_ahci_simps [simp]:
  "first_ahci config [] = None"
  "first_ahci config (l # ls) =
     (if is_ahci config l then Some \<lparr>ac_location = l, ac_abar = abar_of config l\<rparr> else first_ahci config ls)"
  by (simp_all add: first_ahci_def)

lemma first_ahci_append:
  "first_ahci config (xs @ ys) = (case first_ahci config xs of Some i \<Rightarrow> Some i | None \<Rightarrow> first_ahci config ys)"
  by (induction xs) auto

lemma abar_eq: "ucast r AND 0xfffffff0 = (ucast (r AND 0xfffffff0) :: u64)" for r :: u32
  by (simp add: unsigned_and_eq)

lemma ucast_u64_zero: "ucast r = (0 :: u64) \<longleftrightarrow> r = 0" for r :: u32
proof -
  have "unat r < 2 ^ 32" using unsigned_less [of r] by simp
  then show ?thesis by (simp add: unsigned_ucast_eq word_unat_eq_iff take_bit_nat_eq_self)
qed

lemma scan_functions_spec:
  "scan_functions config (of_nat bus) (of_nat slot) f n = first_ahci config (map (pci_at bus slot) [f..<n])"
proof (induction "n - f" arbitrary: f)
  case 0
  then show ?case by (subst scan_functions.simps) simp
next
  case (Suc d)
  then have f: "f < n" by simp
  let ?l = "pci_at bus slot f"
  have IH: "scan_functions config (of_nat bus) (of_nat slot) (f + 1) n = first_ahci config (map (pci_at bus slot) [Suc f..<n])"
    using Suc.hyps(1) [of "Suc f"] Suc.hyps(2) f by simp
  have "scan_functions config (of_nat bus) (of_nat slot) f n =
      (if is_ahci config ?l then Some \<lparr>ac_location = ?l, ac_abar = abar_of config ?l\<rparr>
       else scan_functions config (of_nat bus) (of_nat slot) (f + 1) n)"
    using f unfolding is_ahci_def class_reg_iff [symmetric] abar_of_def
    by (subst scan_functions.simps) (auto simp: Let_def abar_eq ucast_u64_zero pci_at_def)
  then show ?case using f IH by (simp add: upt_conv_Cons)
qed

lemma scan_slots_spec:
  "scan_slots config (of_nat bus) slot =
     first_ahci config (concat (map (\<lambda>s. map (pci_at bus s) [0..<visited_functions config bus s]) [slot..<32]))"
proof (induction "32 - slot" arbitrary: slot)
  case 0
  then show ?case by (subst scan_slots.simps) simp
next
  case (Suc d)
  then have s: "slot < 32" by simp
  have IH: "scan_slots config (of_nat bus) (Suc slot) =
     first_ahci config (concat (map (\<lambda>s. map (pci_at bus s) [0..<visited_functions config bus s]) [Suc slot..<32]))"
    using Suc.hyps(1) [of "Suc slot"] Suc.hyps(2) s by simp
  have l: "\<lparr>pl_bus = of_nat bus, pl_slot = of_nat slot, pl_function = 0\<rparr> = pci_at bus slot 0" by (simp add: pci_at_def)
  have "scan_slots config (of_nat bus) slot =
      (case first_ahci config (map (pci_at bus slot) [0..<visited_functions config bus slot]) of
         Some i \<Rightarrow> Some i | None \<Rightarrow> scan_slots config (of_nat bus) (Suc slot))"
    using s by (subst scan_slots.simps)
      (simp add: Let_def scan_functions_spec visited_functions_def l header_bit split: option.split)
  then show ?case using s IH by (simp add: upt_conv_Cons first_ahci_append split: option.split)
qed

lemma scan_buses_spec:
  "bus \<le> 256 \<Longrightarrow> scan_buses config bus = first_ahci config (concat (map (\<lambda>b. concat (map (\<lambda>s. map (pci_at b s) [0..<visited_functions config b s]) [0..<32])) [bus..<256]))"
proof (induction "256 - bus" arbitrary: bus)
  case 0
  then show ?case by (subst scan_buses.simps) simp
next
  case (Suc d)
  then have b: "bus < 256" by simp
  have IH: "scan_buses config (Suc bus) = first_ahci config (concat (map (\<lambda>b. concat (map (\<lambda>s. map (pci_at b s) [0..<visited_functions config b s]) [0..<32])) [Suc bus..<256]))"
    using Suc.hyps(1) [of "Suc bus"] Suc.hyps(2) b by simp
  show ?case
    using b by (subst scan_buses.simps) (simp add: IH scan_slots_spec upt_conv_Cons [of bus] first_ahci_append del: upt_rec_numeral split: option.split)
qed

section \<open>Properties\<close>


text \<open>Distinct functions have distinct configuration addresses.\<close>

lemma high_bits:
  assumes "unat (w :: u8) < 2 ^ k" "k \<le> n"
  shows "\<not> bit w n"
proof -
  have "unat w < 2 ^ 8" using unsigned_less [of w] by simp
  then have "drop_bit k w = 0"
    using assms(1) by (simp add: word_unat_eq_iff unsigned_drop_bit_eq drop_bit_eq_div [where ?'a = nat] take_bit_nat_eq_self)
  then have "\<not> bit (drop_bit k w) (n - k)" by simp
  then show ?thesis using assms(2) by (simp add: bit_simps)
qed

lemma pci_config_address_fields:
  fixes l :: pci_location and off :: u8
  assumes "unat (pl_slot l) < 32" "unat (pl_function l) < 8"
  defines "a \<equiv> pci_config_address l off"
  shows "ucast (drop_bit 16 a) = pl_bus l" "ucast (drop_bit 11 a) AND 0x1f = pl_slot l" "ucast (drop_bit 8 a) AND 0x07 = pl_function l"
    "ucast a AND 0xfc = off AND 0xfc"
proof -
  have sl: "bit (pl_slot l) n \<Longrightarrow> n < 5" for n using high_bits [of "pl_slot l" 5 n] assms(1) by (cases "n < 5") auto
  have fn: "bit (pl_function l) n \<Longrightarrow> n < 3" for n using high_bits [of "pl_function l" 3 n] assms(2) by (cases "n < 3") auto
  have sm: "bit w n \<Longrightarrow> n < 8" for w :: u8 and n using bit_imp_le_length [of w n] by simp
  have m1: "bit (0x1f :: u8) n \<longleftrightarrow> n < 5" "bit (0x07 :: u8) n \<longleftrightarrow> n < 3" "bit (0xfc :: u8) n \<longleftrightarrow> 2 \<le> n \<and> n < 8"
    "bit (0xfc :: u32) n \<longleftrightarrow> 2 \<le> n \<and> n < 8" "bit (0x1f :: int) n \<longleftrightarrow> n < 5" "bit (0x07 :: int) n \<longleftrightarrow> n < 3"
    "bit (0xfc :: int) n \<longleftrightarrow> 2 \<le> n \<and> n < 8" for n
    by (auto simp: bit_numeral_rec bit_1_iff numeral_eq_Suc split: nat.split)
  have A: "bit a n \<longleftrightarrow> n = 31 \<or> 16 \<le> n \<and> n < 32 \<and> bit (pl_bus l) (n - 16) \<or> 11 \<le> n \<and> n < 32 \<and> bit (pl_slot l) (n - 11) \<or>
      8 \<le> n \<and> n < 32 \<and> bit (pl_function l) (n - 8) \<or> bit off n \<and> 2 \<le> n \<and> n < 8" for n
  proof -
    have p: "bit (push_bit 31 1 :: u32) n \<longleftrightarrow> n = 31" by (simp only: bit_push_bit_iff) (auto simp: bit_1_iff)
    have q: "bit (push_bit k (ucast w) :: u32) n \<longleftrightarrow> k \<le> n \<and> n < 32 \<and> bit w (n - k)" if "k < 32" for k and w :: u8
      using that by (auto simp: bit_push_bit_iff bit_unsigned_iff)
    have o: "bit (ucast off AND 0xfc :: u32) n \<longleftrightarrow> bit off n \<and> 2 \<le> n \<and> n < 8"
      using sm [of off n] by (auto simp: bit_and_iff bit_unsigned_iff m1)
    show ?thesis unfolding a_def pci_config_address_def by (simp only: bit_or_iff p o q numeral_less_iff rel_simps disj_assoc)
  qed
  show "ucast (drop_bit 16 a) = pl_bus l"
    by (rule bit_word_eqI) (use sm in \<open>auto simp: A bit_simps m1 dest: sl\<close>)
  show "ucast (drop_bit 11 a) AND 0x1f = pl_slot l"
    by (rule bit_word_eqI) (use sm in \<open>auto simp: A bit_simps m1 dest: sl fn\<close>)
  show "ucast (drop_bit 8 a) AND 0x07 = pl_function l"
    by (rule bit_word_eqI) (use sm in \<open>auto simp: A bit_simps m1 dest: fn\<close>)
  show "ucast a AND 0xfc = off AND 0xfc"
    by (rule bit_word_eqI) (use sm in \<open>auto simp: A bit_simps m1\<close>)
qed

lemma pci_at_address_inj:
  assumes "b < 256" "s < 32" "f < 8" "b' < 256" "s' < 32" "f' < 8" "off AND 0xfc = off" "off' AND 0xfc = off'"
    "pci_config_address (pci_at b s f) off = pci_config_address (pci_at b' s' f') off'"
  shows "b = b' \<and> s = s' \<and> f = f' \<and> off = off'"
proof -
  have u: "unat (of_nat n :: u8) = n" if "n < 256" for n
    using that by (simp add: unsigned_of_nat take_bit_nat_eq_self)
  have r: "unat (pl_slot (pci_at x y z)) < 32" "unat (pl_function (pci_at x y z)) < 8" if "y < 32" "z < 8" for x y z
    using that u [of y] u [of z] by (simp_all add: pci_at_def)
  note F = pci_config_address_fields [OF r [OF assms(2,3)], of b off] pci_config_address_fields [OF r [OF assms(5,6)], of b' off']
  have "pl_bus (pci_at b s f) = pl_bus (pci_at b' s' f')" "pl_slot (pci_at b s f) = pl_slot (pci_at b' s' f')"
    "pl_function (pci_at b s f) = pl_function (pci_at b' s' f')" "off AND 0xfc = off' AND 0xfc"
    using F assms(9) by simp_all
  then have "(of_nat b :: u8) = of_nat b'" "(of_nat s :: u8) = of_nat s'" "(of_nat f :: u8) = of_nat f'" "off = off'"
    using assms(7,8) by (simp_all add: pci_at_def)
  then have "unat (of_nat b :: u8) = unat (of_nat b' :: u8)" "unat (of_nat s :: u8) = unat (of_nat s' :: u8)"
    "unat (of_nat f :: u8) = unat (of_nat f' :: u8)" "off = off'" by simp_all
  then show ?thesis using assms(1-6) u by simp
qed

definition multi_function_config :: pci_config where
  "multi_function_config a =
     (if a = pci_config_address (pci_at 0 31 0) 0 then 0x29188086
      else if a = pci_config_address (pci_at 0 31 0) 8 then 0x06010000
      else if a = pci_config_address (pci_at 0 31 0) 0x0c then 0x00800000
      else if a = pci_config_address (pci_at 0 31 2) 0 then 0x29228086
      else if a = pci_config_address (pci_at 0 31 2) 8 then 0x01060100
      else if a = pci_config_address (pci_at 0 31 2) 0x24 then 0xfebd5000
      else 0xffffffff)"

lemma empty_slot:
  assumes "b < 256" "s < 32" "\<not> (b = 0 \<and> s = 31)"
  shows "visited_functions multi_function_config b s = 0"
proof -
  have "pci_config_address (pci_at b s 0) 0 \<noteq> pci_config_address (pci_at 0 31 f) off"
    if "f < 8" "off AND 0xfc = off" for f off
    using pci_at_address_inj [of b s 0 0 31 f 0 off] assms that by auto
  then have "pci_read_u32 multi_function_config (pci_at b s 0) 0 = 0xffffffff"
    by (simp add: pci_read_u32_def multi_function_config_def)
  then show ?thesis by (simp add: visited_functions_def pci_read_u16_def)
qed

text \<open>The header type of a PCI function is byte 14 of its configuration space, bits 16 to 23 of the
  register at offset 12; the scan reads byte 12 instead. On a bus whose only device is a
  multi-function one (header type 0x80, cache line size 0) with its AHCI controller on function 2,
  no controller is found.\<close>

theorem multi_function_controller_missed:
  "bit (pci_read_u32 multi_function_config (pci_at 0 31 0) 0x0c) 23 \<and> is_ahci multi_function_config (pci_at 0 31 2) \<and>
   abar_of multi_function_config (pci_at 0 31 2) = 0xfebd5000 \<and> find_ahci_controller multi_function_config = None"
proof -
  have v: "visited_functions multi_function_config 0 31 = 1" "\<not> is_ahci multi_function_config (pci_at 0 31 0)" by code_simp+
  have "\<not> is_ahci multi_function_config l" if m: "l \<in> set (visited multi_function_config)" for l
  proof -
    obtain b s f where l: "l = pci_at b s f" "b < 256" "s < 32" "f < visited_functions multi_function_config b s"
      using m unfolding visited_def set_concat set_map set_upt by fastforce
    with empty_slot [of b s] v have "b = 0 \<and> s = 31 \<and> f = 0" by (cases "b = 0 \<and> s = 31") auto
    with l(1) v(2) show ?thesis by simp
  qed
  then have "find_ahci_controller multi_function_config = None"
    using scan_buses_spec [of 0 multi_function_config]
    by (simp add: find_ahci_controller_def first_ahci_def find_None_iff flip: visited_def)
  moreover have "bit (pci_read_u32 multi_function_config (pci_at 0 31 0) 0x0c) 23" "is_ahci multi_function_config (pci_at 0 31 2)"
    "abar_of multi_function_config (pci_at 0 31 2) = 0xfebd5000" by code_simp+
  ultimately show ?thesis by blast
qed

end
