(* ===== verification/Gpt.thy ===== *)
theory Gpt
  imports Lzutil Kernel_Errors
begin

text \<open>
  GPT partition discovery, \<^verbatim>\<open>kernel/kernel/src/storage/gpt.rs\<close>. The disk is a parameter: a function
  from sector numbers to the outcome of \<^verbatim>\<open>BlockDevice::read_sector\<close>. \<open>sector_device\<close> names
  what the readers rely on: a successful read fills the whole 512-byte sector. The specification
  of the table scan is a filter on the list of table entries.
\<close>

section \<open>The code\<close>

definition SECTOR_SIZE :: nat where "SECTOR_SIZE = 512"

type_synonym block_device = "u64 \<Rightarrow> (bytes, storage_error) outcome"

definition GPT_HEADER_LBA :: u64 where "GPT_HEADER_LBA = 1"
definition GPT_HEADER_SIGNATURE :: bytes where
  "GPT_HEADER_SIGNATURE = [0x45, 0x46, 0x49, 0x20, 0x50, 0x41, 0x52, 0x54]"
definition EFI_SYSTEM_PARTITION_GUID :: bytes where
  "EFI_SYSTEM_PARTITION_GUID =
     [0x28, 0x73, 0x2a, 0xc1, 0x1f, 0xf8, 0xd2, 0x11, 0xba, 0x4b, 0x00, 0xa0, 0xc9, 0x3e, 0xc9, 0x3b]"

record gpt_partition =
  gp_type_guid :: bytes
  gp_start_lba :: u64
  gp_sector_count :: u64
  gp_name :: "u16 list"

type_synonym gpt_partitions = "gpt_partition option list"

definition read_partition_name :: "bytes \<Rightarrow> (u16 list, storage_error) outcome" where
  "read_partition_name entry =
     foldr (\<lambda>index rest. and_then (read_le_u16 entry (56 + index * 2)) (\<lambda>c. and_then rest (\<lambda>cs. Ok (c # cs))))
       [0..<36] (Ok [])"

text \<open>The loop over the entries of one sector; the caller has checked that an entry has at least
  128 bytes, so the offset grows.\<close>

function scan_sector ::
  "nat \<Rightarrow> bytes \<Rightarrow> nat \<Rightarrow> gpt_partitions \<times> nat \<Rightarrow> (gpt_partitions \<times> nat, storage_error) outcome" where
  "scan_sector entry_size sector offset (partitions, found) =
     (if offset + entry_size \<le> SECTOR_SIZE \<and> entry_size \<noteq> 0
      then if length partitions \<le> found then Ok (partitions, found)
           else
             and_then (slice sector offset (offset + entry_size)) (\<lambda>entry.
             and_then (slice entry 0 16) (\<lambda>guid.
             and_then
               (if \<exists>byte \<in> set guid. byte \<noteq> 0
                then
                  and_then (read_le_u64 entry 32) (\<lambda>start_lba.
                  and_then (read_le_u64 entry 40) (\<lambda>end_lba.
                    if end_lba < start_lba then Err InvalidPartitionTable
                    else
                      and_then (read_partition_name entry) (\<lambda>name.
                      and_then (store partitions found
                        (Some \<lparr>gp_type_guid = guid, gp_start_lba = start_lba,
                               gp_sector_count = (end_lba - start_lba) + 1, gp_name = name\<rparr>)) (\<lambda>partitions'.
                        Ok (partitions', found + 1)))))
                else Ok (partitions, found))
               (\<lambda>st. scan_sector entry_size sector (offset + entry_size) st)))
      else Ok (partitions, found))"
  by pat_completeness auto
termination
  by (relation "measure (\<lambda>(n, s, offset, st). SECTOR_SIZE - offset)") (auto simp: SECTOR_SIZE_def)

function scan_table ::
  "block_device \<Rightarrow> u64 \<Rightarrow> nat \<Rightarrow> nat \<Rightarrow> nat \<Rightarrow> gpt_partitions \<times> nat \<Rightarrow> (gpt_partitions \<times> nat, storage_error) outcome" where
  "scan_table device entry_lba entry_size sector_index table_sectors st =
     (if sector_index < table_sectors
      then
        and_then (device (entry_lba + of_nat sector_index)) (\<lambda>sector.
        and_then (scan_sector entry_size sector 0 st) (\<lambda>st'.
          scan_table device entry_lba entry_size (sector_index + 1) table_sectors st'))
      else Ok st)"
  by pat_completeness auto
termination
  by (relation "measure (\<lambda>(d, l, n, i, k, st). k - i)") auto

declare scan_sector.simps [simp del] scan_table.simps [simp del]

definition gpt_read :: "block_device \<Rightarrow> (gpt_partitions, storage_error) outcome" where
  "gpt_read device =
     and_then (device GPT_HEADER_LBA) (\<lambda>header.
     and_then (slice header 0 8) (\<lambda>signature.
     if signature \<noteq> GPT_HEADER_SIGNATURE then Err InvalidGptHeader
     else
       and_then (read_le_u64 header 72) (\<lambda>entry_lba.
       and_then (read_le_u32 header 80) (\<lambda>entry_count.
       and_then (read_le_u32 header 84) (\<lambda>entry_size.
       if unat entry_size < 128 then Err InvalidPartitionTable
       else
         and_then (ok_or (checked_mul (ucast entry_count :: u64) (ucast entry_size)) InvalidPartitionTable) (\<lambda>table_bytes.
         let table_sectors = align_up table_bytes (of_nat SECTOR_SIZE) div of_nat SECTOR_SIZE in
         and_then (scan_table device entry_lba (unat entry_size) 0 (unat table_sectors) (replicate 16 None, 0)) (\<lambda>(partitions, found).
           Ok partitions)))))))"

fun flatten :: "'a option list \<Rightarrow> 'a list" where
  "flatten [] = []"
| "flatten (None # xs) = flatten xs"
| "flatten (Some x # xs) = x # flatten xs"

definition find_by_type :: "gpt_partitions \<Rightarrow> bytes \<Rightarrow> gpt_partition option" where
  "find_by_type partitions type_guid = find (\<lambda>p. gp_type_guid p = type_guid) (flatten partitions)"

text \<open>\<^verbatim>\<open>name_matches\<close>: the expected name is spread into 36 UTF-16 units, then both loops compare.\<close>

fun spread_name :: "bytes \<Rightarrow> u16 list \<Rightarrow> nat \<Rightarrow> (u16 list \<times> nat) option" where
  "spread_name [] expected expected_len = Some (expected, expected_len)"
| "spread_name (byte # rest) expected expected_len =
     (if length expected \<le> expected_len then None
      else spread_name rest (expected[expected_len := ucast byte]) (expected_len + 1))"

definition name_matches :: "gpt_partition \<Rightarrow> bytes \<Rightarrow> bool" where
  "name_matches p name =
     (case spread_name name (replicate 36 0) 0 of
        None \<Rightarrow> False
      | Some (expected, expected_len) \<Rightarrow>
          (\<forall>index \<in> {0..<expected_len}. gp_name p ! index = expected ! index) \<and>
          (\<forall>index \<in> {expected_len..<length (gp_name p)}. gp_name p ! index = 0))"

definition find_by_name :: "gpt_partitions \<Rightarrow> bytes \<Rightarrow> gpt_partition option" where
  "find_by_name partitions name = find (\<lambda>p. name_matches p name) (flatten partitions)"

section \<open>The specification\<close>

definition sector_device :: "block_device \<Rightarrow> bool" where
  "sector_device device \<longleftrightarrow> (\<forall>lba. device lba \<noteq> Panic \<and> (\<forall>sector. device lba = Ok sector \<longrightarrow> length sector = SECTOR_SIZE))"

text \<open>The whole entries of a sector, the entries in use, and what an entry says.\<close>

definition sector_entries :: "nat \<Rightarrow> bytes \<Rightarrow> bytes list" where
  "sector_entries n sector = map (\<lambda>i. take n (drop (i * n) sector)) [0..<SECTOR_SIZE div n]"

definition entry_used :: "bytes \<Rightarrow> bool" where
  "entry_used entry \<longleftrightarrow> take 16 entry \<noteq> replicate 16 0"

definition entry_first :: "bytes \<Rightarrow> u64" where
  "entry_first entry = from_le_bytes (take 8 (drop 32 entry))"

definition entry_last :: "bytes \<Rightarrow> u64" where
  "entry_last entry = from_le_bytes (take 8 (drop 40 entry))"

definition entry_partition :: "bytes \<Rightarrow> gpt_partition" where
  "entry_partition entry =
     \<lparr>gp_type_guid = take 16 entry, gp_start_lba = entry_first entry,
      gp_sector_count = (entry_last entry - entry_first entry) + 1,
      gp_name = map (\<lambda>i. from_le_bytes (take 2 (drop (56 + i * 2) entry))) [0..<36]\<rparr>"

text \<open>The first \<open>room\<close> used entries are the partitions; one that ends before it starts makes the table
  invalid.\<close>

definition partition_list :: "nat \<Rightarrow> bytes list \<Rightarrow> (gpt_partition list, storage_error) outcome" where
  "partition_list room entries =
     (let used = take room (filter entry_used entries)
      in if \<exists>e \<in> set used. entry_last e < entry_first e then Err InvalidPartitionTable
         else Ok (map entry_partition used))"

section \<open>Lemmas\<close>

lemma partition_list_simps [simp]:
  "partition_list 0 es = Ok []" "partition_list room [] = Ok []"
  "partition_list (Suc room) (e # es) =
     (if \<not> entry_used e then partition_list (Suc room) es
      else if entry_last e < entry_first e then Err InvalidPartitionTable
      else and_then (partition_list room es) (\<lambda>ps. Ok (entry_partition e # ps)))"
  by (auto simp: partition_list_def Let_def)

lemma partition_list_room: "partition_list room es = Ok ps \<Longrightarrow> length ps \<le> room"
  by (auto simp: partition_list_def Let_def split: if_splits)

lemma partition_list_append:
  "partition_list room (xs @ ys) =
     and_then (partition_list room xs) (\<lambda>ps. and_then (partition_list (room - length ps) ys) (\<lambda>qs. Ok (ps @ qs)))"
proof (induction xs arbitrary: room)
  case Nil
  then show ?case by (cases "partition_list room ys") auto
next
  case (Cons e xs)
  show ?case
  proof (cases room)
    case (Suc r)
    with Cons.IH [of r] Cons.IH [of "Suc r"] show ?thesis by (simp add: and_then_assoc)
  qed simp
qed

text \<open>The table with the partitions found so far.\<close>

definition table_of :: "gpt_partition list \<Rightarrow> gpt_partitions \<times> nat" where
  "table_of ps = (map Some ps @ replicate (16 - length ps) None, length ps)"

lemma table_of_store:
  assumes "length ps < 16"
  shows "store (fst (table_of ps)) (length ps) (Some p) = Ok (fst (table_of (ps @ [p])))"
proof -
  obtain k where k: "16 - length ps = Suc k" using assms by (cases "16 - length ps") auto
  then show ?thesis using assms by (simp add: table_of_def store_def list_update_append)
qed

lemma read_partition_name_eq:
  assumes "128 \<le> length entry"
  shows "read_partition_name entry = Ok (map (\<lambda>i. from_le_bytes (take 2 (drop (56 + i * 2) entry))) [0..<36])"
proof -
  have "foldr (\<lambda>index rest. and_then (read_le_u16 entry (56 + index * 2)) (\<lambda>c. and_then rest (\<lambda>cs. Ok (c # cs)))) is (Ok []) =
      (Ok (map (\<lambda>i. from_le_bytes (take 2 (drop (56 + i * 2) entry))) is) :: (_, storage_error) outcome)"
    if "set is \<subseteq> {..<36}" for "is"
    using that by (induction "is") (use assms in auto)
  from this [of "[0..<36]"] show ?thesis unfolding read_partition_name_def by (simp add: atLeast0LessThan)
qed

lemma all_zero_iff: "length xs = n \<Longrightarrow> (\<exists>x \<in> set xs. x \<noteq> 0) \<longleftrightarrow> xs \<noteq> replicate n 0"
proof -
  assume n: "length xs = n"
  have "xs = replicate n 0 \<longleftrightarrow> (\<forall>x \<in> set xs. x = 0)"
    using n by (metis in_set_replicate replicate_eqI)
  then show ?thesis by blast
qed

lemma scan_sector_entry:
  assumes "length sector = 512" "128 \<le> n" "off + n \<le> 512" "length ps < 16"
  defines "e \<equiv> take n (drop off sector)"
  shows "scan_sector n sector off (table_of ps) =
    (if \<not> entry_used e then scan_sector n sector (off + n) (table_of ps)
     else if entry_last e < entry_first e then Err InvalidPartitionTable
     else scan_sector n sector (off + n) (table_of (ps @ [entry_partition e])))"
proof -
  have e: "length e = n" using assms by (simp add: e_def)
  have sl: "slice sector off (off + n) = (Ok e :: (_, storage_error) outcome)" using assms by (simp add: e_def)
  have lp: "\<not> length (fst (table_of ps)) \<le> length ps" using assms(4) by (simp add: table_of_def)
  have used: "(\<exists>byte \<in> set (take 16 e). byte \<noteq> 0) \<longleftrightarrow> entry_used e"
    using e assms(2) all_zero_iff [of "take 16 e" 16] by (simp add: entry_used_def)
  have rd: "read_le_u64 e 32 = (Ok (entry_first e) :: (_, storage_error) outcome)"
    "read_le_u64 e 40 = (Ok (entry_last e) :: (_, storage_error) outcome)"
    using e assms(2) by (simp_all add: entry_first_def entry_last_def)
  have nm: "read_partition_name e = Ok (gp_name (entry_partition e))"
    using read_partition_name_eq [of e] e assms(2) by (simp add: entry_partition_def)
  have st: "store (fst (table_of ps)) (length ps) (Some \<lparr>gp_type_guid = take 16 e, gp_start_lba = entry_first e,
      gp_sector_count = (entry_last e - entry_first e) + 1, gp_name = gp_name (entry_partition e)\<rparr>) =
      (Ok (fst (table_of (ps @ [entry_partition e]))) :: (_, storage_error) outcome)"
    using table_of_store [OF assms(4), of "entry_partition e"] by (simp add: entry_partition_def)
  have tp: "table_of ps = (fst (table_of ps), length ps)" for ps by (simp add: table_of_def)
  show ?thesis
    apply (subst tp)
    apply (subst scan_sector.simps)
    using sl lp used rd nm st assms(2,3) e tp [of "ps @ [entry_partition e]"] tp [of ps]
    by (simp add: SECTOR_SIZE_def)
qed

lemma scan_sector_full:
  "16 \<le> length ps \<Longrightarrow> scan_sector n sector off (table_of ps) = Ok (table_of ps)"
  unfolding table_of_def by (subst scan_sector.simps) simp

lemma scan_sector_spec:
  assumes "length sector = 512" "128 \<le> n" "k \<le> 512 div n" "length ps \<le> 16"
  shows "scan_sector n sector (k * n) (table_of ps) =
    and_then (partition_list (16 - length ps) (map (\<lambda>i. take n (drop (i * n) sector)) [k..<512 div n]))
      (\<lambda>qs. Ok (table_of (ps @ qs)))"
  using assms(3,4)
proof (induction "512 div n - k" arbitrary: k ps)
  case 0
  then have "k = 512 div n" by simp
  moreover have "\<not> 512 div n * n + n \<le> 512"
    using assms(2) by (metis add.commute div_mult_self1 le_div_geq not_less_eq_eq mult_Suc less_eq_div_iff_mult_less_eq le_refl zero_less_numeral less_le_trans)
  ultimately show ?case unfolding table_of_def by (subst scan_sector.simps) (simp add: SECTOR_SIZE_def)
next
  case (Suc d)
  then have k: "k < 512 div n" by simp
  then have le: "k * n + n \<le> 512"
    using assms(2) less_eq_div_iff_mult_less_eq [of n "Suc k" 512] by simp
  have up: "[k..<512 div n] = k # [Suc k..<512 div n]" using k by (simp add: upt_conv_Cons)
  show ?case
  proof (cases "length ps < 16")
    case False
    with Suc.prems(2) show ?thesis by (simp add: scan_sector_full)
  next
    case True
    then obtain r where r: "16 - length ps = Suc r" "15 - length ps = r" by (cases "16 - length ps") auto
    have IH: "scan_sector n sector (k * n + n) (table_of qs) =
      and_then (partition_list (16 - length qs) (map (\<lambda>i. take n (drop (i * n) sector)) [Suc k..<512 div n]))
        (\<lambda>rs. Ok (table_of (qs @ rs)))" if "length qs \<le> 16" for qs
      using Suc.hyps(1) [of "Suc k" qs] Suc.hyps(2) k that by (simp add: add.commute)
    show ?thesis
      unfolding scan_sector_entry [OF assms(1,2) le True] up
      using True by (simp add: IH r and_then_assoc)
  qed
qed

text \<open>The list of entries the scan goes through.\<close>

definition table_entries :: "nat \<Rightarrow> bytes list \<Rightarrow> bytes list" where
  "table_entries n sectors = concat (map (sector_entries n) sectors)"

lemma scan_table_spec:
  assumes "128 \<le> n" "\<forall>sector \<in> set sectors. length sector = 512"
    "\<forall>i < length sectors. device (lba + of_nat (from + i)) = Ok (sectors ! i)" "length ps \<le> 16"
  shows "scan_table device lba n from (from + length sectors) (table_of ps) =
    and_then (partition_list (16 - length ps) (table_entries n sectors)) (\<lambda>qs. Ok (table_of (ps @ qs)))"
  using assms(2-4)
proof (induction sectors arbitrary: "from" ps)
  case Nil
  then show ?case by (subst scan_table.simps) (simp add: table_entries_def)
next
  case (Cons sector sectors)
  have dev: "device (lba + of_nat (Suc from + i)) = Ok (sectors ! i)" if "i < length sectors" for i
    using Cons.prems(2) [rule_format, of "Suc i"] that by simp
  have d0: "device (lba + of_nat from) = Ok sector" using Cons.prems(2) by (auto dest: spec [of _ 0])
  have s: "scan_sector n sector 0 (table_of ps) =
    and_then (partition_list (16 - length ps) (sector_entries n sector)) (\<lambda>qs. Ok (table_of (ps @ qs)))"
    using scan_sector_spec [of sector n 0 ps] Cons.prems assms(1) by (simp add: sector_entries_def SECTOR_SIZE_def)
  have IH: "scan_table device lba n (Suc from) (Suc from + length sectors) (table_of qs) =
    and_then (partition_list (16 - length qs) (table_entries n sectors)) (\<lambda>rs. Ok (table_of (qs @ rs)))"
    if "length qs \<le> 16" for qs
    using Cons.prems dev that by (intro Cons.IH) auto
  have bound: "length (ps @ qs) \<le> 16" if "partition_list (16 - length ps) (sector_entries n sector) = Ok qs" for qs
    using partition_list_room [OF that] Cons.prems(3) by simp
  show ?case
    using d0 IH bound
    by (subst scan_table.simps, cases "partition_list (16 - length ps) (sector_entries n sector)")
      (simp_all add: s table_entries_def partition_list_append and_then_assoc diff_diff_eq)
qed

section \<open>Properties\<close>

text \<open>The fields of the header sector.\<close>

definition header_lba :: "bytes \<Rightarrow> u64" where
  "header_lba header = from_le_bytes (take 8 (drop 72 header))"

definition header_entry_count :: "bytes \<Rightarrow> u32" where
  "header_entry_count header = from_le_bytes (take 4 (drop 80 header))"

definition header_entry_size :: "bytes \<Rightarrow> u32" where
  "header_entry_size header = from_le_bytes (take 4 (drop 84 header))"

lemma unat_ucast_u32 [simp]: "unat (ucast (w :: u32) :: u64) = unat w"
proof -
  have "unat w < 2 ^ 32" using unsigned_less [of w] by simp
  then show ?thesis by (simp add: unsigned_ucast_eq take_bit_nat_eq_self)
qed

lemma u32_bound: "unat (w :: u32) \<le> 2 ^ 32 - 1"
proof -
  have "unat w < 2 ^ 32" using unsigned_less [of w] by simp
  then show ?thesis by simp
qed

lemma table_bytes_bound: "unat (a :: u32) * unat (b :: u32) + 512 \<le> 2 ^ 64"
proof -
  have "unat a * unat b \<le> (2 ^ 32 - 1) * (2 ^ 32 - 1)" by (intro mult_mono u32_bound) simp_all
  then show ?thesis by simp
qed

lemma table_sectors_eq:
  fixes a b :: u32
  shows "checked_mul (ucast a :: u64) (ucast b) = Some (ucast a * ucast b)"
    "unat (align_up (ucast a * ucast b :: u64) (of_nat SECTOR_SIZE) div of_nat SECTOR_SIZE) = (unat a * unat b + 511) div 512"
proof -
  note bound = table_bytes_bound [of a b]
  show "checked_mul (ucast a :: u64) (ucast b) = Some (ucast a * ucast b)"
    using bound by (simp add: checked_mul_def)
  have m: "unat (ucast a * ucast b :: u64) = unat a * unat b"
    using bound unat_mult_lem [of "ucast a :: u64" "ucast b"] by simp
  have "unat (align_up (ucast a * ucast b :: u64) (2 ^ 9)) = (unat a * unat b + 511) div 512 * 512"
    using unat_align_up_pow [of "ucast a * ucast b" 9] bound m by simp
  then show "unat (align_up (ucast a * ucast b :: u64) (of_nat SECTOR_SIZE) div of_nat SECTOR_SIZE) = (unat a * unat b + 511) div 512"
    by (simp add: SECTOR_SIZE_def unat_div)
qed

lemma flatten_table_of: "flatten (fst (table_of ps)) = ps"
proof -
  have "flatten (map Some ps @ xs) = ps @ flatten xs" for xs by (induction ps) auto
  moreover have "flatten (replicate k None) = []" for k by (induction k) auto
  ultimately show ?thesis by (simp add: table_of_def)
qed


definition sample_gpt_header :: bytes where
  "sample_gpt_header = GPT_HEADER_SIGNATURE @ replicate 64 0 @ to_le_bytes 8 (2 :: u64) @ to_le_bytes 4 (1 :: u32) @
     to_le_bytes 4 (128 :: u32) @ replicate 424 0"

definition sample_gpt_entry :: bytes where
  "sample_gpt_entry = EFI_SYSTEM_PARTITION_GUID @ replicate 16 0 @ to_le_bytes 8 (34 :: u64) @ to_le_bytes 8 (133 :: u64) @
     replicate 8 0 @ [0x45, 0, 0x53, 0, 0x50, 0] @ replicate 66 0"

definition sample_gpt_disk :: block_device where
  "sample_gpt_disk lba =
     (if lba = 1 then Ok sample_gpt_header
      else if lba = 2 then Ok (replicate 128 0 @ sample_gpt_entry @ replicate 256 0)
      else Err AhciTaskFileError)"


lemma spread_name_eq:
  "n \<le> length xs \<Longrightarrow> spread_name name xs n =
     (if n + length name \<le> length xs then Some (overwrite xs n (map ucast name), n + length name) else None)"
proof (induction name arbitrary: xs n)
  case Nil
  then show ?case by (simp add: overwrite_def)
next
  case (Cons b name)
  show ?case
  proof (cases "n < length xs")
    case True
    then have "overwrite (xs[n := ucast b]) (Suc n) (map ucast name) = overwrite xs n (ucast b # map ucast name)"
      by (simp add: overwrite_def take_Suc_store)
    with True Cons.IH [of "Suc n" "xs[n := ucast b]"] show ?thesis by simp
  qed (use Cons.prems in simp)
qed

lemma name_matches_iff:
  assumes "length (gp_name p) = 36"
  shows "name_matches p name \<longleftrightarrow> length name \<le> 36 \<and> gp_name p = map ucast name @ replicate (36 - length name) 0"
proof (cases "length name \<le> 36")
  case True
  have s: "spread_name name (replicate 36 0) 0 = Some (map ucast name @ replicate (36 - length name) 0, length name)"
    using True spread_name_eq [of 0 "replicate 36 0" name] by (simp add: overwrite_def)
  let ?x = "map ucast name @ replicate (36 - length name) (0 :: u16)"
  have x: "?x ! i = (if i < length name then ucast (name ! i) else 0)" if "i < 36" for i
    using that True by (simp add: nth_append)
  have "name_matches p name \<longleftrightarrow> (\<forall>i < 36. gp_name p ! i = ?x ! i)"
  proof
    assume "name_matches p name"
    then have m: "\<forall>i \<in> {0..<length name}. gp_name p ! i = ?x ! i" "\<forall>i \<in> {length name..<36}. gp_name p ! i = 0"
      by (simp_all add: name_matches_def s assms)
    show "\<forall>i < 36. gp_name p ! i = ?x ! i"
    proof (intro allI impI)
      fix i :: nat assume "i < 36"
      then show "gp_name p ! i = ?x ! i" using m x by (cases "i < length name") auto
    qed
  next
    assume "\<forall>i < 36. gp_name p ! i = ?x ! i"
    with x True show "name_matches p name" by (simp add: name_matches_def s assms)
  qed
  also have "\<dots> \<longleftrightarrow> gp_name p = ?x" using assms True by (simp only: list_eq_iff_nth_eq) simp
  finally show ?thesis using True by simp
next
  case False
  then have "spread_name name (replicate 36 0) 0 = None" using spread_name_eq [of 0 "replicate 36 0" name] by simp
  with False show ?thesis by (simp add: name_matches_def)
qed

text \<open>A partition is found by name exactly when its 36-unit name field holds the name's bytes and
  then only zeros; \<^verbatim>\<open>find_by_name\<close> answers the first such partition.\<close>

theorem find_by_name_exact:
  assumes "\<forall>p \<in> set (flatten partitions). length (gp_name p) = 36"
  shows "find_by_name partitions name =
    find (\<lambda>p. length name \<le> 36 \<and> gp_name p = map ucast name @ replicate (36 - length name) 0) (flatten partitions)"
proof -
  have "name_matches p name \<longleftrightarrow> length name \<le> 36 \<and> gp_name p = map ucast name @ replicate (36 - length name) 0"
    if "length (gp_name p) = 36" for p
    using that by (rule name_matches_iff)
  then show ?thesis unfolding find_by_name_def using assms by (intro find_cong) auto
qed

theorem find_by_name_exact_witness:
  "find_by_name [None, Some (entry_partition sample_gpt_entry)] [0x45, 0x53, 0x50] = Some (entry_partition sample_gpt_entry)"
proof -
  have "gp_name (entry_partition sample_gpt_entry) = map ucast [0x45 :: u8, 0x53, 0x50] @ replicate 33 0" by code_simp
  then show ?thesis
    using find_by_name_exact [of "[None, Some (entry_partition sample_gpt_entry)]" "[0x45, 0x53, 0x50]"] by simp
qed

end
