(* ===== verification/Paging.thy ===== *)
theory Paging
  imports Memory_Types
begin

text \<open>
  The page table builder, \<^verbatim>\<open>kernel/kernel/src/memory/paging.rs\<close>, with the index helpers of
  \<^verbatim>\<open>memory/util.rs\<close>. Page tables live in byte-addressed physical memory: a table is the address of
  its frame, an entry the little-endian word at its offset. The record \<open>vm\<close> holds what the builder
  mutates: physical memory, the frame allocator, and the owned-page list the builder points to (the
  same list its client pushes to). The second part reads the tables back the way the processor
  walks them and shows that mapping a page changes the translation of that page and of no other.
\<close>

section \<open>The code\<close>

definition PAGE_PRESENT :: u64 where "PAGE_PRESENT = 1"
definition PAGE_WRITABLE :: u64 where "PAGE_WRITABLE = 2"
definition PAGE_USER :: u64 where "PAGE_USER = 4"
definition PAGE_HUGE :: u64 where "PAGE_HUGE = 128"
definition PAGE_TABLE_FLAGS :: u64 where "PAGE_TABLE_FLAGS = PAGE_PRESENT OR PAGE_WRITABLE"
definition ADDRESS_MASK :: u64 where "ADDRESS_MASK = 0x000ffffffffff000"

definition pml4_index :: "u64 \<Rightarrow> nat" where "pml4_index a = unat (drop_bit 39 a AND 0x1ff)"
definition pdpt_index :: "u64 \<Rightarrow> nat" where "pdpt_index a = unat (drop_bit 30 a AND 0x1ff)"
definition pd_index :: "u64 \<Rightarrow> nat" where "pd_index a = unat (drop_bit 21 a AND 0x1ff)"
definition pt_index :: "u64 \<Rightarrow> nat" where "pt_index a = unat (drop_bit 12 a AND 0x1ff)"

record vm =
  vm_memory :: memory
  vm_alloc :: physical_allocator
  vm_owned :: owned_pages

type_synonym 'a vm_op = "vm \<Rightarrow> ('a, memory_error) outcome \<times> vm"

record address_space_builder =
  ab_root_paddr :: u64
  ab_tracks_owned :: bool

text \<open>\<^verbatim>\<open>page_table_mut(t).entries[i]\<close>, read and written.\<close>

definition page_entry :: "memory \<Rightarrow> u64 \<Rightarrow> nat \<Rightarrow> u64" where
  "page_entry m t i = from_le_bytes (read_mem m (t + 8 * of_nat i) 8)"

definition set_page_entry :: "memory \<Rightarrow> u64 \<Rightarrow> nat \<Rightarrow> u64 \<Rightarrow> memory" where
  "set_page_entry m t i v = write_mem m (t + 8 * of_nat i) (to_le_bytes 8 v)"

definition vm_allocate_page :: "u64 vm_op" where
  "vm_allocate_page st =
     (case allocate_page (vm_alloc st) (vm_memory st) of
        Ok (p, pa, m) \<Rightarrow> (Ok p, st\<lparr>vm_memory := m, vm_alloc := pa\<rparr>)
      | Err e \<Rightarrow> (Err e, st)
      | Panic \<Rightarrow> (Panic, st))"

definition vm_push_owned :: "u64 \<Rightarrow> unit vm_op" where
  "vm_push_owned page st =
     (case owned_pages_push page (vm_owned st) of
        Ok op \<Rightarrow> (Ok (), st\<lparr>vm_owned := op\<rparr>)
      | Err e \<Rightarrow> (Err e, st)
      | Panic \<Rightarrow> (Panic, st))"

definition ensure_table :: "address_space_builder \<Rightarrow> u64 \<Rightarrow> nat \<Rightarrow> u64 \<Rightarrow> u64 vm_op" where
  "ensure_table b table i extra_flags st =
     (if 512 \<le> i then (Panic, st) else
      let entry = page_entry (vm_memory st) table i in
      if entry AND PAGE_PRESENT \<noteq> 0 then
        (Ok (entry AND ADDRESS_MASK),
         if entry AND extra_flags \<noteq> extra_flags
         then st\<lparr>vm_memory := set_page_entry (vm_memory st) table i (entry OR extra_flags)\<rparr> else st)
      else
        bind_st vm_allocate_page (\<lambda>child.
        bind_st (if ab_tracks_owned b then vm_push_owned child else (\<lambda>s. (Ok (), s))) (\<lambda>_ s.
          (Ok child, s\<lparr>vm_memory :=
             set_page_entry (vm_memory s) table i (child OR PAGE_TABLE_FLAGS OR extra_flags)\<rparr>))) st)"

definition ensure_page_directory :: "address_space_builder \<Rightarrow> u64 \<Rightarrow> u64 \<Rightarrow> u64 vm_op" where
  "ensure_page_directory b virt extra_flags =
     bind_st (ensure_table b (ab_root_paddr b) (pml4_index virt) extra_flags) (\<lambda>pdpt.
       ensure_table b pdpt (pdpt_index virt) extra_flags)"

definition ensure_page_table :: "address_space_builder \<Rightarrow> u64 \<Rightarrow> u64 \<Rightarrow> u64 vm_op" where
  "ensure_page_table b virt extra_flags =
     bind_st (ensure_page_directory b virt extra_flags) (\<lambda>pd.
       ensure_table b pd (pd_index virt) extra_flags)"

definition map_2m :: "address_space_builder \<Rightarrow> u64 \<Rightarrow> u64 \<Rightarrow> u64 \<Rightarrow> unit vm_op" where
  "map_2m b virt phys flags =
     bind_st (ensure_page_directory b virt (flags AND PAGE_USER)) (\<lambda>pd s.
       if 512 \<le> pd_index virt then (Panic, s)
       else (Ok (), s\<lparr>vm_memory := set_page_entry (vm_memory s) pd (pd_index virt) (phys OR flags OR PAGE_HUGE)\<rparr>))"

definition map_4k :: "address_space_builder \<Rightarrow> u64 \<Rightarrow> u64 \<Rightarrow> u64 \<Rightarrow> unit vm_op" where
  "map_4k b virt phys flags =
     bind_st (ensure_page_table b virt (flags AND PAGE_USER)) (\<lambda>pt s.
       if 512 \<le> pt_index virt then (Panic, s)
       else (Ok (), s\<lparr>vm_memory := set_page_entry (vm_memory s) pt (pt_index virt) (phys OR flags)\<rparr>))"

text \<open>The two range loops. Both bounds are multiples of the step, so the address reaches the limit
  without passing it and the wrapping addition of the source never wraps; the loops count in
  natural numbers.\<close>

function map_identity_from ::
  "(u64 \<Rightarrow> unit vm_op) \<Rightarrow> nat \<Rightarrow> nat \<Rightarrow> nat \<Rightarrow> unit vm_op" where
  "map_identity_from map_one step address limit st =
     (if address < limit \<and> 0 < step
      then bind_st (map_one (of_nat address)) (\<lambda>_. map_identity_from map_one step (address + step) limit) st
      else (Ok (), st))"
  by pat_completeness auto
termination
  by (relation "measure (\<lambda>(f, step, address, limit, st). limit - address)") auto

declare map_identity_from.simps [simp del]

definition map_identity_2m_range :: "address_space_builder \<Rightarrow> u64 \<Rightarrow> u64 \<Rightarrow> u64 \<Rightarrow> unit vm_op" where
  "map_identity_2m_range b start end flags =
     map_identity_from (\<lambda>a. map_2m b a a flags) 0x200000
       (unat (align_down start 0x200000)) (unat (align_up end 0x200000))"

definition map_identity_4k_range :: "address_space_builder \<Rightarrow> u64 \<Rightarrow> u64 \<Rightarrow> u64 \<Rightarrow> unit vm_op" where
  "map_identity_4k_range b start end flags =
     map_identity_from (\<lambda>a. map_4k b a a flags) 4096
       (unat (align_down start PAGE_SIZE)) (unat (align_up end PAGE_SIZE))"

section \<open>Entries in memory\<close>

lemma index_bounds [simp]:
  "pml4_index a < 512" "pdpt_index a < 512" "pd_index a < 512" "pt_index a < 512"
proof -
  have "unat (w AND 0x1ff) < 512" for w :: u64
  proof -
    have "w AND 0x1ff = take_bit 9 w" by (simp add: take_bit_eq_mask mask_eq_exp_minus_1)
    then show ?thesis using take_bit_nat_less_exp [of 9 "unat w"] by (simp add: unsigned_take_bit_eq)
  qed
  then show "pml4_index a < 512" "pdpt_index a < 512" "pd_index a < 512" "pt_index a < 512"
    by (simp_all add: pml4_index_def pdpt_index_def pd_index_def pt_index_def)
qed

lemma dvd_unat_diff:
  fixes a b :: u64
  assumes "k dvd unat a" "k dvd unat b" "k dvd 2 ^ 64"
  shows "k dvd unat (a - b)"
proof (cases "b \<le> a")
  case True
  then show ?thesis using assms by (simp add: unat_sub dvd_diff_nat)
next
  case False
  then have "unat (a - b) = unat a + 2 ^ 64 - unat b" by (simp add: unat_sub_if' word_le_nat_alt)
  then show ?thesis using assms by (simp add: dvd_diff_nat)
qed

lemma offset_into_gap:
  fixes d :: u64
  assumes "k dvd unat d" "d \<noteq> 0" "k dvd 2 ^ 64" "n < k"
  shows "k \<le> unat (d + of_nat n)"
proof -
  have le: "k \<le> unat d" using assms(1,2) by (metis dvd_imp_le unat_gt_0)
  have "k dvd 2 ^ 64 - unat d" using assms(1,3) by (rule dvd_diff_nat [rotated])
  moreover have "0 < 2 ^ 64 - unat d" using unsigned_less [of d] by simp
  ultimately have "k \<le> 2 ^ 64 - unat d" by (rule dvd_imp_le)
  moreover have "unat d < 2 ^ 64" using unsigned_less [of d] by simp
  ultimately have s: "unat d + n < 2 ^ 64" using assms(4) by linarith
  moreover have "unat (of_nat n :: u64) = n"
    using s by (simp add: unsigned_of_nat take_bit_nat_eq_self)
  ultimately show ?thesis using le unat_add_lem [of d "of_nat n"] by simp
qed

text \<open>A frame: page-aligned and below the 52-bit physical address limit.\<close>

definition frame_ok :: "u64 \<Rightarrow> bool" where
  "frame_ok t \<longleftrightarrow> 4096 dvd unat t \<and> unat t < 2 ^ 52"

lemma entry_offset:
  assumes "i < 512"
  shows "unat (8 * of_nat i :: u64) = 8 * i"
proof -
  have "unat (of_nat i :: u64) = i" using assms by (simp add: unsigned_of_nat take_bit_nat_eq_self)
  then show ?thesis using assms unat_mult_lem [of "8 :: u64" "of_nat i"] by simp
qed

lemma entry_address:
  assumes "frame_ok t" "i < 512"
  shows "unat (t + 8 * of_nat i) = unat t + 8 * i"
  using assms unat_add_lem [of t "8 * of_nat i"] by (simp add: frame_ok_def entry_offset)

lemma entry_address_inj:
  assumes "frame_ok t" "frame_ok u" "i < 512" "j < 512" "t + 8 * of_nat i = u + 8 * of_nat j"
  shows "t = u \<and> i = j"
proof -
  have e: "unat t + 8 * i = unat u + 8 * j"
    using assms by (metis entry_address)
  obtain a b where ab: "unat t = 4096 * a" "unat u = 4096 * b" using assms(1,2) by (auto simp: frame_ok_def elim!: dvdE)
  have "(4096 * a + 8 * i) div 4096 = a" "(4096 * b + 8 * j) div 4096 = b" using assms(3,4) by simp_all
  then have "a = b" using e ab by metis
  then have "unat t = unat u" using ab by simp
  then show ?thesis using e by (simp add: word_unat_eq_iff)
qed

lemma read_write_mem_same: "length bs < 2 ^ 64 \<Longrightarrow> read_mem (write_mem m a bs) a (length bs) = bs"
  by (rule nth_equalityI) (simp_all add: read_mem_def write_mem_def unsigned_of_nat take_bit_nat_eq_self)

lemma page_entry_same [simp]: "page_entry (set_page_entry m t i v) t i = v"
  using read_write_mem_same [of "to_le_bytes 8 v" m "t + 8 * of_nat i"]
  by (simp add: page_entry_def set_page_entry_def)

lemma page_entry_other:
  assumes "frame_ok t" "frame_ok u" "i < 512" "j < 512" "(t, i) \<noteq> (u, j)"
  shows "page_entry (set_page_entry m t i v) u j = page_entry m u j"
proof -
  let ?a = "t + 8 * of_nat i" and ?b = "u + 8 * of_nat j"
  have ne: "?b - ?a \<noteq> 0" using entry_address_inj [of u t j i] assms by auto
  have "(8 :: nat) dvd 4096" by simp
  then have "8 dvd unat t" "8 dvd unat u" using assms(1,2) dvd_trans by (auto simp: frame_ok_def)
  then have d: "8 dvd unat (?b - ?a)"
    using assms(1-4) by (intro dvd_unat_diff) (simp_all add: entry_address)
  have "8 \<le> unat (?b + of_nat n - ?a)" if "n < 8" for n
    using offset_into_gap [OF d ne _ that] by (simp add: algebra_simps)
  then have "read_mem (write_mem m ?a (to_le_bytes 8 v)) ?b 8 = read_mem m ?b 8"
    by (auto simp: read_mem_def write_mem_def not_less [symmetric])
  then show ?thesis by (simp add: page_entry_def set_page_entry_def)
qed

lemma page_entry_fill_other:
  assumes "frame_ok p" "frame_ok u" "p \<noteq> u" "j < 512"
  shows "page_entry (fill_bytes m p 0 4096) u j = page_entry m u j"
proof -
  have d: "4096 dvd unat (u - p)"
    using assms by (intro dvd_unat_diff) (simp_all add: frame_ok_def)
  have "4096 \<le> unat (u + 8 * of_nat j + of_nat n - p)" if "n < 8" for n
  proof -
    have "u + 8 * of_nat j + of_nat n - p = (u - p) + of_nat (8 * j + n)" by simp
    moreover have "4096 \<le> unat ((u - p) + of_nat (8 * j + n))"
      using assms(3,4) that by (intro offset_into_gap [OF d]) auto
    ultimately show ?thesis by (simp only:)
  qed
  then have "read_mem (fill_bytes m p 0 4096) (u + 8 * of_nat j) 8 = read_mem m (u + 8 * of_nat j) 8"
    by (auto simp: read_mem_def fill_bytes_def not_less [symmetric])
  then show ?thesis by (simp add: page_entry_def)
qed

lemma from_le_bytes_zeros: "from_le_bytes (replicate n 0) = 0"
  by (induction n) auto

lemma page_entry_fill_same:
  assumes "frame_ok p" "j < 512"
  shows "page_entry (fill_bytes m p 0 4096) p j = 0"
proof -
  have "unat (8 * of_nat j + of_nat n :: u64) < 4096" if "n < 8" for n
  proof -
    have "(8 * of_nat j + of_nat n :: u64) = of_nat (8 * j + n)" by simp
    also have "unat (of_nat (8 * j + n) :: u64) = 8 * j + n"
      using assms(2) that by (simp add: unsigned_of_nat take_bit_nat_eq_self del: of_nat_add of_nat_mult)
    finally show ?thesis using assms(2) that by simp
  qed
  then have "read_mem (fill_bytes m p 0 4096) (p + 8 * of_nat j) 8 = replicate 8 0"
    by (intro nth_equalityI) (simp_all add: read_mem_def fill_bytes_def add.assoc add_diff_eq)
  then show ?thesis by (simp only: page_entry_def from_le_bytes_zeros)
qed

section \<open>The tables as the processor reads them\<close>

text \<open>\<open>table_at m root p\<close> is the table reached from \<open>root\<close> through the entries of the path
  \<open>p\<close>; \<open>leaf\<close> is the entry that translates an address: a huge entry of the page directory or a
  present entry of the page table.\<close>

definition next_table :: "memory \<Rightarrow> u64 \<Rightarrow> nat \<Rightarrow> u64 option" where
  "next_table m t i =
     (let e = page_entry m t i
      in if e AND PAGE_PRESENT \<noteq> 0 \<and> e AND PAGE_HUGE = 0 then Some (e AND ADDRESS_MASK) else None)"

fun table_at :: "memory \<Rightarrow> u64 \<Rightarrow> nat list \<Rightarrow> u64 option" where
  "table_at m t [] = Some t"
| "table_at m t (i # is) = Option.bind (next_table m t i) (\<lambda>t'. table_at m t' is)"

definition present_entry :: "u64 \<Rightarrow> u64 option" where
  "present_entry e = (if e AND PAGE_PRESENT \<noteq> 0 then Some e else None)"

definition leaf :: "memory \<Rightarrow> u64 \<Rightarrow> u64 \<Rightarrow> u64 option" where
  "leaf m root v =
     Option.bind (table_at m root [pml4_index v, pdpt_index v]) (\<lambda>pd.
     if page_entry m pd (pd_index v) AND PAGE_HUGE \<noteq> 0 then present_entry (page_entry m pd (pd_index v))
     else Option.bind (next_table m pd (pd_index v)) (\<lambda>pt. present_entry (page_entry m pt (pt_index v))))"

definition good_path :: "nat list \<Rightarrow> bool" where
  "good_path p \<longleftrightarrow> length p \<le> 3 \<and> (\<forall>i \<in> set p. i < 512)"

text \<open>The invariant of an address space: its tables are frames, no two paths share one, and none
  lies in memory the allocator may hand out.\<close>

definition space_inv :: "memory \<Rightarrow> u64 \<Rightarrow> u64 set \<Rightarrow> bool" where
  "space_inv m root F \<longleftrightarrow>
     (\<forall>p t. good_path p \<and> table_at m root p = Some t \<longrightarrow> frame_ok t \<and> block t PAGE_SIZE \<inter> F = {}) \<and>
     (\<forall>p q t. good_path p \<and> good_path q \<and> table_at m root p = Some t \<and> table_at m root q = Some t \<longrightarrow> p = q)"

lemma table_at_snoc:
  "table_at m t (p @ [i]) = Option.bind (table_at m t p) (\<lambda>u. next_table m u i)"
proof (induction p arbitrary: t)
  case Nil
  then show ?case by (cases "next_table m t i") auto
next
  case (Cons j p)
  then show ?case by (cases "next_table m t j") auto
qed

lemma good_path_snoc: "good_path (p @ [i]) \<longleftrightarrow> length p \<le> 2 \<and> good_path p \<and> i < 512"
  by (auto simp: good_path_def)

text \<open>The tables of a path depend only on the inner tables' entries.\<close>

lemma table_at_same:
  assumes "\<And>p t i. good_path p \<Longrightarrow> length p \<le> 2 \<Longrightarrow> table_at m root p = Some t \<Longrightarrow> i < 512 \<Longrightarrow>
      next_table m' t i = next_table m t i" and "good_path q"
  shows "table_at m' root q = table_at m root q"
  using assms(2)
proof (induction q rule: rev_induct)
  case (snoc j q)
  then have "table_at m' root q = table_at m root q" by (simp add: good_path_snoc)
  with assms(1) [of q _ j] snoc.prems show ?case
    by (cases "table_at m root q") (simp_all add: table_at_snoc good_path_snoc)
qed simp

lemma table_at_grow:
  assumes inv: "space_inv m root F" and p: "good_path p" "table_at m root p = Some t" "length p \<le> 2" "i < 512"
    and fresh: "next_table m t i = None" "next_table m' t i = Some c" "\<And>j. j < 512 \<Longrightarrow> next_table m' c j = None"
    and keep: "\<And>q u j. good_path q \<Longrightarrow> table_at m root q = Some u \<Longrightarrow> j < 512 \<Longrightarrow> (u, j) \<noteq> (t, i) \<Longrightarrow>
      next_table m' u j = next_table m u j"
    and q: "good_path q"
  shows "table_at m' root q = (if q = p @ [i] then Some c else table_at m root q)"
  using q
proof (induction q rule: rev_induct)
  case (snoc j q)
  then have IH: "table_at m' root q = (if q = p @ [i] then Some c else table_at m root q)"
    and g: "good_path q" "j < 512" by (auto simp: good_path_snoc)
  show ?case
  proof (cases "q = p @ [i]")
    case True
    then have "table_at m root q = None" using p(2) fresh(1) by (simp add: table_at_snoc)
    moreover have "table_at m' root q = Some c" using IH True by simp
    moreover have "q @ [j] \<noteq> p @ [i]" using True by simp
    ultimately show ?thesis using fresh(3) [OF g(2)] unfolding table_at_snoc [of _ _ q] by simp
  next
    case False
    show ?thesis
    proof (cases "table_at m root q")
      case None
      then have "q \<noteq> p" using p(2) by auto
      with None False IH show ?thesis by (simp add: table_at_snoc)
    next
      case (Some u)
      have "u = t \<longleftrightarrow> q = p" using inv p(1,2) g(1) Some by (auto simp: space_inv_def)
      with Some False IH keep [OF g(1) Some g(2)] fresh(2) show ?thesis
        by (cases "(u, j) = (t, i)") (auto simp: table_at_snoc)
    qed
  qed
qed simp

section \<open>Bits of an entry\<close>

lemma frame_bits:
  assumes "frame_ok c" "unat x < 4096"
  shows "(c OR x) AND ADDRESS_MASK = c" "c AND x = 0" "(c OR x) AND y = x AND y \<or> \<not> unat y < 4096"
proof -
  have "take_bit 12 c = 0"
    using assms(1) by (simp add: frame_ok_def take_bit_eq_mod word_unat_eq_iff unat_mod mod_eq_0_iff_dvd)
  then have low: "\<not> bit c n" if "n < 12" for n
    using that by (metis bit_take_bit_iff bit_0_eq bot_apply bot_bool_def)
  have small: "\<not> bit z n" if "unat z < 4096" "12 \<le> n" for z :: u64 and n
  proof -
    have "unat z < 2 ^ n" using that power_increasing [of 12 n "2 :: nat"] by simp
    then have "\<not> bit (unat z) n" by (simp add: bit_iff_odd)
    then show ?thesis by (simp add: bit_unsigned_iff)
  qed
  have high: "\<not> bit c n" if "52 \<le> n" for n
  proof -
    have "unat c < 2 ^ n" using that assms(1) power_increasing [of 52 n "2 :: nat"] by (simp add: frame_ok_def)
    then have "\<not> bit (unat c) n" by (simp add: bit_iff_odd)
    then show ?thesis by (simp add: bit_unsigned_iff)
  qed
  have mask: "bit ADDRESS_MASK n \<longleftrightarrow> 12 \<le> n \<and> n < 52" for n
  proof -
    have eq: "ADDRESS_MASK = push_bit 12 (mask 40)"
      by (simp add: ADDRESS_MASK_def push_bit_eq_mult mask_eq_exp_minus_1)
    show ?thesis unfolding eq by (auto simp: bit_simps)
  qed
  show "(c OR x) AND ADDRESS_MASK = c"
  proof (rule bit_word_eqI)
    fix n assume "n < LENGTH(64)"
    have "bit c n \<Longrightarrow> 12 \<le> n \<and> n < 52" using low [of n] high [of n] by (meson not_less)
    then show "bit ((c OR x) AND ADDRESS_MASK) n = bit c n"
      using small [OF assms(2), of n] by (auto simp: bit_simps mask)
  qed
  have "\<not> (bit c n \<and> bit x n)" for n using low [of n] small [OF assms(2), of n] by (meson not_less)
  then show "c AND x = 0" by (intro bit_word_eqI) (simp add: bit_simps)
  show "(c OR x) AND y = x AND y \<or> \<not> unat y < 4096"
  proof (rule disjCI)
    assume "\<not> \<not> unat y < 4096"
    then have "bit y n \<Longrightarrow> n < 12" for n using small [of y n] by (meson not_le)
    then show "(c OR x) AND y = x AND y"
      by (intro bit_word_eqI) (use low in \<open>auto simp: bit_simps\<close>)
  qed
qed

section \<open>Growing a page table\<close>

definition huge_at :: "memory \<Rightarrow> u64 \<Rightarrow> nat list \<Rightarrow> nat \<Rightarrow> bool" where
  "huge_at m root p i \<longleftrightarrow> (\<exists>t. table_at m root p = Some t \<and>
     page_entry m t i AND PAGE_PRESENT \<noteq> 0 \<and> page_entry m t i AND PAGE_HUGE \<noteq> 0)"

definition frames_ok :: "physical_allocator \<Rightarrow> bool" where
  "frames_ok pa \<longleftrightarrow> (\<forall>r \<in> set (active pa). aligned_region r \<and> pr_start r \<noteq> 0 \<and> unat (pr_end r) \<le> 2 ^ 52)"

definition vm_inv :: "u64 \<Rightarrow> vm \<Rightarrow> bool" where
  "vm_inv root st \<longleftrightarrow> alloc_inv (vm_alloc st) \<and> frames_ok (vm_alloc st) \<and> owned_pages_wf (vm_owned st) \<and>
     space_inv (vm_memory st) root (free_set (vm_alloc st))"

definition table_bytes :: "memory \<Rightarrow> u64 \<Rightarrow> u64 set" where
  "table_bytes m root = (\<Union>t \<in> {t. \<exists>p. good_path p \<and> table_at m root p = Some t}. block t PAGE_SIZE)"

text \<open>What every step of the builder keeps: the invariant, every translation, every table and huge
  page in place, and all memory outside the tables and the free frames.\<close>

definition extends :: "u64 \<Rightarrow> vm \<Rightarrow> vm \<Rightarrow> bool" where
  "extends root st st' \<longleftrightarrow> vm_inv root st' \<and>
     (\<forall>v. leaf (vm_memory st') root v = leaf (vm_memory st) root v) \<and>
     (\<forall>p t. good_path p \<and> table_at (vm_memory st) root p = Some t \<longrightarrow> table_at (vm_memory st') root p = Some t) \<and>
     (\<forall>p i. good_path (p @ [i]) \<longrightarrow> huge_at (vm_memory st') root p i = huge_at (vm_memory st) root p i) \<and>
     free_set (vm_alloc st') \<subseteq> free_set (vm_alloc st) \<and>
     table_bytes (vm_memory st') root \<subseteq> table_bytes (vm_memory st) root \<union> (free_set (vm_alloc st) - free_set (vm_alloc st')) \<and>
     (\<forall>x. x \<notin> free_set (vm_alloc st) \<and> x \<notin> table_bytes (vm_memory st) root \<longrightarrow> vm_memory st' x = vm_memory st x)"

lemma alloc_frame_cases:
  assumes "alloc_inv pa" "frames_ok pa"
  obtains (page) c pa' where "allocate_page pa m = Ok (c, pa', fill_bytes m c 0 4096)" "alloc_inv pa'" "frames_ok pa'"
      "frame_ok c" "block c PAGE_SIZE \<subseteq> free_set pa" "free_set pa' = free_set pa - block c PAGE_SIZE" "c \<noteq> 0"
  | (exhausted) "allocate_page pa m = Err AllocatorExhausted"
proof -
  show thesis
  proof (rule allocate_page_cases [OF assms(1), of m], goal_cases page' exhausted')
  case (page' r pa')
  have r: "aligned_region r" "pr_start r \<noteq> 0" "unat (pr_end r) \<le> 2 ^ 52" using page'(1) assms(2) by (auto simp: frames_ok_def)
  note le = fits_add [OF page'(2)]
  have ps: "unat PAGE_SIZE = 4096" by (simp add: PAGE_SIZE_def)
  have "unat (pr_start r) < unat (pr_end r)" using le(1,3) ps by (simp add: word_le_nat_alt)
  then have f: "frame_ok (pr_start r)" using r by (simp add: frame_ok_def aligned_region_def)
  have "pr_start r + PAGE_SIZE \<noteq> 0" using le(1) ps by (metis add_is_0 unat_eq_zero zero_neq_numeral)
  then have "frames_ok pa'"
    using page'(7) r le(1) ps assms(2)
    by (auto simp: frames_ok_def aligned_region_def)
  with page' f r(2) show ?thesis by (intro page) auto
  next
  case exhausted'
  then show ?thesis by (intro exhausted)
  qed
qed

lemma in_own_block: "frame_ok t \<Longrightarrow> t \<in> block t PAGE_SIZE"
proof -
  assume "frame_ok t"
  then have "unat (t + PAGE_SIZE) = unat t + 4096"
    using unat_add_lem [of t PAGE_SIZE] by (simp add: frame_ok_def PAGE_SIZE_def)
  then show ?thesis by (simp add: block_def word_less_nat_alt)
qed

lemma block_dvd:
  assumes "frame_ok t" "x \<in> block t PAGE_SIZE"
  shows "unat x div 4096 * 4096 = unat t"
proof -
  have "unat (t + PAGE_SIZE) = unat t + 4096"
    using assms(1) unat_add_lem [of t PAGE_SIZE] by (simp add: frame_ok_def PAGE_SIZE_def)
  then have "unat t \<le> unat x" "unat x < unat t + 4096"
    using assms(2) by (simp_all add: block_def word_le_nat_alt word_less_nat_alt)
  moreover obtain a where "unat t = 4096 * a" using assms(1) by (auto simp: frame_ok_def elim!: dvdE)
  ultimately have "unat x div 4096 = a" by (intro div_nat_eqI) simp_all
  with \<open>unat t = 4096 * a\<close> show ?thesis by simp
qed

lemma frames_disjoint:
  assumes "frame_ok t" "frame_ok u" "t \<noteq> u"
  shows "block t PAGE_SIZE \<inter> block u PAGE_SIZE = {}"
  using block_dvd [OF assms(1)] block_dvd [OF assms(2)] assms(3) by (metis disjoint_iff word_unat_eq_iff)

lemma set_page_entry_outside:
  assumes "frame_ok t" "i < 512" "x \<notin> block t PAGE_SIZE"
  shows "set_page_entry m t i v x = m x"
proof -
  have tp: "unat (t + PAGE_SIZE) = unat t + 4096"
    using assms(1) unat_add_lem [of t PAGE_SIZE] by (simp add: frame_ok_def PAGE_SIZE_def)
  have a: "unat (t + 8 * of_nat i) = unat t + 8 * i" using assms(1,2) by (rule entry_address)
  have "\<not> unat (x - (t + 8 * of_nat i)) < 8"
  proof (cases "t + 8 * of_nat i \<le> x")
    case True
    then have "unat t \<le> unat x" using a by (simp add: word_le_nat_alt)
    then have "unat t + 4096 \<le> unat x" using assms(3) tp by (auto simp: block_def word_le_nat_alt word_less_nat_alt)
    then show ?thesis using True a assms(2) by (simp add: unat_sub)
  next
    case False
    then show ?thesis using a assms(1,2) by (simp add: unat_sub_if' word_le_nat_alt frame_ok_def) linarith
  qed
  then show ?thesis by (simp add: set_page_entry_def write_mem_def)
qed

lemma space_invD:
  assumes "space_inv m root F" "good_path p" "table_at m root p = Some t"
  shows "frame_ok t" "block t PAGE_SIZE \<inter> F = {}" "good_path q \<Longrightarrow> table_at m root q = Some t \<Longrightarrow> q = p"
  using assms by (auto simp: space_inv_def)

text \<open>Translations depend only on the huge entries of the directories and on the page tables.\<close>

lemma leaf_same:
  assumes tab: "\<And>p. good_path p \<Longrightarrow> table_at m' root p = table_at m root p"
    and pd: "\<And>p t i. good_path (p @ [i]) \<Longrightarrow> length p = 2 \<Longrightarrow> table_at m root p = Some t \<Longrightarrow>
       page_entry m' t i AND PAGE_HUGE = page_entry m t i AND PAGE_HUGE \<and>
       (page_entry m t i AND PAGE_HUGE \<noteq> 0 \<longrightarrow> present_entry (page_entry m' t i) = present_entry (page_entry m t i))"
    and pt: "\<And>p t i. good_path p \<Longrightarrow> length p = 3 \<Longrightarrow> table_at m root p = Some t \<Longrightarrow> i < 512 \<Longrightarrow>
       page_entry m' t i = page_entry m t i"
  shows "leaf m' root v = leaf m root v"
proof -
  let ?p = "[pml4_index v, pdpt_index v]" and ?i = "pd_index v"
  have g: "good_path ?p" "good_path (?p @ [?i])" by (simp_all add: good_path_def)
  show ?thesis
  proof (cases "table_at m root ?p")
    case None
    then show ?thesis using tab [OF g(1)] by (simp add: leaf_def)
  next
    case (Some d)
    have d': "table_at m' root ?p = Some d" using tab [OF g(1)] Some by simp
    have nx: "next_table m' d ?i = next_table m d ?i"
      using tab [OF g(2)] Some d' by (simp only: table_at_snoc Option.bind.bind_lunit)
    have "next_table m d ?i = Some u \<Longrightarrow> page_entry m' u (pt_index v) = page_entry m u (pt_index v)" for u
      using pt [OF g(2), of u "pt_index v"] Some by (simp only: table_at_snoc Option.bind.bind_lunit) simp
    then show ?thesis
      using Some d' nx pd [OF g(2) _ Some] unfolding leaf_def
      by (cases "next_table m d ?i") (auto simp del: table_at.simps)
  qed
qed

lemma extends_refl: "vm_inv root st \<Longrightarrow> extends root st st"
  by (simp add: extends_def)

lemma extendsD:
  assumes "extends root st st'"
  shows "vm_inv root st'" "leaf (vm_memory st') root v = leaf (vm_memory st) root v"
    "good_path p \<Longrightarrow> table_at (vm_memory st) root p = Some t \<Longrightarrow> table_at (vm_memory st') root p = Some t"
    "good_path (p @ [i]) \<Longrightarrow> huge_at (vm_memory st') root p i = huge_at (vm_memory st) root p i"
    "free_set (vm_alloc st') \<subseteq> free_set (vm_alloc st)"
    "table_bytes (vm_memory st') root \<subseteq> table_bytes (vm_memory st) root \<union> (free_set (vm_alloc st) - free_set (vm_alloc st'))"
    "x \<notin> free_set (vm_alloc st) \<Longrightarrow> x \<notin> table_bytes (vm_memory st) root \<Longrightarrow> vm_memory st' x = vm_memory st x"
  using assms by (simp_all add: extends_def)

lemma extends_trans:
  assumes "extends root a b" "extends root b c"
  shows "extends root a c"
  unfolding extends_def
proof (intro conjI allI impI)
  note A = extendsD [OF assms(1)] and B = extendsD [OF assms(2)]
  show "vm_inv root c" by (rule B(1))
  show "leaf (vm_memory c) root v = leaf (vm_memory a) root v" for v by (simp add: A(2) B(2))
  show "table_at (vm_memory c) root p = Some t" if "good_path p \<and> table_at (vm_memory a) root p = Some t" for p t
    using A(3) B(3) that by blast
  show "huge_at (vm_memory c) root p i = huge_at (vm_memory a) root p i" if "good_path (p @ [i])" for p i
    using A(4) B(4) that by blast
  show "free_set (vm_alloc c) \<subseteq> free_set (vm_alloc a)" using A(5) B(5) by blast
  show "table_bytes (vm_memory c) root \<subseteq> table_bytes (vm_memory a) root \<union> (free_set (vm_alloc a) - free_set (vm_alloc c))"
    using A(5,6) B(5,6) by blast
  show "vm_memory c x = vm_memory a x"
    if "x \<notin> free_set (vm_alloc a) \<and> x \<notin> table_bytes (vm_memory a) root" for x
  proof -
    have "x \<notin> free_set (vm_alloc b)" "x \<notin> table_bytes (vm_memory b) root" using that A(5,6) by blast+
    then show ?thesis using A(7) B(7) that by simp
  qed
qed

lemma vm_invD:
  assumes "vm_inv root st"
  shows "alloc_inv (vm_alloc st)" "frames_ok (vm_alloc st)" "owned_pages_wf (vm_owned st)"
    "space_inv (vm_memory st) root (free_set (vm_alloc st))"
  using assms by (simp_all add: vm_inv_def)

lemma table_bytes_cong:
  assumes "\<And>p. good_path p \<Longrightarrow> table_at m' root p = table_at m root p"
  shows "table_bytes m' root = table_bytes m root"
proof -
  have "{t. \<exists>p. good_path p \<and> table_at m' root p = Some t} = {t. \<exists>p. good_path p \<and> table_at m root p = Some t}"
    using assms by auto
  then show ?thesis by (simp add: table_bytes_def)
qed

text \<open>Adding the user flag to an inner entry.\<close>

lemma flag_bits:
  assumes "x = 0 \<or> x = PAGE_USER"
  shows "(e OR x) AND PAGE_PRESENT = e AND PAGE_PRESENT" "(e OR x) AND PAGE_HUGE = e AND PAGE_HUGE"
    "(e OR x) AND ADDRESS_MASK = e AND ADDRESS_MASK"
proof -
  have d: "PAGE_USER AND PAGE_PRESENT = 0" "PAGE_USER AND PAGE_HUGE = 0" "PAGE_USER AND ADDRESS_MASK = 0"
    by (simp_all add: PAGE_USER_def PAGE_PRESENT_def PAGE_HUGE_def ADDRESS_MASK_def)
  have "(e OR PAGE_USER) AND y = e AND y" if "PAGE_USER AND y = 0" for y
    using that by (simp add: bit.conj_disj_distrib2)
  with assms d show "(e OR x) AND PAGE_PRESENT = e AND PAGE_PRESENT" "(e OR x) AND PAGE_HUGE = e AND PAGE_HUGE"
    "(e OR x) AND ADDRESS_MASK = e AND ADDRESS_MASK" by auto
qed

lemma extends_flag:
  assumes inv: "vm_inv root st" and p: "good_path (p @ [i])" "table_at (vm_memory st) root p = Some t"
    and e: "page_entry (vm_memory st) t i AND PAGE_HUGE = 0" and x: "x = 0 \<or> x = PAGE_USER"
  shows "extends root st (st\<lparr>vm_memory := set_page_entry (vm_memory st) t i (page_entry (vm_memory st) t i OR x)\<rparr>) \<and>
    (\<forall>q. good_path q \<longrightarrow> table_at (set_page_entry (vm_memory st) t i (page_entry (vm_memory st) t i OR x)) root q =
       table_at (vm_memory st) root q)"
    (is "extends root st (st\<lparr>vm_memory := ?m'\<rparr>) \<and> _")
proof -
  let ?m = "vm_memory st"
  note S = space_invD [OF vm_invD(4) [OF inv]]
  have g: "good_path p" "i < 512" "length p \<le> 2" using p(1) by (simp_all add: good_path_snoc)
  have tf: "frame_ok t" using S(1) g(1) p(2) by blast
  have ent: "page_entry ?m' u j = (if (u, j) = (t, i) then page_entry ?m t i OR x else page_entry ?m u j)"
    if "frame_ok u" "j < 512" for u j
    using page_entry_other [OF tf that(1) g(2) that(2)] by auto
  have nx: "next_table ?m' u j = next_table ?m u j" if "frame_ok u" "j < 512" for u j
    using ent [OF that] flag_bits [OF x] by (auto simp: next_table_def Let_def)
  have tab: "table_at ?m' root q = table_at ?m root q" if "good_path q" for q
    using nx S(1) by (intro table_at_same [OF _ that]) blast
  have sp: "space_inv ?m' root (free_set (vm_alloc st))"
    using vm_invD(4) [OF inv] tab unfolding space_inv_def by metis
  have lf: "leaf ?m' root v = leaf ?m root v" for v
  proof (rule leaf_same [OF tab])
    fix q u and j :: nat assume q: "good_path (q @ [j])" "length q = 2" "table_at ?m root q = Some u"
    then have u: "frame_ok u" "j < 512" using S(1) by (auto simp: good_path_snoc)
    show "page_entry ?m' u j AND PAGE_HUGE = page_entry ?m u j AND PAGE_HUGE \<and>
       (page_entry ?m u j AND PAGE_HUGE \<noteq> 0 \<longrightarrow> present_entry (page_entry ?m' u j) = present_entry (page_entry ?m u j))"
      using ent [OF u] e flag_bits [OF x] by auto
  next
    fix q u and j :: nat assume q: "good_path q" "length q = 3" "table_at ?m root q = Some u" "j < 512"
    then have "u \<noteq> t" using S(3) [OF g(1) p(2) q(1)] g(3) by auto
    then show "page_entry ?m' u j = page_entry ?m u j" using ent S(1) q by auto
  qed
  have hg: "huge_at ?m' root q j = huge_at ?m root q j" if q: "good_path (q @ [j])" for q j
  proof -
    have gq: "good_path q" "j < 512" using q by (simp_all add: good_path_snoc)
    show ?thesis
    proof (cases "table_at ?m root q")
      case (Some u)
      have "page_entry ?m' u j AND PAGE_PRESENT = page_entry ?m u j AND PAGE_PRESENT"
        "page_entry ?m' u j AND PAGE_HUGE = page_entry ?m u j AND PAGE_HUGE"
        using ent [OF S(1) [OF gq(1) Some] gq(2)] flag_bits [OF x] by auto
      with Some tab [OF gq(1)] show ?thesis by (simp add: huge_at_def)
    qed (use tab [OF gq(1)] in \<open>simp add: huge_at_def\<close>)
  qed
  have tb: "table_bytes ?m' root = table_bytes ?m root" using tab by (rule table_bytes_cong)
  have out: "?m' y = ?m y" if "y \<notin> table_bytes ?m root" for y
    using that p(2) g by (intro set_page_entry_outside [OF tf g(2)]) (auto simp: table_bytes_def)
  show ?thesis
    using inv sp lf tab hg tb out by (simp add: extends_def vm_inv_def)
qed

text \<open>Allocating a frame for a table: only free memory changes.\<close>

lemma table_bytes_free:
  assumes "vm_inv root st"
  shows "table_bytes (vm_memory st) root \<inter> free_set (vm_alloc st) = {}"
  using space_invD(2) [OF vm_invD(4) [OF assms]] by (auto simp: table_bytes_def)

lemma table_at_take_frame:
  assumes inv: "vm_inv root st" and c: "frame_ok c" "block c PAGE_SIZE \<subseteq> free_set (vm_alloc st)" and q: "good_path q"
  shows "table_at (fill_bytes (vm_memory st) c 0 4096) root q = table_at (vm_memory st) root q"
proof (rule table_at_same [OF _ q])
  fix p t and i :: nat assume p: "good_path p" "table_at (vm_memory st) root p = Some t" "i < 512"
  note S = space_invD [OF vm_invD(4) [OF inv] p(1,2)]
  have "c \<noteq> t" using S(2) c(2) in_own_block [OF c(1)] by auto
  from page_entry_fill_other [OF c(1) S(1) this p(3)]
  show "next_table (fill_bytes (vm_memory st) c 0 4096) t i = next_table (vm_memory st) t i"
    by (simp add: next_table_def)
qed

lemma extends_take_frame:
  assumes inv: "vm_inv root st" and c: "frame_ok c" "block c PAGE_SIZE \<subseteq> free_set (vm_alloc st)"
    and pa: "alloc_inv pa" "frames_ok pa" "free_set pa = free_set (vm_alloc st) - block c PAGE_SIZE"
    and op: "owned_pages_wf op"
  shows "extends root st \<lparr>vm_memory = fill_bytes (vm_memory st) c 0 4096, vm_alloc = pa, vm_owned = op\<rparr>"
    (is "extends root st \<lparr>vm_memory = ?m', vm_alloc = _, vm_owned = _\<rparr>")
proof -
  let ?m = "vm_memory st"
  note S = space_invD [OF vm_invD(4) [OF inv]]
  have ne: "c \<noteq> u" if "good_path q" "table_at ?m root q = Some u" for q u
    using S(2) [OF that] c(2) in_own_block [OF c(1)] by auto
  have ent: "page_entry ?m' u j = page_entry ?m u j" if "good_path q" "table_at ?m root q = Some u" "j < 512" for q u j
    using page_entry_fill_other [OF c(1) S(1) [OF that(1,2)] ne [OF that(1,2)] that(3)] .
  have tab: "table_at ?m' root q = table_at ?m root q" if "good_path q" for q
    using table_at_take_frame [OF inv c that] .
  have sp: "space_inv ?m' root (free_set pa)"
    using vm_invD(4) [OF inv] tab pa(3) unfolding space_inv_def by (metis Diff_disjoint Int_Diff inf_commute Diff_empty)
  have lf: "leaf ?m' root v = leaf ?m root v" for v
    by (rule leaf_same [OF tab]) (use ent in \<open>auto simp: good_path_snoc\<close>)
  have hg: "huge_at ?m' root q j = huge_at ?m root q j" if "good_path (q @ [j])" for q j
    using that tab [of q] ent [of q _ j] by (auto simp: huge_at_def good_path_snoc)
  have tb: "table_bytes ?m' root = table_bytes ?m root" using tab by (rule table_bytes_cong)
  have b: "unat c + 4096 < 2 ^ 64" using c(1) by (simp add: frame_ok_def)
  have out: "?m' y = ?m y" if "y \<notin> free_set (vm_alloc st)" for y
    using that c(2) by (intro frames.zeroed_block(2) [OF b]) auto
  show ?thesis
    using pa op sp lf tab hg tb out by (auto simp: extends_def vm_inv_def)
qed

text \<open>Linking a fresh zeroed frame into an empty slot.\<close>

lemma extends_link:
  assumes inv: "vm_inv root st" and p: "good_path (p @ [i])" "table_at (vm_memory st) root p = Some t"
    and e: "page_entry (vm_memory st) t i AND PAGE_PRESENT = 0" and x: "x = 0 \<or> x = PAGE_USER"
    and c: "frame_ok c" "block c PAGE_SIZE \<inter> free_set (vm_alloc st) = {}" "\<And>j. j < 512 \<Longrightarrow> page_entry (vm_memory st) c j = 0"
      "\<And>q. good_path q \<Longrightarrow> table_at (vm_memory st) root q \<noteq> Some c"
  shows "vm_inv root (st\<lparr>vm_memory := set_page_entry (vm_memory st) t i (c OR PAGE_TABLE_FLAGS OR x)\<rparr>) \<and>
    (\<forall>q. good_path q \<longrightarrow> table_at (set_page_entry (vm_memory st) t i (c OR PAGE_TABLE_FLAGS OR x)) root q =
       (if q = p @ [i] then Some c else table_at (vm_memory st) root q)) \<and>
    (\<forall>v. leaf (set_page_entry (vm_memory st) t i (c OR PAGE_TABLE_FLAGS OR x)) root v = leaf (vm_memory st) root v) \<and>
    (\<forall>q j. good_path (q @ [j]) \<longrightarrow> huge_at (set_page_entry (vm_memory st) t i (c OR PAGE_TABLE_FLAGS OR x)) root q j =
       huge_at (vm_memory st) root q j)"
proof -
  let ?m = "vm_memory st" and ?e = "c OR PAGE_TABLE_FLAGS OR x" and ?F = "free_set (vm_alloc st)"
  let ?m' = "set_page_entry ?m t i ?e"
  note S = space_invD [OF vm_invD(4) [OF inv]]
  have g: "good_path p" "i < 512" "length p \<le> 2" using p(1) by (simp_all add: good_path_snoc)
  have tf: "frame_ok t" using S(1) g(1) p(2) by blast
  have tc: "t \<noteq> c" using c(4) g(1) p(2) by blast
  have small: "unat (PAGE_TABLE_FLAGS OR x) < 4096" "(PAGE_TABLE_FLAGS OR x) AND PAGE_PRESENT \<noteq> 0"
    "(PAGE_TABLE_FLAGS OR x) AND PAGE_HUGE = 0" "unat PAGE_PRESENT < 4096" "unat PAGE_HUGE < 4096"
    using x by (auto simp: PAGE_TABLE_FLAGS_def PAGE_PRESENT_def PAGE_WRITABLE_def PAGE_USER_def PAGE_HUGE_def)
  have bits: "?e AND PAGE_PRESENT \<noteq> 0" "?e AND PAGE_HUGE = 0" "?e AND ADDRESS_MASK = c"
    using frame_bits(1) [OF c(1) small(1)] frame_bits(3) [OF c(1) small(1), of PAGE_PRESENT]
      frame_bits(3) [OF c(1) small(1), of PAGE_HUGE] small(2-5) by simp_all
  have ent: "page_entry ?m' u j = (if (u, j) = (t, i) then ?e else page_entry ?m u j)" if "frame_ok u" "j < 512" for u j
    using page_entry_other [OF tf that(1) g(2) that(2)] by auto
  have nti: "next_table ?m t i = None" "next_table ?m' t i = Some c" using e bits by (simp_all add: next_table_def Let_def)
  have zero: "page_entry ?m' c j = 0" if "j < 512" for j using ent [OF c(1) that] c(3) [OF that] tc by simp
  have tab: "table_at ?m' root q = (if q = p @ [i] then Some c else table_at ?m root q)" if q: "good_path q" for q
  proof (rule table_at_grow [OF vm_invD(4) [OF inv] g(1) p(2) g(3,2) nti _ _ q])
    show "next_table ?m' c j = None" if "j < 512" for j using zero [OF that] by (simp add: next_table_def)
    show "next_table ?m' u j = next_table ?m u j"
      if "good_path q" "table_at ?m root q = Some u" "j < 512" "(u, j) \<noteq> (t, i)" for q u j
      using ent [OF S(1) [OF that(1,2)] that(3)] that(4) by (auto simp: next_table_def)
  qed
  have "space_inv ?m' root ?F"
    unfolding space_inv_def
  proof (intro conjI allI impI)
    fix q u assume "good_path q \<and> table_at ?m' root q = Some u"
    then show "frame_ok u" "block u PAGE_SIZE \<inter> ?F = {}"
      using tab [of q] S(1,2) [of q u] c(1,2) by (cases "q = p @ [i]"; simp)+
  next
    fix q r u assume "good_path q \<and> good_path r \<and> table_at ?m' root q = Some u \<and> table_at ?m' root r = Some u"
    then show "q = r" using tab [of q] tab [of r] c(4) S(3) [of r u q] by (auto split: if_splits)
  qed
  then have "vm_inv root (st\<lparr>vm_memory := ?m'\<rparr>)" using inv by (simp add: vm_inv_def)
  moreover have "leaf ?m' root v = leaf ?m root v" for v
  proof -
    let ?q = "[pml4_index v, pdpt_index v]" and ?j = "pd_index v"
    have gq: "good_path ?q" "good_path (?q @ [?j])" by (simp_all add: good_path_def)
    show ?thesis
    proof (cases "?q = p @ [i]")
      case True
      then have "table_at ?m root ?q = None" using p(2) nti(1) by (simp only: table_at_snoc Option.bind.bind_lunit)
      moreover have "table_at ?m' root ?q = Some c" unfolding True using tab [OF p(1)] by simp
      ultimately show ?thesis using zero [of ?j] unfolding leaf_def by (simp add: next_table_def del: table_at.simps)
    next
      case False
      then have same: "table_at ?m' root ?q = table_at ?m root ?q" using tab [OF gq(1)] by (simp only: if_False)
      show ?thesis
      proof (cases "table_at ?m root ?q")
        case None
        then show ?thesis using same unfolding leaf_def by (simp del: table_at.simps)
      next
        case (Some d)
        have df: "frame_ok d" using S(1) [OF gq(1) Some] .
        show ?thesis
        proof (cases "(d, ?j) = (t, i)")
          case True
          then have "leaf ?m root v = None"
            using e Some nti(1) unfolding leaf_def by (simp add: present_entry_def del: table_at.simps)
          moreover have "leaf ?m' root v = None"
            using bits(2) Some same True nti(2) zero [of "pt_index v"]
            unfolding leaf_def by (simp add: present_entry_def del: table_at.simps)
          ultimately show ?thesis by simp
        next
          case nd: False
          then have de: "page_entry ?m' d ?j = page_entry ?m d ?j" using ent [OF df, of ?j] by auto
          then have nx: "next_table ?m' d ?j = next_table ?m d ?j" by (simp add: next_table_def)
          have "page_entry ?m' u (pt_index v) = page_entry ?m u (pt_index v)" if u: "next_table ?m d ?j = Some u" for u
          proof -
            have u': "table_at ?m root (?q @ [?j]) = Some u"
              using Some u by (simp only: table_at_snoc Option.bind.bind_lunit)
            have "u \<noteq> t" using S(3) [OF g(1) p(2) gq(2)] u' g(3) by auto
            then show ?thesis using ent [OF S(1) [OF gq(2) u'], of "pt_index v"] by simp
          qed
          then show ?thesis using Some same de nx unfolding leaf_def
            by (cases "next_table ?m d ?j") (auto simp del: table_at.simps)
        qed
      qed
    qed
  qed
  moreover have "huge_at ?m' root q j = huge_at ?m root q j" if q: "good_path (q @ [j])" for q j
  proof -
    have gq: "good_path q" "j < 512" using q by (simp_all add: good_path_snoc)
    show ?thesis
    proof (cases "q = p @ [i]")
      case True
      then have "table_at ?m root q = None" using p(2) nti(1) by (simp add: table_at_snoc)
      moreover have "table_at ?m' root q = Some c" using tab [OF gq(1)] True by simp
      ultimately show ?thesis using zero [OF gq(2)] by (simp add: huge_at_def)
    next
      case False
      then have same: "table_at ?m' root q = table_at ?m root q" using tab [OF gq(1)] by simp
      show ?thesis
      proof (cases "table_at ?m root q")
        case None
        then show ?thesis using same by (simp add: huge_at_def)
      next
        case (Some u)
        then show ?thesis using same ent [OF S(1) [OF gq(1) Some] gq(2)] e bits(2)
          by (cases "(u, j) = (t, i)") (auto simp: huge_at_def)
      qed
    qed
  qed
  ultimately show ?thesis using tab by blast
qed

section \<open>The builder's operations\<close>

abbreviation frame_bytes :: "u64 list \<Rightarrow> u64 set" where
  "frame_bytes cs \<equiv> (\<Union>c \<in> set cs. block c PAGE_SIZE)"

text \<open>A tracking builder pushes every frame it takes; nothing else leaves the free set.\<close>

definition accounts :: "bool \<Rightarrow> vm \<Rightarrow> vm \<Rightarrow> bool" where
  "accounts tracks st st' \<longleftrightarrow>
     (if tracks
      then \<exists>new. owned_list (vm_owned st') = owned_list (vm_owned st) @ new \<and> distinct new \<and>
             (\<forall>c \<in> set new. frame_ok c \<and> c \<noteq> 0) \<and>
             free_set (vm_alloc st) = free_set (vm_alloc st') \<union> frame_bytes new \<and> free_set (vm_alloc st') \<inter> frame_bytes new = {}
      else vm_owned st' = vm_owned st)"

text \<open>What remains of this after an error: frames may have left the free set unrecorded, but every
  recorded frame did leave it, once.\<close>

definition consumes :: "bool \<Rightarrow> vm \<Rightarrow> vm \<Rightarrow> bool" where
  "consumes tracks st st' \<longleftrightarrow>
     (if tracks
      then \<exists>new. owned_list (vm_owned st') = owned_list (vm_owned st) @ new \<and> distinct new \<and>
             (\<forall>c \<in> set new. frame_ok c \<and> c \<noteq> 0) \<and>
             free_set (vm_alloc st') \<union> frame_bytes new \<subseteq> free_set (vm_alloc st) \<and> free_set (vm_alloc st') \<inter> frame_bytes new = {}
      else vm_owned st' = vm_owned st)"

lemma accounts_consumes: "accounts tracks st st' \<Longrightarrow> consumes tracks st st'"
  by (auto simp: accounts_def consumes_def split: if_splits)

lemma consumes_same:
  "vm_owned st' = vm_owned st \<Longrightarrow> free_set (vm_alloc st') \<subseteq> free_set (vm_alloc st) \<Longrightarrow> consumes tracks st st'"
  by (auto simp: consumes_def)

lemma consumes_trans:
  assumes "consumes tracks a b" "consumes tracks b c"
  shows "consumes tracks a c"
proof (cases tracks)
  case True
  with assms obtain new1 new2 where
    n1: "owned_list (vm_owned b) = owned_list (vm_owned a) @ new1" "distinct new1" "\<forall>c \<in> set new1. frame_ok c \<and> c \<noteq> 0"
      "free_set (vm_alloc b) \<union> frame_bytes new1 \<subseteq> free_set (vm_alloc a)" "free_set (vm_alloc b) \<inter> frame_bytes new1 = {}" and
    n2: "owned_list (vm_owned c) = owned_list (vm_owned b) @ new2" "distinct new2" "\<forall>c \<in> set new2. frame_ok c \<and> c \<noteq> 0"
      "free_set (vm_alloc c) \<union> frame_bytes new2 \<subseteq> free_set (vm_alloc b)" "free_set (vm_alloc c) \<inter> frame_bytes new2 = {}"
    by (auto simp: consumes_def)
  have "x \<notin> set new1" if "x \<in> set new2" for x
    using that n1(5) n2(3,4) in_own_block [of x] by blast
  then have d: "distinct (new1 @ new2)" using n1(2) n2(2) by auto
  have "free_set (vm_alloc c) \<union> frame_bytes (new1 @ new2) \<subseteq> free_set (vm_alloc a)" using n1(4) n2(4) by auto
  moreover have "free_set (vm_alloc c) \<inter> frame_bytes (new1 @ new2) = {}" using n1(5) n2(4,5) by auto
  ultimately show ?thesis using True n1(1,3) n2(1,3) d unfolding consumes_def
    by (simp only: if_True) (rule exI [of _ "new1 @ new2"], auto)
qed (use assms in \<open>simp add: consumes_def\<close>)

lemma accounts_same: "vm_owned st' = vm_owned st \<Longrightarrow> vm_alloc st' = vm_alloc st \<Longrightarrow> accounts tracks st st'"
  by (auto simp: accounts_def)

lemma accounts_trans:
  assumes "accounts tracks a b" "accounts tracks b c"
  shows "accounts tracks a c"
proof (cases tracks)
  case True
  with assms obtain new1 new2 where
    n1: "owned_list (vm_owned b) = owned_list (vm_owned a) @ new1" "distinct new1" "\<forall>c \<in> set new1. frame_ok c \<and> c \<noteq> 0"
      "free_set (vm_alloc a) = free_set (vm_alloc b) \<union> frame_bytes new1" "free_set (vm_alloc b) \<inter> frame_bytes new1 = {}" and
    n2: "owned_list (vm_owned c) = owned_list (vm_owned b) @ new2" "distinct new2" "\<forall>c \<in> set new2. frame_ok c \<and> c \<noteq> 0"
      "free_set (vm_alloc b) = free_set (vm_alloc c) \<union> frame_bytes new2" "free_set (vm_alloc c) \<inter> frame_bytes new2 = {}"
    by (auto simp: accounts_def)
  have "x \<notin> set new1" if "x \<in> set new2" for x
    using that n1(5) n2(3,4) in_own_block [of x] by blast
  then have "distinct (new1 @ new2)" using n1(2) n2(2) by auto
  with True n1 n2 show ?thesis by (auto simp: accounts_def intro!: exI [of _ "new1 @ new2"])
qed (use assms in \<open>simp add: accounts_def\<close>)

definition builder_ok :: "bool \<Rightarrow> u64 \<Rightarrow> vm \<Rightarrow> ('a, memory_error) outcome \<times> vm \<Rightarrow> ('a \<Rightarrow> vm \<Rightarrow> bool) \<Rightarrow> bool" where
  "builder_ok tracks root st r Q \<longleftrightarrow>
     (case r of
        (Ok a, st') \<Rightarrow> extends root st st' \<and> accounts tracks st st' \<and> Q a st'
      | (Err e, st') \<Rightarrow> extends root st st' \<and> consumes tracks st st' \<and>
          e \<in> {AllocatorExhausted, OwnedPageCapacityExceeded}
      | (Panic, st') \<Rightarrow> False)"

lemma builder_ok_bind:
  assumes "builder_ok tracks root st (f st) Q"
    and "\<And>a st'. extends root st st' \<Longrightarrow> Q a st' \<Longrightarrow> builder_ok tracks root st' (g a st') R"
  shows "builder_ok tracks root st (bind_st f g st) R"
proof -
  obtain r st' where f: "f st = (r, st')" by (cases "f st") auto
  show ?thesis
  proof (cases r)
    case (Ok a)
    with assms(1) f have a: "extends root st st'" "accounts tracks st st'" "Q a st'" by (simp_all add: builder_ok_def)
    obtain r2 st2 where g: "g a st' = (r2, st2)" by (cases "g a st'") auto
    show ?thesis
      using assms(2) [OF a(1,3)] extends_trans [OF a(1)] accounts_trans [OF a(2)]
        consumes_trans [OF accounts_consumes [OF a(2)]] f Ok g
      by (cases r2) (simp_all add: builder_ok_def bind_st_def)
  qed (use assms(1) f in \<open>simp_all add: builder_ok_def bind_st_def\<close>)
qed

lemma ensure_table_spec:
  assumes inv: "vm_inv root st" and p: "good_path (p @ [i])" "table_at (vm_memory st) root p = Some t"
    and h: "\<not> huge_at (vm_memory st) root p i" and x: "x = 0 \<or> x = PAGE_USER"
  shows "builder_ok (ab_tracks_owned b) root st (ensure_table b t i x st)
    (\<lambda>c st'. \<forall>q. good_path q \<longrightarrow> table_at (vm_memory st') root q =
       (if q = p @ [i] then Some c else table_at (vm_memory st) root q))"
proof -
  let ?m = "vm_memory st" and ?e = "page_entry (vm_memory st) t i" and ?pa = "vm_alloc st"
  have g: "good_path p" "i < 512" using p(1) by (simp_all add: good_path_snoc)
  show ?thesis
  proof (cases "?e AND PAGE_PRESENT = 0")
    case False
    then have nh: "?e AND PAGE_HUGE = 0" using h p(2) by (simp add: huge_at_def)
    then have "table_at ?m root (p @ [i]) = Some (?e AND ADDRESS_MASK)"
      using False p(2) by (simp add: table_at_snoc next_table_def)
    moreover note fl = extends_flag [OF inv p nh x]
    ultimately show ?thesis
      using False g p(1) extends_refl [OF inv]
      by (auto simp: ensure_table_def builder_ok_def Let_def intro: accounts_same)
  next
    case True
    show ?thesis
    proof (rule alloc_frame_cases [OF vm_invD(1,2) [OF inv], of ?m], goal_cases page exhausted)
      case (page c pa)
      note V = vm_invD [OF inv]
      let ?mf = "fill_bytes ?m c 0 4096"
      have alloc: "vm_allocate_page st = (Ok c, st\<lparr>vm_memory := ?mf, vm_alloc := pa\<rparr>)"
        using page(1) by (simp add: vm_allocate_page_def)
      note take = extends_take_frame [OF inv page(4,5,2,3,6)]
      have eq: "st\<lparr>vm_memory := ?mf, vm_alloc := pa\<rparr> = \<lparr>vm_memory = ?mf, vm_alloc = pa, vm_owned = vm_owned st\<rparr>"
        by (cases st) simp
      show ?case
      proof (cases "ab_tracks_owned b \<and> op_len (vm_owned st) = MAX_OWNED_PAGES")
        case full: True
        then have "vm_push_owned c (st\<lparr>vm_memory := ?mf, vm_alloc := pa\<rparr>) =
            (Err OwnedPageCapacityExceeded, st\<lparr>vm_memory := ?mf, vm_alloc := pa\<rparr>)"
          using owned_pages_push_spec [OF V(3)] by (simp add: vm_push_owned_def)
        with full g True alloc take [OF V(3)] page(6) show ?thesis
          by (auto simp: ensure_table_def builder_ok_def bind_st_def eq intro!: consumes_same)
      next
        case room: False
        obtain op where op: "owned_pages_wf op" "if ab_tracks_owned b then owned_list op = owned_list (vm_owned st) @ [c] else op = vm_owned st"
          "(if ab_tracks_owned b then vm_push_owned c else (\<lambda>s. (Ok (), s))) (st\<lparr>vm_memory := ?mf, vm_alloc := pa\<rparr>) =
            (Ok (), \<lparr>vm_memory = ?mf, vm_alloc = pa, vm_owned = op\<rparr>)"
        proof (cases "ab_tracks_owned b")
          case tr: True
          then obtain op where "owned_pages_push c (vm_owned st) = Ok op"
            using room owned_pages_push_spec [OF V(3)] by simp
          with tr owned_pages_push_wf [OF V(3) this] show ?thesis
            by (intro that [of op]) (simp_all add: vm_push_owned_def eq)
        qed (use V(3) that [of "vm_owned st"] in \<open>simp add: eq\<close>)
        let ?st1 = "\<lparr>vm_memory = ?mf, vm_alloc = pa, vm_owned = op\<rparr>"
        have ext: "extends root st ?st1" using take [OF op(1)] .
        note X = extendsD [OF ext]
        have pt: "table_at ?mf root p = Some t" using X(3) [OF g(1) p(2)] by simp
        have tf: "frame_ok t" "c \<noteq> t"
          using space_invD(1,2) [OF V(4) g(1) p(2)] page(5) in_own_block [OF page(4)] by auto
        have e1: "page_entry ?mf t i AND PAGE_PRESENT = 0"
          using True page_entry_fill_other [OF page(4) tf g(2)] by simp
        have cz: "page_entry ?mf c j = 0" if "j < 512" for j using page_entry_fill_same [OF page(4) that] .
        have tabf: "table_at ?mf root r = table_at ?m root r" if r: "good_path r" for r
          using table_at_take_frame [OF inv page(4,5) r] .
        have fresh: "table_at ?mf root q \<noteq> Some c" if "good_path q" for q
          using space_invD(2) [OF V(4) that, of c] tabf [OF that] page(5) in_own_block [OF page(4)] by auto
        have dis: "block c PAGE_SIZE \<inter> free_set (vm_alloc ?st1) = {}" using page(6) by auto
        have link: "vm_inv root (?st1\<lparr>vm_memory := set_page_entry ?mf t i (c OR PAGE_TABLE_FLAGS OR x)\<rparr>) \<and>
            (\<forall>q. good_path q \<longrightarrow> table_at (set_page_entry ?mf t i (c OR PAGE_TABLE_FLAGS OR x)) root q =
               (if q = p @ [i] then Some c else table_at ?mf root q)) \<and>
            (\<forall>v. leaf (set_page_entry ?mf t i (c OR PAGE_TABLE_FLAGS OR x)) root v = leaf ?mf root v) \<and>
            (\<forall>q j. good_path (q @ [j]) \<longrightarrow> huge_at (set_page_entry ?mf t i (c OR PAGE_TABLE_FLAGS OR x)) root q j =
               huge_at ?mf root q j)"
          using extends_link [of root ?st1 p i t x c, simplified vm.simps, OF X(1) p(1) pt e1 x page(4) _ cz fresh] dis
          by simp
        let ?m2 = "set_page_entry ?mf t i (c OR PAGE_TABLE_FLAGS OR x)"
        let ?st2 = "\<lparr>vm_memory = ?m2, vm_alloc = pa, vm_owned = op\<rparr>"
        have run: "ensure_table b t i x st = (Ok c, ?st2)"
          using g True alloc op(3) by (simp add: ensure_table_def bind_st_def)
        have tb: "table_bytes ?m2 root \<subseteq> table_bytes ?mf root \<union> block c PAGE_SIZE"
          using link unfolding table_bytes_def by (fastforce split: if_splits)
        have out: "?m2 y = ?mf y" if "y \<notin> table_bytes ?m root" for y
          using that p(2) g by (intro set_page_entry_outside [OF tf(1) g(2)]) (auto simp: table_bytes_def)
        have eq2: "?st1\<lparr>vm_memory := ?m2\<rparr> = ?st2" by simp
        have "extends root st ?st2"
          unfolding extends_def
        proof (intro conjI allI impI)
          show "vm_inv root ?st2" using link unfolding eq2 by blast
          show "leaf (vm_memory ?st2) root v = leaf ?m root v" for v using link X(2) [of v] by simp
          show "table_at (vm_memory ?st2) root q = Some u" if "good_path q \<and> table_at ?m root q = Some u" for q u
          proof -
            have "table_at ?mf root q = Some u" using X(3) [of q u] that by simp
            moreover have "table_at ?mf root (p @ [i]) = None" using pt e1 by (simp add: table_at_snoc next_table_def)
            ultimately have "q \<noteq> p @ [i]" by auto
            then show ?thesis using link that \<open>table_at ?mf root q = Some u\<close> by simp
          qed
          show "huge_at (vm_memory ?st2) root q j = huge_at ?m root q j" if "good_path (q @ [j])" for q j
            using link X(4) [OF that] that by simp
          show "free_set (vm_alloc ?st2) \<subseteq> free_set ?pa" using page(6) by auto
          show "table_bytes (vm_memory ?st2) root \<subseteq> table_bytes ?m root \<union> (free_set ?pa - free_set (vm_alloc ?st2))"
            using tb X(6) page(5,6) by auto
          show "vm_memory ?st2 y = ?m y" if "y \<notin> free_set ?pa \<and> y \<notin> table_bytes ?m root" for y
            using out [of y] X(7) [of y] that by simp
        qed
        moreover have "accounts (ab_tracks_owned b) st ?st2"
          using op(2) page(4-7) by (auto simp: accounts_def)
        moreover have "\<forall>q. good_path q \<longrightarrow> table_at ?m2 root q = (if q = p @ [i] then Some c else table_at ?m root q)"
          using link tabf by simp
        ultimately show ?thesis using run by (simp add: builder_ok_def)
      qed
    next
      case exhausted
      then have "vm_allocate_page st = (Err AllocatorExhausted, st)" by (simp add: vm_allocate_page_def)
      with True g extends_refl [OF inv] show ?case
        by (simp add: ensure_table_def builder_ok_def bind_st_def consumes_same)
    qed
  qed
qed

text \<open>The tables on the way to an address.\<close>

abbreviation pd_path :: "u64 \<Rightarrow> nat list" where "pd_path v \<equiv> [pml4_index v, pdpt_index v]"
abbreviation pt_path :: "u64 \<Rightarrow> nat list" where "pt_path v \<equiv> [pml4_index v, pdpt_index v, pd_index v]"

definition clear_upper :: "memory \<Rightarrow> u64 \<Rightarrow> u64 \<Rightarrow> bool" where
  "clear_upper m root v \<longleftrightarrow> \<not> huge_at m root [] (pml4_index v) \<and> \<not> huge_at m root [pml4_index v] (pdpt_index v)"

definition clear_path :: "memory \<Rightarrow> u64 \<Rightarrow> u64 \<Rightarrow> bool" where
  "clear_path m root v \<longleftrightarrow> clear_upper m root v \<and> \<not> huge_at m root (pd_path v) (pd_index v)"

lemma good_paths [simp]:
  "good_path [pml4_index v]" "good_path (pd_path v)" "good_path (pt_path v)" "good_path []"
  by (simp_all add: good_path_def)

lemma clear_extends: "extends root st st' \<Longrightarrow> clear_path (vm_memory st) root v \<Longrightarrow> clear_path (vm_memory st') root v"
  by (simp add: clear_path_def clear_upper_def extendsD(4))

lemma ensure_page_directory_spec:
  assumes inv: "vm_inv root st" and b: "ab_root_paddr b = root" and cl: "clear_upper (vm_memory st) root v"
    and x: "x = 0 \<or> x = PAGE_USER"
  shows "builder_ok (ab_tracks_owned b) root st (ensure_page_directory b v x st)
    (\<lambda>pd st'. table_at (vm_memory st') root (pd_path v) = Some pd \<and>
       (\<forall>q. length q = 3 \<and> good_path q \<longrightarrow> table_at (vm_memory st') root q = table_at (vm_memory st) root q))"
  unfolding ensure_page_directory_def b
proof (rule builder_ok_bind)
  show "builder_ok (ab_tracks_owned b) root st (ensure_table b root (pml4_index v) x st)
      (\<lambda>c st'. \<forall>q. good_path q \<longrightarrow> table_at (vm_memory st') root q =
       (if q = [] @ [pml4_index v] then Some c else table_at (vm_memory st) root q))"
    using cl by (intro ensure_table_spec [OF inv _ _ _ x]) (simp_all add: clear_upper_def)
next
  fix c st' assume st': "extends root st st'" "\<forall>q. good_path q \<longrightarrow> table_at (vm_memory st') root q =
       (if q = [] @ [pml4_index v] then Some c else table_at (vm_memory st) root q)"
  have "builder_ok (ab_tracks_owned b) root st' (ensure_table b c (pdpt_index v) x st')
      (\<lambda>d st''. \<forall>q. good_path q \<longrightarrow> table_at (vm_memory st'') root q =
       (if q = [pml4_index v] @ [pdpt_index v] then Some d else table_at (vm_memory st') root q))"
  proof (rule ensure_table_spec [OF extendsD(1) [OF st'(1)] _ _ _ x])
    show "table_at (vm_memory st') root [pml4_index v] = Some c"
      using st'(2) [rule_format, of "[pml4_index v]"] by (simp del: table_at.simps)
    show "\<not> huge_at (vm_memory st') root [pml4_index v] (pdpt_index v)"
      using cl extendsD(4) [OF st'(1), of "[pml4_index v]" "pdpt_index v"] by (simp add: clear_upper_def)
  qed simp
  then show "builder_ok (ab_tracks_owned b) root st' (ensure_table b c (pdpt_index v) x st')
      (\<lambda>pd st''. table_at (vm_memory st'') root (pd_path v) = Some pd \<and>
       (\<forall>q. length q = 3 \<and> good_path q \<longrightarrow> table_at (vm_memory st'') root q = table_at (vm_memory st) root q))"
    using st'(2) by (auto simp: builder_ok_def simp del: table_at.simps split: prod.splits outcome.splits)
qed

lemma ensure_page_table_spec:
  assumes inv: "vm_inv root st" and b: "ab_root_paddr b = root" and cl: "clear_path (vm_memory st) root v"
    and x: "x = 0 \<or> x = PAGE_USER"
  shows "builder_ok (ab_tracks_owned b) root st (ensure_page_table b v x st)
    (\<lambda>pt st'. table_at (vm_memory st') root (pt_path v) = Some pt)"
  unfolding ensure_page_table_def
proof (rule builder_ok_bind)
  show "builder_ok (ab_tracks_owned b) root st (ensure_page_directory b v x st)
      (\<lambda>pd st'. table_at (vm_memory st') root (pd_path v) = Some pd \<and>
       (\<forall>q. length q = 3 \<and> good_path q \<longrightarrow> table_at (vm_memory st') root q = table_at (vm_memory st) root q))"
    using cl by (intro ensure_page_directory_spec [OF inv b _ x]) (simp add: clear_path_def)
next
  fix d st' assume st': "extends root st st'" "table_at (vm_memory st') root (pd_path v) = Some d \<and>
       (\<forall>q. length q = 3 \<and> good_path q \<longrightarrow> table_at (vm_memory st') root q = table_at (vm_memory st) root q)"
  have "builder_ok (ab_tracks_owned b) root st' (ensure_table b d (pd_index v) x st')
      (\<lambda>c st''. \<forall>q. good_path q \<longrightarrow> table_at (vm_memory st'') root q =
       (if q = pd_path v @ [pd_index v] then Some c else table_at (vm_memory st') root q))"
  proof (rule ensure_table_spec [OF extendsD(1) [OF st'(1)] _ _ _ x])
    show "\<not> huge_at (vm_memory st') root (pd_path v) (pd_index v)"
      using clear_extends [OF st'(1) cl] by (simp add: clear_path_def)
  qed (use st'(2) in simp_all)
  then show "builder_ok (ab_tracks_owned b) root st' (ensure_table b d (pd_index v) x st')
      (\<lambda>pt st''. table_at (vm_memory st'') root (pt_path v) = Some pt)"
    by (auto simp: builder_ok_def simp del: table_at.simps split: prod.splits outcome.splits)
qed

section \<open>Writing a translation\<close>

definition grows :: "u64 \<Rightarrow> vm \<Rightarrow> vm \<Rightarrow> bool" where
  "grows root st st' \<longleftrightarrow> vm_inv root st' \<and>
     free_set (vm_alloc st') \<subseteq> free_set (vm_alloc st) \<and>
     table_bytes (vm_memory st') root \<subseteq> table_bytes (vm_memory st) root \<union> (free_set (vm_alloc st) - free_set (vm_alloc st')) \<and>
     (\<forall>x. x \<notin> free_set (vm_alloc st) \<and> x \<notin> table_bytes (vm_memory st) root \<longrightarrow> vm_memory st' x = vm_memory st x)"

lemma extends_grows: "extends root st st' \<Longrightarrow> grows root st st'"
  by (simp add: extends_def grows_def)

lemma growsD:
  assumes "grows root st st'"
  shows "vm_inv root st'" "free_set (vm_alloc st') \<subseteq> free_set (vm_alloc st)"
    "table_bytes (vm_memory st') root \<subseteq> table_bytes (vm_memory st) root \<union> (free_set (vm_alloc st) - free_set (vm_alloc st'))"
    "x \<notin> free_set (vm_alloc st) \<Longrightarrow> x \<notin> table_bytes (vm_memory st) root \<Longrightarrow> vm_memory st' x = vm_memory st x"
  using assms by (simp_all add: grows_def)

lemma grows_trans: assumes "grows root a b" "grows root b c" shows "grows root a c"
  unfolding grows_def
proof (intro conjI allI impI)
  note A = growsD [OF assms(1)] and B = growsD [OF assms(2)]
  show "vm_inv root c" by (rule B(1))
  show "free_set (vm_alloc c) \<subseteq> free_set (vm_alloc a)" using A(2) B(2) by blast
  show "table_bytes (vm_memory c) root \<subseteq> table_bytes (vm_memory a) root \<union> (free_set (vm_alloc a) - free_set (vm_alloc c))"
    using A(2,3) B(2,3) by blast
  show "vm_memory c x = vm_memory a x"
    if "x \<notin> free_set (vm_alloc a) \<and> x \<notin> table_bytes (vm_memory a) root" for x
  proof -
    have "x \<notin> free_set (vm_alloc b)" "x \<notin> table_bytes (vm_memory b) root" using that A(2,3) by blast+
    then show ?thesis using A(4) B(4) that by simp
  qed
qed

definition same_page :: "u64 \<Rightarrow> u64 \<Rightarrow> bool" where
  "same_page v w \<longleftrightarrow> pt_path v = pt_path w \<and> pt_index v = pt_index w"

text \<open>An entry written to a table on the way to \<open>v\<close> that changes no inner table.\<close>

lemma grows_entry:
  assumes inv: "vm_inv root st" and t: "good_path p" "table_at (vm_memory st) root p = Some t" "i < 512"
    and tab: "\<And>q. good_path q \<Longrightarrow> table_at (set_page_entry (vm_memory st) t i e) root q = table_at (vm_memory st) root q"
  shows "grows root st (st\<lparr>vm_memory := set_page_entry (vm_memory st) t i e\<rparr>)"
proof -
  let ?m = "vm_memory st" and ?m' = "set_page_entry (vm_memory st) t i e"
  note S = space_invD [OF vm_invD(4) [OF inv] t(1,2)]
  have "space_inv ?m' root (free_set (vm_alloc st))"
    using vm_invD(4) [OF inv] tab unfolding space_inv_def by metis
  moreover have "table_bytes ?m' root = table_bytes ?m root" using tab by (rule table_bytes_cong)
  moreover have "?m' y = ?m y" if "y \<notin> table_bytes ?m root" for y
    using that t by (intro set_page_entry_outside [OF S(1) t(3)]) (auto simp: table_bytes_def)
  ultimately show ?thesis using inv by (simp add: grows_def vm_inv_def)
qed

lemma write_page:
  fixes e :: u64
  assumes inv: "vm_inv root st" and t: "table_at (vm_memory st) root (pt_path v) = Some t"
  defines "m' \<equiv> set_page_entry (vm_memory st) t (pt_index v) e"
  shows "grows root st (st\<lparr>vm_memory := m'\<rparr>)"
    "good_path q \<Longrightarrow> table_at m' root q = table_at (vm_memory st) root q"
    "good_path (q @ [j]) \<Longrightarrow> huge_at m' root q j = huge_at (vm_memory st) root q j"
    "leaf m' root w = (if same_page v w then present_entry e else leaf (vm_memory st) root w)"
proof -
  let ?m = "vm_memory st" and ?i = "pt_index v"
  note S = space_invD [OF vm_invD(4) [OF inv]]
  have tf: "frame_ok t" using S(1) [OF _ t] by simp
  have ent: "page_entry m' u j = (if (u, j) = (t, ?i) then e else page_entry ?m u j)" if "frame_ok u" "j < 512" for u j
    using page_entry_other [OF tf that(1) _ that(2), of ?i] by (auto simp: m'_def)
  have inner: "page_entry m' u j = page_entry ?m u j"
    if "good_path q" "length q \<le> 2" "table_at ?m root q = Some u" "j < 512" for q u j
  proof -
    have "u \<noteq> t" using S(3) [OF _ t that(1)] that(2,3) by auto
    then show ?thesis using ent [OF S(1) [OF that(1,3)] that(4)] by auto
  qed
  have tab: "table_at m' root q = table_at ?m root q" if "good_path q" for q
    by (rule table_at_same [OF _ that]) (use inner in \<open>simp add: next_table_def\<close>)
  then show "good_path q \<Longrightarrow> table_at m' root q = table_at ?m root q" .
  show "grows root st (st\<lparr>vm_memory := m'\<rparr>)"
    using tab grows_entry [OF inv _ t] unfolding m'_def by simp
  show "huge_at m' root q j = huge_at ?m root q j" if "good_path (q @ [j])"
    using that tab [of q] inner [of q _ j] by (auto simp: huge_at_def good_path_snoc)
  show "leaf m' root w = (if same_page v w then present_entry e else leaf ?m root w)"
  proof (cases "table_at ?m root (pd_path w)")
    case None
    have "pt_path w \<noteq> pt_path v"
    proof
      assume "pt_path w = pt_path v"
      with None table_at_snoc [of ?m root "pd_path w" "pd_index w"] t show False by (simp del: table_at.simps)
    qed
    with None tab [of "pd_path w"] show ?thesis by (auto simp: leaf_def same_page_def simp del: table_at.simps)
  next
    case (Some d)
    have d: "page_entry m' d (pd_index w) = page_entry ?m d (pd_index w)" using inner [OF _ _ Some] by simp
    have ptw: "table_at ?m root (pt_path w) = next_table ?m d (pd_index w)"
      using Some table_at_snoc [of ?m root "pd_path w" "pd_index w"] by (simp del: table_at.simps)
    have nx: "next_table m' d (pd_index w) = next_table ?m d (pd_index w)" using d by (simp add: next_table_def)
    show ?thesis
    proof (cases "next_table ?m d (pd_index w)")
      case None
      then have "pt_path w \<noteq> pt_path v" using t ptw by auto
      with None Some tab [of "pd_path w"] d nx show ?thesis
        unfolding leaf_def same_page_def by (auto simp del: table_at.simps)
    next
      case u: (Some u)
      then have uw: "table_at ?m root (pt_path w) = Some u" using ptw by simp
      have "u = t \<longleftrightarrow> pt_path w = pt_path v" using S(3) [OF _ t, of "pt_path w"] uw t by auto
      moreover have "page_entry ?m d (pd_index w) AND PAGE_HUGE = 0"
        using u by (auto simp: next_table_def Let_def split: if_splits)
      ultimately show ?thesis
        using u Some tab [of "pd_path w"] d nx ent [OF S(1) [OF _ uw], of "pt_index w"]
        unfolding leaf_def same_page_def by (auto simp del: table_at.simps)
    qed
  qed
qed

lemma write_huge:
  assumes inv: "vm_inv root st" and t: "table_at (vm_memory st) root (pd_path v) = Some t"
    and none: "table_at (vm_memory st) root (pt_path v) = None"
    and e: "e AND PAGE_PRESENT \<noteq> 0" "e AND PAGE_HUGE \<noteq> 0"
  defines "m' \<equiv> set_page_entry (vm_memory st) t (pd_index v) e"
  shows "grows root st (st\<lparr>vm_memory := m'\<rparr>)"
    "good_path q \<Longrightarrow> table_at m' root q = table_at (vm_memory st) root q"
    "good_path (q @ [j]) \<Longrightarrow> huge_at m' root q j \<longleftrightarrow> huge_at (vm_memory st) root q j \<or> q = pd_path v \<and> j = pd_index v"
    "leaf m' root w = (if pt_path w = pt_path v then Some e else leaf (vm_memory st) root w)"
proof -
  let ?m = "vm_memory st" and ?i = "pd_index v"
  note S = space_invD [OF vm_invD(4) [OF inv]]
  have tf: "frame_ok t" using S(1) [OF _ t] by simp
  have ent: "page_entry m' u j = (if (u, j) = (t, ?i) then e else page_entry ?m u j)" if "frame_ok u" "j < 512" for u j
    using page_entry_other [OF tf that(1) _ that(2), of ?i] by (auto simp: m'_def)
  have ti: "next_table ?m t ?i = None"
    using none t table_at_snoc [of ?m root "pd_path v" ?i] by (simp del: table_at.simps)
  have nx: "next_table m' u j = next_table ?m u j" if "frame_ok u" "j < 512" for u j
    using ent [OF that] e ti by (auto simp: next_table_def Let_def split: if_splits)
  have tab: "table_at m' root q = table_at ?m root q" if "good_path q" for q
    by (rule table_at_same [OF _ that]) (use nx S(1) in blast)
  then show "good_path q \<Longrightarrow> table_at m' root q = table_at ?m root q" .
  show "grows root st (st\<lparr>vm_memory := m'\<rparr>)"
    using tab grows_entry [OF inv _ t] unfolding m'_def by simp
  have only: "u = t \<longleftrightarrow> q = pd_path v" if "good_path q" "table_at ?m root q = Some u" for q u
    using S(3) [OF _ t that(1)] that(2) t by auto
  show "huge_at m' root q j \<longleftrightarrow> huge_at ?m root q j \<or> q = pd_path v \<and> j = pd_index v" if "good_path (q @ [j])"
  proof (cases "table_at ?m root q")
    case None
    with t tab [of q] that show ?thesis by (auto simp: huge_at_def good_path_snoc simp del: table_at.simps)
  next
    case (Some u)
    with tab [of q] that ent [of u j] S(1) [OF _ Some] only [OF _ Some] e show ?thesis
      by (auto simp: huge_at_def good_path_snoc simp del: table_at.simps)
  qed
  show "leaf m' root w = (if pt_path w = pt_path v then Some e else leaf ?m root w)"
  proof (cases "table_at ?m root (pd_path w)")
    case None
    then have "pt_path w \<noteq> pt_path v" using t by auto
    with None tab [of "pd_path w"] show ?thesis by (auto simp: leaf_def simp del: table_at.simps)
  next
    case (Some d)
    have df: "frame_ok d" using S(1) [OF _ Some] by simp
    have pt: "page_entry m' u (pt_index w) = page_entry ?m u (pt_index w)" if u: "next_table ?m d (pd_index w) = Some u" for u
    proof -
      have uw: "table_at ?m root (pt_path w) = Some u"
        using u Some table_at_snoc [of ?m root "pd_path w" "pd_index w"] by (simp del: table_at.simps)
      then have "u \<noteq> t" using only [OF _ uw] by auto
      then show ?thesis using ent [OF S(1) [OF _ uw], of "pt_index w"] by simp
    qed
    have "(d, pd_index w) = (t, ?i) \<longleftrightarrow> pt_path w = pt_path v" using only [OF _ Some] by auto
    with Some tab [of "pd_path w"] ent [OF df, of "pd_index w"] nx [OF df, of "pd_index w"] pt e show ?thesis
      unfolding leaf_def
      by (cases "next_table ?m d (pd_index w)") (auto simp: present_entry_def simp del: table_at.simps)
  qed
qed

section \<open>Mapping a page\<close>

lemma user_flag_cases: "flags AND PAGE_USER = 0 \<or> flags AND PAGE_USER = PAGE_USER"
proof -
  have u: "bit PAGE_USER n \<longleftrightarrow> n = 2" for n
  proof -
    have eq: "PAGE_USER = 2 ^ 2" by (simp add: PAGE_USER_def)
    show ?thesis unfolding eq bit_exp_iff by auto
  qed
  show ?thesis
  proof (cases "bit flags 2")
    case True
    then have "flags AND PAGE_USER = PAGE_USER" by (intro bit_word_eqI) (auto simp: bit_simps u)
    then show ?thesis ..
  next
    case False
    then have "flags AND PAGE_USER = 0" by (intro bit_word_eqI) (auto simp: bit_simps u)
    then show ?thesis ..
  qed
qed

definition mapped_4k :: "u64 \<Rightarrow> u64 \<Rightarrow> u64 \<Rightarrow> vm \<Rightarrow> vm \<Rightarrow> bool" where
  "mapped_4k root virt e st st' \<longleftrightarrow> grows root st st' \<and>
     (\<forall>w. leaf (vm_memory st') root w = (if same_page virt w then present_entry e else leaf (vm_memory st) root w)) \<and>
     (\<forall>q j. good_path (q @ [j]) \<longrightarrow> huge_at (vm_memory st') root q j = huge_at (vm_memory st) root q j)"

lemma map_4k_spec:
  assumes inv: "vm_inv root st" and b: "ab_root_paddr b = root" and cl: "clear_path (vm_memory st) root virt"
  shows "case map_4k b virt phys flags st of
     (Ok _, st') \<Rightarrow> mapped_4k root virt (phys OR flags) st st' \<and> accounts (ab_tracks_owned b) st st'
   | (Err e, st') \<Rightarrow> extends root st st' \<and> consumes (ab_tracks_owned b) st st' \<and>
       e \<in> {AllocatorExhausted, OwnedPageCapacityExceeded}
   | (Panic, _) \<Rightarrow> False"
proof -
  let ?r = "ensure_page_table b virt (flags AND PAGE_USER) st"
  have spec: "builder_ok (ab_tracks_owned b) root st ?r (\<lambda>pt st'. table_at (vm_memory st') root (pt_path virt) = Some pt)"
    by (rule ensure_page_table_spec [OF inv b cl user_flag_cases])
  show ?thesis
  proof (cases ?r)
    case (Pair r st1)
    show ?thesis
    proof (cases r)
      case (Ok pt)
      with spec Pair have s: "extends root st st1" "accounts (ab_tracks_owned b) st st1"
        "table_at (vm_memory st1) root (pt_path virt) = Some pt" by (simp_all add: builder_ok_def del: table_at.simps)
      note w = write_page [OF extendsD(1) [OF s(1)] s(3), where e = "phys OR flags"]
      let ?st2 = "st1\<lparr>vm_memory := set_page_entry (vm_memory st1) pt (pt_index virt) (phys OR flags)\<rparr>"
      have "mapped_4k root virt (phys OR flags) st ?st2"
        using grows_trans [OF extends_grows [OF s(1)] w(1)] w(3,4) extendsD(2,4) [OF s(1)]
        by (simp add: mapped_4k_def)
      moreover have "accounts (ab_tracks_owned b) st ?st2"
        by (rule accounts_trans [OF s(2)]) (rule accounts_same; simp)
      ultimately show ?thesis using Pair Ok by (simp add: map_4k_def bind_st_def not_le)
    qed (use spec Pair in \<open>simp_all add: map_4k_def bind_st_def builder_ok_def\<close>)
  qed
qed

definition mapped_2m :: "u64 \<Rightarrow> u64 \<Rightarrow> u64 \<Rightarrow> vm \<Rightarrow> vm \<Rightarrow> bool" where
  "mapped_2m root virt e st st' \<longleftrightarrow> grows root st st' \<and>
     (\<forall>w. leaf (vm_memory st') root w = (if pt_path w = pt_path virt then Some e else leaf (vm_memory st) root w)) \<and>
     (\<forall>q j. good_path (q @ [j]) \<longrightarrow> huge_at (vm_memory st') root q j =
        (huge_at (vm_memory st) root q j \<or> q = pd_path virt \<and> j = pd_index virt)) \<and>
     (\<forall>q. length q = 3 \<and> good_path q \<longrightarrow> table_at (vm_memory st') root q = table_at (vm_memory st) root q)"

lemma huge_entry_bits:
  assumes "flags AND PAGE_PRESENT \<noteq> 0"
  shows "(phys OR flags OR PAGE_HUGE) AND PAGE_PRESENT \<noteq> 0" "(phys OR flags OR PAGE_HUGE) AND PAGE_HUGE \<noteq> 0"
proof -
  have "bit flags 0" using assms by (simp add: PAGE_PRESENT_def and_one_eq bit_0 odd_iff_mod_2_eq_one split: if_splits)
  then have "bit ((phys OR flags OR PAGE_HUGE) AND PAGE_PRESENT) 0"
    by (simp add: bit_simps PAGE_PRESENT_def)
  then show "(phys OR flags OR PAGE_HUGE) AND PAGE_PRESENT \<noteq> 0" by auto
  have "bit PAGE_HUGE 7"
  proof -
    have eq: "PAGE_HUGE = 2 ^ 7" by (simp add: PAGE_HUGE_def)
    show ?thesis unfolding eq bit_exp_iff by simp
  qed
  then have "bit ((phys OR flags OR PAGE_HUGE) AND PAGE_HUGE) 7" by (simp add: bit_simps)
  then show "(phys OR flags OR PAGE_HUGE) AND PAGE_HUGE \<noteq> 0" by auto
qed

lemma map_2m_spec:
  assumes inv: "vm_inv root st" and b: "ab_root_paddr b = root" and cl: "clear_upper (vm_memory st) root virt"
    and none: "table_at (vm_memory st) root (pt_path virt) = None" and p: "flags AND PAGE_PRESENT \<noteq> 0"
  shows "case map_2m b virt phys flags st of
     (Ok _, st') \<Rightarrow> mapped_2m root virt (phys OR flags OR PAGE_HUGE) st st' \<and> accounts (ab_tracks_owned b) st st'
   | (Err e, st') \<Rightarrow> extends root st st' \<and> consumes (ab_tracks_owned b) st st' \<and>
       e \<in> {AllocatorExhausted, OwnedPageCapacityExceeded}
   | (Panic, _) \<Rightarrow> False"
proof -
  let ?r = "ensure_page_directory b virt (flags AND PAGE_USER) st" and ?e = "phys OR flags OR PAGE_HUGE"
  have spec: "builder_ok (ab_tracks_owned b) root st ?r
    (\<lambda>pd st'. table_at (vm_memory st') root (pd_path virt) = Some pd \<and>
       (\<forall>q. length q = 3 \<and> good_path q \<longrightarrow> table_at (vm_memory st') root q = table_at (vm_memory st) root q))"
    by (rule ensure_page_directory_spec [OF inv b cl user_flag_cases])
  show ?thesis
  proof (cases ?r)
    case (Pair r st1)
    show ?thesis
    proof (cases r)
      case (Ok pd)
      with spec Pair have s: "extends root st st1" "accounts (ab_tracks_owned b) st st1"
        "table_at (vm_memory st1) root (pd_path virt) = Some pd"
        "\<forall>q. length q = 3 \<and> good_path q \<longrightarrow> table_at (vm_memory st1) root q = table_at (vm_memory st) root q"
        by (simp_all add: builder_ok_def del: table_at.simps)
      have n1: "table_at (vm_memory st1) root (pt_path virt) = None"
        using s(4) [rule_format, of "pt_path virt"] none by (simp del: table_at.simps)
      note w = write_huge [OF extendsD(1) [OF s(1)] s(3) n1 huge_entry_bits [OF p, of phys]]
      let ?st2 = "st1\<lparr>vm_memory := set_page_entry (vm_memory st1) pd (pd_index virt) ?e\<rparr>"
      have "mapped_2m root virt ?e st ?st2"
        using grows_trans [OF extends_grows [OF s(1)] w(1)] w(2-4) extendsD(2,4) [OF s(1)] s(4)
        by (simp add: mapped_2m_def del: table_at.simps)
      moreover have "accounts (ab_tracks_owned b) st ?st2"
        by (rule accounts_trans [OF s(2)]) (rule accounts_same; simp)
      ultimately show ?thesis using Pair Ok by (simp add: map_2m_def bind_st_def not_le)
    qed (use spec Pair in \<open>simp_all add: map_2m_def bind_st_def builder_ok_def\<close>)
  qed
qed

section \<open>A 4 KiB mapping inside a 2 MiB page\<close>

lemma ensure_table_present:
  assumes "next_table (vm_memory st) t i = Some u" "i < 512"
  shows "ensure_table b t i 0 st = (Ok u, st)"
  using assms by (auto simp: ensure_table_def next_table_def Let_def split: if_splits)

lemma ensure_table_huge:
  assumes "page_entry (vm_memory st) t i AND PAGE_PRESENT \<noteq> 0" "i < 512"
  shows "ensure_table b t i 0 st = (Ok (page_entry (vm_memory st) t i AND ADDRESS_MASK), st)"
  using assms by (simp add: ensure_table_def Let_def)

lemma map_4k_in_huge:
  assumes pd: "table_at (vm_memory st) (ab_root_paddr b) (pd_path virt) = Some pd"
    and e: "page_entry (vm_memory st) pd (pd_index virt) = e" "e AND PAGE_PRESENT \<noteq> 0"
    and flags: "flags AND PAGE_USER = 0"
  shows "map_4k b virt phys flags st =
    (Ok (), st\<lparr>vm_memory := set_page_entry (vm_memory st) (e AND ADDRESS_MASK) (pt_index virt) (phys OR flags)\<rparr>)"
proof -
  obtain pdpt where "next_table (vm_memory st) (ab_root_paddr b) (pml4_index virt) = Some pdpt"
    "next_table (vm_memory st) pdpt (pdpt_index virt) = Some pd"
    using pd by (auto simp: bind_eq_Some_conv)
  then have "ensure_page_directory b virt 0 st = (Ok pd, st)"
    by (simp add: ensure_page_directory_def bind_st_def ensure_table_present)
  with e ensure_table_huge [of st pd "pd_index virt" b] have "ensure_page_table b virt 0 st = (Ok (e AND ADDRESS_MASK), st)"
    by (simp add: ensure_page_table_def bind_st_def)
  then show ?thesis by (simp add: map_4k_def bind_st_def flags not_le)
qed

section \<open>Properties\<close>

definition sample_allocator :: "u64 \<Rightarrow> u64 \<Rightarrow> physical_allocator" where
  "sample_allocator start end =
     \<lparr>pa_regions = (replicate MAX_FREE_RANGES region_empty)[0 := \<lparr>pr_start = start, pr_end = end\<rparr>], pa_count = 1\<rparr>"

lemma active_sample_allocator [simp]: "active (sample_allocator a e) = [\<lparr>pr_start = a, pr_end = e\<rparr>]"
  by (simp add: active_def sample_allocator_def MAX_FREE_RANGES_def numeral_eq_Suc)

lemma sample_allocator_inv [simp]: "a < e \<Longrightarrow> alloc_inv (sample_allocator a e)"
  by (simp add: alloc_inv_def gapped_def table_wf_def) (simp add: sample_allocator_def MAX_FREE_RANGES_def)

definition sample_vm :: vm where
  "sample_vm = \<lparr>vm_memory = (\<lambda>_. 0), vm_alloc = sample_allocator 0x1000000 0x1010000, vm_owned = owned_pages_empty\<rparr>"

lemma sample_allocate:
  assumes "a \<noteq> 0" "unat a + 4096 < unat e"
  shows "allocate_page (sample_allocator a e) m = Ok (a, sample_allocator (a + PAGE_SIZE) e, fill_bytes m a 0 4096)"
proof -
  have e: "unat e < 2 ^ 64" using unsigned_less [of e] by simp
  then have u: "unat (a + PAGE_SIZE) = unat a + 4096"
    using assms(2) unat_add_lem [of a PAGE_SIZE] by (simp add: PAGE_SIZE_def)
  moreover from this have "a + PAGE_SIZE \<noteq> 0" by (metis add_is_0 unat_0 zero_neq_numeral)
  moreover have "unat a + 4096 < 2 ^ 64" using assms(2) e by simp
  ultimately show ?thesis
    using assms unfolding allocate_page_def sample_allocator_def
    by (subst allocate_from.simps)
       (simp add: region_allocate_page_def region_is_empty_def checked_add_def MAX_FREE_RANGES_def
          word_le_nat_alt word_less_nat_alt PAGE_SIZE_def)
qed

lemma sample_ensure_table:
  assumes "page_entry m t i = 0" "i < 512" "a \<noteq> 0" "unat a + 4096 < unat e" "\<not> ab_tracks_owned b"
  shows "ensure_table b t i x \<lparr>vm_memory = m, vm_alloc = sample_allocator a e, vm_owned = op\<rparr> =
    (Ok a, \<lparr>vm_memory = set_page_entry (fill_bytes m a 0 4096) t i (a OR PAGE_TABLE_FLAGS OR x),
            vm_alloc = sample_allocator (a + PAGE_SIZE) e, vm_owned = op\<rparr>)"
  using assms sample_allocate [OF assms(3,4), of m]
  by (simp add: ensure_table_def bind_st_def vm_allocate_page_def)

lemma sample_new_table_entry:
  assumes "frame_ok a" "frame_ok t" "a \<noteq> t" "i < 512" "j < 512"
  shows "page_entry (set_page_entry (fill_bytes m a 0 4096) t i v) a j = 0"
  using assms page_entry_other [of t a i j "fill_bytes m a 0 4096" v] page_entry_fill_same by simp

lemma page_entry_zero [simp]: "page_entry (\<lambda>_. 0) t i = 0"
proof -
  have "read_mem (\<lambda>_. 0) (t + 8 * of_nat i) 8 = replicate 8 0"
    by (intro nth_equalityI) (simp_all add: read_mem_def)
  then show ?thesis by (simp only: page_entry_def from_le_bytes_zeros)
qed

lemma table_at_zero: "table_at (\<lambda>_. 0) root p = Some t \<longleftrightarrow> p = [] \<and> t = root"
  by (cases p) (auto simp: next_table_def)

lemma block_bound:
  assumes "frame_ok t" "x \<in> block t PAGE_SIZE"
  shows "unat t \<le> unat x \<and> unat x < unat t + 4096"
proof -
  have "unat (t + PAGE_SIZE) = unat t + 4096"
    using assms(1) unat_add_lem [of t PAGE_SIZE] by (simp add: frame_ok_def PAGE_SIZE_def)
  then show ?thesis using assms(2) by (simp add: block_def word_le_nat_alt word_less_nat_alt)
qed

lemma sample_vm_inv: "vm_inv 0x2000000 sample_vm"
proof -
  have f: "frame_ok 0x2000000" by (simp add: frame_ok_def)
  have "x \<notin> span \<lparr>pr_start = 0x1000000, pr_end = 0x1010000\<rparr>" if "x \<in> block 0x2000000 PAGE_SIZE" for x
    using block_bound [OF f that] by (simp add: span_def word_less_nat_alt)
  then show ?thesis
    using f by (auto simp: vm_inv_def sample_vm_def frames_ok_def aligned_region_def space_inv_def table_at_zero spans_def)
qed



text \<open>C39. Mapping a 4 KiB page whose address lies inside a 2 MiB page: the builder follows the huge entry
  as if it pointed to a page table and writes the new entry into the very memory the 2 MiB page
  maps; the page tables are unchanged.\<close>

theorem map_4k_over_huge_page_writes_frame:
  assumes "table_at (vm_memory st) (ab_root_paddr b) (pd_path virt) = Some pd"
    and "page_entry (vm_memory st) pd (pd_index virt) = frame OR 0x83"
    and "frame_ok frame" "flags AND PAGE_USER = 0"
  shows "map_4k b virt phys flags st =
    (Ok (), st\<lparr>vm_memory := set_page_entry (vm_memory st) frame (pt_index virt) (phys OR flags)\<rparr>)"
proof -
  have "unat (0x83 :: u64) < 4096" by simp
  note fb = frame_bits [OF assms(3) this]
  have "unat PAGE_PRESENT < 4096" by (simp add: PAGE_PRESENT_def)
  with fb(3) [of PAGE_PRESENT] have "(frame OR 0x83) AND PAGE_PRESENT = 0x83 AND PAGE_PRESENT" by blast
  then have "(frame OR 0x83) AND PAGE_PRESENT \<noteq> 0" by (simp add: PAGE_PRESENT_def)
  from map_4k_in_huge [OF assms(1,2) this assms(4), of phys] show ?thesis by (simp only: fb(1))
qed

theorem map_4k_over_huge_page_writes_frame_witness:
  "\<exists>st. vm_inv 0x2000000 st \<and>
     snd (map_4k \<lparr>ab_root_paddr = 0x2000000, ab_tracks_owned = False\<rparr> 0x40001000 0x40001000 3 st) =
     st\<lparr>vm_memory := set_page_entry (vm_memory st) 0x40000000 1 0x40001003\<rparr>"
proof -
  let ?b = "\<lparr>ab_root_paddr = 0x2000000, ab_tracks_owned = False\<rparr> :: address_space_builder"
  have ix: "pml4_index 0x40000000 = 0" "pdpt_index 0x40000000 = 1" "pd_index 0x40000000 = 0"
    "pml4_index 0x40001000 = 0" "pdpt_index 0x40001000 = 1" "pd_index 0x40001000 = 0" "pt_index 0x40001000 = 1"
    by code_simp+
  have fr: "frame_ok 0x2000000" "frame_ok 0x1000000" "frame_ok 0x1001000" "frame_ok 0x40000000"
    by (simp_all add: frame_ok_def)
  have "fst (map_2m ?b 0x40000000 0x40000000 3 sample_vm) = Ok ()"
    by (simp add: map_2m_def ensure_page_directory_def bind_st_def ix sample_vm_def
        sample_ensure_table sample_new_table_entry fr PAGE_SIZE_def)
  then obtain st where run: "map_2m ?b 0x40000000 0x40000000 3 sample_vm = (Ok (), st)"
    by (cases "map_2m ?b 0x40000000 0x40000000 3 sample_vm") auto
  have "clear_upper (vm_memory sample_vm) 0x2000000 0x40000000"
    by (simp add: clear_upper_def huge_at_def sample_vm_def)
  moreover have "table_at (vm_memory sample_vm) 0x2000000 (pt_path 0x40000000) = None"
    by (simp add: sample_vm_def next_table_def)
  moreover have "(3 :: u64) AND PAGE_PRESENT \<noteq> 0" by (simp add: PAGE_PRESENT_def)
  moreover have "0x40000000 OR 3 OR PAGE_HUGE = 0x40000083" by (simp add: PAGE_HUGE_def)
  ultimately have m: "mapped_2m 0x2000000 0x40000000 0x40000083 sample_vm st"
    using map_2m_spec [of "0x2000000" sample_vm ?b "0x40000000" 3 "0x40000000"] sample_vm_inv run by simp
  have "huge_at (vm_memory st) 0x2000000 [0, 1] 0"
    using m by (simp add: mapped_2m_def ix good_path_def)
  then obtain pd where pd: "table_at (vm_memory st) 0x2000000 [0, 1] = Some pd"
    "page_entry (vm_memory st) pd 0 AND PAGE_HUGE \<noteq> 0" unfolding huge_at_def by blast
  have "leaf (vm_memory st) 0x2000000 0x40000000 = Some 0x40000083" using m by (simp add: mapped_2m_def)
  then have "page_entry (vm_memory st) pd 0 = 0x40000000 OR 0x83"
    using pd unfolding leaf_def ix by (simp add: present_entry_def del: table_at.simps split: if_splits)
  then have "map_4k ?b 0x40001000 0x40001000 3 st =
      (Ok (), st\<lparr>vm_memory := set_page_entry (vm_memory st) 0x40000000 1 0x40001003\<rparr>)"
    using map_4k_over_huge_page_writes_frame [of st ?b "0x40001000" pd "0x40000000" 3 "0x40001000"] pd(1) fr(4)
    by (simp add: ix PAGE_USER_def del: table_at.simps)
  moreover have "vm_inv 0x2000000 st" using m by (auto simp: mapped_2m_def dest: growsD(1))
  ultimately show ?thesis by auto
qed

end
