(* ===== verification/Range_Mapping.thy ===== *)
theory Range_Mapping
  imports Paging
begin

text \<open>
  What the builder's range loops establish: after \<^verbatim>\<open>map_identity_2m_range\<close> and
  \<^verbatim>\<open>map_identity_4k_range\<close> every address of the range translates to itself with the given flags
  and every other address translates as before. Addresses are taken below \<open>2 ^ 48\<close>, where the four
  table indices determine the page.
\<close>

section \<open>Indices and page numbers\<close>

lemma index_nat:
  "pml4_index w = unat w div 2 ^ 39 mod 512" "pdpt_index w = unat w div 2 ^ 30 mod 512"
  "pd_index w = unat w div 2 ^ 21 mod 512" "pt_index w = unat w div 2 ^ 12 mod 512"
proof -
  have "unat (drop_bit n w AND 0x1ff) = unat w div 2 ^ n mod 512" for n
  proof -
    have eq: "drop_bit n w AND 0x1ff = take_bit 9 (drop_bit n w)"
      by (simp add: take_bit_eq_mask mask_eq_exp_minus_1)
    have "unat w < 2 ^ 64" using unsigned_less [of w] by simp
    then have d: "unat (drop_bit n w) = unat w div 2 ^ n"
      by (simp add: unsigned_drop_bit_eq drop_bit_eq_div [where ?'a = nat] take_bit_nat_eq_self)
    have "unat (take_bit 9 x) = unat x mod 512" for x :: u64
      by (simp add: unsigned_take_bit_eq take_bit_eq_mod [where ?'a = nat])
    then show ?thesis by (simp only: eq d)
  qed
  then show "pml4_index w = unat w div 2 ^ 39 mod 512" "pdpt_index w = unat w div 2 ^ 30 mod 512"
    "pd_index w = unat w div 2 ^ 21 mod 512" "pt_index w = unat w div 2 ^ 12 mod 512"
    by (simp_all only: pml4_index_def pdpt_index_def pd_index_def pt_index_def)
qed

lemma digits_unique:
  fixes a b :: nat
  assumes "a < 512 * k" "b < 512 * k" "a div 512 = b div 512" "a mod 512 = b mod 512"
  shows "a = b"
  using assms(3,4) by (metis div_mult_mod_eq)

lemma pt_path_iff:
  assumes "unat v < 2 ^ 48" "unat w < 2 ^ 48"
  shows "pt_path v = pt_path w \<longleftrightarrow> unat v div 2 ^ 21 = unat w div 2 ^ 21"
proof -
  let ?a = "unat v div 2 ^ 21" and ?b = "unat w div 2 ^ 21"
  have up: "n div 2 ^ 30 = n div 2 ^ 21 div 512" "n div 2 ^ 39 = n div 2 ^ 21 div 512 div 512" for n :: nat
    by (simp_all flip: div_mult2_eq)
  have top: "n div 2 ^ 21 div 512 div 512 mod 512 = n div 2 ^ 21 div 512 div 512" if "n < 2 ^ 48" for n :: nat
  proof -
    have "n div 2 ^ 39 < 512" using that by (simp add: div_less_iff_less_mult)
    then show ?thesis by (simp only: up(2)) simp
  qed
  have "pt_path v = pt_path w \<longleftrightarrow> ?a div 512 div 512 = ?b div 512 div 512 \<and>
      ?a div 512 mod 512 = ?b div 512 mod 512 \<and> ?a mod 512 = ?b mod 512"
    by (simp only: list.inject index_nat up top [OF assms(1)] top [OF assms(2)]) simp
  also have "\<dots> \<longleftrightarrow> ?a = ?b"
    by (metis div_mult_mod_eq)
  finally show ?thesis .
qed

lemma same_page_iff:
  assumes "unat v < 2 ^ 48" "unat w < 2 ^ 48"
  shows "same_page v w \<longleftrightarrow> unat v div 4096 = unat w div 4096"
proof -
  have up: "n div 2 ^ 21 = n div 4096 div 512" for n :: nat by (simp flip: div_mult2_eq)
  have "pt_path v = pt_path w \<longleftrightarrow> unat v div 4096 div 512 = unat w div 4096 div 512"
    using pt_path_iff [OF assms] by (simp only: up)
  then have "same_page v w \<longleftrightarrow> unat v div 4096 div 512 = unat w div 4096 div 512 \<and>
      unat v div 4096 mod 512 = unat w div 4096 mod 512"
    by (simp only: same_page_def index_nat(4)) simp
  also have "\<dots> \<longleftrightarrow> unat v div 4096 = unat w div 4096" by (metis div_mult_mod_eq)
  finally show ?thesis .
qed

lemma unat_of_nat48: "n < 2 ^ 48 \<Longrightarrow> unat (of_nat n :: u64) = n"
  by (simp add: unsigned_of_nat take_bit_nat_eq_self)

section \<open>2 MiB ranges\<close>

text \<open>An address space with no page tables yet: only huge pages below the directories.\<close>

definition no_page_tables :: "memory \<Rightarrow> u64 \<Rightarrow> bool" where
  "no_page_tables m root \<longleftrightarrow> (\<forall>q. length q = 3 \<and> good_path q \<longrightarrow> table_at m root q = None)"

definition upper_clear :: "memory \<Rightarrow> u64 \<Rightarrow> bool" where
  "upper_clear m root \<longleftrightarrow> (\<forall>q j. good_path (q @ [j]) \<and> length q < 2 \<longrightarrow> \<not> huge_at m root q j)"

lemma upper_clearD: "upper_clear m root \<Longrightarrow> clear_upper m root v"
  by (auto simp: upper_clear_def clear_upper_def good_path_def)

definition identity_2m :: "nat \<Rightarrow> nat \<Rightarrow> u64 \<Rightarrow> u64 \<Rightarrow> vm \<Rightarrow> vm \<Rightarrow> bool" where
  "identity_2m a limit flags root st st' \<longleftrightarrow> grows root st st' \<and>
     (\<forall>w. unat w < 2 ^ 48 \<longrightarrow> leaf (vm_memory st') root w =
        (if a \<le> unat w \<and> unat w < limit
         then Some (of_nat (unat w div 0x200000 * 0x200000) OR flags OR PAGE_HUGE)
         else leaf (vm_memory st) root w)) \<and>
     (\<forall>w. unat w < 2 ^ 48 \<longrightarrow> huge_at (vm_memory st') root (pd_path w) (pd_index w) =
        (huge_at (vm_memory st) root (pd_path w) (pd_index w) \<or> a \<le> unat w \<and> unat w < limit)) \<and>
     no_page_tables (vm_memory st') root \<and> upper_clear (vm_memory st') root"

lemma mapped_2m_identity:
  assumes m: "mapped_2m root (of_nat a) e st st'" and a: "a < limit" "0x200000 dvd a" "0x200000 dvd limit" "limit \<le> 2 ^ 48"
    and w: "unat w < 2 ^ 48"
  shows "leaf (vm_memory st') root w = (if a \<le> unat w \<and> unat w < a + 0x200000 then Some e else leaf (vm_memory st) root w)"
    "huge_at (vm_memory st') root (pd_path w) (pd_index w) =
      (huge_at (vm_memory st) root (pd_path w) (pd_index w) \<or> a \<le> unat w \<and> unat w < a + 0x200000)"
proof -
  have ua: "unat (of_nat a :: u64) = a" using a by (intro unat_of_nat48) linarith
  have "pt_path w = pt_path (of_nat a) \<longleftrightarrow> unat w div 0x200000 = a div 0x200000"
    using pt_path_iff [of w "of_nat a"] w a by (simp add: ua)
  also have "\<dots> \<longleftrightarrow> a \<le> unat w \<and> unat w < a + 0x200000"
  proof -
    obtain k where "a = 0x200000 * k" using a(2) by (elim dvdE)
    then show ?thesis by (auto simp: div_nat_eqI dest: sym)
  qed
  finally have iff: "pt_path w = pt_path (of_nat a) \<longleftrightarrow> a \<le> unat w \<and> unat w < a + 0x200000" .
  then show "leaf (vm_memory st') root w = (if a \<le> unat w \<and> unat w < a + 0x200000 then Some e else leaf (vm_memory st) root w)"
    using m by (simp add: mapped_2m_def)
  have "good_path (pd_path w @ [pd_index w])" by simp
  then show "huge_at (vm_memory st') root (pd_path w) (pd_index w) =
      (huge_at (vm_memory st) root (pd_path w) (pd_index w) \<or> a \<le> unat w \<and> unat w < a + 0x200000)"
    using m iff unfolding mapped_2m_def by auto
qed

lemma mapped_2m_keeps:
  assumes "mapped_2m root v e st st'"
  shows "vm_inv root st'" "no_page_tables (vm_memory st) root \<Longrightarrow> no_page_tables (vm_memory st') root"
    "upper_clear (vm_memory st) root \<Longrightarrow> upper_clear (vm_memory st') root"
  using assms by (auto simp: mapped_2m_def no_page_tables_def upper_clear_def dest: growsD(1))

lemma identity_2m_step:
  assumes m: "mapped_2m root (of_nat a) (of_nat a OR flags OR PAGE_HUGE) st st1"
    and i: "identity_2m (a + 0x200000) limit flags root st1 st2"
    and a: "a < limit" "0x200000 dvd a" "0x200000 dvd limit" "limit \<le> 2 ^ 48"
  shows "identity_2m a limit flags root st st2"
proof -
  have le: "a + 0x200000 \<le> limit"
  proof -
    obtain k l where kl: "a = 0x200000 * k" "limit = 0x200000 * l" using a(2,3) by (auto elim!: dvdE)
    with a(1) have "k + 1 \<le> l" by simp
    then show ?thesis using kl mult_le_mono2 [of "k + 1" l "0x200000"] by simp
  qed
  have down: "n div 0x200000 * 0x200000 = a" if "a \<le> n" "n < a + 0x200000" for n
  proof -
    obtain k where k: "a = 0x200000 * k" using a(2) by (elim dvdE)
    then have "n div 0x200000 = k" using that by (intro div_nat_eqI) simp_all
    then show ?thesis using k by simp
  qed
  have g: "grows root st st2" using m i grows_trans by (auto simp: mapped_2m_def identity_2m_def)
  have lf: "leaf (vm_memory st2) root w = (if a \<le> unat w \<and> unat w < limit
         then Some (of_nat (unat w div 0x200000 * 0x200000) OR flags OR PAGE_HUGE)
         else leaf (vm_memory st) root w)" if "unat w < 2 ^ 48" for w
    using mapped_2m_identity(1) [OF m a that] i that le down [of "unat w"] by (auto simp: identity_2m_def)
  have hg: "huge_at (vm_memory st2) root (pd_path w) (pd_index w) =
        (huge_at (vm_memory st) root (pd_path w) (pd_index w) \<or> a \<le> unat w \<and> unat w < limit)" if "unat w < 2 ^ 48" for w
    using mapped_2m_identity(2) [OF m a that] i that le by (auto simp: identity_2m_def)
  show ?thesis using g lf hg i by (simp add: identity_2m_def)
qed

lemma map_identity_2m_from_spec:
  assumes "vm_inv root st" "ab_root_paddr b = root" "no_page_tables (vm_memory st) root" "upper_clear (vm_memory st) root"
    "0x200000 dvd a" "0x200000 dvd limit" "limit \<le> 2 ^ 48" "flags AND PAGE_PRESENT \<noteq> 0"
  shows "case map_identity_from (\<lambda>x. map_2m b x x flags) 0x200000 a limit st of
     (Ok _, st') \<Rightarrow> identity_2m a limit flags root st st' \<and> accounts (ab_tracks_owned b) st st'
   | (Err e, st') \<Rightarrow> grows root st st' \<and> consumes (ab_tracks_owned b) st st' \<and>
       e \<in> {AllocatorExhausted, OwnedPageCapacityExceeded}
   | (Panic, _) \<Rightarrow> False"
  using assms
proof (induction "limit - a" arbitrary: a st rule: less_induct)
  case less
  show ?case
  proof (cases "a < limit")
    case False
    have "grows root st st" using less.prems(1) by (simp add: grows_def)
    with False less.prems show ?thesis
      by (subst map_identity_from.simps) (auto simp: identity_2m_def accounts_same)
  next
    case True
    let ?r = "map_2m b (of_nat a) (of_nat a) flags st"
    have none: "table_at (vm_memory st) root (pt_path (of_nat a)) = None"
      using less.prems(3) by (simp add: no_page_tables_def del: table_at.simps)
    note spec = map_2m_spec [OF less.prems(1,2) upper_clearD [OF less.prems(4)] none less.prems(8), of "of_nat a"]
    obtain r st1 where r: "?r = (r, st1)" by (cases ?r)
    show ?thesis
    proof (cases r)
      case (Ok u)
      with spec r have m: "mapped_2m root (of_nat a) (of_nat a OR flags OR PAGE_HUGE) st st1"
        "accounts (ab_tracks_owned b) st st1" by simp_all
      have g: "grows root st st1" using m(1) by (simp add: mapped_2m_def)
      note K = mapped_2m_keeps [OF m(1)]
      have "0x200000 dvd a + 0x200000" using less.prems(5) by simp
      with less.hyps [of "a + 0x200000" st1] True K less.prems
      have IH: "case map_identity_from (\<lambda>x. map_2m b x x flags) 0x200000 (a + 0x200000) limit st1 of
         (Ok _, st') \<Rightarrow> identity_2m (a + 0x200000) limit flags root st1 st' \<and> accounts (ab_tracks_owned b) st1 st'
       | (Err e, st') \<Rightarrow> grows root st1 st' \<and> consumes (ab_tracks_owned b) st1 st' \<and>
           e \<in> {AllocatorExhausted, OwnedPageCapacityExceeded}
       | (Panic, _) \<Rightarrow> False" by simp
      have run: "map_identity_from (\<lambda>x. map_2m b x x flags) 0x200000 a limit st =
          map_identity_from (\<lambda>x. map_2m b x x flags) 0x200000 (a + 0x200000) limit st1"
        using True r Ok by (subst map_identity_from.simps) (simp add: bind_st_def)
      obtain r2 st2 where r2: "map_identity_from (\<lambda>x. map_2m b x x flags) 0x200000 (a + 0x200000) limit st1 = (r2, st2)"
        by fastforce
      show ?thesis
        using IH r2 identity_2m_step [OF m(1) _ True less.prems(5,6,7)] grows_trans [OF g] accounts_trans [OF m(2)]
          consumes_trans [OF accounts_consumes [OF m(2)]]
        unfolding run by (cases r2) auto
    next
      case (Err e)
      with spec r True show ?thesis
        by (subst map_identity_from.simps) (auto simp: bind_st_def dest: extends_grows)
    next
      case Panic
      with spec r show ?thesis by simp
    qed
  qed
qed

section \<open>4 KiB ranges\<close>

definition identity_4k :: "nat \<Rightarrow> nat \<Rightarrow> u64 \<Rightarrow> u64 \<Rightarrow> vm \<Rightarrow> vm \<Rightarrow> bool" where
  "identity_4k a limit flags root st st' \<longleftrightarrow> grows root st st' \<and>
     (\<forall>w. unat w < 2 ^ 48 \<longrightarrow> leaf (vm_memory st') root w =
        (if a \<le> unat w \<and> unat w < limit
         then present_entry (of_nat (unat w div 4096 * 4096) OR flags)
         else leaf (vm_memory st) root w)) \<and>
     (\<forall>q j. good_path (q @ [j]) \<longrightarrow> huge_at (vm_memory st') root q j = huge_at (vm_memory st) root q j)"

lemma identity_4k_step:
  assumes m: "mapped_4k root (of_nat a) (of_nat a OR flags) st st1"
    and i: "identity_4k (a + 4096) limit flags root st1 st2"
    and a: "a < limit" "4096 dvd a" "4096 dvd limit" "limit \<le> 2 ^ 48"
  shows "identity_4k a limit flags root st st2"
proof -
  obtain k l where kl: "a = 4096 * k" "limit = 4096 * l" using a(2,3) by (auto elim!: dvdE)
  with a(1) have "k + 1 \<le> l" by simp
  then have le: "a + 4096 \<le> limit" using kl mult_le_mono2 [of "k + 1" l 4096] by simp
  have ua: "unat (of_nat a :: u64) = a" using a by (intro unat_of_nat48) linarith
  have page: "same_page (of_nat a) w \<longleftrightarrow> a \<le> unat w \<and> unat w < a + 4096" if "unat w < 2 ^ 48" for w
  proof -
    have "same_page (of_nat a) w \<longleftrightarrow> unat w div 4096 = k"
      using same_page_iff [of "of_nat a" w] that a ua kl by auto
    also have "\<dots> \<longleftrightarrow> a \<le> unat w \<and> unat w < a + 4096"
      using kl by (auto simp: div_nat_eqI dest: sym)
    finally show ?thesis .
  qed
  have down: "n div 4096 * 4096 = a" if "a \<le> n" "n < a + 4096" for n
  proof -
    have "n div 4096 = k" using that kl by (intro div_nat_eqI) simp_all
    then show ?thesis using kl by simp
  qed
  have g: "grows root st st2" using m i grows_trans by (auto simp: mapped_4k_def identity_4k_def)
  have "leaf (vm_memory st2) root w = (if a \<le> unat w \<and> unat w < limit
         then present_entry (of_nat (unat w div 4096 * 4096) OR flags)
         else leaf (vm_memory st) root w)" if w: "unat w < 2 ^ 48" for w
    using m i w le down [of "unat w"] page [OF w] by (auto simp: identity_4k_def mapped_4k_def)
  then show ?thesis using g m i by (simp add: identity_4k_def mapped_4k_def)
qed

lemma clear_path_huge:
  assumes "\<forall>q j. good_path (q @ [j]) \<longrightarrow> huge_at m' root q j = huge_at m root q j"
  shows "clear_path m' root v = clear_path m root v"
  using assms by (simp add: clear_path_def clear_upper_def)

text \<open>A run that failed on the way has mapped a first part of the range.\<close>

definition identity_4k_part :: "nat \<Rightarrow> nat \<Rightarrow> u64 \<Rightarrow> u64 \<Rightarrow> vm \<Rightarrow> vm \<Rightarrow> bool" where
  "identity_4k_part a limit flags root st st' \<longleftrightarrow>
     (\<exists>n. a \<le> n \<and> n \<le> limit \<and> 4096 dvd n \<and> identity_4k a n flags root st st')"

lemma identity_4k_part_grows: "identity_4k_part a limit flags root st st' \<Longrightarrow> grows root st st'"
  by (auto simp: identity_4k_part_def identity_4k_def)

lemma identity_4k_part_step:
  assumes "mapped_4k root (of_nat a) (of_nat a OR flags) st st1" "identity_4k_part (a + 4096) limit flags root st1 st2"
    "4096 dvd a" "limit \<le> 2 ^ 48"
  shows "identity_4k_part a limit flags root st st2"
proof -
  obtain n where n: "a + 4096 \<le> n" "n \<le> limit" "4096 dvd n" "identity_4k (a + 4096) n flags root st1 st2"
    using assms(2) by (auto simp: identity_4k_part_def)
  have "identity_4k a n flags root st st2"
    by (rule identity_4k_step [OF assms(1) n(4) _ assms(3) n(3)]) (use n assms(4) in simp_all)
  then show ?thesis unfolding identity_4k_part_def by (intro exI [of _ n]) (use n in simp)
qed

lemma extends_part:
  assumes "extends root st st'" "4096 dvd a" "a < limit"
  shows "identity_4k_part a limit flags root st st'"
proof -
  have "identity_4k a a flags root st st'"
    using assms(1) extends_grows [OF assms(1)] by (auto simp: identity_4k_def extends_def)
  with assms(2,3) show ?thesis unfolding identity_4k_part_def by (intro exI [of _ a]) simp
qed

lemma map_identity_4k_from_spec:
  assumes "vm_inv root st" "ab_root_paddr b = root"
    "\<And>w. a \<le> unat w \<Longrightarrow> unat w < limit \<Longrightarrow> clear_path (vm_memory st) root w"
    "4096 dvd a" "4096 dvd limit" "limit \<le> 2 ^ 48"
  shows "case map_identity_from (\<lambda>x. map_4k b x x flags) 4096 a limit st of
     (Ok _, st') \<Rightarrow> identity_4k a limit flags root st st' \<and> accounts (ab_tracks_owned b) st st'
   | (Err e, st') \<Rightarrow> identity_4k_part a limit flags root st st' \<and> consumes (ab_tracks_owned b) st st' \<and>
       e \<in> {AllocatorExhausted, OwnedPageCapacityExceeded}
   | (Panic, _) \<Rightarrow> False"
  using assms
proof (induction "limit - a" arbitrary: a st rule: less_induct)
  case less
  show ?case
  proof (cases "a < limit")
    case False
    have "grows root st st" using less.prems(1) by (simp add: grows_def)
    with False show ?thesis
      by (subst map_identity_from.simps) (auto simp: identity_4k_def accounts_same)
  next
    case True
    let ?r = "map_4k b (of_nat a) (of_nat a) flags st"
    have "unat (of_nat a :: u64) = a" using True less.prems(6) by (intro unat_of_nat48) linarith
    with True have "clear_path (vm_memory st) root (of_nat a)" by (intro less.prems(3)) simp_all
    note spec = map_4k_spec [OF less.prems(1,2) this, of "of_nat a" flags]
    obtain r st1 where r: "?r = (r, st1)" by (cases ?r)
    show ?thesis
    proof (cases r)
      case (Ok u)
      with spec r have m: "mapped_4k root (of_nat a) (of_nat a OR flags) st st1"
        "accounts (ab_tracks_owned b) st st1" by simp_all
      have g: "grows root st st1" using m(1) by (simp add: mapped_4k_def)
      note inv1 = growsD(1) [OF g]
      have cl: "clear_path (vm_memory st1) root w" if "a + 4096 \<le> unat w" "unat w < limit" for w
        using m(1) less.prems(3) [of w] that clear_path_huge by (auto simp: mapped_4k_def)
      have "4096 dvd a + 4096" using less.prems(4) by simp
      with less.hyps [of "a + 4096" st1] True inv1 cl less.prems
      have IH: "case map_identity_from (\<lambda>x. map_4k b x x flags) 4096 (a + 4096) limit st1 of
         (Ok _, st') \<Rightarrow> identity_4k (a + 4096) limit flags root st1 st' \<and> accounts (ab_tracks_owned b) st1 st'
       | (Err e, st') \<Rightarrow> identity_4k_part (a + 4096) limit flags root st1 st' \<and> consumes (ab_tracks_owned b) st1 st' \<and>
           e \<in> {AllocatorExhausted, OwnedPageCapacityExceeded}
       | (Panic, _) \<Rightarrow> False" by simp
      have run: "map_identity_from (\<lambda>x. map_4k b x x flags) 4096 a limit st =
          map_identity_from (\<lambda>x. map_4k b x x flags) 4096 (a + 4096) limit st1"
        using True r Ok by (subst map_identity_from.simps) (simp add: bind_st_def)
      obtain r2 st2 where r2: "map_identity_from (\<lambda>x. map_4k b x x flags) 4096 (a + 4096) limit st1 = (r2, st2)"
        by fastforce
      show ?thesis
        using IH r2 identity_4k_step [OF m(1) _ True less.prems(4,5,6)] identity_4k_part_step [OF m(1) _ less.prems(4,6)] accounts_trans [OF m(2)]
          consumes_trans [OF accounts_consumes [OF m(2)]]
        unfolding run by (cases r2) auto
    next
      case (Err e)
      with spec r True show ?thesis
        by (subst map_identity_from.simps) (auto simp: bind_st_def intro: extends_part less.prems(4))
    next
      case Panic
      with spec r show ?thesis by simp
    qed
  qed
qed

end
