(* ===== verification/Boot_Info.thy ===== *)
theory Boot_Info
  imports Lazers_Prelude
begin

text \<open>
  The hand-over structure between the UEFI loader and the kernel, \<^verbatim>\<open>libs/boot-info/src/lib.rs\<close>.
  The region table the loader points to is the list of its entries.
\<close>

datatype pixel_format = UnknownFormat | Rgb | Bgr

datatype memory_region_kind =
    Usable | Reserved | Loader | BootServices | RuntimeServices
  | AcpiReclaimable | AcpiNvs | Mmio | Persistent | Unusable

record framebuffer_info =
  fb_base :: u64
  fb_size :: u64
  fb_width :: u32
  fb_height :: u32
  fb_stride :: u32
  fb_format :: pixel_format

record memory_region =
  mr_start :: u64
  mr_page_count :: u64
  mr_kind :: memory_region_kind

record boot_info =
  bi_magic :: u64
  bi_version :: u32
  bi_framebuffer :: framebuffer_info
  bi_memory_regions :: "memory_region list"
  bi_acpi_rsdp_addr :: u64

definition BOOT_INFO_MAGIC :: u64 where
  "BOOT_INFO_MAGIC = from_le_bytes [0x4c, 0x41, 0x5a, 0x52, 0x42, 0x4f, 0x4f, 0x54]"

definition BOOT_INFO_VERSION :: u32 where "BOOT_INFO_VERSION = 1"

definition boot_info_new :: "framebuffer_info \<Rightarrow> memory_region list \<Rightarrow> u64 \<Rightarrow> boot_info" where
  "boot_info_new framebuffer regions rsdp =
     \<lparr>bi_magic = BOOT_INFO_MAGIC, bi_version = BOOT_INFO_VERSION, bi_framebuffer = framebuffer,
      bi_memory_regions = regions, bi_acpi_rsdp_addr = rsdp\<rparr>"

definition has_valid_header :: "boot_info \<Rightarrow> bool" where
  "has_valid_header bi \<longleftrightarrow> bi_magic bi = BOOT_INFO_MAGIC \<and> bi_version bi = BOOT_INFO_VERSION"

definition is_direct :: "pixel_format \<Rightarrow> bool" where
  "is_direct f \<longleftrightarrow> f = Rgb \<or> f = Bgr"

definition framebuffer_is_usable :: "framebuffer_info \<Rightarrow> bool" where
  "framebuffer_is_usable fb \<longleftrightarrow>
     fb_base fb \<noteq> 0 \<and> fb_size fb \<noteq> 0 \<and> fb_width fb \<noteq> 0 \<and> fb_height fb \<noteq> 0 \<and>
     fb_width fb \<le> fb_stride fb \<and> is_direct (fb_format fb)"

end
