(* ===== verification/Kernel_Memory.thy ===== *)
theory Kernel_Memory
  imports Range_Mapping Boot_Info
begin

text \<open>
  The kernel's memory state and its operations: \<^verbatim>\<open>memory/state.rs\<close>, \<^verbatim>\<open>memory/kernel.rs\<close>
  and \<^verbatim>\<open>memory/user.rs\<close>. The record \<open>kmem\<close> is the global memory state together with physical
  memory. Loading the page-table register after a change is outside the model.
\<close>

section \<open>State\<close>

definition MAX_SHARED_KERNEL_MAPPINGS :: nat where "MAX_SHARED_KERNEL_MAPPINGS = 16"
definition PHYS_WINDOW_START :: u64 where "PHYS_WINDOW_START = 0x1000000"

record shared_kernel_mapping =
  sk_start :: u64
  sk_end :: u64
  sk_writable :: bool

record memory_state =
  ms_allocator :: physical_allocator
  ms_kernel_space :: "address_space option"
  ms_phys_window_end :: u64
  ms_framebuffer_start :: u64
  ms_framebuffer_end :: u64
  ms_shared_kernel_mappings :: "shared_kernel_mapping list"
  ms_shared_kernel_mapping_count :: nat

record kmem =
  km_state :: memory_state
  km_memory :: memory

type_synonym 'a kmem_op = "kmem \<Rightarrow> ('a, memory_error) outcome \<times> kmem"

definition shared_kernel_mapping_empty :: shared_kernel_mapping where
  "shared_kernel_mapping_empty = \<lparr>sk_start = 0, sk_end = 0, sk_writable = False\<rparr>"

definition memory_state_new :: memory_state where
  "memory_state_new =
     \<lparr>ms_allocator = allocator_new, ms_kernel_space = None, ms_phys_window_end = PHYS_WINDOW_START,
      ms_framebuffer_start = 0, ms_framebuffer_end = 0,
      ms_shared_kernel_mappings = replicate MAX_SHARED_KERNEL_MAPPINGS shared_kernel_mapping_empty,
      ms_shared_kernel_mapping_count = 0\<rparr>"

text \<open>The page-table builder works on the global allocator and on physical memory; a builder without an
  owned-page list leaves that field alone.\<close>

definition with_builder :: "'a vm_op \<Rightarrow> 'a kmem_op" where
  "with_builder f km =
     (case f \<lparr>vm_memory = km_memory km, vm_alloc = ms_allocator (km_state km), vm_owned = owned_pages_empty\<rparr> of
        (r, st) \<Rightarrow> (r, \<lparr>km_state = (km_state km)\<lparr>ms_allocator := vm_alloc st\<rparr>, km_memory = vm_memory st\<rparr>))"

section \<open>Kernel operations\<close>

text \<open>The region loop of \<^verbatim>\<open>initialize_allocator\<close>, with the highest end seen.\<close>

fun add_regions ::
  "memory_region list \<Rightarrow> physical_allocator \<Rightarrow> u64 \<Rightarrow> (physical_allocator \<times> u64, memory_error) outcome" where
  "add_regions [] pa highest_end = Ok (pa, highest_end)"
| "add_regions (region # regions) pa highest_end =
     (if mr_kind region \<noteq> Usable then add_regions regions pa highest_end
      else
        let start = max (mr_start region) PHYS_WINDOW_START;
            end = align_down (mr_start region + saturating_mul (mr_page_count region) PAGE_SIZE) PAGE_SIZE
        in if end \<le> start then add_regions regions pa highest_end
           else and_then (add_region pa start end) (\<lambda>pa'.
                  add_regions regions pa' (if highest_end < end then end else highest_end)))"

text \<open>\<open>img\<close> is \<^verbatim>\<open>kernel_image_range()\<close>: the linker's symbols around the kernel, aligned to pages.\<close>

definition kernel_image_range :: "u64 \<Rightarrow> u64 \<Rightarrow> u64 \<times> u64" where
  "kernel_image_range kernel_start kernel_end = (align_down kernel_start PAGE_SIZE, align_up kernel_end PAGE_SIZE)"

definition initialize_allocator ::
  "u64 \<times> u64 \<Rightarrow> boot_info \<Rightarrow> memory_state \<Rightarrow> (memory_state, memory_error) outcome" where
  "initialize_allocator img bi st =
     and_then (add_regions (bi_memory_regions bi) (allocator_reset (ms_allocator st)) 0) (\<lambda>(pa, highest_end).
     if highest_end \<le> PHYS_WINDOW_START then Err NoUsableMemory else
     and_then (reserve_range pa (fst img) (snd img)) (\<lambda>pa'.
       Ok (st\<lparr>ms_allocator := pa', ms_shared_kernel_mapping_count := 0,
              ms_phys_window_end := align_up highest_end 0x200000\<rparr>)))"

definition allocate_kernel_page :: "u64 kmem_op" where
  "allocate_kernel_page km =
     (case allocate_page (ms_allocator (km_state km)) (km_memory km) of
        Ok (p, pa, m) \<Rightarrow> (Ok p, \<lparr>km_state = (km_state km)\<lparr>ms_allocator := pa\<rparr>, km_memory = m\<rparr>)
      | Err e \<Rightarrow> (Err e, km)
      | Panic \<Rightarrow> (Panic, km))"

definition kernel_flags :: u64 where
  "kernel_flags = PAGE_PRESENT OR PAGE_WRITABLE"

definition memory_init :: "u64 \<times> u64 \<Rightarrow> boot_info \<Rightarrow> unit kmem_op" where
  "memory_init img bi =
     bind_st (\<lambda>km. case initialize_allocator img bi (km_state km) of
         Ok st \<Rightarrow> (Ok (), km\<lparr>km_state := st\<rparr>)
       | Err e \<Rightarrow> (Err e, km)
       | Panic \<Rightarrow> (Panic, km)) (\<lambda>_.
     bind_st allocate_kernel_page (\<lambda>root_paddr km.
     let builder = \<lparr>ab_root_paddr = root_paddr, ab_tracks_owned = False\<rparr>;
         window_end = ms_phys_window_end (km_state km);
         framebuffer_start = align_down (fb_base (bi_framebuffer bi)) PAGE_SIZE;
         framebuffer_end = align_up (fb_base (bi_framebuffer bi) + fb_size (bi_framebuffer bi)) PAGE_SIZE
     in bind_st (with_builder (map_identity_2m_range builder PHYS_WINDOW_START window_end kernel_flags)) (\<lambda>_.
        bind_st (if framebuffer_start < PHYS_WINDOW_START \<or> window_end < framebuffer_end
                 then with_builder (map_identity_4k_range builder framebuffer_start framebuffer_end kernel_flags)
                 else (\<lambda>km. (Ok (), km))) (\<lambda>_ km.
          (Ok (), km\<lparr>km_state := (km_state km)\<lparr>ms_framebuffer_start := framebuffer_start,
             ms_framebuffer_end := framebuffer_end,
             ms_kernel_space := Some \<lparr>as_root_paddr = root_paddr\<rparr>\<rparr>\<rparr>))) km))"

definition kernel_address_space :: "memory_state \<Rightarrow> (address_space, memory_error) outcome" where
  "kernel_address_space st = expect (ms_kernel_space st)"

definition allocate_kernel_buffer :: "u64 \<Rightarrow> kernel_buffer kmem_op" where
  "allocate_kernel_buffer sz km =
     (if sz = 0 then (Err InvalidKernelBufferSize, km)
      else
        let page_count = align_up sz PAGE_SIZE div PAGE_SIZE
        in case allocate_contiguous_pages (ms_allocator (km_state km)) (km_memory km) page_count of
             Ok (start, pa, m) \<Rightarrow>
               (Ok \<lparr>kb_start_paddr = start, kb_len = sz, kb_page_count = page_count\<rparr>,
                \<lparr>km_state = (km_state km)\<lparr>ms_allocator := pa\<rparr>, km_memory = m\<rparr>)
           | Err e \<Rightarrow> (Err e, km)
           | Panic \<Rightarrow> (Panic, km))"

section \<open>Shared kernel mappings\<close>

text \<open>The search for a recorded mapping that already covers the new one.\<close>

function mapping_recorded_from ::
  "memory_state \<Rightarrow> u64 \<Rightarrow> u64 \<Rightarrow> bool \<Rightarrow> nat \<Rightarrow> (bool, memory_error) outcome" where
  "mapping_recorded_from st start end writable i =
     (if i < ms_shared_kernel_mapping_count st
      then and_then (index (ms_shared_kernel_mappings st) i) (\<lambda>mapping.
        if sk_start mapping \<le> start \<and> end \<le> sk_end mapping \<and> sk_writable mapping = writable then Ok True
        else mapping_recorded_from st start end writable (i + 1))
      else Ok False)"
  by pat_completeness auto
termination
  by (relation "measure (\<lambda>(st, s, e, w, i). ms_shared_kernel_mapping_count st - i)") auto

definition record_shared_kernel_mapping ::
  "u64 \<Rightarrow> u64 \<Rightarrow> bool \<Rightarrow> memory_state \<Rightarrow> (memory_state, memory_error) outcome" where
  "record_shared_kernel_mapping start0 end0 writable st =
     (let start = align_down start0 PAGE_SIZE; end = align_up end0 PAGE_SIZE in
      if end \<le> start then Ok st else
      and_then (mapping_recorded_from st start end writable 0) (\<lambda>recorded.
      if recorded then Ok st else
      if length (ms_shared_kernel_mappings st) \<le> ms_shared_kernel_mapping_count st
      then Err SharedKernelMappingCapacityExceeded else
      and_then (store (ms_shared_kernel_mappings st) (ms_shared_kernel_mapping_count st)
                 \<lparr>sk_start = start, sk_end = end, sk_writable = writable\<rparr>) (\<lambda>ms.
        Ok (st\<lparr>ms_shared_kernel_mappings := ms,
               ms_shared_kernel_mapping_count := ms_shared_kernel_mapping_count st + 1\<rparr>))))"

definition mapping_flags :: "bool \<Rightarrow> u64" where
  "mapping_flags writable = PAGE_PRESENT OR (if writable then PAGE_WRITABLE else 0)"

definition map_kernel_identity_range :: "u64 \<Rightarrow> u64 \<Rightarrow> bool \<Rightarrow> unit kmem_op" where
  "map_kernel_identity_range start end writable km =
     (case ms_kernel_space (km_state km) of
        None \<Rightarrow> (Err AddressSpaceUninitialized, km)
      | Some kernel_space \<Rightarrow>
          bind_st (with_builder (map_identity_4k_range
              \<lparr>ab_root_paddr = as_root_paddr kernel_space, ab_tracks_owned = False\<rparr>
              start end (mapping_flags writable))) (\<lambda>_ km.
            case record_shared_kernel_mapping start end writable (km_state km) of
              Ok st \<Rightarrow> (Ok (), km\<lparr>km_state := st\<rparr>)
            | Err e \<Rightarrow> (Err e, km)
            | Panic \<Rightarrow> (Panic, km)) km)"

function replay_shared_kernel_mappings_from ::
  "memory_state \<Rightarrow> address_space_builder \<Rightarrow> nat \<Rightarrow> unit vm_op" where
  "replay_shared_kernel_mappings_from st builder i vm =
     (if i < ms_shared_kernel_mapping_count st
      then (case index (ms_shared_kernel_mappings st) i of
              Ok mapping \<Rightarrow>
                bind_st (map_identity_4k_range builder (sk_start mapping) (sk_end mapping) (mapping_flags (sk_writable mapping)))
                  (\<lambda>_. replay_shared_kernel_mappings_from st builder (i + 1)) vm
            | Err e \<Rightarrow> (Err e, vm)
            | Panic \<Rightarrow> (Panic, vm))
      else (Ok (), vm))"
  by pat_completeness auto
termination
  by (relation "measure (\<lambda>(st, b, i, vm). ms_shared_kernel_mapping_count st - i)") auto

declare mapping_recorded_from.simps [simp del] replay_shared_kernel_mappings_from.simps [simp del]

definition map_shared_kernel_context :: "memory_state \<Rightarrow> address_space_builder \<Rightarrow> unit vm_op" where
  "map_shared_kernel_context st builder =
     bind_st (map_identity_2m_range builder PHYS_WINDOW_START (ms_phys_window_end st) kernel_flags) (\<lambda>_.
     bind_st (if ms_framebuffer_start st \<noteq> 0 \<and>
                 (ms_framebuffer_start st < PHYS_WINDOW_START \<or> ms_phys_window_end st < ms_framebuffer_end st)
              then map_identity_4k_range builder (ms_framebuffer_start st) (ms_framebuffer_end st) kernel_flags
              else (\<lambda>vm. (Ok (), vm))) (\<lambda>_.
       replay_shared_kernel_mappings_from st builder 0))"

section \<open>User buffers\<close>

definition user_stack_base :: u64 where
  "user_stack_base = USER_STACK_TOP - of_nat USER_STACK_PAGES * PAGE_SIZE"

definition validate_user_buffer :: "u64 \<Rightarrow> u64 \<Rightarrow> bool" where
  "validate_user_buffer address len =
     (if len = 0 then True
      else case checked_add address len of
             None \<Rightarrow> False
           | Some end \<Rightarrow> USER_IMAGE_BASE \<le> address \<and> end \<le> USER_STACK_TOP \<and>
               \<not> (user_stack_base < end \<and> address < user_stack_base))"

text \<open>\<^verbatim>\<open>user_slice\<close> and \<^verbatim>\<open>user_slice_mut\<close> give a reference, an address with a length; reading or writing
  through it happens later, in the current address space.\<close>

definition user_slice :: "u64 \<Rightarrow> u64 \<Rightarrow> (u64 \<times> u64) option" where
  "user_slice address len = (if validate_user_buffer address len then Some (address, len) else None)"

section \<open>Lemmas: a fresh address space\<close>

definition fresh_root :: "memory \<Rightarrow> u64 \<Rightarrow> bool" where
  "fresh_root m root \<longleftrightarrow> (\<forall>i < 512. page_entry m root i = 0)"

lemma fresh_root_tables:
  assumes "fresh_root m root" "good_path p"
  shows "table_at m root p = Some t \<longleftrightarrow> p = [] \<and> t = root"
  using assms by (cases p) (auto simp: fresh_root_def good_path_def next_table_def)

lemma fresh_root_empty:
  assumes "fresh_root m root"
  shows "leaf m root v = None" "good_path (q @ [j]) \<Longrightarrow> \<not> huge_at m root q j" "no_page_tables m root" "upper_clear m root"
proof -
  have pd: "table_at m root (pd_path v) = None" for v
    using fresh_root_tables [OF assms, of "pd_path v"] by (cases "table_at m root (pd_path v)") auto
  then show "leaf m root v = None" unfolding leaf_def by simp
  have hg: "\<not> huge_at m root q j" if "good_path (q @ [j])" for q j
  proof
    assume "huge_at m root q j"
    then obtain t where "table_at m root q = Some t" "page_entry m t j AND PAGE_PRESENT \<noteq> 0" by (auto simp: huge_at_def)
    moreover from this have "t = root" using fresh_root_tables [OF assms] that by (auto simp: good_path_snoc)
    ultimately show False using assms that by (simp add: fresh_root_def good_path_snoc)
  qed
  then show "good_path (q @ [j]) \<Longrightarrow> \<not> huge_at m root q j" .
  from hg show "upper_clear m root" by (simp add: upper_clear_def)
  show "no_page_tables m root"
    unfolding no_page_tables_def
  proof (intro allI impI)
    fix q :: "nat list" assume q: "length q = 3 \<and> good_path q"
    have "table_at m root q \<noteq> Some t" for t using fresh_root_tables [OF assms, of q t] q by auto
    then show "table_at m root q = None" by (cases "table_at m root q") auto
  qed
qed

section \<open>Lemmas: the shared kernel context\<close>

definition in_window :: "memory_state \<Rightarrow> nat \<Rightarrow> bool" where
  "in_window st a \<longleftrightarrow> unat PHYS_WINDOW_START \<le> a \<and> a < unat (ms_phys_window_end st)"

definition in_user_range :: "nat \<Rightarrow> bool" where
  "in_user_range a \<longleftrightarrow> unat USER_IMAGE_BASE \<le> a \<and> a < unat USER_STACK_TOP"

text \<open>A page-aligned range that meets neither the 2 MiB-mapped window nor the user range.\<close>

definition range_ok :: "memory_state \<Rightarrow> u64 \<Rightarrow> u64 \<Rightarrow> bool" where
  "range_ok st s e \<longleftrightarrow> 4096 dvd unat s \<and> 4096 dvd unat e \<and> unat e \<le> 2 ^ 48 \<and>
     (\<forall>a. unat s \<le> a \<and> a < unat e \<longrightarrow> \<not> in_window st a \<and> \<not> in_user_range a)"

definition framebuffer_mapped :: "memory_state \<Rightarrow> bool" where
  "framebuffer_mapped st \<longleftrightarrow> ms_framebuffer_start st \<noteq> 0 \<and>
     (ms_framebuffer_start st < PHYS_WINDOW_START \<or> ms_phys_window_end st < ms_framebuffer_end st)"

definition layout_ok :: "memory_state \<Rightarrow> bool" where
  "layout_ok st \<longleftrightarrow> 0x200000 dvd unat (ms_phys_window_end st) \<and> unat (ms_phys_window_end st) \<le> 2 ^ 48 \<and>
     (framebuffer_mapped st \<longrightarrow> range_ok st (ms_framebuffer_start st) (ms_framebuffer_end st)) \<and>
     ms_shared_kernel_mapping_count st \<le> length (ms_shared_kernel_mappings st) \<and>
     (\<forall>i < ms_shared_kernel_mapping_count st.
        range_ok st (sk_start (ms_shared_kernel_mappings st ! i)) (sk_end (ms_shared_kernel_mappings st ! i)))"

text \<open>What the shared context promises: the window is mapped to itself by supervisor-only 2 MiB pages,
  no translation anywhere is open to user mode, and the user range is empty and free of huge
  pages.\<close>

definition kernel_context :: "memory_state \<Rightarrow> memory \<Rightarrow> u64 \<Rightarrow> bool" where
  "kernel_context st m root \<longleftrightarrow> upper_clear m root \<and>
     (\<forall>w. unat w < 2 ^ 48 \<longrightarrow>
        (in_window st (unat w) \<longrightarrow>
           leaf m root w = Some (of_nat (unat w div 0x200000 * 0x200000) OR kernel_flags OR PAGE_HUGE)) \<and>
        (\<forall>e. leaf m root w = Some e \<longrightarrow> e AND PAGE_USER = 0) \<and>
        (in_user_range (unat w) \<longrightarrow> leaf m root w = None) \<and>
        (huge_at m root (pd_path w) (pd_index w) \<longrightarrow> in_window st (unat w)))"

lemma kernel_context_clear:
  assumes "kernel_context st m root" "unat w < 2 ^ 48" "\<not> in_window st (unat w)"
  shows "clear_path m root w"
  using assms upper_clearD by (auto simp: kernel_context_def clear_path_def)

lemma no_user_bit:
  assumes "4096 dvd n" "n < 2 ^ 52" "unat f < 4096" "f AND PAGE_USER = 0"
  shows "(of_nat n OR f) AND PAGE_USER = 0"
proof -
  have "unat (of_nat n :: u64) = n" using assms(2) by (simp add: unsigned_of_nat take_bit_nat_eq_self)
  then have "frame_ok (of_nat n)" using assms(1,2) by (simp add: frame_ok_def)
  moreover have "unat PAGE_USER < 4096" by (simp add: PAGE_USER_def)
  ultimately show ?thesis using frame_bits(3) [of "of_nat n" f PAGE_USER] assms(3,4) by simp
qed

lemma context_2m:
  assumes f: "fresh_root (vm_memory st) root" and i: "identity_2m (unat PHYS_WINDOW_START) (unat (ms_phys_window_end ms)) kernel_flags root st st'"
    and l: "layout_ok ms"
  shows "kernel_context ms (vm_memory st') root"
  unfolding kernel_context_def
proof (intro conjI allI impI)
  show "upper_clear (vm_memory st') root" using i by (simp add: identity_2m_def)
next
  fix w :: u64 assume w: "unat w < 2 ^ 48"
  have lf: "leaf (vm_memory st') root w = (if in_window ms (unat w)
      then Some (of_nat (unat w div 0x200000 * 0x200000) OR kernel_flags OR PAGE_HUGE) else None)"
    using i w fresh_root_empty(1) [OF f, of w] by (simp add: identity_2m_def in_window_def)
  then show "in_window ms (unat w) \<Longrightarrow> leaf (vm_memory st') root w = Some (of_nat (unat w div 0x200000 * 0x200000) OR kernel_flags OR PAGE_HUGE)"
    by simp
  have "unat w div 0x200000 * 0x200000 \<le> unat w" by simp
  then have b: "unat w div 0x200000 * 0x200000 < 2 ^ 52" by (rule le_less_trans) (use w in simp)
  have d: "(4096 :: nat) dvd unat w div 0x200000 * 0x200000" by (rule dvd_mult) simp
  have "unat (kernel_flags OR PAGE_HUGE) < 4096" "(kernel_flags OR PAGE_HUGE) AND PAGE_USER = 0"
    by (simp_all add: kernel_flags_def PAGE_PRESENT_def PAGE_WRITABLE_def PAGE_HUGE_def PAGE_USER_def)
  from no_user_bit [OF d b this] lf show "e AND PAGE_USER = 0" if "leaf (vm_memory st') root w = Some e" for e
    using that by (auto simp: or.assoc split: if_splits)
  show "leaf (vm_memory st') root w = None" if "in_user_range (unat w)"
    using lf that by (simp add: in_window_def in_user_range_def PHYS_WINDOW_START_def USER_STACK_TOP_def)
  show "in_window ms (unat w)" if "huge_at (vm_memory st') root (pd_path w) (pd_index w)"
    using i w that fresh_root_empty(2) [OF f, of "pd_path w" "pd_index w"] by (simp add: identity_2m_def in_window_def)
qed

lemma context_4k:
  assumes c: "kernel_context ms (vm_memory st) root" and i: "identity_4k (unat s) (unat e) f root st st'"
    and r: "range_ok ms s e" and f: "unat f < 4096" "f AND PAGE_USER = 0"
  shows "kernel_context ms (vm_memory st') root"
  unfolding kernel_context_def
proof (intro conjI allI impI)
  show "upper_clear (vm_memory st') root"
    using i c by (auto simp: identity_4k_def kernel_context_def upper_clear_def)
next
  fix w :: u64 assume w: "unat w < 2 ^ 48"
  have lf: "leaf (vm_memory st') root w = (if unat s \<le> unat w \<and> unat w < unat e
         then present_entry (of_nat (unat w div 4096 * 4096) OR f) else leaf (vm_memory st) root w)"
    using i w by (simp add: identity_4k_def)
  have out: "\<not> in_window ms (unat w) \<and> \<not> in_user_range (unat w)" if "unat s \<le> unat w" "unat w < unat e"
    using r that by (simp add: range_ok_def)
  show "leaf (vm_memory st') root w = Some (of_nat (unat w div 0x200000 * 0x200000) OR kernel_flags OR PAGE_HUGE)"
    if "in_window ms (unat w)" using lf c w that out by (auto simp: kernel_context_def)
  have b: "unat w div 4096 * 4096 < 2 ^ 52"
    by (rule le_less_trans [OF div_times_less_eq_dividend]) (use w in simp)
  show "x AND PAGE_USER = 0" if "leaf (vm_memory st') root w = Some x" for x
    using that lf no_user_bit [OF _ b f] c w by (auto simp: kernel_context_def present_entry_def split: if_splits)
  show "leaf (vm_memory st') root w = None" if "in_user_range (unat w)"
    using lf c w that out by (auto simp: kernel_context_def)
  show "in_window ms (unat w)" if "huge_at (vm_memory st') root (pd_path w) (pd_index w)"
    using that i c w by (simp add: identity_4k_def kernel_context_def)
qed

lemma unat_aligned:
  "4096 dvd unat s \<Longrightarrow> unat (align_down s PAGE_SIZE) = unat s"
  "4096 dvd unat s \<Longrightarrow> unat s \<le> 2 ^ 48 \<Longrightarrow> unat (align_up s PAGE_SIZE) = unat s"
  "0x200000 dvd unat s \<Longrightarrow> unat (align_down s 0x200000) = unat s"
  "0x200000 dvd unat s \<Longrightarrow> unat s \<le> 2 ^ 48 \<Longrightarrow> unat (align_up s 0x200000) = unat s"
  by (auto simp: PAGE_SIZE_def unat_align_page unat_align_huge elim!: dvdE)

lemma mapping_flags_small [simp]: "unat (mapping_flags w) < 4096" "mapping_flags w AND PAGE_USER = 0"
  by (cases w; simp add: mapping_flags_def PAGE_PRESENT_def PAGE_WRITABLE_def PAGE_USER_def)+

lemma kernel_flags_small [simp]: "unat kernel_flags < 4096" "kernel_flags AND PAGE_USER = 0" "kernel_flags AND PAGE_PRESENT \<noteq> 0"
  by (simp_all add: kernel_flags_def PAGE_PRESENT_def PAGE_WRITABLE_def PAGE_USER_def)

text \<open>A run of the builder that keeps the kernel context, or fails cleanly.\<close>

definition keeps_context ::
  "memory_state \<Rightarrow> u64 \<Rightarrow> bool \<Rightarrow> vm \<Rightarrow> (unit, memory_error) outcome \<times> vm \<Rightarrow> bool" where
  "keeps_context ms root tracks st r \<longleftrightarrow>
     (case r of
        (Ok _, st') \<Rightarrow> grows root st st' \<and> kernel_context ms (vm_memory st') root \<and> accounts tracks st st'
      | (Err e, st') \<Rightarrow> grows root st st' \<and> consumes tracks st st' \<and> e \<in> {AllocatorExhausted, OwnedPageCapacityExceeded}
      | (Panic, _) \<Rightarrow> False)"

lemma keeps_context_bind:
  assumes "keeps_context ms root tracks st (f st)"
    and "\<And>st'. grows root st st' \<Longrightarrow> kernel_context ms (vm_memory st') root \<Longrightarrow> keeps_context ms root tracks st' (g () st')"
  shows "keeps_context ms root tracks st (bind_st f g st)"
proof -
  obtain r st' where f: "f st = (r, st')" by (cases "f st")
  show ?thesis
  proof (cases r)
    case (Ok a)
    with assms(1) f have a: "grows root st st'" "kernel_context ms (vm_memory st') root" "accounts tracks st st'"
      by (simp_all add: keeps_context_def)
    obtain r2 st2 where g: "g () st' = (r2, st2)" by (cases "g () st'")
    show ?thesis
      using assms(2) [OF a(1,2)] grows_trans [OF a(1)] accounts_trans [OF a(3)]
        consumes_trans [OF accounts_consumes [OF a(3)]] f Ok g
      by (cases r2) (auto simp: keeps_context_def bind_st_def)
  qed (use assms(1) f in \<open>simp_all add: keeps_context_def bind_st_def\<close>)
qed

text \<open>Identity-mapping the pages of a range: even a run that fails leaves the context as it has to be.\<close>

lemma range_spec:
  assumes "vm_inv root st" "kernel_context ms (vm_memory st) root" "range_ok ms (align_down s PAGE_SIZE) (align_up e PAGE_SIZE)"
    "ab_root_paddr b = root" "unat f < 4096" "f AND PAGE_USER = 0"
  shows "case map_identity_4k_range b s e f st of
     (Ok _, st') \<Rightarrow> grows root st st' \<and> kernel_context ms (vm_memory st') root \<and> accounts (ab_tracks_owned b) st st'
   | (Err e, st') \<Rightarrow> grows root st st' \<and> kernel_context ms (vm_memory st') root \<and> consumes (ab_tracks_owned b) st st' \<and>
       e \<in> {AllocatorExhausted, OwnedPageCapacityExceeded}
   | (Panic, _) \<Rightarrow> False"
proof -
  let ?s = "align_down s PAGE_SIZE" and ?e = "align_up e PAGE_SIZE"
  have cl: "clear_path (vm_memory st) root w" if "unat ?s \<le> unat w" "unat w < unat ?e" for w
    using assms(2,3) that by (intro kernel_context_clear [of ms]) (auto simp: range_ok_def)
  have spec: "case map_identity_from (\<lambda>x. map_4k b x x f) 4096 (unat ?s) (unat ?e) st of
     (Ok _, st') \<Rightarrow> identity_4k (unat ?s) (unat ?e) f root st st' \<and> accounts (ab_tracks_owned b) st st'
   | (Err x, st') \<Rightarrow> identity_4k_part (unat ?s) (unat ?e) f root st st' \<and> consumes (ab_tracks_owned b) st st' \<and>
       x \<in> {AllocatorExhausted, OwnedPageCapacityExceeded}
   | (Panic, _) \<Rightarrow> False"
    using assms(3) by (intro map_identity_4k_from_spec [OF assms(1,4) cl]) (auto simp: range_ok_def)
  have part: "kernel_context ms (vm_memory st') root" if h: "identity_4k_part (unat ?s) (unat ?e) f root st st'" for st'
  proof -
    obtain n where n: "unat ?s \<le> n" "n \<le> unat ?e" "4096 dvd n" "identity_4k (unat ?s) n f root st st'"
      using h by (auto simp: identity_4k_part_def)
    have "n < 2 ^ 64" using le_trans [OF n(2), of "2 ^ 48"] assms(3) by (simp add: range_ok_def)
    then have "unat (of_nat n :: u64) = n" by (simp add: unsigned_of_nat take_bit_nat_eq_self)
    then show ?thesis using n assms(3) by (intro context_4k [OF assms(2) _ _ assms(5,6), of ?s "of_nat n"]) (auto simp: range_ok_def)
  qed
  show ?thesis
    using spec part context_4k [OF assms(2) _ assms(3,5,6)] identity_4k_part_grows
    by (auto simp: map_identity_4k_range_def identity_4k_def split: prod.splits outcome.splits)
qed

lemma range_keeps_context:
  assumes "vm_inv root st" "kernel_context ms (vm_memory st) root" "range_ok ms s e" "ab_root_paddr b = root"
    "unat f < 4096" "f AND PAGE_USER = 0"
  shows "keeps_context ms root (ab_tracks_owned b) st (map_identity_4k_range b s e f st)"
proof -
  have u: "align_down s PAGE_SIZE = s" "align_up e PAGE_SIZE = e"
    using assms(3) by (simp_all add: range_ok_def word_unat_eq_iff unat_aligned)
  show ?thesis
    using range_spec [OF assms(1,2) _ assms(4-6), of s e] assms(3)
    by (auto simp: keeps_context_def u split: prod.splits outcome.splits)
qed

lemma replay_keeps_context:
  assumes "layout_ok ms" "ab_root_paddr b = root" "vm_inv root st" "kernel_context ms (vm_memory st) root"
  shows "keeps_context ms root (ab_tracks_owned b) st (replay_shared_kernel_mappings_from ms b i st)"
  using assms
proof (induction ms b i st rule: replay_shared_kernel_mappings_from.induct)
  case (1 ms b i st)
  show ?case
  proof (cases "i < ms_shared_kernel_mapping_count ms")
    case False
    have "grows root st st" using "1.prems"(3) by (simp add: grows_def)
    with False "1.prems" show ?thesis
      by (subst replay_shared_kernel_mappings_from.simps) (simp add: keeps_context_def accounts_same)
  next
    case True
    then have i: "i < length (ms_shared_kernel_mappings ms)" using "1.prems"(1) by (simp add: layout_ok_def)
    let ?k = "ms_shared_kernel_mappings ms ! i"
    have r: "range_ok ms (sk_start ?k) (sk_end ?k)" using "1.prems"(1) True by (simp add: layout_ok_def)
    have "keeps_context ms root (ab_tracks_owned b) st
      (bind_st (map_identity_4k_range b (sk_start ?k) (sk_end ?k) (mapping_flags (sk_writable ?k)))
         (\<lambda>_. replay_shared_kernel_mappings_from ms b (i + 1)) st)"
    proof (rule keeps_context_bind)
      show "keeps_context ms root (ab_tracks_owned b) st
          (map_identity_4k_range b (sk_start ?k) (sk_end ?k) (mapping_flags (sk_writable ?k)) st)"
        by (rule range_keeps_context [OF "1.prems"(3,4) r "1.prems"(2)]) simp_all
    next
      fix st' assume "grows root st st'" "kernel_context ms (vm_memory st') root"
      then show "keeps_context ms root (ab_tracks_owned b) st' (replay_shared_kernel_mappings_from ms b (i + 1) st')"
        using "1.IH" [OF True index_ok [OF i]] "1.prems" growsD(1) by blast
    qed
    with True i show ?thesis by (subst replay_shared_kernel_mappings_from.simps) simp
  qed
qed

lemma window_keeps_context:
  assumes l: "layout_ok ms" and b: "ab_root_paddr b = root" and inv: "vm_inv root st" and f: "fresh_root (vm_memory st) root"
  shows "keeps_context ms root (ab_tracks_owned b) st
      (map_identity_2m_range b PHYS_WINDOW_START (ms_phys_window_end ms) kernel_flags st)"
proof -
  have u: "unat (align_down PHYS_WINDOW_START 0x200000) = unat PHYS_WINDOW_START"
    "unat (align_up (ms_phys_window_end ms) 0x200000) = unat (ms_phys_window_end ms)"
    using l by (simp_all add: layout_ok_def unat_aligned PHYS_WINDOW_START_def)
  have "case map_identity_from (\<lambda>x. map_2m b x x kernel_flags) 0x200000 (unat PHYS_WINDOW_START) (unat (ms_phys_window_end ms)) st of
     (Ok _, st') \<Rightarrow> identity_2m (unat PHYS_WINDOW_START) (unat (ms_phys_window_end ms)) kernel_flags root st st' \<and>
        accounts (ab_tracks_owned b) st st'
   | (Err e, st') \<Rightarrow> grows root st st' \<and> consumes (ab_tracks_owned b) st st' \<and>
       e \<in> {AllocatorExhausted, OwnedPageCapacityExceeded}
   | (Panic, _) \<Rightarrow> False"
    using l fresh_root_empty(3,4) [OF f]
    by (intro map_identity_2m_from_spec [OF inv b]) (auto simp: layout_ok_def PHYS_WINDOW_START_def)
  then show ?thesis
    using context_2m [OF f _ l]
    by (auto simp: keeps_context_def map_identity_2m_range_def u identity_2m_def split: prod.splits outcome.splits)
qed

lemma shared_context_spec:
  assumes l: "layout_ok ms" and b: "ab_root_paddr b = root" and inv: "vm_inv root st" and f: "fresh_root (vm_memory st) root"
  shows "keeps_context ms root (ab_tracks_owned b) st (map_shared_kernel_context ms b st)"
  unfolding map_shared_kernel_context_def
proof (rule keeps_context_bind, rule window_keeps_context [OF l b inv f])
  fix st' assume st': "grows root st st'" "kernel_context ms (vm_memory st') root"
  show "keeps_context ms root (ab_tracks_owned b) st'
      (bind_st (if ms_framebuffer_start ms \<noteq> 0 \<and>
                 (ms_framebuffer_start ms < PHYS_WINDOW_START \<or> ms_phys_window_end ms < ms_framebuffer_end ms)
              then map_identity_4k_range b (ms_framebuffer_start ms) (ms_framebuffer_end ms) kernel_flags
              else (\<lambda>vm. (Ok (), vm))) (\<lambda>_. replay_shared_kernel_mappings_from ms b 0) st')"
  proof (rule keeps_context_bind)
    have "grows root st' st'" using st'(1) by (simp add: grows_def)
    then show "keeps_context ms root (ab_tracks_owned b) st'
      ((if ms_framebuffer_start ms \<noteq> 0 \<and>
           (ms_framebuffer_start ms < PHYS_WINDOW_START \<or> ms_phys_window_end ms < ms_framebuffer_end ms)
        then map_identity_4k_range b (ms_framebuffer_start ms) (ms_framebuffer_end ms) kernel_flags
        else (\<lambda>vm. (Ok (), vm))) st')"
      using range_keeps_context [OF growsD(1) [OF st'(1)] st'(2) _ b] l st'(2)
      by (auto simp: layout_ok_def framebuffer_mapped_def keeps_context_def accounts_same)
  next
    fix st2 assume "grows root st' st2" "kernel_context ms (vm_memory st2) root"
    then show "keeps_context ms root (ab_tracks_owned b) st2 (replay_shared_kernel_mappings_from ms b 0 st2)"
      using growsD(1) by (intro replay_keeps_context [OF l b]) auto
  qed
qed

section \<open>Lemmas: the boot memory map\<close>

lemma insert_range_count:
  assumes "alloc_inv pa" "pa_count pa < MAX_FREE_RANGES" "start < end"
  shows "\<exists>pa'. insert_range pa start end = Ok pa' \<and> alloc_inv pa' \<and>
    free_set pa' = free_set pa \<union> {start..<end} \<and> pa_count pa' \<le> pa_count pa + 1"
proof -
  have wf: "table_wf pa" using assms(1) by (simp add: alloc_inv_def)
  obtain pa1 ys ms me where m: "merge_list start end (active pa) = (ys, ms, me)"
    "insert_merge pa 0 start end = Ok (pa1, ms, me)" "table_wf pa1" "active pa1 = ys"
    using insert_merge_list [OF wf, of 0 start "end"] by auto
  have ys: "length ys \<le> pa_count pa" using merge_list_set [OF m(1)] length_active [OF wf] by simp
  then have "\<not> crowded pa start end" using m(1) assms(2) by (simp add: crowded_def)
  with insert_range_spec [OF assms(1,3)] obtain pa' where
    pa': "insert_range pa start end = Ok pa'" "alloc_inv pa'" "free_set pa' = free_set pa \<union> {start..<end}" by blast
  have "pa_count pa1 = length ys" using length_active [OF m(3)] m(4) by simp
  moreover have "pa_count pa' = pa_count pa1 + 1"
    using pa'(1) m(2) assms(3) by (auto simp: insert_range_def split: if_splits)
  ultimately show ?thesis using pa' ys by auto
qed

text \<open>The bytes of a region the kernel takes.\<close>

definition region_end :: "memory_region \<Rightarrow> u64" where
  "region_end r = align_down (mr_start r + saturating_mul (mr_page_count r) PAGE_SIZE) PAGE_SIZE"

definition region_bytes :: "memory_region \<Rightarrow> u64 set" where
  "region_bytes r = (if mr_kind r = Usable then {max (mr_start r) PHYS_WINDOW_START..<region_end r} else {})"

definition boot_bytes :: "memory_region list \<Rightarrow> u64 set" where
  "boot_bytes rs = (\<Union>r \<in> set rs. region_bytes r)"

lemma add_regions_spec:
  assumes "alloc_inv pa" "pa_count pa + length regions \<le> n" "n < MAX_FREE_RANGES"
  shows "\<exists>pa' h'. add_regions regions pa h = Ok (pa', h') \<and> alloc_inv pa' \<and> pa_count pa' \<le> n \<and>
    free_set pa' = free_set pa \<union> boot_bytes regions \<and> h \<le> h' \<and>
    (\<forall>x \<in> boot_bytes regions. x < h') \<and> (h' = h \<or> (\<exists>r \<in> set regions. region_bytes r \<noteq> {} \<and> h' = region_end r))"
  using assms
proof (induction regions arbitrary: pa h)
  case Nil
  then show ?case by (simp add: boot_bytes_def)
next
  case (Cons r rs)
  show ?case
  proof (cases "mr_kind r \<noteq> Usable \<or> region_end r \<le> max (mr_start r) PHYS_WINDOW_START")
    case True
    then have "region_bytes r = {}" by (simp add: region_bytes_def)
    moreover have "add_regions (r # rs) pa h = add_regions rs pa h"
      using True by (auto simp: Let_def region_end_def)
    ultimately show ?thesis using Cons.IH [of pa h] Cons.prems by (auto simp: boot_bytes_def)
  next
    case False
    let ?s = "max (mr_start r) PHYS_WINDOW_START" and ?e = "region_end r"
    have True: "mr_kind r = Usable" "?s < ?e" using False by (simp_all only: not_le de_Morgan_disj) simp_all
    have rb: "region_bytes r = {?s..<?e}" using True by (simp add: region_bytes_def)
    obtain pa1 where p1: "insert_range pa ?s ?e = Ok pa1" "alloc_inv pa1"
      "free_set pa1 = free_set pa \<union> {?s..<?e}" "pa_count pa1 \<le> pa_count pa + 1"
      using insert_range_count [OF Cons.prems(1), of ?s ?e] Cons.prems True by auto
    have run: "add_regions (r # rs) pa h = add_regions rs pa1 (if h < ?e then ?e else h)"
      using False p1(1) by (simp add: Let_def region_end_def add_region_def)
    obtain pa' h' where IH: "add_regions rs pa1 (if h < ?e then ?e else h) = Ok (pa', h')" "alloc_inv pa'" "pa_count pa' \<le> n"
      "free_set pa' = free_set pa1 \<union> boot_bytes rs" "(if h < ?e then ?e else h) \<le> h'" "\<forall>x \<in> boot_bytes rs. x < h'"
      "h' = (if h < ?e then ?e else h) \<or> (\<exists>r \<in> set rs. region_bytes r \<noteq> {} \<and> h' = region_end r)"
      using Cons.IH [of pa1 "if h < ?e then ?e else h"] p1(2,4) Cons.prems by auto
    have le: "h \<le> h'" "?e \<le> h'" using IH(5) by (auto split: if_splits)
    have "region_bytes r \<noteq> {}" using rb True by simp
    with IH(7) have "h' = h \<or> (\<exists>q \<in> set (r # rs). region_bytes q \<noteq> {} \<and> h' = region_end q)"
      by (auto split: if_splits)
    moreover have "\<forall>x \<in> boot_bytes (r # rs). x < h'" using IH(6) le(2) rb by (auto simp: boot_bytes_def)
    moreover have "free_set pa' = free_set pa \<union> boot_bytes (r # rs)"
      using IH(4) p1(3) rb by (simp add: boot_bytes_def Un_assoc)
    ultimately show ?thesis using run IH(1-3) le(1) by auto
  qed
qed

text \<open>A free set made of whole pages has a page-aligned table.\<close>

definition page_closed :: "u64 set \<Rightarrow> bool" where
  "page_closed F \<longleftrightarrow> (\<forall>x \<in> F. \<forall>y. unat y div 4096 = unat x div 4096 \<longrightarrow> y \<in> F)"

lemma page_closed_ops [simp]:
  "page_closed {}" "page_closed A \<Longrightarrow> page_closed B \<Longrightarrow> page_closed (A \<union> B)"
  "page_closed A \<Longrightarrow> page_closed B \<Longrightarrow> page_closed (A - B)"
  unfolding page_closed_def by (blast, blast, metis Diff_iff)

lemma page_closed_UN: "(\<And>i. i \<in> I \<Longrightarrow> page_closed (A i)) \<Longrightarrow> page_closed (\<Union>i \<in> I. A i)"
  unfolding page_closed_def by blast

lemma page_closed_range:
  assumes "4096 dvd unat s" "4096 dvd unat e"
  shows "page_closed {s..<e}"
proof -
  obtain a b where ab: "unat s = 4096 * a" "unat e = 4096 * b" using assms by (auto elim!: dvdE)
  have "x \<in> {s..<e} \<longleftrightarrow> a \<le> unat x div 4096 \<and> unat x div 4096 < b" for x
    by (auto simp: word_le_nat_alt word_less_nat_alt ab less_eq_div_iff_mult_less_eq div_less_iff_less_mult mult.commute)
  then show ?thesis by (auto simp: page_closed_def)
qed

lemma gapped_apart:
  assumes "gapped rs" "r \<in> set rs" "q \<in> set rs"
  shows "r = q \<or> pr_end r < pr_start q \<or> pr_end q < pr_start r"
proof -
  obtain i j where "i < length rs" "r = rs ! i" "j < length rs" "q = rs ! j" using assms(2,3) by (auto simp: in_set_conv_nth)
  then show ?thesis using assms(1) by (cases i j rule: linorder_cases) (auto simp: gapped_def sorted_wrt_iff_nth_less)
qed

lemma frames_ok_page_closed:
  assumes inv: "alloc_inv pa" and c: "page_closed (free_set pa)" and b: "\<And>x. x \<in> free_set pa \<Longrightarrow> 4096 \<le> unat x \<and> unat x < 2 ^ 52"
  shows "frames_ok pa"
  unfolding frames_ok_def
proof
  fix r assume r: "r \<in> set (active pa)"
  have g: "gapped (active pa)" using inv by (simp add: alloc_inv_def)
  let ?s = "unat (pr_start r)" and ?e = "unat (pr_end r)"
  have lt: "?s < ?e" using g r by (auto simp: gapped_def word_less_nat_alt)
  have mem: "x \<in> free_set pa \<longleftrightarrow> (\<exists>q \<in> set (active pa). unat (pr_start q) \<le> unat x \<and> unat x < unat (pr_end q))" for x
    by (auto simp: spans_def span_def word_le_nat_alt word_less_nat_alt)
  have e64: "?e < 2 ^ 64" using unsigned_less [of "pr_end r"] by simp
  have in_r: "of_nat n \<in> free_set pa" "unat (of_nat n :: u64) = n" if "?s \<le> n" "n < ?e" for n
  proof -
    show u: "unat (of_nat n :: u64) = n" using that e64 by (simp add: unsigned_of_nat take_bit_nat_eq_self)
    show "of_nat n \<in> free_set pa" unfolding mem u using r that by blast
  qed
  have edge: "n \<notin> {?s..<?e} \<Longrightarrow> n = ?e \<or> n + 1 = ?s \<Longrightarrow> n < 2 ^ 64 \<Longrightarrow> (of_nat n :: u64) \<notin> free_set pa" for n
  proof
    assume n: "n \<notin> {?s..<?e}" "n = ?e \<or> n + 1 = ?s" "n < 2 ^ 64" and f: "(of_nat n :: u64) \<in> free_set pa"
    then have "unat (of_nat n :: u64) = n" by (simp add: unsigned_of_nat take_bit_nat_eq_self)
    with f obtain q where q: "q \<in> set (active pa)" "unat (pr_start q) \<le> n" "n < unat (pr_end q)" unfolding mem by auto
    then have "q \<noteq> r" using n(1) by auto
    then show False using gapped_apart [OF g r q(1)] q(2,3) n(2) lt by (auto simp: word_less_nat_alt)
  qed
  have closed: "(of_nat k :: u64) \<in> free_set pa" if "?s \<le> n" "n < ?e" "k div 4096 = n div 4096" "k < 2 ^ 64" for n k
  proof -
    have "unat (of_nat k :: u64) = k" using that(4) by (simp add: unsigned_of_nat take_bit_nat_eq_self)
    then show ?thesis using c in_r [OF that(1,2)] that(3) unfolding page_closed_def by metis
  qed
  have s: "4096 dvd ?s"
  proof (rule ccontr)
    assume nd: "\<not> 4096 dvd ?s"
    then have "?s mod 4096 \<noteq> 0" by (simp add: dvd_eq_mod_eq_0)
    then have "(?s - 1) div 4096 = ?s div 4096" by (metis One_nat_def Suc_pred' div_Suc gr0I mod_0)
    moreover have "?s \<noteq> 0" using nd by (metis dvd_0_right)
    then obtain n where n: "?s = Suc n" by (cases ?s) auto
    ultimately show False using closed [of ?s n] edge [of n] lt e64 by auto
  qed
  have e: "4096 dvd ?e"
  proof (rule ccontr)
    assume nd: "\<not> 4096 dvd ?e"
    then have "?e mod 4096 \<noteq> 0" by (simp add: dvd_eq_mod_eq_0)
    then have "(?e - 1) div 4096 = ?e div 4096" by (metis One_nat_def Suc_pred' div_Suc gr0I mod_0)
    then show False using closed [of "?e - 1" ?e] edge [of ?e] lt e64 by auto
  qed
  have "?e - 1 < 2 ^ 52" using b [of "of_nat (?e - 1)"] in_r [of "?e - 1"] lt by auto
  moreover have "4096 \<le> ?s" using b [of "of_nat ?s"] in_r [of ?s] lt by auto
  ultimately show "aligned_region r \<and> pr_start r \<noteq> 0 \<and> ?e \<le> 2 ^ 52"
    using s e by (auto simp: aligned_region_def)
qed

text \<open>A usable region of the boot map as firmware reports it: page-aligned, inside the physical
  address space.\<close>

definition region_sane :: "memory_region \<Rightarrow> bool" where
  "region_sane r \<longleftrightarrow> mr_kind r = Usable \<longrightarrow>
     4096 dvd unat (mr_start r) \<and> unat (mr_start r) + unat (mr_page_count r) * 4096 \<le> 2 ^ 48"

definition usable_bytes :: "memory_region list \<Rightarrow> u64 set" where
  "usable_bytes rs = {x. unat PHYS_WINDOW_START \<le> unat x \<and>
     (\<exists>r \<in> set rs. mr_kind r = Usable \<and> unat (mr_start r) \<le> unat x \<and>
        unat x < unat (mr_start r) + unat (mr_page_count r) * 4096)}"

lemma region_end_sane:
  assumes "region_sane r" "mr_kind r = Usable"
  shows "unat (region_end r) = unat (mr_start r) + unat (mr_page_count r) * 4096"
proof -
  have s: "4096 dvd unat (mr_start r)" "unat (mr_start r) + unat (mr_page_count r) * 4096 \<le> 2 ^ 48"
    using assms by (simp_all add: region_sane_def)
  then have m: "unat (mr_page_count r * PAGE_SIZE) = unat (mr_page_count r) * 4096"
    using unat_mult_lem [of "mr_page_count r" PAGE_SIZE] by (simp add: PAGE_SIZE_def)
  then have "saturating_mul (mr_page_count r) PAGE_SIZE = mr_page_count r * PAGE_SIZE"
    using s(2) by (simp add: saturating_mul_def PAGE_SIZE_def)
  moreover have u: "unat (mr_start r + mr_page_count r * PAGE_SIZE) = unat (mr_start r) + unat (mr_page_count r) * 4096"
    using unat_add_lem [of "mr_start r" "mr_page_count r * PAGE_SIZE"] m s(2) by simp
  moreover have "4096 dvd unat (mr_start r) + unat (mr_page_count r) * 4096" using s(1) by simp
  ultimately show ?thesis using unat_aligned(1) [of "mr_start r + mr_page_count r * PAGE_SIZE"] by (simp add: region_end_def)
qed

lemma region_bytes_sane:
  assumes "region_sane r"
  shows "region_bytes r = {x. mr_kind r = Usable \<and> unat PHYS_WINDOW_START \<le> unat x \<and> unat (mr_start r) \<le> unat x \<and>
      unat x < unat (mr_start r) + unat (mr_page_count r) * 4096}"
    "page_closed (region_bytes r)"
proof -
  show eq: "region_bytes r = {x. mr_kind r = Usable \<and> unat PHYS_WINDOW_START \<le> unat x \<and> unat (mr_start r) \<le> unat x \<and>
      unat x < unat (mr_start r) + unat (mr_page_count r) * 4096}"
    using region_end_sane [OF assms]
    by (auto simp: region_bytes_def word_le_nat_alt word_less_nat_alt max_def split: if_splits)
  show "page_closed (region_bytes r)"
  proof (cases "mr_kind r = Usable")
    case True
    then have "4096 dvd unat (max (mr_start r) PHYS_WINDOW_START)" "4096 dvd unat (region_end r)"
      using assms region_end_sane [OF assms True]
      by (auto simp: region_sane_def max_def PHYS_WINDOW_START_def)
    then show ?thesis using True page_closed_range by (simp add: region_bytes_def)
  qed (simp add: region_bytes_def)
qed

lemma boot_bytes_sane:
  assumes "\<forall>r \<in> set rs. region_sane r"
  shows "boot_bytes rs = usable_bytes rs" "page_closed (usable_bytes rs)"
    "x \<in> usable_bytes rs \<Longrightarrow> unat PHYS_WINDOW_START \<le> unat x \<and> unat x < 2 ^ 48"
proof -
  show eq: "boot_bytes rs = usable_bytes rs"
    using assms region_bytes_sane(1) by (fastforce simp: boot_bytes_def usable_bytes_def)
  have "page_closed (boot_bytes rs)"
    unfolding boot_bytes_def using assms region_bytes_sane(2) by (intro page_closed_UN) blast
  then show "page_closed (usable_bytes rs)" by (simp add: eq)
  show "x \<in> usable_bytes rs \<Longrightarrow> unat PHYS_WINDOW_START \<le> unat x \<and> unat x < 2 ^ 48"
    using assms by (fastforce simp: usable_bytes_def region_sane_def)
qed

lemma round_up_le:
  fixes n :: nat
  shows "n \<le> (n + 4095) div 4096 * 4096" "n \<le> (n + 0x1fffff) div 0x200000 * 0x200000"
  using div_mult_mod_eq [of "n + 4095" 4096] mod_less_divisor [of 4096 "n + 4095"]
    div_mult_mod_eq [of "n + 0x1fffff" "0x200000"] mod_less_divisor [of "0x200000" "n + 0x1fffff"]
  by linarith+

lemma alloc_inv_new [simp]: "alloc_inv allocator_new" "free_set allocator_new = {}" "pa_count allocator_new = 0"
  by (simp_all add: alloc_inv_def allocator_new_def active_def table_wf_def gapped_def spans_def)

lemma initialize_allocator_run:
  assumes "\<forall>r \<in> set (bi_memory_regions bi). region_sane r" "length (bi_memory_regions bi) < MAX_FREE_RANGES"
    and "unat ks < unat ke" "unat ke \<le> 2 ^ 48"
  obtains (none) "initialize_allocator (kernel_image_range ks ke) bi st = Err NoUsableMemory" "usable_bytes (bi_memory_regions bi) = {}"
  | (ready) pa w where "initialize_allocator (kernel_image_range ks ke) bi st =
       Ok (st\<lparr>ms_allocator := pa, ms_shared_kernel_mapping_count := 0, ms_phys_window_end := w\<rparr>)"
     "alloc_inv pa" "frames_ok pa"
     "free_set pa = usable_bytes (bi_memory_regions bi) -
         {x. unat ks div 4096 \<le> unat x div 4096 \<and> unat x div 4096 < (unat ke + 4095) div 4096}"
     "\<forall>x \<in> free_set pa. unat PHYS_WINDOW_START \<le> unat x \<and> unat x < unat w" "0x200000 dvd unat w" "unat w \<le> 2 ^ 48"
     "\<exists>r \<in> set (bi_memory_regions bi). mr_kind r = Usable \<and>
        unat w = (unat (mr_start r) + unat (mr_page_count r) * 4096 + 0x1fffff) div 0x200000 * 0x200000"
proof -
  let ?rs = "bi_memory_regions bi"
  note B = boot_bytes_sane [OF assms(1)]
  obtain pa h where pa: "add_regions ?rs allocator_new 0 = Ok (pa, h)" "alloc_inv pa" "pa_count pa \<le> length ?rs"
    "free_set pa = usable_bytes ?rs" "\<forall>x \<in> usable_bytes ?rs. x < h"
    "h = 0 \<or> (\<exists>r \<in> set ?rs. region_bytes r \<noteq> {} \<and> h = region_end r)"
    using add_regions_spec [of allocator_new ?rs "length ?rs" 0] assms(2) B(1) by auto
  show thesis
  proof (cases "h \<le> PHYS_WINDOW_START")
    case True
    have "usable_bytes ?rs = {}"
    proof (rule ccontr)
      assume "usable_bytes ?rs \<noteq> {}"
      then obtain x where x: "x \<in> usable_bytes ?rs" by blast
      then have "unat x < unat h" "unat PHYS_WINDOW_START \<le> unat x" using pa(5) B(3) by (auto simp: word_less_nat_alt)
      with True show False by (simp add: word_le_nat_alt)
    qed
    with True pa(1) show thesis by (intro none) (simp_all add: initialize_allocator_def allocator_reset_def)
  next
    case False
    then have "h \<noteq> 0" by (auto simp: word_le_nat_alt)
    with pa(6) obtain r where r: "r \<in> set ?rs" "region_bytes r \<noteq> {}" "h = region_end r" by auto
    then have us: "mr_kind r = Usable" by (auto simp: region_bytes_def split: if_splits)
    then have h: "unat h \<le> 2 ^ 48" using r assms(1) region_end_sane by (auto simp: region_sane_def)
    let ?s = "align_down ks PAGE_SIZE" and ?e = "align_up ke PAGE_SIZE"
    have u: "unat ?s = unat ks div 4096 * 4096" "unat ?e = (unat ke + 4095) div 4096 * 4096"
      using assms(4) by (simp_all add: PAGE_SIZE_def unat_align_page)
    have img: "{?s..<?e} = {x. unat ks div 4096 \<le> unat x div 4096 \<and> unat x div 4096 < (unat ke + 4095) div 4096}"
      by (auto simp: word_le_nat_alt word_less_nat_alt u less_eq_div_iff_mult_less_eq div_less_iff_less_mult)
    have "unat ?s \<le> unat ks" "unat ke \<le> unat ?e"
      using u round_up_le(1) [of "unat ke"] by simp_all
    then have lt: "?s < ?e" using assms(3) by (simp add: word_less_nat_alt)
    have ic: "page_closed {?s..<?e}" using u by (intro page_closed_range) simp_all
    have "pa_count pa \<noteq> MAX_FREE_RANGES" using pa(3) assms(2) by simp
    with reserve_range_spec [OF pa(2) lt] obtain pa' where
      pa': "reserve_range pa ?s ?e = Ok pa'" "alloc_inv pa'" "free_set pa' = usable_bytes ?rs - {?s..<?e}"
      using pa(4) by auto
    have fo: "frames_ok pa'"
    proof (rule frames_ok_page_closed [OF pa'(2)])
      show "page_closed (free_set pa')" unfolding pa'(3) using B(2) ic by simp
      show "4096 \<le> unat x \<and> unat x < 2 ^ 52" if "x \<in> free_set pa'" for x
        using that B(3) [of x] pa'(3) by (auto simp: PHYS_WINDOW_START_def)
    qed
    have w: "unat (align_up h 0x200000) = (unat h + 0x1fffff) div 0x200000 * 0x200000"
      using h by (simp add: unat_align_huge)
    then have "unat h \<le> unat (align_up h 0x200000)" using round_up_le(2) [of "unat h"] by simp
    then have inw: "unat x < unat (align_up h 0x200000)" if "x \<in> usable_bytes ?rs" for x
      using pa(5) that by (auto simp: word_less_nat_alt)
    have run: "initialize_allocator (kernel_image_range ks ke) bi st =
      Ok (st\<lparr>ms_allocator := pa', ms_shared_kernel_mapping_count := 0, ms_phys_window_end := align_up h 0x200000\<rparr>)"
      using False pa(1) pa'(1) by (simp add: initialize_allocator_def allocator_reset_def kernel_image_range_def)
    have "unat (align_up h 0x200000) \<le> 2 ^ 48" unfolding w using h by simp
    moreover have "unat (align_up h 0x200000) = (unat (mr_start r) + unat (mr_page_count r) * 4096 + 0x1fffff) div 0x200000 * 0x200000"
      using w region_end_sane [of r] assms(1) r us by simp
    ultimately show thesis
      using pa'(2,3) fo B(3) inw w img by (intro ready [OF run]) (auto intro!: bexI [OF _ r(1)] simp: us)
  qed
qed

section \<open>Properties\<close>

text \<open>C20. The allocator the kernel boots with owns exactly the usable memory above 16 MiB that firmware
  reported, less the kernel image, as whole pages inside the identity-mapped window; without
  usable memory the boot fails, and with fewer than 128 regions it never panics.\<close>

theorem boot_allocator_exact:
  assumes "\<forall>r \<in> set (bi_memory_regions bi). region_sane r" "length (bi_memory_regions bi) < MAX_FREE_RANGES"
    and "unat ks < unat ke" "unat ke \<le> 2 ^ 48"
  shows "case initialize_allocator (kernel_image_range ks ke) bi st of
     Ok st' \<Rightarrow> alloc_inv (ms_allocator st') \<and> frames_ok (ms_allocator st') \<and>
       free_set (ms_allocator st') = usable_bytes (bi_memory_regions bi) -
         {x. unat ks div 4096 \<le> unat x div 4096 \<and> unat x div 4096 < (unat ke + 4095) div 4096} \<and>
       (\<forall>x \<in> free_set (ms_allocator st'). in_window st' (unat x)) \<and>
       0x200000 dvd unat (ms_phys_window_end st') \<and> ms_shared_kernel_mapping_count st' = 0
   | Err e \<Rightarrow> e = NoUsableMemory \<and> usable_bytes (bi_memory_regions bi) = {}
   | Panic \<Rightarrow> False"
  by (rule initialize_allocator_run [OF assms, where st = st]) (auto simp: in_window_def)

definition sample_boot :: boot_info where
  "sample_boot = boot_info_new
     \<lparr>fb_base = 0x80000000, fb_size = 0x1000, fb_width = 8, fb_height = 8, fb_stride = 8, fb_format = Rgb\<rparr>
     [\<lparr>mr_start = 0, mr_page_count = 0x1200, mr_kind = Usable\<rparr>, \<lparr>mr_start = 0x1200000, mr_page_count = 1, mr_kind = Mmio\<rparr>] 0"

theorem boot_allocator_exact_witness:
  "\<exists>st'. initialize_allocator (kernel_image_range 0x1000000 0x1000800) sample_boot memory_state_new = Ok st' \<and>
     0x1001000 \<in> free_set (ms_allocator st') \<and> 0x1000fff \<notin> free_set (ms_allocator st') \<and> frames_ok (ms_allocator st')"
proof -
  have "case initialize_allocator (kernel_image_range 0x1000000 0x1000800) sample_boot memory_state_new of
     Ok st' \<Rightarrow> alloc_inv (ms_allocator st') \<and> frames_ok (ms_allocator st') \<and>
       free_set (ms_allocator st') = usable_bytes (bi_memory_regions sample_boot) -
         {x. unat (0x1000000 :: u64) div 4096 \<le> unat x div 4096 \<and> unat x div 4096 < (unat (0x1000800 :: u64) + 4095) div 4096} \<and>
       (\<forall>x \<in> free_set (ms_allocator st'). in_window st' (unat x)) \<and>
       0x200000 dvd unat (ms_phys_window_end st') \<and> ms_shared_kernel_mapping_count st' = 0
   | Err e \<Rightarrow> e = NoUsableMemory \<and> usable_bytes (bi_memory_regions sample_boot) = {}
   | Panic \<Rightarrow> False"
    by (rule boot_allocator_exact)
      (simp_all add: sample_boot_def boot_info_new_def region_sane_def MAX_FREE_RANGES_def)
  moreover have "0x1001000 \<in> usable_bytes (bi_memory_regions sample_boot)"
    by (simp add: usable_bytes_def sample_boot_def boot_info_new_def PHYS_WINDOW_START_def)
  ultimately show ?thesis by (auto split: outcome.splits)
qed

text \<open>C21. A non-empty buffer passed by a user program is accepted exactly when, as an interval of natural
  numbers, it lies inside the image range or inside the stack range; in particular no accepted
  buffer wraps around or touches kernel memory.\<close>

theorem user_buffers_stay_in_user_memory:
  "validate_user_buffer address len \<longleftrightarrow>
     len = 0 \<or>
     0x400000 \<le> unat address \<and> unat address + unat len \<le> 0x7f0000 \<or>
     0x7f0000 \<le> unat address \<and> unat address + unat len \<le> 0x800000"
proof (cases "unat address + unat len < 2 ^ 64")
  case True
  then have "unat (address + len) = unat address + unat len" using unat_add_lem [of address len] by simp
  moreover have "0 < len \<longleftrightarrow> 0 < unat len" by (simp add: word_less_nat_alt)
  ultimately show ?thesis
    using True
    by (auto simp: validate_user_buffer_def checked_add_def user_stack_base_def USER_STACK_TOP_def
        USER_STACK_PAGES_def PAGE_SIZE_def USER_IMAGE_BASE_def word_le_nat_alt word_less_nat_alt word_unat_eq_iff)
next
  case False
  then show ?thesis by (auto simp: validate_user_buffer_def checked_add_def)
qed

text \<open>A kernel buffer is zeroed memory that was free and is at least as long as asked for, and
  releasing it restores the allocator's free set; a zero size and exhaustion are errors that
  change nothing.\<close>

theorem kernel_buffer_roundtrip:
  assumes "alloc_inv (ms_allocator (km_state km))" "unat sz \<le> 2 ^ 63"
  shows "case allocate_kernel_buffer sz km of
     (Ok kb, km') \<Rightarrow> sz \<noteq> 0 \<and> kb_len kb = sz \<and>
       unat sz \<le> unat (kb_page_count kb) * 4096 \<and> unat (kb_page_count kb) * 4096 < unat sz + 4096 \<and>
       block (kb_start_paddr kb) (kb_page_count kb * PAGE_SIZE) \<subseteq> free_set (ms_allocator (km_state km)) \<and>
       kernel_buffer_as_slice (km_memory km') kb = replicate (unat sz) 0 \<and>
       (\<exists>pa. kernel_buffer_release kb (ms_allocator (km_state km')) = Ok pa \<and> alloc_inv pa \<and>
             free_set pa = free_set (ms_allocator (km_state km)))
   | (Err e, km') \<Rightarrow> km' = km \<and> e = (if sz = 0 then InvalidKernelBufferSize else AllocatorExhausted)
   | (Panic, _) \<Rightarrow> False"
proof (cases "sz = 0")
  case True
  then show ?thesis by (simp add: allocate_kernel_buffer_def)
next
  case False
  let ?n = "align_up sz PAGE_SIZE div PAGE_SIZE" and ?pa = "ms_allocator (km_state km)"
  have "unat (align_up sz PAGE_SIZE) = (unat sz + 4095) div 4096 * 4096"
    using assms(2) by (simp add: PAGE_SIZE_def unat_align_page)
  then have n: "unat ?n = (unat sz + 4095) div 4096" by (simp add: unat_div PAGE_SIZE_def)
  have n4: "unat sz \<le> unat ?n * 4096" "unat ?n * 4096 < unat sz + 4096"
    using n round_up_le(1) [of "unat sz"] div_times_less_eq_dividend [of "unat sz + 4095" 4096] by linarith+
  show ?thesis
  proof (rule allocate_contiguous_cases [OF assms(1), of ?n "km_memory km"], goal_cases pages exhausted)
    case (pages r pa)
    let ?p = "pr_start r"
    note rt = free_after_allocate [OF assms(1) pages(5)]
    have "kernel_buffer_as_slice (fill_bytes (km_memory km) ?p 0 (unat (?n * PAGE_SIZE)))
        \<lparr>kb_start_paddr = ?p, kb_len = sz, kb_page_count = ?n\<rparr> = replicate (unat sz) 0"
    proof (rule nth_equalityI)
      fix i assume "i < length (kernel_buffer_as_slice (fill_bytes (km_memory km) ?p 0 (unat (?n * PAGE_SIZE)))
        \<lparr>kb_start_paddr = ?p, kb_len = sz, kb_page_count = ?n\<rparr>)"
      then have i: "i < unat sz" by (simp add: kernel_buffer_as_slice_def read_mem_def)
      then have "unat (of_nat i :: u64) = i"
        using assms(2) by (simp add: unsigned_of_nat take_bit_nat_eq_self)
      with i n4(1) pages(4) show "kernel_buffer_as_slice (fill_bytes (km_memory km) ?p 0 (unat (?n * PAGE_SIZE)))
        \<lparr>kb_start_paddr = ?p, kb_len = sz, kb_page_count = ?n\<rparr> ! i = replicate (unat sz) 0 ! i"
        by (simp add: kernel_buffer_as_slice_def read_mem_def fill_bytes_def)
    qed (simp add: kernel_buffer_as_slice_def read_mem_def)
    with False pages n4 rt show ?case
      by (auto simp: allocate_kernel_buffer_def kernel_buffer_release_def Let_def)
  next
    case exhausted
    with False show ?case by (simp add: allocate_kernel_buffer_def)
  qed
qed

theorem kernel_buffer_roundtrip_witness:
  "\<exists>kb km'. allocate_kernel_buffer 5000 \<lparr>km_state = memory_state_new\<lparr>ms_allocator := sample_allocator 0x1000000 0x1010000\<rparr>,
       km_memory = (\<lambda>_. 7)\<rparr> = (Ok kb, km') \<and>
     kb_page_count kb = 2 \<and> kernel_buffer_as_slice (km_memory km') kb = replicate 5000 0"
proof -
  let ?km = "\<lparr>km_state = memory_state_new\<lparr>ms_allocator := sample_allocator 0x1000000 0x1010000\<rparr>, km_memory = (\<lambda>_. 7)\<rparr> :: kmem"
  have n: "align_up 5000 PAGE_SIZE div PAGE_SIZE = 2" by code_simp
  have f: "fits (2 * PAGE_SIZE) \<lparr>pr_start = 0x1000000, pr_end = 0x1010000\<rparr>" by (simp add: fits_def PAGE_SIZE_def)
  have c: "region_allocate_contiguous \<lparr>pr_start = 0x1000000, pr_end = 0x1010000\<rparr> 2 =
      Some (0x1000000, \<lparr>pr_start = 0x1002000, pr_end = 0x1010000\<rparr>)"
    by (simp add: region_allocate_contiguous_def region_is_empty_def checked_mul_def checked_add_def PAGE_SIZE_def)
  have "\<exists>kb km'. allocate_kernel_buffer 5000 ?km = (Ok kb, km')"
    using c by (simp add: allocate_kernel_buffer_def n allocate_contiguous_pages_def sample_allocator_def
        MAX_FREE_RANGES_def allocate_from.simps region_is_empty_def)
  then obtain kb km' where run: "allocate_kernel_buffer 5000 ?km = (Ok kb, km')" by blast
  moreover have "kb_page_count kb = 2" using run n by (auto simp: allocate_kernel_buffer_def Let_def split: outcome.splits)
  ultimately show ?thesis using kernel_buffer_roundtrip [of ?km 5000] by auto
qed

text \<open>C19. The kernel context every user address space starts with: the physical window is mapped to
  itself by supervisor-only 2 MiB pages, no address is open to user mode, and the user range is
  empty and ready for 4 KiB pages, provided the framebuffer and the recorded device ranges lie
  outside the window and the user range.\<close>

theorem shared_kernel_context_isolated:
  assumes "layout_ok ms" "vm_inv (ab_root_paddr b) st" "fresh_root (vm_memory st) (ab_root_paddr b)"
    "map_shared_kernel_context ms b st = (Ok (), st')" "unat w < 2 ^ 48"
  shows "vm_inv (ab_root_paddr b) st' \<and>
    (in_window ms (unat w) \<longrightarrow> leaf (vm_memory st') (ab_root_paddr b) w =
        Some (of_nat (unat w div 0x200000 * 0x200000) OR PAGE_PRESENT OR PAGE_WRITABLE OR PAGE_HUGE)) \<and>
    (\<forall>e. leaf (vm_memory st') (ab_root_paddr b) w = Some e \<longrightarrow> e AND PAGE_USER = 0) \<and>
    (in_user_range (unat w) \<longrightarrow>
       leaf (vm_memory st') (ab_root_paddr b) w = None \<and> clear_path (vm_memory st') (ab_root_paddr b) w)"
proof -
  have k: "grows (ab_root_paddr b) st st'" "kernel_context ms (vm_memory st') (ab_root_paddr b)"
    using shared_context_spec [OF assms(1) refl assms(2,3)] assms(4) by (simp_all add: keeps_context_def)
  have "\<not> in_window ms (unat w)" if "in_user_range (unat w)"
    using that by (simp add: in_window_def in_user_range_def PHYS_WINDOW_START_def USER_STACK_TOP_def)
  with k growsD(1) [OF k(1)] kernel_context_clear [OF k(2) assms(5)] assms(5) show ?thesis
    by (auto simp: kernel_context_def kernel_flags_def or.assoc)
qed

theorem shared_kernel_context_isolated_witness:
  "\<exists>st'. map_shared_kernel_context (memory_state_new\<lparr>ms_phys_window_end := 0x1200000\<rparr>)
       \<lparr>ab_root_paddr = 0x2000000, ab_tracks_owned = False\<rparr> sample_vm = (Ok (), st') \<and>
     leaf (vm_memory st') 0x2000000 0x1012345 = Some 0x1000083 \<and> leaf (vm_memory st') 0x2000000 0x400000 = None"
proof -
  let ?ms = "memory_state_new\<lparr>ms_phys_window_end := 0x1200000\<rparr>"
  let ?b = "\<lparr>ab_root_paddr = 0x2000000, ab_tracks_owned = False\<rparr> :: address_space_builder"
  have ix: "pml4_index 0x1000000 = 0" "pdpt_index 0x1000000 = 0" "pd_index 0x1000000 = 8" by code_simp+
  have al: "unat (align_down 0x1000000 0x200000) = 0x1000000" "unat (align_up 0x1200000 0x200000) = 0x1200000"
    by (simp_all add: unat_align_huge)
  have fr: "frame_ok 0x2000000" "frame_ok 0x1000000" "frame_ok 0x1001000" by (simp_all add: frame_ok_def)
  have stop: "map_identity_from f n a a st = (Ok (), st)" for f n a and st :: vm
    by (subst map_identity_from.simps) simp
  have one: "map_identity_from f 0x200000 0x1000000 0x1200000 st = bind_st (f 0x1000000) (\<lambda>_ s. (Ok (), s)) st"
    for f and st :: vm
    using stop [of f "0x200000" "0x1200000"]
    by (subst map_identity_from.simps) (simp add: bind_st_def split: prod.splits outcome.splits)
  have none: "replay_shared_kernel_mappings_from ?ms b i st = (Ok (), st)" for b i st
    by (subst replay_shared_kernel_mappings_from.simps) (simp add: memory_state_new_def)
  have "fst (map_shared_kernel_context ?ms ?b sample_vm) = Ok ()"
    unfolding map_shared_kernel_context_def bind_st_def none
    by (simp add: map_identity_2m_range_def al one bind_st_def memory_state_new_def PHYS_WINDOW_START_def
        map_2m_def ensure_page_directory_def ix sample_vm_def sample_ensure_table sample_new_table_entry fr PAGE_SIZE_def)
  then obtain st' where run: "map_shared_kernel_context ?ms ?b sample_vm = (Ok (), st')"
    by (cases "map_shared_kernel_context ?ms ?b sample_vm") auto
  have l: "layout_ok ?ms" by (simp add: layout_ok_def framebuffer_mapped_def memory_state_new_def)
  have f: "fresh_root (vm_memory sample_vm) 0x2000000" by (simp add: fresh_root_def sample_vm_def)
  have "in_window ?ms (unat (0x1012345 :: u64))" "in_user_range (unat (0x400000 :: u64))"
    by (simp_all add: in_window_def in_user_range_def PHYS_WINDOW_START_def USER_IMAGE_BASE_def USER_STACK_TOP_def)
  moreover have "of_nat (unat (0x1012345 :: u64) div 0x200000 * 0x200000) OR PAGE_PRESENT OR PAGE_WRITABLE OR PAGE_HUGE = (0x1000083 :: u64)"
    by (simp add: PAGE_PRESENT_def PAGE_WRITABLE_def PAGE_HUGE_def)
  ultimately show ?thesis
    using shared_kernel_context_isolated [of ?ms ?b sample_vm st' "0x1012345", OF l _ _ run]
      shared_kernel_context_isolated [of ?ms ?b sample_vm st' "0x400000", OF l _ _ run] sample_vm_inv f run by simp
qed

end
