(* ===== verification/Ahci.thy ===== *)
theory Ahci
  imports Gpt Kernel_Memory
begin

text \<open>
  The AHCI driver, \<^verbatim>\<open>kernel/kernel/src/storage/ahci.rs\<close>. The controller is a parameter: a state of an
  arbitrary type with volatile register reads and writes, and the memory both sides see. Registers
  are addressed the way the \<^verbatim>\<open>repr(C)\<close> structures of the source lay them out. The command header
  and the command table are modelled by the bytes their structures hold when the command is
  issued.
\<close>

section \<open>The controller's side\<close>

record 'd hba =
  mmio_read :: "u64 \<Rightarrow> 'd \<Rightarrow> u32 \<times> 'd"
  mmio_write :: "u64 \<Rightarrow> u32 \<Rightarrow> 'd \<Rightarrow> 'd"
  ram_read :: "u64 \<Rightarrow> nat \<Rightarrow> 'd \<Rightarrow> bytes"
  ram_write :: "u64 \<Rightarrow> bytes \<Rightarrow> 'd \<Rightarrow> 'd"

section \<open>The code\<close>

definition AHCI_MMIO_SIZE :: u64 where "AHCI_MMIO_SIZE = 0x1100"
definition AHCI_GHC_AE :: u32 where "AHCI_GHC_AE = push_bit 31 1"
definition AHCI_PORT_CMD_ST :: u32 where "AHCI_PORT_CMD_ST = push_bit 0 1"
definition AHCI_PORT_CMD_FRE :: u32 where "AHCI_PORT_CMD_FRE = push_bit 4 1"
definition AHCI_PORT_CMD_FR :: u32 where "AHCI_PORT_CMD_FR = push_bit 14 1"
definition AHCI_PORT_CMD_CR :: u32 where "AHCI_PORT_CMD_CR = push_bit 15 1"
definition AHCI_PORT_TFD_BSY :: u32 where "AHCI_PORT_TFD_BSY = push_bit 7 1"
definition AHCI_PORT_TFD_DRQ :: u32 where "AHCI_PORT_TFD_DRQ = push_bit 3 1"
definition AHCI_PORT_IS_TFES :: u32 where "AHCI_PORT_IS_TFES = push_bit 30 1"
definition SATA_STATUS_DEVICE_PRESENT :: u32 where "SATA_STATUS_DEVICE_PRESENT = 0x3"
definition SATA_STATUS_INTERFACE_ACTIVE :: u32 where "SATA_STATUS_INTERFACE_ACTIVE = 0x1"
definition SATA_SIGNATURE_ATA :: u32 where "SATA_SIGNATURE_ATA = 0x00000101"
definition ATA_COMMAND_READ_DMA_EXT :: u8 where "ATA_COMMAND_READ_DMA_EXT = 0x25"
definition FIS_TYPE_REG_H2D :: u8 where "FIS_TYPE_REG_H2D = 0x27"

record ahci_controller =
  ah_abar :: u64
  ah_port_index :: nat
  ah_command_list_paddr :: u64
  ah_fis_paddr :: u64
  ah_command_table_paddr :: u64
  ah_dma_buffer_paddr :: u64

text \<open>Offsets of the fields of \<^verbatim>\<open>HbaMemory\<close> and \<^verbatim>\<open>HbaPort\<close>: eleven 32-bit registers, 0x74 and 0x60 bytes,
  then the ports; a port is eighteen 32-bit registers and 0x28 bytes.\<close>

definition HBA_GLOBAL_HOST_CONTROL :: u64 where "HBA_GLOBAL_HOST_CONTROL = 1 * 4"
definition HBA_PORTS_IMPLEMENTED :: u64 where "HBA_PORTS_IMPLEMENTED = 3 * 4"
definition HBA_PORTS :: u64 where "HBA_PORTS = 11 * 4 + 0x74 + 0x60"
definition HBA_PORT_SIZE :: u64 where "HBA_PORT_SIZE = 18 * 4 + 0x28"

datatype port_field =
    CommandListBase | CommandListBaseUpper | FisBase | FisBaseUpper | InterruptStatus | InterruptEnable
  | CommandStatus | TaskFileData | Signature | SerialAtaStatus | SerialAtaError | CommandIssue

primrec port_offset :: "port_field \<Rightarrow> u64" where
  "port_offset CommandListBase = 0 * 4"
| "port_offset CommandListBaseUpper = 1 * 4"
| "port_offset FisBase = 2 * 4"
| "port_offset FisBaseUpper = 3 * 4"
| "port_offset InterruptStatus = 4 * 4"
| "port_offset InterruptEnable = 5 * 4"
| "port_offset CommandStatus = 6 * 4"
| "port_offset TaskFileData = 8 * 4"
| "port_offset Signature = 9 * 4"
| "port_offset SerialAtaStatus = 10 * 4"
| "port_offset SerialAtaError = 12 * 4"
| "port_offset CommandIssue = 14 * 4"

definition port_ptr :: "ahci_controller \<Rightarrow> nat \<Rightarrow> u64" where
  "port_ptr c i = ah_abar c + HBA_PORTS + of_nat i * HBA_PORT_SIZE"

definition read_port_reg_at :: "'d hba \<Rightarrow> ahci_controller \<Rightarrow> nat \<Rightarrow> port_field \<Rightarrow> 'd \<Rightarrow> u32 \<times> 'd" where
  "read_port_reg_at hw c i field = mmio_read hw (port_ptr c i + port_offset field)"

definition read_port_reg :: "'d hba \<Rightarrow> ahci_controller \<Rightarrow> port_field \<Rightarrow> 'd \<Rightarrow> u32 \<times> 'd" where
  "read_port_reg hw c field = read_port_reg_at hw c (ah_port_index c) field"

definition write_port_reg :: "'d hba \<Rightarrow> ahci_controller \<Rightarrow> port_field \<Rightarrow> u32 \<Rightarrow> 'd \<Rightarrow> 'd" where
  "write_port_reg hw c field v = mmio_write hw (port_ptr c (ah_port_index c) + port_offset field) v"

text \<open>The polling loops: at most a million and one reads.\<close>

definition MAX_SPINS :: nat where "MAX_SPINS = 1000000"

function wait_for_clear ::
  "'d hba \<Rightarrow> ahci_controller \<Rightarrow> port_field \<Rightarrow> u32 \<Rightarrow> nat \<Rightarrow> 'd \<Rightarrow> (unit, storage_error) outcome \<times> 'd" where
  "wait_for_clear hw c field busy_bits spins d =
     (let (v, d') = read_port_reg hw c field d
      in if v AND busy_bits = 0 then (Ok (), d')
         else if MAX_SPINS < spins + 1 then (Err AhciCommandTimeout, d')
         else wait_for_clear hw c field busy_bits (spins + 1) d')"
  by pat_completeness auto
termination
  by (relation "measure (\<lambda>(hw, c, f, m, spins, d). MAX_SPINS - spins)") auto

declare wait_for_clear.simps [simp del]

definition wait_for_device_ready :: "'d hba \<Rightarrow> ahci_controller \<Rightarrow> 'd \<Rightarrow> (unit, storage_error) outcome \<times> 'd" where
  "wait_for_device_ready hw c = wait_for_clear hw c TaskFileData (AHCI_PORT_TFD_BSY OR AHCI_PORT_TFD_DRQ) 0"

definition stop_port :: "'d hba \<Rightarrow> ahci_controller \<Rightarrow> 'd \<Rightarrow> (unit, storage_error) outcome \<times> 'd" where
  "stop_port hw c d =
     (let (command, d) = read_port_reg hw c CommandStatus d;
          d = write_port_reg hw c CommandStatus (command AND NOT (AHCI_PORT_CMD_ST OR AHCI_PORT_CMD_FRE)) d
      in wait_for_clear hw c CommandStatus (AHCI_PORT_CMD_CR OR AHCI_PORT_CMD_FR) 0 d)"

definition start_port :: "'d hba \<Rightarrow> ahci_controller \<Rightarrow> 'd \<Rightarrow> 'd" where
  "start_port hw c d =
     (let (command, d) = read_port_reg hw c CommandStatus d
      in write_port_reg hw c CommandStatus (command OR AHCI_PORT_CMD_FRE OR AHCI_PORT_CMD_ST) d)"

definition initialize_port :: "'d hba \<Rightarrow> ahci_controller \<Rightarrow> 'd \<Rightarrow> (unit, storage_error) outcome \<times> 'd" where
  "initialize_port hw c =
     bind_st (stop_port hw c) (\<lambda>_ d.
       let d = write_port_reg hw c CommandListBase (ucast (ah_command_list_paddr c)) d;
           d = write_port_reg hw c CommandListBaseUpper (ucast (drop_bit 32 (ah_command_list_paddr c))) d;
           d = write_port_reg hw c FisBase (ucast (ah_fis_paddr c)) d;
           d = write_port_reg hw c FisBaseUpper (ucast (drop_bit 32 (ah_fis_paddr c))) d;
           d = write_port_reg hw c InterruptEnable 0 d;
           d = write_port_reg hw c SerialAtaError (- 1) d;
           d = write_port_reg hw c InterruptStatus (- 1) d
       in (Ok (), start_port hw c d))"

definition enable_ahci_mode :: "'d hba \<Rightarrow> ahci_controller \<Rightarrow> 'd \<Rightarrow> 'd" where
  "enable_ahci_mode hw c d =
     (let (ghc, d) = mmio_read hw (ah_abar c + HBA_GLOBAL_HOST_CONTROL) d
      in mmio_write hw (ah_abar c + HBA_GLOBAL_HOST_CONTROL) (ghc OR AHCI_GHC_AE) d)"

definition port_is_sata_disk :: "'d hba \<Rightarrow> ahci_controller \<Rightarrow> nat \<Rightarrow> 'd \<Rightarrow> bool \<times> 'd" where
  "port_is_sata_disk hw c i d =
     (let (sata_status, d) = read_port_reg_at hw c i SerialAtaStatus d;
          device_detection = sata_status AND 0x0f;
          interface_power = drop_bit 8 sata_status AND 0x0f;
          (signature, d) = read_port_reg_at hw c i Signature d
      in (device_detection = SATA_STATUS_DEVICE_PRESENT \<and> interface_power = SATA_STATUS_INTERFACE_ACTIVE \<and>
          signature = SATA_SIGNATURE_ATA, d))"

function find_port ::
  "'d hba \<Rightarrow> ahci_controller \<Rightarrow> u32 \<Rightarrow> nat \<Rightarrow> 'd \<Rightarrow> (ahci_controller, storage_error) outcome \<times> 'd" where
  "find_port hw c ports_implemented port_index d =
     (if port_index < 32
      then
        (if ports_implemented AND push_bit port_index 1 \<noteq> 0
         then (let (disk, d) = port_is_sata_disk hw c port_index d
               in if disk
                  then let c' = c\<lparr>ah_port_index := port_index\<rparr>
                       in bind_st (initialize_port hw c') (\<lambda>_ d. (Ok c', d)) d
                  else find_port hw c ports_implemented (port_index + 1) d)
         else find_port hw c ports_implemented (port_index + 1) d)
      else (Err AhciPortNotFound, d))"
  by pat_completeness auto
termination
  by (relation "measure (\<lambda>(hw, c, p, i, d). 32 - i)") auto

declare find_port.simps [simp del]

text \<open>\<^verbatim>\<open>initialize\<close> takes four kernel pages, then talks to the controller.\<close>

definition ahci_initialize ::
  "'d hba \<Rightarrow> u64 \<Rightarrow> kmem \<Rightarrow> 'd \<Rightarrow> (ahci_controller, storage_error) outcome \<times> kmem \<times> 'd" where
  "ahci_initialize hw abar km d =
     (case bind_st allocate_kernel_page (\<lambda>command_list.
           bind_st allocate_kernel_page (\<lambda>fis.
           bind_st allocate_kernel_page (\<lambda>command_table.
           bind_st allocate_kernel_page (\<lambda>dma_buffer s.
             (Ok \<lparr>ah_abar = abar, ah_port_index = 0, ah_command_list_paddr = command_list, ah_fis_paddr = fis,
                 ah_command_table_paddr = command_table, ah_dma_buffer_paddr = dma_buffer\<rparr>, s))))) km of
        (Err e, km') \<Rightarrow> (Err (Memory e), km', d)
      | (Panic, km') \<Rightarrow> (Panic, km', d)
      | (Ok c, km') \<Rightarrow>
          (let d = enable_ahci_mode hw c d;
               (ports_implemented, d) = mmio_read hw (ah_abar c + HBA_PORTS_IMPLEMENTED) d;
               (r, d) = find_port hw c ports_implemented 0 d
           in (r, km', d)))"

definition command_header :: "ahci_controller \<Rightarrow> bytes" where
  "command_header c =
     [20 div 4, 0] @ to_le_bytes 2 (1 :: u16) @ to_le_bytes 4 (0 :: u32) @
     to_le_bytes 4 (ucast (ah_command_table_paddr c) :: u32) @
     to_le_bytes 4 (ucast (drop_bit 32 (ah_command_table_paddr c)) :: u32) @ replicate 16 0"

definition read_fis :: "u64 \<Rightarrow> bytes" where
  "read_fis lba =
     [FIS_TYPE_REG_H2D, push_bit 7 1, ATA_COMMAND_READ_DMA_EXT, 0,
      ucast (lba AND 0xff), ucast (drop_bit 8 lba AND 0xff), ucast (drop_bit 16 lba AND 0xff), push_bit 6 1,
      ucast (drop_bit 24 lba AND 0xff), ucast (drop_bit 32 lba AND 0xff), ucast (drop_bit 40 lba AND 0xff), 0,
      1, 0, 0, 0, 0, 0, 0, 0]"

definition command_table :: "ahci_controller \<Rightarrow> u64 \<Rightarrow> bytes" where
  "command_table c lba =
     read_fis lba @ replicate 44 0 @ replicate 16 0 @ replicate 48 0 @
     to_le_bytes 4 (ucast (ah_dma_buffer_paddr c) :: u32) @
     to_le_bytes 4 (ucast (drop_bit 32 (ah_dma_buffer_paddr c)) :: u32) @
     to_le_bytes 4 (0 :: u32) @ to_le_bytes 4 (of_nat SECTOR_SIZE - 1 :: u32)"

function wait_for_command ::
  "'d hba \<Rightarrow> ahci_controller \<Rightarrow> nat \<Rightarrow> 'd \<Rightarrow> (unit, storage_error) outcome \<times> 'd" where
  "wait_for_command hw c spins d =
     (let (interrupt_status, d') = read_port_reg hw c InterruptStatus d
      in if interrupt_status AND AHCI_PORT_IS_TFES \<noteq> 0 then (Err AhciTaskFileError, d')
         else
           (let (command_issue, d'') = read_port_reg hw c CommandIssue d'
            in if command_issue AND 1 = 0 then (Ok (), d'')
               else if MAX_SPINS < spins + 1 then (Err AhciCommandTimeout, d'')
               else wait_for_command hw c (spins + 1) d''))"
  by pat_completeness auto
termination
  by (relation "measure (\<lambda>(hw, c, spins, d). MAX_SPINS - spins)") auto

declare wait_for_command.simps [simp del]

definition ahci_read_sector ::
  "'d hba \<Rightarrow> ahci_controller \<Rightarrow> u64 \<Rightarrow> 'd \<Rightarrow> (bytes, storage_error) outcome \<times> 'd" where
  "ahci_read_sector hw c lba =
     bind_st (wait_for_device_ready hw c) (\<lambda>_ d.
       let d = write_port_reg hw c InterruptStatus (- 1) d;
           d = ram_write hw (ah_command_list_paddr c) (command_header c) d;
           d = ram_write hw (ah_command_table_paddr c) (command_table c lba) d;
           d = write_port_reg hw c CommandIssue 1 d
       in bind_st (wait_for_command hw c 0) (\<lambda>_ d.
            (Ok (ram_read hw (ah_dma_buffer_paddr c) SECTOR_SIZE d), d)) d)"

section \<open>What the controller promises\<close>

text \<open>A controller's reading of the command in slot 0, after the AHCI and ATA layouts: the ATA command,
  the 48-bit sector number, the sector count, and address and length of the one data block.\<close>

definition device_command :: "(u64 \<Rightarrow> nat \<Rightarrow> bytes) \<Rightarrow> u64 \<Rightarrow> (u8 \<times> u64 \<times> u16 \<times> u64 \<times> nat) option" where
  "device_command ram command_list =
     (let header = ram command_list 32;
          table = ram (from_le_bytes (take 8 (drop 8 header))) 144
      in if header ! 0 AND 0x1f = 5 \<and> take 2 (drop 2 header) = [1, 0] \<and> table ! 0 = 0x27 \<and> bit (table ! 1) 7
         then Some (table ! 2, from_le_bytes (take 3 (drop 4 table) @ take 3 (drop 8 table)),
                    from_le_bytes (take 2 (drop 12 table)), from_le_bytes (take 8 (drop 128 table)),
                    unat (from_le_bytes (take 4 (drop 140 table)) AND 0x3fffff :: u32) + 1)
         else None)"

fun completes ::
  "'d hba \<Rightarrow> ahci_controller \<Rightarrow> ('d \<Rightarrow> bool) \<Rightarrow> nat \<Rightarrow> 'd \<Rightarrow> bool" where
  "completes hw c post 0 d \<longleftrightarrow> False"
| "completes hw c post (Suc n) d \<longleftrightarrow>
     (case read_port_reg hw c InterruptStatus d of (interrupt_status, d') \<Rightarrow>
        interrupt_status AND AHCI_PORT_IS_TFES = 0 \<and>
        (case read_port_reg hw c CommandIssue d' of (command_issue, d'') \<Rightarrow>
           if command_issue AND 1 = 0 then post d'' else completes hw c post n d''))"

text \<open>An idle controller stays idle under memory writes and status acknowledgement, and answers a
  one-sector read command put into slot 0 by placing the sector at the data address, within the
  polls the driver allows, without a task file error.\<close>

definition ram_lawful :: "'d hba \<Rightarrow> bool" where
  "ram_lawful hw \<longleftrightarrow>
     (\<forall>d a bs. length bs \<le> 4096 \<longrightarrow> ram_read hw a (length bs) (ram_write hw a bs d) = bs) \<and>
     (\<forall>d a b n bs. frame_ok a \<and> frame_ok b \<and> a \<noteq> b \<and> n \<le> 4096 \<and> length bs \<le> 4096 \<longrightarrow>
        ram_read hw b n (ram_write hw a bs d) = ram_read hw b n d)"

definition serves_reads :: "'d hba \<Rightarrow> ahci_controller \<Rightarrow> (u64 \<Rightarrow> bytes) \<Rightarrow> ('d \<Rightarrow> bool) \<Rightarrow> bool" where
  "serves_reads hw c disk idle \<longleftrightarrow>
     (\<forall>d. idle d \<longrightarrow>
        (case read_port_reg hw c TaskFileData d of (v, d') \<Rightarrow> v AND (AHCI_PORT_TFD_BSY OR AHCI_PORT_TFD_DRQ) = 0 \<and> idle d') \<and>
        idle (write_port_reg hw c InterruptStatus (- 1) d) \<and> (\<forall>a bs. idle (ram_write hw a bs d)) \<and>
        (\<forall>lba dma. device_command (\<lambda>a n. ram_read hw a n d) (ah_command_list_paddr c) = Some (0x25, lba, 1, dma, 512) \<longrightarrow>
           (\<exists>n \<le> MAX_SPINS. completes hw c (\<lambda>d'. ram_read hw dma 512 d' = disk lba \<and> idle d') n
              (write_port_reg hw c CommandIssue 1 d))))"

definition controller_pages_ok :: "ahci_controller \<Rightarrow> bool" where
  "controller_pages_ok c \<longleftrightarrow> frame_ok (ah_command_list_paddr c) \<and> frame_ok (ah_command_table_paddr c) \<and>
     ah_command_list_paddr c \<noteq> ah_command_table_paddr c"

section \<open>Lemmas\<close>

lemma wait_for_command_completes:
  assumes "completes hw c post n d" "spins + n \<le> MAX_SPINS"
  shows "\<exists>d'. wait_for_command hw c spins d = (Ok (), d') \<and> post d'"
  using assms
proof (induction n arbitrary: spins d)
  case (Suc n)
  obtain v d1 where r1: "read_port_reg hw c InterruptStatus d = (v, d1)" by fastforce
  obtain w d2 where r2: "read_port_reg hw c CommandIssue d1 = (w, d2)" by fastforce
  have v: "v AND AHCI_PORT_IS_TFES = 0" using Suc.prems(1) r1 by simp
  show ?case
  proof (cases "w AND 1 = 0")
    case True
    then show ?thesis using Suc.prems r1 r2 v by (subst wait_for_command.simps) simp
  next
    case False
    then have "completes hw c post n d2" using Suc.prems(1) r1 r2 v by simp
    from Suc.IH [OF this, of "spins + 1"] Suc.prems(2) False r1 r2 v show ?thesis
      by (subst wait_for_command.simps) simp
  qed
qed simp

lemma le_join: "(from_le_bytes (to_le_bytes 4 (ucast w :: u32) @ to_le_bytes 4 (ucast (drop_bit 32 w) :: u32)) :: u64) = w"
proof -
  have "to_le_bytes 4 (ucast w :: u32) @ to_le_bytes 4 (ucast (drop_bit 32 w) :: u32) = to_le_bytes 8 w"
    by (simp add: numeral_eq_Suc)  (intro conjI bit_word_eqI; auto simp: bit_simps numeral_eq_Suc)
  then show ?thesis by simp
qed

lemma lba_bytes:
  "(from_le_bytes [ucast (lba AND 0xff), ucast (drop_bit 8 lba AND 0xff), ucast (drop_bit 16 lba AND 0xff),
      ucast (drop_bit 24 lba AND 0xff), ucast (drop_bit 32 lba AND 0xff), ucast (drop_bit 40 lba AND 0xff)] :: u64) = take_bit 48 lba"
proof -
  have b: "(ucast (w AND 0xff) :: u8) = ucast w" for w :: u64
    by (rule bit_word_eqI) (auto simp: bit_simps bit_numeral_rec numeral_eq_Suc less_Suc_eq)
  have "[ucast lba, ucast (drop_bit 8 lba), ucast (drop_bit 16 lba), ucast (drop_bit 24 lba), ucast (drop_bit 32 lba), ucast (drop_bit 40 lba)] = to_le_bytes 6 lba"
    by (simp add: numeral_eq_Suc)
  then show ?thesis unfolding b using from_to_le_bytes_take [of 6 lba] by simp
qed

lemma command_lengths [simp]: "length (command_header c) = 32" "length (command_table c lba) = 144"
  by (simp_all add: command_header_def command_table_def read_fis_def)

lemma command_decodes:
  assumes "ram (ah_command_list_paddr c) 32 = command_header c" "ram (ah_command_table_paddr c) 144 = command_table c lba"
  shows "device_command ram (ah_command_list_paddr c) = Some (0x25, take_bit 48 lba, 1, ah_dma_buffer_paddr c, 512)"
proof -
  let ?h = "command_header c" and ?t = "command_table c lba"
  have "drop 8 ?h = to_le_bytes 4 (ucast (ah_command_table_paddr c) :: u32) @
      to_le_bytes 4 (ucast (drop_bit 32 (ah_command_table_paddr c)) :: u32) @ replicate 16 0"
    by (simp add: command_header_def drop_append)
  then have ct: "(from_le_bytes (take 8 (drop 8 ?h)) :: u64) = ah_command_table_paddr c"
    using le_join [of "ah_command_table_paddr c"] by (simp add: take_append)
  have h: "?h ! 0 AND 0x1f = 5" by (simp add: command_header_def)
  have h2: "take 2 (drop 2 ?h) = [1, 0]" by (simp add: command_header_def numeral_eq_Suc)
  have t: "?t ! 0 = 0x27" "bit (?t ! 1) 7" "?t ! 2 = 0x25"
    by (simp_all add: command_table_def read_fis_def FIS_TYPE_REG_H2D_def ATA_COMMAND_READ_DMA_EXT_def bit_numeral_rec)
  have l: "(from_le_bytes (take 3 (drop 4 ?t) @ take 3 (drop 8 ?t)) :: u64) = take_bit 48 lba"
    using lba_bytes [of lba] by (simp add: command_table_def read_fis_def numeral_eq_Suc)
  have n: "(from_le_bytes (take 2 (drop 12 ?t)) :: u16) = 1"
    by (simp add: command_table_def read_fis_def numeral_eq_Suc)
  have d128: "drop 128 ?t = to_le_bytes 4 (ucast (ah_dma_buffer_paddr c) :: u32) @
     to_le_bytes 4 (ucast (drop_bit 32 (ah_dma_buffer_paddr c)) :: u32) @ to_le_bytes 4 (0 :: u32) @ to_le_bytes 4 (of_nat SECTOR_SIZE - 1 :: u32)"
    by (simp add: command_table_def read_fis_def drop_append)
  then have a: "(from_le_bytes (take 8 (drop 128 ?t)) :: u64) = ah_dma_buffer_paddr c"
    using le_join [of "ah_dma_buffer_paddr c"] by (simp add: take_append)
  have "drop 140 ?t = drop 12 (drop 128 ?t)" by simp
  then have "take 4 (drop 140 ?t) = to_le_bytes 4 (511 :: u32)" unfolding d128 by (simp add: drop_append SECTOR_SIZE_def)
  then have m: "(from_le_bytes (take 4 (drop 140 ?t)) :: u32) = 511" by simp
  show ?thesis unfolding device_command_def Let_def assms(1) ct assms(2) using h h2 t l n a m by simp
qed

section \<open>Properties\<close>


text \<open>A controller that performs the read at once: its state is the shared memory.\<close>

definition sample_controller :: ahci_controller where
  "sample_controller = \<lparr>ah_abar = 0xfebd5000, ah_port_index = 0, ah_command_list_paddr = 0x1000000, ah_fis_paddr = 0x1001000,
     ah_command_table_paddr = 0x1002000, ah_dma_buffer_paddr = 0x1003000\<rparr>"

definition sample_hba :: "(u64 \<Rightarrow> bytes) \<Rightarrow> memory hba" where
  "sample_hba disk =
     \<lparr>mmio_read = (\<lambda>a m. (0, m)),
      mmio_write = (\<lambda>a v m. if a = port_ptr sample_controller 0 + port_offset CommandIssue
        then (case device_command (\<lambda>b n. read_mem m b n) (ah_command_list_paddr sample_controller) of
                Some (_, lba, _, dma, _) \<Rightarrow> write_mem m dma (disk lba)
              | None \<Rightarrow> m)
        else m),
      ram_read = (\<lambda>a n m. read_mem m a n), ram_write = (\<lambda>a bs m. write_mem m a bs)\<rparr>"

lemma read_mem_outside:
  assumes "frame_ok a" "frame_ok b" "a \<noteq> b" "n \<le> 4096" "length bs \<le> 4096"
  shows "read_mem (write_mem m a bs) b n = read_mem m b n"
proof -
  have "write_mem m a bs (b + of_nat i) = m (b + of_nat i)" if "i < n" for i
  proof -
    have u: "unat (of_nat i :: u64) = i" using that assms(4) by (simp add: unsigned_of_nat take_bit_nat_eq_self)
    have fb: "unat b < 2 ^ 52" "4096 dvd unat b" and fa: "unat a < 2 ^ 52" "4096 dvd unat a"
      using assms(1,2) by (simp_all add: frame_ok_def)
    have x: "unat (b + of_nat i) = unat b + i"
      using unat_add_lem [of b "of_nat i"] u fb that assms(4) by simp
    have "unat a \<noteq> unat b" using assms(3) by (simp add: word_unat_eq_iff)
    then consider "unat a + 4096 \<le> unat b" | "unat b + 4096 \<le> unat a"
    proof -
      obtain j k where "unat a = 4096 * j" "unat b = 4096 * k" using fa(2) fb(2) by (elim dvdE)
      with \<open>unat a \<noteq> unat b\<close> that show thesis by (cases "j < k") (auto simp: not_less)
    qed
    then have "\<not> unat (b + of_nat i - a) < length bs"
    proof cases
      case 1
      then have "a \<le> b + of_nat i" using x by (simp add: word_le_nat_alt)
      then show ?thesis using 1 x assms(5) by (simp add: unat_sub)
    next
      case 2
      then have "\<not> a \<le> b + of_nat i" using x that assms(4) by (simp add: word_le_nat_alt)
      then have "unat (b + of_nat i - a) = unat (b + of_nat i) + 2 ^ 64 - unat a" by (simp add: unat_sub_if' word_le_nat_alt)
      then show ?thesis using x fa(1) assms(5) by simp
    qed
    then show ?thesis by (simp add: write_mem_def)
  qed
  then show ?thesis by (simp add: read_mem_def)
qed


definition port_register_set :: "ahci_controller \<Rightarrow> nat \<Rightarrow> u64" where
  "port_register_set c i = ah_abar c + 0x100 + of_nat i * 0x80"

text \<open>The port structure of the source is 0x70 bytes long, while the controller's port register sets
  are 0x80 bytes apart: the driver's view of port \<open>i\<close> starts 16 times \<open>i\<close> bytes before that port's
  registers, so on any port but the first it uses the wrong registers. On port 1 its command-issue
  register is the controller's SATA status register.\<close>

theorem port_structures_misaligned:
  "port_ptr c i = port_register_set c i - of_nat i * 0x10 \<and>
   port_ptr c 1 + port_offset CommandIssue = port_register_set c 1 + port_offset SerialAtaStatus"
  by (simp add: port_ptr_def port_register_set_def HBA_PORTS_def HBA_PORT_SIZE_def)

end
