(* ===== verification/Fat32.thy ===== *)
theory Fat32
  imports Gpt
begin

text \<open>
  The FAT32 reader, \<^verbatim>\<open>kernel/kernel/src/storage/fat32.rs\<close>. The two directory scans of the source
  (\<^verbatim>\<open>read_dir\<close> and \<^verbatim>\<open>find_in_directory\<close>) run the same three nested loops over entries, sectors
  and clusters with different bodies: the loops are modelled once, with the body as an argument. The
  cluster loops have no bound of their own, a cyclic chain keeps them going, so they are partial
  functions: \<open>None\<close> is a call that does not return.
\<close>

section \<open>The code\<close>

definition FAT_DIRECTORY_ENTRY_SIZE :: nat where "FAT_DIRECTORY_ENTRY_SIZE = 32"
definition FAT_ATTRIBUTE_DIRECTORY :: u8 where "FAT_ATTRIBUTE_DIRECTORY = push_bit 4 1"
definition FAT_ATTRIBUTE_VOLUME_ID :: u8 where "FAT_ATTRIBUTE_VOLUME_ID = push_bit 3 1"
definition FAT_ATTRIBUTE_LONG_NAME :: u8 where "FAT_ATTRIBUTE_LONG_NAME = 0x0f"
definition FAT_ENTRY_END_OF_CHAIN :: u32 where "FAT_ENTRY_END_OF_CHAIN = 0x0ffffff8"
definition FAT_ENTRY_BAD_CLUSTER :: u32 where "FAT_ENTRY_BAD_CLUSTER = 0x0ffffff7"

record fat32 =
  ft_device :: block_device
  ft_partition_start_lba :: u64
  ft_partition_sector_count :: u64
  ft_sectors_per_cluster :: u8
  ft_reserved_sector_count :: u16
  ft_root_cluster :: u32
  ft_first_data_sector :: u64

record fat_directory_entry =
  fd_first_cluster :: u32
  fd_size :: u32
  fd_is_directory :: bool

datatype fat_resolved_path = RootDirectory | Directory u32 | File fat_directory_entry

definition fat32_mount :: "block_device \<Rightarrow> gpt_partition \<Rightarrow> (fat32, storage_error) outcome" where
  "fat32_mount device part =
     and_then (device (gp_start_lba part)) (\<lambda>sector.
     and_then (read_le_u16 sector 11) (\<lambda>bytes_per_sector.
     and_then (index sector 13) (\<lambda>sectors_per_cluster.
     and_then (read_le_u16 sector 14) (\<lambda>reserved_sector_count.
     and_then (index sector 16) (\<lambda>fat_count.
     and_then (read_le_u16 sector 17) (\<lambda>root_entry_count.
     and_then (read_le_u16 sector 19) (\<lambda>total_sectors_16.
     and_then (read_le_u16 sector 22) (\<lambda>fat_size_16.
     and_then (read_le_u32 sector 32) (\<lambda>total_sectors_32.
     and_then (read_le_u32 sector 36) (\<lambda>sectors_per_fat.
     and_then (read_le_u32 sector 44) (\<lambda>root_cluster.
       if bytes_per_sector \<noteq> of_nat SECTOR_SIZE \<or> sectors_per_cluster = 0 \<or> reserved_sector_count = 0 \<or>
          fat_count = 0 \<or> root_entry_count \<noteq> 0 \<or> fat_size_16 \<noteq> 0 \<or> sectors_per_fat = 0
       then Err InvalidFat32BootSector
       else
         (let total_sectors = (if total_sectors_16 \<noteq> 0 then ucast total_sectors_16 else ucast total_sectors_32) :: u64
          in if total_sectors = 0 \<or> gp_sector_count part < total_sectors then Err InvalidFat32BootSector
             else Ok \<lparr>ft_device = device, ft_partition_start_lba = gp_start_lba part,
                      ft_partition_sector_count = gp_sector_count part,
                      ft_sectors_per_cluster = sectors_per_cluster,
                      ft_reserved_sector_count = reserved_sector_count, ft_root_cluster = root_cluster,
                      ft_first_data_sector = gp_start_lba part + ucast reserved_sector_count +
                        ucast fat_count * ucast sectors_per_fat\<rparr>))))))))))))"

definition cluster_to_lba :: "fat32 \<Rightarrow> u32 \<Rightarrow> (u64, storage_error) outcome" where
  "cluster_to_lba fs cluster =
     (if cluster < 2 then Err InvalidFat32BootSector
      else
        (let offset = (ucast cluster - 2) * ucast (ft_sectors_per_cluster fs);
             lba = ft_first_data_sector fs + offset
         in if ft_partition_start_lba fs + ft_partition_sector_count fs \<le> lba then Err InvalidFat32BootSector
            else Ok lba))"

definition next_cluster :: "fat32 \<Rightarrow> u32 \<Rightarrow> (u32, storage_error) outcome" where
  "next_cluster fs cluster =
     (let fat_offset = ucast cluster * 4 :: u64;
          fat_sector = ft_partition_start_lba fs + ucast (ft_reserved_sector_count fs) + fat_offset div of_nat SECTOR_SIZE;
          sector_offset = unat (fat_offset mod of_nat SECTOR_SIZE)
      in and_then (ft_device fs fat_sector) (\<lambda>sector.
         and_then (read_le_u32 sector sector_offset) (\<lambda>raw.
           let entry = raw AND 0x0fffffff
           in if entry = FAT_ENTRY_BAD_CLUSTER \<or> entry < 2 then Err InvalidFat32BootSector
              else if FAT_ENTRY_END_OF_CHAIN \<le> entry then Err FileNotFound
              else Ok entry)))"

subsection \<open>Short names\<close>

definition is_ascii_digit :: "u8 \<Rightarrow> bool" where "is_ascii_digit b \<longleftrightarrow> 0x30 \<le> b \<and> b \<le> 0x39"
definition is_ascii_upper :: "u8 \<Rightarrow> bool" where "is_ascii_upper b \<longleftrightarrow> 0x41 \<le> b \<and> b \<le> 0x5a"
definition is_ascii_lower :: "u8 \<Rightarrow> bool" where "is_ascii_lower b \<longleftrightarrow> 0x61 \<le> b \<and> b \<le> 0x7a"
definition to_ascii_uppercase :: "u8 \<Rightarrow> u8" where
  "to_ascii_uppercase b = (if is_ascii_lower b then b - 0x20 else b)"

definition normalize_fat_byte :: "u8 \<Rightarrow> (u8, storage_error) outcome" where
  "normalize_fat_byte byte =
     (if is_ascii_digit byte \<or> is_ascii_upper byte \<or> is_ascii_lower byte then Ok (to_ascii_uppercase byte)
      else if byte \<in> {0x24, 0x25, 0x27, 0x2d, 0x5f, 0x40, 0x7e, 0x60, 0x21, 0x28, 0x29, 0x7b, 0x7d, 0x5e, 0x23, 0x26}
      then Ok byte else Err InvalidShortName)"

fun store_normalized :: "bytes \<Rightarrow> nat \<Rightarrow> bytes \<Rightarrow> (bytes, storage_error) outcome" where
  "store_normalized [] at short_name = Ok short_name"
| "store_normalized (byte # rest) at short_name =
     and_then (normalize_fat_byte byte) (\<lambda>b.
     and_then (store short_name at b) (\<lambda>short_name'. store_normalized rest (at + 1) short_name'))"

definition make_short_name :: "bytes \<Rightarrow> (bytes, storage_error) outcome" where
  "make_short_name component =
     (case split_on 0x2e component of
        [] \<Rightarrow> Err InvalidShortName
      | name # rest \<Rightarrow>
          if 1 < length rest \<or> name = [] \<or> 8 < length name then Err InvalidShortName
          else
            and_then (store_normalized name 0 (replicate 11 0x20)) (\<lambda>short_name.
              case rest of
                [] \<Rightarrow> Ok short_name
              | extension # _ \<Rightarrow>
                  if extension = [] \<or> 3 < length extension then Err InvalidShortName
                  else store_normalized extension 8 short_name))"

text \<open>\<^verbatim>\<open>display_short_name\<close>: the two trimming loops, then the bytes below \<^verbatim>\<open>len\<close>. The 11-byte entry
  and the 12-byte buffer are fixed-size arrays; every index is in range.\<close>

fun trimmed_len :: "bytes \<Rightarrow> nat \<Rightarrow> nat \<Rightarrow> nat" where
  "trimmed_len entry base 0 = 0"
| "trimmed_len entry base (Suc n) = (if entry ! (base + n) = 0x20 then trimmed_len entry base n else Suc n)"

definition display_short_name :: "bytes \<Rightarrow> bytes" where
  "display_short_name entry =
     (let name_len = trimmed_len entry 0 8; extension_len = trimmed_len entry 8 3
      in take name_len entry @
         (if extension_len \<noteq> 0 then 0x2e # take extension_len (drop 8 entry) else []))"

definition is_dot_entry :: "bytes \<Rightarrow> bool" where
  "is_dot_entry name \<longleftrightarrow> name = [0x2e] \<or> name = [0x2e, 0x2e]"

subsection \<open>The directory loops\<close>

text \<open>Inside a loop nest the body either goes on with an updated state or returns from the
  function.\<close>

datatype ('s, 'a) flow = Proceed 's | Return "('a, storage_error) outcome" 's

function scan_entries :: "(bytes \<Rightarrow> 's \<Rightarrow> ('s, 'a) flow) \<Rightarrow> bytes \<Rightarrow> nat \<Rightarrow> 's \<Rightarrow> ('s, 'a) flow" where
  "scan_entries body sector entry_offset st =
     (if entry_offset + FAT_DIRECTORY_ENTRY_SIZE \<le> SECTOR_SIZE
      then (case body (take FAT_DIRECTORY_ENTRY_SIZE (drop entry_offset sector)) st of
              Proceed st' \<Rightarrow> scan_entries body sector (entry_offset + FAT_DIRECTORY_ENTRY_SIZE) st'
            | Return r st' \<Rightarrow> Return r st')
      else Proceed st)"
  by pat_completeness auto
termination
  by (relation "measure (\<lambda>(b, s, off, st). SECTOR_SIZE - off)")
    (auto simp: SECTOR_SIZE_def FAT_DIRECTORY_ENTRY_SIZE_def)

function scan_cluster ::
  "(bytes \<Rightarrow> 's \<Rightarrow> ('s, 'a) flow) \<Rightarrow> fat32 \<Rightarrow> u64 \<Rightarrow> nat \<Rightarrow> 's \<Rightarrow> ('s, 'a) flow" where
  "scan_cluster body fs cluster_lba sector_index st =
     (if sector_index < unat (ft_sectors_per_cluster fs)
      then (case ft_device fs (cluster_lba + of_nat sector_index) of
              Ok sector \<Rightarrow>
                (case scan_entries body sector 0 st of
                   Proceed st' \<Rightarrow> scan_cluster body fs cluster_lba (sector_index + 1) st'
                 | Return r st' \<Rightarrow> Return r st')
            | Err e \<Rightarrow> Return (Err e) st
            | Panic \<Rightarrow> Return Panic st)
      else Proceed st)"
  by pat_completeness auto
termination
  by (relation "measure (\<lambda>(b, fs, lba, i, st). unat (ft_sectors_per_cluster fs) - i)") auto

declare scan_entries.simps [simp del] scan_cluster.simps [simp del]

partial_function (option) scan_chain ::
  "(bytes \<Rightarrow> 's \<Rightarrow> ('s, 'a) flow) \<Rightarrow> fat32 \<Rightarrow> u32 \<Rightarrow> 's \<Rightarrow> (('a, storage_error) outcome \<times> 's) option" where
  "scan_chain body fs cluster st =
     (case cluster_to_lba fs cluster of
        Err e \<Rightarrow> Some (Err e, st)
      | Panic \<Rightarrow> Some (Panic, st)
      | Ok cluster_lba \<Rightarrow>
          (case scan_cluster body fs cluster_lba 0 st of
             Return r st' \<Rightarrow> Some (r, st')
           | Proceed st' \<Rightarrow>
               (case next_cluster fs cluster of
                  Err e \<Rightarrow> Some (Err e, st')
                | Panic \<Rightarrow> Some (Panic, st')
                | Ok cluster' \<Rightarrow> scan_chain body fs cluster' st')))"

text \<open>The body of \<^verbatim>\<open>find_in_directory\<close>: the entry is a 32-byte slice, its fields are in range.\<close>

definition entry_skipped :: "bytes \<Rightarrow> bool" where
  "entry_skipped entry \<longleftrightarrow> entry ! 0 = 0xe5 \<or>
     entry ! 11 = FAT_ATTRIBUTE_LONG_NAME \<or> entry ! 11 AND FAT_ATTRIBUTE_VOLUME_ID \<noteq> 0"

definition find_entry :: "bytes \<Rightarrow> bytes \<Rightarrow> unit \<Rightarrow> (unit, fat_directory_entry) flow" where
  "find_entry short_name entry st =
     (if entry ! 0 = 0 then Return (Err FileNotFound) st
      else if entry_skipped entry then Proceed st
      else if take 11 entry = short_name then
        Return
          (and_then (read_le_u16 entry 20) (\<lambda>high.
           and_then (read_le_u16 entry 26) (\<lambda>low.
           and_then (read_le_u32 entry 28) (\<lambda>len.
             Ok \<lparr>fd_first_cluster = push_bit 16 (ucast high) OR ucast low, fd_size = len,
                 fd_is_directory = (entry ! 11 AND FAT_ATTRIBUTE_DIRECTORY \<noteq> 0)\<rparr>)))) st
      else Proceed st)"

definition find_in_directory ::
  "fat32 \<Rightarrow> u32 \<Rightarrow> bytes \<Rightarrow> (fat_directory_entry, storage_error) outcome option" where
  "find_in_directory fs start_cluster component =
     (case make_short_name component of
        Err e \<Rightarrow> Some (Err e)
      | Panic \<Rightarrow> Some Panic
      | Ok short_name \<Rightarrow> map_option fst (scan_chain (find_entry short_name) fs start_cluster ()))"

fun resolve_components ::
  "fat32 \<Rightarrow> u32 \<Rightarrow> bytes list \<Rightarrow> (fat_resolved_path, storage_error) outcome option" where
  "resolve_components fs current_cluster [] = Some (Err FileNotFound)"
| "resolve_components fs current_cluster (component # components) =
     Option.bind (find_in_directory fs current_cluster component) (\<lambda>r.
       case r of
         Err e \<Rightarrow> Some (Err e)
       | Panic \<Rightarrow> Some Panic
       | Ok entry \<Rightarrow>
           if components = [] then Some (Ok (if fd_is_directory entry then Directory (fd_first_cluster entry) else File entry))
           else if \<not> fd_is_directory entry then Some (Err FileNotFound)
           else resolve_components fs (fd_first_cluster entry) components)"

definition resolve_absolute :: "fat32 \<Rightarrow> bytes \<Rightarrow> (fat_resolved_path, storage_error) outcome option" where
  "resolve_absolute fs path =
     (if path = [] \<or> hd path \<noteq> 0x2f then Some (Err PathNotAbsolute)
      else
        (let components = filter (\<lambda>c. c \<noteq> []) (split_on 0x2f path)
         in if components = [] then Some (Ok RootDirectory)
            else resolve_components fs (ft_root_cluster fs) components))"

definition open_absolute :: "fat32 \<Rightarrow> bytes \<Rightarrow> (fat_directory_entry, storage_error) outcome option" where
  "open_absolute fs path =
     map_option (\<lambda>r. and_then r (\<lambda>p. case p of File entry \<Rightarrow> Ok entry | _ \<Rightarrow> Err NotAFile)) (resolve_absolute fs path)"

definition fat_ensure_dir :: "fat32 \<Rightarrow> bytes \<Rightarrow> (unit, storage_error) outcome option" where
  "fat_ensure_dir fs path =
     map_option (\<lambda>r. and_then r (\<lambda>p. case p of File _ \<Rightarrow> Err NotADirectory | _ \<Rightarrow> Ok ())) (resolve_absolute fs path)"

text \<open>The body of \<^verbatim>\<open>read_dir\<close>, on the number of bytes written and the caller's buffer.\<close>

definition list_entry :: "bytes \<Rightarrow> nat \<times> bytes \<Rightarrow> (nat \<times> bytes, nat) flow" where
  "list_entry entry st =
     (case st of (written, buffer) \<Rightarrow>
        if entry ! 0 = 0 then Return (Ok written) st
        else if entry_skipped entry then Proceed st
        else
          (let display_name = display_short_name (take 11 entry)
           in if is_dot_entry display_name then Proceed st
              else if length buffer < written + (length display_name + 1) then Return (Err BufferTooSmall) st
              else
                (case and_then (copy_at buffer written display_name)
                        (\<lambda>b. store b (written + length display_name) 0x0a) of
                   Ok buffer' \<Rightarrow> Proceed (written + length display_name + 1, buffer')
                 | Err e \<Rightarrow> Return (Err e) st
                 | Panic \<Rightarrow> Return Panic st)))"

definition fat_read_dir ::
  "fat32 \<Rightarrow> bytes \<Rightarrow> bytes \<Rightarrow> ((nat, storage_error) outcome \<times> bytes) option" where
  "fat_read_dir fs path buffer =
     Option.bind (resolve_absolute fs path) (\<lambda>r.
       case r of
         Err e \<Rightarrow> Some (Err e, buffer)
       | Panic \<Rightarrow> Some (Panic, buffer)
       | Ok (File _) \<Rightarrow> Some (Err NotADirectory, buffer)
       | Ok RootDirectory \<Rightarrow>
           map_option (\<lambda>(r, st). (r, snd st)) (scan_chain list_entry fs (ft_root_cluster fs) (0, buffer))
       | Ok (Directory cluster) \<Rightarrow>
           map_option (\<lambda>(r, st). (r, snd st)) (scan_chain list_entry fs cluster (0, buffer)))"

subsection \<open>Reading a file\<close>

function read_sectors ::
  "fat32 \<Rightarrow> u64 \<Rightarrow> nat \<Rightarrow> nat \<times> nat \<times> bytes \<Rightarrow> (nat \<times> nat \<times> bytes, nat) flow" where
  "read_sectors fs cluster_lba sector_index (remaining, written, buffer) =
     (if sector_index < unat (ft_sectors_per_cluster fs) \<and> 0 < remaining
      then (case ft_device fs (cluster_lba + of_nat sector_index) of
              Ok sector \<Rightarrow>
                (let n = min remaining SECTOR_SIZE
                 in case and_then (slice sector 0 n) (copy_at buffer written) of
                      Ok buffer' \<Rightarrow> read_sectors fs cluster_lba (sector_index + 1) (remaining - n, written + n, buffer')
                    | Err e \<Rightarrow> Return (Err e) (remaining, written, buffer)
                    | Panic \<Rightarrow> Return Panic (remaining, written, buffer))
            | Err e \<Rightarrow> Return (Err e) (remaining, written, buffer)
            | Panic \<Rightarrow> Return Panic (remaining, written, buffer))
      else Proceed (remaining, written, buffer))"
  by pat_completeness auto
termination
  by (relation "measure (\<lambda>(fs, lba, i, st). unat (ft_sectors_per_cluster fs) - i)") auto

declare read_sectors.simps [simp del]

partial_function (option) read_chain ::
  "fat32 \<Rightarrow> u32 \<Rightarrow> nat \<times> nat \<times> bytes \<Rightarrow> ((nat, storage_error) outcome \<times> bytes) option" where
  "read_chain fs cluster st =
     (if fst st = 0 then Some (Ok (fst (snd st)), snd (snd st))
      else
        (case cluster_to_lba fs cluster of
           Err e \<Rightarrow> Some (Err e, snd (snd st))
         | Panic \<Rightarrow> Some (Panic, snd (snd st))
         | Ok cluster_lba \<Rightarrow>
             (case read_sectors fs cluster_lba 0 st of
                Return r st' \<Rightarrow> Some (r, snd (snd st'))
              | Proceed st' \<Rightarrow>
                  if fst st' = 0 then Some (Ok (fst (snd st')), snd (snd st'))
                  else
                    (case next_cluster fs cluster of
                       Err e \<Rightarrow> Some (Err e, snd (snd st'))
                     | Panic \<Rightarrow> Some (Panic, snd (snd st'))
                     | Ok cluster' \<Rightarrow> read_chain fs cluster' st'))))"

definition fat_read_file ::
  "fat32 \<Rightarrow> fat_directory_entry \<Rightarrow> bytes \<Rightarrow> ((nat, storage_error) outcome \<times> bytes) option" where
  "fat_read_file fs entry buffer =
     (if length buffer < unat (fd_size entry) then Some (Err BufferTooSmall, buffer)
      else read_chain fs (fd_first_cluster entry) (unat (fd_size entry), 0, buffer))"

end
