(* ===== verification/Fat_Volume.thy ===== *)
theory Fat_Volume
  imports Fat32
begin

text \<open>
  What the FAT32 reader answers, stated on the volume: a directory or file is the list of sectors
  along its cluster chain. Lookups are searches in the list of directory entries up to the first
  free one, listings print that list, and a file read is a prefix of the concatenated sectors.
\<close>

section \<open>Volumes\<close>

text \<open>The clusters of a chain: consecutive FAT links, and the error the link after the last one
  gives (\<^verbatim>\<open>FileNotFound\<close> at an end-of-chain mark).\<close>

fun chain :: "fat32 \<Rightarrow> u32 list \<Rightarrow> storage_error \<Rightarrow> bool" where
  "chain fs [] e \<longleftrightarrow> False"
| "chain fs [c] e \<longleftrightarrow> next_cluster fs c = Err e"
| "chain fs (c # d # cs) e \<longleftrightarrow> next_cluster fs c = Ok d \<and> chain fs (d # cs) e"

definition cluster_holds :: "fat32 \<Rightarrow> u32 \<Rightarrow> bytes list \<Rightarrow> bool" where
  "cluster_holds fs c sectors \<longleftrightarrow>
     (\<exists>lba. cluster_to_lba fs c = Ok lba \<and> length sectors = unat (ft_sectors_per_cluster fs) \<and>
        (\<forall>i < length sectors. ft_device fs (lba + of_nat i) = Ok (sectors ! i) \<and> length (sectors ! i) = 512))"

definition volume_holds :: "fat32 \<Rightarrow> u32 list \<Rightarrow> (u32 \<Rightarrow> bytes list) \<Rightarrow> bool" where
  "volume_holds fs cs data \<longleftrightarrow> (\<forall>c \<in> set cs. cluster_holds fs c (data c))"

definition chain_entries :: "u32 list \<Rightarrow> (u32 \<Rightarrow> bytes list) \<Rightarrow> bytes list" where
  "chain_entries cs data = concat (map (sector_entries 32) (concat (map data cs)))"

text \<open>The entries before the first free one that are neither deleted nor part of a long name or
  volume label.\<close>

definition dir_entries :: "bytes list \<Rightarrow> bytes list" where
  "dir_entries es = filter (\<lambda>e. \<not> entry_skipped e) (takeWhile (\<lambda>e. e ! 0 \<noteq> 0) es)"

definition terminated :: "bytes list \<Rightarrow> bool" where
  "terminated es \<longleftrightarrow> (\<exists>e \<in> set es. e ! 0 = 0)"

definition decode_entry :: "bytes \<Rightarrow> fat_directory_entry" where
  "decode_entry e =
     \<lparr>fd_first_cluster = push_bit 16 (ucast (from_le_bytes (take 2 (drop 20 e)) :: u16)) OR
        ucast (from_le_bytes (take 2 (drop 26 e)) :: u16),
      fd_size = from_le_bytes (take 4 (drop 28 e)), fd_is_directory = (e ! 11 AND FAT_ATTRIBUTE_DIRECTORY \<noteq> 0)\<rparr>"

definition listing :: "bytes list \<Rightarrow> bytes" where
  "listing es = concat (map (\<lambda>n. n @ [0x0a])
     (filter (\<lambda>n. \<not> is_dot_entry n) (map (\<lambda>e. display_short_name (take 11 e)) (dir_entries es))))"

section \<open>The loops as a walk over the entries\<close>

fun run_entries :: "(bytes \<Rightarrow> 's \<Rightarrow> ('s, 'a) flow) \<Rightarrow> bytes list \<Rightarrow> 's \<Rightarrow> ('s, 'a) flow" where
  "run_entries body [] st = Proceed st"
| "run_entries body (e # es) st =
     (case body e st of Proceed st' \<Rightarrow> run_entries body es st' | Return r st' \<Rightarrow> Return r st')"

lemma run_entries_append:
  "run_entries body (xs @ ys) st =
     (case run_entries body xs st of Proceed st' \<Rightarrow> run_entries body ys st' | Return r st' \<Rightarrow> Return r st')"
  by (induction xs arbitrary: st) (auto split: flow.split)

lemma scan_entries_run:
  assumes "k \<le> 16"
  shows "scan_entries body sector (k * 32) st = run_entries body (map (\<lambda>i. take 32 (drop (i * 32) sector)) [k..<16]) st"
  using assms
proof (induction "16 - k" arbitrary: k st)
  case 0
  then show ?case
    by (subst scan_entries.simps) (simp add: SECTOR_SIZE_def FAT_DIRECTORY_ENTRY_SIZE_def)
next
  case (Suc d)
  then have k: "k < 16" by simp
  have IH: "scan_entries body sector (k * 32 + 32) st' =
      run_entries body (map (\<lambda>i. take 32 (drop (i * 32) sector)) [Suc k..<16]) st'" for st'
    using Suc.hyps(1) [of "Suc k" st'] Suc.hyps(2) k by (simp add: add.commute)
  show ?case
    using k by (subst scan_entries.simps)
      (simp add: SECTOR_SIZE_def FAT_DIRECTORY_ENTRY_SIZE_def upt_conv_Cons IH split: flow.split)
qed

lemma scan_entries_sector: "scan_entries body sector 0 st = run_entries body (sector_entries 32 sector) st"
  using scan_entries_run [of 0 body sector st] by (simp add: sector_entries_def SECTOR_SIZE_def)

lemma scan_cluster_run:
  assumes "length sectors = unat (ft_sectors_per_cluster fs)" "k \<le> length sectors"
    "\<forall>i < length sectors. ft_device fs (lba + of_nat i) = Ok (sectors ! i)"
  shows "scan_cluster body fs lba k st = run_entries body (concat (map (sector_entries 32) (drop k sectors))) st"
  using assms(2)
proof (induction "length sectors - k" arbitrary: k st)
  case 0
  then show ?case using assms(1) by (subst scan_cluster.simps) simp
next
  case (Suc d)
  then have k: "k < length sectors" by simp
  have IH: "scan_cluster body fs lba (Suc k) st' = run_entries body (concat (map (sector_entries 32) (drop (Suc k) sectors))) st'" for st'
    using Suc.hyps(1) [of "Suc k" st'] Suc.hyps(2) k by simp
  have "drop k sectors = sectors ! k # drop (Suc k) sectors" using k by (simp add: Cons_nth_drop_Suc)
  then show ?case
    using k assms(1,3) by (subst scan_cluster.simps)
      (simp add: IH scan_entries_sector run_entries_append split: flow.split)
qed

lemma cluster_holds_scan:
  assumes "cluster_holds fs c sectors"
  shows "\<exists>lba. cluster_to_lba fs c = Ok lba \<and>
    scan_cluster body fs lba 0 st = run_entries body (concat (map (sector_entries 32) sectors)) st"
  using assms scan_cluster_run [of sectors fs 0 _ body st] by (auto simp: cluster_holds_def)

lemma scan_chain_run:
  assumes "chain fs cs e" "volume_holds fs cs data"
  shows "scan_chain body fs (hd cs) st =
    Some (case run_entries body (chain_entries cs data) st of Proceed st' \<Rightarrow> (Err e, st') | Return r st' \<Rightarrow> (r, st'))"
  using assms
proof (induction fs cs e arbitrary: st rule: chain.induct)
  case (1 fs e)
  then show ?case by simp
next
  case (2 fs c e)
  then have "cluster_holds fs c (data c)" by (simp add: volume_holds_def)
  from cluster_holds_scan [OF this, of body st] 2 show ?case
    by (subst scan_chain.simps) (auto simp: chain_entries_def split: flow.split)
next
  case (3 fs c d cs e)
  then have "cluster_holds fs c (data c)" by (simp add: volume_holds_def)
  from cluster_holds_scan [OF this, of body st] 3 show ?case
    by (subst scan_chain.simps) (auto simp: chain_entries_def run_entries_append volume_holds_def split: flow.split)
qed

section \<open>Looking up and listing\<close>

lemma sector_entries_length:
  "length sector = 512 \<Longrightarrow> e \<in> set (sector_entries 32 sector) \<Longrightarrow> length e = 32"
  by (auto simp: sector_entries_def SECTOR_SIZE_def)

lemma chain_entries_length:
  assumes "volume_holds fs cs data" "e \<in> set (chain_entries cs data)"
  shows "length e = 32"
proof -
  obtain c s where cs: "c \<in> set cs" "s \<in> set (data c)" "e \<in> set (sector_entries 32 s)"
    using assms(2) by (auto simp: chain_entries_def)
  have "cluster_holds fs c (data c)" using assms(1) cs(1) by (simp add: volume_holds_def)
  with cs(2) have "length s = 512" by (auto simp: cluster_holds_def in_set_conv_nth)
  then show ?thesis using sector_entries_length cs(3) by blast
qed

lemma run_find:
  assumes "\<forall>e \<in> set es. length e = 32"
  shows "run_entries (find_entry short) es () =
    (case find (\<lambda>e. take 11 e = short) (dir_entries es) of
       Some e \<Rightarrow> Return (Ok (decode_entry e)) ()
     | None \<Rightarrow> if terminated es then Return (Err FileNotFound) () else Proceed ())"
  using assms
  by (induction es) (auto simp: find_entry_def dir_entries_def terminated_def decode_entry_def)

lemma list_entry_simp:
  assumes "written \<le> length buffer"
  shows "list_entry entry (written, buffer) =
    (if entry ! 0 = 0 then Return (Ok written) (written, buffer)
     else if entry_skipped entry \<or> is_dot_entry (display_short_name (take 11 entry)) then Proceed (written, buffer)
     else let line = display_short_name (take 11 entry) @ [0x0a]
          in if length buffer < written + length line then Return (Err BufferTooSmall) (written, buffer)
             else Proceed (written + length line, overwrite buffer written line))"
proof -
  let ?n = "display_short_name (take 11 entry)"
  have "and_then (copy_at buffer written ?n) (\<lambda>b. store b (written + length ?n) 0x0a) =
      (Ok (overwrite buffer written (?n @ [0x0a])) :: (_, storage_error) outcome)"
    if "written + (length ?n + 1) \<le> length buffer"
    using that by (simp add: list_update_overwrite overwrite_append)
  then show ?thesis by (auto simp: list_entry_def Let_def not_less)
qed

lemma listing_Cons:
  "listing (e # es) =
     (if e ! 0 = 0 then []
      else if entry_skipped e \<or> is_dot_entry (display_short_name (take 11 e)) then listing es
      else (display_short_name (take 11 e) @ [0x0a]) @ listing es)"
  by (simp add: listing_def dir_entries_def)

lemma run_list:
  assumes "written \<le> length buffer"
  shows "if written + length (listing es) \<le> length buffer
    then run_entries list_entry es (written, buffer) =
      (let st = (written + length (listing es), overwrite buffer written (listing es))
       in if terminated es then Return (Ok (fst st)) st else Proceed st)
    else \<exists>st. run_entries list_entry es (written, buffer) = Return (Err BufferTooSmall) st"
  using assms
proof (induction es arbitrary: written buffer)
  case Nil
  then show ?case by (simp add: listing_def dir_entries_def terminated_def overwrite_def)
next
  case (Cons e es)
  consider "e ! 0 = 0" | "e ! 0 \<noteq> 0" "entry_skipped e \<or> is_dot_entry (display_short_name (take 11 e))"
    | "e ! 0 \<noteq> 0" "\<not> (entry_skipped e \<or> is_dot_entry (display_short_name (take 11 e)))" by blast
  then show ?case
  proof cases
    case 1
    with Cons.prems show ?thesis by (simp add: list_entry_simp listing_Cons terminated_def overwrite_def Let_def)
  next
    case 2
    then have "run_entries list_entry (e # es) (written, buffer) = run_entries list_entry es (written, buffer)"
      "listing (e # es) = listing es" "terminated (e # es) = terminated es"
      using Cons.prems by (simp_all add: list_entry_simp listing_Cons terminated_def)
    with Cons.IH [OF Cons.prems] show ?thesis by (simp only:)
  next
    case 3
    define line where "line = display_short_name (take 11 e) @ [0x0a]"
    from 3 have l: "listing (e # es) = line @ listing es" "terminated (e # es) = terminated es"
      by (simp_all add: listing_Cons terminated_def line_def)
    have body: "list_entry e (written, buffer) =
        (if length buffer < written + length line then Return (Err BufferTooSmall) (written, buffer)
         else Proceed (written + length line, overwrite buffer written line))"
      using 3 Cons.prems by (simp add: list_entry_simp Let_def line_def)
    show ?thesis
    proof (cases "length buffer < written + length line")
      case True
      then show ?thesis unfolding l by (simp add: body)
    next
      case False
      with Cons.IH [of "written + length line" "overwrite buffer written line"]
        overwrite_append [OF Cons.prems, of line "listing es"] show ?thesis
        unfolding l by (simp add: body add.assoc del: split_paired_Ex split: if_splits)
    qed
  qed
qed

section \<open>Reading a file\<close>

lemma read_sectors_run:
  assumes "length sectors = unat (ft_sectors_per_cluster fs)" "k \<le> length sectors"
    "\<forall>i < length sectors. ft_device fs (lba + of_nat i) = Ok (sectors ! i) \<and> length (sectors ! i) = 512"
    "written + remaining \<le> length buffer"
  defines "d n ks \<equiv> take n (concat (drop ks sectors))"
  shows "read_sectors fs lba k (remaining, written, buffer) =
    Proceed (remaining - length (d remaining k), written + length (d remaining k), overwrite buffer written (d remaining k))"
  using assms(2,4)
proof (induction "length sectors - k" arbitrary: k remaining written buffer)
  case 0
  then show ?case using assms(1) by (subst read_sectors.simps) (simp add: d_def overwrite_def)
next
  case (Suc m)
  then have k: "k < length sectors" by simp
  have dk: "drop k sectors = sectors ! k # drop (Suc k) sectors" using k by (simp add: Cons_nth_drop_Suc)
  have sk: "ft_device fs (lba + of_nat k) = Ok (sectors ! k)" "length (sectors ! k) = 512" using assms(3) k by blast+
  show ?case
  proof (cases "remaining = 0")
    case True
    then show ?thesis by (subst read_sectors.simps) (simp add: d_def overwrite_def)
  next
    case False
    let ?n = "min remaining 512" let ?b = "overwrite buffer written (take ?n (sectors ! k))"
    have n: "length (take ?n (sectors ! k)) = ?n" using sk(2) by simp
    have fit: "written + length (take ?n (sectors ! k)) \<le> length buffer" using n Suc.prems(2) by simp
    have step: "read_sectors fs lba k (remaining, written, buffer) =
        read_sectors fs lba (Suc k) (remaining - ?n, written + ?n, ?b)"
      using False k sk fit assms(1) by (subst read_sectors.simps) (simp add: SECTOR_SIZE_def Let_def)
    have d: "d remaining k = take ?n (sectors ! k) @ d (remaining - ?n) (Suc k)"
      using sk(2) by (cases "remaining \<le> 512") (simp_all add: d_def dk)
    have IH: "read_sectors fs lba (Suc k) (remaining - ?n, written + ?n, ?b) =
      Proceed (remaining - ?n - length (d (remaining - ?n) (Suc k)), written + ?n + length (d (remaining - ?n) (Suc k)),
        overwrite ?b (written + ?n) (d (remaining - ?n) (Suc k)))"
      using k Suc.prems(2) Suc.hyps(2) fit by (intro Suc.hyps(1)) simp_all
    have "overwrite ?b (written + ?n) (d (remaining - ?n) (Suc k)) = overwrite buffer written (d remaining k)"
      using overwrite_append [of written buffer "take ?n (sectors ! k)"] n d Suc.prems(2) by simp
    then show ?thesis using step IH n d by simp
  qed
qed

lemma read_chain_run:
  assumes "chain fs cs e" "volume_holds fs cs data" "written + remaining \<le> length buffer"
  defines "d \<equiv> concat (concat (map data cs))"
  shows "read_chain fs (hd cs) (remaining, written, buffer) =
    Some (if remaining \<le> length d then Ok (written + remaining) else Err e, overwrite buffer written (take remaining d))"
  using assms(1-3) unfolding d_def
proof (induction fs cs e arbitrary: remaining written buffer rule: chain.induct)
  case (1 fs e)
  then show ?case by simp
next
  case (2 fs c e)
  then obtain lba where lba: "cluster_to_lba fs c = Ok lba" "length (data c) = unat (ft_sectors_per_cluster fs)"
    "\<forall>i < length (data c). ft_device fs (lba + of_nat i) = Ok (data c ! i) \<and> length (data c ! i) = 512"
    by (auto simp: volume_holds_def cluster_holds_def)
  note run = read_sectors_run [OF lba(2) _ lba(3) "2.prems"(3), of 0]
  show ?case
    using 2 lba(1) run by (subst read_chain.simps) (auto simp: overwrite_def min_def)
next
  case (3 fs c d cs e)
  then obtain lba where lba: "cluster_to_lba fs c = Ok lba" "length (data c) = unat (ft_sectors_per_cluster fs)"
    "\<forall>i < length (data c). ft_device fs (lba + of_nat i) = Ok (data c ! i) \<and> length (data c ! i) = 512"
    by (auto simp: volume_holds_def cluster_holds_def)
  note run = read_sectors_run [OF lba(2) _ lba(3) "3.prems"(3), of 0]
  let ?t = "take remaining (concat (data c))"
  have fit: "written + length ?t \<le> length buffer" using "3.prems"(3) by simp
  show ?case
  proof (cases "remaining \<le> length (concat (data c))")
    case True
    with lba(1) run show ?thesis by (subst read_chain.simps) (auto simp: overwrite_def)
  next
    case False
    let ?m = "length (concat (data c))"
    have IH: "read_chain fs d (remaining - ?m, written + ?m, overwrite buffer written ?t) =
      Some (if remaining - ?m \<le> length (concat (concat (map data (d # cs)))) then Ok (written + ?m + (remaining - ?m)) else Err e,
        overwrite (overwrite buffer written ?t) (written + ?m) (take (remaining - ?m) (concat (concat (map data (d # cs))))))"
      using "3.IH" [of "written + ?m" "remaining - ?m" "overwrite buffer written ?t"] "3.prems" False fit
      by (simp add: volume_holds_def)
    have ow: "overwrite (overwrite buffer written (concat (data c))) (written + ?m) xs =
        overwrite buffer written (concat (data c) @ xs)" for xs
      using overwrite_append [of written buffer "concat (data c)" xs] "3.prems"(3) by simp
    show ?thesis
      using False lba(1) run "3.prems"(1) IH by (subst read_chain.simps) (auto simp: ow)
  qed
qed

section \<open>Termination\<close>

text \<open>One pass over a cluster of a mounted volume consumes at least one byte, so reading a file returns
  on every disk, cyclic chains included.\<close>

lemma read_sectors_progress:
  assumes "read_sectors fs lba k (remaining, written, buffer) = Proceed (r, w, b)"
  shows "r \<le> remaining \<and> (k < unat (ft_sectors_per_cluster fs) \<and> 0 < remaining \<longrightarrow> r < remaining)"
  using assms
proof (induction fs lba k "(remaining, written, buffer)" arbitrary: remaining written buffer rule: read_sectors.induct)
  case (1 fs lba k remaining written buffer)
  show ?case
  proof (cases "k < unat (ft_sectors_per_cluster fs) \<and> 0 < remaining")
    case True
    note p = "1.prems" [unfolded read_sectors.simps [of fs lba k], unfolded Let_def]
    let ?n = "min remaining SECTOR_SIZE"
    obtain sector where s1: "ft_device fs (lba + of_nat k) = Ok sector"
      using p True by (cases "ft_device fs (lba + of_nat k)") auto
    obtain buffer' where s2: "(and_then (slice sector 0 ?n) (copy_at buffer written) :: (_, storage_error) outcome) = Ok buffer'"
      using p True s1
      by (cases "and_then (slice sector 0 ?n) (copy_at buffer written) :: (_, storage_error) outcome") (auto simp del: and_then_eq_Ok)
    have s3: "read_sectors fs lba (k + 1) (remaining - ?n, written + ?n, buffer') = Proceed (r, w, b)"
      using p True s1 s2 by (simp del: and_then_eq_Ok)
    note s = s1 s2 s3
    from "1.hyps" [OF True s(1) refl s(2,3)] True show ?thesis by (auto simp: SECTOR_SIZE_def)
  next
    case False
    with "1.prems" show ?thesis by (subst (asm) read_sectors.simps) auto
  qed
qed

lemma read_chain_returns:
  assumes "ft_sectors_per_cluster fs \<noteq> 0"
  shows "\<exists>r. read_chain fs cluster (remaining, written, buffer) = Some r"
proof (induction remaining arbitrary: cluster written buffer rule: less_induct)
  case (less remaining)
  have spc: "0 < unat (ft_sectors_per_cluster fs)" using assms by (simp add: unat_gt_0)
  have go: "\<exists>r. read_chain fs c (r', w', b') = Some r" if "read_sectors fs lba 0 (remaining, written, buffer) = Proceed (r', w', b')" "remaining \<noteq> 0"
    for c lba r' w' b'
    using read_sectors_progress [OF that(1)] spc that(2) by (intro less.IH) simp
  show ?case
    using go by (subst read_chain.simps) (auto split: outcome.splits flow.splits)
qed

lemma mount_sectors_per_cluster: "fat32_mount device part = Ok fs \<Longrightarrow> ft_sectors_per_cluster fs \<noteq> 0"
  by (auto simp: fat32_mount_def Let_def split: if_splits)

text \<open>A directory scan that meets no end mark on a cyclic chain does not return.\<close>

lemma scan_chain_cyclic:
  assumes "next_cluster fs c = Ok c" "cluster_to_lba fs c = Ok lba" "scan_cluster body fs lba 0 st = Proceed st"
  shows "scan_chain body fs c st = None"
proof (rule ccontr)
  assume "scan_chain body fs c st \<noteq> None"
  then obtain r where "scan_chain body fs c st = Some r" by auto
  then have "fs = fs \<and> body = body \<and> c = c \<and> st = st \<longrightarrow> False"
  proof (rule scan_chain.raw_induct [where P = "\<lambda>b f c' s r. f = fs \<and> b = body \<and> c' = c \<and> s = st \<longrightarrow> False", rotated])
    fix scan :: "(bytes \<Rightarrow> 'a \<Rightarrow> ('a, 'b) flow) \<Rightarrow> fat32 \<Rightarrow> u32 \<Rightarrow> 'a \<Rightarrow> (('b, storage_error) outcome \<times> 'a) option"
    fix b f c' s r
    assume "\<And>b f c' s r. scan b f c' s = Some r \<Longrightarrow> f = fs \<and> b = body \<and> c' = c \<and> s = st \<longrightarrow> False"
      "(case cluster_to_lba f c' of
        Ok cluster_lba \<Rightarrow>
          (case scan_cluster b f cluster_lba 0 s of
             Proceed st' \<Rightarrow>
               (case next_cluster f c' of
                  Ok cluster' \<Rightarrow> scan b f cluster' st' | Err e \<Rightarrow> Some (Err e, st') | Panic \<Rightarrow> Some (Panic, st'))
           | Return r st' \<Rightarrow> Some (r, st'))
        | Err e \<Rightarrow> Some (Err e, s) | Panic \<Rightarrow> Some (Panic, s)) = Some r"
    then show "f = fs \<and> b = body \<and> c' = c \<and> s = st \<longrightarrow> False" using assms by (cases r) (auto, blast)
  qed
  then show False by simp
qed

section \<open>Short names\<close>

lemma normalize_fat_byte_Ok:
  "normalize_fat_byte b = Ok c \<Longrightarrow> c = to_ascii_uppercase b \<and> c \<noteq> 0x20 \<and> c \<noteq> 0x2e \<and> c \<noteq> 0"
  by (auto simp: normalize_fat_byte_def to_ascii_uppercase_def is_ascii_digit_def is_ascii_upper_def is_ascii_lower_def
      word_le_nat_alt split: if_splits)

lemma store_normalized_Ok:
  assumes "store_normalized bs at sn = Ok sn'" "at + length bs \<le> length sn"
  shows "sn' = overwrite sn at (map to_ascii_uppercase bs) \<and> 0x20 \<notin> to_ascii_uppercase ` set bs"
  using assms
proof (induction bs arbitrary: "at" sn)
  case Nil
  then show ?case by (simp add: overwrite_def)
next
  case (Cons b bs)
  then obtain c where c: "normalize_fat_byte b = Ok c" "store_normalized bs (at + 1) (sn[at := c]) = Ok sn'" by auto
  note n = normalize_fat_byte_Ok [OF c(1)]
  have "sn' = overwrite (sn[at := c]) (at + 1) (map to_ascii_uppercase bs) \<and> 0x20 \<notin> to_ascii_uppercase ` set bs"
    using Cons.IH [OF c(2)] Cons.prems(2) by simp
  with n Cons.prems(2) show ?case by (auto simp: overwrite_def take_Suc_store)
qed

lemma trimmed_len_pad:
  assumes "\<And>i. i < n \<Longrightarrow> entry ! (base + i) = (xs @ replicate k 0x20) ! i" "n = length xs + k" "0x20 \<notin> set xs"
  shows "trimmed_len entry base n = length xs"
  using assms
proof (induction k arbitrary: n)
  case 0
  show ?case
  proof (cases n)
    case (Suc m)
    then have "entry ! (base + m) = xs ! m" "m < length xs" using 0 by auto
    moreover from this have "xs ! m \<noteq> 0x20" using 0(3) nth_mem by metis
    ultimately show ?thesis using Suc 0 by simp
  qed (use 0 in simp)
next
  case (Suc k)
  then obtain m where n: "n = Suc m" "m = length xs + k" by auto
  have "entry ! (base + m) = 0x20" using Suc.prems(1) [of m] n by (simp add: nth_append del: replicate.simps)
  moreover have "trimmed_len entry base m = length xs"
  proof (rule Suc.IH [OF _ n(2) Suc.prems(3)])
    fix i assume "i < m"
    then show "entry ! (base + i) = (xs @ replicate k 0x20) ! i"
      using Suc.prems(1) [of i] n by (simp add: nth_append del: replicate.simps)
  qed
  ultimately show ?case using n by simp
qed

lemma display_padded:
  assumes "length a \<le> 8" "length b \<le> 3" "0x20 \<notin> set a" "0x20 \<notin> set b"
  shows "display_short_name (a @ replicate (8 - length a) 0x20 @ b @ replicate (3 - length b) 0x20) =
    a @ (if b = [] then [] else 0x2e # b)"
proof -
  let ?e = "a @ replicate (8 - length a) 0x20 @ b @ replicate (3 - length b) 0x20"
  have "trimmed_len ?e 0 8 = length a"
    using assms by (intro trimmed_len_pad [where k = "8 - length a"]) (auto simp: nth_append)
  moreover have "trimmed_len ?e 8 3 = length b"
    using assms by (intro trimmed_len_pad [where k = "3 - length b"]) (auto simp: nth_append)
  moreover have "drop 8 ?e = b @ replicate (3 - length b) 0x20" using assms(1) by simp
  ultimately show ?thesis by (simp add: display_short_name_def Let_def)
qed

lemma split_on_join: "split_on s xs = [a] \<Longrightarrow> xs = a" "split_on s xs = [a, b] \<Longrightarrow> xs = a @ s # b"
proof -
  have ne: "split_on s ys \<noteq> []" for ys by (cases ys) auto
  show one: "split_on s xs = [a] \<Longrightarrow> xs = a" for xs a
  proof (induction xs arbitrary: a)
    case (Cons x xs)
    then show ?case using ne [of xs] by (cases "split_on s xs") (auto split: if_splits)
  qed simp
  show "split_on s xs = [a, b] \<Longrightarrow> xs = a @ s # b"
  proof (induction xs arbitrary: a)
    case (Cons x xs)
    then show ?case using ne [of xs] one [of xs b] by (cases "split_on s xs") (auto split: if_splits)
  qed simp
qed

section \<open>A sample volume\<close>

text \<open>One sector per cluster, the FAT in sector 1, the data area from sector 3: the root directory in
  cluster 2 and a 600-byte file in clusters 3 and 4.\<close>

definition sample_fat_entry :: bytes where
  "sample_fat_entry = [0x48, 0x45, 0x4c, 0x4c, 0x4f, 0x20, 0x20, 0x20, 0x54, 0x58, 0x54, 0x20] @ replicate 14 0 @
     to_le_bytes 2 (3 :: u16) @ to_le_bytes 4 (600 :: u32)"

definition sample_fat_disk :: "u8 list \<Rightarrow> block_device" where
  "sample_fat_disk links lba =
     (if lba = 1 then Ok (replicate 8 0 @ links @ replicate 492 0)
      else if lba = 3 then Ok (sample_fat_entry @ replicate 480 0)
      else if lba = 4 then Ok (replicate 512 0x41)
      else if lba = 5 then Ok (replicate 512 0x42)
      else Err AhciTaskFileError)"

definition sample_links :: bytes where
  "sample_links = to_le_bytes 4 (0x0fffffff :: u32) @ to_le_bytes 4 (4 :: u32) @ to_le_bytes 4 (0x0fffffff :: u32)"

definition sample_fs_of :: "bytes \<Rightarrow> fat32" where
  "sample_fs_of links = \<lparr>ft_device = sample_fat_disk links, ft_partition_start_lba = 0, ft_partition_sector_count = 100,
     ft_sectors_per_cluster = 1, ft_reserved_sector_count = 1, ft_root_cluster = 2, ft_first_data_sector = 3\<rparr>"

definition sample_fs :: fat32 where "sample_fs = sample_fs_of sample_links"

definition sample_fat_data :: "u32 \<Rightarrow> bytes list" where
  "sample_fat_data c = [if c = 2 then sample_fat_entry @ replicate 480 0 else if c = 3 then replicate 512 0x41 else replicate 512 0x42]"

lemma sample_chains: "chain sample_fs [2] FileNotFound" "chain sample_fs [3, 4] FileNotFound"
  by code_simp+

lemma sample_volume: "c \<in> {2, 3, 4} \<Longrightarrow> cluster_holds (sample_fs_of links) c (sample_fat_data c)"
proof -
  let ?fs = "sample_fs_of links"
  have e: "length sample_fat_entry = 32" by code_simp
  have l: "cluster_to_lba ?fs 2 = Ok 3" "cluster_to_lba ?fs 3 = Ok 4" "cluster_to_lba ?fs 4 = Ok 5"
    by (simp_all add: cluster_to_lba_def sample_fs_of_def)
  have d: "ft_device ?fs = sample_fat_disk links" "ft_sectors_per_cluster ?fs = 1"
    by (simp_all add: sample_fs_of_def)
  have "cluster_holds ?fs c (sample_fat_data c)" if "cluster_to_lba ?fs c = Ok lba"
    "sample_fat_disk links lba = Ok (hd (sample_fat_data c))" "length (hd (sample_fat_data c)) = 512" for c lba
    using that d by (simp add: cluster_holds_def sample_fat_data_def)
  from this [OF l(1)] this [OF l(2)] this [OF l(3)] show "c \<in> {2, 3, 4} \<Longrightarrow> ?thesis"
    using e by (auto simp: sample_fat_disk_def sample_fat_data_def)
qed

lemma sample_volumes:
  "volume_holds (sample_fs_of links) [2] sample_fat_data" "volume_holds (sample_fs_of links) [3] sample_fat_data"
  "volume_holds (sample_fs_of links) [3, 4] sample_fat_data"
  "volume_holds sample_fs [2] sample_fat_data" "volume_holds sample_fs [3, 4] sample_fat_data"
  using sample_volume by (simp_all add: volume_holds_def sample_fs_def)

section \<open>Properties\<close>

text \<open>C18. Reading a file: along a cluster chain that is long enough, \<^verbatim>\<open>read_file\<close> returns the file's size
  and puts exactly the first that many bytes of the chain's sectors, in order, at the start of the
  buffer, leaving the rest of the buffer alone; a chain that is too short gives the error of its
  last link, a buffer that is too small is not touched.\<close>

theorem read_file_reads_chain:
  assumes "chain fs cs e" "volume_holds fs cs data" "hd cs = fd_first_cluster entry"
  defines "d \<equiv> concat (concat (map data cs))" and "n \<equiv> unat (fd_size entry)"
  shows "fat_read_file fs entry buffer =
    Some (if length buffer < n then (Err BufferTooSmall, buffer)
          else (if n \<le> length d then Ok n else Err e, overwrite buffer 0 (take n d)))"
  using read_chain_run [OF assms(1,2), of 0 n buffer] assms(3) by (simp add: fat_read_file_def d_def n_def)

theorem read_file_reads_chain_witness:
  "fat_read_file sample_fs \<lparr>fd_first_cluster = 3, fd_size = 600, fd_is_directory = False\<rparr> (replicate 700 0) =
    Some (Ok 600, replicate 512 0x41 @ replicate 88 0x42 @ replicate 100 0)"
proof -
  note v = sample_volumes(5)
  show ?thesis
    using read_file_reads_chain [OF sample_chains(2) v, of "\<lparr>fd_first_cluster = 3, fd_size = 600, fd_is_directory = False\<rparr>" "replicate 700 0"]
    by (simp add: sample_fat_data_def overwrite_def)
qed

text \<open>C30. Reading a file returns, with a result or an error, on every disk a volume can be mounted from:
  damaged and cyclic cluster chains included.\<close>

theorem read_file_terminates:
  assumes "fat32_mount device part = Ok fs"
  shows "\<exists>r. fat_read_file fs entry buffer = Some r"
  using read_chain_returns [OF mount_sectors_per_cluster [OF assms]] by (simp add: fat_read_file_def)

definition sample_boot_sector :: bytes where
  "sample_boot_sector = replicate 11 0 @ to_le_bytes 2 (512 :: u16) @ [1] @ to_le_bytes 2 (1 :: u16) @ [1, 0, 0] @
     to_le_bytes 2 (100 :: u16) @ replicate 15 0 @ to_le_bytes 4 (2 :: u32) @ replicate 4 0 @ to_le_bytes 4 (2 :: u32) @ replicate 464 0"

theorem read_file_terminates_witness:
  "\<exists>fs r. fat32_mount (\<lambda>lba. if lba = 0 then Ok sample_boot_sector else sample_fat_disk (to_le_bytes 4 (2 :: u32) @ to_le_bytes 4 (3 :: u32) @ replicate 4 0) lba)
       \<lparr>gp_type_guid = [], gp_start_lba = 0, gp_sector_count = 100, gp_name = []\<rparr> = Ok fs \<and> next_cluster fs 3 = Ok 3 \<and>
     fat_read_file fs \<lparr>fd_first_cluster = 3, fd_size = 5000, fd_is_directory = False\<rparr> (replicate 5000 0) = Some r"
proof -
  let ?dev = "\<lambda>lba. if lba = 0 then Ok sample_boot_sector else sample_fat_disk (to_le_bytes 4 (2 :: u32) @ to_le_bytes 4 (3 :: u32) @ replicate 4 0) lba"
  let ?fs = "sample_fs\<lparr>ft_device := ?dev\<rparr>"
  have b: "length sample_boot_sector = 512" by (simp add: sample_boot_sector_def)
  have f: "take 2 (drop 11 sample_boot_sector) = to_le_bytes 2 (512 :: u16)" "sample_boot_sector ! 13 = 1"
    "take 2 (drop 14 sample_boot_sector) = to_le_bytes 2 (1 :: u16)" "sample_boot_sector ! 16 = 1"
    "take 2 (drop 17 sample_boot_sector) = to_le_bytes 2 (0 :: u16)" "take 2 (drop 19 sample_boot_sector) = to_le_bytes 2 (100 :: u16)"
    "take 2 (drop 22 sample_boot_sector) = to_le_bytes 2 (0 :: u16)" "take 4 (drop 32 sample_boot_sector) = to_le_bytes 4 (0 :: u32)"
    "take 4 (drop 36 sample_boot_sector) = to_le_bytes 4 (2 :: u32)" "take 4 (drop 44 sample_boot_sector) = to_le_bytes 4 (2 :: u32)"
    by code_simp+
  have m: "fat32_mount ?dev \<lparr>gp_type_guid = [], gp_start_lba = 0, gp_sector_count = 100, gp_name = []\<rparr> = Ok ?fs"
    using b by (simp add: fat32_mount_def f SECTOR_SIZE_def sample_fs_def sample_fs_of_def)
  have "next_cluster ?fs 3 = Ok 3" by code_simp
  with m read_file_terminates [OF m, of "\<lparr>fd_first_cluster = 3, fd_size = 5000, fd_is_directory = False\<rparr>" "replicate 5000 0"]
  show ?thesis by blast
qed

lemma find_in_directory_run:
  assumes "chain fs cs e" "volume_holds fs cs data" "make_short_name component = Ok short"
  defines "es \<equiv> chain_entries cs data"
  shows "find_in_directory fs (hd cs) component =
    Some (case find (\<lambda>d. take 11 d = short) (dir_entries es) of
            Some d \<Rightarrow> Ok (decode_entry d)
          | None \<Rightarrow> Err (if terminated es then FileNotFound else e))"
  using assms(3) chain_entries_length [OF assms(2)]
  by (simp add: find_in_directory_def scan_chain_run [OF assms(1,2)] run_find es_def split: option.split)

lemma sample_entry_found:
  "make_short_name [0x68, 0x65, 0x6c, 0x6c, 0x6f, 0x2e, 0x74, 0x78, 0x74] = Ok (take 11 sample_fat_entry)"
  "find (\<lambda>d. take 11 d = take 11 sample_fat_entry) (dir_entries (chain_entries [2] sample_fat_data)) = Some sample_fat_entry"
  "decode_entry sample_fat_entry = \<lparr>fd_first_cluster = 3, fd_size = 600, fd_is_directory = False\<rparr>"
  by code_simp+

lemma sample_open:
  assumes "chain (sample_fs_of links) [2] e"
  shows "open_absolute (sample_fs_of links) (0x2f # [0x68, 0x65, 0x6c, 0x6c, 0x6f, 0x2e, 0x74, 0x78, 0x74]) =
     Some (Ok \<lparr>fd_first_cluster = 3, fd_size = 600, fd_is_directory = False\<rparr>)"
proof -
  let ?name = "[0x68, 0x65, 0x6c, 0x6c, 0x6f, 0x2e, 0x74, 0x78, 0x74] :: bytes"
  have r: "ft_root_cluster (sample_fs_of links) = 2" by (simp add: sample_fs_of_def)
  have f: "find_in_directory (sample_fs_of links) 2 ?name = Some (Ok \<lparr>fd_first_cluster = 3, fd_size = 600, fd_is_directory = False\<rparr>)"
    using find_in_directory_run [OF assms sample_volumes(1) sample_entry_found(1)] unfolding sample_entry_found(2) by (simp add: sample_entry_found(3))
  have "filter (\<lambda>c. c \<noteq> []) (split_on 0x2f (0x2f # ?name)) = [?name]" by code_simp
  then have "resolve_absolute (sample_fs_of links) (0x2f # ?name) = resolve_components (sample_fs_of links) 2 [?name]"
    unfolding resolve_absolute_def Let_def r by simp
  also have "\<dots> = Some (Ok (File \<lparr>fd_first_cluster = 3, fd_size = 600, fd_is_directory = False\<rparr>))" by (simp add: f)
  finally show ?thesis by (simp add: open_absolute_def)
qed

text \<open>C26. Looking up a name in a directory is a search for its 8.3 form among the entries before the
  first free one, skipping deleted entries, long-name parts and volume labels; a name that is not
  there is \<^verbatim>\<open>FileNotFound\<close>.\<close>

theorem find_in_directory_searches:
  assumes "chain fs cs e" "volume_holds fs cs data" "make_short_name component = Ok short"
  defines "es \<equiv> chain_entries cs data"
  shows "find_in_directory fs (hd cs) component =
    Some (case find (\<lambda>d. take 11 d = short) (dir_entries es) of
            Some d \<Rightarrow> Ok (decode_entry d)
          | None \<Rightarrow> Err (if terminated es then FileNotFound else e))"
  unfolding es_def by (rule find_in_directory_run [OF assms(1-3)])

theorem find_in_directory_searches_witness:
  "find_in_directory sample_fs 2 [0x68, 0x65, 0x6c, 0x6c, 0x6f, 0x2e, 0x74, 0x78, 0x74] =
     Some (Ok \<lparr>fd_first_cluster = 3, fd_size = 600, fd_is_directory = False\<rparr>)"
  using find_in_directory_searches [OF sample_chains(1) sample_volumes(4) sample_entry_found(1)] sample_entry_found(2,3) by simp

text \<open>C27. Listing a directory writes one line per entry, in directory order and without the dot
  entries, or reports that the buffer is too small. A directory whose clusters are all in use ends
  without a free entry: then the listing is written but the call answers with the error of the last
  link.\<close>

theorem read_dir_lists_entries:
  assumes "chain fs cs e" "volume_holds fs cs data"
    "resolve_absolute fs path = Some (Ok RootDirectory) \<and> hd cs = ft_root_cluster fs \<or>
     resolve_absolute fs path = Some (Ok (Directory (hd cs)))"
  defines "es \<equiv> chain_entries cs data"
  shows "if length (listing es) \<le> length buffer
    then fat_read_dir fs path buffer =
      Some (if terminated es then Ok (length (listing es)) else Err e, overwrite buffer 0 (listing es))
    else \<exists>b. fat_read_dir fs path buffer = Some (Err BufferTooSmall, b)"
proof -
  have "fat_read_dir fs path buffer = map_option (\<lambda>(r, st). (r, snd st)) (scan_chain list_entry fs (hd cs) (0, buffer))"
    using assms(3) by (auto simp: fat_read_dir_def)
  also have "\<dots> = Some (case run_entries list_entry es (0, buffer) of Proceed st' \<Rightarrow> (Err e, snd st') | Return r st' \<Rightarrow> (r, snd st'))"
    by (simp add: scan_chain_run [OF assms(1,2)] es_def split: flow.split)
  finally show ?thesis using run_list [of 0 buffer es] by (auto simp: Let_def split: if_splits)
qed

theorem read_dir_lists_entries_witness:
  "fat_read_dir sample_fs [0x2f] (replicate 12 0) = Some (Ok 10, [0x48, 0x45, 0x4c, 0x4c, 0x4f, 0x2e, 0x54, 0x58, 0x54, 0x0a, 0, 0])"
proof -
  note v = sample_volumes(4)
  have l: "listing (chain_entries [2] sample_fat_data) = [0x48, 0x45, 0x4c, 0x4c, 0x4f, 0x2e, 0x54, 0x58, 0x54, 0x0a]"
    "terminated (chain_entries [2] sample_fat_data)" by code_simp+
  have "resolve_absolute sample_fs [0x2f] = Some (Ok RootDirectory) \<and> hd [2] = ft_root_cluster sample_fs"
    by (simp add: resolve_absolute_def sample_fs_def sample_fs_of_def)
  from read_dir_lists_entries [OF sample_chains(1) v disjI1 [OF this], of "replicate 12 0"] l
  show ?thesis by (simp add: overwrite_def numeral_eq_Suc)
qed

text \<open>C37. Short names round trip: the name a directory entry displays is the upper-case form of any
  path component that looks it up.\<close>

theorem short_name_roundtrip:
  assumes "make_short_name component = Ok short"
  shows "length short = 11 \<and> display_short_name short = map to_ascii_uppercase component"
proof -
  let ?u = "map to_ascii_uppercase"
  have dot: "to_ascii_uppercase 0x2e = 0x2e" by (simp add: to_ascii_uppercase_def is_ascii_lower_def)
  obtain name rest where sp: "split_on 0x2e component = name # rest" "length rest \<le> 1" "name \<noteq> []" "length name \<le> 8"
    using assms by (auto simp: make_short_name_def split: list.splits if_splits)
  then obtain s where s: "store_normalized name 0 (replicate 11 0x20) = Ok s"
    using assms by (auto simp: make_short_name_def)
  have n: "s = ?u name @ replicate (8 - length name) 0x20 @ replicate 3 0x20" "0x20 \<notin> set (?u name)"
    using store_normalized_Ok [OF s] sp(4) by (auto simp: overwrite_def simp flip: replicate_add)
  show ?thesis
  proof (cases rest)
    case Nil
    then have "short = s" "component = name" using assms sp s split_on_join(1) by (auto simp: make_short_name_def)
    then show ?thesis using n display_padded [of "?u name" "[]"] sp(4) by simp
  next
    case (Cons ext r)
    with sp have r: "r = []" by simp
    have x: "ext \<noteq> []" "length ext \<le> 3" "store_normalized ext 8 s = Ok short"
      using assms sp s Cons by (auto simp: make_short_name_def split: if_splits)
    have "short = overwrite s 8 (?u ext)" "0x20 \<notin> set (?u ext)"
      using store_normalized_Ok [OF x(3)] x(2) n sp(4) by auto
    moreover have "overwrite s 8 (?u ext) = ?u name @ replicate (8 - length name) 0x20 @ ?u ext @ replicate (3 - length ext) 0x20"
      using n(1) sp(4) x(2) by (simp add: overwrite_def)
    moreover have "component = name @ 0x2e # ext" using sp(1) Cons r split_on_join(2) by auto
    ultimately show ?thesis
      using display_padded [of "?u name" "?u ext"] n sp(4) x dot by simp
  qed
qed

theorem short_name_roundtrip_witness:
  "make_short_name [0x63, 0x61, 0x74, 0x2e, 0x74, 0x78, 0x74] = Ok [0x43, 0x41, 0x54, 0x20, 0x20, 0x20, 0x20, 0x20, 0x54, 0x58, 0x54] \<and>
   display_short_name [0x43, 0x41, 0x54, 0x20, 0x20, 0x20, 0x20, 0x20, 0x54, 0x58, 0x54] = map to_ascii_uppercase [0x63, 0x61, 0x74, 0x2e, 0x74, 0x78, 0x74]"
proof -
  have "make_short_name [0x63, 0x61, 0x74, 0x2e, 0x74, 0x78, 0x74] = Ok [0x43, 0x41, 0x54, 0x20, 0x20, 0x20, 0x20, 0x20, 0x54, 0x58, 0x54]"
    by code_simp
  with short_name_roundtrip [OF this] show ?thesis by blast
qed



end
