(* ===== verification/Rootfs.thy ===== *)
theory Rootfs
  imports Pci Ahci Fat_Volume
begin

text \<open>
  The runtime root filesystem, \<^verbatim>\<open>kernel/kernel/src/storage/rootfs.rs\<close>: mounting composes PCI discovery,
  the device mapping, the AHCI driver, GPT and FAT32; the mounted filesystem is a global slot the
  file operations read. Sector reads are taken from the controller's state after initialization,
  the idle state every successful read returns to.
\<close>

section \<open>The code\<close>

text \<open>\<^verbatim>\<open>RootFs\<close> wraps the mounted FAT32 volume.\<close>

type_synonym root_fs = fat32

definition rootfs_read_file_into :: "root_fs \<Rightarrow> bytes \<Rightarrow> bytes \<Rightarrow> ((nat, storage_error) outcome \<times> bytes) option" where
  "rootfs_read_file_into fs path buffer =
     Option.bind (open_absolute fs path) (\<lambda>r.
       case r of
         Ok file \<Rightarrow> fat_read_file fs file buffer
       | Err e \<Rightarrow> Some (Err e, buffer)
       | Panic \<Rightarrow> Some (Panic, buffer))"

definition rootfs_read_file :: "root_fs \<Rightarrow> bytes \<Rightarrow> kmem \<Rightarrow> ((kernel_buffer, storage_error) outcome \<times> kmem) option" where
  "rootfs_read_file fs path km =
     Option.bind (open_absolute fs path) (\<lambda>r.
       case r of
         Err e \<Rightarrow> Some (Err e, km)
       | Panic \<Rightarrow> Some (Panic, km)
       | Ok file \<Rightarrow>
           (case allocate_kernel_buffer (ucast (fd_size file)) km of
              (Err e, km') \<Rightarrow> Some (Err (Memory e), km')
            | (Panic, km') \<Rightarrow> Some (Panic, km')
            | (Ok buffer, km') \<Rightarrow>
                map_option (\<lambda>(r, contents).
                  (case r of Ok bytes_read \<Rightarrow> Ok buffer | Err e \<Rightarrow> Err e | Panic \<Rightarrow> Panic,
                   km'\<lparr>km_memory := write_mem (km_memory km') (kb_start_paddr buffer) contents\<rparr>))
                  (fat_read_file fs file (kernel_buffer_as_slice (km_memory km') buffer))))"

definition rootfs_read_dir :: "root_fs \<Rightarrow> bytes \<Rightarrow> bytes \<Rightarrow> ((nat, storage_error) outcome \<times> bytes) option" where
  "rootfs_read_dir fs path buffer = fat_read_dir fs path buffer"

definition rootfs_ensure_dir :: "root_fs \<Rightarrow> bytes \<Rightarrow> (unit, storage_error) outcome option" where
  "rootfs_ensure_dir fs path = fat_ensure_dir fs path"

definition block_device_read :: "'d hba \<Rightarrow> ahci_controller \<Rightarrow> 'd \<Rightarrow> block_device" where
  "block_device_read hw controller d lba = fst (ahci_read_sector hw controller lba d)"

definition LAZERS_SYSTEM :: bytes where
  "LAZERS_SYSTEM = [0x4c, 0x41, 0x5a, 0x45, 0x52, 0x53, 0x2d, 0x53, 0x59, 0x53, 0x54, 0x45, 0x4d]"

definition mount_partitions :: "block_device \<Rightarrow> (root_fs, storage_error) outcome" where
  "mount_partitions device =
     and_then (gpt_read device) (\<lambda>partitions.
     and_then (ok_or (find_by_type partitions EFI_SYSTEM_PARTITION_GUID) MissingEspPartition) (\<lambda>_.
     and_then (ok_or (find_by_name partitions LAZERS_SYSTEM) MissingSystemPartition) (\<lambda>system.
       fat32_mount device system)))"

text \<open>The PCI command-register write goes to the hardware; \<open>enable\<close> is its effect on the device state.\<close>

definition mount_root_fs ::
  "pci_config \<Rightarrow> (u32 \<times> u32 \<Rightarrow> 'd \<Rightarrow> 'd) \<Rightarrow> 'd hba \<Rightarrow> kmem \<Rightarrow> 'd \<Rightarrow> (root_fs, storage_error) outcome \<times> kmem \<times> 'd" where
  "mount_root_fs config enable hw km d =
     (case find_ahci_controller config of
        None \<Rightarrow> (Err AhciControllerNotFound, km, d)
      | Some controller_info \<Rightarrow>
          let d = enable (enable_memory_bus_mastering config (ac_location controller_info)) d;
              abar_start = align_down (ac_abar controller_info) PAGE_SIZE;
              abar_end = align_up (ac_abar controller_info + AHCI_MMIO_SIZE) PAGE_SIZE
          in case map_kernel_identity_range abar_start abar_end True km of
               (Err e, km) \<Rightarrow> (Err (Memory e), km, d)
             | (Panic, km) \<Rightarrow> (Panic, km, d)
             | (Ok _, km) \<Rightarrow>
                 (case ahci_initialize hw (ac_abar controller_info) km d of
                    (Err e, km, d) \<Rightarrow> (Err e, km, d)
                  | (Panic, km, d) \<Rightarrow> (Panic, km, d)
                  | (Ok controller, km, d) \<Rightarrow> (mount_partitions (block_device_read hw controller d), km, d)))"

definition init_root_fs ::
  "pci_config \<Rightarrow> (u32 \<times> u32 \<Rightarrow> 'd \<Rightarrow> 'd) \<Rightarrow> 'd hba \<Rightarrow> kmem \<Rightarrow> 'd \<Rightarrow> root_fs option \<Rightarrow>
   (unit, storage_error) outcome \<times> kmem \<times> 'd \<times> root_fs option" where
  "init_root_fs config enable hw km d slot =
     (case mount_root_fs config enable hw km d of
        (Ok root_fs, km, d) \<Rightarrow> (Ok (), km, d, Some root_fs)
      | (Err e, km, d) \<Rightarrow> (Err e, km, d, slot)
      | (Panic, km, d) \<Rightarrow> (Panic, km, d, slot))"

definition read_root_file :: "root_fs option \<Rightarrow> bytes \<Rightarrow> kmem \<Rightarrow> ((kernel_buffer, storage_error) outcome \<times> kmem) option" where
  "read_root_file slot path km =
     (case slot of None \<Rightarrow> Some (Err RootFsUnavailable, km) | Some fs \<Rightarrow> rootfs_read_file fs path km)"

definition read_root_file_into :: "root_fs option \<Rightarrow> bytes \<Rightarrow> bytes \<Rightarrow> ((nat, storage_error) outcome \<times> bytes) option" where
  "read_root_file_into slot path buffer =
     (case slot of None \<Rightarrow> Some (Err RootFsUnavailable, buffer) | Some fs \<Rightarrow> rootfs_read_file_into fs path buffer)"

definition read_root_dir :: "root_fs option \<Rightarrow> bytes \<Rightarrow> bytes \<Rightarrow> ((nat, storage_error) outcome \<times> bytes) option" where
  "read_root_dir slot path buffer =
     (case slot of None \<Rightarrow> Some (Err RootFsUnavailable, buffer) | Some fs \<Rightarrow> rootfs_read_dir fs path buffer)"

definition ensure_root_dir :: "root_fs option \<Rightarrow> bytes \<Rightarrow> (unit, storage_error) outcome option" where
  "ensure_root_dir slot path =
     (case slot of None \<Rightarrow> Some (Err RootFsUnavailable) | Some fs \<Rightarrow> rootfs_ensure_dir fs path)"

section \<open>Properties\<close>

lemma kernel_buffer_len:
  "allocate_kernel_buffer sz km = (Ok kb, km1) \<Longrightarrow> kb_len kb = sz"
  by (auto simp: allocate_kernel_buffer_def Let_def split: if_splits outcome.splits)

lemma rootfs_read_file_run:
  assumes "open_absolute fs path = Some (Ok file)" "chain fs cs e" "volume_holds fs cs data" "hd cs = fd_first_cluster file"
    "allocate_kernel_buffer (ucast (fd_size file)) km = (Ok kb, km1)"
  defines "n \<equiv> unat (fd_size file)" and "d \<equiv> concat (concat (map data cs))"
  shows "rootfs_read_file fs path km =
    Some (if n \<le> length d then Ok kb else Err e,
      km1\<lparr>km_memory := write_mem (km_memory km1) (kb_start_paddr kb)
        (overwrite (kernel_buffer_as_slice (km_memory km1) kb) 0 (take n d))\<rparr>)"
proof -
  let ?b = "kernel_buffer_as_slice (km_memory km1) kb"
  have "length ?b = n" using kernel_buffer_len [OF assms(5)] by (simp add: kernel_buffer_as_slice_def read_mem_def n_def)
  then have "fat_read_file fs file ?b = Some (if n \<le> length d then Ok n else Err e, overwrite ?b 0 (take n d))"
    using read_chain_run [OF assms(2,3), of 0 n ?b] assms(4) by (simp add: fat_read_file_def n_def d_def)
  then show ?thesis using assms(1,5) by (simp add: rootfs_read_file_def)
qed


definition sample_kmem :: kmem where
  "sample_kmem = \<lparr>km_state = memory_state_new\<lparr>ms_allocator := sample_allocator 0x1000000 0x1010000\<rparr>, km_memory = (\<lambda>_. 0)\<rparr>"

lemma sample_buffer: "\<exists>kb km1. allocate_kernel_buffer 600 sample_kmem = (Ok kb, km1)"
proof -
  have n: "align_up 600 PAGE_SIZE div PAGE_SIZE = 1" by code_simp
  have c: "region_allocate_contiguous \<lparr>pr_start = 0x1000000, pr_end = 0x1010000\<rparr> 1 =
      Some (0x1000000, \<lparr>pr_start = 0x1001000, pr_end = 0x1010000\<rparr>)"
    by (simp add: region_allocate_contiguous_def region_is_empty_def checked_mul_def checked_add_def PAGE_SIZE_def)
  then show ?thesis
    by (simp add: allocate_kernel_buffer_def n allocate_contiguous_pages_def sample_kmem_def sample_allocator_def
        MAX_FREE_RANGES_def allocate_from.simps region_is_empty_def)
qed


text \<open>When the cluster chain is shorter than the file, loading it fails with the chain's error and
  the kernel buffer stays allocated: nothing releases it.\<close>

theorem read_root_file_error_leaks:
  assumes "open_absolute fs path = Some (Ok file)" "chain fs cs e" "volume_holds fs cs data" "hd cs = fd_first_cluster file"
    "length (concat (concat (map data cs))) < unat (fd_size file)"
    "allocate_kernel_buffer (ucast (fd_size file)) km = (Ok kb, km1)"
  shows "\<exists>km'. read_root_file (Some fs) path km = Some (Err e, km') \<and> km_state km' = km_state km1"
  using rootfs_read_file_run [OF assms(1-4,6)] assms(5) by (simp add: read_root_file_def)

definition short_links :: bytes where
  "short_links = to_le_bytes 4 (0x0fffffff :: u32) @ to_le_bytes 4 (0x0fffffff :: u32) @ replicate 4 0"

theorem read_root_file_error_leaks_witness:
  "\<exists>kb km1 km'. allocate_kernel_buffer 600 sample_kmem = (Ok kb, km1) \<and>
     read_root_file (Some (sample_fs_of short_links)) (0x2f # [0x68, 0x65, 0x6c, 0x6c, 0x6f, 0x2e, 0x74, 0x78, 0x74]) sample_kmem =
       Some (Err FileNotFound, km') \<and> km_state km' = km_state km1"
proof -
  obtain kb km1 where b: "allocate_kernel_buffer 600 sample_kmem = (Ok kb, km1)" using sample_buffer by blast
  have c: "chain (sample_fs_of short_links) [2] FileNotFound" "chain (sample_fs_of short_links) [3] FileNotFound" by code_simp+
  show ?thesis
    using read_root_file_error_leaks [OF sample_open [OF c(1)] c(2) sample_volumes(2), of sample_kmem kb km1] b
    by (auto simp: sample_fat_data_def)
qed

end
