(* ===== verification/Path_Norm.thy ===== *)
theory Path_Norm
  imports Kernel_Errors
begin

text \<open>
  Path canonicalization, \<^verbatim>\<open>kernel/kernel/src/storage/path.rs\<close>: a path is resolved against a
  process's working directory into a caller's buffer, without allocation. The model keeps the four
  mutable values of \<^verbatim>\<open>normalize_path_parts\<close> (buffer, length, component start offsets, component
  count) in a record; the specification is a walk over a stack of components. The buffer of a
  failed call is scratch that every caller drops, so an error carries no buffer.
\<close>

section \<open>The code\<close>

definition MAX_PATH_COMPONENTS :: nat where "MAX_PATH_COMPONENTS = 64"

record path_state =
  pn_buffer :: bytes
  pn_len :: nat
  pn_starts :: "nat list"
  pn_count :: nat

definition normalize_component :: "bytes \<Rightarrow> path_state \<Rightarrow> (path_state, storage_error) outcome" where
  "normalize_component component st =
     (if component = [] \<or> component = [0x2e] then Ok st
      else if component = [0x2e, 0x2e] then
        (if 0 < pn_count st
         then and_then (index (pn_starts st) (pn_count st - 1)) (\<lambda>start.
                Ok (st\<lparr>pn_count := pn_count st - 1, pn_len := start\<rparr>))
         else Ok st)
      else if length (pn_starts st) \<le> pn_count st then Err InvalidPath
      else
        (let previous_len = pn_len st;
             required = (if previous_len = 1 then length component else length component + 1)
         in if length (pn_buffer st) < previous_len + required then Err InvalidPath
            else
              and_then (if 1 < previous_len
                        then and_then (store (pn_buffer st) (pn_len st) 0x2f) (\<lambda>b. Ok (b, pn_len st + 1))
                        else Ok (pn_buffer st, pn_len st)) (\<lambda>(buf, len).
              and_then (copy_at buf len component) (\<lambda>buf'.
              and_then (store (pn_starts st) (pn_count st) previous_len) (\<lambda>starts.
                Ok \<lparr>pn_buffer = buf', pn_len = len + length component,
                    pn_starts = starts, pn_count = pn_count st + 1\<rparr>)))))"

fun normalize_components :: "bytes list \<Rightarrow> path_state \<Rightarrow> (path_state, storage_error) outcome" where
  "normalize_components [] st = Ok st"
| "normalize_components (c # cs) st =
     and_then (normalize_component c st) (\<lambda>st'. normalize_components cs st')"

definition normalize_path_parts :: "bytes \<Rightarrow> path_state \<Rightarrow> (path_state, storage_error) outcome" where
  "normalize_path_parts source st = normalize_components (split_on 0x2f source) st"

definition normalize_path :: "bytes \<Rightarrow> bytes \<Rightarrow> bytes \<Rightarrow> (nat \<times> bytes, storage_error) outcome" where
  "normalize_path cwd path buffer =
     (if path = [] then Err InvalidPath
      else
        and_then (store buffer 0 0x2f) (\<lambda>buffer'.
          let st = \<lparr>pn_buffer = buffer', pn_len = 1,
                    pn_starts = replicate MAX_PATH_COMPONENTS 0, pn_count = 0\<rparr>
          in and_then (if hd path = 0x2f
                       then normalize_path_parts path st
                       else and_then (normalize_path_parts cwd st) (\<lambda>st'. normalize_path_parts path st'))
               (\<lambda>st'. Ok (pn_len st', pn_buffer st'))))"

section \<open>The specification\<close>

text \<open>A canonical path is a list of components; \<open>render\<close> prints it. \<open>walk cap\<close> resolves
  components against a stack and gives up when the stack gets deeper than the table or its
  printed form longer than the buffer.\<close>

definition render :: "bytes list \<Rightarrow> bytes" where
  "render stack = (if stack = [] then [0x2f] else concat (map (\<lambda>c. 0x2f # c) stack))"

fun walk :: "nat \<Rightarrow> bytes list \<Rightarrow> bytes list \<Rightarrow> bytes list option" where
  "walk cap [] stack = Some stack"
| "walk cap (c # cs) stack =
     (if c = [] \<or> c = [0x2e] then walk cap cs stack
      else if c = [0x2e, 0x2e] then walk cap cs (butlast stack)
      else if MAX_PATH_COMPONENTS \<le> length stack \<or> cap < length (render (stack @ [c])) then None
      else walk cap cs (stack @ [c]))"

definition path_components :: "bytes \<Rightarrow> bytes \<Rightarrow> bytes list" where
  "path_components cwd path =
     (if path \<noteq> [] \<and> hd path = 0x2f then split_on 0x2f path
      else split_on 0x2f cwd @ split_on 0x2f path)"

definition canonical_component :: "bytes \<Rightarrow> bool" where
  "canonical_component c \<longleftrightarrow> c \<noteq> [] \<and> c \<noteq> [0x2e] \<and> c \<noteq> [0x2e, 0x2e] \<and> 0x2f \<notin> set c"

definition path_rel :: "bytes \<Rightarrow> bytes list \<Rightarrow> path_state \<Rightarrow> bool" where
  "path_rel buffer stack st \<longleftrightarrow>
     length (pn_buffer st) = length buffer \<and> length (pn_starts st) = MAX_PATH_COMPONENTS \<and>
     pn_count st = length stack \<and> length stack \<le> MAX_PATH_COMPONENTS \<and>
     pn_len st = length (render stack) \<and> pn_len st \<le> length buffer \<and>
     take (pn_len st) (pn_buffer st) = render stack \<and>
     (\<forall>i < length stack. pn_starts st ! i = length (render (take i stack))) \<and>
     [] \<notin> set stack"

section \<open>Lemmas\<close>

lemma render_Nil [simp]: "render [] = [0x2f]"
  by (simp add: render_def)

lemma render_single [simp]: "render [c] = 0x2f # c"
  by (simp add: render_def)

lemma render_snoc: "render (stack @ [c]) = (if stack = [] then [] else render stack) @ 0x2f # c"
  by (simp add: render_def)

lemma render_length_1: "[] \<notin> set stack \<Longrightarrow> length (render stack) = 1 \<longleftrightarrow> stack = []"
  by (cases stack) (auto simp: render_def)

lemma render_length_pos: "0 < length (render stack)"
  by (cases stack) (auto simp: render_def)

lemma render_prefix: "\<exists>r. render (xs @ ys) = render xs @ r"
  by (cases xs; cases ys) (auto simp: render_def)

lemma take_render: "take (length (render (take i stack))) (render stack) = render (take i stack)"
  using render_prefix [of "take i stack" "drop i stack"] by auto

lemma render_take_le: "length (render (take i stack)) \<le> length (render stack)"
  using take_render [of i stack] by (metis length_take min.cobounded2 min_def nat_le_linear)

lemma path_rel_step:
  assumes "path_rel buffer stack st" "c \<noteq> []" "c \<noteq> [0x2e]" "c \<noteq> [0x2e, 0x2e]"
    "length stack < MAX_PATH_COMPONENTS" "length (render (stack @ [c])) \<le> length buffer"
  shows "\<exists>st'. normalize_component c st = Ok st' \<and> path_rel buffer (stack @ [c]) st'"
proof (cases "stack = []")
  case True
  with assms show ?thesis
    by (auto simp: normalize_component_def path_rel_def render_snoc Let_def take_Cons' nth_append
        split: if_splits)
next
  case False
  with assms(1) have gt: "1 < pn_len st"
    using render_length_1 [of stack] render_length_pos [of stack]
    by (auto simp: path_rel_def simp del: length_greater_0_conv)
  let ?b = "overwrite ((pn_buffer st)[pn_len st := 0x2f]) (Suc (pn_len st)) c"
  have fits: "Suc (pn_len st + length c) \<le> length (pn_buffer st)"
    using assms(1,6) False by (simp add: path_rel_def render_snoc)
  then have "take (Suc (pn_len st + length c)) ?b = take (pn_len st) (pn_buffer st) @ 0x2f # c"
    by (simp add: take_Suc_store)
  with False assms gt fits show ?thesis
    by (auto simp: normalize_component_def path_rel_def render_snoc Let_def nth_append nth_list_update)
qed

lemma path_rel_up:
  assumes "path_rel buffer stack st"
  shows "\<exists>st'. normalize_component [0x2e, 0x2e] st = Ok st' \<and> path_rel buffer (butlast stack) st'"
proof (cases "stack = []")
  case True
  with assms show ?thesis by (auto simp: normalize_component_def path_rel_def)
next
  case False
  let ?n = "length stack - 1"
  have bl: "butlast stack = take ?n stack" by (simp add: butlast_conv_take)
  have s: "pn_starts st ! ?n = length (render (take ?n stack))" "?n < length (pn_starts st)"
    using assms False by (auto simp: path_rel_def less_eq_Suc_le [symmetric] intro: less_le_trans [of _ "length stack"])
  have le: "length (render (take ?n stack)) \<le> pn_len st"
    using assms render_take_le [of ?n stack] by (simp add: path_rel_def)
  let ?st = "st\<lparr>pn_count := ?n, pn_len := length (render (take ?n stack))\<rparr>"
  have "normalize_component [0x2e, 0x2e] st = Ok ?st"
    using s False assms by (simp add: normalize_component_def path_rel_def)
  moreover have "take (length (render (take ?n stack))) (pn_buffer st) = render (take ?n stack)"
    using assms take_render [of ?n stack] le by (simp add: path_rel_def) (metis min.absorb1 take_take)
  with le assms have "path_rel buffer (butlast stack) ?st"
    by (auto simp: path_rel_def bl dest: in_set_takeD)
  ultimately show ?thesis by blast
qed

lemma normalize_components_spec:
  assumes "path_rel buffer stack st"
  shows "case walk (length buffer) cs stack of
           None \<Rightarrow> normalize_components cs st = Err InvalidPath
         | Some stack' \<Rightarrow> \<exists>st'. normalize_components cs st = Ok st' \<and> path_rel buffer stack' st'"
  using assms
proof (induction cs arbitrary: stack st)
  case Nil
  then show ?case by simp
next
  case (Cons c cs)
  consider "c = [] \<or> c = [0x2e]" | "c = [0x2e, 0x2e]"
    | "c \<noteq> []" "c \<noteq> [0x2e]" "c \<noteq> [0x2e, 0x2e]" by blast
  then show ?case
  proof cases
    case 1
    then have "normalize_component c st = Ok st" by (auto simp: normalize_component_def)
    with 1 Cons.IH [OF Cons.prems] show ?thesis by (auto split: option.splits)
  next
    case 2
    obtain st' where "normalize_component c st = Ok st'" "path_rel buffer (butlast stack) st'"
      using path_rel_up [OF Cons.prems] 2 by auto
    with 2 Cons.IH [of "butlast stack" st'] show ?thesis by (auto split: option.splits)
  next
    case 3
    show ?thesis
    proof (cases "length stack < MAX_PATH_COMPONENTS \<and> length (render (stack @ [c])) \<le> length buffer")
      case True
      then obtain st' where "normalize_component c st = Ok st'" "path_rel buffer (stack @ [c]) st'"
        using path_rel_step [OF Cons.prems 3] by auto
      with True 3 Cons.IH [of "stack @ [c]" st'] show ?thesis by (auto split: option.splits)
    next
      case False
      have "normalize_component c st = Err InvalidPath"
        using False 3 Cons.prems render_length_1 [of stack]
        by (auto simp: normalize_component_def path_rel_def render_snoc Let_def)
      moreover have "walk (length buffer) (c # cs) stack = None"
        using False 3 by auto
      ultimately show ?thesis by simp
    qed
  qed
qed

lemma walk_append:
  "walk cap (xs @ ys) stack = (case walk cap xs stack of None \<Rightarrow> None | Some stack' \<Rightarrow> walk cap ys stack')"
  by (induction xs arbitrary: stack) auto

lemma normalize_components_append:
  "normalize_components (xs @ ys) st = and_then (normalize_components xs st) (normalize_components ys)"
  by (induction xs arbitrary: st) (auto simp: and_then_assoc intro!: and_then_cong)

lemma normalize_path_eq:
  assumes "path \<noteq> []" "0 < length buffer"
  shows "case walk (length buffer) (path_components cwd path) [] of
           None \<Rightarrow> normalize_path cwd path buffer = Err InvalidPath
         | Some stack \<Rightarrow> \<exists>buffer'. normalize_path cwd path buffer = Ok (length (render stack), buffer') \<and>
             length buffer' = length buffer \<and> take (length (render stack)) buffer' = render stack"
proof -
  define st where "st = \<lparr>pn_buffer = buffer[0 := 0x2f], pn_len = 1,
                    pn_starts = replicate MAX_PATH_COMPONENTS 0, pn_count = 0\<rparr>"
  have rel: "path_rel buffer [] st"
    using assms(2) by (cases buffer) (auto simp: path_rel_def st_def)
  have "normalize_path cwd path buffer =
      and_then (normalize_components (path_components cwd path) st) (\<lambda>st'. Ok (pn_len st', pn_buffer st'))"
    using assms by (auto simp: normalize_path_def normalize_path_parts_def [abs_def] path_components_def
        normalize_components_append st_def)
  with normalize_components_spec [OF rel, of "path_components cwd path"] show ?thesis
    by (auto simp: path_rel_def split: option.splits)
qed

section \<open>Canonical results\<close>

lemma split_on_no_sep: "c \<in> set (split_on s xs) \<Longrightarrow> s \<notin> set c"
proof (induction xs arbitrary: c)
  case (Cons x xs)
  have "split_on s xs \<noteq> []" by (cases xs) auto
  with Cons show ?case by (auto split: if_splits dest: list.set_sel(2) hd_in_set)
qed simp

lemma split_on_nonempty [simp]: "split_on s xs \<noteq> []"
  by (cases xs) auto

lemma walk_canonical:
  assumes "walk cap cs stack = Some stack'" "\<forall>c \<in> set cs. 0x2f \<notin> set c"
    "\<forall>c \<in> set stack. canonical_component c"
  shows "\<forall>c \<in> set stack'. canonical_component c"
  using assms
proof (induction cap cs stack rule: walk.induct)
  case (2 cap c cs stack)
  have "\<forall>c \<in> set (butlast stack). canonical_component c"
    using "2.prems"(3) by (blast dest: in_set_butlastD)
  consider "c = [] \<or> c = [0x2e]" | "c \<noteq> []" "c = [0x2e, 0x2e]"
    | "c \<noteq> []" "c \<noteq> [0x2e]" "c \<noteq> [0x2e, 0x2e]" by blast
  then show ?case
  proof cases
    case 1
    with "2.IH"(1) "2.prems" show ?thesis by simp
  next
    case 2
    with "2.IH"(2) "2.prems" \<open>\<forall>c \<in> set (butlast stack). _ c\<close> show ?thesis by simp
  next
    case 3
    then have "canonical_component c" using "2.prems"(2) by (simp add: canonical_component_def)
    with 3 "2.IH"(3) "2.prems" show ?thesis by (simp split: if_splits)
  qed
qed simp

lemma walk_bounds:
  assumes "walk cap cs stack = Some stack'" "length stack \<le> MAX_PATH_COMPONENTS"
    "length (render stack) \<le> cap"
  shows "length stack' \<le> MAX_PATH_COMPONENTS \<and> length (render stack') \<le> cap"
  using assms
proof (induction cap cs stack rule: walk.induct)
  case (2 cap c cs stack)
  have "length (render (butlast stack)) \<le> cap"
    using "2.prems"(3) render_take_le [of "length stack - 1" stack] by (simp add: butlast_conv_take)
  with 2 show ?case by (simp split: if_splits)
qed simp

lemma split_on_append_sep: "s \<notin> set xs \<Longrightarrow> split_on s (xs @ s # ys) = xs # split_on s ys"
  by (induction xs) auto

lemma split_on_no: "s \<notin> set xs \<Longrightarrow> split_on s xs = [xs]"
  by (induction xs) auto

lemma split_render:
  assumes "\<forall>c \<in> set stack. canonical_component c" "stack \<noteq> []"
  shows "split_on 0x2f (concat (map (\<lambda>c. 0x2f # c) stack)) = [] # stack"
  using assms
proof (induction stack)
  case (Cons c cs)
  show ?case
  proof (cases cs)
    case Nil
    with Cons.prems show ?thesis by (simp add: split_on_no canonical_component_def)
  next
    case (Cons d ds)
    then have "split_on 0x2f (c @ 0x2f # (d @ concat (map (\<lambda>c. 0x2f # c) ds)))
        = c # split_on 0x2f (d @ concat (map (\<lambda>c. 0x2f # c) ds))"
      using Cons.prems by (intro split_on_append_sep) (simp add: canonical_component_def)
    moreover have "split_on 0x2f (d @ concat (map (\<lambda>c. 0x2f # c) ds)) = cs"
      using Cons.IH Cons.prems Cons by simp
    ultimately show ?thesis using Cons by simp
  qed
qed simp

lemma walk_canonical_id:
  "\<forall>c \<in> set cs. canonical_component c \<Longrightarrow> length (stack @ cs) \<le> MAX_PATH_COMPONENTS \<Longrightarrow>
   length (render (stack @ cs)) \<le> cap \<Longrightarrow> walk cap cs stack = Some (stack @ cs)"
proof (induction cs arbitrary: stack)
  case (Cons c cs)
  have "length (render (stack @ [c])) \<le> length (render (stack @ c # cs))"
    using render_prefix [of "stack @ [c]" cs] by auto
  with Cons show ?case by (auto simp: canonical_component_def)
qed simp

lemma path_components_no_sep: "c \<in> set (path_components cwd path) \<Longrightarrow> 0x2f \<notin> set c"
  by (auto simp: path_components_def split_on_no_sep split: if_splits)

lemma walk_render:
  assumes "\<forall>c \<in> set stack. canonical_component c" "length stack \<le> MAX_PATH_COMPONENTS"
    "length (render stack) \<le> cap"
  shows "walk cap (split_on 0x2f (render stack)) [] = Some stack"
proof (cases "stack = []")
  case False
  then have "split_on 0x2f (render stack) = [] # stack"
    using split_render [OF assms(1)] by (simp add: render_def)
  with walk_canonical_id [of stack "[]" cap] assms show ?thesis by simp
qed simp

lemma normalize_path_canonical:
  assumes "normalize_path cwd path buffer = Ok (n, buffer')"
  obtains stack where "take n buffer' = render stack" "n = length (render stack)"
    "\<forall>c \<in> set stack. canonical_component c" "length stack \<le> MAX_PATH_COMPONENTS"
    "n \<le> length buffer" "length buffer' = length buffer"
proof -
  have ne: "path \<noteq> []" "0 < length buffer"
    using assms by (auto simp: normalize_path_def store_def split: if_splits)
  obtain stack where w: "walk (length buffer) (path_components cwd path) [] = Some stack"
    and r: "n = length (render stack)" "length buffer' = length buffer" "take n buffer' = render stack"
    using normalize_path_eq [OF ne, of cwd] assms by (auto split: option.splits)
  have "\<forall>c \<in> set stack. canonical_component c"
    using walk_canonical [OF w] path_components_no_sep by auto
  moreover have "length stack \<le> MAX_PATH_COMPONENTS \<and> length (render stack) \<le> length buffer"
    using walk_bounds [OF w] ne(2) by (simp add: Suc_le_eq)
  ultimately show ?thesis using r that by blast
qed

section \<open>Properties\<close>

text \<open>C16. \<^verbatim>\<open>normalize_path\<close> computes exactly what a walk over a stack of components computes: empty
  and \<^verbatim>\<open>.\<close> components are dropped, \<^verbatim>\<open>..\<close> pops (and stays at the root), an absolute path
  ignores the working directory; it fails with \<^verbatim>\<open>InvalidPath\<close> exactly when some intermediate
  path has more than 64 components or does not fit the buffer, and it never panics on a buffer
  that has room for the root.\<close>

theorem normalize_path_walks_components:
  assumes "path \<noteq> []" "0 < length buffer"
  shows "case walk (length buffer) (path_components cwd path) [] of
           None \<Rightarrow> normalize_path cwd path buffer = Err InvalidPath
         | Some stack \<Rightarrow> \<exists>buffer'. normalize_path cwd path buffer = Ok (length (render stack), buffer') \<and>
             length buffer' = length buffer \<and> take (length (render stack)) buffer' = render stack"
  using assms by (rule normalize_path_eq)

text \<open>The working directory \<^verbatim>\<open>/a\<close> and the path \<^verbatim>\<open>./../b\<close> give \<^verbatim>\<open>/b\<close>.\<close>

theorem normalize_path_walks_components_witness:
  "\<exists>buffer'. normalize_path [0x2f, 0x61] [0x2e, 0x2f, 0x2e, 0x2e, 0x2f, 0x62] (replicate 4 0) = Ok (2, buffer') \<and>
     take 2 buffer' = [0x2f, 0x62]"
proof -
  have "walk 4 (path_components [0x2f, 0x61] [0x2e, 0x2f, 0x2e, 0x2e, 0x2f, 0x62]) [] = Some [[0x62]]"
    by code_simp
  then show ?thesis
    using normalize_path_walks_components
      [of "[0x2e, 0x2f, 0x2e, 0x2e, 0x2f, 0x62]" "replicate 4 0" "[0x2f, 0x61]"]
    by (auto simp: numeral_2_eq_2)
qed

text \<open>The result of \<^verbatim>\<open>normalize_path\<close> is canonical and a fixed point: it is the printed form of
  components that are non-empty, free of slashes and neither \<^verbatim>\<open>.\<close> nor \<^verbatim>\<open>..\<close>, and
  normalizing it again, from any working directory, gives the same path.\<close>

theorem normalize_path_idempotent:
  assumes "normalize_path cwd path buffer = Ok (n, buffer')" "n \<le> length buffer2"
  shows "(\<exists>stack. take n buffer' = render stack \<and> (\<forall>c \<in> set stack. canonical_component c)) \<and>
         (\<exists>buffer2'. normalize_path cwd2 (take n buffer') buffer2 = Ok (n, buffer2') \<and>
            take n buffer2' = take n buffer')"
proof -
  obtain stack where s: "take n buffer' = render stack" "n = length (render stack)"
    "\<forall>c \<in> set stack. canonical_component c" "length stack \<le> MAX_PATH_COMPONENTS"
    using normalize_path_canonical [OF assms(1)] by metis
  have "render stack \<noteq> []" "hd (render stack) = 0x2f"
    by (cases stack; simp add: render_def)+
  then have "path_components cwd2 (render stack) = split_on 0x2f (render stack)"
    by (simp add: path_components_def)
  moreover have "walk (length buffer2) (split_on 0x2f (render stack)) [] = Some stack"
    using walk_render [OF s(3,4)] assms(2) s(2) by simp
  ultimately show ?thesis
    using normalize_path_eq [of "render stack" buffer2 cwd2] s(1-3) assms(2) render_length_pos [of stack]
    by (auto simp del: length_greater_0_conv)
qed

theorem normalize_path_idempotent_witness:
  "\<exists>buffer' buffer2'. normalize_path [0x2f] [0x61, 0x2f, 0x2f, 0x62] (replicate 4 0) = Ok (4, buffer') \<and>
     normalize_path [] (take 4 buffer') (replicate 4 0) = Ok (4, buffer2') \<and> take 4 buffer2' = take 4 buffer'"
proof -
  have "normalize_path [0x2f] [0x61, 0x2f, 0x2f, 0x62] (replicate 4 0) = Ok (4, [0x2f, 0x61, 0x2f, 0x62])"
    by code_simp
  from this normalize_path_idempotent [OF this, of "replicate 4 0" "[]"] show ?thesis by auto
qed

end
