(* ===== verification/Elf_Image.thy ===== *)
theory Elf_Image
  imports Lzutil Kernel_Errors
begin

text \<open>
  The ELF parser of \<^verbatim>\<open>libs/elf/src/lib.rs\<close>, which the kernel's program loader and the UEFI loader
  both use: header validation, the program header iterator and the checked file range of a segment.
  On the 64-bit targets \<^verbatim>\<open>usize::try_from(u64)\<close> cannot fail, so a \<^verbatim>\<open>usize\<close> is a 64-bit word.
\<close>

section \<open>Model\<close>

definition PT_LOAD :: u32 where "PT_LOAD = 1"
definition PF_X :: u32 where "PF_X = 1"
definition PF_W :: u32 where "PF_W = 2"
definition PF_R :: u32 where "PF_R = 4"

definition ELF_MAGIC :: bytes where "ELF_MAGIC = [0x7f, 0x45, 0x4c, 0x46]"
definition ELF_CLASS_64 :: u8 where "ELF_CLASS_64 = 2"
definition ELF_DATA_LE :: u8 where "ELF_DATA_LE = 1"
definition ELF_MACHINE_X86_64 :: u16 where "ELF_MACHINE_X86_64 = 0x3e"
definition ELF_TYPE_EXECUTABLE :: u16 where "ELF_TYPE_EXECUTABLE = 2"

text \<open>The sizes of \<^verbatim>\<open>ElfHeaderLayout\<close> and \<^verbatim>\<open>ElfProgramHeaderLayout\<close>.\<close>

definition ELF_HEADER_SIZE :: nat where "ELF_HEADER_SIZE = 64"
definition ELF_PROGRAM_HEADER_SIZE :: nat where "ELF_PROGRAM_HEADER_SIZE = 56"

record elf_header =
  eh_entry :: u64
  eh_program_header_offset :: u64
  eh_program_header_entry_size :: u64
  eh_program_header_count :: u16

record elf_image =
  ei_bytes :: bytes
  ei_header :: elf_header

record program_header =
  ph_kind :: u32
  ph_flags :: u32
  ph_offset :: u64
  ph_virtual_address :: u64
  ph_physical_address :: u64
  ph_file_size :: u64
  ph_memory_size :: u64

record program_header_iter =
  pi_bytes :: bytes
  pi_next :: u16
  pi_count :: u16
  pi_table_offset :: u64
  pi_entry_size :: u64

definition elf_header_parse :: "bytes \<Rightarrow> (elf_header, elf_error) outcome" where
  "elf_header_parse bs =
     (if length bs < ELF_HEADER_SIZE then Err HeaderTooSmall else
      and_then (slice bs 0 4) (\<lambda>magic.
      if magic \<noteq> ELF_MAGIC then Err InvalidMagic else
      and_then (index bs 4) (\<lambda>cls.
      if cls \<noteq> ELF_CLASS_64 then Err UnsupportedClass else
      and_then (index bs 5) (\<lambda>enc.
      if enc \<noteq> ELF_DATA_LE then Err UnsupportedEncoding else
      and_then (index bs 6) (\<lambda>ver.
      if ver \<noteq> 1 then Err UnsupportedVersion else
      and_then (read_le_u16 bs 16) (\<lambda>typ.
      if typ \<noteq> ELF_TYPE_EXECUTABLE then Err UnsupportedType else
      and_then (read_le_u16 bs 18) (\<lambda>machine.
      if machine \<noteq> ELF_MACHINE_X86_64 then Err UnsupportedMachine else
      and_then (read_le_u32 bs 20) (\<lambda>version.
      if version \<noteq> 1 then Err UnsupportedVersion else
      and_then (read_le_u64 bs 32) (\<lambda>program_header_offset.
      and_then (read_le_u16 bs 54) (\<lambda>entry_size.
      and_then (read_le_u16 bs 56) (\<lambda>program_header_count.
      let program_header_entry_size = ucast entry_size in
      and_then (ok_or (checked_mul program_header_entry_size (ucast program_header_count)) AddressOutOfRange) (\<lambda>table_size.
      and_then (ok_or (checked_add program_header_offset table_size) AddressOutOfRange) (\<lambda>table_end.
      if length bs < unat table_end then Err ProgramHeaderTableOutOfRange else
      and_then (read_le_u64 bs 24) (\<lambda>entry.
      Ok \<lparr>eh_entry = entry, eh_program_header_offset = program_header_offset,
         eh_program_header_entry_size = program_header_entry_size,
         eh_program_header_count = program_header_count\<rparr>))))))))))))))"

definition elf_parse :: "bytes \<Rightarrow> (elf_image, elf_error) outcome" where
  "elf_parse bs = and_then (elf_header_parse bs) (\<lambda>h. Ok \<lparr>ei_bytes = bs, ei_header = h\<rparr>)"

definition elf_entry_point :: "elf_image \<Rightarrow> u64" where
  "elf_entry_point img = eh_entry (ei_header img)"

definition elf_program_headers :: "elf_image \<Rightarrow> program_header_iter" where
  "elf_program_headers img =
     \<lparr>pi_bytes = ei_bytes img, pi_next = 0, pi_count = eh_program_header_count (ei_header img),
      pi_table_offset = eh_program_header_offset (ei_header img),
      pi_entry_size = eh_program_header_entry_size (ei_header img)\<rparr>"

definition program_header_parse :: "bytes \<Rightarrow> (program_header, elf_error) outcome" where
  "program_header_parse bs =
     (if length bs < ELF_PROGRAM_HEADER_SIZE then Err ProgramHeaderTruncated else
      and_then (read_le_u32 bs 0) (\<lambda>kind.
      and_then (read_le_u32 bs 4) (\<lambda>flags.
      and_then (read_le_u64 bs 8) (\<lambda>offset.
      and_then (read_le_u64 bs 16) (\<lambda>virtual_address.
      and_then (read_le_u64 bs 24) (\<lambda>physical_address.
      and_then (read_le_u64 bs 32) (\<lambda>file_size.
      and_then (read_le_u64 bs 40) (\<lambda>memory_size.
      Ok \<lparr>ph_kind = kind, ph_flags = flags, ph_offset = offset, ph_virtual_address = virtual_address,
         ph_physical_address = physical_address, ph_file_size = file_size, ph_memory_size = memory_size\<rparr>))))))))"

text \<open>\<^verbatim>\<open>bytes.get(a..b)\<close>\<close>

definition get_range :: "'a list \<Rightarrow> u64 \<Rightarrow> u64 \<Rightarrow> 'a list option" where
  "get_range xs a b =
     (if a \<le> b \<and> unat b \<le> length xs then Some (take (unat b - unat a) (drop (unat a) xs)) else None)"

definition program_header_iter_next ::
  "program_header_iter \<Rightarrow> (program_header, elf_error) outcome option \<times> program_header_iter" where
  "program_header_iter_next it =
     (if pi_count it \<le> pi_next it then (None, it) else
      let index = ucast (pi_next it) :: u64;
          it' = it\<lparr>pi_next := pi_next it + 1\<rparr>
      in (Option.bind (checked_mul index (pi_entry_size it)) (\<lambda>rel.
          Option.bind (checked_add (pi_table_offset it) rel) (\<lambda>offset.
          Option.bind (checked_add offset (pi_entry_size it)) (\<lambda>end_offset.
          Option.bind (get_range (pi_bytes it) offset end_offset) (\<lambda>bs.
            Some (program_header_parse bs))))), it'))"

definition file_range :: "program_header \<Rightarrow> nat \<Rightarrow> (u64 \<times> u64, elf_error) outcome" where
  "file_range ph file_len =
     and_then (ok_or (checked_add (ph_offset ph) (ph_file_size ph)) AddressOutOfRange) (\<lambda>end_offset.
       if file_len < unat end_offset then Err SegmentExtendsPastFile else Ok (ph_offset ph, end_offset))"

definition load_address :: "program_header \<Rightarrow> (u64, elf_error) outcome" where
  "load_address ph =
     (let address = (if ph_physical_address ph \<noteq> 0 then ph_physical_address ph else ph_virtual_address ph)
      in if address = 0 then Err ZeroLoadAddress else Ok address)"

text \<open>The items a \<^verbatim>\<open>for\<close> loop over the iterator sees, up to the first \<^verbatim>\<open>None\<close>.\<close>

function program_header_items :: "program_header_iter \<Rightarrow> (program_header, elf_error) outcome list" where
  "program_header_items it =
     (case program_header_iter_next it of
        (None, _) \<Rightarrow> []
      | (Some item, it') \<Rightarrow> item # program_header_items it')"
  by pat_completeness auto

lemma iter_next_advances:
  assumes "program_header_iter_next it = (Some item, it')"
  shows "it' = it\<lparr>pi_next := pi_next it + 1\<rparr> \<and> unat (pi_next it + 1) = unat (pi_next it) + 1 \<and>
    unat (pi_next it) < unat (pi_count it)"
proof -
  have lt: "unat (pi_next it) < unat (pi_count it)"
    using assms by (auto simp: program_header_iter_next_def word_le_nat_alt split: if_splits)
  moreover have "unat (pi_count it) < 2 ^ 16" using unsigned_less [of "pi_count it"] by simp
  ultimately have "unat (pi_next it + 1) = unat (pi_next it) + 1"
    using unat_add_lem [of "pi_next it" 1] by simp
  with lt assms show ?thesis
    by (auto simp: program_header_iter_next_def Let_def split: if_splits)
qed

termination program_header_items
  by (relation "measure (\<lambda>it. unat (pi_count it) - unat (pi_next it))") (auto dest!: iter_next_advances [OF sym])

declare program_header_items.simps [simp del]

section \<open>Lemmas\<close>

text \<open>What a header that parsed promises: the whole program header table lies in the file.\<close>

definition elf_table_ok :: "bytes \<Rightarrow> elf_header \<Rightarrow> bool" where
  "elf_table_ok bs h \<longleftrightarrow>
     unat (eh_program_header_offset h) +
     unat (eh_program_header_entry_size h) * unat (eh_program_header_count h) \<le> length bs \<and>
     unat (eh_program_header_offset h) +
     unat (eh_program_header_entry_size h) * unat (eh_program_header_count h) < 2 ^ 64"

lemma unat_ucast_16_64 [simp]: "unat (ucast (w :: u16) :: u64) = unat w"
proof -
  have "unat w < 2 ^ 16" using unsigned_less [of w] by simp
  then show ?thesis by (simp add: unsigned_ucast_eq take_bit_nat_eq_self)
qed

lemma checked_mul_u64 [simp]:
  "checked_mul a b = Some c \<longleftrightarrow> unat a * unat b < 2 ^ 64 \<and> c = a * b" for a b c :: u64
  by (auto simp: checked_mul_def)

lemma checked_add_u64 [simp]:
  "checked_add a b = Some c \<longleftrightarrow> unat a + unat b < 2 ^ 64 \<and> c = a + b" for a b c :: u64
  by (auto simp: checked_add_def)

lemma unat_plus_noof: "unat a + unat b < 2 ^ 64 \<Longrightarrow> unat (a + b) = unat a + unat b" for a b :: u64
  using unat_add_lem [of a b] by simp

lemma unat_times_noof: "unat a * unat b < 2 ^ 64 \<Longrightarrow> unat (a * b) = unat a * unat b" for a b :: u64
  using unat_mult_lem [of a b] by simp

lemma ok_or_eq_Ok [simp]: "ok_or x e = Ok v \<longleftrightarrow> x = Some v"
  by (cases x) auto

lemma elf_header_parse_table:
  "elf_header_parse bs = Ok h \<Longrightarrow> elf_table_ok bs h"
  by (auto simp: elf_header_parse_def elf_table_ok_def Let_def unat_plus_noof unat_times_noof not_less
      split: if_splits)

lemma elf_header_parse_total: "elf_header_parse bs \<noteq> Panic"
  by (auto simp: elf_header_parse_def ELF_HEADER_SIZE_def Let_def and_then_eq_Panic ok_or_def
      split: option.splits)

lemma program_header_parse_total: "program_header_parse bs \<noteq> Panic"
  by (auto simp: program_header_parse_def ELF_PROGRAM_HEADER_SIZE_def and_then_eq_Panic)

text \<open>Entry \<open>i\<close> of the table.\<close>

definition table_entry :: "bytes \<Rightarrow> elf_header \<Rightarrow> nat \<Rightarrow> bytes" where
  "table_entry bs h i =
     take (unat (eh_program_header_entry_size h))
       (drop (unat (eh_program_header_offset h) + i * unat (eh_program_header_entry_size h)) bs)"

lemma iter_next_in_table:
  assumes "elf_table_ok bs h" "pi_bytes it = bs" "pi_count it = eh_program_header_count h"
    "pi_table_offset it = eh_program_header_offset h" "pi_entry_size it = eh_program_header_entry_size h"
    "pi_next it < pi_count it"
  shows "program_header_iter_next it =
    (Some (program_header_parse (table_entry bs h (unat (pi_next it)))), it\<lparr>pi_next := pi_next it + 1\<rparr>)"
proof -
  let ?o = "unat (eh_program_header_offset h)" and ?s = "unat (eh_program_header_entry_size h)"
    and ?i = "unat (pi_next it)" and ?n = "unat (eh_program_header_count h)"
  have "Suc ?i \<le> ?n" using assms(3,6) by (simp add: word_less_nat_alt)
  from mult_le_mono1 [OF this, of ?s] have "?i * ?s + ?s \<le> ?s * ?n" by (simp add: mult.commute)
  then have b: "?o + ?i * ?s + ?s \<le> length bs" "?o + ?i * ?s + ?s < 2 ^ 64"
    using assms(1) by (simp_all add: elf_table_ok_def)
  let ?rel = "ucast (pi_next it) * eh_program_header_entry_size h :: u64"
  have rel: "unat ?rel = ?i * ?s" using b(2) by (subst unat_times_noof) simp_all
  have off: "unat (eh_program_header_offset h + ?rel) = ?o + ?i * ?s"
    using b(2) rel by (subst unat_plus_noof) simp_all
  have fin: "unat (eh_program_header_offset h + ?rel + eh_program_header_entry_size h) = ?o + ?i * ?s + ?s"
    using b(2) off by (subst unat_plus_noof) simp_all
  show ?thesis
    using assms(2-6) b rel off fin
    by (simp add: program_header_iter_next_def Let_def checked_mul_def checked_add_def get_range_def
        table_entry_def word_le_nat_alt not_le word_less_nat_alt)
qed

lemma program_header_items_eq:
  assumes "elf_table_ok bs h" "pi_bytes it = bs" "pi_count it = eh_program_header_count h"
    "pi_table_offset it = eh_program_header_offset h" "pi_entry_size it = eh_program_header_entry_size h"
  shows "program_header_items it =
    map (\<lambda>i. program_header_parse (table_entry bs h i)) [unat (pi_next it)..<unat (pi_count it)]"
  using assms(2-5)
proof (induction it rule: program_header_items.induct)
  case (1 it)
  show ?case
  proof (cases "pi_next it < pi_count it")
    case True
    note nx = iter_next_in_table [OF assms(1) "1.prems" True]
    note ad = iter_next_advances [OF nx]
    have "program_header_items (it\<lparr>pi_next := pi_next it + 1\<rparr>) =
      map (\<lambda>i. program_header_parse (table_entry bs h i)) [unat (pi_next it) + 1..<unat (pi_count it)]"
      using 1(1) [OF nx [symmetric]] "1.prems" ad by simp
    with nx ad show ?thesis
      by (subst program_header_items.simps) (simp add: upt_conv_Cons)
  next
    case False
    then show ?thesis
      by (subst program_header_items.simps) (simp add: program_header_iter_next_def word_le_nat_alt not_less)
  qed
qed

lemma elf_program_headers_items:
  assumes "elf_parse bs = Ok img"
  shows "program_header_items (elf_program_headers img) =
    map (\<lambda>i. program_header_parse (table_entry bs (ei_header img) i))
      [0..<unat (eh_program_header_count (ei_header img))]"
proof -
  have "elf_table_ok bs (ei_header img)" "ei_bytes img = bs"
    using assms by (auto simp: elf_parse_def dest: elf_header_parse_table)
  then show ?thesis
    using program_header_items_eq [of bs "ei_header img" "elf_program_headers img"]
    by (simp add: elf_program_headers_def)
qed

section \<open>A reference encoder\<close>

definition encode_program_header :: "u64 \<Rightarrow> program_header \<Rightarrow> bytes" where
  "encode_program_header align ph =
     to_le_bytes 4 (ph_kind ph) @ to_le_bytes 4 (ph_flags ph) @ to_le_bytes 8 (ph_offset ph) @
     to_le_bytes 8 (ph_virtual_address ph) @ to_le_bytes 8 (ph_physical_address ph) @
     to_le_bytes 8 (ph_file_size ph) @ to_le_bytes 8 (ph_memory_size ph) @ to_le_bytes 8 align"

definition encode_elf :: "u64 \<Rightarrow> u64 \<Rightarrow> program_header list \<Rightarrow> bytes \<Rightarrow> bytes" where
  "encode_elf entry align phs body =
     ELF_MAGIC @ [ELF_CLASS_64, ELF_DATA_LE, 1] @ replicate 9 0 @
     to_le_bytes 2 ELF_TYPE_EXECUTABLE @ to_le_bytes 2 ELF_MACHINE_X86_64 @ to_le_bytes 4 (1 :: u32) @
     to_le_bytes 8 entry @ to_le_bytes 8 (64 :: u64) @ replicate 14 0 @
     to_le_bytes 2 (56 :: u16) @ to_le_bytes 2 (of_nat (length phs) :: u16) @ replicate 6 0 @
     concat (map (encode_program_header align) phs) @ body"

lemma length_encode_program_header [simp]: "length (encode_program_header align ph) = 56"
  by (simp add: encode_program_header_def)

lemma parse_encode_program_header: "program_header_parse (encode_program_header align ph) = Ok ph"
  by (simp add: program_header_parse_def encode_program_header_def ELF_PROGRAM_HEADER_SIZE_def
      drop_append take_append)

lemma nth_chunk:
  assumes "\<And>x. x \<in> set xs \<Longrightarrow> length (f x) = k" "i < length xs"
  shows "take k (drop (i * k) (concat (map f xs) @ rest)) = f (xs ! i)"
  using assms
proof (induction xs arbitrary: i)
  case Nil
  then show ?case by simp
next
  case (Cons x xs)
  show ?case
  proof (cases i)
    case 0
    with Cons.prems show ?thesis by simp
  next
    case (Suc j)
    with Cons show ?thesis by (simp add: drop_append)
  qed
qed

lemma length_concat_const:
  "(\<And>x. x \<in> set xs \<Longrightarrow> length (f x) = k) \<Longrightarrow> length (concat (map f xs)) = length xs * k"
  by (induction xs) auto

lemma encode_elf_fields:
  assumes "length phs < 2 ^ 16"
  shows "64 + length phs * 56 + length body = length (encode_elf entry align phs body)"
    "take 4 (encode_elf entry align phs body) = ELF_MAGIC"
    "encode_elf entry align phs body ! 4 = ELF_CLASS_64"
    "encode_elf entry align phs body ! 5 = ELF_DATA_LE"
    "encode_elf entry align phs body ! 6 = 1"
    "take 2 (drop 16 (encode_elf entry align phs body)) = to_le_bytes 2 ELF_TYPE_EXECUTABLE"
    "take 2 (drop 18 (encode_elf entry align phs body)) = to_le_bytes 2 ELF_MACHINE_X86_64"
    "take 4 (drop 20 (encode_elf entry align phs body)) = to_le_bytes 4 (1 :: u32)"
    "take 8 (drop 24 (encode_elf entry align phs body)) = to_le_bytes 8 entry"
    "take 8 (drop 32 (encode_elf entry align phs body)) = to_le_bytes 8 (64 :: u64)"
    "take 2 (drop 54 (encode_elf entry align phs body)) = to_le_bytes 2 (56 :: u16)"
    "take 2 (drop 56 (encode_elf entry align phs body)) = to_le_bytes 2 (of_nat (length phs) :: u16)"
    "drop 64 (encode_elf entry align phs body) = concat (map (encode_program_header align) phs) @ body"
  by (simp_all add: encode_elf_def ELF_MAGIC_def drop_append take_append length_concat_const nth_append)

lemma encode_elf_header:
  assumes "length phs < 2 ^ 16"
  shows "elf_header_parse (encode_elf entry align phs body) =
    Ok \<lparr>eh_entry = entry, eh_program_header_offset = 64, eh_program_header_entry_size = 56,
       eh_program_header_count = of_nat (length phs)\<rparr>"
proof -
  let ?bs = "encode_elf entry align phs body"
  note f = encode_elf_fields [OF assms, where body = body and entry = entry and align = align]
  have n: "unat (of_nat (length phs) :: u16) = length phs"
    using assms by (simp add: unsigned_of_nat take_bit_nat_eq_self)
  have c: "unat (ucast (of_nat (length phs) :: u16) :: u64) = length phs" by (simp add: n)
  have mul: "unat ((56 :: u64) * ucast (of_nat (length phs) :: u16)) = 56 * length phs"
    using assms c by (subst unat_times_noof) simp_all
  have add: "unat (64 + (56 :: u64) * ucast (of_nat (length phs) :: u16)) = 64 + 56 * length phs"
    using assms mul by (subst unat_plus_noof) simp_all
  have len: "64 \<le> length ?bs" "64 + 56 * length phs \<le> length ?bs" using f(1) by linarith+
  show ?thesis
    using assms f len c mul add
    by (simp add: elf_header_parse_def ELF_HEADER_SIZE_def Let_def checked_mul_def checked_add_def)
qed

lemma encode_elf_parses:
  assumes "length phs < 2 ^ 16"
  shows "\<exists>img. elf_parse (encode_elf entry align phs body) = Ok img \<and> elf_entry_point img = entry \<and>
    program_header_items (elf_program_headers img) = map Ok phs"
proof -
  let ?bs = "encode_elf entry align phs body"
  obtain img where img: "elf_parse ?bs = Ok img" "ei_header img =
    \<lparr>eh_entry = entry, eh_program_header_offset = 64, eh_program_header_entry_size = 56,
       eh_program_header_count = of_nat (length phs)\<rparr>"
    using encode_elf_header [OF assms] by (simp add: elf_parse_def)
  have n: "unat (of_nat (length phs) :: u16) = length phs"
    using assms by (simp add: unsigned_of_nat take_bit_nat_eq_self)
  have "program_header_parse (table_entry ?bs (ei_header img) i) = Ok (phs ! i)" if "i < length phs" for i
  proof -
    have "take 56 (drop (i * 56) (drop 64 ?bs)) = encode_program_header align (phs ! i)"
      unfolding encode_elf_fields(13) [OF assms] using that by (intro nth_chunk) simp_all
    moreover have "table_entry ?bs (ei_header img) i = take 56 (drop (i * 56) (drop 64 ?bs))"
    proof -
      have "unat (64 :: u64) = 64" "unat (56 :: u64) = 56" by simp_all
      then show ?thesis
        by (simp only: table_entry_def img(2) elf_header.simps drop_drop add.commute [of 64])
    qed
    ultimately show ?thesis by (simp only: parse_encode_program_header)
  qed
  then have "program_header_items (elf_program_headers img) = map Ok phs"
    using elf_program_headers_items [OF img(1)] by (intro nth_equalityI) (simp_all add: img(2) n)
  with img show ?thesis by (auto simp: elf_entry_point_def)
qed

section \<open>Properties\<close>

text \<open>C22. Parsing is total on arbitrary bytes, and on a file that parses the program header iterator
  yields exactly as many items as the header announces, item \<open>i\<close> being the parse of table entry
  \<open>i\<close>, with no early end; the range of a header's segment that is accepted lies inside the file.\<close>

theorem elf_parse_total_and_complete:
  "elf_parse bs \<noteq> Panic \<and>
   (\<forall>img. elf_parse bs = Ok img \<longrightarrow>
      length (program_header_items (elf_program_headers img)) = unat (eh_program_header_count (ei_header img)) \<and>
      (\<forall>i < unat (eh_program_header_count (ei_header img)).
         program_header_items (elf_program_headers img) ! i =
           program_header_parse (table_entry bs (ei_header img) i) \<and>
         program_header_parse (table_entry bs (ei_header img) i) \<noteq> Panic)) \<and>
   (\<forall>ph a b. file_range ph (length bs) = Ok (a, b) \<longrightarrow>
      (slice bs (unat a) (unat b) :: (_, elf_error) outcome) =
        Ok (take (unat (ph_file_size ph)) (drop (unat (ph_offset ph)) bs)))"
proof (intro conjI allI impI)
  show "elf_parse bs \<noteq> Panic"
    using elf_header_parse_total by (auto simp: elf_parse_def and_then_eq_Panic)
next
  fix img assume "elf_parse bs = Ok img"
  then show "length (program_header_items (elf_program_headers img)) = unat (eh_program_header_count (ei_header img))"
    by (simp add: elf_program_headers_items)
next
  fix img i assume "elf_parse bs = Ok img" "i < unat (eh_program_header_count (ei_header img))"
  then show "program_header_items (elf_program_headers img) ! i =
      program_header_parse (table_entry bs (ei_header img) i)"
    by (simp add: elf_program_headers_items)
next
  fix img i show "program_header_parse (table_entry bs (ei_header img) i) \<noteq> Panic"
    by (rule program_header_parse_total)
next
  fix ph a b assume "file_range ph (length bs) = Ok (a, b)"
  then show "(slice bs (unat a) (unat b) :: (_, elf_error) outcome) =
        Ok (take (unat (ph_file_size ph)) (drop (unat (ph_offset ph)) bs))"
    by (auto simp: file_range_def unat_plus_noof split: if_splits)
qed

definition sample_header :: program_header where
  "sample_header = \<lparr>ph_kind = 1, ph_flags = 5, ph_offset = 120, ph_virtual_address = 0x400000,
     ph_physical_address = 0, ph_file_size = 2, ph_memory_size = 2\<rparr>"

theorem elf_parse_total_and_complete_witness:
  "file_range sample_header (length (encode_elf 0x400000 4096 [sample_header] [0x90, 0xc3])) = Ok (120, 122) \<and>
   (slice (encode_elf 0x400000 4096 [sample_header] [0x90, 0xc3]) 120 122 :: (_, elf_error) outcome) = Ok [0x90, 0xc3]"
proof -
  have r: "file_range sample_header (length (encode_elf 0x400000 4096 [sample_header] [0x90, 0xc3])) = Ok (120, 122)"
    by (simp add: file_range_def sample_header_def checked_add_def encode_elf_def ELF_MAGIC_def)
  have "drop 120 (encode_elf 0x400000 4096 [sample_header] [0x90, 0xc3]) = [0x90, 0xc3]"
    by (simp add: encode_elf_def ELF_MAGIC_def drop_append)
  with elf_parse_total_and_complete [of "encode_elf 0x400000 4096 [sample_header] [0x90, 0xc3]"] r
  show ?thesis by (fastforce simp: sample_header_def)
qed

text \<open>C23. Round trip: a file written by the reference encoder parses to the entry point and the very
  program headers it was written from.\<close>

theorem elf_roundtrip:
  assumes "length phs < 2 ^ 16"
  shows "\<exists>img. elf_parse (encode_elf entry align phs body) = Ok img \<and> elf_entry_point img = entry \<and>
    program_header_items (elf_program_headers img) = map Ok phs"
  using encode_elf_parses [OF assms] .

theorem elf_roundtrip_witness:
  "\<exists>img. elf_parse (encode_elf 0x400000 4096 [sample_header] [0x90, 0xc3]) = Ok img \<and>
    elf_entry_point img = 0x400000 \<and> program_header_items (elf_program_headers img) = [Ok sample_header]"
  using elf_roundtrip [of "[sample_header]" "0x400000" 4096 "[0x90, 0xc3]"] by simp

end
