(* ===== verification/Program_Loader.thy ===== *)
theory Program_Loader
  imports Kernel_Memory Elf_Image
begin

text \<open>
  The user program loader, \<^verbatim>\<open>kernel/kernel/src/memory/loader.rs\<close>: segments and stack are mapped page
  by page into a fresh address space, the file contents and the startup arguments are copied
  through the page map, and every frame taken is recorded in the owned-page list, which is
  released when loading fails.
\<close>

section \<open>The user page map\<close>

record user_page =
  up_virt_page :: u64
  up_phys_page :: u64

type_synonym user_page_map = "user_page option list"

definition user_page_map_new :: user_page_map where
  "user_page_map_new = replicate MAX_SEGMENT_PAGES None"

fun find_user_page :: "user_page_map \<Rightarrow> u64 \<Rightarrow> user_page option" where
  "find_user_page [] virt_page = None"
| "find_user_page (slot # slots) virt_page =
     (case slot of
        None \<Rightarrow> find_user_page slots virt_page
      | Some page \<Rightarrow> if up_virt_page page = virt_page then Some page else find_user_page slots virt_page)"

definition contains_user_page :: "user_page_map \<Rightarrow> u64 \<Rightarrow> bool" where
  "contains_user_page pages virt_page \<longleftrightarrow> find_user_page pages virt_page \<noteq> None"

fun insert_user_page :: "user_page_map \<Rightarrow> u64 \<Rightarrow> u64 \<Rightarrow> (user_page_map, memory_error) outcome" where
  "insert_user_page [] virt_page phys_page = Err SegmentOverlapCapacityExceeded"
| "insert_user_page (slot # slots) virt_page phys_page =
     (case slot of
        None \<Rightarrow> Ok (Some \<lparr>up_virt_page = virt_page, up_phys_page = phys_page\<rparr> # slots)
      | Some page \<Rightarrow> and_then (insert_user_page slots virt_page phys_page) (\<lambda>slots'. Ok (Some page # slots')))"

lemma page_offset_bound: "unat (address - align_down address PAGE_SIZE) < 4096"
proof -
  have d: "unat (align_down address PAGE_SIZE) = unat address div 4096 * 4096"
    by (simp add: PAGE_SIZE_def unat_align_page)
  moreover have "align_down address PAGE_SIZE \<le> address" using d by (simp add: word_le_nat_alt)
  ultimately have "unat (address - align_down address PAGE_SIZE) = unat address mod 4096"
    by (simp add: unat_sub minus_div_mult_eq_mod)
  then show ?thesis by simp
qed

function copy_into :: "user_page_map \<Rightarrow> u64 \<Rightarrow> bytes \<Rightarrow> unit vm_op" where
  "copy_into pages address remaining st =
     (if remaining = [] then (Ok (), st)
      else
        let virt_page = align_down address PAGE_SIZE
        in case find_user_page pages virt_page of
             None \<Rightarrow> (Err UserImageOutOfRange, st)
           | Some page \<Rightarrow>
               let offset = address - virt_page;
                   len = min (length remaining) (4096 - unat offset)
               in copy_into pages (address + of_nat len) (drop len remaining)
                    (st\<lparr>vm_memory := write_mem (vm_memory st) (up_phys_page page + offset) (take len remaining)\<rparr>))"
  by pat_completeness auto
termination
proof (relation "measure (\<lambda>(pages, address, remaining, st). length remaining)")
  fix remaining :: bytes and x xa xb address page
  assume "remaining \<noteq> []" "xa = address - x" "x = align_down address PAGE_SIZE" "xb = min (length remaining) (4096 - unat xa)"
  then show "((pages, address + of_nat xb, drop xb remaining, st\<lparr>vm_memory := m\<rparr>), pages, address, remaining, st)
      \<in> measure (\<lambda>(pages, address, remaining, st). length remaining)" for pages :: user_page_map and st m
    using page_offset_bound [of address] by simp
qed simp

declare copy_into.simps [simp del]

section \<open>Startup arguments\<close>

record startup_layout =
  sl_args :: "bytes list"
  sl_argc :: nat
  sl_strings_start :: u64
  sl_stack_start :: u64

text \<open>\<^verbatim>\<open>iter().position(|byte| *byte == 0)\<close>\<close>

fun position_zero :: "bytes \<Rightarrow> nat option" where
  "position_zero [] = None"
| "position_zero (b # bs) = (if b = 0 then Some 0 else map_option Suc (position_zero bs))"

text \<open>The argument loop; \<open>rest\<close> is \<^verbatim>\<open>argv_tail[cursor..]\<close>.\<close>

function parse_argv_tail :: "bytes \<Rightarrow> bytes list \<Rightarrow> nat \<Rightarrow> (bytes list \<times> nat, memory_error) outcome" where
  "parse_argv_tail rest args argc =
     (if rest = [] then Ok (args, argc)
      else case position_zero rest of
             None \<Rightarrow> Err InvalidStartupArguments
           | Some relative_end \<Rightarrow>
               let arg = take relative_end rest
               in if arg = [] \<or> from_utf8 arg = None \<or> 0 \<in> set arg then Err InvalidStartupArguments
                  else if length args \<le> argc then Err StartupArgumentsTooLarge
                  else and_then (store args argc arg) (\<lambda>args'.
                         parse_argv_tail (drop (relative_end + 1) rest) args' (argc + 1)))"
  by pat_completeness auto
termination
  by (relation "measure (\<lambda>(rest, args, argc). length rest)") auto

declare parse_argv_tail.simps [simp del]

definition strings_size :: "bytes list \<Rightarrow> nat \<Rightarrow> nat" where
  "strings_size args argc = sum_list (map (\<lambda>arg. length arg + 1) (take argc args))"

definition prepare_startup_layout :: "program_startup \<Rightarrow> (startup_layout, memory_error) outcome" where
  "prepare_startup_layout startup =
     (let args = (replicate MAX_STARTUP_ARGS [])[0 := ps_argv0 startup] in
      if from_utf8 (ps_argv0 startup) = None \<or> 0 \<in> set (ps_argv0 startup) then Err InvalidStartupArguments else
      and_then (parse_argv_tail (ps_argv_tail startup) args 1) (\<lambda>(args, argc).
      let size = strings_size args argc; pointers_len = (argc + 1) * 8 in
      and_then (ok_or (checked_sub USER_STACK_TOP (of_nat size)) StartupArgumentsTooLarge) (\<lambda>strings_start.
      and_then (ok_or (checked_sub strings_start (of_nat pointers_len)) StartupArgumentsTooLarge) (\<lambda>p.
      let pointers_start = align_down p 8 in
      and_then (ok_or (checked_sub pointers_start 8) StartupArgumentsTooLarge) (\<lambda>s.
      let stack_start = align_down s 16 in
      if stack_start < user_stack_base then Err StartupArgumentsTooLarge
      else Ok \<lparr>sl_args = args, sl_argc = argc, sl_strings_start = strings_start, sl_stack_start = stack_start\<rparr>)))))"

text \<open>The string loop of \<^verbatim>\<open>write_startup_arguments\<close>: every argument with its terminating zero, and the
  pointers collected on the way.\<close>

fun write_strings :: "user_page_map \<Rightarrow> bytes list \<Rightarrow> u64 \<Rightarrow> u64 list vm_op" where
  "write_strings pages [] cursor st = (Ok [], st)"
| "write_strings pages (arg # args) cursor st =
     bind_st (copy_into pages cursor arg) (\<lambda>_.
     bind_st (copy_into pages (cursor + of_nat (length arg)) [0]) (\<lambda>_.
     bind_st (write_strings pages args (cursor + of_nat (length arg) + 1)) (\<lambda>pointers s.
       (Ok (cursor # pointers), s)))) st"

definition write_startup_arguments :: "user_page_map \<Rightarrow> program_startup \<Rightarrow> u64 vm_op" where
  "write_startup_arguments pages startup st =
     (case prepare_startup_layout startup of
        Err e \<Rightarrow> (Err e, st)
      | Panic \<Rightarrow> (Panic, st)
      | Ok layout \<Rightarrow>
          if length (sl_args layout) < sl_argc layout then (Panic, st) else
          bind_st (write_strings pages (take (sl_argc layout) (sl_args layout)) (sl_strings_start layout)) (\<lambda>pointers.
          bind_st (copy_into pages (sl_stack_start layout) (to_le_bytes 8 (of_nat (sl_argc layout) :: u64))) (\<lambda>_.
          bind_st (copy_into pages (sl_stack_start layout + 8) (concat (map (to_le_bytes 8) (pointers @ [0])))) (\<lambda>_ s.
            (Ok (sl_stack_start layout), s)))) st)"

section \<open>Loading\<close>

definition contains_user_address :: "u64 \<Rightarrow> bool" where
  "contains_user_address address \<longleftrightarrow> USER_IMAGE_BASE \<le> address \<and> address < USER_STACK_TOP"

definition load_user_page ::
  "address_space_builder \<Rightarrow> u64 \<Rightarrow> u64 \<Rightarrow> user_page_map \<Rightarrow> user_page_map vm_op" where
  "load_user_page builder virt flags pages =
     bind_st vm_allocate_page (\<lambda>phys.
     bind_st (map_4k builder virt phys flags) (\<lambda>_ s.
       case insert_user_page pages virt phys of
         Ok pages' \<Rightarrow> bind_st (vm_push_owned phys) (\<lambda>_ s'. (Ok pages', s')) s
       | Err e \<Rightarrow> (Err e, s)
       | Panic \<Rightarrow> (Panic, s)))"

text \<open>The two page loops. Every bound is page-aligned and at most \<^verbatim>\<open>USER_STACK_TOP\<close>, so the wrapping
  addition never wraps; the loops count in natural numbers.\<close>

function load_segment_pages ::
  "address_space_builder \<Rightarrow> u64 \<Rightarrow> nat \<Rightarrow> nat \<Rightarrow> user_page_map \<Rightarrow> user_page_map vm_op" where
  "load_segment_pages builder flags virt page_end pages st =
     (if virt < page_end
      then if contains_user_page pages (of_nat virt)
           then load_segment_pages builder flags (virt + 4096) page_end pages st
           else bind_st (load_user_page builder (of_nat virt) flags pages)
                  (load_segment_pages builder flags (virt + 4096) page_end) st
      else (Ok pages, st))"
  by pat_completeness auto
termination
  by (relation "measure (\<lambda>(b, f, virt, page_end, pages, st). page_end - virt)") auto

function load_stack_pages ::
  "address_space_builder \<Rightarrow> nat \<Rightarrow> nat \<Rightarrow> user_page_map \<Rightarrow> user_page_map vm_op" where
  "load_stack_pages builder virt page_end pages st =
     (if virt < page_end
      then bind_st (load_user_page builder (of_nat virt) (PAGE_PRESENT OR PAGE_WRITABLE OR PAGE_USER) pages)
             (load_stack_pages builder (virt + 4096) page_end) st
      else (Ok pages, st))"
  by pat_completeness auto
termination
  by (relation "measure (\<lambda>(b, virt, page_end, pages, st). page_end - virt)") auto

declare load_segment_pages.simps [simp del] load_stack_pages.simps [simp del]

definition segment_flags :: "program_header \<Rightarrow> u64" where
  "segment_flags header =
     PAGE_PRESENT OR PAGE_USER OR (if ph_flags header AND PF_W \<noteq> 0 then PAGE_WRITABLE else 0)"

definition load_segment ::
  "address_space_builder \<Rightarrow> bytes \<Rightarrow> program_header \<Rightarrow> user_page_map \<Rightarrow> user_page_map vm_op" where
  "load_segment builder bytes header pages st =
     (case checked_add (ph_virtual_address header) (ph_memory_size header) of
        None \<Rightarrow> (Err UserImageOutOfRange, st)
      | Some segment_end \<Rightarrow>
          let segment_start = ph_virtual_address header in
          if segment_start < USER_IMAGE_BASE \<or> user_stack_base < segment_end \<or>
             ph_memory_size header < ph_file_size header
          then (Err UserImageOutOfRange, st)
          else
            bind_st (load_segment_pages builder (segment_flags header)
                       (unat (align_down segment_start PAGE_SIZE)) (unat (align_up segment_end PAGE_SIZE)) pages)
              (\<lambda>pages' s.
                 case map_err Elf (file_range header (length bytes)) of
                   Err e \<Rightarrow> (Err e, s)
                 | Panic \<Rightarrow> (Panic, s)
                 | Ok (a, b) \<Rightarrow>
                     (case slice bytes (unat a) (unat b) of
                        Ok contents \<Rightarrow>
                          bind_st (copy_into pages' (ph_virtual_address header) contents) (\<lambda>_ s'. (Ok pages', s')) s
                      | Err e \<Rightarrow> (Err e, s)
                      | Panic \<Rightarrow> (Panic, s))) st)"

fun load_segments ::
  "address_space_builder \<Rightarrow> bytes \<Rightarrow> (program_header, elf_error) outcome list \<Rightarrow> user_page_map \<Rightarrow> user_page_map vm_op" where
  "load_segments builder bytes [] pages st = (Ok pages, st)"
| "load_segments builder bytes (header_result # items) pages st =
     (case map_err Elf header_result of
        Err e \<Rightarrow> (Err e, st)
      | Panic \<Rightarrow> (Panic, st)
      | Ok header \<Rightarrow>
          if ph_kind header \<noteq> PT_LOAD then load_segments builder bytes items pages st
          else bind_st (load_segment builder bytes header pages) (load_segments builder bytes items) st)"

text \<open>The closure of \<^verbatim>\<open>load_user_program\<close>: the root frame and the user stack pointer.\<close>

definition load_program_body ::
  "memory_state \<Rightarrow> elf_image \<Rightarrow> bytes \<Rightarrow> program_startup \<Rightarrow> (u64 \<times> u64) vm_op" where
  "load_program_body ms elf bytes startup =
     bind_st vm_allocate_page (\<lambda>root_paddr.
     bind_st (vm_push_owned root_paddr) (\<lambda>_.
     let builder = \<lparr>ab_root_paddr = root_paddr, ab_tracks_owned = True\<rparr> in
     bind_st (map_shared_kernel_context ms builder) (\<lambda>_.
     bind_st (load_segments builder bytes (program_header_items (elf_program_headers elf)) user_page_map_new) (\<lambda>pages.
     bind_st (load_stack_pages builder (unat user_stack_base) (unat USER_STACK_TOP) pages) (\<lambda>pages.
     bind_st (write_startup_arguments pages startup) (\<lambda>user_stack_top s.
       (Ok (root_paddr, user_stack_top), s)))))))"

definition load_user_program ::
  "memory_state \<Rightarrow> bytes \<Rightarrow> program_startup \<Rightarrow> loaded_user_program vm_op" where
  "load_user_program ms bytes startup st =
     (case map_err Elf (elf_parse bytes) of
        Err e \<Rightarrow> (Err e, st)
      | Panic \<Rightarrow> (Panic, st)
      | Ok elf \<Rightarrow>
          let entry_point = elf_entry_point elf in
          if \<not> contains_user_address entry_point then (Err UserImageOutOfRange, st)
          else
            (case load_program_body ms elf bytes startup (st\<lparr>vm_owned := owned_pages_empty\<rparr>) of
               (Ok (root_paddr, user_stack_top), st') \<Rightarrow>
                 (Ok \<lparr>lp_address_space = \<lparr>as_root_paddr = root_paddr\<rparr>, lp_entry_point = entry_point,
                      lp_user_stack_top = user_stack_top, lp_owned_pages = vm_owned st'\<rparr>,
                  st'\<lparr>vm_owned := owned_pages_empty\<rparr>)
             | (Err e, st') \<Rightarrow>
                 (case owned_pages_release (vm_owned st') (vm_alloc st') of
                    Ok pa \<Rightarrow> (Err e, st'\<lparr>vm_alloc := pa, vm_owned := owned_pages_empty\<rparr>)
                  | _ \<Rightarrow> (Panic, st'))
             | (Panic, st') \<Rightarrow> (Panic, st')))"

section \<open>Lemmas: startup arguments\<close>

text \<open>The wire format of the argument list: every argument with a terminating zero.\<close>

definition encode_args :: "bytes list \<Rightarrow> bytes" where
  "encode_args args = concat (map (\<lambda>arg. arg @ [0]) args)"

definition good_arg :: "bytes \<Rightarrow> bool" where
  "good_arg arg \<longleftrightarrow> arg \<noteq> [] \<and> utf8_valid arg \<and> 0 \<notin> set arg"

lemma encode_args_simps [simp]:
  "encode_args [] = []" "encode_args (a # as) = a @ 0 # encode_args as"
  by (simp_all add: encode_args_def)

lemma position_zero_None: "position_zero bs = None \<longleftrightarrow> 0 \<notin> set bs"
  by (induction bs) auto

lemma position_zero_Some:
  "position_zero bs = Some n \<Longrightarrow> n < length bs \<and> bs = take n bs @ 0 # drop (Suc n) bs \<and> 0 \<notin> set (take n bs)"
  by (induction bs arbitrary: n) (auto split: if_splits)

lemma position_zero_append: "0 \<notin> set a \<Longrightarrow> position_zero (a @ 0 # r) = Some (length a)"
  by (induction a) auto

lemma overwrite_Cons:
  "a < length xs \<Longrightarrow> overwrite xs a (y # ys) = overwrite (xs[a := y]) (Suc a) ys"
  by (simp add: overwrite_def take_Suc_store)

lemma parse_argv_tail_encoded:
  assumes "\<forall>a \<in> set xs. good_arg a" "argc \<le> length args"
  shows "parse_argv_tail (encode_args xs) args argc =
    (if argc + length xs \<le> length args then Ok (overwrite args argc xs, argc + length xs)
     else Err StartupArgumentsTooLarge)"
  using assms
proof (induction xs arbitrary: args argc)
  case Nil
  then show ?case by (subst parse_argv_tail.simps) (simp add: overwrite_def)
next
  case (Cons x xs)
  then have x: "x \<noteq> []" "utf8_valid x" "0 \<notin> set x" by (simp_all add: good_arg_def)
  have u: "from_utf8 x = Some x" using x(2) by (simp add: from_utf8_def)
  show ?case
  proof (cases "length args \<le> argc")
    case True
    with x u Cons.prems show ?thesis by (subst parse_argv_tail.simps) (simp add: position_zero_append Let_def)
  next
    case False
    with x u Cons.prems Cons.IH [of "Suc argc" "args[argc := x]"] show ?thesis
      by (subst parse_argv_tail.simps) (simp add: position_zero_append Let_def overwrite_Cons)
  qed
qed

lemma parse_argv_tail_cases:
  assumes "argc \<le> length args"
  shows "(\<exists>xs. rest = encode_args xs \<and> (\<forall>a \<in> set xs. good_arg a)) \<or>
    parse_argv_tail rest args argc \<in> {Err InvalidStartupArguments, Err StartupArgumentsTooLarge}"
  using assms
proof (induction rest args argc rule: parse_argv_tail.induct)
  case (1 rest args argc)
  show ?case
  proof (cases "rest = [] \<or> position_zero rest = None")
    case True
    have "\<exists>xs. [] = encode_args xs \<and> (\<forall>a \<in> set xs. good_arg a)" by (intro exI [of _ "[]"]) simp
    with True show ?thesis by (subst parse_argv_tail.simps) auto
  next
    case False
    then obtain n where n: "rest \<noteq> []" "position_zero rest = Some n" by auto
    note z = position_zero_Some [OF n(2)]
    let ?arg = "take n rest"
    show ?thesis
    proof (cases "?arg = [] \<or> from_utf8 ?arg = None \<or> 0 \<in> set ?arg \<or> length args \<le> argc")
      case True
      with n show ?thesis by (subst parse_argv_tail.simps) (auto simp: Let_def)
    next
      case ok: False
      then have good: "good_arg ?arg" by (auto simp: good_arg_def from_utf8_def split: if_splits)
      have run: "parse_argv_tail rest args argc = parse_argv_tail (drop (n + 1) rest) (args[argc := ?arg]) (argc + 1)"
        using ok n by (subst parse_argv_tail.simps) (auto simp: Let_def)
      have "(\<exists>xs. drop (n + 1) rest = encode_args xs \<and> (\<forall>a \<in> set xs. good_arg a)) \<or>
        parse_argv_tail (drop (n + 1) rest) (args[argc := ?arg]) (argc + 1) \<in> {Err InvalidStartupArguments, Err StartupArgumentsTooLarge}"
        using "1.IH" [OF n refl] ok by auto
      then show ?thesis
      proof (elim disjE exE conjE)
        fix xs assume "drop (n + 1) rest = encode_args xs" "\<forall>a \<in> set xs. good_arg a"
        with good z have "rest = encode_args (?arg # xs) \<and> (\<forall>a \<in> set (?arg # xs). good_arg a)" by simp
        then show ?thesis by blast
      qed (simp add: run)
    qed
  qed
qed

text \<open>Together: the loop accepts exactly the encodings of at most as many arguments as fit.\<close>

lemma parse_argv_tail_Ok:
  assumes "argc \<le> length args"
  shows "parse_argv_tail rest args argc = Ok r \<longleftrightarrow>
    (\<exists>xs. rest = encode_args xs \<and> (\<forall>a \<in> set xs. good_arg a) \<and> argc + length xs \<le> length args \<and>
       r = (overwrite args argc xs, argc + length xs))"
  using parse_argv_tail_cases [OF assms, of rest] parse_argv_tail_encoded [OF _ assms]
  by (auto split: if_splits)

lemma parse_argv_tail_total: "argc \<le> length args \<Longrightarrow> parse_argv_tail rest args argc \<noteq> Panic"
  using parse_argv_tail_cases [of argc args rest] parse_argv_tail_encoded [of _ argc args] by (auto split: if_splits)

lemma prepare_startup_layout_total: "prepare_startup_layout startup \<noteq> Panic"
  using parse_argv_tail_total
  by (auto simp: prepare_startup_layout_def Let_def and_then_eq_Panic ok_or_def MAX_STARTUP_ARGS_def split: option.splits)

lemma prepare_startup_layout_argc:
  "prepare_startup_layout startup = Ok l \<Longrightarrow> \<not> length (sl_args l) < sl_argc l"
  by (auto simp: prepare_startup_layout_def Let_def MAX_STARTUP_ARGS_def parse_argv_tail_Ok overwrite_def split: if_splits)

end
