(* ===== verification/Page_Release.thy ===== *)
theory Page_Release
  imports Kernel_Memory
begin

text \<open>
  Giving pages back. The allocator's free memory is described by its set of addresses alone: the set
  is closed under pages and bounded exactly when the table consists of whole frames. Releasing an
  owned-page list or a kernel buffer adds the released addresses to that set.
\<close>

section \<open>Whole frames, as a property of the free set\<close>

lemma frames_ok_free:
  assumes "frames_ok pa"
  shows "page_closed (free_set pa)" "x \<in> free_set pa \<Longrightarrow> 4096 \<le> unat x \<and> unat x < 2 ^ 52"
proof -
  have R: "aligned_region r" "pr_start r \<noteq> 0" "unat (pr_end r) \<le> 2 ^ 52" if "r \<in> set (active pa)" for r
    using assms that by (auto simp: frames_ok_def)
  show "page_closed (free_set pa)"
    unfolding spans_def span_def using R(1) by (intro page_closed_UN page_closed_range) (auto simp: aligned_region_def)
  assume "x \<in> free_set pa"
  then obtain r where r: "r \<in> set (active pa)" "pr_start r \<le> x" "x < pr_end r" by (auto simp: spans_def span_def)
  have "unat (pr_start r) \<noteq> 0" using R(2) [OF r(1)] by (simp add: unat_eq_zero)
  then have "4096 \<le> unat (pr_start r)" using R(1) [OF r(1)] by (auto simp: aligned_region_def dest!: dvd_imp_le)
  with r(2,3) R(3) [OF r(1)] show "4096 \<le> unat x \<and> unat x < 2 ^ 52" by (simp add: word_le_nat_alt word_less_nat_alt)
qed

lemma insert_frames:
  assumes a: "alloc_inv pa" "frames_ok pa" and r: "s < e" "4096 dvd unat s" "4096 dvd unat e" "s \<noteq> 0" "unat e \<le> 2 ^ 52"
    and ins: "insert_range pa s e = Ok pa'"
  shows "alloc_inv pa' \<and> frames_ok pa' \<and> free_set pa' = free_set pa \<union> {s..<e}"
proof -
  have i: "alloc_inv pa'" "free_set pa' = free_set pa \<union> {s..<e}"
    using insert_range_spec [OF a(1) r(1)] ins by (cases "crowded pa s e"; simp)+
  have "0 < unat s" using r(4) by (simp add: unat_gt_0)
  then have "4096 \<le> unat s" using dvd_imp_le [OF r(2)] by simp
  then have "4096 \<le> unat x \<and> unat x < 2 ^ 52" if "x \<in> {s..<e}" for x
    using that r(5) by (auto simp: word_le_nat_alt word_less_nat_alt)
  then have "frames_ok pa'"
    using frames_ok_free [OF a(2)] page_closed_range [OF r(2,3)] i
    by (intro frames_ok_page_closed [OF i(1)]) auto
  with i show ?thesis by simp
qed

section \<open>Owned pages\<close>

lemma frame_next: "frame_ok c \<Longrightarrow> unat (c + PAGE_SIZE) = unat c + 4096"
  using unat_add_lem [of c PAGE_SIZE] by (simp add: frame_ok_def PAGE_SIZE_def)

lemma free_frame:
  assumes a: "alloc_inv pa" "frames_ok pa" and c: "frame_ok c" "c \<noteq> 0" and f: "free_contiguous_pages pa c 1 = Ok pa'"
  shows "alloc_inv pa' \<and> frames_ok pa' \<and> free_set pa' = free_set pa \<union> block c PAGE_SIZE"
proof -
  have n: "unat (c + PAGE_SIZE) = unat c + 4096" by (rule frame_next [OF c(1)])
  have d: "4096 dvd unat (c + PAGE_SIZE)" using c(1) unfolding n by (simp add: frame_ok_def)
  have "unat (c + PAGE_SIZE) \<le> 2 ^ 52"
  proof -
    obtain k where "unat c = 4096 * k" using c(1) by (auto simp: frame_ok_def elim!: dvdE)
    with n c(1) show ?thesis by (simp add: frame_ok_def)
  qed
  with insert_frames [OF a _ _ d c(2), of pa'] n c f show ?thesis
    by (simp add: free_contiguous_pages_def word_less_nat_alt frame_ok_def block_def)
qed

lemma free_contiguous_no_Err: "alloc_inv pa \<Longrightarrow> s < s + n * PAGE_SIZE \<Longrightarrow> free_contiguous_pages pa s n \<noteq> Err e"
  using insert_range_spec [of pa s "s + n * PAGE_SIZE"]
  by (cases "crowded pa s (s + n * PAGE_SIZE)") (auto simp: free_contiguous_pages_def)

lemma owned_pages_release_frames:
  assumes "alloc_inv pa" "frames_ok pa" "owned_pages_wf op" "\<forall>c \<in> set (owned_list op). frame_ok c \<and> c \<noteq> 0"
  shows "case owned_pages_release op pa of
      Ok pa' \<Rightarrow> alloc_inv pa' \<and> frames_ok pa' \<and> free_set pa' = free_set pa \<union> frame_bytes (owned_list op)
    | Err e \<Rightarrow> False
    | Panic \<Rightarrow> MAX_FREE_RANGES < pa_count pa + length (owned_list op)"
proof -
  let ?step = "\<lambda>page r. and_then r (\<lambda>pa. free_contiguous_pages pa page 1)"
  have panic: "fold ?step cs Panic = Panic" for cs by (induction cs) auto
  have "case fold ?step cs (Ok pa) of
      Ok pa' \<Rightarrow> alloc_inv pa' \<and> frames_ok pa' \<and> free_set pa' = free_set pa \<union> frame_bytes cs
    | Err e \<Rightarrow> False
    | Panic \<Rightarrow> MAX_FREE_RANGES < pa_count pa + length cs"
    if "\<forall>c \<in> set cs. frame_ok c \<and> c \<noteq> 0" "alloc_inv pa" "frames_ok pa" for cs pa
    using that
  proof (induction cs arbitrary: pa)
    case (Cons c cs)
    have lt: "c < c + PAGE_SIZE" using frame_next [of c] Cons.prems(1) by (simp add: word_less_nat_alt)
    show ?case
    proof (cases "free_contiguous_pages pa c 1")
      case (Ok pa1)
      then have f: "alloc_inv pa1 \<and> frames_ok pa1 \<and> free_set pa1 = free_set pa \<union> block c PAGE_SIZE"
        using free_frame [OF Cons.prems(2,3), of c pa1] Cons.prems(1) by auto
      have "pa_count pa1 \<le> pa_count pa + 1" if "pa_count pa < MAX_FREE_RANGES"
        using insert_range_count [OF Cons.prems(2) that lt] Ok by (auto simp: free_contiguous_pages_def)
      moreover have "pa_count pa \<le> MAX_FREE_RANGES" "pa_count pa1 \<le> MAX_FREE_RANGES"
        using Cons.prems(2) f by (auto simp: alloc_inv_def table_wf_def)
      ultimately have "pa_count pa1 \<le> pa_count pa + 1" by (cases "pa_count pa < MAX_FREE_RANGES") auto
      with Cons.IH [of pa1] Cons.prems(1) f Ok show ?thesis by (auto split: outcome.splits)
    next
      case (Err e)
      with free_contiguous_no_Err [OF Cons.prems(2), of c 1 e] lt show ?thesis by simp
    next
      case Panic
      have "\<not> pa_count pa < MAX_FREE_RANGES"
        using insert_range_count [OF Cons.prems(2) _ lt] Panic by (auto simp: free_contiguous_pages_def)
      with Panic panic show ?thesis by simp
    qed
  qed simp
  from this [OF assms(4,1,2)] show ?thesis
    using release_pages_from_eq [OF assms(3), of 0 pa] by (simp add: owned_pages_release_def)
qed

end
