(* ===== verification/Loader_Isolation.thy ===== *)
theory Loader_Isolation
  imports Program_Loader Page_Release
begin

text \<open>
  What the program loader establishes: the address space it builds gives user mode exactly the pages
  it loaded, each backed by a frame of the program's owned-page list, on top of the supervisor-only
  kernel context; and every frame it took is on that list.
\<close>

section \<open>The page map as a set\<close>

definition mapped :: "user_page_map \<Rightarrow> user_page set" where
  "mapped pages = {page. Some page \<in> set pages}"

lemma mapped_new [simp]: "mapped user_page_map_new = {}"
  by (auto simp: mapped_def user_page_map_new_def)

lemma find_user_page_Some:
  "find_user_page pages v = Some page \<Longrightarrow> page \<in> mapped pages \<and> up_virt_page page = v"
  by (induction pages) (auto simp: mapped_def split: option.splits if_splits)

lemma find_user_page_None: "find_user_page pages v = None \<longleftrightarrow> (\<forall>page \<in> mapped pages. up_virt_page page \<noteq> v)"
  by (induction pages) (auto simp: mapped_def split: option.splits)

lemma find_user_page_unique:
  assumes "page \<in> mapped pages" "\<And>p. p \<in> mapped pages \<Longrightarrow> up_virt_page p = up_virt_page page \<Longrightarrow> p = page"
  shows "find_user_page pages (up_virt_page page) = Some page"
proof (cases "find_user_page pages (up_virt_page page)")
  case None
  then show ?thesis using assms(1) find_user_page_None by blast
next
  case (Some p)
  then show ?thesis using assms(2) find_user_page_Some by blast
qed

lemma insert_user_page_spec:
  "(\<exists>pages'. insert_user_page pages v p = Ok pages' \<and>
      mapped pages' = insert \<lparr>up_virt_page = v, up_phys_page = p\<rparr> (mapped pages)) \<or>
   insert_user_page pages v p = Err SegmentOverlapCapacityExceeded"
proof (induction pages)
  case (Cons slot pages)
  then show ?case by (cases slot) (auto simp: mapped_def)
qed simp

section \<open>Memory outside the tables\<close>

lemma page_entry_cong:
  assumes "frame_ok t" "i < 512" "\<And>x. x \<in> block t PAGE_SIZE \<Longrightarrow> m' x = m x"
  shows "page_entry m' t i = page_entry m t i"
proof -
  have tp: "unat (t + PAGE_SIZE) = unat t + 4096"
    using assms(1) unat_add_lem [of t PAGE_SIZE] by (simp add: frame_ok_def PAGE_SIZE_def)
  have "t + 8 * of_nat i + of_nat n \<in> block t PAGE_SIZE" if "n < 8" for n
  proof -
    have "unat (of_nat n :: u64) = n" using that by (simp add: unsigned_of_nat take_bit_nat_eq_self)
    then have "unat (t + 8 * of_nat i + of_nat n) = unat t + 8 * i + n"
      using entry_address [OF assms(1,2)] unat_add_lem [of "t + 8 * of_nat i" "of_nat n"] assms(1,2) that
      by (simp add: frame_ok_def)
    then show ?thesis using tp assms(2) that by (simp add: block_def word_le_nat_alt word_less_nat_alt)
  qed
  then have "read_mem m' (t + 8 * of_nat i) 8 = read_mem m (t + 8 * of_nat i) 8"
    using assms(3) by (simp add: read_mem_def)
  then show ?thesis by (simp add: page_entry_def)
qed

lemma space_outside_tables:
  assumes inv: "space_inv m root F" and same: "\<And>x. x \<in> table_bytes m root \<Longrightarrow> m' x = m x"
  shows "space_inv m' root F"
    "good_path q \<Longrightarrow> table_at m' root q = table_at m root q"
    "good_path (q @ [j]) \<Longrightarrow> huge_at m' root q j = huge_at m root q j"
    "leaf m' root v = leaf m root v"
    "table_bytes m' root = table_bytes m root"
proof -
  let ?m = m
  note S = space_invD [OF inv]
  have ent: "page_entry m' t i = page_entry ?m t i" if "good_path p" "table_at ?m root p = Some t" "i < 512" for p t i
    using that S(1) by (intro page_entry_cong same) (auto simp: table_bytes_def)
  have tab: "table_at m' root q = table_at ?m root q" if "good_path q" for q
    by (rule table_at_same [OF _ that]) (use ent in \<open>simp add: next_table_def\<close>)
  then show "good_path q \<Longrightarrow> table_at m' root q = table_at ?m root q" .
  show "space_inv m' root F" using inv tab unfolding space_inv_def by metis
  show "huge_at m' root q j = huge_at ?m root q j" if "good_path (q @ [j])"
    using that tab [of q] ent [of q _ j] by (auto simp: huge_at_def good_path_snoc)
  show "leaf m' root v = leaf ?m root v"
    by (rule leaf_same [OF tab]) (use ent in \<open>auto simp: good_path_snoc\<close>)
  show "table_bytes m' root = table_bytes ?m root" using tab by (rule table_bytes_cong)
qed

lemma outside_tables:
  assumes inv: "vm_inv root st" and same: "\<And>x. x \<in> table_bytes (vm_memory st) root \<Longrightarrow> m' x = vm_memory st x"
  shows "vm_inv root (st\<lparr>vm_memory := m'\<rparr>)"
    "good_path q \<Longrightarrow> table_at m' root q = table_at (vm_memory st) root q"
    "good_path (q @ [j]) \<Longrightarrow> huge_at m' root q j = huge_at (vm_memory st) root q j"
    "leaf m' root v = leaf (vm_memory st) root v"
    "table_bytes m' root = table_bytes (vm_memory st) root"
  using space_outside_tables [OF vm_invD(4) [OF inv] same] inv by (simp_all add: vm_inv_def)

lemma leaf_same_page: "same_page v w \<Longrightarrow> leaf m root v = leaf m root w"
  by (simp only: leaf_def same_page_def list.inject)

section \<open>The loader's invariant\<close>

definition page_grants :: "memory \<Rightarrow> u64 \<Rightarrow> user_page \<Rightarrow> bool" where
  "page_grants m root page \<longleftrightarrow>
     (\<exists>e. leaf m root (up_virt_page page) = Some e \<and> e AND PAGE_USER \<noteq> 0 \<and> e AND ADDRESS_MASK = up_phys_page page)"

definition page_placed :: "u64 \<Rightarrow> vm \<Rightarrow> user_page \<Rightarrow> bool" where
  "page_placed root st page \<longleftrightarrow> frame_ok (up_phys_page page) \<and> 4096 dvd unat (up_virt_page page) \<and>
     in_user_range (unat (up_virt_page page)) \<and> block (up_phys_page page) PAGE_SIZE \<inter> free_set (vm_alloc st) = {} \<and>
     block (up_phys_page page) PAGE_SIZE \<inter> table_bytes (vm_memory st) root = {} \<and>
     up_phys_page page \<in> set (owned_list (vm_owned st)) \<and> page_grants (vm_memory st) root page"

definition supervisor_rest :: "memory_state \<Rightarrow> u64 \<Rightarrow> user_page_map \<Rightarrow> memory \<Rightarrow> bool" where
  "supervisor_rest ms root pages m \<longleftrightarrow> upper_clear m root \<and>
     (\<forall>w. unat w < 2 ^ 48 \<longrightarrow>
        (in_window ms (unat w) \<longrightarrow>
           leaf m root w = Some (of_nat (unat w div 0x200000 * 0x200000) OR kernel_flags OR PAGE_HUGE)) \<and>
        (huge_at m root (pd_path w) (pd_index w) \<longrightarrow> in_window ms (unat w)) \<and>
        (\<forall>e. leaf m root w = Some e \<and> (in_user_range (unat w) \<or> e AND PAGE_USER \<noteq> 0) \<longrightarrow>
           (\<exists>page \<in> mapped pages. same_page (up_virt_page page) w)))"

text \<open>Everything written so far was free memory of the state \<open>base\<close> the load started in.\<close>

definition loader_safe :: "vm \<Rightarrow> u64 \<Rightarrow> vm \<Rightarrow> bool" where
  "loader_safe base root st \<longleftrightarrow> vm_inv root st \<and> free_set (vm_alloc st) \<subseteq> free_set (vm_alloc base) \<and>
     table_bytes (vm_memory st) root \<subseteq> free_set (vm_alloc base) \<and>
     (\<forall>x. x \<notin> free_set (vm_alloc base) \<longrightarrow> vm_memory st x = vm_memory base x)"

lemma loader_safe_grows:
  assumes "loader_safe base root st" "grows root st st'"
  shows "loader_safe base root st'"
  unfolding loader_safe_def
proof (intro conjI allI impI)
  note G = growsD [OF assms(2)]
  have S: "free_set (vm_alloc st) \<subseteq> free_set (vm_alloc base)" "table_bytes (vm_memory st) root \<subseteq> free_set (vm_alloc base)"
    "x \<notin> free_set (vm_alloc base) \<Longrightarrow> vm_memory st x = vm_memory base x" for x using assms(1) by (simp_all add: loader_safe_def)
  show "vm_inv root st'" by (rule G(1))
  show "free_set (vm_alloc st') \<subseteq> free_set (vm_alloc base)" using G(2) S(1) by blast
  show "table_bytes (vm_memory st') root \<subseteq> free_set (vm_alloc base)" using G(3) S(1,2) by blast
  show "vm_memory st' x = vm_memory base x" if "x \<notin> free_set (vm_alloc base)" for x
    using G(4) [of x] S that by auto
qed

definition loader_inv :: "memory_state \<Rightarrow> vm \<Rightarrow> u64 \<Rightarrow> user_page_map \<Rightarrow> vm \<Rightarrow> bool" where
  "loader_inv ms base root pages st \<longleftrightarrow> loader_safe base root st \<and> supervisor_rest ms root pages (vm_memory st) \<and>
     (\<forall>page \<in> mapped pages. page_placed root st page \<and> block (up_phys_page page) PAGE_SIZE \<subseteq> free_set (vm_alloc base)) \<and>
     (\<forall>p \<in> mapped pages. \<forall>q \<in> mapped pages. up_phys_page p = up_phys_page q \<or> up_virt_page p = up_virt_page q \<longrightarrow> p = q)"

lemma loader_invD:
  assumes "loader_inv ms base root pages st"
  shows "vm_inv root st" "supervisor_rest ms root pages (vm_memory st)"
    "page \<in> mapped pages \<Longrightarrow> page_placed root st page"
    "p \<in> mapped pages \<Longrightarrow> q \<in> mapped pages \<Longrightarrow> up_phys_page p = up_phys_page q \<or> up_virt_page p = up_virt_page q \<Longrightarrow> p = q"
    "loader_safe base root st" "page \<in> mapped pages \<Longrightarrow> block (up_phys_page page) PAGE_SIZE \<subseteq> free_set (vm_alloc base)"
  using assms unfolding loader_inv_def loader_safe_def by blast+

lemma kernel_context_rest: "kernel_context ms m root \<Longrightarrow> supervisor_rest ms root user_page_map_new m"
  by (auto simp: kernel_context_def supervisor_rest_def)

lemma supervisor_rest_clear:
  assumes "supervisor_rest ms root pages m" "in_user_range (unat w)"
  shows "clear_path m root w"
proof -
  have "unat w < 2 ^ 48" "\<not> in_window ms (unat w)"
    using assms(2) by (simp_all add: in_user_range_def in_window_def USER_STACK_TOP_def PHYS_WINDOW_START_def)
  then show ?thesis using assms(1) upper_clearD by (auto simp: supervisor_rest_def clear_path_def)
qed

lemma accounts_owned: "accounts True st st' \<Longrightarrow> set (owned_list (vm_owned st)) \<subseteq> set (owned_list (vm_owned st'))"
  by (auto simp: accounts_def)

lemma placed_grows:
  assumes "page_placed root st page" "grows root st st'" "leaf (vm_memory st') root (up_virt_page page) = leaf (vm_memory st) root (up_virt_page page)"
    "set (owned_list (vm_owned st)) \<subseteq> set (owned_list (vm_owned st'))"
  shows "page_placed root st' page"
  using assms growsD(2,3) [OF assms(2)] by (auto simp: page_placed_def page_grants_def)

lemma frame_memory_grows:
  assumes "page_placed root st page" "grows root st st'" "x \<in> block (up_phys_page page) PAGE_SIZE"
  shows "vm_memory st' x = vm_memory st x"
  using assms growsD(4) [OF assms(2)] by (auto simp: page_placed_def)

lemma aligned_same_page:
  assumes "4096 dvd unat v" "4096 dvd unat w" "unat v < 2 ^ 48" "unat w < 2 ^ 48"
  shows "same_page v w \<longleftrightarrow> v = w"
  using same_page_iff [OF assms(3,4)] assms(1,2) by (auto elim!: dvdE simp: word_unat_eq_iff)

lemma user_range_48: "in_user_range n \<Longrightarrow> n < 2 ^ 48"
  by (simp add: in_user_range_def USER_STACK_TOP_def)

lemma user_range_page:
  assumes "in_user_range (unat v)" "same_page v w" "unat w < 2 ^ 48"
  shows "in_user_range (unat w)"
proof -
  have d: "unat v div 4096 = unat w div 4096" using same_page_iff [OF user_range_48 [OF assms(1)] assms(3)] assms(2) by simp
  have "in_user_range n \<longleftrightarrow> 0x400 \<le> n div 4096 \<and> n div 4096 < 0x800" for n
    by (auto simp: in_user_range_def USER_IMAGE_BASE_def USER_STACK_TOP_def)
  then show ?thesis using assms(1) d by simp
qed

text \<open>Adding one page to the map after its entry has been written.\<close>

lemma supervisor_rest_add:
  assumes r: "supervisor_rest ms root pages (vm_memory st)" and m: "mapped_4k root virt e st st'"
    and v: "in_user_range (unat virt)" and p: "mapped pages' = insert \<lparr>up_virt_page = virt, up_phys_page = c\<rparr> (mapped pages)"
  shows "supervisor_rest ms root pages' (vm_memory st')"
proof -
  have lf: "leaf (vm_memory st') root w = (if same_page virt w then present_entry e else leaf (vm_memory st) root w)" for w
    using m by (simp add: mapped_4k_def)
  have hg: "huge_at (vm_memory st') root q j = huge_at (vm_memory st) root q j" if "good_path (q @ [j])" for q j
    using m that by (simp add: mapped_4k_def)
  have "\<not> same_page virt w" if "in_window ms (unat w)" "unat w < 2 ^ 48" for w
    using user_range_page [OF v _ that(2)] that(1)
    by (auto simp: in_window_def in_user_range_def USER_STACK_TOP_def PHYS_WINDOW_START_def)
  moreover have "upper_clear (vm_memory st') root" using r hg by (auto simp: supervisor_rest_def upper_clear_def)
  ultimately show ?thesis using r lf hg p unfolding supervisor_rest_def by auto
qed

definition loads_page ::
  "memory_state \<Rightarrow> vm \<Rightarrow> u64 \<Rightarrow> user_page_map \<Rightarrow> vm \<Rightarrow> u64 \<Rightarrow> (user_page_map, memory_error) outcome \<times> vm \<Rightarrow> bool" where
  "loads_page ms base root pages st virt r \<longleftrightarrow>
     (case r of
        (Ok pages', st') \<Rightarrow> loader_inv ms base root pages' st' \<and> accounts True st st' \<and>
          (\<exists>c. mapped pages' = insert \<lparr>up_virt_page = virt, up_phys_page = c\<rparr> (mapped pages) \<and>
             (\<forall>x \<in> block c PAGE_SIZE. vm_memory st' x = 0)) \<and>
          (\<forall>page \<in> mapped pages. \<forall>x \<in> block (up_phys_page page) PAGE_SIZE. vm_memory st' x = vm_memory st x)
      | (Err _, st') \<Rightarrow> loader_safe base root st' \<and> consumes True st st'
      | (Panic, _) \<Rightarrow> False)"

lemma accounts_add_page:
  assumes ac: "accounts True st1 st2" and c: "frame_ok c" "c \<noteq> 0"
    and st1: "vm_owned st1 = vm_owned st" "free_set (vm_alloc st) = free_set (vm_alloc st1) \<union> block c PAGE_SIZE"
      "block c PAGE_SIZE \<inter> free_set (vm_alloc st1) = {}"
    and op: "owned_list op = owned_list (vm_owned st2) @ [c]"
  shows "accounts True st (st2\<lparr>vm_owned := op\<rparr>)"
proof -
  obtain new where n: "owned_list (vm_owned st2) = owned_list (vm_owned st1) @ new" "distinct new"
    "\<forall>c \<in> set new. frame_ok c \<and> c \<noteq> 0" "free_set (vm_alloc st1) = free_set (vm_alloc st2) \<union> frame_bytes new"
    "free_set (vm_alloc st2) \<inter> frame_bytes new = {}" using ac by (auto simp: accounts_def)
  have "c \<notin> set new" using n(3,4) st1(3) in_own_block [OF c(1)] by auto
  moreover have "free_set (vm_alloc st) = free_set (vm_alloc st2) \<union> frame_bytes (new @ [c])" using st1(2) n(4) by auto
  moreover have "free_set (vm_alloc st2) \<inter> frame_bytes (new @ [c]) = {}" using n(4,5) st1(3) by auto
  ultimately show ?thesis
    using n(1-3) c st1(1) op unfolding accounts_def by (simp only: if_True) (rule exI [of _ "new @ [c]"], auto)
qed

lemma loader_inv_add_page:
  assumes inv: "loader_inv ms base root pages st" and ext: "extends root st st1" and m4: "mapped_4k root virt (c OR flags) st1 st2"
    and rest: "supervisor_rest ms root pages (vm_memory st1)"
    and own: "vm_owned st1 = vm_owned st" "set (owned_list (vm_owned st1)) \<subseteq> set (owned_list (vm_owned st2))"
    and c: "frame_ok c" "block c PAGE_SIZE \<subseteq> free_set (vm_alloc st)" "block c PAGE_SIZE \<inter> free_set (vm_alloc st1) = {}"
      "table_bytes (vm_memory st1) root \<inter> block c PAGE_SIZE = {}"
    and v: "in_user_range (unat virt)" "4096 dvd unat virt" "\<not> contains_user_page pages virt"
    and f: "unat flags < 4096" "flags AND PAGE_PRESENT \<noteq> 0" "flags AND PAGE_USER \<noteq> 0"
    and mp: "mapped pages' = insert \<lparr>up_virt_page = virt, up_phys_page = c\<rparr> (mapped pages)"
    and op: "owned_pages_wf op" "owned_list op = owned_list (vm_owned st2) @ [c]"
  shows "loader_inv ms base root pages' (st2\<lparr>vm_owned := op\<rparr>)"
proof -
  note I = loader_invD [OF inv]
  let ?st3 = "st2\<lparr>vm_owned := op\<rparr>" and ?new = "\<lparr>up_virt_page = virt, up_phys_page = c\<rparr>"
  have g: "grows root st1 st2" and lf: "leaf (vm_memory st2) root w = (if same_page virt w then present_entry (c OR flags)
      else leaf (vm_memory st1) root w)" for w using m4 by (simp_all add: mapped_4k_def)
  note G = growsD [OF g]
  have g3: "grows root st ?st3"
    using grows_trans [OF extends_grows [OF ext] g] op(1) by (simp add: grows_def vm_inv_def)
  have safe: "loader_safe base root st" "loader_safe base root ?st3" using I(5) loader_safe_grows [OF I(5) g3] by simp_all
  have fresh: "up_virt_page page \<noteq> virt \<and> up_phys_page page \<noteq> c" if "page \<in> mapped pages" for page
    using that v(3) I(3) [OF that] c(1,2) in_own_block [OF c(1)] find_user_page_None [of pages virt]
    by (auto simp: contains_user_page_def page_placed_def)
  have old: "page_placed root ?st3 page" if pg: "page \<in> mapped pages" for page
  proof (rule placed_grows [OF I(3) [OF pg] g3])
    have pp: "in_user_range (unat (up_virt_page page))" "4096 dvd unat (up_virt_page page)"
      using I(3) [OF pg] by (simp_all add: page_placed_def)
    have "\<not> same_page virt (up_virt_page page)"
      using aligned_same_page [OF v(2) pp(2) user_range_48 [OF v(1)] user_range_48 [OF pp(1)]] fresh [OF pg] by auto
    then show "leaf (vm_memory ?st3) root (up_virt_page page) = leaf (vm_memory st) root (up_virt_page page)"
      using lf extendsD(2) [OF ext] by simp
    show "set (owned_list (vm_owned st)) \<subseteq> set (owned_list (vm_owned ?st3))" using own op(2) by auto
  qed
  have bits: "(c OR flags) AND PAGE_PRESENT \<noteq> 0" "(c OR flags) AND PAGE_USER \<noteq> 0" "(c OR flags) AND ADDRESS_MASK = c"
    using frame_bits(1) [OF c(1) f(1)] frame_bits(3) [OF c(1) f(1), of PAGE_PRESENT]
      frame_bits(3) [OF c(1) f(1), of PAGE_USER] f(2,3) by (simp_all add: PAGE_PRESENT_def PAGE_USER_def)
  have "same_page virt virt" by (simp add: same_page_def)
  then have "page_grants (vm_memory ?st3) root ?new" using lf [of virt] bits by (simp add: page_grants_def present_entry_def)
  then have new: "page_placed root ?st3 ?new"
    using c v op(2) G(2,3) by (auto simp: page_placed_def)
  have "supervisor_rest ms root pages' (vm_memory ?st3)" using supervisor_rest_add [OF rest m4 v(1) mp] by simp
  moreover have "\<forall>p \<in> mapped pages'. page_placed root ?st3 p \<and> block (up_phys_page p) PAGE_SIZE \<subseteq> free_set (vm_alloc base)"
    using new old I(6) safe c(2) by (auto simp: mp loader_safe_def)
  moreover have "\<forall>p \<in> mapped pages'. \<forall>q \<in> mapped pages'.
      up_phys_page p = up_phys_page q \<or> up_virt_page p = up_virt_page q \<longrightarrow> p = q"
    using fresh I(4) unfolding mp by auto
  ultimately show ?thesis using safe(2) by (simp add: loader_inv_def)
qed

lemma load_user_page_spec:
  assumes inv: "loader_inv ms base root pages st" and b: "ab_root_paddr b = root" "ab_tracks_owned b"
    and v: "in_user_range (unat virt)" "4096 dvd unat virt" "\<not> contains_user_page pages virt"
    and f: "unat flags < 4096" "flags AND PAGE_PRESENT \<noteq> 0" "flags AND PAGE_USER \<noteq> 0"
  shows "loads_page ms base root pages st virt (load_user_page b virt flags pages st)"
proof -
  note I = loader_invD [OF inv]
  note V = vm_invD [OF I(1)]
  show ?thesis
  proof (rule alloc_frame_cases [OF V(1,2), of "vm_memory st"], goal_cases page exhausted)
    case exhausted
    then show ?case using I(5) by (simp add: loads_page_def load_user_page_def bind_st_def vm_allocate_page_def consumes_same)
  next
    case (page c pa)
    let ?m1 = "fill_bytes (vm_memory st) c 0 4096"
    let ?st1 = "\<lparr>vm_memory = ?m1, vm_alloc = pa, vm_owned = vm_owned st\<rparr>"
    have alloc: "vm_allocate_page st = (Ok c, ?st1)" using page(1) by (cases st) (simp add: vm_allocate_page_def)
    have ext: "extends root st ?st1" by (rule extends_take_frame [OF I(1) page(4,5,2,3,6) V(3)])
    note X = extendsD [OF ext]
    have safe1: "loader_safe base root ?st1" by (rule loader_safe_grows [OF I(5) extends_grows [OF ext]])
    have con1: "consumes True st ?st1" using page(6) by (intro consumes_same) auto
    have rest1: "supervisor_rest ms root pages (vm_memory ?st1)"
      using I(2) X(2,4) by (auto simp: supervisor_rest_def upper_clear_def)
    have tb1: "table_bytes ?m1 root \<inter> block c PAGE_SIZE = {}"
    proof -
      have "table_bytes ?m1 root = table_bytes (vm_memory st) root"
        using table_at_take_frame [OF I(1) page(4,5)] by (intro table_bytes_cong)
      then show ?thesis using table_bytes_free [OF I(1)] page(5) by auto
    qed
    have zero1: "\<forall>x \<in> block c PAGE_SIZE. ?m1 x = 0"
      using page(4) by (intro ballI frames.zeroed_block(1)) (auto simp: frame_ok_def)
    note spec = map_4k_spec [OF X(1) b(1) supervisor_rest_clear [OF rest1 v(1)], of c flags]
    obtain r st2 where run: "map_4k b virt c flags ?st1 = (r, st2)" by (cases "map_4k b virt c flags ?st1")
    show ?case
    proof (cases r)
      case (Err e)
      with spec run b(2) have "loader_safe base root st2" "consumes True ?st1 st2"
        using loader_safe_grows [OF safe1] extends_grows by auto
      with alloc run Err consumes_trans [OF con1] show ?thesis
        by (simp add: loads_page_def load_user_page_def bind_st_def)
    next
      case Panic
      with spec run show ?thesis by simp
    next
      case (Ok u)
      with spec run b(2) have m4: "mapped_4k root virt (c OR flags) ?st1 st2" and ac: "accounts True ?st1 st2" by simp_all
      then have g: "grows root ?st1 st2" by (simp add: mapped_4k_def)
      note G = growsD [OF g]
      note safe2 = loader_safe_grows [OF safe1 g]
      note con2 = consumes_trans [OF con1 accounts_consumes [OF ac]]
      have lt: "load_user_page b virt flags pages st =
          (case insert_user_page pages virt c of
             Ok pages' \<Rightarrow> bind_st (vm_push_owned c) (\<lambda>_ s'. (Ok pages', s')) st2
           | Err e \<Rightarrow> (Err e, st2) | Panic \<Rightarrow> (Panic, st2))"
        using alloc run Ok by (simp add: load_user_page_def bind_st_def)
      show ?thesis
      proof (cases "insert_user_page pages virt c")
        case (Err e)
        then show ?thesis using lt safe2 con2 by (simp add: loads_page_def)
      next
        case Panic
        then show ?thesis using insert_user_page_spec [of pages virt c] by auto
      next
        case ins: (Ok pages')
        then have mp: "mapped pages' = insert \<lparr>up_virt_page = virt, up_phys_page = c\<rparr> (mapped pages)"
          using insert_user_page_spec [of pages virt c] by auto
        note wf2 = vm_invD(3) [OF G(1)]
        show ?thesis
        proof (cases "owned_pages_push c (vm_owned st2)")
          case (Err e)
          then show ?thesis using lt ins safe2 con2 by (simp add: loads_page_def bind_st_def vm_push_owned_def)
        next
          case Panic
          then show ?thesis using owned_pages_push_spec [OF wf2] by (simp split: if_splits)
        next
          case (Ok op)
          let ?st3 = "st2\<lparr>vm_owned := op\<rparr>"
          have run3: "load_user_page b virt flags pages st = (Ok pages', ?st3)"
            using lt ins Ok by (simp add: bind_st_def vm_push_owned_def)
          have op: "owned_pages_wf op" "owned_list op = owned_list (vm_owned st2) @ [c]"
            using owned_pages_push_wf [OF wf2 Ok] by auto
          have dis: "block c PAGE_SIZE \<inter> free_set (vm_alloc ?st1) = {}"
            "free_set (vm_alloc st) = free_set (vm_alloc ?st1) \<union> block c PAGE_SIZE" using page(5,6) by auto
          have "loader_inv ms base root pages' ?st3"
            using accounts_owned [OF ac] page(4,5) dis(1) tb1
            by (intro loader_inv_add_page [OF inv ext m4 rest1 _ _ _ _ _ _ v f mp op]) simp_all
          moreover have "accounts True st ?st3"
            using accounts_add_page [OF ac page(4,7) _ dis(2,1) op(2)] by simp
          moreover have "vm_memory ?st3 x = 0" if "x \<in> block c PAGE_SIZE" for x
            using that dis(1) tb1 zero1 G(4) [of x] by auto
          moreover have "vm_memory ?st3 x = vm_memory st x" if "page \<in> mapped pages" "x \<in> block (up_phys_page page) PAGE_SIZE" for page x
            using frame_memory_grows [OF I(3) [OF that(1)] grows_trans [OF extends_grows [OF ext] g] that(2)] by simp
          ultimately show ?thesis using run3 mp by (auto simp: loads_page_def)
        qed
      qed
    qed
  qed
qed

section \<open>The loader's loops\<close>

definition loader_ok :: "vm \<Rightarrow> u64 \<Rightarrow> vm \<Rightarrow> ('a, memory_error) outcome \<times> vm \<Rightarrow> ('a \<Rightarrow> vm \<Rightarrow> bool) \<Rightarrow> bool" where
  "loader_ok base root st r Q \<longleftrightarrow>
     (case r of
        (Ok a, st') \<Rightarrow> accounts True st st' \<and> Q a st'
      | (Err _, st') \<Rightarrow> loader_safe base root st' \<and> consumes True st st'
      | (Panic, _) \<Rightarrow> False)"

lemma loader_ok_bind:
  assumes "loader_ok base root st (f st) Q" and "\<And>a st'. Q a st' \<Longrightarrow> loader_ok base root st' (g a st') R"
  shows "loader_ok base root st (bind_st f g st) R"
proof -
  obtain r st' where f: "f st = (r, st')" by (cases "f st")
  show ?thesis
  proof (cases r)
    case (Ok a)
    with assms(1) f have a: "accounts True st st'" "Q a st'" by (simp_all add: loader_ok_def)
    obtain r2 st2 where g: "g a st' = (r2, st2)" by (cases "g a st'")
    show ?thesis
      using assms(2) [OF a(2)] accounts_trans [OF a(1)] consumes_trans [OF accounts_consumes [OF a(1)]] f Ok g
      by (cases r2) (simp_all add: loader_ok_def bind_st_def)
  qed (use assms(1) f in \<open>simp_all add: loader_ok_def bind_st_def\<close>)
qed

lemma loader_ok_return: "Q a st \<Longrightarrow> loader_ok base root st (Ok a, st) Q"
  by (simp add: loader_ok_def accounts_same)

lemma loader_ok_error: "loader_safe base root st \<Longrightarrow> loader_ok base root st (Err e, st) Q"
  by (simp add: loader_ok_def consumes_same)

lemma loader_ok_mono:
  assumes "loader_ok base root st r Q" "\<And>a st'. Q a st' \<Longrightarrow> R a st'"
  shows "loader_ok base root st r R"
  using assms by (auto simp: loader_ok_def split: prod.splits outcome.splits)

abbreviation pages_below :: "nat \<Rightarrow> user_page_map \<Rightarrow> bool" where
  "pages_below n pages \<equiv> (\<forall>page \<in> mapped pages. unat (up_virt_page page) < n)"

lemma load_user_page_ok:
  assumes "loader_inv ms base root pages st" "ab_root_paddr b = root" "ab_tracks_owned b"
    "in_user_range (unat virt)" "4096 dvd unat virt" "\<not> contains_user_page pages virt"
    "unat flags < 4096" "flags AND PAGE_PRESENT \<noteq> 0" "flags AND PAGE_USER \<noteq> 0"
    "pages_below n pages" "unat virt < n"
  shows "loader_ok base root st (load_user_page b virt flags pages st) (\<lambda>pages' st'. loader_inv ms base root pages' st' \<and> pages_below n pages')"
  using load_user_page_spec [OF assms(1-9)] assms(10,11)
  by (auto simp: loads_page_def loader_ok_def split: prod.splits outcome.splits)

lemma of_nat_user:
  assumes "in_user_range n" "4096 dvd n"
  shows "in_user_range (unat (of_nat n :: u64))" "4096 dvd unat (of_nat n :: u64)" "unat (of_nat n :: u64) = n"
proof -
  show u: "unat (of_nat n :: u64) = n"
    using user_range_48 [OF assms(1)] by (rule unat_of_nat48)
  show "in_user_range (unat (of_nat n :: u64))" "4096 dvd unat (of_nat n :: u64)" using assms by (simp_all only: u)
qed

lemma load_segment_pages_ok:
  assumes "loader_inv ms base root pages st" "ab_root_paddr b = root" "ab_tracks_owned b"
    "unat flags < 4096" "flags AND PAGE_PRESENT \<noteq> 0" "flags AND PAGE_USER \<noteq> 0"
    "4096 dvd virt" "unat USER_IMAGE_BASE \<le> virt" "page_end \<le> n" "n \<le> unat USER_STACK_TOP" "pages_below n pages"
  shows "loader_ok base root st (load_segment_pages b flags virt page_end pages st)
    (\<lambda>pages' st'. loader_inv ms base root pages' st' \<and> pages_below n pages')"
  using assms
proof (induction "page_end - virt" arbitrary: virt pages st rule: less_induct)
  case less
  show ?case
  proof (cases "virt < page_end")
    case False
    then show ?thesis
      using less.prems by (subst load_segment_pages.simps) (auto intro: loader_ok_return)
  next
    case True
    then have r: "in_user_range virt" using less.prems by (simp add: in_user_range_def)
    note u = of_nat_user [OF r less.prems(7)]
    have step: "4096 dvd virt + 4096" "unat USER_IMAGE_BASE \<le> virt + 4096" "page_end - (virt + 4096) < page_end - virt"
      using less.prems(7,8) True by simp_all
    show ?thesis
    proof (cases "contains_user_page pages (of_nat virt)")
      case c: True
      with True less.hyps [OF step(3) less.prems(1-6) step(1,2) less.prems(9-11)] show ?thesis
        by (subst load_segment_pages.simps) simp
    next
      case nc: False
      have "loader_ok base root st (bind_st (load_user_page b (of_nat virt) flags pages)
                  (load_segment_pages b flags (virt + 4096) page_end) st)
        (\<lambda>pages' st'. loader_inv ms base root pages' st' \<and> pages_below n pages')"
      proof (rule loader_ok_bind)
        show "loader_ok base root st (load_user_page b (of_nat virt) flags pages st)
          (\<lambda>pages' st'. loader_inv ms base root pages' st' \<and> pages_below n pages')"
          using u(3) True less.prems(9)
          by (intro load_user_page_ok [OF less.prems(1-3) u(1,2) nc less.prems(4-6,11)]) simp
      next
        fix pages' st' assume "loader_inv ms base root pages' st' \<and> pages_below n pages'"
        then show "loader_ok base root st' (load_segment_pages b flags (virt + 4096) page_end pages' st')
          (\<lambda>pages' st'. loader_inv ms base root pages' st' \<and> pages_below n pages')"
          using less.hyps [OF step(3) _ less.prems(2-6) step(1,2) less.prems(9,10)] by blast
      qed
      with True nc show ?thesis by (subst load_segment_pages.simps) simp
    qed
  qed
qed

lemma load_stack_pages_ok:
  assumes "loader_inv ms base root pages st" "ab_root_paddr b = root" "ab_tracks_owned b"
    "4096 dvd virt" "unat USER_IMAGE_BASE \<le> virt" "page_end \<le> unat USER_STACK_TOP" "pages_below virt pages"
  shows "loader_ok base root st (load_stack_pages b virt page_end pages st) (\<lambda>pages' st'. loader_inv ms base root pages' st')"
  using assms
proof (induction "page_end - virt" arbitrary: virt pages st rule: less_induct)
  case less
  show ?case
  proof (cases "virt < page_end")
    case False
    then show ?thesis
      using less.prems by (subst load_stack_pages.simps) (auto intro: loader_ok_return)
  next
    case True
    then have r: "in_user_range virt" using less.prems by (simp add: in_user_range_def)
    note u = of_nat_user [OF r less.prems(4)]
    have step: "4096 dvd virt + 4096" "unat USER_IMAGE_BASE \<le> virt + 4096" "page_end - (virt + 4096) < page_end - virt"
      using less.prems(4,5) True by simp_all
    let ?f = "PAGE_PRESENT OR PAGE_WRITABLE OR PAGE_USER"
    have f: "unat ?f < 4096" "?f AND PAGE_PRESENT \<noteq> 0" "?f AND PAGE_USER \<noteq> 0"
      by (simp_all add: PAGE_PRESENT_def PAGE_WRITABLE_def PAGE_USER_def)
    have nc: "\<not> contains_user_page pages (of_nat virt)"
      using less.prems(7) u(3) find_user_page_None [of pages "of_nat virt"] by (auto simp: contains_user_page_def)
    have below: "pages_below (virt + 4096) pages" using less.prems(7) by auto
    have "loader_ok base root st (bind_st (load_user_page b (of_nat virt) ?f pages)
                (load_stack_pages b (virt + 4096) page_end) st) (\<lambda>pages' st'. loader_inv ms base root pages' st')"
    proof (rule loader_ok_bind)
      show "loader_ok base root st (load_user_page b (of_nat virt) ?f pages st)
        (\<lambda>pages' st'. loader_inv ms base root pages' st' \<and> pages_below (virt + 4096) pages')"
        using u(3) by (intro load_user_page_ok [OF less.prems(1-3) u(1,2) nc f below]) simp
    next
      fix pages' st' assume "loader_inv ms base root pages' st' \<and> pages_below (virt + 4096) pages'"
      then show "loader_ok base root st' (load_stack_pages b (virt + 4096) page_end pages' st')
        (\<lambda>pages' st'. loader_inv ms base root pages' st')"
        using less.hyps [OF step(3) _ less.prems(2,3) step(1,2) less.prems(6)] by blast
    qed
    with True show ?thesis by (subst load_stack_pages.simps) simp
  qed
qed

section \<open>Copying into the pages\<close>

lemma loader_inv_write:
  assumes inv: "loader_inv ms base root pages st" and p: "page \<in> mapped pages"
    and out: "\<And>x. x \<notin> block (up_phys_page page) PAGE_SIZE \<Longrightarrow> m' x = vm_memory st x"
  shows "loader_inv ms base root pages (st\<lparr>vm_memory := m'\<rparr>)"
proof -
  note I = loader_invD [OF inv]
  have "m' x = vm_memory st x" if "x \<in> table_bytes (vm_memory st) root" for x
    using I(3) [OF p] that by (intro out) (auto simp: page_placed_def)
  note O = outside_tables [OF I(1) this]
  have "supervisor_rest ms root pages m'" using I(2) O(3,4) by (auto simp: supervisor_rest_def upper_clear_def)
  moreover have "page_placed root (st\<lparr>vm_memory := m'\<rparr>) q" if "q \<in> mapped pages" for q
    using I(3) [OF that] O(4,5) by (simp add: page_placed_def page_grants_def)
  moreover have "loader_safe base root (st\<lparr>vm_memory := m'\<rparr>)"
    using O(1,5) I(5) I(6) [OF p] out by (auto simp: loader_safe_def) (metis subsetD)
  ultimately show ?thesis using I(4,6) by (auto simp: loader_inv_def)
qed

lemma write_in_page:
  assumes "frame_ok p" "unat off + length bs \<le> 4096" "x \<notin> block p PAGE_SIZE"
  shows "write_mem m (p + off) bs x = m x"
proof -
  have tp: "unat (p + PAGE_SIZE) = unat p + 4096"
    using assms(1) unat_add_lem [of p PAGE_SIZE] by (simp add: frame_ok_def PAGE_SIZE_def)
  have u: "unat (p + off) = unat p + unat off"
    using assms(1,2) unat_add_lem [of p off] by (simp add: frame_ok_def)
  have "\<not> unat (x - (p + off)) < length bs"
  proof (cases "p + off \<le> x")
    case True
    then have "unat p \<le> unat x" using u by (simp add: word_le_nat_alt)
    then have "unat p + 4096 \<le> unat x" using assms(3) tp by (auto simp: block_def word_le_nat_alt word_less_nat_alt)
    then show ?thesis using True u assms(2) by (simp add: unat_sub)
  next
    case False
    then have "unat (x - (p + off)) = unat x + 2 ^ 64 - unat (p + off)" by (simp add: unat_sub_if' word_le_nat_alt)
    then show ?thesis using u assms(1,2) by (simp add: frame_ok_def) linarith
  qed
  then show ?thesis by (simp add: write_mem_def)
qed

lemma loader_ok_run: "loader_ok base root st r P \<Longrightarrow> loader_ok base root st r (\<lambda>x st'. P x st' \<and> r = (Ok x, st'))"
  by (auto simp: loader_ok_def split: prod.splits outcome.splits)

lemma copy_into_ok:
  assumes "loader_inv ms base root pages st"
  shows "loader_ok base root st (copy_into pages address bs st) (\<lambda>_ st'. loader_inv ms base root pages st')"
  using assms
proof (induction pages address bs st rule: copy_into.induct)
  case (1 pages address remaining st)
  show ?case
  proof (cases "remaining = []")
    case True
    then show ?thesis using "1.prems" by (subst copy_into.simps) (auto intro: loader_ok_return)
  next
    case ne: False
    let ?v = "align_down address PAGE_SIZE"
    show ?thesis
    proof (cases "find_user_page pages ?v")
      case None
      then show ?thesis
        using ne loader_invD(5) [OF "1.prems"] by (subst copy_into.simps) (auto intro: loader_ok_error)
    next
      case (Some page)
      let ?off = "address - ?v" let ?len = "min (length remaining) (4096 - unat ?off)"
      let ?m' = "write_mem (vm_memory st) (up_phys_page page + ?off) (take ?len remaining)"
      have pg: "page \<in> mapped pages" using find_user_page_Some [OF Some] by simp
      have fr: "frame_ok (up_phys_page page)" using loader_invD(3) [OF "1.prems" pg] by (simp add: page_placed_def)
      have "loader_inv ms base root pages (st\<lparr>vm_memory := ?m'\<rparr>)"
        using page_offset_bound [of address] by (intro loader_inv_write [OF "1.prems" pg] write_in_page [OF fr]) simp_all
      from "1.IH" [OF ne refl Some refl refl this]
      have "loader_ok base root (st\<lparr>vm_memory := ?m'\<rparr>)
          (copy_into pages (address + of_nat ?len) (drop ?len remaining) (st\<lparr>vm_memory := ?m'\<rparr>))
          (\<lambda>_ st'. loader_inv ms base root pages st')" .
      then show ?thesis
        using ne Some
        by (subst copy_into.simps)
          (auto simp: loader_ok_def Let_def accounts_def consumes_def split: prod.splits outcome.splits)
    qed
  qed
qed

lemma write_strings_ok:
  assumes "loader_inv ms base root pages st"
  shows "loader_ok base root st (write_strings pages args cursor st) (\<lambda>_ st'. loader_inv ms base root pages st')"
  using assms
proof (induction args arbitrary: cursor st)
  case Nil
  then show ?case by (auto intro: loader_ok_return)
next
  case (Cons arg args)
  show ?case
    unfolding write_strings.simps
    by (rule loader_ok_bind, rule copy_into_ok [OF Cons.prems], rule loader_ok_bind, rule copy_into_ok, assumption,
        rule loader_ok_bind, rule Cons.IH, assumption, rule loader_ok_return)
qed

lemma write_startup_arguments_ok:
  assumes inv: "loader_inv ms base root pages st"
  shows "loader_ok base root st (write_startup_arguments pages startup st) (\<lambda>_ st'. loader_inv ms base root pages st')"
proof (cases "prepare_startup_layout startup")
  case (Ok l)
  have "loader_ok base root st (bind_st (write_strings pages (take (sl_argc l) (sl_args l)) (sl_strings_start l)) (\<lambda>pointers.
          bind_st (copy_into pages (sl_stack_start l) (to_le_bytes 8 (of_nat (sl_argc l) :: u64))) (\<lambda>_.
          bind_st (copy_into pages (sl_stack_start l + 8) (concat (map (to_le_bytes 8) (pointers @ [0])))) (\<lambda>_ s.
            (Ok (sl_stack_start l), s)))) st) (\<lambda>_ st'. loader_inv ms base root pages st')"
    by (rule loader_ok_bind, rule write_strings_ok [OF inv], rule loader_ok_bind, rule copy_into_ok, assumption,
        rule loader_ok_bind, rule copy_into_ok, assumption, rule loader_ok_return)
  with Ok prepare_startup_layout_argc [OF Ok] show ?thesis by (simp add: write_startup_arguments_def)
next
  case (Err e)
  then show ?thesis using loader_invD(5) [OF inv] by (auto simp: write_startup_arguments_def intro: loader_ok_error)
next
  case Panic
  then show ?thesis using prepare_startup_layout_total by blast
qed

section \<open>The whole load\<close>

lemma segment_flags_bits: "unat (segment_flags h) < 4096" "segment_flags h AND PAGE_PRESENT \<noteq> 0" "segment_flags h AND PAGE_USER \<noteq> 0"
  by (auto simp: segment_flags_def PAGE_PRESENT_def PAGE_USER_def PAGE_WRITABLE_def)

lemma load_segment_ok:
  assumes inv: "loader_inv ms base root pages st" and b: "ab_root_paddr b = root" "ab_tracks_owned b"
    and below: "pages_below (unat user_stack_base) pages"
  shows "loader_ok base root st (load_segment b bytes header pages st)
    (\<lambda>pages' st'. loader_inv ms base root pages' st' \<and> pages_below (unat user_stack_base) pages')"
proof (cases "checked_add (ph_virtual_address header) (ph_memory_size header)")
  case None
  then show ?thesis using loader_invD(5) [OF inv] by (auto simp: load_segment_def intro: loader_ok_error)
next
  case (Some e)
  let ?s = "ph_virtual_address header"
  show ?thesis
  proof (cases "?s < USER_IMAGE_BASE \<or> user_stack_base < e \<or> ph_memory_size header < ph_file_size header")
    case True
    then show ?thesis using loader_invD(5) [OF inv] unfolding load_segment_def Some by (auto simp: Let_def intro: loader_ok_error)
  next
    case False
    then have r: "USER_IMAGE_BASE \<le> ?s" "e \<le> user_stack_base" by (simp_all add: not_less)
    have base: "unat user_stack_base = 0x7f0000"
      by (simp add: user_stack_base_def USER_STACK_TOP_def USER_STACK_PAGES_def PAGE_SIZE_def)
    have e: "unat e \<le> 0x7f0000" using r(2) base by (simp add: word_le_nat_alt)
    have "unat (align_up e PAGE_SIZE) = (unat e + 4095) div 4096 * 4096"
      using e by (simp add: PAGE_SIZE_def unat_align_page)
    moreover have "(unat e + 4095) div 4096 \<le> 0x7f0" using e by simp
    ultimately have up: "unat (align_up e PAGE_SIZE) \<le> unat user_stack_base"
      using base by simp
    have "unat ?s div 4096 \<ge> 0x400" using r(1) by (simp add: word_le_nat_alt USER_IMAGE_BASE_def)
    then have dn: "unat USER_IMAGE_BASE \<le> unat (align_down ?s PAGE_SIZE)" "4096 dvd unat (align_down ?s PAGE_SIZE)"
      by (simp_all add: PAGE_SIZE_def unat_align_page USER_IMAGE_BASE_def)
    have top: "unat user_stack_base \<le> unat USER_STACK_TOP" using base by (simp add: USER_STACK_TOP_def)
    have fr: "(case map_err Elf (file_range header (length bytes)) of
                   Err e \<Rightarrow> (Err e, s)
                 | Panic \<Rightarrow> (Panic, s)
                 | Ok (a, b) \<Rightarrow>
                     (case slice bytes (unat a) (unat b) of
                        Ok contents \<Rightarrow> bind_st (copy_into pages' ?s contents) (\<lambda>_ s'. (Ok pages', s')) s
                      | Err e \<Rightarrow> (Err e, s) | Panic \<Rightarrow> (Panic, s))) =
          (case file_range header (length bytes) of
             Ok (a, b) \<Rightarrow> bind_st (copy_into pages' ?s (take (unat b - unat a) (drop (unat a) bytes))) (\<lambda>_ s'. (Ok pages', s')) s
           | Err e \<Rightarrow> (Err (Elf e), s) | Panic \<Rightarrow> (Panic, s)) \<and> file_range header (length bytes) \<noteq> Panic" for pages' s
      by (auto simp: file_range_def ok_or_def unat_plus_noof split: outcome.splits option.splits if_splits)
    have "loader_ok base root st (bind_st (load_segment_pages b (segment_flags header)
                       (unat (align_down ?s PAGE_SIZE)) (unat (align_up e PAGE_SIZE)) pages)
              (\<lambda>pages' s. case file_range header (length bytes) of
             Ok (a, b) \<Rightarrow> bind_st (copy_into pages' ?s (take (unat b - unat a) (drop (unat a) bytes))) (\<lambda>_ s'. (Ok pages', s')) s
           | Err e \<Rightarrow> (Err (Elf e), s) | Panic \<Rightarrow> (Panic, s)) st)
       (\<lambda>pages' st'. loader_inv ms base root pages' st' \<and> pages_below (unat user_stack_base) pages')"
    proof (rule loader_ok_bind)
      show "loader_ok base root st (load_segment_pages b (segment_flags header)
                       (unat (align_down ?s PAGE_SIZE)) (unat (align_up e PAGE_SIZE)) pages st)
        (\<lambda>pages' st'. loader_inv ms base root pages' st' \<and> pages_below (unat user_stack_base) pages')"
        by (rule load_segment_pages_ok [OF inv b segment_flags_bits dn(2,1) up top below])
    next
      fix pages' s assume P: "loader_inv ms base root pages' s \<and> pages_below (unat user_stack_base) pages'"
      have "loader_ok base root s (bind_st (copy_into pages' ?s bs) (\<lambda>_ s'. (Ok pages', s')) s)
          (\<lambda>pages' st'. loader_inv ms base root pages' st' \<and> pages_below (unat user_stack_base) pages')" for bs
        by (rule loader_ok_bind, rule copy_into_ok [of ms], use P in blast, rule loader_ok_return, use P in blast)
      then show "loader_ok base root s (case file_range header (length bytes) of
             Ok (a, b) \<Rightarrow> bind_st (copy_into pages' ?s (take (unat b - unat a) (drop (unat a) bytes))) (\<lambda>_ s'. (Ok pages', s')) s
           | Err e \<Rightarrow> (Err (Elf e), s) | Panic \<Rightarrow> (Panic, s))
          (\<lambda>pages' st'. loader_inv ms base root pages' st' \<and> pages_below (unat user_stack_base) pages')"
        using fr [of pages' s] P loader_invD(5) by (auto intro: loader_ok_error split: outcome.splits)
    qed
    then show ?thesis using False fr unfolding load_segment_def Some by (simp add: Let_def)
  qed
qed

lemma load_segments_ok:
  assumes "loader_inv ms base root pages st" "ab_root_paddr b = root" "ab_tracks_owned b"
    "pages_below (unat user_stack_base) pages" "Panic \<notin> set items"
  shows "loader_ok base root st (load_segments b bytes items pages st)
    (\<lambda>pages' st'. loader_inv ms base root pages' st' \<and> pages_below (unat user_stack_base) pages')"
  using assms
proof (induction items arbitrary: pages st)
  case Nil
  then show ?case by (auto intro: loader_ok_return)
next
  case (Cons item items)
  show ?case
  proof (cases item)
    case (Ok h)
    have "loader_ok base root st (bind_st (load_segment b bytes h pages) (load_segments b bytes items) st)
      (\<lambda>pages' st'. loader_inv ms base root pages' st' \<and> pages_below (unat user_stack_base) pages')"
      by (rule loader_ok_bind, rule load_segment_ok [OF Cons.prems(1-4)]) (use Cons.IH Cons.prems in auto)
    with Ok Cons show ?thesis by simp
  next
    case (Err e)
    then show ?thesis using loader_invD(5) [OF Cons.prems(1)] by (auto intro: loader_ok_error)
  next
    case Panic
    with Cons.prems(5) show ?thesis by simp
  qed
qed

text \<open>The root table: a fresh zeroed frame, recorded as the first owned page.\<close>

lemma fresh_root_ok:
  assumes a: "alloc_inv (vm_alloc st)" "frames_ok (vm_alloc st)" and o: "vm_owned st = owned_pages_empty"
    and c: "frame_ok c" "block c PAGE_SIZE \<subseteq> free_set (vm_alloc st)" "c \<noteq> 0"
    and pa: "alloc_inv pa" "frames_ok pa" "free_set pa = free_set (vm_alloc st) - block c PAGE_SIZE"
    and op: "owned_pages_wf op" "owned_list op = [c]"
  defines "st2 \<equiv> \<lparr>vm_memory = fill_bytes (vm_memory st) c 0 4096, vm_alloc = pa, vm_owned = op\<rparr>"
  shows "loader_safe st c st2" "fresh_root (vm_memory st2) c" "accounts True st st2"
proof -
  let ?m = "fill_bytes (vm_memory st) c 0 4096"
  have b: "unat c + 4096 < 2 ^ 64" using c(1) by (simp add: frame_ok_def)
  show f: "fresh_root (vm_memory st2) c"
    using page_entry_fill_same [OF c(1)] by (simp add: fresh_root_def st2_def)
  have t: "table_at ?m c p = Some t \<longleftrightarrow> p = [] \<and> t = c" if "good_path p" for p t
    using fresh_root_tables [OF f that] by (simp add: st2_def)
  have "space_inv ?m c (free_set pa)" using t c(1) pa(3) by (auto simp: space_inv_def)
  then have "vm_inv c st2" using pa op(1) by (simp add: vm_inv_def st2_def)
  moreover have "table_bytes ?m c \<subseteq> free_set (vm_alloc st)" using t c(2) by (auto simp: table_bytes_def)
  moreover have "?m x = vm_memory st x" if "x \<notin> free_set (vm_alloc st)" for x
    using that c(2) by (intro frames.zeroed_block(2) [OF b]) auto
  ultimately show "loader_safe st c st2" using pa(3) by (auto simp: loader_safe_def st2_def)
  show "accounts True st st2" using o op(2) c pa(3) by (auto simp: accounts_def st2_def)
qed

lemma program_items_total: "elf_parse bytes = Ok elf \<Longrightarrow> Panic \<notin> set (program_header_items (elf_program_headers elf))"
  by (auto simp: elf_program_headers_items dest!: sym [of Panic] simp: program_header_parse_total)

lemma context_ok:
  assumes l: "layout_ok ms" and b: "ab_root_paddr b = root" "ab_tracks_owned b"
    and s: "loader_safe base root st" "fresh_root (vm_memory st) root"
  shows "loader_ok base root st (map_shared_kernel_context ms b st) (\<lambda>_ st'. loader_inv ms base root user_page_map_new st')"
proof -
  have v: "vm_inv root st" using s(1) by (simp add: loader_safe_def)
  show ?thesis
  proof (cases "map_shared_kernel_context ms b st")
    case (Pair r st')
    show ?thesis
    proof (cases r)
      case (Ok u)
      with shared_context_spec [OF l b(1) v s(2)] Pair b(2)
      have k: "grows root st st'" "kernel_context ms (vm_memory st') root" "accounts True st st'"
        by (simp_all add: keeps_context_def)
      with loader_safe_grows [OF s(1) k(1)] kernel_context_rest [OF k(2)] Pair Ok show ?thesis
        by (simp add: loader_ok_def loader_inv_def)
    next
      case (Err e)
      with shared_context_spec [OF l b(1) v s(2)] Pair b(2) have "grows root st st'" "consumes True st st'"
        by (simp_all add: keeps_context_def)
      then show ?thesis using Pair Err loader_safe_grows [OF s(1)] by (simp add: loader_ok_def)
    next
      case Panic
      with shared_context_spec [OF l b(1) v s(2)] Pair show ?thesis by (simp add: keeps_context_def)
    qed
  qed
qed

text \<open>The last step of a load: the arguments written to the pages of a finished address space.\<close>

definition startup_written :: "memory_state \<Rightarrow> vm \<Rightarrow> program_startup \<Rightarrow> u64 \<Rightarrow> u64 \<Rightarrow> vm \<Rightarrow> bool" where
  "startup_written ms base startup root sp st' \<longleftrightarrow>
     (\<exists>pages st. loader_inv ms base root pages st \<and> loader_inv ms base root pages st' \<and>
        write_startup_arguments pages startup st = (Ok sp, st'))"

lemma load_rest_ok:
  assumes inv: "loader_inv ms base root user_page_map_new st" and b: "ab_root_paddr b = root" "ab_tracks_owned b"
    and items: "Panic \<notin> set items"
  shows "loader_ok base root st
    (bind_st (load_segments b bytes items user_page_map_new) (\<lambda>pages.
     bind_st (load_stack_pages b (unat user_stack_base) (unat USER_STACK_TOP) pages) (\<lambda>pages.
     bind_st (write_startup_arguments pages startup) (\<lambda>user_stack_top s. (Ok (root, user_stack_top), s)))) st)
    (\<lambda>r st'. fst r = root \<and> startup_written ms base startup root (snd r) st')"
proof (rule loader_ok_bind)
  show "loader_ok base root st (load_segments b bytes items user_page_map_new st)
    (\<lambda>pages' st'. loader_inv ms base root pages' st' \<and> pages_below (unat user_stack_base) pages')"
    by (rule load_segments_ok [OF inv b _ items]) simp
next
  fix pages st' assume P: "loader_inv ms base root pages st' \<and> pages_below (unat user_stack_base) pages"
  have base: "4096 dvd unat user_stack_base" "unat USER_IMAGE_BASE \<le> unat user_stack_base"
    by (simp_all add: user_stack_base_def USER_STACK_TOP_def USER_STACK_PAGES_def PAGE_SIZE_def USER_IMAGE_BASE_def)
  show "loader_ok base root st' (bind_st (load_stack_pages b (unat user_stack_base) (unat USER_STACK_TOP) pages) (\<lambda>pages.
     bind_st (write_startup_arguments pages startup) (\<lambda>user_stack_top s. (Ok (root, user_stack_top), s))) st')
    (\<lambda>r st'. fst r = root \<and> startup_written ms base startup root (snd r) st')"
    by (rule loader_ok_bind, rule load_stack_pages_ok [OF conjunct1 [OF P] b base order_refl conjunct2 [OF P]],
        rule loader_ok_bind, rule loader_ok_run, rule write_startup_arguments_ok, assumption, rule loader_ok_return,
        auto simp: startup_written_def)
qed

text \<open>What one run of the loader's closure leaves behind.\<close>

definition body_result ::
  "memory_state \<Rightarrow> vm \<Rightarrow> program_startup \<Rightarrow> (u64 \<times> u64, memory_error) outcome \<times> vm \<Rightarrow> bool" where
  "body_result ms st startup r \<longleftrightarrow>
     (case r of
        (Ok (root, sp), st') \<Rightarrow> startup_written ms st startup root sp st' \<and> accounts True st st'
      | (Err _, st') \<Rightarrow> consumes True st st' \<and> alloc_inv (vm_alloc st') \<and> frames_ok (vm_alloc st') \<and>
          owned_pages_wf (vm_owned st') \<and> (\<forall>x. x \<notin> free_set (vm_alloc st) \<longrightarrow> vm_memory st' x = vm_memory st x)
      | (Panic, _) \<Rightarrow> False)"

lemma load_program_body_ok:
  assumes l: "layout_ok ms" and a: "alloc_inv (vm_alloc st)" "frames_ok (vm_alloc st)"
    and o: "vm_owned st = owned_pages_empty" and elf: "elf_parse bytes = Ok elf"
  shows "body_result ms st startup (load_program_body ms elf bytes startup st)"
proof (rule alloc_frame_cases [OF a, of "vm_memory st"], goal_cases page exhausted)
  case exhausted
  then show ?case
    using a o by (simp add: body_result_def load_program_body_def bind_st_def vm_allocate_page_def consumes_same)
next
  case (page c pa)
  let ?m = "fill_bytes (vm_memory st) c 0 4096"
  obtain op where push: "owned_pages_push c owned_pages_empty = Ok op"
    by (simp add: owned_pages_push_def owned_pages_empty_def MAX_OWNED_PAGES_def)
  then have op: "owned_pages_wf op" "owned_list op = [c]" using owned_pages_push_wf [of owned_pages_empty c op] by simp_all
  let ?st2 = "\<lparr>vm_memory = ?m, vm_alloc = pa, vm_owned = op\<rparr>" and ?b = "\<lparr>ab_root_paddr = c, ab_tracks_owned = True\<rparr>"
  note F = fresh_root_ok [OF a o page(4,5,7,2,3,6) op]
  let ?k = "bind_st (map_shared_kernel_context ms ?b) (\<lambda>_.
     bind_st (load_segments ?b bytes (program_header_items (elf_program_headers elf)) user_page_map_new) (\<lambda>pages.
     bind_st (load_stack_pages ?b (unat user_stack_base) (unat USER_STACK_TOP) pages) (\<lambda>pages.
     bind_st (write_startup_arguments pages startup) (\<lambda>user_stack_top s. (Ok (c, user_stack_top), s)))))"
  have run: "load_program_body ms elf bytes startup st = ?k ?st2"
    using page(1) push o by (cases st) (simp add: load_program_body_def bind_st_def vm_allocate_page_def vm_push_owned_def Let_def)
  have k: "loader_ok st c ?st2 (?k ?st2) (\<lambda>r st'. fst r = c \<and> startup_written ms st startup c (snd r) st')"
    by (rule loader_ok_bind, rule context_ok [OF l _ _ F(1,2)], simp, simp,
        rule load_rest_ok [OF _ _ _ program_items_total [OF elf]]) simp_all
  show ?case
    unfolding run body_result_def
    using k accounts_trans [OF F(3)] consumes_trans [OF accounts_consumes [OF F(3)]]
    by (auto simp: loader_ok_def loader_safe_def vm_inv_def split: prod.splits outcome.splits)
qed

section \<open>Properties\<close>

text \<open>What user mode can reach in a loaded program: only pages of the user range, each backed by a frame
  the program owns, no two pages by the same frame, and none of those frames holding a page table
  or free memory.\<close>

definition user_entry :: "memory \<Rightarrow> u64 \<Rightarrow> u64 \<Rightarrow> u64 \<Rightarrow> bool" where
  "user_entry m root w e \<longleftrightarrow> unat w < 2 ^ 48 \<and> leaf m root w = Some e \<and> e AND PAGE_USER \<noteq> 0"

definition user_confined :: "memory \<Rightarrow> u64 \<Rightarrow> u64 set \<Rightarrow> u64 list \<Rightarrow> bool" where
  "user_confined m root free owned \<longleftrightarrow>
     (\<forall>w e. user_entry m root w e \<longrightarrow> in_user_range (unat w) \<and> e AND ADDRESS_MASK \<in> set owned \<and>
        block (e AND ADDRESS_MASK) PAGE_SIZE \<inter> (free \<union> table_bytes m root) = {}) \<and>
     (\<forall>v w d e. user_entry m root v d \<and> user_entry m root w e \<and> d AND ADDRESS_MASK = e AND ADDRESS_MASK \<longrightarrow> same_page v w)"

lemma loader_inv_entry:
  assumes inv: "loader_inv ms base root pages st" and e: "user_entry (vm_memory st) root w e"
  obtains page where "page \<in> mapped pages" "same_page (up_virt_page page) w" "in_user_range (unat w)"
    "e AND ADDRESS_MASK = up_phys_page page" "page_placed root st page"
proof -
  have w: "unat w < 2 ^ 48" "leaf (vm_memory st) root w = Some e" "e AND PAGE_USER \<noteq> 0"
    using e by (simp_all add: user_entry_def)
  then obtain page where p: "page \<in> mapped pages" "same_page (up_virt_page page) w"
    using loader_invD(2) [OF inv] by (auto simp: supervisor_rest_def)
  note pl = loader_invD(3) [OF inv p(1)]
  have "in_user_range (unat w)" using pl user_range_page [OF _ p(2) w(1)] by (simp add: page_placed_def)
  moreover have "e AND ADDRESS_MASK = up_phys_page page"
    using pl leaf_same_page [OF p(2)] w(2) by (simp add: page_placed_def page_grants_def)
  ultimately show ?thesis using that p pl by blast
qed

lemma loader_inv_confined:
  assumes inv: "loader_inv ms base root pages st"
  shows "user_confined (vm_memory st) root (free_set (vm_alloc st)) (owned_list (vm_owned st))"
proof -
  have "in_user_range (unat w) \<and> e AND ADDRESS_MASK \<in> set (owned_list (vm_owned st)) \<and>
      block (e AND ADDRESS_MASK) PAGE_SIZE \<inter> (free_set (vm_alloc st) \<union> table_bytes (vm_memory st) root) = {}"
    if "user_entry (vm_memory st) root w e" for w e
    by (rule loader_inv_entry [OF inv that]) (simp add: page_placed_def Int_Un_distrib)
  moreover have "same_page v w" if vw: "user_entry (vm_memory st) root v d" "user_entry (vm_memory st) root w e"
      "d AND ADDRESS_MASK = e AND ADDRESS_MASK" for v w d e
  proof -
    obtain p where p: "p \<in> mapped pages" "same_page (up_virt_page p) v" "d AND ADDRESS_MASK = up_phys_page p"
      by (rule loader_inv_entry [OF inv vw(1)])
    obtain q where q: "q \<in> mapped pages" "same_page (up_virt_page q) w" "e AND ADDRESS_MASK = up_phys_page q"
      by (rule loader_inv_entry [OF inv vw(2)])
    have "p = q" using loader_invD(4) [OF inv p(1) q(1)] p(3) q(3) vw(3) by simp
    with p(2) q(2) show ?thesis by (simp add: same_page_def)
  qed
  ultimately show ?thesis unfolding user_confined_def by blast
qed

lemma load_user_program_cases:
  assumes l: "layout_ok ms" and a: "alloc_inv (vm_alloc st)" "frames_ok (vm_alloc st)"
  shows "case load_user_program ms bytes startup st of
      (Ok prog, st') \<Rightarrow> \<exists>elf pages st1.
         elf_parse bytes = Ok elf \<and> lp_entry_point prog = elf_entry_point elf \<and> contains_user_address (lp_entry_point prog) \<and>
         loader_inv ms (st\<lparr>vm_owned := owned_pages_empty\<rparr>) (as_root_paddr (lp_address_space prog)) pages st1 \<and>
         startup_written ms (st\<lparr>vm_owned := owned_pages_empty\<rparr>) startup (as_root_paddr (lp_address_space prog)) (lp_user_stack_top prog) st1 \<and>
         accounts True (st\<lparr>vm_owned := owned_pages_empty\<rparr>) st1 \<and>
         st' = st1\<lparr>vm_owned := owned_pages_empty\<rparr> \<and> lp_owned_pages prog = vm_owned st1
    | (Err _, st') \<Rightarrow> alloc_inv (vm_alloc st') \<and> frames_ok (vm_alloc st') \<and> free_set (vm_alloc st') \<subseteq> free_set (vm_alloc st) \<and>
         (\<forall>x. x \<notin> free_set (vm_alloc st) \<longrightarrow> vm_memory st' x = vm_memory st x)
    | (Panic, st') \<Rightarrow> \<forall>x. x \<notin> free_set (vm_alloc st) \<longrightarrow> vm_memory st' x = vm_memory st x"
proof (cases "elf_parse bytes")
  case (Ok elf)
  let ?st = "st\<lparr>vm_owned := owned_pages_empty\<rparr>"
  have b: "body_result ms ?st startup (load_program_body ms elf bytes startup ?st)"
    using a by (intro load_program_body_ok [OF l _ _ _ Ok]) simp_all
  obtain r st1 where run: "load_program_body ms elf bytes startup ?st = (r, st1)" by fastforce
  show ?thesis
  proof (cases r)
    case ok: (Ok p)
    obtain root sp where p: "p = (root, sp)" by (cases p)
    with b run ok have w: "startup_written ms ?st startup root sp st1" "accounts True ?st st1" by (simp_all add: body_result_def)
    then obtain pages where "loader_inv ms ?st root pages st1" by (auto simp: startup_written_def)
    with w Ok run ok p a show ?thesis by (auto simp: load_user_program_def Let_def)
  next
    case (Err e)
    with b run have E: "alloc_inv (vm_alloc st1)" "frames_ok (vm_alloc st1)" "owned_pages_wf (vm_owned st1)"
      "\<forall>x. x \<notin> free_set (vm_alloc st) \<longrightarrow> vm_memory st1 x = vm_memory st x" "consumes True ?st st1" by (simp_all add: body_result_def)
    have n: "\<forall>c \<in> set (owned_list (vm_owned st1)). frame_ok c \<and> c \<noteq> 0"
      "free_set (vm_alloc st1) \<union> frame_bytes (owned_list (vm_owned st1)) \<subseteq> free_set (vm_alloc st)"
      using E(5) by (auto simp: consumes_def)
    show ?thesis
    proof (cases "contains_user_address (elf_entry_point elf)")
      case True
      show ?thesis
      proof (cases "owned_pages_release (vm_owned st1) (vm_alloc st1)")
        case pa: (Ok pa)
        with owned_pages_release_frames [OF E(1-3) n(1)] n(2)
        have "alloc_inv pa" "frames_ok pa" "free_set pa \<subseteq> free_set (vm_alloc st)" by simp_all
        with E(4) Ok run Err True pa show ?thesis by (simp add: load_user_program_def Let_def)
      qed (use E(4) Ok run Err True in \<open>simp_all add: load_user_program_def Let_def\<close>)
    qed (use Ok a in \<open>simp add: load_user_program_def Let_def\<close>)
  next
    case Panic
    with b run show ?thesis by (simp add: body_result_def)
  qed
qed (use a in \<open>simp_all add: load_user_program_def\<close>)



end
