(* ===== verification/User_Memory.thy ===== *)
theory User_Memory
  imports Loader_Isolation
begin

text \<open>
  User memory as the kernel reaches it in a system call: a user address is translated by the page
  tables of the current address space, which the kernel shares with the program it interrupts. An
  address without a translation faults, and a fault in kernel mode is a panic
  (\<^verbatim>\<open>rust_trap_entry\<close> in \<^verbatim>\<open>kernel/kernel/src/arch.rs\<close>). Supervisor writes honour the write bit of the entry
  only when the processor's write-protect flag is set; the kernel leaves the flag as firmware set it,
  so it is an argument.
\<close>

section \<open>Translation\<close>

definition page_offset :: "memory \<Rightarrow> u64 \<Rightarrow> u64 \<Rightarrow> u64" where
  "page_offset m root v =
     (case table_at m root [pml4_index v, pdpt_index v] of
        Some pd \<Rightarrow> if page_entry m pd (pd_index v) AND PAGE_HUGE \<noteq> 0 then v AND 0x1fffff else v AND 0xfff
      | None \<Rightarrow> 0)"

definition translate :: "memory \<Rightarrow> u64 \<Rightarrow> u64 \<Rightarrow> u64 option" where
  "translate m root v = map_option (\<lambda>e. (e AND ADDRESS_MASK) + page_offset m root v) (leaf m root v)"

definition translate_write :: "bool \<Rightarrow> memory \<Rightarrow> u64 \<Rightarrow> u64 \<Rightarrow> u64 option" where
  "translate_write wp m root v =
     (case leaf m root v of
        None \<Rightarrow> None
      | Some e \<Rightarrow> if wp \<and> e AND PAGE_WRITABLE = 0 then None else Some ((e AND ADDRESS_MASK) + page_offset m root v))"

section \<open>Reading and writing through a reference\<close>

definition user_addresses :: "u64 \<Rightarrow> nat \<Rightarrow> u64 list" where
  "user_addresses a n = map (\<lambda>i. a + of_nat i) [0..<n]"

definition user_mapped :: "memory \<Rightarrow> u64 \<Rightarrow> u64 \<Rightarrow> nat \<Rightarrow> bool" where
  "user_mapped m root a n \<longleftrightarrow> list_all (\<lambda>v. translate m root v \<noteq> None) (user_addresses a n)"

text \<open>The bytes behind a reference, where they are mapped.\<close>

definition user_view :: "memory \<Rightarrow> u64 \<Rightarrow> u64 \<Rightarrow> nat \<Rightarrow> bytes" where
  "user_view m root a n =
     map (\<lambda>v. case translate m root v of Some x \<Rightarrow> m x | None \<Rightarrow> 0) (user_addresses a n)"

definition user_load :: "memory \<Rightarrow> u64 \<Rightarrow> u64 \<times> u64 \<Rightarrow> (bytes, 'e) outcome" where
  "user_load m root r =
     (if user_mapped m root (fst r) (unat (snd r)) then Ok (user_view m root (fst r) (unat (snd r))) else Panic)"

text \<open>What a call that filled the buffer behind a reference has done to memory: the first \<open>n\<close> bytes
  and every byte that differs were stored, one by one, each through the translation.\<close>

definition user_stores :: "nat \<Rightarrow> bytes \<Rightarrow> bytes \<Rightarrow> (nat \<times> u8) list" where
  "user_stores n old new = filter (\<lambda>(i, b). i < n \<or> old ! i \<noteq> b) (zip [0..<min (length old) (length new)] new)"

fun store_all :: "bool \<Rightarrow> memory \<Rightarrow> u64 \<Rightarrow> u64 \<Rightarrow> (nat \<times> u8) list \<Rightarrow> memory \<Rightarrow> (memory, 'e) outcome" where
  "store_all wp tables root a [] m = Ok m"
| "store_all wp tables root a ((i, b) # rest) m =
     (case translate_write wp tables root (a + of_nat i) of
        None \<Rightarrow> Panic
      | Some x \<Rightarrow> store_all wp tables root a rest (m(x := b)))"

definition user_flush ::
  "bool \<Rightarrow> u64 \<Rightarrow> u64 \<times> u64 \<Rightarrow> nat \<Rightarrow> bytes \<Rightarrow> memory \<Rightarrow> (memory, 'e) outcome" where
  "user_flush wp root r n new m =
     store_all wp m root (fst r) (user_stores n (user_view m root (fst r) (unat (snd r))) new) m"

section \<open>Confinement\<close>

text \<open>In the user range, and wherever an entry carries the user bit, an address space reaches only 4 KiB
  pages on frames of the owned list that hold no page table; no entry outside the range has the bit.\<close>

definition space_confined :: "memory \<Rightarrow> u64 \<Rightarrow> u64 list \<Rightarrow> bool" where
  "space_confined m root owned \<longleftrightarrow>
     (\<forall>w e. unat w < 2 ^ 48 \<and> leaf m root w = Some e \<and> (in_user_range (unat w) \<or> e AND PAGE_USER \<noteq> 0) \<longrightarrow>
        in_user_range (unat w) \<and> \<not> huge_at m root (pd_path w) (pd_index w) \<and> e AND ADDRESS_MASK \<in> set owned \<and>
        block (e AND ADDRESS_MASK) PAGE_SIZE \<inter> table_bytes m root = {})"

lemma loader_inv_space:
  assumes inv: "loader_inv ms base root pages st" and acc: "accounts True base st" and o: "owned_list (vm_owned base) = []"
  shows "space_inv (vm_memory st) root (free_set (vm_alloc st))"
    "space_confined (vm_memory st) root (owned_list (vm_owned st))"
    "table_bytes (vm_memory st) root \<subseteq> frame_bytes (owned_list (vm_owned st))"
    "\<forall>c \<in> set (owned_list (vm_owned st)). frame_ok c \<and> c \<noteq> 0" "owned_pages_wf (vm_owned st)"
    "alloc_inv (vm_alloc st)" "frames_ok (vm_alloc st)"
    "free_set (vm_alloc base) = free_set (vm_alloc st) \<union> frame_bytes (owned_list (vm_owned st))"
    "free_set (vm_alloc st) \<inter> frame_bytes (owned_list (vm_owned st)) = {}"
    "x \<notin> free_set (vm_alloc base) \<Longrightarrow> vm_memory st x = vm_memory base x"
proof -
  note I = loader_invD [OF inv] and V = vm_invD [OF loader_invD(1) [OF inv]]
  show "space_inv (vm_memory st) root (free_set (vm_alloc st))" "owned_pages_wf (vm_owned st)"
    "alloc_inv (vm_alloc st)" "frames_ok (vm_alloc st)" by (rule V)+
  show own: "\<forall>c \<in> set (owned_list (vm_owned st)). frame_ok c \<and> c \<noteq> 0"
    "free_set (vm_alloc base) = free_set (vm_alloc st) \<union> frame_bytes (owned_list (vm_owned st))"
    "free_set (vm_alloc st) \<inter> frame_bytes (owned_list (vm_owned st)) = {}"
    using acc o by (auto simp: accounts_def)
  have "table_bytes (vm_memory st) root \<inter> free_set (vm_alloc st) = {}"
    using space_invD(2) [OF V(4)] by (auto simp: table_bytes_def)
  then show "table_bytes (vm_memory st) root \<subseteq> frame_bytes (owned_list (vm_owned st))"
    using I(5) own(2) by (auto simp: loader_safe_def)
  show "x \<notin> free_set (vm_alloc base) \<Longrightarrow> vm_memory st x = vm_memory base x" using I(5) by (simp add: loader_safe_def)
  show "space_confined (vm_memory st) root (owned_list (vm_owned st))"
    unfolding space_confined_def
  proof (intro allI impI, elim conjE)
    fix w e assume w48: "unat w < 2 ^ 48" and e: "leaf (vm_memory st) root w = Some e"
      and u: "in_user_range (unat w) \<or> e AND PAGE_USER \<noteq> 0"
    have w: "in_user_range (unat w)"
      using u w48 e loader_inv_entry [OF inv, of w e] by (auto simp: user_entry_def)
    obtain page where p: "page \<in> mapped pages" "same_page (up_virt_page page) w"
      using I(2) w w48 e by (auto simp: supervisor_rest_def)
    have pp: "page_placed root st page" by (rule I(3) [OF p(1)])
    have "leaf (vm_memory st) root (up_virt_page page) = Some e" using e leaf_same_page [OF p(2)] by simp
    then have ph: "e AND ADDRESS_MASK = up_phys_page page" using pp by (auto simp: page_placed_def page_grants_def)
    have "\<not> in_window ms (unat w)"
      using w by (simp add: in_window_def in_user_range_def PHYS_WINDOW_START_def USER_STACK_TOP_def)
    then have "\<not> huge_at (vm_memory st) root (pd_path w) (pd_index w)" using I(2) w48 by (auto simp: supervisor_rest_def)
    then show "in_user_range (unat w) \<and> \<not> huge_at (vm_memory st) root (pd_path w) (pd_index w) \<and> e AND ADDRESS_MASK \<in> set (owned_list (vm_owned st)) \<and>
        block (e AND ADDRESS_MASK) PAGE_SIZE \<inter> table_bytes (vm_memory st) root = {}"
      using ph pp w by (simp add: page_placed_def)
  qed
qed

section \<open>Kernel writes stay in the program's pages\<close>

lemma low_bits_small: "unat (v AND 0xfff :: u64) < 4096"
proof -
  have "v AND 0xfff = take_bit 12 v" by (simp add: take_bit_eq_mask mask_eq_exp_minus_1)
  then show ?thesis using take_bit_nat_less_exp [of 12 "unat v"] by (simp add: unsigned_take_bit_eq)
qed

lemma page_offset_4k:
  assumes "leaf m root v = Some e" "\<not> huge_at m root (pd_path v) (pd_index v)"
  shows "page_offset m root v = v AND 0xfff"
proof -
  obtain pd where pd: "table_at m root (pd_path v) = Some pd"
    using assms(1) unfolding leaf_def by (cases "table_at m root (pd_path v)") (simp_all del: table_at.simps)
  have "page_entry m pd (pd_index v) AND PAGE_HUGE = 0"
  proof (rule ccontr)
    assume h: "page_entry m pd (pd_index v) AND PAGE_HUGE \<noteq> 0"
    then have "page_entry m pd (pd_index v) AND PAGE_PRESENT \<noteq> 0"
      using assms(1) pd unfolding leaf_def by (simp add: present_entry_def del: table_at.simps split: if_splits)
    with h pd assms(2) show False unfolding huge_at_def by blast
  qed
  with pd show ?thesis unfolding page_offset_def by (simp del: table_at.simps)
qed

lemma translate_write_confined:
  assumes c: "space_confined m root owned" "\<forall>c \<in> set owned. frame_ok c" and v: "in_user_range (unat v)"
    and t: "translate_write wp m root v = Some x"
  shows "x \<in> frame_bytes owned" "x \<notin> table_bytes m root"
proof -
  obtain e where e: "leaf m root v = Some e" "x = (e AND ADDRESS_MASK) + page_offset m root v"
    using t by (auto simp: translate_write_def split: option.splits if_splits)
  let ?c = "e AND ADDRESS_MASK"
  have C: "\<not> huge_at m root (pd_path v) (pd_index v)" "?c \<in> set owned" "block ?c PAGE_SIZE \<inter> table_bytes m root = {}"
    using c(1) v e(1) user_range_48 [OF v] unfolding space_confined_def by blast+
  have f: "frame_ok ?c" using c(2) C(2) by blast
  have x: "x = ?c + (v AND 0xfff)" using e(2) page_offset_4k [OF e(1) C(1)] by simp
  have "unat x = unat ?c + unat (v AND 0xfff)"
    unfolding x using f low_bits_small [of v] by (intro unat_add_lem [THEN iffD1]) (simp add: frame_ok_def)
  then have "x \<in> block ?c PAGE_SIZE"
    using frame_next [OF f] low_bits_small [of v] by (simp add: block_def word_le_nat_alt word_less_nat_alt)
  with C(2,3) show "x \<in> frame_bytes owned" "x \<notin> table_bytes m root" by auto
qed

lemma store_all_confined:
  assumes "space_confined tables root owned" "\<forall>c \<in> set owned. frame_ok c"
    "\<forall>(i, b) \<in> set stores. in_user_range (unat (a + of_nat i))" "store_all wp tables root a stores m = (Ok m' :: (memory, 'e) outcome)"
  shows "m' x = m x \<or> x \<in> frame_bytes owned \<and> x \<notin> table_bytes tables root"
  using assms(3,4)
proof (induction stores arbitrary: m)
  case (Cons s stores)
  obtain i b where s: "s = (i, b)" by (cases s)
  with Cons.prems obtain y where y: "translate_write wp tables root (a + of_nat i) = Some y"
    "store_all wp tables root a stores (m(y := b)) = (Ok m' :: (memory, 'e) outcome)" by (auto split: option.splits)
  have "y \<in> frame_bytes owned" "y \<notin> table_bytes tables root"
    using translate_write_confined [OF assms(1,2) _ y(1)] Cons.prems(1) s by auto
  with Cons.IH [OF _ y(2)] Cons.prems(1) show ?case by (cases "x = y") auto
qed simp

lemma validated_address:
  assumes "validate_user_buffer a len" "i < unat len"
  shows "in_user_range (unat (a + of_nat i))"
proof -
  have len: "len \<noteq> 0" using assms(2) by auto
  with assms(1) obtain e where e: "checked_add a len = Some e" "USER_IMAGE_BASE \<le> a" "e \<le> USER_STACK_TOP"
    by (auto simp: validate_user_buffer_def split: option.splits)
  then have ue: "unat a + unat len = unat e" "unat e \<le> unat USER_STACK_TOP"
    using unat_add_lem [of a len] by (auto simp: checked_add_def word_le_nat_alt split: if_splits)
  have "unat len < 2 ^ 64" using unsigned_less [of len] by simp
  then have "unat (of_nat i :: u64) = i" using assms(2) by (simp add: unsigned_of_nat take_bit_nat_eq_self)
  then have "unat (a + of_nat i) = unat a + i"
    using unat_add_lem [of a "of_nat i"] ue assms(2) by (simp add: USER_STACK_TOP_def)
  with ue assms(2) e(2) show ?thesis by (simp add: in_user_range_def word_le_nat_alt)
qed

lemma user_flush_confined:
  assumes "space_confined m root owned" "\<forall>c \<in> set owned. frame_ok c" "user_slice a len = Some r"
    "user_flush wp root r n new m = Ok m'"
  shows "m' x = m x \<or> x \<in> frame_bytes owned \<and> x \<notin> table_bytes m root"
proof -
  have r: "r = (a, len)" "validate_user_buffer a len" using assms(3) by (auto simp: user_slice_def split: if_splits)
  have "in_user_range (unat (a + of_nat i))"
    if "(i, b) \<in> set (user_stores n (user_view m root a (unat len)) new)" for i b
    using that by (intro validated_address [OF r(2)])
      (auto simp: user_stores_def user_view_def user_addresses_def set_zip)
  then show ?thesis
    using assms(4) r(1) by (intro store_all_confined [OF assms(1,2)]) (auto simp: user_flush_def)
qed

end
