(* ===== verification/Services.thy ===== *)
theory Services
  imports Scheduler Rootfs Path_Norm User_Memory
begin

text \<open>
  The scheduler's service calls, \<^verbatim>\<open>kernel/kernel/src/scheduler/services.rs\<close>: what a system call asks of
  the current process, its environment, its working directory, the root filesystem and the program
  loader. The kernel's global state is one record: the scheduler cell, the terminal endpoints, the
  memory cell with physical memory, the mounted root filesystem, and two constants of the machine.
\<close>

section \<open>State\<close>

record kernel =
  kn_sched :: scheduler_state
  kn_io :: io_state
  kn_mem :: kmem
  kn_root :: "root_fs option"
  kn_image :: kernel_image
  kn_wp :: bool

datatype spawn_error =
    SpawnInvalidPath
  | SpawnFileNotFound
  | SpawnInvalidExecutable
  | SpawnResourceUnavailable

record normalized_path =
  np_bytes :: bytes
  np_len :: nat

section \<open>Paths\<close>

definition normalized_path_resolve :: "bytes \<Rightarrow> bytes \<Rightarrow> (normalized_path, storage_error) outcome" where
  "normalized_path_resolve cwd path =
     and_then (normalize_path cwd path (replicate MAX_CWD_LEN 0)) (\<lambda>(len, bytes).
       Ok \<lparr>np_bytes = bytes, np_len = len\<rparr>)"

definition normalized_path_as_str :: "normalized_path \<Rightarrow> (bytes, storage_error) outcome" where
  "normalized_path_as_str np =
     and_then (slice (np_bytes np) 0 (np_len np)) (\<lambda>s. ok_or (from_utf8 s) InvalidPath)"

definition resolve_for :: "process \<Rightarrow> bytes \<Rightarrow> (bytes, storage_error) outcome" where
  "resolve_for p path =
     and_then (process_cwd p) (\<lambda>cwd. and_then (normalized_path_resolve cwd path) normalized_path_as_str)"

section \<open>The current process\<close>

text \<open>\<^verbatim>\<open>with_current_process\<close>: the current thread's process, or nothing before the first thread runs.
  A table entry that is missing panics.\<close>

definition current_process :: "scheduler_state \<Rightarrow> (process_id \<times> process) option sched" where
  "current_process st =
     (case sc_current_thread st of
        None \<Rightarrow> Ok None
      | Some current \<Rightarrow>
          and_then (sched_thread st current) (\<lambda>t.
          and_then (sched_process st (th_process_id t)) (\<lambda>p. Ok (Some (th_process_id t, p)))))"

definition put_process :: "process_id \<Rightarrow> process \<Rightarrow> scheduler_state \<Rightarrow> scheduler_state" where
  "put_process pid p st = st\<lparr>sc_processes := (sc_processes st)[pid := Some p]\<rparr>"

definition current_process_read :: "u64 \<Rightarrow> bytes \<Rightarrow> scheduler_state \<Rightarrow> io_state \<Rightarrow> (nat \<times> bytes \<times> io_state) sched" where
  "current_process_read fd buffer st io =
     and_then (current_process st) (\<lambda>c.
       Ok (case c of None \<Rightarrow> (0, buffer, io) | Some (pid, p) \<Rightarrow> process_read p fd buffer io))"

definition current_process_write :: "u64 \<Rightarrow> bytes \<Rightarrow> scheduler_state \<Rightarrow> io_state \<Rightarrow> (nat \<times> io_state) sched" where
  "current_process_write fd buffer st io =
     and_then (current_process st) (\<lambda>c.
       Ok (case c of None \<Rightarrow> (0, io) | Some (pid, p) \<Rightarrow> process_write p fd buffer io))"

definition current_process_getcwd :: "bytes \<Rightarrow> scheduler_state \<Rightarrow> (nat option \<times> bytes) sched" where
  "current_process_getcwd buffer st =
     and_then (current_process st) (\<lambda>c.
       case c of None \<Rightarrow> Ok (None, buffer) | Some (pid, p) \<Rightarrow> copy_cwd_into p buffer)"

section \<open>The environment\<close>

definition current_process_get_env ::
  "bytes \<Rightarrow> bytes \<Rightarrow> scheduler_state \<Rightarrow> (nat, environment_access_error) outcome \<times> bytes" where
  "current_process_get_env key buffer st =
     (case current_process st of
        Ok None \<Rightarrow> (Err EnvResourceUnavailable, buffer)
      | Ok (Some (pid, p)) \<Rightarrow>
          (case map_err map_environment_error (env_get key (pc_env p)) of
             Err e \<Rightarrow> (Err e, buffer)
           | Panic \<Rightarrow> (Panic, buffer)
           | Ok None \<Rightarrow> (Err EnvNotFound, buffer)
           | Ok (Some v) \<Rightarrow>
               if length buffer < length v then (Err EnvBufferTooSmall, buffer)
               else (Ok (length v), overwrite buffer 0 v))
      | _ \<Rightarrow> (Panic, buffer))"

definition current_process_list_env ::
  "bytes \<Rightarrow> scheduler_state \<Rightarrow> (nat, environment_access_error) outcome \<times> bytes" where
  "current_process_list_env buffer st =
     (case current_process st of
        Ok None \<Rightarrow> (Err EnvResourceUnavailable, buffer)
      | Ok (Some (pid, p)) \<Rightarrow>
          (let (r, b) = env_write_listing_into (pc_env p) buffer in (map_err map_environment_error r, b))
      | _ \<Rightarrow> (Panic, buffer))"

definition current_process_set_env ::
  "bytes \<Rightarrow> bytes \<Rightarrow> scheduler_state \<Rightarrow> (unit, environment_access_error) outcome \<times> scheduler_state" where
  "current_process_set_env key val st =
     (case current_process st of
        Ok None \<Rightarrow> (Err EnvResourceUnavailable, st)
      | Ok (Some (pid, p)) \<Rightarrow>
          (case map_err map_environment_error (env_set key val (pc_env p)) of
             Ok env \<Rightarrow> (Ok (), put_process pid (p\<lparr>pc_env := env\<rparr>) st)
           | Err e \<Rightarrow> (Err e, st)
           | Panic \<Rightarrow> (Panic, st))
      | _ \<Rightarrow> (Panic, st))"

definition current_process_unset_env ::
  "bytes \<Rightarrow> scheduler_state \<Rightarrow> (unit, environment_access_error) outcome \<times> scheduler_state" where
  "current_process_unset_env key st =
     (case current_process st of
        Ok None \<Rightarrow> (Err EnvResourceUnavailable, st)
      | Ok (Some (pid, p)) \<Rightarrow>
          (case map_err map_environment_error (env_remove key (pc_env p)) of
             Ok (removed, env) \<Rightarrow>
               (if removed then Ok () else Err EnvNotFound, put_process pid (p\<lparr>pc_env := env\<rparr>) st)
           | Err e \<Rightarrow> (Err e, st)
           | Panic \<Rightarrow> (Panic, st))
      | _ \<Rightarrow> (Panic, st))"

section \<open>Files and directories\<close>

text \<open>A filesystem walk over a damaged volume may not end; \<open>None\<close> is a call that never returns.\<close>

definition current_process_chdir ::
  "root_fs option \<Rightarrow> bytes \<Rightarrow> scheduler_state \<Rightarrow> ((unit, storage_error) outcome \<times> scheduler_state) option" where
  "current_process_chdir root path st =
     (case current_process st of
        Ok None \<Rightarrow> Some (Err RootFsUnavailable, st)
      | Ok (Some (pid, p)) \<Rightarrow>
          (case resolve_for p path of
             Err e \<Rightarrow> Some (Err e, st)
           | Panic \<Rightarrow> Some (Panic, st)
           | Ok target \<Rightarrow>
               Option.bind (ensure_root_dir root target) (\<lambda>r.
                 case r of
                   Err e \<Rightarrow> Some (Err e, st)
                 | Panic \<Rightarrow> Some (Panic, st)
                 | Ok _ \<Rightarrow>
                     (case process_set_cwd target p :: (unit option \<times> process) sched of
                        Ok (Some _, p') \<Rightarrow> Some (Ok (), put_process pid p' st)
                      | Ok (None, _) \<Rightarrow> Some (Err InvalidPath, st)
                      | _ \<Rightarrow> Some (Panic, st))))
      | _ \<Rightarrow> Some (Panic, st))"

definition current_process_read_file ::
  "root_fs option \<Rightarrow> bytes \<Rightarrow> bytes \<Rightarrow> scheduler_state \<Rightarrow> ((nat, storage_error) outcome \<times> bytes) option" where
  "current_process_read_file root path buffer st =
     (case current_process st of
        Ok None \<Rightarrow> Some (Err RootFsUnavailable, buffer)
      | Ok (Some (pid, p)) \<Rightarrow>
          (case resolve_for p path of
             Err e \<Rightarrow> Some (Err e, buffer)
           | Panic \<Rightarrow> Some (Panic, buffer)
           | Ok target \<Rightarrow> read_root_file_into root target buffer)
      | _ \<Rightarrow> Some (Panic, buffer))"

definition current_process_read_dir ::
  "root_fs option \<Rightarrow> bytes \<Rightarrow> bytes \<Rightarrow> scheduler_state \<Rightarrow> ((nat, storage_error) outcome \<times> bytes) option" where
  "current_process_read_dir root path buffer st =
     (case current_process st of
        Ok None \<Rightarrow> Some (Err RootFsUnavailable, buffer)
      | Ok (Some (pid, p)) \<Rightarrow>
          (case resolve_for p path of
             Err e \<Rightarrow> Some (Err e, buffer)
           | Panic \<Rightarrow> Some (Panic, buffer)
           | Ok target \<Rightarrow> read_root_dir root target buffer)
      | _ \<Rightarrow> Some (Panic, buffer))"

section \<open>Spawning\<close>

definition map_storage_spawn_error :: "storage_error \<Rightarrow> spawn_error" where
  "map_storage_spawn_error e =
     (if e \<in> {InvalidPath, PathNotAbsolute, InvalidShortName} then SpawnInvalidPath
      else if e \<in> {FileNotFound, NotAFile} then SpawnFileNotFound
      else SpawnResourceUnavailable)"

text \<open>Releasing the file's buffer and a refused program's pages update the memory cell.\<close>

definition with_allocator :: "(physical_allocator \<Rightarrow> (physical_allocator, memory_error) outcome) \<Rightarrow> kmem \<Rightarrow> kmem sched" where
  "with_allocator f km =
     (case f (ms_allocator (km_state km)) of
        Ok pa \<Rightarrow> Ok (km\<lparr>km_state := (km_state km)\<lparr>ms_allocator := pa\<rparr>\<rparr>)
      | _ \<Rightarrow> Panic)"

text \<open>The loader and the scheduler half of a spawn, once the file is in a kernel buffer. On success the
  caller is blocked and the switch to the next thread is prepared.\<close>

definition start_child ::
  "thread_id \<Rightarrow> bytes \<Rightarrow> kernel_buffer \<Rightarrow> bytes \<Rightarrow> bool \<Rightarrow> kernel \<Rightarrow> (prepared_switch, spawn_error) outcome \<times> kernel" where
  "start_child current path file argv_tail silent_stdio k =
     (case with_builder (load_user_program (km_state (kn_mem k)) (kernel_buffer_as_slice (km_memory (kn_mem k)) file)
              \<lparr>ps_argv0 = path, ps_argv_tail = argv_tail\<rparr>) (kn_mem k) of
        (Panic, km) \<Rightarrow> (Panic, k\<lparr>kn_mem := km\<rparr>)
      | (Err _, km) \<Rightarrow>
          (case with_allocator (kernel_buffer_release file) km of
             Ok km' \<Rightarrow> (Err SpawnInvalidExecutable, k\<lparr>kn_mem := km'\<rparr>)
           | _ \<Rightarrow> (Panic, k\<lparr>kn_mem := km\<rparr>))
      | (Ok program, km) \<Rightarrow>
          (case with_allocator (kernel_buffer_release file) km of
             Ok km' \<Rightarrow>
               (case spawn_and_block (kn_image k) current program silent_stdio (kn_sched k) of
                  Ok (Inl (Some switch), st) \<Rightarrow> (Ok switch, k\<lparr>kn_mem := km', kn_sched := st\<rparr>)
                | Ok (Inl None, st) \<Rightarrow> (Err SpawnResourceUnavailable, k\<lparr>kn_mem := km', kn_sched := st\<rparr>)
                | Ok (Inr refused, st) \<Rightarrow>
                    (case with_allocator (owned_pages_release (lp_owned_pages refused)) km' of
                       Ok km'' \<Rightarrow> (Err SpawnResourceUnavailable, k\<lparr>kn_mem := km'', kn_sched := st\<rparr>)
                     | _ \<Rightarrow> (Panic, k\<lparr>kn_mem := km', kn_sched := st\<rparr>))
                | _ \<Rightarrow> (Panic, k\<lparr>kn_mem := km'\<rparr>))
           | _ \<Rightarrow> (Panic, k\<lparr>kn_mem := km\<rparr>)))"

text \<open>\<^verbatim>\<open>spawn_user_process_and_wait_with_stdio\<close>; the argument block is read when the loader starts, so it is
  passed as a read that may fault.\<close>

definition spawn_user_process_and_wait_with_stdio ::
  "bytes \<Rightarrow> bytes sched \<Rightarrow> bool \<Rightarrow> kernel \<Rightarrow> ((prepared_switch, spawn_error) outcome \<times> kernel) option" where
  "spawn_user_process_and_wait_with_stdio path argv_tail silent_stdio k =
     (case sc_current_thread (kn_sched k) of
        None \<Rightarrow> Some (Err SpawnResourceUnavailable, k)
      | Some current \<Rightarrow>
          (case current_process (kn_sched k) of
             Ok (Some (parent_process_id, parent)) \<Rightarrow>
               (case map_err map_storage_spawn_error (resolve_for parent path) of
                  Err e \<Rightarrow> Some (Err e, k)
                | Panic \<Rightarrow> Some (Panic, k)
                | Ok target \<Rightarrow>
                    Option.bind (read_root_file (kn_root k) target (kn_mem k)) (\<lambda>(r, km).
                      case r of
                        Err e \<Rightarrow> Some (Err (map_storage_spawn_error e), k\<lparr>kn_mem := km\<rparr>)
                      | Panic \<Rightarrow> Some (Panic, k\<lparr>kn_mem := km\<rparr>)
                      | Ok file \<Rightarrow>
                          (case argv_tail of
                             Ok argv \<Rightarrow> Some (start_child current target file argv silent_stdio (k\<lparr>kn_mem := km\<rparr>))
                           | _ \<Rightarrow> Some (Panic, k\<lparr>kn_mem := km\<rparr>))))
           | _ \<Rightarrow> Some (Panic, k)))"

definition spawn_user_process_and_wait ::
  "bytes \<Rightarrow> bytes sched \<Rightarrow> kernel \<Rightarrow> ((prepared_switch, spawn_error) outcome \<times> kernel) option" where
  "spawn_user_process_and_wait path argv_tail k = spawn_user_process_and_wait_with_stdio path argv_tail False k"

definition spawn_user_process_and_wait_silent ::
  "bytes \<Rightarrow> bytes sched \<Rightarrow> kernel \<Rightarrow> ((prepared_switch, spawn_error) outcome \<times> kernel) option" where
  "spawn_user_process_and_wait_silent path argv_tail k = spawn_user_process_and_wait_with_stdio path argv_tail True k"

section \<open>Exit\<close>

text \<open>\<^verbatim>\<open>TerminalSurface::flush_output\<close>: the queued output bytes, in the order they go to the console.\<close>

function flush_output :: "nat \<Rightarrow> io_state \<Rightarrow> bytes \<times> io_state" where
  "flush_output ep io =
     (case pop_output_byte ep io of
        (None, io') \<Rightarrow> ([], io')
      | (Some byte, io') \<Rightarrow> (let (rest, io'') = flush_output ep io' in (byte # rest, io'')))"
  by pat_completeness auto
termination
  by (relation "measure (\<lambda>(ep, io). bq_len (te_output (endpoints io ep)))")
    (auto simp: pop_output_byte_def byte_queue_pop_def split: if_splits)

declare flush_output.simps [simp del]

text \<open>What \<^verbatim>\<open>exit_current_process\<close> ends in: the thread that runs next, the power-off path of the initial
  process with the terminal output written before it, or \<^verbatim>\<open>halt_forever\<close>.\<close>

datatype exit_outcome = NextThread exited_thread_switch | PowerOff bytes | HaltForever

definition exit_current_process :: "u64 \<Rightarrow> kernel \<Rightarrow> (exit_outcome \<times> kernel) sched" where
  "exit_current_process status k =
     and_then (prepare_exit_current_process status (kn_sched k)) (\<lambda>(exit, st).
       let k = k\<lparr>kn_sched := st\<rparr>
       in case exit of
            None \<Rightarrow> Ok (HaltForever, k)
          | Some (Switch switch) \<Rightarrow>
              and_then (with_allocator (owned_pages_release (ex_released_pages switch)) (kn_mem k)) (\<lambda>km.
                Ok (NextThread switch, k\<lparr>kn_mem := km\<rparr>))
          | Some (Shutdown pages) \<Rightarrow>
              let (flushed, io) = flush_output 0 (kn_io k) in Ok (PowerOff flushed, k\<lparr>kn_io := io\<rparr>))"

end
