(* ===== verification/Syscall.thy ===== *)
theory Syscall
  imports Services
begin

text \<open>
  System call dispatch, \<^verbatim>\<open>kernel/kernel/src/syscall.rs\<close>, with the result codes of \<^verbatim>\<open>libs/kernel-abi\<close> and
  the trap entry of \<^verbatim>\<open>kernel/kernel/src/arch.rs\<close>. The trap frame holds the arguments; a call answers by
  writing \<^verbatim>\<open>rax\<close>. A call that switches threads answers when its thread is switched to again.
\<close>

section \<open>The trap ABI\<close>

datatype syscall =
    Read | Write | Yield | Exit | SpawnWait | ReadDir | Chdir | GetCwd | ReadFile | GetEnv | SetEnv
  | UnsetEnv | ListEnv | SpawnWaitSilent

primrec syscall_number :: "syscall \<Rightarrow> u64" where
  "syscall_number Read = 0"
| "syscall_number Write = 1"
| "syscall_number Yield = 2"
| "syscall_number Exit = 3"
| "syscall_number SpawnWait = 4"
| "syscall_number ReadDir = 5"
| "syscall_number Chdir = 6"
| "syscall_number GetCwd = 7"
| "syscall_number ReadFile = 8"
| "syscall_number GetEnv = 9"
| "syscall_number SetEnv = 10"
| "syscall_number UnsetEnv = 11"
| "syscall_number ListEnv = 12"
| "syscall_number SpawnWaitSilent = 13"

text \<open>\<^verbatim>\<open>usize::MAX\<close> less a small number.\<close>

definition code :: "u64 \<Rightarrow> u64" where "code n = - 1 - n"

definition spawn_wait_INVALID_PATH :: u64 where "spawn_wait_INVALID_PATH = code 0"
definition spawn_wait_FILE_NOT_FOUND :: u64 where "spawn_wait_FILE_NOT_FOUND = code 1"
definition spawn_wait_INVALID_EXECUTABLE :: u64 where "spawn_wait_INVALID_EXECUTABLE = code 2"
definition spawn_wait_RESOURCE_UNAVAILABLE :: u64 where "spawn_wait_RESOURCE_UNAVAILABLE = code 3"
definition read_dir_INVALID_PATH :: u64 where "read_dir_INVALID_PATH = code 0"
definition read_dir_NOT_FOUND :: u64 where "read_dir_NOT_FOUND = code 1"
definition read_dir_BUFFER_TOO_SMALL :: u64 where "read_dir_BUFFER_TOO_SMALL = code 2"
definition read_dir_RESOURCE_UNAVAILABLE :: u64 where "read_dir_RESOURCE_UNAVAILABLE = code 3"
definition chdir_INVALID_PATH :: u64 where "chdir_INVALID_PATH = code 0"
definition chdir_NOT_FOUND :: u64 where "chdir_NOT_FOUND = code 1"
definition chdir_RESOURCE_UNAVAILABLE :: u64 where "chdir_RESOURCE_UNAVAILABLE = code 2"
definition getcwd_BUFFER_TOO_SMALL :: u64 where "getcwd_BUFFER_TOO_SMALL = code 0"
definition getcwd_RESOURCE_UNAVAILABLE :: u64 where "getcwd_RESOURCE_UNAVAILABLE = code 1"
definition read_file_INVALID_PATH :: u64 where "read_file_INVALID_PATH = code 0"
definition read_file_NOT_FOUND :: u64 where "read_file_NOT_FOUND = code 1"
definition read_file_NOT_A_FILE :: u64 where "read_file_NOT_A_FILE = code 2"
definition read_file_BUFFER_TOO_SMALL :: u64 where "read_file_BUFFER_TOO_SMALL = code 3"
definition read_file_RESOURCE_UNAVAILABLE :: u64 where "read_file_RESOURCE_UNAVAILABLE = code 4"
definition get_env_INVALID_KEY :: u64 where "get_env_INVALID_KEY = code 0"
definition get_env_NOT_FOUND :: u64 where "get_env_NOT_FOUND = code 1"
definition get_env_BUFFER_TOO_SMALL :: u64 where "get_env_BUFFER_TOO_SMALL = code 2"
definition get_env_RESOURCE_UNAVAILABLE :: u64 where "get_env_RESOURCE_UNAVAILABLE = code 3"
definition set_env_INVALID_KEY :: u64 where "set_env_INVALID_KEY = code 0"
definition set_env_KEY_TOO_LONG :: u64 where "set_env_KEY_TOO_LONG = code 1"
definition set_env_VALUE_TOO_LONG :: u64 where "set_env_VALUE_TOO_LONG = code 2"
definition set_env_CAPACITY_EXCEEDED :: u64 where "set_env_CAPACITY_EXCEEDED = code 3"
definition set_env_RESOURCE_UNAVAILABLE :: u64 where "set_env_RESOURCE_UNAVAILABLE = code 4"
definition unset_env_INVALID_KEY :: u64 where "unset_env_INVALID_KEY = code 0"
definition unset_env_NOT_FOUND :: u64 where "unset_env_NOT_FOUND = code 1"
definition unset_env_RESOURCE_UNAVAILABLE :: u64 where "unset_env_RESOURCE_UNAVAILABLE = code 2"
definition list_env_BUFFER_TOO_SMALL :: u64 where "list_env_BUFFER_TOO_SMALL = code 0"
definition list_env_RESOURCE_UNAVAILABLE :: u64 where "list_env_RESOURCE_UNAVAILABLE = code 1"

record trap_frame =
  tf_rax :: u64
  tf_rbx :: u64
  tf_rcx :: u64
  tf_rdx :: u64
  tf_rbp :: u64
  tf_rdi :: u64
  tf_rsi :: u64
  tf_r8 :: u64
  tf_r9 :: u64
  tf_r10 :: u64
  tf_r11 :: u64
  tf_r12 :: u64
  tf_r13 :: u64
  tf_r14 :: u64
  tf_r15 :: u64
  tf_vector :: u64
  tf_error_code :: u64
  tf_rip :: u64
  tf_cs :: u64
  tf_rflags :: u64
  tf_rsp :: u64
  tf_ss :: u64

section \<open>User memory in a call\<close>

definition current_root :: "kernel \<Rightarrow> u64 sched" where
  "current_root k =
     and_then (current_process (kn_sched k)) (\<lambda>c.
       case c of Some (pid, p) \<Rightarrow> Ok (as_root_paddr (pc_address_space p)) | None \<Rightarrow> Panic)"

definition load_user :: "u64 \<times> u64 \<Rightarrow> kernel \<Rightarrow> bytes sched" where
  "load_user r k = and_then (current_root k) (\<lambda>root. user_load (km_memory (kn_mem k)) root r)"

definition buffer_of :: "u64 \<times> u64 \<Rightarrow> kernel \<Rightarrow> bytes sched" where
  "buffer_of r k = and_then (current_root k) (\<lambda>root. Ok (user_view (km_memory (kn_mem k)) root (fst r) (unat (snd r))))"

definition flush_user :: "u64 \<times> u64 \<Rightarrow> nat \<Rightarrow> bytes \<Rightarrow> kernel \<Rightarrow> kernel sched" where
  "flush_user r n new k =
     and_then (current_root k) (\<lambda>root.
     and_then (user_flush (kn_wp k) root r n new (km_memory (kn_mem k))) (\<lambda>m.
       Ok (k\<lparr>kn_mem := (kn_mem k)\<lparr>km_memory := m\<rparr>\<rparr>)))"

section \<open>Calls that answer at once\<close>

definition syscall_read :: "u64 \<Rightarrow> u64 \<Rightarrow> u64 \<Rightarrow> kernel \<Rightarrow> (u64 \<times> kernel) sched" where
  "syscall_read fd buffer_address len k =
     (case user_slice buffer_address len of
        None \<Rightarrow> Ok (0, k)
      | Some r \<Rightarrow>
          and_then (buffer_of r k) (\<lambda>buffer.
          and_then (current_process_read fd buffer (kn_sched k) (kn_io k)) (\<lambda>(n, buffer', io).
          and_then (flush_user r n buffer' (k\<lparr>kn_io := io\<rparr>)) (\<lambda>k'. Ok (of_nat n, k')))))"

text \<open>The write loop reads the bytes it hands on and, when an object stops accepting, one more.\<close>

definition syscall_write :: "u64 \<Rightarrow> u64 \<Rightarrow> u64 \<Rightarrow> kernel \<Rightarrow> (u64 \<times> kernel) sched" where
  "syscall_write fd buffer_address len k =
     (case user_slice buffer_address len of
        None \<Rightarrow> Ok (0, k)
      | Some r \<Rightarrow>
          and_then (buffer_of r k) (\<lambda>buffer.
          and_then (current_process (kn_sched k)) (\<lambda>c.
          and_then (current_process_write fd buffer (kn_sched k) (kn_io k)) (\<lambda>(n, io).
            let touched = (case c of
                    None \<Rightarrow> 0
                  | Some (pid, p) \<Rightarrow> if resolve_fd p fd = None then 0 else min (length buffer) (n + 1))
            in and_then (load_user (fst r, of_nat touched) k) (\<lambda>_. Ok (of_nat n, k\<lparr>kn_io := io\<rparr>))))))"

definition syscall_read_dir :: "u64 \<Rightarrow> u64 \<Rightarrow> u64 \<Rightarrow> u64 \<Rightarrow> kernel \<Rightarrow> (u64 \<times> kernel) sched option" where
  "syscall_read_dir path_address path_len buffer_address buffer_len k =
     (case user_slice path_address path_len of
        None \<Rightarrow> Some (Ok (read_dir_INVALID_PATH, k))
      | Some pr \<Rightarrow>
          (case load_user pr k of
             Ok path_bytes \<Rightarrow>
               (case from_utf8 path_bytes of
                  None \<Rightarrow> Some (Ok (read_dir_INVALID_PATH, k))
                | Some path \<Rightarrow>
                    (case user_slice buffer_address buffer_len of
                       None \<Rightarrow> Some (Ok (read_dir_RESOURCE_UNAVAILABLE, k))
                     | Some r \<Rightarrow>
                         (case buffer_of r k of
                            Ok buffer \<Rightarrow>
                              map_option (\<lambda>(result, buffer').
                                case result of
                                  Ok n \<Rightarrow> and_then (flush_user r n buffer' k) (\<lambda>k'. Ok (of_nat n, k'))
                                | Err e \<Rightarrow>
                                    and_then (flush_user r 0 buffer' k) (\<lambda>k'.
                                      Ok (if e \<in> {InvalidPath, PathNotAbsolute, InvalidShortName} then read_dir_INVALID_PATH
                                          else if e \<in> {FileNotFound, NotADirectory} then read_dir_NOT_FOUND
                                          else if e = BufferTooSmall then read_dir_BUFFER_TOO_SMALL
                                          else read_dir_RESOURCE_UNAVAILABLE, k'))
                                | Panic \<Rightarrow> Panic)
                              (current_process_read_dir (kn_root k) path buffer (kn_sched k))
                          | _ \<Rightarrow> Some Panic)))
           | _ \<Rightarrow> Some Panic))"

definition syscall_chdir :: "u64 \<Rightarrow> u64 \<Rightarrow> kernel \<Rightarrow> (u64 \<times> kernel) sched option" where
  "syscall_chdir path_address path_len k =
     (case user_slice path_address path_len of
        None \<Rightarrow> Some (Ok (chdir_INVALID_PATH, k))
      | Some pr \<Rightarrow>
          (case load_user pr k of
             Ok path_bytes \<Rightarrow>
               (case from_utf8 path_bytes of
                  None \<Rightarrow> Some (Ok (chdir_INVALID_PATH, k))
                | Some path \<Rightarrow>
                    map_option (\<lambda>(result, st).
                      case result of
                        Ok _ \<Rightarrow> Ok (0, k\<lparr>kn_sched := st\<rparr>)
                      | Err e \<Rightarrow>
                          Ok (if e \<in> {InvalidPath, PathNotAbsolute, InvalidShortName} then chdir_INVALID_PATH
                              else if e \<in> {FileNotFound, NotADirectory} then chdir_NOT_FOUND
                              else chdir_RESOURCE_UNAVAILABLE, k\<lparr>kn_sched := st\<rparr>)
                      | Panic \<Rightarrow> Panic)
                    (current_process_chdir (kn_root k) path (kn_sched k)))
           | _ \<Rightarrow> Some Panic))"

definition syscall_getcwd :: "u64 \<Rightarrow> u64 \<Rightarrow> kernel \<Rightarrow> (u64 \<times> kernel) sched" where
  "syscall_getcwd buffer_address buffer_len k =
     (case user_slice buffer_address buffer_len of
        None \<Rightarrow> Ok (getcwd_RESOURCE_UNAVAILABLE, k)
      | Some r \<Rightarrow>
          and_then (buffer_of r k) (\<lambda>buffer.
          and_then (current_process_getcwd buffer (kn_sched k)) (\<lambda>(result, buffer').
            case result of
              Some n \<Rightarrow> and_then (flush_user r n buffer' k) (\<lambda>k'. Ok (of_nat n, k'))
            | None \<Rightarrow> Ok (getcwd_BUFFER_TOO_SMALL, k))))"

definition syscall_read_file :: "u64 \<Rightarrow> u64 \<Rightarrow> u64 \<Rightarrow> u64 \<Rightarrow> kernel \<Rightarrow> (u64 \<times> kernel) sched option" where
  "syscall_read_file path_address path_len buffer_address buffer_len k =
     (case user_slice path_address path_len of
        None \<Rightarrow> Some (Ok (read_file_INVALID_PATH, k))
      | Some pr \<Rightarrow>
          (case load_user pr k of
             Ok path_bytes \<Rightarrow>
               (case from_utf8 path_bytes of
                  None \<Rightarrow> Some (Ok (read_file_INVALID_PATH, k))
                | Some path \<Rightarrow>
                    (case user_slice buffer_address buffer_len of
                       None \<Rightarrow> Some (Ok (read_file_RESOURCE_UNAVAILABLE, k))
                     | Some r \<Rightarrow>
                         (case buffer_of r k of
                            Ok buffer \<Rightarrow>
                              map_option (\<lambda>(result, buffer').
                                case result of
                                  Ok n \<Rightarrow> and_then (flush_user r n buffer' k) (\<lambda>k'. Ok (of_nat n, k'))
                                | Err e \<Rightarrow>
                                    and_then (flush_user r 0 buffer' k) (\<lambda>k'.
                                      Ok (if e \<in> {InvalidPath, PathNotAbsolute, InvalidShortName} then read_file_INVALID_PATH
                                          else if e = FileNotFound then read_file_NOT_FOUND
                                          else if e = NotAFile then read_file_NOT_A_FILE
                                          else if e = BufferTooSmall then read_file_BUFFER_TOO_SMALL
                                          else read_file_RESOURCE_UNAVAILABLE, k'))
                                | Panic \<Rightarrow> Panic)
                              (current_process_read_file (kn_root k) path buffer (kn_sched k))
                          | _ \<Rightarrow> Some Panic)))
           | _ \<Rightarrow> Some Panic))"

primrec get_env_code :: "environment_access_error \<Rightarrow> u64" where
  "get_env_code EnvInvalidKey = get_env_INVALID_KEY"
| "get_env_code EnvKeyTooLong = get_env_INVALID_KEY"
| "get_env_code EnvValueTooLong = get_env_INVALID_KEY"
| "get_env_code EnvCapacityExceeded = get_env_INVALID_KEY"
| "get_env_code EnvNotFound = get_env_NOT_FOUND"
| "get_env_code EnvBufferTooSmall = get_env_BUFFER_TOO_SMALL"
| "get_env_code EnvResourceUnavailable = get_env_RESOURCE_UNAVAILABLE"

definition syscall_get_env :: "u64 \<Rightarrow> u64 \<Rightarrow> u64 \<Rightarrow> u64 \<Rightarrow> kernel \<Rightarrow> (u64 \<times> kernel) sched" where
  "syscall_get_env key_address key_len buffer_address buffer_len k =
     (case user_slice key_address key_len of
        None \<Rightarrow> Ok (get_env_INVALID_KEY, k)
      | Some kr \<Rightarrow>
          and_then (load_user kr k) (\<lambda>key_bytes.
          case from_utf8 key_bytes of
            None \<Rightarrow> Ok (get_env_INVALID_KEY, k)
          | Some key \<Rightarrow>
              (case user_slice buffer_address buffer_len of
                 None \<Rightarrow> Ok (get_env_RESOURCE_UNAVAILABLE, k)
               | Some r \<Rightarrow>
                   and_then (buffer_of r k) (\<lambda>buffer.
                   case current_process_get_env key buffer (kn_sched k) of
                     (Ok n, buffer') \<Rightarrow> and_then (flush_user r n buffer' k) (\<lambda>k'. Ok (of_nat n, k'))
                   | (Err e, buffer') \<Rightarrow> Ok (get_env_code e, k)
                   | (Panic, buffer') \<Rightarrow> Panic))))"

primrec set_env_code :: "environment_access_error \<Rightarrow> u64" where
  "set_env_code EnvInvalidKey = set_env_INVALID_KEY"
| "set_env_code EnvKeyTooLong = set_env_KEY_TOO_LONG"
| "set_env_code EnvValueTooLong = set_env_VALUE_TOO_LONG"
| "set_env_code EnvCapacityExceeded = set_env_CAPACITY_EXCEEDED"
| "set_env_code EnvResourceUnavailable = set_env_RESOURCE_UNAVAILABLE"
| "set_env_code EnvNotFound = set_env_RESOURCE_UNAVAILABLE"
| "set_env_code EnvBufferTooSmall = set_env_RESOURCE_UNAVAILABLE"

definition syscall_set_env :: "u64 \<Rightarrow> u64 \<Rightarrow> u64 \<Rightarrow> u64 \<Rightarrow> kernel \<Rightarrow> (u64 \<times> kernel) sched" where
  "syscall_set_env key_address key_len value_address value_len k =
     (case user_slice key_address key_len of
        None \<Rightarrow> Ok (set_env_INVALID_KEY, k)
      | Some kr \<Rightarrow>
          and_then (load_user kr k) (\<lambda>key_bytes.
          case from_utf8 key_bytes of
            None \<Rightarrow> Ok (set_env_INVALID_KEY, k)
          | Some key \<Rightarrow>
              (case user_slice value_address value_len of
                 None \<Rightarrow> Ok (set_env_RESOURCE_UNAVAILABLE, k)
               | Some vr \<Rightarrow>
                   and_then (load_user vr k) (\<lambda>value_bytes.
                   case from_utf8 value_bytes of
                     None \<Rightarrow> Ok (set_env_RESOURCE_UNAVAILABLE, k)
                   | Some val \<Rightarrow>
                       (case current_process_set_env key val (kn_sched k) of
                          (Ok _, st) \<Rightarrow> Ok (0, k\<lparr>kn_sched := st\<rparr>)
                        | (Err e, st) \<Rightarrow> Ok (set_env_code e, k\<lparr>kn_sched := st\<rparr>)
                        | (Panic, st) \<Rightarrow> Panic)))))"

primrec unset_env_code :: "environment_access_error \<Rightarrow> u64" where
  "unset_env_code EnvInvalidKey = unset_env_INVALID_KEY"
| "unset_env_code EnvKeyTooLong = unset_env_INVALID_KEY"
| "unset_env_code EnvValueTooLong = unset_env_INVALID_KEY"
| "unset_env_code EnvCapacityExceeded = unset_env_INVALID_KEY"
| "unset_env_code EnvNotFound = unset_env_NOT_FOUND"
| "unset_env_code EnvResourceUnavailable = unset_env_RESOURCE_UNAVAILABLE"
| "unset_env_code EnvBufferTooSmall = unset_env_RESOURCE_UNAVAILABLE"

definition syscall_unset_env :: "u64 \<Rightarrow> u64 \<Rightarrow> kernel \<Rightarrow> (u64 \<times> kernel) sched" where
  "syscall_unset_env key_address key_len k =
     (case user_slice key_address key_len of
        None \<Rightarrow> Ok (unset_env_INVALID_KEY, k)
      | Some kr \<Rightarrow>
          and_then (load_user kr k) (\<lambda>key_bytes.
          case from_utf8 key_bytes of
            None \<Rightarrow> Ok (unset_env_INVALID_KEY, k)
          | Some key \<Rightarrow>
              (case current_process_unset_env key (kn_sched k) of
                 (Ok _, st) \<Rightarrow> Ok (0, k\<lparr>kn_sched := st\<rparr>)
               | (Err e, st) \<Rightarrow> Ok (unset_env_code e, k\<lparr>kn_sched := st\<rparr>)
               | (Panic, st) \<Rightarrow> Panic)))"

primrec list_env_code :: "environment_access_error \<Rightarrow> u64" where
  "list_env_code EnvBufferTooSmall = list_env_BUFFER_TOO_SMALL"
| "list_env_code EnvCapacityExceeded = list_env_BUFFER_TOO_SMALL"
| "list_env_code EnvInvalidKey = list_env_RESOURCE_UNAVAILABLE"
| "list_env_code EnvKeyTooLong = list_env_RESOURCE_UNAVAILABLE"
| "list_env_code EnvValueTooLong = list_env_RESOURCE_UNAVAILABLE"
| "list_env_code EnvNotFound = list_env_RESOURCE_UNAVAILABLE"
| "list_env_code EnvResourceUnavailable = list_env_RESOURCE_UNAVAILABLE"

definition syscall_list_env :: "u64 \<Rightarrow> u64 \<Rightarrow> kernel \<Rightarrow> (u64 \<times> kernel) sched" where
  "syscall_list_env buffer_address buffer_len k =
     (case user_slice buffer_address buffer_len of
        None \<Rightarrow> Ok (list_env_RESOURCE_UNAVAILABLE, k)
      | Some r \<Rightarrow>
          and_then (buffer_of r k) (\<lambda>buffer.
          case current_process_list_env buffer (kn_sched k) of
            (Ok n, buffer') \<Rightarrow> and_then (flush_user r n buffer' k) (\<lambda>k'. Ok (of_nat n, k'))
          | (Err e, buffer') \<Rightarrow> and_then (flush_user r 0 buffer' k) (\<lambda>k'. Ok (list_env_code e, k'))
          | (Panic, buffer') \<Rightarrow> Panic))"

section \<open>Calls that switch threads\<close>

text \<open>How a trap ends for now: back in the interrupted program with \<^verbatim>\<open>rax\<close>, in another thread, or with
  the machine off or halted.\<close>

datatype trap_outcome = Resume u64 | SwitchTo prepared_switch | ExitTo exited_thread_switch | TurnOff bytes | Halted

primrec spawn_wait_code :: "spawn_error \<Rightarrow> u64" where
  "spawn_wait_code SpawnInvalidPath = spawn_wait_INVALID_PATH"
| "spawn_wait_code SpawnFileNotFound = spawn_wait_FILE_NOT_FOUND"
| "spawn_wait_code SpawnInvalidExecutable = spawn_wait_INVALID_EXECUTABLE"
| "spawn_wait_code SpawnResourceUnavailable = spawn_wait_RESOURCE_UNAVAILABLE"

definition syscall_spawn_with ::
  "(bytes \<Rightarrow> bytes sched \<Rightarrow> kernel \<Rightarrow> ((prepared_switch, spawn_error) outcome \<times> kernel) option) \<Rightarrow>
   u64 \<Rightarrow> u64 \<Rightarrow> u64 \<Rightarrow> u64 \<Rightarrow> kernel \<Rightarrow> (trap_outcome \<times> kernel) sched option" where
  "syscall_spawn_with spawn path_address path_len argv_address argv_len k =
     (case user_slice path_address path_len of
        None \<Rightarrow> Some (Ok (Resume spawn_wait_INVALID_PATH, k))
      | Some pr \<Rightarrow>
          (case load_user pr k of
             Ok path_bytes \<Rightarrow>
               (case from_utf8 path_bytes of
                  None \<Rightarrow> Some (Ok (Resume spawn_wait_INVALID_PATH, k))
                | Some path \<Rightarrow>
                    (case user_slice argv_address argv_len of
                       None \<Rightarrow> Some (Ok (Resume spawn_wait_RESOURCE_UNAVAILABLE, k))
                     | Some ar \<Rightarrow>
                         map_option (\<lambda>(result, k').
                           case result of
                             Ok switch \<Rightarrow> Ok (SwitchTo switch, k')
                           | Err e \<Rightarrow> Ok (Resume (spawn_wait_code e), k')
                           | Panic \<Rightarrow> Panic)
                         (spawn path (load_user ar k) k)))
           | _ \<Rightarrow> Some Panic))"

definition syscall_spawn_wait :: "u64 \<Rightarrow> u64 \<Rightarrow> u64 \<Rightarrow> u64 \<Rightarrow> kernel \<Rightarrow> (trap_outcome \<times> kernel) sched option" where
  "syscall_spawn_wait = syscall_spawn_with spawn_user_process_and_wait"

definition syscall_spawn_wait_silent :: "u64 \<Rightarrow> u64 \<Rightarrow> u64 \<Rightarrow> u64 \<Rightarrow> kernel \<Rightarrow> (trap_outcome \<times> kernel) sched option" where
  "syscall_spawn_wait_silent = syscall_spawn_with spawn_user_process_and_wait_silent"

definition syscall_exit :: "u64 \<Rightarrow> kernel \<Rightarrow> (trap_outcome \<times> kernel) sched" where
  "syscall_exit status k =
     and_then (exit_current_process status k) (\<lambda>(r, k').
       Ok (case r of NextThread s \<Rightarrow> ExitTo s | PowerOff out \<Rightarrow> TurnOff out | HaltForever \<Rightarrow> Halted, k'))"

definition syscall_yield :: "kernel \<Rightarrow> (trap_outcome \<times> kernel) sched" where
  "syscall_yield k =
     and_then (yield_now (kn_sched k)) (\<lambda>(switch, st).
       Ok (case switch of None \<Rightarrow> Resume 0 | Some s \<Rightarrow> SwitchTo s, k\<lparr>kn_sched := st\<rparr>))"

definition answer :: "(u64 \<times> kernel) sched \<Rightarrow> (trap_outcome \<times> kernel) sched" where
  "answer r = and_then r (\<lambda>(rax, k). Ok (Resume rax, k))"

text \<open>The dispatch of the source, by the number in \<^verbatim>\<open>rax\<close>.\<close>

definition dispatch :: "trap_frame \<Rightarrow> kernel \<Rightarrow> (trap_outcome \<times> kernel) sched option" where
  "dispatch f k =
     (let a = tf_rdi f; b = tf_rsi f; c = tf_rdx f; d = tf_rcx f; n = tf_rax f
      in if n = syscall_number Read then Some (answer (syscall_read a b c k))
         else if n = syscall_number Write then Some (answer (syscall_write a b c k))
         else if n = syscall_number Yield then Some (syscall_yield k)
         else if n = syscall_number Exit then Some (syscall_exit a k)
         else if n = syscall_number SpawnWait then syscall_spawn_wait a b c d k
         else if n = syscall_number SpawnWaitSilent then syscall_spawn_wait_silent a b c d k
         else if n = syscall_number ReadDir then map_option answer (syscall_read_dir a b c d k)
         else if n = syscall_number Chdir then map_option answer (syscall_chdir a b k)
         else if n = syscall_number GetCwd then Some (answer (syscall_getcwd a b k))
         else if n = syscall_number ReadFile then map_option answer (syscall_read_file a b c d k)
         else if n = syscall_number GetEnv then Some (answer (syscall_get_env a b c d k))
         else if n = syscall_number SetEnv then Some (answer (syscall_set_env a b c d k))
         else if n = syscall_number UnsetEnv then Some (answer (syscall_unset_env a b k))
         else if n = syscall_number ListEnv then Some (answer (syscall_list_env a b k))
         else Some (Ok (Resume 0, k)))"

text \<open>The rest of a call that switched away, run when its thread is switched to again: a yield answers
  zero, a spawn answers the exit status its child left.\<close>

definition dispatch_resumed :: "trap_frame \<Rightarrow> kernel \<Rightarrow> (u64 \<times> kernel) sched" where
  "dispatch_resumed f k =
     (if tf_rax f = syscall_number SpawnWait \<or> tf_rax f = syscall_number SpawnWaitSilent
      then and_then (resume_wait (kn_sched k)) (\<lambda>(r, st).
             Ok (case r of Some status \<Rightarrow> status | None \<Rightarrow> spawn_wait_code SpawnResourceUnavailable, k\<lparr>kn_sched := st\<rparr>))
      else Ok (0, k))"

section \<open>Traps\<close>

definition TRAP_INVALID_OPCODE :: u8 where "TRAP_INVALID_OPCODE = 6"
definition TRAP_GENERAL_PROTECTION :: u8 where "TRAP_GENERAL_PROTECTION = 13"
definition TRAP_PAGE_FAULT :: u8 where "TRAP_PAGE_FAULT = 14"
definition TRAP_SYSCALL :: u8 where "TRAP_SYSCALL = 0x80"

definition from_user_mode :: "trap_frame \<Rightarrow> bool" where
  "from_user_mode f \<longleftrightarrow> tf_cs f AND 0x3 = 0x3"

definition rust_trap_entry :: "trap_frame \<Rightarrow> kernel \<Rightarrow> (trap_outcome \<times> kernel) sched option" where
  "rust_trap_entry f k =
     (let vector = (ucast (tf_vector f) :: u8)
      in if vector = TRAP_SYSCALL then dispatch f k
         else if vector = TRAP_INVALID_OPCODE \<or> vector = TRAP_GENERAL_PROTECTION \<or> vector = TRAP_PAGE_FAULT
         then Some (if from_user_mode f then syscall_exit 1 k else Panic)
         else Some Panic)"

end
