(* ===== verification/System_Inv.thy ===== *)
theory System_Inv
  imports Syscall
begin

text \<open>
  The invariant of the running system, across the scheduler, the allocator and the page tables: every
  process owns its frames, reaches only them in the user range, and shares none of them with another
  process, with another process's page tables or with free memory.
\<close>

section \<open>The invariant\<close>

abbreviation root_of :: "process \<Rightarrow> u64" where "root_of p \<equiv> as_root_paddr (pc_address_space p)"
abbreviation pages_of :: "process \<Rightarrow> u64 list" where "pages_of p \<equiv> owned_list (pc_owned_pages p)"
abbreviation kn_memory :: "kernel \<Rightarrow> memory" where "kn_memory k \<equiv> km_memory (kn_mem k)"
abbreviation kn_alloc :: "kernel \<Rightarrow> physical_allocator" where "kn_alloc k \<equiv> ms_allocator (km_state (kn_mem k))"
abbreviation kn_free :: "kernel \<Rightarrow> u64 set" where "kn_free k \<equiv> free_set (kn_alloc k)"

text \<open>The memory a process depends on: its page tables and its frames.\<close>

definition footprint :: "memory \<Rightarrow> process \<Rightarrow> u64 set" where
  "footprint m p = table_bytes m (root_of p) \<union> frame_bytes (pages_of p)"

definition space_ok :: "memory \<Rightarrow> u64 set \<Rightarrow> process \<Rightarrow> bool" where
  "space_ok m F p \<longleftrightarrow> space_inv m (root_of p) F \<and> space_confined m (root_of p) (pages_of p) \<and>
     owned_pages_wf (pc_owned_pages p) \<and> (\<forall>c \<in> set (pages_of p). frame_ok c \<and> c \<noteq> 0) \<and> footprint m p \<inter> F = {}"

definition spaces_apart :: "memory \<Rightarrow> scheduler_state \<Rightarrow> bool" where
  "spaces_apart m st \<longleftrightarrow>
     (\<forall>i j p q. process_at st i p \<and> process_at st j q \<and> i \<noteq> j \<longrightarrow> frame_bytes (pages_of p) \<inter> footprint m q = {})"

definition memory_ok :: "kernel \<Rightarrow> bool" where
  "memory_ok k \<longleftrightarrow> alloc_inv (kn_alloc k) \<and> frames_ok (kn_alloc k) \<and> layout_ok (km_state (kn_mem k))"

definition kernel_inv :: "kernel \<Rightarrow> bool" where
  "kernel_inv k \<longleftrightarrow> live_inv (kn_sched k) \<and> memory_ok k \<and>
     (\<forall>i p. process_at (kn_sched k) i p \<longrightarrow> space_ok (kn_memory k) (kn_free k) p) \<and>
     spaces_apart (kn_memory k) (kn_sched k)"

lemma kernel_invD:
  assumes "kernel_inv k"
  shows "live_inv (kn_sched k)" "sched_inv (kn_sched k)" "memory_ok k"
    "process_at (kn_sched k) i p \<Longrightarrow> space_ok (kn_memory k) (kn_free k) p"
    "process_at (kn_sched k) i p \<Longrightarrow> process_at (kn_sched k) j q \<Longrightarrow> i \<noteq> j \<Longrightarrow>
       frame_bytes (pages_of p) \<inter> footprint (kn_memory k) q = {}"
  using assms by (auto simp: kernel_inv_def spaces_apart_def live_inv_def)

lemma space_okD:
  assumes "space_ok m F p"
  shows "space_inv m (root_of p) F" "space_confined m (root_of p) (pages_of p)" "owned_pages_wf (pc_owned_pages p)"
    "\<forall>c \<in> set (pages_of p). frame_ok c" "\<forall>c \<in> set (pages_of p). frame_ok c \<and> c \<noteq> 0" "footprint m p \<inter> F = {}"
  using assms by (auto simp: space_ok_def)

section \<open>Steps that keep the tables\<close>

lemma space_ok_step:
  assumes ok: "space_ok m F p" and tab: "\<And>x. x \<in> table_bytes m (root_of p) \<Longrightarrow> m' x = m x"
    and F': "footprint m p \<inter> F' = {}" and same: "pc_address_space p' = pc_address_space p" "pc_owned_pages p' = pc_owned_pages p"
  shows "space_ok m' F' p'" "footprint m' p' = footprint m p"
proof -
  note D = space_okD [OF ok] and O = space_outside_tables [OF space_okD(1) [OF ok] tab]
  show fp: "footprint m' p' = footprint m p" using O(5) same by (simp add: footprint_def)
  have "block t PAGE_SIZE \<inter> F' = {}" if "good_path q" "table_at m' (root_of p) q = Some t" for q t
  proof -
    have "block t PAGE_SIZE \<subseteq> table_bytes m' (root_of p)" using that unfolding table_bytes_def by blast
    with O(5) F' show ?thesis unfolding footprint_def by blast
  qed
  with O(1) have sp: "space_inv m' (root_of p) F'" unfolding space_inv_def by blast
  have "huge_at m' (root_of p) (pd_path w) (pd_index w) = huge_at m (root_of p) (pd_path w) (pd_index w)" for w
    using O(3) [of "pd_path w" "pd_index w"] by (simp add: good_path_snoc)
  then have "space_confined m' (root_of p) (pages_of p)"
    using D(2) O(4,5) by (simp only: space_confined_def)
  with sp D(3,5) F' fp show "space_ok m' F' p'" by (simp add: space_ok_def same)
qed

text \<open>Every process of the new state is an old one in the same slot with the same space.\<close>

definition same_spaces :: "scheduler_state \<Rightarrow> scheduler_state \<Rightarrow> bool" where
  "same_spaces st st' \<longleftrightarrow> (\<forall>i p'. process_at st' i p' \<longrightarrow>
     (\<exists>p. process_at st i p \<and> pc_address_space p' = pc_address_space p \<and> pc_owned_pages p' = pc_owned_pages p))"

lemma kernel_inv_step:
  assumes inv: "kernel_inv k" and live: "live_inv (kn_sched k')" and mem: "memory_ok k'"
    and sp: "same_spaces (kn_sched k) (kn_sched k')"
    and tab: "\<And>i p p' x. process_at (kn_sched k) i p \<Longrightarrow> process_at (kn_sched k') i p' \<Longrightarrow>
        x \<in> table_bytes (kn_memory k) (root_of p) \<Longrightarrow> kn_memory k' x = kn_memory k x"
    and free: "\<And>i p p'. process_at (kn_sched k) i p \<Longrightarrow> process_at (kn_sched k') i p' \<Longrightarrow>
        footprint (kn_memory k) p \<inter> kn_free k' = {}"
  shows "kernel_inv k'"
proof -
  note I = kernel_invD [OF inv]
  have S: "space_ok (kn_memory k') (kn_free k') p'"
      "\<exists>p. process_at (kn_sched k) i p \<and> pages_of p' = pages_of p \<and> footprint (kn_memory k') p' = footprint (kn_memory k) p"
    if p': "process_at (kn_sched k') i p'" for i p'
  proof -
    obtain p where p: "process_at (kn_sched k) i p" "pc_address_space p' = pc_address_space p" "pc_owned_pages p' = pc_owned_pages p"
      using sp p' unfolding same_spaces_def by blast
    note step = space_ok_step [OF I(4) [OF p(1)] tab [OF p(1) p'] free [OF p(1) p'] p(2,3)]
    show "space_ok (kn_memory k') (kn_free k') p'"
      "\<exists>p. process_at (kn_sched k) i p \<and> pages_of p' = pages_of p \<and> footprint (kn_memory k') p' = footprint (kn_memory k) p"
      using step p by auto
  qed
  have "spaces_apart (kn_memory k') (kn_sched k')"
    unfolding spaces_apart_def using S(2) I(5) by metis
  with S(1) live mem show ?thesis by (simp add: kernel_inv_def)
qed

end
