(* ===== verification/Quiet_Calls.thy ===== *)
theory Quiet_Calls
  imports System_Inv
begin

text \<open>
  The system calls that answer at once: streams, working directory, environment, files and
  directories. Each changes at most the caller's own process entry and memory in the caller's own
  frames outside its page tables, so it keeps the system invariant and every other process's memory.
\<close>

section \<open>Quiet steps\<close>

definition quiet :: "process_id \<Rightarrow> process \<Rightarrow> kernel \<Rightarrow> kernel \<Rightarrow> bool" where
  "quiet pid p k k' \<longleftrightarrow>
     km_state (kn_mem k') = km_state (kn_mem k) \<and>
     (\<forall>x. kn_memory k' x = kn_memory k x \<or> x \<in> frame_bytes (pages_of p) \<and> x \<notin> table_bytes (kn_memory k) (root_of p)) \<and>
     (\<exists>p'. kn_sched k' = put_process pid p' (kn_sched k) \<and> process_inv p' \<and> pc_waiting_thread p' = pc_waiting_thread p \<and>
        pc_address_space p' = pc_address_space p \<and> pc_owned_pages p' = pc_owned_pages p)"

text \<open>What another process is guaranteed: its entry and all memory it depends on.\<close>

definition undisturbed :: "process_id \<Rightarrow> kernel \<Rightarrow> kernel \<Rightarrow> bool" where
  "undisturbed pid k k' \<longleftrightarrow>
     (\<forall>j q. j \<noteq> pid \<and> process_at (kn_sched k) j q \<longrightarrow>
        process_at (kn_sched k') j q \<and> (\<forall>x \<in> footprint (kn_memory k) q. kn_memory k' x = kn_memory k x))"

lemma put_same: "process_at st pid p \<Longrightarrow> put_process pid p st = st"
  by (auto simp: put_process_def slot_at_def intro!: scheduler_state.equality list_update_same_conv [THEN iffD2])

lemma process_at_put: "process_at st pid p \<Longrightarrow> process_at (put_process pid p' st) j q \<longleftrightarrow> (if j = pid then q = p' else process_at st j q)"
  by (auto simp: put_process_def dest: slot_at_bound)

lemma quiet_refl [intro]:
  assumes "kernel_inv k" "process_at (kn_sched k) pid p" "kn_mem k' = kn_mem k" "kn_sched k' = kn_sched k"
  shows "quiet pid p k k'"
  using assms put_same [OF assms(2)] sched_invD(5) [OF kernel_invD(2) [OF assms(1)] assms(2)]
  unfolding quiet_def by (intro conjI exI [of _ p]) simp_all

lemma quiet_process [intro]:
  assumes "kn_mem k' = kn_mem k" "kn_sched k' = put_process pid p' (kn_sched k)" "process_inv p'"
    "pc_waiting_thread p' = pc_waiting_thread p" "pc_address_space p' = pc_address_space p" "pc_owned_pages p' = pc_owned_pages p"
  shows "quiet pid p k k'"
  using assms unfolding quiet_def by (intro conjI exI [of _ p']) simp_all

lemma quiet_inv:
  assumes inv: "kernel_inv k" and p: "process_at (kn_sched k) pid p" and q: "quiet pid p k k'"
  shows "kernel_inv k'" "undisturbed pid k k'"
proof -
  note I = kernel_invD [OF inv]
  obtain p' where p': "kn_sched k' = put_process pid p' (kn_sched k)" "process_inv p'" "pc_waiting_thread p' = pc_waiting_thread p"
    "pc_address_space p' = pc_address_space p" "pc_owned_pages p' = pc_owned_pages p" using q by (auto simp: quiet_def)
  have m: "kn_memory k' x = kn_memory k x \<or> x \<in> frame_bytes (pages_of p) \<and> x \<notin> table_bytes (kn_memory k) (root_of p)" for x
    using q by (simp add: quiet_def)
  have at: "process_at (kn_sched k') j q \<longleftrightarrow> (if j = pid then q = p' else process_at (kn_sched k) j q)" for j q
    using process_at_put [OF p] p'(1) by simp
  have other: "kn_memory k' x = kn_memory k x" if "j \<noteq> pid" "process_at (kn_sched k) j q" "x \<in> footprint (kn_memory k) q" for j q x
    using m [of x] I(5) [OF p that(2)] that by blast
  show "undisturbed pid k k'" using other at unfolding undisturbed_def by metis
  have live: "live_inv (kn_sched k')"
    using update_process_inv [OF I(2) p p'(2,3)] I(1) p'(1) by (simp add: live_inv_def put_process_def)
  have st: "km_state (kn_mem k') = km_state (kn_mem k)" using q by (simp add: quiet_def)
  show "kernel_inv k'"
  proof (rule kernel_inv_step [OF inv live])
    show "memory_ok k'" using I(3) st by (simp add: memory_ok_def)
    show "same_spaces (kn_sched k) (kn_sched k')" using at p p'(4,5) by (auto simp: same_spaces_def)
  next
    fix i r r' x assume r: "process_at (kn_sched k) i r" and x: "x \<in> table_bytes (kn_memory k) (root_of r)"
    show "kn_memory k' x = kn_memory k x"
    proof (cases "i = pid")
      case True
      then have "r = p" using r p by (auto dest: slot_at_unique)
      with m [of x] x show ?thesis by simp
    next
      case False
      with other r x show ?thesis by (simp add: footprint_def)
    qed
  next
    fix i r r' assume "process_at (kn_sched k) i r"
    then show "footprint (kn_memory k) r \<inter> kn_free k' = {}" using space_okD(6) [OF I(4)] st by simp
  qed
qed

section \<open>The current process and its memory\<close>

lemma current_process_user:
  assumes inv: "kernel_inv k" and c: "sc_current_thread (kn_sched k) = Some c" "thread_at (kn_sched k) c t"
  obtains p where "process_at (kn_sched k) (th_process_id t) p" "current_process (kn_sched k) = Ok (Some (th_process_id t, p))"
    "current_root k = Ok (root_of p)"
proof -
  obtain p where p: "process_at (kn_sched k) (th_process_id t) p" using sched_invD(4) [OF kernel_invD(2) [OF inv] c(2)] by blast
  have "current_process (kn_sched k) = Ok (Some (th_process_id t, p))"
    using c p by (simp add: current_process_def sched_thread_eq sched_process_eq)
  with p that show ?thesis by (simp add: current_root_def)
qed

lemma quiet_flush:
  assumes inv: "kernel_inv k" and p: "process_at (kn_sched k) pid p" "current_process (kn_sched k) = Ok (Some (pid, p))"
    and r: "user_slice a len = Some r" and f: "flush_user r n new (k\<lparr>kn_io := io\<rparr>) = Ok k'"
  shows "quiet pid p k k'"
proof -
  have "current_root (k\<lparr>kn_io := io\<rparr>) = Ok (root_of p)" using p(2) by (simp add: current_root_def)
  with f obtain m where m: "user_flush (kn_wp k) (root_of p) r n new (kn_memory k) = (Ok m :: memory sched)"
    "k' = k\<lparr>kn_io := io, kn_mem := (kn_mem k)\<lparr>km_memory := m\<rparr>\<rparr>" by (auto simp: flush_user_def)
  note S = space_okD [OF kernel_invD(4) [OF inv p(1)]]
  have "m x = kn_memory k x \<or> x \<in> frame_bytes (pages_of p) \<and> x \<notin> table_bytes (kn_memory k) (root_of p)" for x
    by (rule user_flush_confined [OF S(2,4) r m(1)])
  moreover have "process_inv p" by (rule sched_invD(5) [OF kernel_invD(2) [OF inv] p(1)])
  ultimately show ?thesis
    using m(2) put_same [OF p(1)] unfolding quiet_def by (intro conjI exI [of _ p]) simp_all
qed

lemma quiet_flush': 
  assumes "kernel_inv k" "process_at (kn_sched k) pid p" "current_process (kn_sched k) = Ok (Some (pid, p))"
    "user_slice a len = Some r" "flush_user r n new k = Ok k'"
  shows "quiet pid p k k'"
  using quiet_flush [OF assms(1-4), of n new "kn_io k"] assms(5) by simp

section \<open>One lemma per call\<close>

lemma syscall_read_quiet:
  assumes k: "kernel_inv k" "process_at (kn_sched k) pid p" "current_process (kn_sched k) = Ok (Some (pid, p))"
    and c: "syscall_read fd a len k = Ok (v, k')"
  shows "quiet pid p k k'"
  using c quiet_flush [OF k] quiet_refl [OF k(1,2)]
  by (auto simp: syscall_read_def split: option.splits)

lemma syscall_write_quiet:
  assumes k: "kernel_inv k" "process_at (kn_sched k) pid p" "current_process (kn_sched k) = Ok (Some (pid, p))"
    and c: "syscall_write fd a len k = Ok (v, k')"
  shows "quiet pid p k k'"
  using c by (intro quiet_refl [OF k(1,2)]) (auto simp: syscall_write_def Let_def split: option.splits)

lemma syscall_getcwd_quiet:
  assumes k: "kernel_inv k" "process_at (kn_sched k) pid p" "current_process (kn_sched k) = Ok (Some (pid, p))"
    and c: "syscall_getcwd a len k = Ok (v, k')"
  shows "quiet pid p k k'"
  using c quiet_flush' [OF k] quiet_refl [OF k(1,2)]
  by (auto simp: syscall_getcwd_def split: option.splits)

lemma syscall_read_dir_quiet:
  assumes k: "kernel_inv k" "process_at (kn_sched k) pid p" "current_process (kn_sched k) = Ok (Some (pid, p))"
    and c: "syscall_read_dir a len b blen k = Some (Ok (v, k'))"
  shows "quiet pid p k k'"
  using c quiet_flush' [OF k] quiet_refl [OF k(1,2)]
  by (auto simp: syscall_read_dir_def split: option.splits outcome.splits) (metis outcome.exhaust)

lemma syscall_read_file_quiet:
  assumes k: "kernel_inv k" "process_at (kn_sched k) pid p" "current_process (kn_sched k) = Ok (Some (pid, p))"
    and c: "syscall_read_file a len b blen k = Some (Ok (v, k'))"
  shows "quiet pid p k k'"
  using c quiet_flush' [OF k] quiet_refl [OF k(1,2)]
  by (auto simp: syscall_read_file_def split: option.splits outcome.splits) (metis outcome.exhaust)

lemma syscall_get_env_quiet:
  assumes k: "kernel_inv k" "process_at (kn_sched k) pid p" "current_process (kn_sched k) = Ok (Some (pid, p))"
    and c: "syscall_get_env a len b blen k = Ok (v, k')"
  shows "quiet pid p k k'"
  using c quiet_flush' [OF k] quiet_refl [OF k(1,2)]
  by (auto simp: syscall_get_env_def split: option.splits outcome.splits prod.splits) (metis outcome.exhaust prod.exhaust)

lemma syscall_list_env_quiet:
  assumes k: "kernel_inv k" "process_at (kn_sched k) pid p" "current_process (kn_sched k) = Ok (Some (pid, p))"
    and c: "syscall_list_env a len k = Ok (v, k')"
  shows "quiet pid p k k'"
  using c quiet_flush' [OF k] quiet_refl [OF k(1,2)]
  by (auto simp: syscall_list_env_def split: option.splits outcome.splits prod.splits) (metis outcome.exhaust prod.exhaust)

text \<open>Changing the environment or the working directory keeps the process well formed.\<close>

lemma set_env_put:
  assumes "process_inv p" "current_process st = Ok (Some (pid, p))" "utf8_valid key" "utf8_valid val"
    "current_process_set_env key val st = (r, st')" "r \<noteq> Panic"
  shows "st' = st \<or> (\<exists>env. st' = put_process pid (p\<lparr>pc_env := env\<rparr>) st \<and> process_inv (p\<lparr>pc_env := env\<rparr>))"
proof (cases "env_set key val (pc_env p)")
  case (Ok env)
  have "env_inv env"
    using env_apply_spec [of "pc_env p" "EnvSet key val"] Ok assms(1,3,4) by (simp add: process_inv_def)
  then show ?thesis using Ok assms by (simp add: current_process_set_env_def process_inv_def) blast
qed (use assms in \<open>simp_all add: current_process_set_env_def\<close>)

lemma unset_env_put:
  assumes "process_inv p" "current_process st = Ok (Some (pid, p))" "utf8_valid key"
    "current_process_unset_env key st = (r, st')" "r \<noteq> Panic"
  shows "st' = st \<or> (\<exists>env. st' = put_process pid (p\<lparr>pc_env := env\<rparr>) st \<and> process_inv (p\<lparr>pc_env := env\<rparr>))"
proof (cases "env_remove key (pc_env p)")
  case (Ok res)
  obtain removed env where res: "res = (removed, env)" by (cases res)
  have "validate_key key = Ok ()" using Ok by (auto simp: env_remove_def)
  then have "env_inv env"
    using env_remove_eq [of "pc_env p" key] Ok res assms(1,3) by (auto simp: process_inv_def env_good_key_def)
  then show ?thesis using Ok res assms by (auto simp: current_process_unset_env_def process_inv_def)
qed (use assms in \<open>simp_all add: current_process_unset_env_def\<close>)

lemma chdir_put:
  assumes inv: "process_inv p" and c: "current_process st = Ok (Some (pid, p))" "current_process_chdir root path st = Some (r, st')"
  shows "st' = st \<or> (\<exists>target p'. resolve_for p path = Ok target \<and> ensure_root_dir root target = Some (Ok ()) \<and> r = Ok () \<and>
     st' = put_process pid p' st \<and> process_inv p' \<and> cwd_text p' = target \<and> p' = p\<lparr>pc_cwd := pc_cwd p', pc_cwd_len := pc_cwd_len p'\<rparr>)"
proof (cases "st' = st")
  case False
  obtain target where t: "resolve_for p path = Ok target"
    using False c by (cases "resolve_for p path") (auto simp: current_process_chdir_def)
  obtain d where d: "ensure_root_dir root target = Some (Ok d)"
    using False c t by (cases "ensure_root_dir root target") (auto simp: current_process_chdir_def split: outcome.splits)
  obtain x p' where s: "process_set_cwd target p = (Ok (Some x, p') :: (unit option \<times> process) sched)" "r = Ok ()" "st' = put_process pid p' st"
    using False c t d by (auto simp: current_process_chdir_def split: outcome.splits option.splits prod.splits)
  have u: "utf8_valid target"
    using t by (auto simp: resolve_for_def normalized_path_as_str_def from_utf8_def ok_or_def split: if_splits option.splits)
  have "target \<noteq> []" "hd target = 0x2f" "length target \<le> MAX_CWD_LEN"
    using s(1) inv by (auto simp: process_set_cwd_def process_inv_def split: if_splits)
  from process_set_cwd_ok [OF inv this u, where 'a = unit] s t d show ?thesis by auto
qed simp

lemma quiet_env:
  assumes k: "kernel_inv k" "process_at (kn_sched k) pid p" and k': "k' = k\<lparr>kn_sched := st\<rparr>"
    and st: "st = kn_sched k \<or> (\<exists>env. st = put_process pid (p\<lparr>pc_env := env\<rparr>) (kn_sched k) \<and> process_inv (p\<lparr>pc_env := env\<rparr>))"
  shows "quiet pid p k k'"
  using st
proof (elim disjE exE conjE)
  fix env assume "st = put_process pid (p\<lparr>pc_env := env\<rparr>) (kn_sched k)" "process_inv (p\<lparr>pc_env := env\<rparr>)"
  then show ?thesis using k' by (intro quiet_process [where p' = "p\<lparr>pc_env := env\<rparr>"]) simp_all
qed (use k' quiet_refl [OF k, of k'] in simp)

lemma syscall_set_env_quiet:
  assumes k: "kernel_inv k" "process_at (kn_sched k) pid p" "current_process (kn_sched k) = Ok (Some (pid, p))"
    and c: "syscall_set_env a len b blen k = Ok (v, k')"
  shows "quiet pid p k k'"
proof -
  have p: "process_inv p" by (rule sched_invD(5) [OF kernel_invD(2) [OF k(1)] k(2)])
  show ?thesis
  proof (cases "k' = k")
    case False
    obtain kr where kr: "user_slice a len = Some kr" using c False by (cases "user_slice a len") (simp_all add: syscall_set_env_def)
    obtain key where key: "load_user kr k = Ok key" "utf8_valid key"
      using c False kr by (cases "load_user kr k") (auto simp: syscall_set_env_def from_utf8_def split: if_splits)
    obtain vr where vr: "user_slice b blen = Some vr"
      using c False kr key by (cases "user_slice b blen") (simp_all add: syscall_set_env_def from_utf8_def)
    obtain val where val: "load_user vr k = Ok val" "utf8_valid val"
      using c False kr key vr by (cases "load_user vr k") (auto simp: syscall_set_env_def from_utf8_def split: if_splits)
    obtain r st where r: "current_process_set_env key val (kn_sched k) = (r, st)" by fastforce
    have "r \<noteq> Panic" "k' = k\<lparr>kn_sched := st\<rparr>"
      using c kr key vr val r by (auto simp: syscall_set_env_def from_utf8_def split: outcome.splits)
    with set_env_put [OF p k(3) key(2) val(2) r] show ?thesis by (intro quiet_env [OF k(1,2)]) simp_all
  qed (use quiet_refl [OF k(1,2)] in simp)
qed

lemma syscall_unset_env_quiet:
  assumes k: "kernel_inv k" "process_at (kn_sched k) pid p" "current_process (kn_sched k) = Ok (Some (pid, p))"
    and c: "syscall_unset_env a len k = Ok (v, k')"
  shows "quiet pid p k k'"
proof -
  have p: "process_inv p" by (rule sched_invD(5) [OF kernel_invD(2) [OF k(1)] k(2)])
  show ?thesis
  proof (cases "k' = k")
    case False
    obtain kr where kr: "user_slice a len = Some kr" using c False by (cases "user_slice a len") (simp_all add: syscall_unset_env_def)
    obtain key where key: "load_user kr k = Ok key" "utf8_valid key"
      using c False kr by (cases "load_user kr k") (auto simp: syscall_unset_env_def from_utf8_def split: if_splits)
    obtain r st where r: "current_process_unset_env key (kn_sched k) = (r, st)" by fastforce
    have "r \<noteq> Panic" "k' = k\<lparr>kn_sched := st\<rparr>"
      using c kr key r by (auto simp: syscall_unset_env_def from_utf8_def split: outcome.splits)
    with unset_env_put [OF p k(3) key(2) r] show ?thesis by (intro quiet_env [OF k(1,2)]) simp_all
  qed (use quiet_refl [OF k(1,2)] in simp)
qed

lemma syscall_chdir_quiet:
  assumes k: "kernel_inv k" "process_at (kn_sched k) pid p" "current_process (kn_sched k) = Ok (Some (pid, p))"
    and c: "syscall_chdir a len k = Some (Ok (v, k'))"
  shows "quiet pid p k k'"
proof -
  have p: "process_inv p" by (rule sched_invD(5) [OF kernel_invD(2) [OF k(1)] k(2)])
  show ?thesis
  proof (cases "k' = k")
    case False
    obtain kr where kr: "user_slice a len = Some kr" using c False by (cases "user_slice a len") (simp_all add: syscall_chdir_def)
    obtain path where path: "load_user kr k = Ok path" "from_utf8 path = Some path"
      using c False kr by (cases "load_user kr k") (auto simp: syscall_chdir_def from_utf8_def split: if_splits)
    obtain r st where r: "current_process_chdir (kn_root k) path (kn_sched k) = Some (r, st)"
      using c kr path by (cases "current_process_chdir (kn_root k) path (kn_sched k)") (auto simp: syscall_chdir_def)
    have k': "k' = k\<lparr>kn_sched := st\<rparr>" using c kr path r by (auto simp: syscall_chdir_def split: outcome.splits)
    from chdir_put [OF p k(3) r] show ?thesis
    proof (elim disjE exE conjE)
      fix target p' assume q: "st = put_process pid p' (kn_sched k)" "process_inv p'" "p' = p\<lparr>pc_cwd := pc_cwd p', pc_cwd_len := pc_cwd_len p'\<rparr>"
      have "pc_waiting_thread p' = pc_waiting_thread p" "pc_address_space p' = pc_address_space p" "pc_owned_pages p' = pc_owned_pages p"
        by (subst q(3), simp)+
      with q(1,2) k' show ?thesis by (intro quiet_process [where p' = p']) simp_all
    qed (use k' quiet_refl [OF k(1,2), of k'] in simp)
  qed (use quiet_refl [OF k(1,2)] in simp)
qed

end
