(* ===== verification/Switching_Calls.thy ===== *)
theory Switching_Calls
  imports Quiet_Calls
begin

text \<open>
  The calls that give up the processor: yielding, exiting and spawning a child. Yielding touches no
  process; exiting returns the caller's frames to the allocator; spawning takes free frames for the
  child and writes nothing else.
\<close>

section \<open>Yield\<close>

lemma same_spaces_refl: "sc_processes st' = sc_processes st \<Longrightarrow> same_spaces st st'"
  by (auto simp: same_spaces_def)

lemma unchanged_processes:
  assumes inv: "kernel_inv k" and live: "live_inv (kn_sched k')"
    and same: "sc_processes (kn_sched k') = sc_processes (kn_sched k)" "kn_mem k' = kn_mem k"
  shows "kernel_inv k'" "undisturbed pid k k'"
proof -
  note I = kernel_invD [OF inv]
  show "kernel_inv k'"
    by (rule kernel_inv_step [OF inv live])
      (use I(3) same space_okD(6) [OF I(4)] in \<open>auto simp: memory_ok_def same_spaces_def\<close>)
  show "undisturbed pid k k'" using same by (simp add: undisturbed_def)
qed

lemma yield_processes:
  assumes "live_inv st" "yield_now st = Ok (r, st')"
  shows "live_inv st'" "sc_processes st' = sc_processes st"
proof -
  obtain c where "sched_inv st" "sc_current_thread st = Some c" using assms(1) by (auto simp: live_inv_def)
  from yield_cases [OF this] assms(2) show "sc_processes st' = sc_processes st" by auto
  show "live_inv st'" by (rule step_live [OF sched_step.yield [OF assms(2)] assms(1)])
qed

lemma syscall_yield_isolated:
  assumes "kernel_inv k" "syscall_yield k = Ok (r, k')"
  shows "kernel_inv k'" "undisturbed pid k k'"
proof -
  obtain sw st where y: "yield_now (kn_sched k) = Ok (sw, st)" "k' = k\<lparr>kn_sched := st\<rparr>"
    using assms(2) by (auto simp: syscall_yield_def)
  note Y = yield_processes [OF kernel_invD(1) [OF assms(1)] y(1)]
  show "kernel_inv k'" "undisturbed pid k k'"
    using unchanged_processes [OF assms(1), of k'] Y y(2) by simp_all
qed

section \<open>Exit\<close>

lemma thread_mut_processes: "thread_mut i f st = Ok st' \<Longrightarrow> sc_processes st' = sc_processes st"
  by (auto simp: thread_mut_def)

lemma exit_processes:
  assumes "sc_current_thread st = Some c" "thread_at st c tc" "process_at st (th_process_id tc) p"
    "prepare_exit_current_process status st = Ok (Some (Switch sw), st')"
  shows "sc_processes st' = (sc_processes st)[th_process_id tc := None]" "ex_released_pages sw = pc_owned_pages p"
proof -
  have b: "th_process_id tc < length (sc_processes st)" "sc_processes st ! th_process_id tc = Some p"
    using assms(3) by (simp_all add: slot_at_def)
  show "sc_processes st' = (sc_processes st)[th_process_id tc := None]" "ex_released_pages sw = pc_owned_pages p"
    using assms b
    by (auto simp: prepare_exit_current_process_def Let_def process_take_waiting_thread_def process_take_owned_pages_def
        process_mark_exited_def sched_process_def thread_mut_processes split: if_splits option.splits dest!: thread_mut_processes)
qed

lemma with_allocator_Ok:
  "with_allocator f km = Ok km' \<longleftrightarrow>
     (\<exists>pa. f (ms_allocator (km_state km)) = Ok pa \<and> km' = km\<lparr>km_state := (km_state km)\<lparr>ms_allocator := pa\<rparr>\<rparr>)"
  by (auto simp: with_allocator_def split: outcome.splits)

lemma layout_ok_allocator [simp]: "layout_ok (ms\<lparr>ms_allocator := pa\<rparr>) = layout_ok ms"
  by (simp add: layout_ok_def range_ok_def framebuffer_mapped_def in_window_def)

lemma syscall_exit_isolated:
  assumes inv: "kernel_inv k" and c: "sc_current_thread (kn_sched k) = Some c" "thread_at (kn_sched k) c tc" "is_user tc"
    and e: "syscall_exit status k = Ok (r, k')"
  shows "(\<exists>sw. r = ExitTo sw \<and> kernel_inv k' \<and> (\<forall>p. process_at (kn_sched k) (th_process_id tc) p \<longrightarrow>
            kn_free k' = kn_free k \<union> frame_bytes (pages_of p))) \<or> (\<exists>out. r = TurnOff out)"
    "undisturbed (th_process_id tc) k k'"
proof -
  note I = kernel_invD [OF inv]
  let ?pid = "th_process_id tc"
  obtain p where p: "process_at (kn_sched k) ?pid p" using sched_invD(4) [OF I(2) c(2)] by blast
  from exit_outcome [OF I(1) c, of status]
  have "((\<exists>sw. r = ExitTo sw \<and> kernel_inv k' \<and> kn_free k' = kn_free k \<union> frame_bytes (pages_of p)) \<or> (\<exists>out. r = TurnOff out)) \<and>
    undisturbed ?pid k k'"
  proof (elim disjE exE conjE)
    fix pages st' assume x: "prepare_exit_current_process status (kn_sched k) = Ok (Some (Shutdown pages), st')"
    have "sc_processes st' = (sc_processes (kn_sched k))[?pid := None]"
      using x c p by (auto simp: prepare_exit_current_process_def Let_def process_take_waiting_thread_def slot_at_def
          process_take_owned_pages_def process_mark_exited_def sched_process_def split: if_splits option.splits)
    then show ?thesis
      using x e by (auto simp: syscall_exit_def exit_current_process_def Let_def undisturbed_def split: prod.splits)
  next
    fix sw st' assume x: "prepare_exit_current_process status (kn_sched k) = Ok (Some (Switch sw), st')" and live: "live_inv st'"
    note P = exit_processes [OF c(1,2) p x]
    obtain pa where pa: "owned_pages_release (pc_owned_pages p) (kn_alloc k) = Ok pa" "r = ExitTo sw"
      "k' = k\<lparr>kn_sched := st', kn_mem := (kn_mem k)\<lparr>km_state := (km_state (kn_mem k))\<lparr>ms_allocator := pa\<rparr>\<rparr>\<rparr>"
      using x e P(2) by (auto simp: syscall_exit_def exit_current_process_def Let_def with_allocator_Ok)
    note S = space_okD [OF I(4) [OF p]]
    have R: "alloc_inv pa" "frames_ok pa" "free_set pa = kn_free k \<union> frame_bytes (pages_of p)"
      using owned_pages_release_frames [OF _ _ S(3,5), of "kn_alloc k"] I(3) pa(1) by (simp_all add: memory_ok_def)
    have at: "process_at st' j q \<longleftrightarrow> j \<noteq> ?pid \<and> process_at (kn_sched k) j q" for j q using P(1) by auto
    have "kernel_inv k'"
    proof (rule kernel_inv_step [OF inv])
      show "live_inv (kn_sched k')" "memory_ok k'" using live I(3) R pa(3) by (simp_all add: memory_ok_def)
      show "same_spaces (kn_sched k) (kn_sched k')" using at pa(3) by (auto simp: same_spaces_def)
    next
      fix i q q' assume q: "process_at (kn_sched k) i q" "process_at (kn_sched k') i q'"
      then have "i \<noteq> ?pid" using at pa(3) by auto
      then have "frame_bytes (pages_of p) \<inter> footprint (kn_memory k) q = {}" using I(5) [OF p q(1)] by simp
      moreover have "footprint (kn_memory k) q \<inter> kn_free k = {}" by (rule space_okD(6) [OF I(4) [OF q(1)]])
      ultimately show "footprint (kn_memory k) q \<inter> kn_free k' = {}" using R(3) pa(3) by auto
    qed (use pa(3) in simp)
    moreover have "undisturbed ?pid k k'" using at pa(3) by (simp add: undisturbed_def)
    ultimately show ?thesis using pa(2,3) R(3) by simp
  qed
  then show "(\<exists>sw. r = ExitTo sw \<and> kernel_inv k' \<and> (\<forall>p. process_at (kn_sched k) (th_process_id tc) p \<longrightarrow>
            kn_free k' = kn_free k \<union> frame_bytes (pages_of p))) \<or> (\<exists>out. r = TurnOff out)"
    "undisturbed ?pid k k'" using slot_at_unique [OF p] by auto
qed

end
