(* ===== verification/Spawn_Frames.thy ===== *)
theory Spawn_Frames
  imports Switching_Calls
begin

text \<open>
  The memory side of a spawn: the executable is read into a kernel buffer taken from free memory, the
  loader takes further free frames, and the buffer goes back. Nothing outside free memory is written.
\<close>

section \<open>Kernel buffers\<close>

abbreviation buffer_block :: "kernel_buffer \<Rightarrow> u64 set" where
  "buffer_block kb \<equiv> block (kb_start_paddr kb) (kb_page_count kb * PAGE_SIZE)"

definition buffer_ok :: "kernel_buffer \<Rightarrow> bool" where
  "buffer_ok kb \<longleftrightarrow> kb_start_paddr kb \<noteq> 0 \<and> 4096 dvd unat (kb_start_paddr kb) \<and> kb_page_count kb \<noteq> 0 \<and>
     unat (kb_page_count kb * PAGE_SIZE) = unat (kb_page_count kb) * 4096 \<and>
     unat (kb_start_paddr kb) + unat (kb_page_count kb) * 4096 \<le> 2 ^ 52 \<and>
     unat (kb_len kb) \<le> unat (kb_page_count kb) * 4096"

lemma buffer_end:
  assumes "buffer_ok kb"
  shows "unat (kb_start_paddr kb + kb_page_count kb * PAGE_SIZE) = unat (kb_start_paddr kb) + unat (kb_page_count kb) * 4096"
  using assms unat_add_lem [of "kb_start_paddr kb" "kb_page_count kb * PAGE_SIZE"] by (simp add: buffer_ok_def)

lemma in_buffer:
  assumes "buffer_ok kb" "unat (x - kb_start_paddr kb) < unat (kb_page_count kb) * 4096"
  shows "x \<in> buffer_block kb"
proof -
  let ?s = "kb_start_paddr kb" and ?d = "x - kb_start_paddr kb"
  have "unat ?s + unat ?d < 2 ^ 64" using assms by (simp add: buffer_ok_def)
  then have "unat (?s + ?d) = unat ?s + unat ?d" using unat_add_lem [of ?s ?d] by simp
  then have "unat x = unat ?s + unat ?d" by simp
  with assms(2) buffer_end [OF assms(1)] show ?thesis by (simp add: block_def word_le_nat_alt word_less_nat_alt)
qed

lemma page_count_bounds:
  assumes "unat sz \<le> 2 ^ 63"
  shows "unat sz \<le> unat (align_up sz PAGE_SIZE div PAGE_SIZE) * 4096"
proof -
  have "unat (align_up sz PAGE_SIZE) = (unat sz + 4095) div 4096 * 4096"
    using assms by (simp add: PAGE_SIZE_def unat_align_page)
  then have "unat (align_up sz PAGE_SIZE div PAGE_SIZE) = (unat sz + 4095) div 4096" by (simp add: unat_div PAGE_SIZE_def)
  then show ?thesis using round_up_le(1) [of "unat sz"] by simp
qed

lemma allocate_kernel_buffer_frames:
  assumes a: "alloc_inv (ms_allocator (km_state km))" "frames_ok (ms_allocator (km_state km))" and sz: "unat sz \<le> 2 ^ 63"
    and run: "allocate_kernel_buffer sz km = (Ok kb, km')"
  shows "buffer_ok kb" "buffer_block kb \<subseteq> free_set (ms_allocator (km_state km))"
    "\<exists>pa. km_state km' = (km_state km)\<lparr>ms_allocator := pa\<rparr> \<and> alloc_inv pa \<and> frames_ok pa \<and>
       free_set pa = free_set (ms_allocator (km_state km)) - buffer_block kb"
    "x \<notin> buffer_block kb \<Longrightarrow> km_memory km' x = km_memory km x"
proof -
  let ?n = "align_up sz PAGE_SIZE div PAGE_SIZE" and ?pa = "ms_allocator (km_state km)"
  have "buffer_ok kb \<and> buffer_block kb \<subseteq> free_set ?pa \<and>
    (\<exists>pa. km_state km' = (km_state km)\<lparr>ms_allocator := pa\<rparr> \<and> alloc_inv pa \<and> frames_ok pa \<and> free_set pa = free_set ?pa - buffer_block kb) \<and>
    (\<forall>x. x \<notin> buffer_block kb \<longrightarrow> km_memory km' x = km_memory km x)"
  proof (rule allocate_contiguous_cases [OF a(1), of ?n "km_memory km"], goal_cases pages exhausted)
    case (pages r pa)
    have kb: "kb = \<lparr>kb_start_paddr = pr_start r, kb_len = sz, kb_page_count = ?n\<rparr>"
      "km' = \<lparr>km_state = (km_state km)\<lparr>ms_allocator := pa\<rparr>, km_memory = fill_bytes (km_memory km) (pr_start r) 0 (unat (?n * PAGE_SIZE))\<rparr>"
      using run pages(5) by (auto simp: allocate_kernel_buffer_def Let_def split: if_splits)
    have r: "aligned_region r" "pr_start r \<noteq> 0" "unat (pr_end r) \<le> 2 ^ 52" using a(2) pages(1) by (auto simp: frames_ok_def)
    have n0: "?n \<noteq> 0" using pages(3) by auto
    have ok: "buffer_ok kb"
      using r n0 pages(2,4) page_count_bounds [OF sz] by (simp add: buffer_ok_def kb(1) fits_def aligned_region_def)
    have "4096 dvd unat (pr_start r + ?n * PAGE_SIZE)"
      using buffer_end [OF ok] r(1) by (simp add: kb(1) aligned_region_def)
    then have "page_closed (buffer_block kb)"
      using r(1) by (simp add: kb(1) block_def page_closed_range aligned_region_def)
    then have "frames_ok pa"
      using frames_ok_free [OF a(2)] pages(7) by (intro frames_ok_page_closed [OF pages(6)]) (auto simp: kb(1))
    moreover have "km_memory km' x = km_memory km x" if "x \<notin> buffer_block kb" for x
      using in_buffer [OF ok, of x] that pages(4) by (auto simp: kb fill_bytes_def)
    ultimately show ?case using ok pages by (auto simp: kb)
  next
    case exhausted
    with run show ?case by (auto simp: allocate_kernel_buffer_def Let_def split: if_splits)
  qed
  then show "buffer_ok kb" "buffer_block kb \<subseteq> free_set ?pa"
    "\<exists>pa. km_state km' = (km_state km)\<lparr>ms_allocator := pa\<rparr> \<and> alloc_inv pa \<and> frames_ok pa \<and> free_set pa = free_set ?pa - buffer_block kb"
    "x \<notin> buffer_block kb \<Longrightarrow> km_memory km' x = km_memory km x" by blast+
qed

lemma kernel_buffer_release_frames:
  assumes "alloc_inv pa" "frames_ok pa" "buffer_ok kb" "kernel_buffer_release kb pa = Ok pa'"
  shows "alloc_inv pa' \<and> frames_ok pa' \<and> free_set pa' = free_set pa \<union> buffer_block kb"
proof -
  let ?s = "kb_start_paddr kb" and ?e = "kb_start_paddr kb + kb_page_count kb * PAGE_SIZE"
  note e = buffer_end [OF assms(3)]
  have "0 < unat (kb_page_count kb)" using assms(3) by (simp add: buffer_ok_def unat_gt_0)
  then have "?s < ?e" using e by (simp add: word_less_nat_alt)
  moreover have "4096 dvd unat ?e" "unat ?e \<le> 2 ^ 52" unfolding e using assms(3) by (simp_all add: buffer_ok_def)
  moreover have "insert_range pa ?s ?e = Ok pa'"
    using assms(3,4) by (simp add: kernel_buffer_release_def free_contiguous_pages_def buffer_ok_def)
  ultimately show ?thesis
    using insert_frames [OF assms(1,2), of ?s ?e pa'] assms(3) by (simp add: buffer_ok_def block_def)
qed

section \<open>Reading the executable\<close>

lemma read_sectors_length:
  "(case read_sectors fs lba k st of Proceed st' \<Rightarrow> length (snd (snd st')) | Return r st' \<Rightarrow> length (snd (snd st')))
     = length (snd (snd st))"
proof (induction fs lba k st rule: read_sectors.induct)
  case (1 fs lba k remaining written buffer)
  have copy: "length b' = length buffer" if "and_then (slice sector 0 n) (copy_at buffer written) = Ok b'"
    for sector n b' using that by (auto simp: copy_at_def split: if_splits)
  show ?case using 1 copy
    by (subst read_sectors.simps) (auto simp: Let_def simp del: and_then_eq_Ok split: outcome.splits)
qed

lemma read_chain_length:
  assumes "read_chain fs cluster st = Some (r, b)"
  shows "length b = length (snd (snd st))"
proof -
  have "length (snd (r, b)) = length (snd (snd st))"
  proof (rule read_chain.raw_induct [where P = "\<lambda>fs cluster st y. length (snd y) = length (snd (snd st))", rotated])
    show "read_chain fs cluster st = Some (r, b)" by (rule assms)
  next
    fix f fs cluster st y
    assume IH: "\<And>fs cluster st y. f fs cluster st = Some y \<Longrightarrow> length (snd y) = length (snd (snd st))"
      and run: "(if fst st = 0 then Some (Ok (fst (snd st)), snd (snd st))
        else case cluster_to_lba fs cluster of
             Ok cluster_lba \<Rightarrow>
               (case read_sectors fs cluster_lba 0 st of
                  Proceed st' \<Rightarrow>
                    if fst st' = 0 then Some (Ok (fst (snd st')), snd (snd st'))
                    else (case next_cluster fs cluster of
                            Ok cluster' \<Rightarrow> f fs cluster' st'
                          | Err e \<Rightarrow> Some (Err e, snd (snd st'))
                          | Panic \<Rightarrow> Some (Panic, snd (snd st')))
                | Return r st' \<Rightarrow> Some (r, snd (snd st')))
           | Err e \<Rightarrow> Some (Err e, snd (snd st))
           | Panic \<Rightarrow> Some (Panic, snd (snd st))) = Some y"
    have L: "read_sectors fs lba 0 st = Proceed st' \<Longrightarrow> length (snd (snd st')) = length (snd (snd st))"
      "read_sectors fs lba 0 st = Return r' st' \<Longrightarrow> length (snd (snd st')) = length (snd (snd st))" for lba st' r'
      using read_sectors_length [of fs lba 0 st] by simp_all
    show "length (snd y) = length (snd (snd st))"
    proof (cases "fst st = 0")
      case False
      show ?thesis
      proof (cases "cluster_to_lba fs cluster")
        case (Ok lba)
        show ?thesis
        proof (cases "read_sectors fs lba 0 st")
          case (Proceed st')
          with run False Ok L(1) [OF Proceed] IH show ?thesis by (auto split: if_splits outcome.splits)
        qed (use run False Ok L(2) in auto)
      qed (use run False in auto)
    qed (use run in auto)
  qed
  then show ?thesis by simp
qed

lemma read_root_file_frames:
  assumes a: "alloc_inv (ms_allocator (km_state km))" "frames_ok (ms_allocator (km_state km))"
    and run: "read_root_file root path km = Some (r, km')"
  shows "\<exists>pa. km_state km' = (km_state km)\<lparr>ms_allocator := pa\<rparr> \<and> alloc_inv pa \<and> frames_ok pa \<and>
       free_set pa \<subseteq> free_set (ms_allocator (km_state km)) \<and>
       (\<forall>kb. r = Ok kb \<longrightarrow> buffer_ok kb \<and> buffer_block kb \<subseteq> free_set (ms_allocator (km_state km)) \<and>
          free_set pa = free_set (ms_allocator (km_state km)) - buffer_block kb)"
    "x \<notin> free_set (ms_allocator (km_state km)) \<Longrightarrow> km_memory km' x = km_memory km x"
proof -
  let ?pa = "ms_allocator (km_state km)"
  have same: "\<exists>pa. km_state km = (km_state km)\<lparr>ms_allocator := pa\<rparr> \<and> alloc_inv pa \<and> frames_ok pa \<and> free_set pa \<subseteq> free_set ?pa"
    using a by (intro exI [of _ ?pa]) simp
  have "(\<exists>pa. km_state km' = (km_state km)\<lparr>ms_allocator := pa\<rparr> \<and> alloc_inv pa \<and> frames_ok pa \<and> free_set pa \<subseteq> free_set ?pa \<and>
       (\<forall>kb. r = Ok kb \<longrightarrow> buffer_ok kb \<and> buffer_block kb \<subseteq> free_set ?pa \<and> free_set pa = free_set ?pa - buffer_block kb)) \<and>
    (\<forall>x. x \<notin> free_set ?pa \<longrightarrow> km_memory km' x = km_memory km x)"
  proof (cases "km' = km \<and> (\<forall>kb. r \<noteq> Ok kb)")
    case True
    with same show ?thesis by auto
  next
    case False
    obtain fs where fs: "root = Some fs" using run False by (cases root) (auto simp: read_root_file_def)
    obtain entry where entry: "open_absolute fs path = Some (Ok entry)"
      using run fs False by (cases "open_absolute fs path") (auto simp: read_root_file_def rootfs_read_file_def split: outcome.splits)
    obtain al km1 where al: "allocate_kernel_buffer (ucast (fd_size entry)) km = (al, km1)" by fastforce
    have "unat (ucast (fd_size entry) :: u64) \<le> 2 ^ 63"
      using u32_bound [of "fd_size entry"] by (simp add: unat_ucast_u32)
    note A = allocate_kernel_buffer_frames [OF a this]
    obtain kb where kb: "al = Ok kb"
      using run fs entry al False
      by (cases al) (auto simp: read_root_file_def rootfs_read_file_def allocate_kernel_buffer_def Let_def split: if_splits outcome.splits)
    note B = A [OF al [unfolded kb]]
    let ?old = "kernel_buffer_as_slice (km_memory km1) kb"
    obtain r1 contents where c: "fat_read_file fs entry ?old = Some (r1, contents)"
      "r = (case r1 of Ok n \<Rightarrow> Ok kb | Err e \<Rightarrow> Err e | Panic \<Rightarrow> Panic)"
      "km' = km1\<lparr>km_memory := write_mem (km_memory km1) (kb_start_paddr kb) contents\<rparr>"
      using run fs entry al kb by (auto simp: read_root_file_def rootfs_read_file_def)
    have "length contents = length ?old"
      using c(1) read_chain_length by (auto simp: fat_read_file_def split: if_splits dest!: read_chain_length)
    then have len: "length contents \<le> unat (kb_page_count kb) * 4096"
      using B(1) by (simp add: kernel_buffer_as_slice_def read_mem_def buffer_ok_def)
    have "km_memory km' x = km_memory km x" if "x \<notin> buffer_block kb" for x
      using in_buffer [OF B(1), of x] that len B(4) [OF that] by (auto simp: c(3) write_mem_def)
    with B(1-3) c(2,3) show ?thesis by (auto split: outcome.splits)
  qed
  then show "\<exists>pa. km_state km' = (km_state km)\<lparr>ms_allocator := pa\<rparr> \<and> alloc_inv pa \<and> frames_ok pa \<and> free_set pa \<subseteq> free_set ?pa \<and>
       (\<forall>kb. r = Ok kb \<longrightarrow> buffer_ok kb \<and> buffer_block kb \<subseteq> free_set ?pa \<and> free_set pa = free_set ?pa - buffer_block kb)"
    "x \<notin> free_set ?pa \<Longrightarrow> km_memory km' x = km_memory km x" by blast+
qed

end
