(* ===== verification/System_Isolation.thy ===== *)
theory System_Isolation
  imports Spawn_Frames
begin

text \<open>
  The system invariant holds across every system call, and no call of one process changes another
  process's entry, page tables or memory.
\<close>

section \<open>Loading a child\<close>

lemma load_child_frames:
  assumes a: "alloc_inv (ms_allocator (km_state km))" "frames_ok (ms_allocator (km_state km))" and l: "layout_ok (km_state km)"
    and run: "with_builder (load_user_program (km_state km) bytes startup) km = (r, km')" and np: "r \<noteq> Panic"
  defines "F \<equiv> free_set (ms_allocator (km_state km))"
  obtains pa where "km_state km' = (km_state km)\<lparr>ms_allocator := pa\<rparr>" "alloc_inv pa" "frames_ok pa" "free_set pa \<subseteq> F"
    "\<And>x. x \<notin> F \<Longrightarrow> km_memory km' x = km_memory km x"
    "\<And>prog. r = Ok prog \<Longrightarrow>
       space_inv (km_memory km') (as_root_paddr (lp_address_space prog)) (free_set pa) \<and>
       space_confined (km_memory km') (as_root_paddr (lp_address_space prog)) (owned_list (lp_owned_pages prog)) \<and>
       table_bytes (km_memory km') (as_root_paddr (lp_address_space prog)) \<subseteq> frame_bytes (owned_list (lp_owned_pages prog)) \<and>
       owned_pages_wf (lp_owned_pages prog) \<and> (\<forall>c \<in> set (owned_list (lp_owned_pages prog)). frame_ok c \<and> c \<noteq> 0) \<and>
       F = free_set pa \<union> frame_bytes (owned_list (lp_owned_pages prog)) \<and>
       free_set pa \<inter> frame_bytes (owned_list (lp_owned_pages prog)) = {}"
proof -
  let ?st = "\<lparr>vm_memory = km_memory km, vm_alloc = ms_allocator (km_state km), vm_owned = owned_pages_empty\<rparr>"
  obtain st' where st': "load_user_program (km_state km) bytes startup ?st = (r, st')"
    "km' = \<lparr>km_state = (km_state km)\<lparr>ms_allocator := vm_alloc st'\<rparr>, km_memory = vm_memory st'\<rparr>"
    using run by (auto simp: with_builder_def split: prod.splits)
  have "alloc_inv (vm_alloc ?st)" "frames_ok (vm_alloc ?st)" by (simp_all add: a)
  note C = load_user_program_cases [OF l this, of bytes startup]
  show thesis
  proof (cases r)
    case (Ok prog)
    from C st'(1) Ok obtain pages st1 where L: "loader_inv (km_state km) ?st (as_root_paddr (lp_address_space prog)) pages st1"
      "accounts True ?st st1" "st' = st1\<lparr>vm_owned := owned_pages_empty\<rparr>" "lp_owned_pages prog = vm_owned st1" by auto
    note S = loader_inv_space [OF L(1,2)]
    have o: "owned_list (vm_owned ?st) = []" by simp
    show thesis
      by (rule that [of "vm_alloc st1"]) (use S [OF o] st'(2) L(3,4) Ok in \<open>auto simp: F_def\<close>)
  next
    case (Err e)
    with C st' show thesis by (intro that [of "vm_alloc st'"]) (auto simp: F_def)
  qed (use np in simp)
qed

section \<open>Kernel steps in free memory\<close>

lemma free_memory_step:
  assumes inv: "kernel_inv k" and same: "kn_sched k' = kn_sched k" and ok: "memory_ok k'"
    and F: "kn_free k' \<subseteq> kn_free k" and m: "\<And>x. x \<notin> kn_free k \<Longrightarrow> kn_memory k' x = kn_memory k x"
  shows "kernel_inv k'" "undisturbed pid k k'"
proof -
  note I = kernel_invD [OF inv]
  have fp: "footprint (kn_memory k) p \<inter> kn_free k = {}" if "process_at (kn_sched k) i p" for i p
    by (rule space_okD(6) [OF I(4) [OF that]])
  show "undisturbed pid k k'" unfolding undisturbed_def same using fp m by blast
  show "kernel_inv k'"
  proof (rule kernel_inv_step [OF inv _ ok])
    show "live_inv (kn_sched k')" "same_spaces (kn_sched k) (kn_sched k')" using I(1) same by (simp_all add: same_spaces_refl)
  next
    fix i p p' x assume "process_at (kn_sched k) i p" "x \<in> table_bytes (kn_memory k) (root_of p)"
    then show "kn_memory k' x = kn_memory k x" using fp [of i p] m [of x] by (auto simp: footprint_def)
  next
    fix i p p' assume "process_at (kn_sched k) i p"
    then show "footprint (kn_memory k) p \<inter> kn_free k' = {}" using fp [of i p] F by blast
  qed
qed

lemma kernel_inv_add:
  assumes inv: "kernel_inv k" and live: "live_inv st'"
    and slot: "\<And>p. \<not> process_at (kn_sched k) slot p" "slot < length (sc_processes (kn_sched k))"
    and st': "sc_processes st' = (sc_processes (kn_sched k))[slot := Some child]"
    and child: "space_ok (kn_memory k) (kn_free k) child" "footprint (kn_memory k) child \<subseteq> frame_bytes (pages_of child)"
    and apart: "\<And>i q. process_at (kn_sched k) i q \<Longrightarrow> frame_bytes (pages_of child) \<inter> footprint (kn_memory k) q = {}"
  shows "kernel_inv (k\<lparr>kn_sched := st'\<rparr>)" "undisturbed pid k (k\<lparr>kn_sched := st'\<rparr>)"
proof -
  note I = kernel_invD [OF inv]
  have at: "process_at st' i p \<longleftrightarrow> (if i = slot then p = child else process_at (kn_sched k) i p)" for i p
    using slot(2) st' by auto
  have apart': "frame_bytes (pages_of q) \<inter> footprint (kn_memory k) child = {}" if "process_at (kn_sched k) i q" for i q
    using apart [OF that] child(2) by (fastforce simp: footprint_def)
  have "frame_bytes (pages_of p) \<inter> footprint (kn_memory k) q = {}"
    if "process_at st' i p" "process_at st' j q" "i \<noteq> j" for i j p q
    using that at I(5) apart apart' by (metis (full_types))
  then have "spaces_apart (kn_memory k) st'" unfolding spaces_apart_def by blast
  with live I(3,4) child(1) at show "kernel_inv (k\<lparr>kn_sched := st'\<rparr>)"
    by (simp add: kernel_inv_def memory_ok_def)
  show "undisturbed pid k (k\<lparr>kn_sched := st'\<rparr>)" using at slot(1) by (auto simp: undisturbed_def)
qed

section \<open>Spawn\<close>

lemma spawn_processes:
  assumes inv: "sched_inv st" and c: "thread_at st c tc" and parent: "process_at st (th_process_id tc) parent"
    and s: "spawn_and_block img c program silent st = Ok (Inl (Some sw), st')"
  obtains slot child where "\<And>p. \<not> process_at st slot p" "slot < length (sc_processes st)"
    "sc_processes st' = (sc_processes st)[slot := Some child]"
    "pc_address_space child = lp_address_space program" "pc_owned_pages child = lp_owned_pages program"
proof (rule spawn_child_cases [OF inv c parent, of img program silent], goal_cases refused spawned)
  case refused
  with s show ?thesis by (simp add: spawn_and_block_def)
next
  case (spawned slot k child ctx top m)
  let ?st1 = "st\<lparr>sc_processes := (sc_processes st)[slot := Some child],
      sc_threads := (sc_threads st)[k := Some (thread_new k ''user-child-main'' slot
        (UserStart \<lparr>us_entry_point = lp_entry_point program, us_user_stack_top = lp_user_stack_top program\<rparr>) ctx top)], sc_memory := m\<rparr>"
  have "prepare_wait_for_child slot ?st1 = Ok (Some sw, st')" using s unfolding spawn_and_block_def spawned(4) by auto
  then have "sc_processes st' = (sc_processes st)[slot := Some child]"
    by (auto simp: prepare_wait_for_child_def Let_def split: option.splits dest!: thread_mut_processes)
  with first_free_slot [OF spawned(2)] spawned(8,9) show ?thesis by (intro that [of slot child]) auto
qed

text \<open>The child's frames come from memory that was free, so they are apart from every process there was.\<close>

lemma child_added:
  assumes inv: "kernel_inv k" and mem: "kernel_inv (k\<lparr>kn_mem := km\<rparr>)" "\<And>x. x \<notin> kn_free k \<Longrightarrow> km_memory km x = kn_memory k x"
    and live: "live_inv st" and slot: "\<And>p. \<not> process_at (kn_sched k) slot p" "slot < length (sc_processes (kn_sched k))"
      "sc_processes st = (sc_processes (kn_sched k))[slot := Some child]"
    and space: "space_ok (km_memory km) (free_set (ms_allocator (km_state km))) child"
      "table_bytes (km_memory km) (root_of child) \<subseteq> frame_bytes (pages_of child)" "frame_bytes (pages_of child) \<subseteq> kn_free k"
  shows "kernel_inv (k\<lparr>kn_mem := km, kn_sched := st\<rparr>)" "undisturbed pid k (k\<lparr>kn_mem := km, kn_sched := st\<rparr>)"
proof -
  let ?k = "k\<lparr>kn_mem := km\<rparr>"
  have fp: "footprint (km_memory km) q = footprint (kn_memory k) q" "footprint (kn_memory k) q \<inter> kn_free k = {}"
    if q: "process_at (kn_sched k) i q" for i q
  proof -
    have ok: "space_ok (kn_memory k) (kn_free k) q" by (rule kernel_invD(4) [OF inv q])
    show d: "footprint (kn_memory k) q \<inter> kn_free k = {}" by (rule space_okD(6) [OF ok])
    show "footprint (km_memory km) q = footprint (kn_memory k) q"
      by (rule space_ok_step(2) [OF ok _ d]) (use d mem(2) in \<open>auto simp: footprint_def\<close>)
  qed
  have "kernel_inv (?k\<lparr>kn_sched := st\<rparr>)"
    by (rule kernel_inv_add [OF mem(1) live, of slot child]) (use slot space fp in \<open>fastforce simp: footprint_def\<close>)+
  then show "kernel_inv (k\<lparr>kn_mem := km, kn_sched := st\<rparr>)" by simp
  show "undisturbed pid k (k\<lparr>kn_mem := km, kn_sched := st\<rparr>)"
    using fp mem(2) slot by (fastforce simp: undisturbed_def)
qed

lemma start_child_isolated:
  assumes inv: "kernel_inv k" and c: "sc_current_thread (kn_sched k) = Some c" "thread_at (kn_sched k) c tc" "is_user tc"
    and km: "km_state km = (km_state (kn_mem k))\<lparr>ms_allocator := pa\<rparr>" "alloc_inv pa" "frames_ok pa"
      "\<And>x. x \<notin> kn_free k \<Longrightarrow> km_memory km x = kn_memory k x"
    and kb: "buffer_ok kb" "buffer_block kb \<subseteq> kn_free k" "free_set pa = kn_free k - buffer_block kb"
    and run: "start_child c target kb argv silent (k\<lparr>kn_mem := km\<rparr>) = (r, k')" and np: "r \<noteq> Panic"
  shows "kernel_inv k' \<and> undisturbed pid k k'"
proof -
  note I = kernel_invD [OF inv]
  have lay: "layout_ok (km_state (kn_mem k))" using I(3) by (simp add: memory_ok_def)
  have a: "alloc_inv (ms_allocator (km_state km))" "frames_ok (ms_allocator (km_state km))" "layout_ok (km_state km)"
    using km(1-3) lay by simp_all
  obtain r1 km1 where ld: "with_builder (load_user_program (km_state km) (kernel_buffer_as_slice (km_memory km) kb)
      \<lparr>ps_argv0 = target, ps_argv_tail = argv\<rparr>) km = (r1, km1)" by fastforce
  have r1: "r1 \<noteq> Panic" using run np ld by (auto simp: start_child_def)
  show ?thesis
  proof (rule load_child_frames [OF a ld r1])
    fix pa1 assume km1: "km_state km1 = (km_state km)\<lparr>ms_allocator := pa1\<rparr>" "alloc_inv pa1" "frames_ok pa1"
        "free_set pa1 \<subseteq> free_set (ms_allocator (km_state km))"
        "\<And>x. x \<notin> free_set (ms_allocator (km_state km)) \<Longrightarrow> km_memory km1 x = km_memory km x"
      and prog: "\<And>prog. r1 = Ok prog \<Longrightarrow>
       space_inv (km_memory km1) (as_root_paddr (lp_address_space prog)) (free_set pa1) \<and>
       space_confined (km_memory km1) (as_root_paddr (lp_address_space prog)) (owned_list (lp_owned_pages prog)) \<and>
       table_bytes (km_memory km1) (as_root_paddr (lp_address_space prog)) \<subseteq> frame_bytes (owned_list (lp_owned_pages prog)) \<and>
       owned_pages_wf (lp_owned_pages prog) \<and> (\<forall>c \<in> set (owned_list (lp_owned_pages prog)). frame_ok c \<and> c \<noteq> 0) \<and>
       free_set (ms_allocator (km_state km)) = free_set pa1 \<union> frame_bytes (owned_list (lp_owned_pages prog)) \<and>
       free_set pa1 \<inter> frame_bytes (owned_list (lp_owned_pages prog)) = {}"
    obtain pa2 where pa2: "kernel_buffer_release kb pa1 = Ok pa2"
      using run np ld r1 km1(1) km(1) by (cases r1) (auto simp: start_child_def with_allocator_def split: outcome.splits)
    have R: "alloc_inv pa2" "frames_ok pa2" "free_set pa2 = free_set pa1 \<union> buffer_block kb"
      using kernel_buffer_release_frames [OF km1(2,3) kb(1) pa2] by simp_all
    define km2 where "km2 = km1\<lparr>km_state := (km_state km1)\<lparr>ms_allocator := pa2\<rparr>\<rparr>"
    have wa: "with_allocator (kernel_buffer_release kb) km1 = Ok km2"
      using pa2 km1(1) by (simp add: with_allocator_def km2_def)
    have m2: "km_memory km2 x = kn_memory k x" if "x \<notin> kn_free k" for x
      using km(4) [OF that] km1(5) [of x] that km(1) kb(3) by (simp add: km2_def)
    have step: "kernel_inv (k\<lparr>kn_mem := km2\<lparr>km_state := (km_state km2)\<lparr>ms_allocator := pa'\<rparr>\<rparr>\<rparr>)"
        "undisturbed pid k (k\<lparr>kn_mem := km2\<lparr>km_state := (km_state km2)\<lparr>ms_allocator := pa'\<rparr>\<rparr>\<rparr>)"
      if "alloc_inv pa'" "frames_ok pa'" "free_set pa' \<subseteq> kn_free k" for pa'
      by (rule free_memory_step [OF inv]; use that m2 lay km(1) km1(1) in \<open>simp add: memory_ok_def km2_def\<close>)+
    have F2: "free_set pa2 \<subseteq> kn_free k" using R(3) km1(4) km(1) kb(2,3) by auto
    have same2: "km2\<lparr>km_state := (km_state km2)\<lparr>ms_allocator := pa2\<rparr>\<rparr> = km2" by (simp add: km2_def)
    note step2 = step [OF R(1,2) F2, unfolded same2]
    show ?thesis
    proof (cases r1)
      case (Err e)
      with run ld wa have "k' = k\<lparr>kn_mem := km2\<rparr>" by (simp add: start_child_def)
      with step2 show ?thesis by simp
    next
      case (Ok program)
      note P = prog [OF Ok]
      obtain parent where parent: "process_at (kn_sched k) (th_process_id tc) parent" using sched_invD(4) [OF I(2) c(2)] by blast
      from spawn_and_block_cases [OF I(2) c parent, of "kn_image k" program silent]
      consider "spawn_and_block (kn_image k) c program silent (kn_sched k) = Ok (Inr program, kn_sched k)"
        | sw st where "spawn_and_block (kn_image k) c program silent (kn_sched k) = Ok (Inl (Some sw), st)" by blast
      then show ?thesis
      proof cases
        case 1
        obtain pa3 where pa3: "owned_pages_release (lp_owned_pages program) pa2 = Ok pa3"
          using run np ld Ok wa 1 by (auto simp: start_child_def with_allocator_def km2_def split: outcome.splits)
        have "alloc_inv pa3" "frames_ok pa3" "free_set pa3 = free_set pa2 \<union> frame_bytes (owned_list (lp_owned_pages program))"
          using owned_pages_release_frames [OF R(1,2), of "lp_owned_pages program"] P pa3 by simp_all
        moreover have "frame_bytes (owned_list (lp_owned_pages program)) \<subseteq> kn_free k" using P km(1) kb(3) by auto
        moreover have "k' = k\<lparr>kn_mem := km2\<lparr>km_state := (km_state km2)\<lparr>ms_allocator := pa3\<rparr>\<rparr>\<rparr>"
          using run ld Ok wa 1 pa3 by (simp add: start_child_def with_allocator_def km2_def)
        ultimately show ?thesis using step [of pa3] F2 by simp
      next
        case (2 sw st)
        have k': "k' = (k\<lparr>kn_mem := km2\<rparr>)\<lparr>kn_sched := st\<rparr>" using run ld Ok wa 2 by (simp add: start_child_def)
        have live: "live_inv st" by (rule step_live [OF sched_step.spawn [OF c 2] I(1)])
        show ?thesis
        proof (rule spawn_processes [OF I(2) c(2) parent 2])
          fix slot child assume ch: "\<And>p. \<not> process_at (kn_sched k) slot p" "slot < length (sc_processes (kn_sched k))"
            "sc_processes st = (sc_processes (kn_sched k))[slot := Some child]"
            "pc_address_space child = lp_address_space program" "pc_owned_pages child = lp_owned_pages program"
          let ?fr = "frame_bytes (owned_list (lp_owned_pages program))"
          have fr: "?fr \<subseteq> kn_free k" "?fr \<inter> free_set pa2 = {}" using P km(1) kb(3) R(3) by auto
          have sp: "space_ok (km_memory km2) (free_set pa1) child"
            using P ch(4,5) by (auto simp: space_ok_def footprint_def km2_def)
          have fp: "footprint (km_memory km2) child \<inter> free_set pa2 = {}"
            using P ch(4,5) fr(2) by (auto simp: footprint_def km2_def)
          have "space_ok (km_memory km2) (free_set pa2) child" by (rule space_ok_step(1) [OF sp _ fp]) simp_all
          then show ?thesis
            unfolding k' using child_added [OF inv step2(1) m2 live ch(1-3)] P ch(4,5) fr(1) by (simp add: km2_def)
        qed
      qed
    qed (use r1 in simp)
  qed
qed

lemma spawn_isolated:
  assumes inv: "kernel_inv k" and c: "sc_current_thread (kn_sched k) = Some c" "thread_at (kn_sched k) c tc" "is_user tc"
    and run: "spawn_user_process_and_wait_with_stdio path argv silent k = Some (r, k')" and np: "r \<noteq> Panic"
  shows "kernel_inv k' \<and> undisturbed pid k k'"
proof (cases "k' = k")
  case True
  then show ?thesis using inv by (simp add: undisturbed_def)
next
  case False
  note I = kernel_invD [OF inv]
  have a: "alloc_inv (kn_alloc k)" "frames_ok (kn_alloc k)" "layout_ok (km_state (kn_mem k))" using I(3) by (simp_all add: memory_ok_def)
  show ?thesis
  proof (rule current_process_user [OF inv c(1,2)])
    fix p assume p: "current_process (kn_sched k) = Ok (Some (th_process_id tc, p))"
    obtain target where t: "resolve_for p path = Ok target"
      using run False np c(1) p
      by (cases "resolve_for p path") (auto simp: spawn_user_process_and_wait_with_stdio_def)
    obtain rf km where rf: "read_root_file (kn_root k) target (kn_mem k) = Some (rf, km)"
      using run c(1) p t by (cases "read_root_file (kn_root k) target (kn_mem k)")
        (auto simp: spawn_user_process_and_wait_with_stdio_def)
    note R = read_root_file_frames [OF a(1,2) rf]
    obtain pa where pa: "km_state km = (km_state (kn_mem k))\<lparr>ms_allocator := pa\<rparr>" "alloc_inv pa" "frames_ok pa" "free_set pa \<subseteq> kn_free k"
      "\<And>kb. rf = Ok kb \<Longrightarrow> buffer_ok kb \<and> buffer_block kb \<subseteq> kn_free k \<and> free_set pa = kn_free k - buffer_block kb"
      using R(1) by blast
    show ?thesis
    proof (cases rf)
      case (Ok kb)
      obtain args where "argv = Ok args"
        using run np c(1) p t rf Ok by (cases argv) (auto simp: spawn_user_process_and_wait_with_stdio_def)
      then have "start_child c target kb args silent (k\<lparr>kn_mem := km\<rparr>) = (r, k')"
        using run c(1) p t rf Ok by (simp add: spawn_user_process_and_wait_with_stdio_def)
      from start_child_isolated [OF inv c pa(1-3) R(2) _ _ _ this np] pa(5) [OF Ok] show ?thesis by blast
    next
      case (Err e)
      then have "k' = k\<lparr>kn_mem := km\<rparr>"
        using run c(1) p t rf by (simp add: spawn_user_process_and_wait_with_stdio_def)
      with free_memory_step [OF inv, of k'] R(2) pa(1-4) a(3) show ?thesis by (simp add: memory_ok_def)
    next
      case Panic
      then show ?thesis using run np c(1) p t rf by (simp add: spawn_user_process_and_wait_with_stdio_def)
    qed
  qed
qed

lemma syscall_spawn_isolated:
  assumes inv: "kernel_inv k" and c: "sc_current_thread (kn_sched k) = Some c" "thread_at (kn_sched k) c tc" "is_user tc"
    and run: "syscall_spawn_with (\<lambda>path argv. spawn_user_process_and_wait_with_stdio path argv silent) a len b blen k = Some (Ok (r, k'))"
  shows "kernel_inv k' \<and> undisturbed pid k k'"
proof (cases "k' = k")
  case True
  then show ?thesis using inv by (simp add: undisturbed_def)
next
  case False
  obtain pr where pr: "user_slice a len = Some pr" using run False by (cases "user_slice a len") (simp_all add: syscall_spawn_with_def)
  obtain path where path: "load_user pr k = Ok path" "from_utf8 path = Some path"
    using run False pr by (cases "load_user pr k") (auto simp: syscall_spawn_with_def from_utf8_def split: if_splits)
  obtain ar where ar: "user_slice b blen = Some ar"
    using run False pr path by (cases "user_slice b blen") (simp_all add: syscall_spawn_with_def)
  obtain r1 k1 where s: "spawn_user_process_and_wait_with_stdio path (load_user ar k) silent k = Some (r1, k1)"
    using run pr path ar by (auto simp: syscall_spawn_with_def)
  have "r1 \<noteq> Panic" "k' = k1" using run pr path ar s by (auto simp: syscall_spawn_with_def split: outcome.splits)
  with spawn_isolated [OF inv c s] show ?thesis by simp
qed

section \<open>Traps\<close>

lemma answer_Ok: "answer r = Ok (t, k) \<longleftrightarrow> (\<exists>v. r = Ok (v, k) \<and> t = Resume v)"
  by (auto simp: answer_def)

lemmas quiet_calls =
  syscall_read_quiet syscall_write_quiet syscall_getcwd_quiet syscall_read_dir_quiet syscall_read_file_quiet
  syscall_get_env_quiet syscall_list_env_quiet syscall_set_env_quiet syscall_unset_env_quiet syscall_chdir_quiet

lemma dispatch_cases:
  assumes "dispatch f k = Some (Ok (r, k'))" "kernel_inv k" "process_at (kn_sched k) pid p" "current_process (kn_sched k) = Ok (Some (pid, p))"
  obtains (quiet) "quiet pid p k k'"
  | (yield) "syscall_yield k = Ok (r, k')"
  | (exit) status where "syscall_exit status k = Ok (r, k')"
  | (spawn) silent a b c d where
      "syscall_spawn_with (\<lambda>path argv. spawn_user_process_and_wait_with_stdio path argv silent) a b c d k = Some (Ok (r, k'))"
proof -
  have same: "k' = k \<Longrightarrow> thesis" using quiet quiet_refl [OF assms(2,3), of k] by simp
  show thesis
    using assms(1) same unfolding dispatch_def Let_def syscall_spawn_wait_def syscall_spawn_wait_silent_def
      spawn_user_process_and_wait_def [abs_def] spawn_user_process_and_wait_silent_def [abs_def]
    by (auto simp: answer_Ok split: if_splits
        intro: quiet yield exit spawn quiet_calls [OF assms(2-4)])
qed

lemma trap_isolated:
  assumes inv: "kernel_inv k" and c: "sc_current_thread (kn_sched k) = Some c" "thread_at (kn_sched k) c tc" "is_user tc"
    and trap: "rust_trap_entry f k = Some (Ok (r, k'))"
  shows "undisturbed (th_process_id tc) k k' \<and> (kernel_inv k' \<or> (\<exists>out. r = TurnOff out))"
proof (rule current_process_user [OF inv c(1,2)])
  fix p assume p: "process_at (kn_sched k) (th_process_id tc) p" "current_process (kn_sched k) = Ok (Some (th_process_id tc, p))"
  have exit: ?thesis if "syscall_exit status k = Ok (r, k')" for status
    using syscall_exit_isolated [OF inv c that] by auto
  from trap consider "dispatch f k = Some (Ok (r, k'))" | "syscall_exit 1 k = Ok (r, k')"
    by (auto simp: rust_trap_entry_def Let_def split: if_splits)
  then show ?thesis
  proof cases
    case 1
    then show ?thesis
    proof (rule dispatch_cases [OF _ inv p])
      assume "quiet (th_process_id tc) p k k'"
      from quiet_inv [OF inv p(1) this] show ?thesis by simp
    next
      assume "syscall_yield k = Ok (r, k')"
      from syscall_yield_isolated [OF inv this] show ?thesis by simp
    next
      fix silent a b d e assume "syscall_spawn_with (\<lambda>path argv. spawn_user_process_and_wait_with_stdio path argv silent) a b d e k = Some (Ok (r, k'))"
      from syscall_spawn_isolated [OF inv c this] show ?thesis by simp
    qed (rule exit)
  qed (rule exit)
qed

end
