(* ===== verification/System_Run.thy ===== *)
theory System_Run
  imports System_Isolation
begin

text \<open>
  The running system as a labelled step relation: stores of the running program through its own page
  tables, its traps into the kernel, the rest of a call that had switched away, and the two kernel
  threads of \<^verbatim>\<open>main.rs\<close>. Every step keeps the system invariant and leaves every process but the acting one
  as it was.
\<close>

section \<open>Stores of a program\<close>

text \<open>The frame byte a store in user mode reaches: the last entry of the walk has to carry the user and
  the write bit. The processor also asks the upper entries for them, which can only refuse more.\<close>

definition user_target :: "memory \<Rightarrow> u64 \<Rightarrow> u64 \<Rightarrow> u64 option" where
  "user_target m root v =
     (case leaf m root v of
        None \<Rightarrow> None
      | Some e \<Rightarrow> if e AND PAGE_USER \<noteq> 0 \<and> e AND PAGE_WRITABLE \<noteq> 0
                  then Some ((e AND ADDRESS_MASK) + page_offset m root v) else None)"

definition program_store :: "u64 \<Rightarrow> u64 \<Rightarrow> u8 \<Rightarrow> kernel \<Rightarrow> kernel option" where
  "program_store root v b k =
     map_option (\<lambda>x. k\<lparr>kn_mem := (kn_mem k)\<lparr>km_memory := (kn_memory k)(x := b)\<rparr>\<rparr>) (user_target (kn_memory k) root v)"

lemma and_low_48:
  fixes v :: u64
  assumes "n + 9 \<le> 48"
  shows "drop_bit n (take_bit 48 v) AND 0x1ff = drop_bit n v AND 0x1ff"
proof -
  have m: "(0x1ff :: u64) = mask 9" by (simp add: mask_eq_exp_minus_1)
  show ?thesis unfolding m using assms by (intro bit_word_eqI) (auto simp: bit_simps)
qed

lemma low_48:
  fixes v :: u64
  shows "same_page (take_bit 48 v) v" "page_offset m root (take_bit 48 v) = page_offset m root v" "unat (take_bit 48 v) < 2 ^ 48"
proof -
  have ix: "pml4_index (take_bit 48 v) = pml4_index v" "pdpt_index (take_bit 48 v) = pdpt_index v"
    "pd_index (take_bit 48 v) = pd_index v" "pt_index (take_bit 48 v) = pt_index v"
    by (simp_all add: pml4_index_def pdpt_index_def pd_index_def pt_index_def and_low_48)
  then show "same_page (take_bit 48 v) v" by (simp add: same_page_def)
  have "take_bit 48 v AND 0x1fffff = v AND 0x1fffff" "take_bit 48 v AND 0xfff = v AND 0xfff"
  proof -
    have m: "(0x1fffff :: u64) = mask 21" "(0xfff :: u64) = mask 12" by (simp_all add: mask_eq_exp_minus_1)
    show "take_bit 48 v AND 0x1fffff = v AND 0x1fffff" "take_bit 48 v AND 0xfff = v AND 0xfff"
      unfolding m by (intro bit_word_eqI; auto simp: bit_simps)+
  qed
  then show "page_offset m root (take_bit 48 v) = page_offset m root v"
    unfolding page_offset_def ix by (simp split: option.split)
  show "unat (take_bit 48 v) < 2 ^ 48"
    using take_bit_nat_less_exp [of 48 "unat v"] by (simp add: unsigned_take_bit_eq)
qed

lemma user_target_confined:
  assumes c: "space_confined m root owned" "\<forall>c \<in> set owned. frame_ok c" and t: "user_target m root v = Some x"
  shows "x \<in> frame_bytes owned" "x \<notin> table_bytes m root"
proof -
  let ?w = "take_bit 48 v"
  obtain e where e: "leaf m root v = Some e" "e AND PAGE_USER \<noteq> 0" "x = (e AND ADDRESS_MASK) + page_offset m root v"
    using t by (auto simp: user_target_def split: option.splits if_splits)
  have lf: "leaf m root ?w = Some e" using e(1) leaf_same_page [OF low_48(1)] by simp
  have r: "in_user_range (unat ?w)" using c(1) lf e(2) low_48(3) [of v] unfolding space_confined_def by blast
  have "translate_write False m root ?w = Some x" using lf e(3) by (simp add: translate_write_def low_48(2))
  from translate_write_confined [OF c r this] show "x \<in> frame_bytes owned" "x \<notin> table_bytes m root" .
qed

section \<open>The terminal thread\<close>

text \<open>One round of \<^verbatim>\<open>terminal_thread_entry\<close> up to its yield: the controller is polled, the queued key events
  go to the surface, the queued output to the console.\<close>

definition terminal_round :: "(u8 \<times> u8) list \<Rightarrow> keyboard_state \<Rightarrow> io_state \<Rightarrow> (bytes \<times> keyboard_state \<times> io_state) option" where
  "terminal_round ports kb io =
     map_option (\<lambda>(kb', io'). let (out, io'') = flush_output 0 io' in (out, kb', io''))
       (drain_key_events (Suc EVENT_QUEUE_CAPACITY) 0 (poll ports kb) io)"

section \<open>Steps\<close>

definition acting :: "kernel \<Rightarrow> process_id \<Rightarrow> bool \<Rightarrow> bool" where
  "acting k pid user \<longleftrightarrow>
     (\<exists>c t. sc_current_thread (kn_sched k) = Some c \<and> thread_at (kn_sched k) c t \<and> th_process_id t = pid \<and> is_user t = user)"

inductive system_step :: "process_id \<Rightarrow> kernel \<Rightarrow> kernel \<Rightarrow> bool" where
  store: "acting k pid True \<Longrightarrow> process_at (kn_sched k) pid p \<Longrightarrow> program_store (root_of p) v b k = Some k' \<Longrightarrow>
    system_step pid k k'"
| trap: "acting k pid True \<Longrightarrow> rust_trap_entry f k = Some (Ok (r, k')) \<Longrightarrow> (\<And>out. r \<noteq> TurnOff out) \<Longrightarrow> system_step pid k k'"
| resume: "acting k pid True \<Longrightarrow> dispatch_resumed f k = Ok (rax, k') \<Longrightarrow> system_step pid k k'"
| terminal: "acting k pid False \<Longrightarrow> terminal_round ports kb (kn_io k) = Some (out, kb', io) \<Longrightarrow>
    yield_now (kn_sched k) = Ok (sw, st) \<Longrightarrow> system_step pid k (k\<lparr>kn_io := io, kn_sched := st\<rparr>)"
| idle: "acting k pid False \<Longrightarrow> yield_now (kn_sched k) = Ok (sw, st) \<Longrightarrow> system_step pid k (k\<lparr>kn_sched := st\<rparr>)"

inductive system_run :: "process_id list \<Rightarrow> kernel \<Rightarrow> kernel \<Rightarrow> bool" where
  stop: "system_run [] k k"
| act: "system_step pid k k1 \<Longrightarrow> system_run pids k1 k' \<Longrightarrow> system_run (pid # pids) k k'"

inductive_cases system_run_ConsE: "system_run (pid # pids) k k'"
inductive_simps system_run_Nil [simp]: "system_run [] k k'"

lemma program_store_quiet:
  assumes inv: "kernel_inv k" and p: "process_at (kn_sched k) pid p" and s: "program_store (root_of p) v b k = Some k'"
  shows "quiet pid p k k'"
proof -
  note S = space_okD [OF kernel_invD(4) [OF inv p]]
  obtain x where x: "user_target (kn_memory k) (root_of p) v = Some x"
    "k' = k\<lparr>kn_mem := (kn_mem k)\<lparr>km_memory := (kn_memory k)(x := b)\<rparr>\<rparr>"
    using s by (auto simp: program_store_def)
  note T = user_target_confined [OF S(2,4) x(1)]
  show ?thesis
    unfolding quiet_def using x(2) T put_same [OF p] sched_invD(5) [OF kernel_invD(2) [OF inv] p]
    by (intro conjI exI [of _ p]) auto
qed

lemma resumed_isolated:
  assumes inv: "kernel_inv k" and r: "dispatch_resumed f k = Ok (rax, k')"
  shows "kernel_inv k'" "undisturbed pid k k'"
proof -
  have "\<exists>st. k' = k\<lparr>kn_sched := st\<rparr> \<and> live_inv st \<and> sc_processes st = sc_processes (kn_sched k)"
  proof (cases "k' = k")
    case True
    then show ?thesis using kernel_invD(1) [OF inv] by (intro exI [of _ "kn_sched k"]) simp
  next
    case False
    then obtain res st where st: "resume_wait (kn_sched k) = Ok (res, st)" "k' = k\<lparr>kn_sched := st\<rparr>"
      using r by (auto simp: dispatch_resumed_def split: if_splits)
    have "live_inv st" by (rule step_live [OF sched_step.resume [OF st(1)] kernel_invD(1) [OF inv]])
    moreover have "sc_processes st = sc_processes (kn_sched k)"
      using st(1) by (auto simp: resume_wait_def case_prod_unfold Let_def split: option.splits)
    ultimately show ?thesis using st(2) by blast
  qed
  then obtain st where "k' = k\<lparr>kn_sched := st\<rparr>" "live_inv st" "sc_processes st = sc_processes (kn_sched k)" by blast
  then show "kernel_inv k'" "undisturbed pid k k'" using unchanged_processes [OF inv, of k'] by simp_all
qed

lemma system_step_isolated:
  assumes "system_step pid k k'" "kernel_inv k"
  shows "kernel_inv k'" "undisturbed pid k k'"
  using assms
proof (induction rule: system_step.induct)
  case (store k pid p v b k')
  { case 1 with store show ?case using quiet_inv(1) [OF _ _ program_store_quiet] by blast }
  { case 2 with store show ?case using quiet_inv(2) [OF _ _ program_store_quiet] by blast }
next
  case (trap k pid f r k')
  { case 1 with trap show ?case using trap_isolated [of k _ _ f r k'] unfolding acting_def by blast }
  { case 2 with trap show ?case using trap_isolated [of k _ _ f r k'] unfolding acting_def by blast }
next
  case (resume k pid f rax k')
  { case 1 with resume show ?case using resumed_isolated(1) by blast }
  { case 2 with resume show ?case using resumed_isolated(2) by blast }
next
  case (terminal k pid ports kb out kb' io sw st)
  note Y = yield_processes [OF kernel_invD(1) terminal(3)]
  { case 1 with Y show ?case using unchanged_processes(1) [of k "k\<lparr>kn_io := io, kn_sched := st\<rparr>"] by simp }
  { case 2 with Y show ?case using unchanged_processes(2) [of k "k\<lparr>kn_io := io, kn_sched := st\<rparr>"] by simp }
next
  case (idle k pid sw st)
  note Y = yield_processes [OF kernel_invD(1) idle(2)]
  { case 1 with Y show ?case using unchanged_processes(1) [of k "k\<lparr>kn_sched := st\<rparr>"] by simp }
  { case 2 with Y show ?case using unchanged_processes(2) [of k "k\<lparr>kn_sched := st\<rparr>"] by simp }
qed

lemma undisturbedD:
  assumes "undisturbed pid k k'" "j \<noteq> pid" "process_at (kn_sched k) j q"
  shows "process_at (kn_sched k') j q" "x \<in> footprint (kn_memory k) q \<Longrightarrow> kn_memory k' x = kn_memory k x"
  using assms unfolding undisturbed_def by blast+

lemma run_invariant: "system_run pids k k' \<Longrightarrow> kernel_inv k \<Longrightarrow> kernel_inv k'"
  by (induction rule: system_run.induct) (auto dest: system_step_isolated)

lemma run_isolated:
  assumes "system_run pids k k'" "kernel_inv k" "j \<notin> set pids" "process_at (kn_sched k) j q"
  shows "process_at (kn_sched k') j q \<and> footprint (kn_memory k') q = footprint (kn_memory k) q \<and>
     (\<forall>x \<in> footprint (kn_memory k) q. kn_memory k' x = kn_memory k x)"
  using assms
proof (induction rule: system_run.induct)
  case (act pid k k1 pids k')
  note U = undisturbedD [OF system_step_isolated(2) [OF act(1) act.prems(1)] _ act.prems(3)]
  have j: "j \<noteq> pid" "j \<notin> set pids" using act.prems(2) by auto
  have inv1: "kernel_inv k1" by (rule system_step_isolated(1) [OF act(1) act.prems(1)])
  have fp: "footprint (kn_memory k1) q = footprint (kn_memory k) q"
  proof (rule space_ok_step(2) [OF kernel_invD(4) [OF act.prems(1,3)]])
    show "footprint (kn_memory k) q \<inter> kn_free k = {}" by (rule space_okD(6) [OF kernel_invD(4) [OF act.prems(1,3)]])
  qed (use U(2) [OF j(1)] in \<open>simp_all add: footprint_def\<close>)
  from act.IH [OF inv1 j(2) U(1) [OF j(1)]] U(2) [OF j(1)] fp show ?case by simp
qed simp

section \<open>A running system\<close>

definition sample_running :: scheduler_state where
  "sample_running =
     \<lparr>sc_processes = (replicate MAX_PROCESSES None)
        [0 := Some (process_new 0 ''kernel-system'' \<lparr>as_root_paddr = 0\<rparr> owned_pages_empty Continue),
         1 := Some (process_new 1 ''user-bootstrap'' \<lparr>as_root_paddr = 0\<rparr> owned_pages_empty ShutdownSystem)],
      sc_threads = (replicate MAX_THREADS None)
        [0 := Some (thread_new 0 ''idle'' 0 (KernelStart 0) thread_context_zeroed 0),
         1 := Some ((thread_new 1 ''user-bootstrap-main'' 1 (UserStart \<lparr>us_entry_point = 0, us_user_stack_top = 0\<rparr>)
                       thread_context_zeroed 0)\<lparr>th_state := Running\<rparr>)],
      sc_memory = (\<lambda>_. 0), sc_current_thread = Some 1, sc_idle_thread = Some 0\<rparr>"

definition sample_kernel :: kernel where
  "sample_kernel =
     \<lparr>kn_sched = sample_running,
      kn_io = \<lparr>endpoints = (\<lambda>_. terminal_endpoint_new), serial_ready = False, serial_log = []\<rparr>,
      kn_mem = \<lparr>km_state = memory_state_new\<lparr>ms_allocator := sample_allocator 0x1000000 0x1010000\<rparr>, km_memory = (\<lambda>_. 0)\<rparr>,
      kn_root = None, kn_image = sample_image, kn_wp = False\<rparr>"

lemma sample_running_slots:
  "process_at sample_running i p \<longleftrightarrow>
     (i = 0 \<and> p = process_new 0 ''kernel-system'' \<lparr>as_root_paddr = 0\<rparr> owned_pages_empty Continue) \<or>
     (i = 1 \<and> p = process_new 1 ''user-bootstrap'' \<lparr>as_root_paddr = 0\<rparr> owned_pages_empty ShutdownSystem)"
  "thread_at sample_running i t \<longleftrightarrow>
     (i = 0 \<and> t = thread_new 0 ''idle'' 0 (KernelStart 0) thread_context_zeroed 0) \<or>
     (i = 1 \<and> t = (thread_new 1 ''user-bootstrap-main'' 1 (UserStart \<lparr>us_entry_point = 0, us_user_stack_top = 0\<rparr>)
                       thread_context_zeroed 0)\<lparr>th_state := Running\<rparr>)"
  by (auto simp: sample_running_def MAX_PROCESSES_def MAX_THREADS_def)

lemma sample_running_inv: "live_inv sample_running"
proof -
  have "sched_inv sample_running"
  proof (rule sched_invI)
    fix k p assume "process_at sample_running k p"
    then show "process_inv p" using process_new_inv by (auto simp: sample_running_slots)
  qed (auto simp: sample_running_slots, auto simp: sample_running_def thread_new_def process_new_def is_user_def)
  then show ?thesis by (simp add: live_inv_def sample_running_def)
qed

lemma sample_kernel_inv: "kernel_inv sample_kernel"
proof -
  let ?F = "span \<lparr>pr_start = 0x1000000, pr_end = 0x1010000\<rparr>"
  have f0: "frame_ok 0" by (simp add: frame_ok_def)
  have out: "block 0 PAGE_SIZE \<inter> ?F = {}"
    using block_bound [OF f0] by (force simp: span_def word_le_nat_alt)
  have F: "kn_free sample_kernel = ?F" by (simp add: sample_kernel_def spans_def)
  have t: "table_bytes (\<lambda>_. 0) 0 = block 0 PAGE_SIZE" by (auto simp: table_bytes_def table_at_zero good_path_def)
  have lf: "leaf (\<lambda>_. 0) 0 w = None" for w by (simp add: leaf_def table_at_zero next_table_def)
  have ok: "space_ok (\<lambda>_. 0) ?F p" if "root_of p = 0" "pc_owned_pages p = owned_pages_empty" for p
    using that f0 out lf by (simp add: space_ok_def footprint_def t space_inv_def table_at_zero space_confined_def)
  have "memory_ok sample_kernel"
    by (simp add: memory_ok_def sample_kernel_def frames_ok_def aligned_region_def layout_ok_def framebuffer_mapped_def
        memory_state_new_def PHYS_WINDOW_START_def)
  moreover have "spaces_apart (kn_memory sample_kernel) sample_running"
    by (auto simp: spaces_apart_def sample_running_slots process_new_def)
  moreover have "space_ok (kn_memory sample_kernel) (kn_free sample_kernel) p" if "process_at sample_running i p" for i p
  proof -
    have "space_ok (\<lambda>_. 0) ?F p" using that by (intro ok) (auto simp: sample_running_slots process_new_def)
    then show ?thesis unfolding F by (simp add: sample_kernel_def)
  qed
  ultimately show ?thesis
    using sample_running_inv unfolding kernel_inv_def by (simp add: sample_kernel_def)
qed

section \<open>Properties\<close>

text \<open>C2. While a process does not run, nothing the others do reaches it: whatever programs store through
  their page tables, whatever system calls they make, whatever exceptions they raise, whatever
  children they start and however often the kernel threads run in between, the process keeps its
  table entry, its page tables and every byte of its frames.\<close>

theorem waiting_process_undisturbed:
  assumes "kernel_inv k" "system_run pids k k'" "j \<notin> set pids" "process_at (kn_sched k) j q"
  shows "process_at (kn_sched k') j q \<and> footprint (kn_memory k') q = footprint (kn_memory k) q \<and>
     (\<forall>x \<in> footprint (kn_memory k) q. kn_memory k' x = kn_memory k x)"
  by (rule run_isolated [OF assms(2,1,3,4)])

definition sample_trap :: "u64 \<Rightarrow> u64 \<Rightarrow> trap_frame" where
  "sample_trap vector rax =
     \<lparr>tf_rax = rax, tf_rbx = 0, tf_rcx = 0, tf_rdx = 0, tf_rbp = 0, tf_rdi = 0, tf_rsi = 0, tf_r8 = 0, tf_r9 = 0, tf_r10 = 0,
      tf_r11 = 0, tf_r12 = 0, tf_r13 = 0, tf_r14 = 0, tf_r15 = 0, tf_vector = vector, tf_error_code = 0, tf_rip = 0,
      tf_cs = 0x23, tf_rflags = 0, tf_rsp = 0, tf_ss = 0\<rparr>"

theorem waiting_process_undisturbed_witness:
  "\<exists>r k'. rust_trap_entry (sample_trap 0x80 (syscall_number Yield)) sample_kernel = Some (Ok (r, k')) \<and>
     system_run [1] sample_kernel k' \<and>
     process_at (kn_sched k') 0 (process_new 0 ''kernel-system'' \<lparr>as_root_paddr = 0\<rparr> owned_pages_empty Continue)"
proof -
  have cur: "sc_current_thread sample_running = Some 1" by (simp add: sample_running_def)
  obtain sw st where y: "yield_now sample_running = Ok (sw, st)"
    using yield_cases [OF _ cur] sample_running_inv by (auto simp: live_inv_def)
  let ?k = "sample_kernel\<lparr>kn_sched := st\<rparr>" and ?r = "case sw of None \<Rightarrow> Resume 0 | Some s \<Rightarrow> SwitchTo s"
  let ?f = "sample_trap 0x80 (syscall_number Yield)"
  have "dispatch ?f sample_kernel = Some (syscall_yield sample_kernel)"
    by (simp add: dispatch_def sample_trap_def)
  then have t: "rust_trap_entry ?f sample_kernel = Some (Ok (?r, ?k))"
    using y by (simp add: rust_trap_entry_def sample_trap_def TRAP_SYSCALL_def syscall_yield_def sample_kernel_def)
  have "acting sample_kernel 1 True"
    using cur by (auto simp: acting_def sample_kernel_def sample_running_slots thread_new_def is_user_def)
  from system_step.trap [OF this t] have "system_step 1 sample_kernel ?k" by (auto split: option.splits)
  then have run: "system_run [1] sample_kernel ?k" by (intro system_run.act [OF _ system_run.stop])
  have p: "process_at (kn_sched sample_kernel) 0 (process_new 0 ''kernel-system'' \<lparr>as_root_paddr = 0\<rparr> owned_pages_empty Continue)"
    by (simp add: sample_kernel_def sample_running_slots)
  from waiting_process_undisturbed [OF sample_kernel_inv run _ p] t run show ?thesis by auto
qed

end
