(* ===== verification/Power_Control.thy ===== *)
theory Power_Control
  imports Kernel_Memory
begin

text \<open>
  Power control, \<^verbatim>\<open>kernel/kernel/src/power.rs\<close>: the ACPI tables are found from the address the loader
  passed on, mapped into the kernel's address space and parsed down to the \<^verbatim>\<open>_S5_\<close> package of the DSDT;
  \<^verbatim>\<open>shutdown\<close> writes the sleep command to the PM1 control ports. A \<^verbatim>\<open>&'static [u8]\<close> over table memory is an
  address and a length here, read from physical memory where the code reads it, since mapping
  further tables writes memory in between.
\<close>

section \<open>Constants and data\<close>

definition RSDP_V1_LENGTH :: nat where "RSDP_V1_LENGTH = 20"
definition RSDP_V2_LENGTH :: nat where "RSDP_V2_LENGTH = 36"
definition SDT_HEADER_LENGTH :: nat where "SDT_HEADER_LENGTH = 36"
definition RSDP_SIGNATURE :: bytes where "RSDP_SIGNATURE = [0x52, 0x53, 0x44, 0x20, 0x50, 0x54, 0x52, 0x20]"
definition FADT_SIGNATURE :: bytes where "FADT_SIGNATURE = [0x46, 0x41, 0x43, 0x50]"
definition RSDT_SIGNATURE :: bytes where "RSDT_SIGNATURE = [0x52, 0x53, 0x44, 0x54]"
definition XSDT_SIGNATURE :: bytes where "XSDT_SIGNATURE = [0x58, 0x53, 0x44, 0x54]"
definition DSDT_SIGNATURE :: bytes where "DSDT_SIGNATURE = [0x44, 0x53, 0x44, 0x54]"
definition S5_NAME :: bytes where "S5_NAME = [0x5f, 0x53, 0x35, 0x5f]"

definition FADT_DSDT_OFFSET :: nat where "FADT_DSDT_OFFSET = 40"
definition FADT_PM1A_CONTROL_BLOCK_OFFSET :: nat where "FADT_PM1A_CONTROL_BLOCK_OFFSET = 64"
definition FADT_PM1B_CONTROL_BLOCK_OFFSET :: nat where "FADT_PM1B_CONTROL_BLOCK_OFFSET = 68"
definition FADT_PM1_CONTROL_LENGTH_OFFSET :: nat where "FADT_PM1_CONTROL_LENGTH_OFFSET = 89"
definition FADT_X_DSDT_OFFSET :: nat where "FADT_X_DSDT_OFFSET = 140"
definition FADT_X_PM1A_CONTROL_BLOCK_OFFSET :: nat where "FADT_X_PM1A_CONTROL_BLOCK_OFFSET = 172"
definition FADT_X_PM1B_CONTROL_BLOCK_OFFSET :: nat where "FADT_X_PM1B_CONTROL_BLOCK_OFFSET = 184"
definition GAS_LENGTH :: nat where "GAS_LENGTH = 12"
definition GAS_SPACE_ID_SYSTEM_IO :: u8 where "GAS_SPACE_ID_SYSTEM_IO = 1"

definition AML_NAME_OP :: u8 where "AML_NAME_OP = 0x08"
definition AML_PACKAGE_OP :: u8 where "AML_PACKAGE_OP = 0x12"
definition AML_ROOT_PREFIX :: u8 where "AML_ROOT_PREFIX = 0x5c"
definition AML_PARENT_PREFIX :: u8 where "AML_PARENT_PREFIX = 0x5e"
definition AML_BYTE_PREFIX :: u8 where "AML_BYTE_PREFIX = 0x0a"
definition AML_WORD_PREFIX :: u8 where "AML_WORD_PREFIX = 0x0b"
definition AML_DWORD_PREFIX :: u8 where "AML_DWORD_PREFIX = 0x0c"
definition AML_QWORD_PREFIX :: u8 where "AML_QWORD_PREFIX = 0x0e"

definition PM1_CONTROL_SLEEP_TYPE_SHIFT :: nat where "PM1_CONTROL_SLEEP_TYPE_SHIFT = 10"
definition PM1_CONTROL_SLEEP_ENABLE :: u16 where "PM1_CONTROL_SLEEP_ENABLE = push_bit 13 1"

datatype power_error =
    MissingRsdp | InvalidRsdp | MissingRootTable | InvalidRootTable | MissingFadt | InvalidFadt | MissingDsdt
  | InvalidDsdt | MissingPm1ControlBlock | UnsupportedPm1ControlBlock | MissingS5Package | InvalidS5Package
  | MappingFailed

fun power_error_as_str :: "power_error \<Rightarrow> string" where
  "power_error_as_str MissingRsdp = ''ACPI RSDP was not provided by the loader''"
| "power_error_as_str InvalidRsdp = ''ACPI RSDP was malformed or failed checksum validation''"
| "power_error_as_str MissingRootTable = ''ACPI root system table address was missing''"
| "power_error_as_str InvalidRootTable = ''ACPI root system table was malformed or invalid''"
| "power_error_as_str MissingFadt = ''ACPI FADT table was not found''"
| "power_error_as_str InvalidFadt = ''ACPI FADT table was malformed or unsupported''"
| "power_error_as_str MissingDsdt = ''ACPI DSDT table was not found''"
| "power_error_as_str InvalidDsdt = ''ACPI DSDT table was malformed or unsupported''"
| "power_error_as_str MissingPm1ControlBlock = ''ACPI PM1 control block was not described''"
| "power_error_as_str UnsupportedPm1ControlBlock = ''ACPI PM1 control block used an unsupported address format''"
| "power_error_as_str MissingS5Package = ''ACPI DSDT did not expose an _S5 shutdown package''"
| "power_error_as_str InvalidS5Package = ''ACPI _S5 shutdown package was malformed''"
| "power_error_as_str MappingFailed = ''kernel could not map the ACPI table range''"

datatype root_table_kind = Rsdt | Xsdt

record root_table =
  rt_kind :: root_table_kind
  rt_address :: u64

record acpi_shutdown =
  sd_pm1a_control_block :: u16
  sd_pm1b_control_block :: "u16 option"
  sd_sleep_type_a :: u16
  sd_sleep_type_b :: u16

datatype power_backend = Uninitialized | AcpiSoftOff acpi_shutdown | Unavailable power_error

record power_state =
  pw_backend :: power_backend

definition power_state_new :: power_state where
  "power_state_new = \<lparr>pw_backend = Uninitialized\<rparr>"

record fadt_info =
  fi_dsdt_address :: u64
  fi_pm1a_control_block :: u16
  fi_pm1b_control_block :: "u16 option"

section \<open>Reading tables\<close>

definition checksum :: "bytes \<Rightarrow> nat \<Rightarrow> (u8, power_error) outcome" where
  "checksum bytes len = and_then (slice bytes 0 len) (\<lambda>s. Ok (foldl (+) 0 s))"

definition read_u32 :: "bytes \<Rightarrow> nat \<Rightarrow> u32 option" where
  "read_u32 bytes offset =
     (if offset + 4 \<le> length bytes then Some (from_le_bytes (take 4 (drop offset bytes))) else None)"

definition read_u64 :: "bytes \<Rightarrow> nat \<Rightarrow> u64 option" where
  "read_u64 bytes offset =
     (if offset + 8 \<le> length bytes then Some (from_le_bytes (take 8 (drop offset bytes))) else None)"

text \<open>The branch of \<^verbatim>\<open>parse_rsdp\<close> for revision 2 and later; \<open>None\<close> falls through to the RSDT.\<close>

definition parse_rsdp_v2 :: "bytes \<Rightarrow> (root_table option, power_error) outcome" where
  "parse_rsdp_v2 bytes =
     (if length bytes < RSDP_V2_LENGTH then Err InvalidRsdp else
      and_then (ok_or (read_u32 bytes 20) InvalidRsdp) (\<lambda>len.
      if unat len < RSDP_V2_LENGTH \<or> length bytes < unat len then Err InvalidRsdp else
      and_then (checksum bytes (unat len)) (\<lambda>sum.
      if sum \<noteq> 0 then Err InvalidRsdp else
      and_then (ok_or (read_u64 bytes 24) InvalidRsdp) (\<lambda>xsdt_address.
        Ok (if xsdt_address \<noteq> 0 then Some \<lparr>rt_kind = Xsdt, rt_address = xsdt_address\<rparr> else None)))))"

definition parse_rsdp :: "bytes \<Rightarrow> (root_table, power_error) outcome" where
  "parse_rsdp bytes =
     (if length bytes < RSDP_V1_LENGTH then Err InvalidRsdp else
      and_then (slice bytes 0 8) (\<lambda>signature.
      if signature \<noteq> RSDP_SIGNATURE then Err InvalidRsdp else
      and_then (checksum bytes RSDP_V1_LENGTH) (\<lambda>sum.
      if sum \<noteq> 0 then Err InvalidRsdp else
      and_then (index bytes 15) (\<lambda>revision.
      and_then (if 2 \<le> revision then parse_rsdp_v2 bytes else Ok None) (\<lambda>extended.
      case extended of
        Some root \<Rightarrow> Ok root
      | None \<Rightarrow>
          and_then (ok_or (read_u32 bytes 16) InvalidRsdp) (\<lambda>rsdt.
          let rsdt_address = ucast rsdt in
          if rsdt_address = 0 then Err MissingRootTable
          else Ok \<lparr>rt_kind = Rsdt, rt_address = rsdt_address\<rparr>))))))"

definition parse_table_length :: "bytes \<Rightarrow> nat option" where
  "parse_table_length bytes =
     (case read_u32 bytes 4 of
        None \<Rightarrow> None
      | Some len \<Rightarrow> if unat len < SDT_HEADER_LENGTH then None else Some (unat len))"

definition table_error :: "bytes \<Rightarrow> power_error" where
  "table_error signature =
     (if signature = FADT_SIGNATURE then InvalidFadt
      else if signature = DSDT_SIGNATURE then InvalidDsdt
      else InvalidRootTable)"

definition parse_sdt_header :: "bytes \<Rightarrow> bytes \<Rightarrow> (unit, power_error) outcome" where
  "parse_sdt_header bytes expected_signature =
     (if length bytes < SDT_HEADER_LENGTH then Err (table_error expected_signature) else
      and_then (ok_or (parse_table_length bytes) (table_error expected_signature)) (\<lambda>len.
      if length bytes < len then Err (table_error expected_signature) else
      and_then (slice bytes 0 4) (\<lambda>signature.
      if signature \<noteq> expected_signature then Err (table_error expected_signature) else
      and_then (checksum bytes len) (\<lambda>sum.
      if sum \<noteq> 0 then Err (table_error expected_signature) else Ok ()))))"

section \<open>The FADT\<close>

definition select_dsdt_address :: "bytes \<Rightarrow> (u64, power_error) outcome" where
  "select_dsdt_address bytes =
     and_then (if FADT_X_DSDT_OFFSET + 8 \<le> length bytes
               then ok_or (read_u64 bytes FADT_X_DSDT_OFFSET) InvalidFadt else Ok 0) (\<lambda>x_dsdt.
     if x_dsdt \<noteq> 0 then Ok x_dsdt else
     and_then (ok_or (read_u32 bytes FADT_DSDT_OFFSET) InvalidFadt) (\<lambda>dsdt.
     if ucast dsdt = (0 :: u64) then Err MissingDsdt else Ok (ucast dsdt)))"

definition parse_system_io_gas :: "bytes \<Rightarrow> (u16 option, power_error) outcome" where
  "parse_system_io_gas bytes =
     (if length bytes < GAS_LENGTH then Err InvalidFadt else
      and_then (index bytes 0) (\<lambda>space_id.
      and_then (index bytes 1) (\<lambda>bit_width.
      and_then (ok_or (read_u64 bytes 4) InvalidFadt) (\<lambda>address.
      if address = 0 then Ok None
      else if space_id \<noteq> GAS_SPACE_ID_SYSTEM_IO \<or> bit_width < 16 \<or> 0xffff < address then Err UnsupportedPm1ControlBlock
      else Ok (Some (ucast address))))))"

definition select_pm1_control_block :: "bytes \<Rightarrow> nat \<Rightarrow> nat \<Rightarrow> (u16 option, power_error) outcome" where
  "select_pm1_control_block bytes legacy_offset extended_offset =
     and_then (if extended_offset + GAS_LENGTH \<le> length bytes
               then and_then (slice bytes extended_offset (extended_offset + GAS_LENGTH)) parse_system_io_gas
               else Ok None) (\<lambda>extended.
     case extended of
       Some address \<Rightarrow> Ok (Some address)
     | None \<Rightarrow>
         and_then (ok_or (read_u32 bytes legacy_offset) InvalidFadt) (\<lambda>legacy.
         if legacy = 0 then Ok None
         else if 0xffff < legacy then Err UnsupportedPm1ControlBlock
         else Ok (Some (ucast legacy))))"

definition parse_fadt :: "bytes \<Rightarrow> (fadt_info, power_error) outcome" where
  "parse_fadt bytes =
     and_then (parse_sdt_header bytes FADT_SIGNATURE) (\<lambda>_.
     if length bytes \<le> FADT_PM1_CONTROL_LENGTH_OFFSET then Err InvalidFadt else
     and_then (index bytes FADT_PM1_CONTROL_LENGTH_OFFSET) (\<lambda>control_length.
     if control_length < 2 then Err InvalidFadt else
     and_then (select_dsdt_address bytes) (\<lambda>dsdt_address.
     and_then (and_then (select_pm1_control_block bytes FADT_PM1A_CONTROL_BLOCK_OFFSET FADT_X_PM1A_CONTROL_BLOCK_OFFSET)
                 (\<lambda>block. ok_or block MissingPm1ControlBlock)) (\<lambda>pm1a_control_block.
     and_then (select_pm1_control_block bytes FADT_PM1B_CONTROL_BLOCK_OFFSET FADT_X_PM1B_CONTROL_BLOCK_OFFSET) (\<lambda>pm1b_control_block.
       Ok \<lparr>fi_dsdt_address = dsdt_address, fi_pm1a_control_block = pm1a_control_block,
           fi_pm1b_control_block = pm1b_control_block\<rparr>)))))"

section \<open>The DSDT\<close>

definition parse_package_length :: "bytes \<Rightarrow> (u64 \<times> nat) option" where
  "parse_package_length bytes =
     (case bytes of
        [] \<Rightarrow> None
      | lead # rest \<Rightarrow>
          let following_bytes = unat (drop_bit 6 lead) in
          if length bytes < 1 + following_bytes then None
          else Some (foldl (\<lambda>len i. len OR push_bit (4 + i * 8) (ucast (rest ! i))) (ucast (lead AND 0x0f)) [0..<following_bytes],
                     1 + following_bytes))"

definition parse_aml_integer :: "bytes \<Rightarrow> (u16 \<times> nat) option" where
  "parse_aml_integer bytes =
     (case bytes of
        [] \<Rightarrow> None
      | opcode # rest \<Rightarrow>
          if opcode = 0x00 then Some (0, 1)
          else if opcode = 0x01 then Some (1, 1)
          else if opcode = AML_BYTE_PREFIX \<and> 2 \<le> length bytes then Some (ucast (rest ! 0), 2)
          else if opcode = AML_WORD_PREFIX \<and> 3 \<le> length bytes then Some (from_le_bytes (take 2 rest), 3)
          else if opcode = AML_DWORD_PREFIX \<and> 5 \<le> length bytes then Some (ucast (from_le_bytes (take 4 rest) :: u32), 5)
          else if opcode = AML_QWORD_PREFIX \<and> 9 \<le> length bytes then Some (ucast (from_le_bytes (take 8 rest) :: u64), 9)
          else None)"

text \<open>Where a name would start if an AML name definition is at \<open>i\<close>.\<close>

definition s5_name_start :: "bytes \<Rightarrow> nat \<Rightarrow> (nat option, power_error) outcome" where
  "s5_name_start aml i =
     and_then (index aml i) (\<lambda>b.
     if b = AML_NAME_OP then Ok (Some (i + 1))
     else if i + 1 < length aml \<and> (b = AML_ROOT_PREFIX \<or> b = AML_PARENT_PREFIX)
     then and_then (index aml (i + 1)) (\<lambda>c. Ok (if c = AML_NAME_OP then Some (i + 2) else None))
     else Ok None)"

text \<open>Where the package starts if the name is \<^verbatim>\<open>_S5_\<close> and names a package.\<close>

definition s5_package_start :: "bytes \<Rightarrow> nat \<Rightarrow> (nat option, power_error) outcome" where
  "s5_package_start aml name_start =
     (if length aml < name_start + 4 then Ok None else
      and_then (slice aml name_start (name_start + 4)) (\<lambda>name.
      if name \<noteq> S5_NAME \<or> length aml \<le> name_start + 4 then Ok None else
      and_then (index aml (name_start + 4)) (\<lambda>b.
        Ok (if b = AML_PACKAGE_OP then Some (name_start + 5) else None))))"

definition s5_values :: "bytes \<Rightarrow> nat \<Rightarrow> (u16 \<times> u16, power_error) outcome" where
  "s5_values aml cursor =
     and_then (slice aml cursor (length aml)) (\<lambda>rest.
     and_then (ok_or (parse_package_length rest) InvalidS5Package) (\<lambda>(_, package_length_bytes).
     let cursor = cursor + package_length_bytes in
     if length aml \<le> cursor then Err InvalidS5Package else
     let cursor = cursor + 1 in
     and_then (slice aml cursor (length aml)) (\<lambda>rest.
     and_then (ok_or (parse_aml_integer rest) InvalidS5Package) (\<lambda>(sleep_type_a, consumed_a).
     and_then (slice aml (cursor + consumed_a) (length aml)) (\<lambda>rest.
     and_then (ok_or (parse_aml_integer rest) InvalidS5Package) (\<lambda>(sleep_type_b, _).
       Ok (sleep_type_a AND 7, sleep_type_b AND 7)))))))"

function s5_search :: "bytes \<Rightarrow> nat \<Rightarrow> (u16 \<times> u16, power_error) outcome" where
  "s5_search aml i =
     (if i + 6 \<le> length aml
      then and_then (s5_name_start aml i) (\<lambda>name.
           and_then (case name of None \<Rightarrow> Ok None | Some name_start \<Rightarrow> s5_package_start aml name_start) (\<lambda>package.
           case package of
             None \<Rightarrow> s5_search aml (i + 1)
           | Some cursor \<Rightarrow> s5_values aml cursor))
      else Err MissingS5Package)"
  by pat_completeness auto
termination
  by (relation "measure (\<lambda>(aml, i). length aml - i)") auto

declare s5_search.simps [simp del]

definition parse_s5_package :: "bytes \<Rightarrow> (u16 \<times> u16, power_error) outcome" where
  "parse_s5_package dsdt =
     and_then (parse_sdt_header dsdt DSDT_SIGNATURE) (\<lambda>_.
     and_then (slice dsdt SDT_HEADER_LENGTH (length dsdt)) (\<lambda>aml. s5_search aml 0))"

section \<open>Discovery\<close>

type_synonym 'a power_op = "kmem \<Rightarrow> ('a, power_error) outcome \<times> kmem"

text \<open>A slice of table memory, and its bytes now.\<close>

type_synonym mem_slice = "u64 \<times> nat"

definition slice_bytes :: "kmem \<Rightarrow> mem_slice \<Rightarrow> bytes" where
  "slice_bytes km s = read_mem (km_memory km) (fst s) (snd s)"

definition map_bytes :: "u64 \<Rightarrow> nat \<Rightarrow> mem_slice power_op" where
  "map_bytes address len km =
     (if len = 0 then (Err MappingFailed, km)
      else case checked_add address (of_nat len) of
             None \<Rightarrow> (Err MappingFailed, km)
           | Some end \<Rightarrow>
               (case map_kernel_identity_range address end False km of
                  (Ok _, km) \<Rightarrow> (Ok (address, len), km)
                | (Err _, km) \<Rightarrow> (Err MappingFailed, km)
                | (Panic, km) \<Rightarrow> (Panic, km)))"

text \<open>The \<^verbatim>\<open>map_err\<close> closure of \<^verbatim>\<open>map_sdt\<close> sends every error to itself.\<close>

definition map_sdt :: "u64 \<Rightarrow> bytes \<Rightarrow> mem_slice power_op" where
  "map_sdt address expected_signature =
     (if address = 0 then (\<lambda>km. (Err MissingRootTable, km)) else
      bind_st (map_bytes address SDT_HEADER_LENGTH) (\<lambda>header km.
        case parse_table_length (slice_bytes km header) of
          None \<Rightarrow> (Err InvalidRootTable, km)
        | Some len \<Rightarrow>
            bind_st (map_bytes address len) (\<lambda>table km.
              (and_then (parse_sdt_header (slice_bytes km table) expected_signature) (\<lambda>_. Ok table), km)) km))"

definition root_table_signature :: "root_table_kind \<Rightarrow> bytes" where
  "root_table_signature kind = (case kind of Rsdt \<Rightarrow> RSDT_SIGNATURE | Xsdt \<Rightarrow> XSDT_SIGNATURE)"

definition entry_size :: "root_table_kind \<Rightarrow> nat" where
  "entry_size kind = (case kind of Rsdt \<Rightarrow> 4 | Xsdt \<Rightarrow> 8)"

definition root_entry :: "bytes \<Rightarrow> root_table_kind \<Rightarrow> nat \<Rightarrow> u64 option" where
  "root_entry root kind offset =
     (if entry_size kind = 4 then map_option ucast (read_u32 root offset) else read_u64 root offset)"

text \<open>One turn of the search: the entry's table when it is the FADT.\<close>

definition probe_fadt :: "u64 \<Rightarrow> u64 option power_op" where
  "probe_fadt table_address =
     (if table_address = 0 then (\<lambda>km. (Ok None, km)) else
      bind_st (map_bytes table_address SDT_HEADER_LENGTH) (\<lambda>header km.
        (Ok (if 4 \<le> length (slice_bytes km header) \<and> take 4 (slice_bytes km header) = FADT_SIGNATURE
             then Some table_address else None), km)))"

function find_fadt_from :: "mem_slice \<Rightarrow> root_table_kind \<Rightarrow> nat \<Rightarrow> u64 power_op" where
  "find_fadt_from root kind offset km =
     (if offset + entry_size kind \<le> snd root
      then case ok_or (root_entry (slice_bytes km root) kind offset) InvalidRootTable of
             Ok table_address \<Rightarrow>
               (case probe_fadt table_address km of
                  (Ok (Some a), km) \<Rightarrow> (Ok a, km)
                | (Ok None, km) \<Rightarrow> find_fadt_from root kind (offset + entry_size kind) km
                | (Err e, km) \<Rightarrow> (Err e, km)
                | (Panic, km) \<Rightarrow> (Panic, km))
           | Err e \<Rightarrow> (Err e, km)
           | Panic \<Rightarrow> (Panic, km)
      else (Err MissingFadt, km))"
  by pat_completeness auto
termination
  by (relation "measure (\<lambda>(root, kind, offset, km). snd root - offset)") (auto simp: entry_size_def split: root_table_kind.splits)

declare find_fadt_from.simps [simp del]

definition find_fadt_address :: "mem_slice \<Rightarrow> root_table_kind \<Rightarrow> u64 power_op" where
  "find_fadt_address root kind = find_fadt_from root kind SDT_HEADER_LENGTH"

definition discover_acpi_shutdown :: "u64 \<Rightarrow> acpi_shutdown power_op" where
  "discover_acpi_shutdown acpi_rsdp_addr =
     (if acpi_rsdp_addr = 0 then (\<lambda>km. (Err MissingRsdp, km)) else
      bind_st (map_bytes acpi_rsdp_addr RSDP_V2_LENGTH) (\<lambda>rsdp.
      bind_st (\<lambda>km. (parse_rsdp (slice_bytes km rsdp), km)) (\<lambda>root_table.
      bind_st (map_sdt (rt_address root_table) (root_table_signature (rt_kind root_table))) (\<lambda>root.
      bind_st (find_fadt_address root (rt_kind root_table)) (\<lambda>fadt_address.
      bind_st (map_sdt fadt_address FADT_SIGNATURE) (\<lambda>fadt.
      bind_st (\<lambda>km. (parse_fadt (slice_bytes km fadt), km)) (\<lambda>fadt_info.
      bind_st (map_sdt (fi_dsdt_address fadt_info) DSDT_SIGNATURE) (\<lambda>dsdt.
      bind_st (\<lambda>km. (parse_s5_package (slice_bytes km dsdt), km)) (\<lambda>(sleep_type_a, sleep_type_b) km.
        (Ok \<lparr>sd_pm1a_control_block = fi_pm1a_control_block fadt_info, sd_pm1b_control_block = fi_pm1b_control_block fadt_info,
             sd_sleep_type_a = sleep_type_a, sd_sleep_type_b = sleep_type_b\<rparr>, km))))))))))"

definition power_init :: "u64 \<Rightarrow> power_state \<Rightarrow> kmem \<Rightarrow> (power_state, power_error) outcome \<times> kmem" where
  "power_init acpi_rsdp_addr state km =
     (case discover_acpi_shutdown acpi_rsdp_addr km of
        (Ok shutdown, km) \<Rightarrow> (Ok (state\<lparr>pw_backend := AcpiSoftOff shutdown\<rparr>), km)
      | (Err error, km) \<Rightarrow> (Ok (state\<lparr>pw_backend := Unavailable error\<rparr>), km)
      | (Panic, km) \<Rightarrow> (Panic, km))"

section \<open>Shutdown\<close>

text \<open>The port writes of \<^verbatim>\<open>perform\<close>.\<close>

definition sleep_command :: "u16 \<Rightarrow> u16" where
  "sleep_command sleep_type = push_bit PM1_CONTROL_SLEEP_TYPE_SHIFT sleep_type OR PM1_CONTROL_SLEEP_ENABLE"

definition shutdown_perform :: "acpi_shutdown \<Rightarrow> (u16 \<times> u16) list" where
  "shutdown_perform sd =
     (sd_pm1a_control_block sd, sleep_command (sd_sleep_type_a sd)) #
     (case sd_pm1b_control_block sd of
        None \<Rightarrow> []
      | Some port \<Rightarrow> [(port, sleep_command (sd_sleep_type_b sd))])"

text \<open>\<^verbatim>\<open>shutdown\<close> never returns: its port writes and the line it prints before the machine halts, which
  hardware that obeys the writes never reaches.\<close>

definition print_shutdown_message :: "string \<Rightarrow> string" where
  "print_shutdown_message reason = ''shutdown unavailable: '' @ reason"

definition power_shutdown :: "power_state \<Rightarrow> (u16 \<times> u16) list \<times> string" where
  "power_shutdown state =
     (case pw_backend state of
        AcpiSoftOff shutdown \<Rightarrow> (shutdown_perform shutdown, print_shutdown_message ''firmware did not power off the machine'')
      | Unavailable error \<Rightarrow> ([], print_shutdown_message (power_error_as_str error))
      | Uninitialized \<Rightarrow> ([], print_shutdown_message ''power subsystem was not initialized''))"

end
