(* ===== verification/Boot_Memory.thy ===== *)
theory Boot_Memory
  imports Loader_Isolation Rootfs
begin

text \<open>
  Kernel memory during boot: \<^verbatim>\<open>memory::init\<close> and the mounting of the root filesystem leave the kernel with
  a well-formed address space of its own, open to no user address, and with free memory that meets
  none of its tables.
\<close>

abbreviation kernel_vm :: "kmem \<Rightarrow> vm" where
  "kernel_vm km \<equiv> \<lparr>vm_memory = km_memory km, vm_alloc = ms_allocator (km_state km), vm_owned = owned_pages_empty\<rparr>"

definition kernel_ready :: "kmem \<Rightarrow> bool" where
  "kernel_ready km \<longleftrightarrow> layout_ok (km_state km) \<and>
     (\<exists>space. ms_kernel_space (km_state km) = Some space \<and> vm_inv (as_root_paddr space) (kernel_vm km) \<and>
        kernel_context (km_state km) (km_memory km) (as_root_paddr space))"

section \<open>Builder runs on the kernel's space\<close>

text \<open>A kernel page is a zeroed frame that was free; everything else stays.\<close>

lemma kernel_page_cases:
  assumes a: "alloc_inv (ms_allocator (km_state km))" "frames_ok (ms_allocator (km_state km))"
    and run: "allocate_kernel_page km = (Ok c, km')"
  obtains pa where "km' = \<lparr>km_state = (km_state km)\<lparr>ms_allocator := pa\<rparr>, km_memory = fill_bytes (km_memory km) c 0 4096\<rparr>"
    "alloc_inv pa" "frames_ok pa" "frame_ok c" "c \<noteq> 0" "block c PAGE_SIZE \<subseteq> free_set (ms_allocator (km_state km))"
    "free_set pa = free_set (ms_allocator (km_state km)) - block c PAGE_SIZE"
  by (rule alloc_frame_cases [OF a, of "km_memory km"]) (use run that in \<open>auto simp: allocate_kernel_page_def\<close>)

lemma kernel_context_cong:
  assumes "space_inv m root F" "\<And>x. x \<in> table_bytes m root \<Longrightarrow> m' x = m x" "ms_phys_window_end ms' = ms_phys_window_end ms"
  shows "kernel_context ms' m' root = kernel_context ms m root"
proof -
  note O = space_outside_tables [OF assms(1,2)]
  have h: "huge_at m' root (pd_path w) (pd_index w) = huge_at m root (pd_path w) (pd_index w)" for w
    using O(3) [of "pd_path w" "pd_index w"] by (simp add: good_path_snoc)
  have uc: "upper_clear m' root = upper_clear m root"
    using O(3) by (auto simp: upper_clear_def good_path_def)
  show ?thesis by (simp only: kernel_context_def h O(4) in_window_def uc assms(3))
qed

lemma kernel_context_window:
  "ms_phys_window_end ms' = ms_phys_window_end ms \<Longrightarrow> kernel_context ms' m root = kernel_context ms m root"
  by (simp add: kernel_context_def in_window_def)

lemma range_ok_window: "ms_phys_window_end ms' = ms_phys_window_end ms \<Longrightarrow> range_ok ms' s e = range_ok ms s e"
  by (simp add: range_ok_def in_window_def)

lemma with_builder_context:
  assumes run: "with_builder f km = (Ok (), km')" and k: "keeps_context ms root False (kernel_vm km) (f (kernel_vm km))"
  shows "\<exists>pa. km_state km' = (km_state km)\<lparr>ms_allocator := pa\<rparr>" "vm_inv root (kernel_vm km')"
    "kernel_context ms (km_memory km') root"
proof -
  obtain st' where st': "f (kernel_vm km) = (Ok (), st')"
    "km' = \<lparr>km_state = (km_state km)\<lparr>ms_allocator := vm_alloc st'\<rparr>, km_memory = vm_memory st'\<rparr>"
    using run by (auto simp: with_builder_def split: prod.splits)
  have "grows root (kernel_vm km) st'" "kernel_context ms (vm_memory st') root" "vm_owned st' = owned_pages_empty"
    using k st'(1) by (simp_all add: keeps_context_def accounts_def)
  then show "\<exists>pa. km_state km' = (km_state km)\<lparr>ms_allocator := pa\<rparr>" "vm_inv root (kernel_vm km')"
    "kernel_context ms (km_memory km') root"
    using st'(2) growsD(1) [of root "kernel_vm km" st'] by (cases st', auto)+
qed

section \<open>memory::init\<close>

text \<open>The framebuffer's pages, and that they meet neither the window nor the user range when they are not
  part of the window.\<close>

definition framebuffer_range :: "boot_info \<Rightarrow> u64 \<times> u64" where
  "framebuffer_range bi =
     (align_down (fb_base (bi_framebuffer bi)) PAGE_SIZE,
      align_up (fb_base (bi_framebuffer bi) + fb_size (bi_framebuffer bi)) PAGE_SIZE)"

definition device_apart :: "memory_state \<Rightarrow> u64 \<times> u64 \<Rightarrow> bool" where
  "device_apart ms r \<longleftrightarrow>
     fst r < PHYS_WINDOW_START \<or> ms_phys_window_end ms < snd r \<longrightarrow> range_ok ms (fst r) (snd r)"

definition firmware_sane :: "u64 \<Rightarrow> u64 \<Rightarrow> boot_info \<Rightarrow> bool" where
  "firmware_sane ks ke bi \<longleftrightarrow>
     (\<forall>r \<in> set (bi_memory_regions bi). region_sane r) \<and> length (bi_memory_regions bi) < MAX_FREE_RANGES \<and>
     unat ks < unat ke \<and> unat ke \<le> 2 ^ 48 \<and>
     (\<forall>ms. initialize_allocator (kernel_image_range ks ke) bi memory_state_new = Ok ms \<longrightarrow> device_apart ms (framebuffer_range bi))"

lemma kernel_page_fresh:
  assumes a: "alloc_inv (ms_allocator (km_state km))" "frames_ok (ms_allocator (km_state km))"
    and run: "allocate_kernel_page km = (Ok c, km')"
  shows "vm_inv c (kernel_vm km')" "fresh_root (km_memory km') c" "\<exists>pa. km_state km' = (km_state km)\<lparr>ms_allocator := pa\<rparr>"
proof -
  have "vm_inv c (kernel_vm km') \<and> fresh_root (km_memory km') c \<and> (\<exists>pa. km_state km' = (km_state km)\<lparr>ms_allocator := pa\<rparr>)"
  proof (rule kernel_page_cases [OF a run], goal_cases)
    case (1 pa)
    let ?m = "fill_bytes (km_memory km) c 0 4096"
    have f: "fresh_root ?m c" using page_entry_fill_same [OF 1(4)] by (simp add: fresh_root_def)
    have t: "table_at ?m c p = Some t \<longleftrightarrow> p = [] \<and> t = c" if "good_path p" for p t
      using fresh_root_tables [OF f that] by simp
    have "space_inv ?m c (free_set pa)" using t 1(4,7) by (auto simp: space_inv_def)
    with 1 f show ?case by (auto simp: vm_inv_def)
  qed
  then show "vm_inv c (kernel_vm km')" "fresh_root (km_memory km') c" "\<exists>pa. km_state km' = (km_state km)\<lparr>ms_allocator := pa\<rparr>"
    by simp_all
qed

lemma memory_init_ready:
  assumes fw: "firmware_sane ks ke bi" and km: "km_state km = memory_state_new"
    and run: "memory_init (kernel_image_range ks ke) bi km = (Ok (), km')"
  shows "kernel_ready km' \<and> (\<exists>ms. initialize_allocator (kernel_image_range ks ke) bi memory_state_new = Ok ms \<and>
     ms_phys_window_end (km_state km') = ms_phys_window_end ms)"
proof -
  have h: "\<forall>r \<in> set (bi_memory_regions bi). region_sane r" "length (bi_memory_regions bi) < MAX_FREE_RANGES"
    "unat ks < unat ke" "unat ke \<le> 2 ^ 48" using fw by (simp_all add: firmware_sane_def)
  show ?thesis
  proof (rule initialize_allocator_run [OF h, where st = memory_state_new], goal_cases)
    case 1
    with run km show ?case by (simp add: memory_init_def bind_st_def)
  next
    case (2 pa w)
    let ?ms = "memory_state_new\<lparr>ms_allocator := pa, ms_shared_kernel_mapping_count := 0, ms_phys_window_end := w\<rparr>"
    have fb: "device_apart ?ms (framebuffer_range bi)" using fw 2(1) by (simp add: firmware_sane_def)
    have lay: "layout_ok ?ms" using 2(6,7) by (simp add: layout_ok_def framebuffer_mapped_def memory_state_new_def)
    let ?km1 = "km\<lparr>km_state := ?ms\<rparr>"
    have a: "alloc_inv (ms_allocator (km_state ?km1))" "frames_ok (ms_allocator (km_state ?km1))" using 2(2,3) by simp_all
    obtain c km2 where c: "allocate_kernel_page ?km1 = (Ok c, km2)"
      using run km 2(1) by (auto simp: memory_init_def bind_st_def split: prod.splits outcome.splits)
    note P = kernel_page_fresh [OF a c]
    obtain pa2 where s2: "km_state km2 = ?ms\<lparr>ms_allocator := pa2\<rparr>" using P(3) by auto
    let ?b = "\<lparr>ab_root_paddr = c, ab_tracks_owned = False\<rparr>" and ?fb = "framebuffer_range bi"
    have l2: "layout_ok (km_state km2)" using lay s2 by (simp add: layout_ok_def framebuffer_mapped_def range_ok_def in_window_def)
    have w2: "ms_phys_window_end (km_state km2) = w" using s2 by simp
    obtain km3 where m2: "with_builder (map_identity_2m_range ?b PHYS_WINDOW_START w kernel_flags) km2 = (Ok (), km3)"
      using run km 2(1) c w2 by (auto simp: memory_init_def bind_st_def Let_def split: prod.splits outcome.splits)
    have k2: "keeps_context (km_state km2) c False (kernel_vm km2) (map_identity_2m_range ?b PHYS_WINDOW_START w kernel_flags (kernel_vm km2))"
      using window_keeps_context [OF l2, of ?b c "kernel_vm km2"] P(1,2) w2 by simp
    note C2 = with_builder_context [OF m2 k2]
    let ?mapped = "fst ?fb < PHYS_WINDOW_START \<or> w < snd ?fb"
    obtain km4 where m3: "(if ?mapped then with_builder (map_identity_4k_range ?b (fst ?fb) (snd ?fb) kernel_flags) else (\<lambda>km. (Ok (), km))) km3 = (Ok (), km4)"
      "km' = km4\<lparr>km_state := (km_state km4)\<lparr>ms_framebuffer_start := fst ?fb, ms_framebuffer_end := snd ?fb, ms_kernel_space := Some \<lparr>as_root_paddr = c\<rparr>\<rparr>\<rparr>"
      using run km 2(1) c w2 m2 by (auto simp: memory_init_def bind_st_def Let_def framebuffer_range_def split: prod.splits outcome.splits if_splits)
    have C3: "(\<exists>pa. km_state km4 = (km_state km3)\<lparr>ms_allocator := pa\<rparr>) \<and> vm_inv c (kernel_vm km4) \<and> kernel_context (km_state km2) (km_memory km4) c"
    proof (cases ?mapped)
      case True
      have "range_ok (km_state km2) (fst ?fb) (snd ?fb)"
        using fb True s2 by (simp add: device_apart_def range_ok_def in_window_def)
      then have "keeps_context (km_state km2) c False (kernel_vm km3) (map_identity_4k_range ?b (fst ?fb) (snd ?fb) kernel_flags (kernel_vm km3))"
        using range_keeps_context [of c "kernel_vm km3" "km_state km2" "fst ?fb" "snd ?fb" ?b kernel_flags] C2 by simp
      with True m3(1) show ?thesis
        using with_builder_context [of "map_identity_4k_range ?b (fst ?fb) (snd ?fb) kernel_flags" km3 km4] by simp
    next
      case False
      with m3(1) C2 show ?thesis by (cases "km_state km4") auto
    qed
    have st: "\<exists>pa. km_state km' = ?ms\<lparr>ms_allocator := pa, ms_framebuffer_start := fst ?fb, ms_framebuffer_end := snd ?fb, ms_kernel_space := Some \<lparr>as_root_paddr = c\<rparr>\<rparr>"
      using C3 C2(1) s2 m3(2) by auto
    have "layout_ok (km_state km')"
      using st fb 2(6,7) by (auto simp: layout_ok_def framebuffer_mapped_def device_apart_def range_ok_def in_window_def memory_state_new_def)
    moreover have we: "ms_phys_window_end (km_state km') = ms_phys_window_end (km_state km2)" using st w2 by auto
    then have "kernel_context (km_state km') (km_memory km') c"
      using C3 m3(2) kernel_context_window [of "km_state km'" "km_state km2"] by simp
    ultimately have "kernel_ready km'" using C3 st m3(2) by (auto simp: kernel_ready_def)
    with 2(1) we w2 show ?case by simp
  qed
qed

section \<open>Devices and kernel pages\<close>

lemma record_mapping_layout:
  assumes "layout_ok ms" "range_ok ms (align_down s PAGE_SIZE) (align_up e PAGE_SIZE)" "record_shared_kernel_mapping s e w ms = Ok ms'"
  shows "layout_ok ms'" "ms_phys_window_end ms' = ms_phys_window_end ms" "ms_allocator ms' = ms_allocator ms"
    "ms_kernel_space ms' = ms_kernel_space ms"
proof -
  let ?m = "\<lparr>sk_start = align_down s PAGE_SIZE, sk_end = align_up e PAGE_SIZE, sk_writable = w\<rparr>"
  consider "ms' = ms" | "ms_shared_kernel_mapping_count ms < length (ms_shared_kernel_mappings ms)"
      "ms' = ms\<lparr>ms_shared_kernel_mappings := (ms_shared_kernel_mappings ms)[ms_shared_kernel_mapping_count ms := ?m],
               ms_shared_kernel_mapping_count := ms_shared_kernel_mapping_count ms + 1\<rparr>"
  proof (cases "ms' = ms")
    case False
    then obtain recorded where "mapping_recorded_from ms (align_down s PAGE_SIZE) (align_up e PAGE_SIZE) w 0 = Ok recorded"
      "\<not> recorded" "\<not> align_up e PAGE_SIZE \<le> align_down s PAGE_SIZE"
      using assms(3) unfolding record_shared_kernel_mapping_def Let_def
      by (cases "mapping_recorded_from ms (align_down s PAGE_SIZE) (align_up e PAGE_SIZE) w 0") (simp_all split: if_splits)
    with assms(3) that(2) show thesis
      unfolding record_shared_kernel_mapping_def Let_def by (simp add: store_def split: if_splits)
  qed (use that(1) in simp)
  then have "layout_ok ms' \<and> ms_phys_window_end ms' = ms_phys_window_end ms \<and> ms_allocator ms' = ms_allocator ms \<and>
    ms_kernel_space ms' = ms_kernel_space ms"
  proof cases
    case 2
    have rg: "range_ok ms' = range_ok ms" using 2(2) by (intro ext range_ok_window) simp
    have "range_ok ms (sk_start (ms_shared_kernel_mappings ms' ! i)) (sk_end (ms_shared_kernel_mappings ms' ! i))"
      if "i < ms_shared_kernel_mapping_count ms'" for i
      using that 2 assms(1,2) by (cases "i = ms_shared_kernel_mapping_count ms") (simp_all add: layout_ok_def less_Suc_eq)
    with 2 assms(1) show ?thesis unfolding layout_ok_def rg by (simp add: framebuffer_mapped_def)
  qed (use assms(1) in simp)
  then show "layout_ok ms'" "ms_phys_window_end ms' = ms_phys_window_end ms" "ms_allocator ms' = ms_allocator ms"
    "ms_kernel_space ms' = ms_kernel_space ms" by simp_all
qed

lemma mapping_recorded_total:
  "ms_shared_kernel_mapping_count ms \<le> length (ms_shared_kernel_mappings ms) \<Longrightarrow> mapping_recorded_from ms s e w i \<noteq> Panic"
proof (induction ms s e w i rule: mapping_recorded_from.induct)
  case (1 ms s e w i)
  then show ?case by (subst mapping_recorded_from.simps) (auto simp: and_then_eq_Panic)
qed

lemma record_mapping_total: "layout_ok ms \<Longrightarrow> record_shared_kernel_mapping s e w ms \<noteq> Panic"
  using mapping_recorded_total [of ms]
  by (auto simp: record_shared_kernel_mapping_def Let_def and_then_eq_Panic store_def layout_ok_def)

lemma range_ok_aligned: "range_ok ms s e \<Longrightarrow> align_down s PAGE_SIZE = s \<and> align_up e PAGE_SIZE = e"
  by (simp add: range_ok_def word_unat_eq_iff unat_aligned)

text \<open>Memory that is neither free nor a table of the kernel's own space.\<close>

definition untouched :: "kmem \<Rightarrow> u64 set \<Rightarrow> bool" where
  "untouched km A \<longleftrightarrow> A \<inter> free_set (ms_allocator (km_state km)) = {} \<and>
     (\<forall>space. ms_kernel_space (km_state km) = Some space \<longrightarrow> A \<inter> table_bytes (km_memory km) (as_root_paddr space) = {})"

lemma map_kernel_range_ready:
  assumes r: "kernel_ready km" and ok: "range_ok (km_state km) (align_down s PAGE_SIZE) (align_up e PAGE_SIZE)"
    and run: "map_kernel_identity_range s e w km = (res, km')"
  shows "res \<noteq> Panic" "kernel_ready km'" "ms_phys_window_end (km_state km') = ms_phys_window_end (km_state km)"
    "untouched km A \<Longrightarrow> untouched km' A \<and> (\<forall>x \<in> A. km_memory km' x = km_memory km x)"
proof -
  obtain space where sp: "layout_ok (km_state km)" "ms_kernel_space (km_state km) = Some space"
    "vm_inv (as_root_paddr space) (kernel_vm km)" "kernel_context (km_state km) (km_memory km) (as_root_paddr space)"
    using r by (auto simp: kernel_ready_def)
  let ?root = "as_root_paddr space" let ?b = "\<lparr>ab_root_paddr = ?root, ab_tracks_owned = False\<rparr>"
  obtain q st where q: "map_identity_4k_range ?b s e (mapping_flags w) (kernel_vm km) = (q, st)" by fastforce
  have S: "q \<noteq> Panic" "grows ?root (kernel_vm km) st" "kernel_context (km_state km) (vm_memory st) ?root" "vm_owned st = owned_pages_empty"
    using range_spec [OF sp(3) _ ok, of ?b "mapping_flags w"] sp(4) q by (cases q; auto simp: accounts_def consumes_def)+
  let ?km1 = "\<lparr>km_state = (km_state km)\<lparr>ms_allocator := vm_alloc st\<rparr>, km_memory = vm_memory st\<rparr>"
  note G = growsD [OF S(2)]
  have lay: "layout_ok (km_state ?km1)" using sp(1) by (simp add: layout_ok_def framebuffer_mapped_def range_ok_def in_window_def)
  have ok1: "range_ok (km_state ?km1) (align_down s PAGE_SIZE) (align_up e PAGE_SIZE)" using ok by (simp add: range_ok_def in_window_def)
  have v1: "vm_inv ?root (kernel_vm ?km1)" using G(1) S(4) by (cases st) simp
  have rdy: "kernel_ready (?km1\<lparr>km_state := ms\<rparr>)"
    if "layout_ok ms" "ms_phys_window_end ms = ms_phys_window_end (km_state km)" "ms_allocator ms = vm_alloc st" "ms_kernel_space ms = Some space" for ms
    using that v1 kernel_context_window [of ms "km_state km"] S(3) by (simp add: kernel_ready_def)
  obtain ms where res: "km' = ?km1\<lparr>km_state := ms\<rparr>" "ms_phys_window_end ms = ms_phys_window_end (km_state km)" "ms_allocator ms = vm_alloc st"
    "ms_kernel_space ms = Some space" "layout_ok ms" "res \<noteq> Panic"
  proof (cases "q = Ok () \<and> (\<exists>ms. record_shared_kernel_mapping s e w (km_state ?km1) = Ok ms)")
    case True
    then obtain ms where "record_shared_kernel_mapping s e w (km_state ?km1) = Ok ms" by blast
    with True record_mapping_layout [OF lay ok1 this] run q sp(2) show ?thesis
      by (intro that [of ms]) (auto simp: map_kernel_identity_range_def bind_st_def with_builder_def)
  next
    case False
    then have "km' = ?km1" "res \<noteq> Panic"
      using run q sp(2) S(1) record_mapping_total [OF lay]
      by (cases q; auto simp: map_kernel_identity_range_def bind_st_def with_builder_def split: outcome.splits)+
    with lay sp(2) show ?thesis by (intro that [of "km_state ?km1"]) auto
  qed
  then show "res \<noteq> Panic" "kernel_ready km'" "ms_phys_window_end (km_state km') = ms_phys_window_end (km_state km)" using rdy by simp_all
  show "untouched km' A \<and> (\<forall>x \<in> A. km_memory km' x = km_memory km x)" if "untouched km A"
  proof
    have d: "A \<inter> free_set (ms_allocator (km_state km)) = {}" "A \<inter> table_bytes (km_memory km) ?root = {}"
      using that sp(2) by (simp_all add: untouched_def)
    then show "untouched km' A" using G(2,3) res(1,3,4) unfolding untouched_def by auto
    show "\<forall>x \<in> A. km_memory km' x = km_memory km x"
    proof
      fix x assume "x \<in> A"
      with d have "x \<notin> free_set (ms_allocator (km_state km))" "x \<notin> table_bytes (km_memory km) ?root" by blast+
      with G(4) [of x] res(1) show "km_memory km' x = km_memory km x" by simp
    qed
  qed
qed

text \<open>Taking memory out of the free set and writing to it touches no kernel table.\<close>

lemma free_memory_ready:
  assumes r: "kernel_ready km" and st: "km_state km' = (km_state km)\<lparr>ms_allocator := pa\<rparr>" and pa: "alloc_inv pa" "frames_ok pa"
    and F: "free_set pa \<subseteq> free_set (ms_allocator (km_state km))"
    and m: "\<And>x. x \<notin> free_set (ms_allocator (km_state km)) \<Longrightarrow> km_memory km' x = km_memory km x"
  shows "kernel_ready km'"
proof -
  obtain space where sp: "layout_ok (km_state km)" "ms_kernel_space (km_state km) = Some space"
    "vm_inv (as_root_paddr space) (kernel_vm km)" "kernel_context (km_state km) (km_memory km) (as_root_paddr space)"
    using r by (auto simp: kernel_ready_def)
  let ?root = "as_root_paddr space"
  have inv: "space_inv (km_memory km) ?root (free_set (ms_allocator (km_state km)))" using vm_invD(4) [OF sp(3)] by simp
  have same: "km_memory km' x = km_memory km x" if "x \<in> table_bytes (km_memory km) ?root" for x
    using that space_invD(2) [OF inv] by (intro m) (auto simp: table_bytes_def)
  have "space_inv (km_memory km') ?root (free_set (ms_allocator (km_state km)))" by (rule space_outside_tables(1) [OF inv same])
  then have "space_inv (km_memory km') ?root (free_set pa)" using F unfolding space_inv_def by blast
  moreover have "kernel_context (km_state km') (km_memory km') ?root"
    using kernel_context_cong [OF inv same, of "km_state km'" "km_state km"] sp(4) st by simp
  moreover have "layout_ok (km_state km')" using sp(1) st by (simp add: layout_ok_def framebuffer_mapped_def range_ok_def in_window_def)
  ultimately show ?thesis using sp(2) st pa by (simp add: kernel_ready_def vm_inv_def)
qed

lemma kernel_page_ready:
  assumes r: "kernel_ready km" and run: "allocate_kernel_page km = (res, km')"
  shows "kernel_ready km'"
proof -
  have a: "alloc_inv (ms_allocator (km_state km))" "frames_ok (ms_allocator (km_state km))"
    using r by (auto simp: kernel_ready_def vm_inv_def)
  show ?thesis
  proof (cases res)
    case (Ok c)
    show ?thesis
    proof (rule kernel_page_cases [OF a run [unfolded Ok]], goal_cases)
      case (1 pa)
      have "unat c + 4096 < 2 ^ 64" using 1(4) by (simp add: frame_ok_def)
      from frames.zeroed_block(2) [OF this] have "km_memory km' x = km_memory km x" if "x \<notin> block c PAGE_SIZE" for x
        using that 1(1) by simp
      with 1 show ?case by (intro free_memory_ready [OF r, of km' pa]) auto
    qed
  qed (use r run in \<open>auto simp: allocate_kernel_page_def split: outcome.splits\<close>)
qed

section \<open>Mounting\<close>

lemma bind_ready:
  assumes "kernel_ready km" "\<And>km r km'. kernel_ready km \<Longrightarrow> f km = (r, km') \<Longrightarrow> kernel_ready km'"
    "\<And>x km r km'. kernel_ready km \<Longrightarrow> g x km = (r, km') \<Longrightarrow> kernel_ready km'" "bind_st f g km = (r, km')"
  shows "kernel_ready km'"
proof -
  obtain q km1 where f: "f km = (q, km1)" by fastforce
  then have "kernel_ready km1" using assms(1,2) by blast
  with f assms(3,4) show ?thesis by (cases q) (auto simp: bind_st_def)
qed

lemma ahci_initialize_ready:
  assumes r: "kernel_ready km" and run: "ahci_initialize hw abar km d = (res, km', d')"
  shows "kernel_ready km'"
proof -
  let ?pages = "bind_st allocate_kernel_page (\<lambda>command_list.
           bind_st allocate_kernel_page (\<lambda>fis.
           bind_st allocate_kernel_page (\<lambda>command_table.
           bind_st allocate_kernel_page (\<lambda>dma_buffer s.
             (Ok \<lparr>ah_abar = abar, ah_port_index = 0, ah_command_list_paddr = command_list, ah_fis_paddr = fis,
                 ah_command_table_paddr = command_table, ah_dma_buffer_paddr = dma_buffer\<rparr>, s)))))"
  obtain c km1 where p: "?pages km = (c, km1)" by fastforce
  have "kernel_ready km1"
    by (rule bind_ready [OF r kernel_page_ready _ p], assumption+,
        erule bind_ready [OF _ kernel_page_ready], assumption+,
        erule bind_ready [OF _ kernel_page_ready], assumption+,
        erule bind_ready [OF _ kernel_page_ready], assumption+) auto
  moreover have "km' = km1"
    using run p by (cases c) (auto simp: ahci_initialize_def Let_def split: prod.splits)
  ultimately show ?thesis by simp
qed

definition controller_apart :: "memory_state \<Rightarrow> pci_config \<Rightarrow> bool" where
  "controller_apart ms config \<longleftrightarrow>
     (\<forall>info. find_ahci_controller config = Some info \<longrightarrow>
        range_ok ms (align_down (ac_abar info) PAGE_SIZE) (align_up (ac_abar info + AHCI_MMIO_SIZE) PAGE_SIZE))"

lemma init_root_fs_ready:
  assumes r: "kernel_ready km" and c: "controller_apart (km_state km) config"
    and run: "init_root_fs config enable hw km d slot = (Ok (), km', d', slot')"
  shows "kernel_ready km'"
proof -
  obtain fs where m: "mount_root_fs config enable hw km d = (Ok fs, km', d')"
    using run by (auto simp: init_root_fs_def split: prod.splits outcome.splits)
  obtain info where i: "find_ahci_controller config = Some info"
    using m by (cases "find_ahci_controller config") (auto simp: mount_root_fs_def)
  let ?s = "align_down (ac_abar info) PAGE_SIZE" and ?e = "align_up (ac_abar info + AHCI_MMIO_SIZE) PAGE_SIZE"
  obtain q km1 where k: "map_kernel_identity_range ?s ?e True km = (q, km1)" by fastforce
  have q: "q = Ok ()" using m i k by (cases q) (auto simp: mount_root_fs_def Let_def)
  let ?d = "enable (enable_memory_bus_mastering config (ac_location info)) d"
  obtain ctl km2 d2 where h: "ahci_initialize hw (ac_abar info) km1 ?d = (ctl, km2, d2)" by (metis prod.exhaust)
  have "km' = km2" using m i k q h by (cases ctl) (auto simp: mount_root_fs_def Let_def)
  moreover have "kernel_ready km1"
    using map_kernel_range_ready(2) [OF r _ k] range_ok_aligned [of "km_state km" ?s ?e] c i by (simp add: controller_apart_def)
  ultimately show ?thesis using ahci_initialize_ready [OF _ h] by simp
qed

end
