(* ===== verification/Power_Discovery.thy ===== *)
theory Power_Discovery
  imports Power_Control Boot_Memory
begin

text \<open>
  Discovery of the power-off registers against a pure walk over the ACPI tables: the mappings the kernel
  makes on the way change nothing it reads, as long as the tables lie apart from free memory, from
  the kernel's page tables and from the ranges mapped otherwise; then the kernel either fails to
  map a table or finds what the walk finds.
\<close>

section \<open>The walk over memory\<close>

definition sdt_at :: "memory \<Rightarrow> u64 \<Rightarrow> bytes \<Rightarrow> (bytes, power_error) outcome" where
  "sdt_at m address signature =
     (if address = 0 then Err MissingRootTable
      else case parse_table_length (read_mem m address SDT_HEADER_LENGTH) of
             None \<Rightarrow> Err InvalidRootTable
           | Some len \<Rightarrow>
               and_then (parse_sdt_header (read_mem m address len) signature) (\<lambda>_. Ok (read_mem m address len)))"

definition is_fadt :: "memory \<Rightarrow> u64 \<Rightarrow> bool" where
  "is_fadt m address \<longleftrightarrow> address \<noteq> 0 \<and> read_mem m address 4 = FADT_SIGNATURE"

function fadt_from :: "memory \<Rightarrow> bytes \<Rightarrow> root_table_kind \<Rightarrow> nat \<Rightarrow> (u64, power_error) outcome" where
  "fadt_from m root kind offset =
     (case root_entry root kind offset of
        None \<Rightarrow> Err MissingFadt
      | Some address \<Rightarrow> if is_fadt m address then Ok address else fadt_from m root kind (offset + entry_size kind))"
  by pat_completeness auto
termination
  by (relation "measure (\<lambda>(m, root, kind, offset). length root - offset)")
    (auto simp: root_entry_def entry_size_def read_u32_def read_u64_def split: if_splits root_table_kind.splits)

declare fadt_from.simps [simp del]

definition acpi_walk :: "memory \<Rightarrow> u64 \<Rightarrow> (acpi_shutdown, power_error) outcome" where
  "acpi_walk m rsdp =
     (if rsdp = 0 then Err MissingRsdp else
      and_then (parse_rsdp (read_mem m rsdp RSDP_V2_LENGTH)) (\<lambda>root_table.
      and_then (sdt_at m (rt_address root_table) (root_table_signature (rt_kind root_table))) (\<lambda>root.
      and_then (fadt_from m root (rt_kind root_table) SDT_HEADER_LENGTH) (\<lambda>fadt_address.
      and_then (sdt_at m fadt_address FADT_SIGNATURE) (\<lambda>fadt.
      and_then (parse_fadt fadt) (\<lambda>info.
      and_then (sdt_at m (fi_dsdt_address info) DSDT_SIGNATURE) (\<lambda>dsdt.
      and_then (parse_s5_package dsdt) (\<lambda>(a, b).
        Ok \<lparr>sd_pm1a_control_block = fi_pm1a_control_block info, sd_pm1b_control_block = fi_pm1b_control_block info,
            sd_sleep_type_a = a, sd_sleep_type_b = b\<rparr>))))))))"

text \<open>The ranges discovery may ask to map.\<close>

definition sdt_visits :: "memory \<Rightarrow> u64 \<Rightarrow> mem_slice set" where
  "sdt_visits m address =
     {(a, n). a = address \<and> a \<noteq> 0 \<and> (n = SDT_HEADER_LENGTH \<or> parse_table_length (read_mem m address SDT_HEADER_LENGTH) = Some n)}"

inductive_set acpi_visits :: "memory \<Rightarrow> u64 \<Rightarrow> mem_slice set" for m rsdp where
  rsdp: "(rsdp, RSDP_V2_LENGTH) \<in> acpi_visits m rsdp"
| root: "parse_rsdp (read_mem m rsdp RSDP_V2_LENGTH) = Ok rt \<Longrightarrow> v \<in> sdt_visits m (rt_address rt) \<Longrightarrow> v \<in> acpi_visits m rsdp"
| entry: "parse_rsdp (read_mem m rsdp RSDP_V2_LENGTH) = Ok rt \<Longrightarrow>
    sdt_at m (rt_address rt) (root_table_signature (rt_kind rt)) = Ok root \<Longrightarrow> 
    root_entry root (rt_kind rt) (SDT_HEADER_LENGTH + entry_size (rt_kind rt) * i) = Some a \<Longrightarrow> a \<noteq> 0 \<Longrightarrow>
    (a, SDT_HEADER_LENGTH) \<in> acpi_visits m rsdp"
| fadt: "parse_rsdp (read_mem m rsdp RSDP_V2_LENGTH) = Ok rt \<Longrightarrow>
    sdt_at m (rt_address rt) (root_table_signature (rt_kind rt)) = Ok root \<Longrightarrow>
    fadt_from m root (rt_kind rt) SDT_HEADER_LENGTH = Ok f \<Longrightarrow> v \<in> sdt_visits m f \<Longrightarrow> v \<in> acpi_visits m rsdp"
| dsdt: "parse_rsdp (read_mem m rsdp RSDP_V2_LENGTH) = Ok rt \<Longrightarrow>
    sdt_at m (rt_address rt) (root_table_signature (rt_kind rt)) = Ok root \<Longrightarrow>
    fadt_from m root (rt_kind rt) SDT_HEADER_LENGTH = Ok f \<Longrightarrow> sdt_at m f FADT_SIGNATURE = Ok fadt \<Longrightarrow>
    parse_fadt fadt = Ok info \<Longrightarrow> v \<in> sdt_visits m (fi_dsdt_address info) \<Longrightarrow> v \<in> acpi_visits m rsdp"

definition slice_span :: "mem_slice \<Rightarrow> u64 set" where
  "slice_span s = {fst s + of_nat i | i. i < snd s}"

definition slice_range_ok :: "memory_state \<Rightarrow> mem_slice \<Rightarrow> bool" where
  "slice_range_ok ms s \<longleftrightarrow>
     range_ok ms (align_down (fst s) PAGE_SIZE) (align_up (fst s + of_nat (snd s)) PAGE_SIZE)"

definition acpi_apart :: "kmem \<Rightarrow> u64 \<Rightarrow> bool" where
  "acpi_apart km rsdp \<longleftrightarrow> rsdp \<noteq> 0 \<longrightarrow>
     (\<forall>s \<in> acpi_visits (km_memory km) rsdp. slice_range_ok (km_state km) s \<and> untouched km (slice_span s))"

section \<open>Mapping on the way\<close>

text \<open>States the discovery passes through: ready, and with the visited memory as it was.\<close>

definition table_state :: "kmem \<Rightarrow> mem_slice set \<Rightarrow> kmem \<Rightarrow> bool" where
  "table_state km0 V km \<longleftrightarrow> kernel_ready km \<and> ms_phys_window_end (km_state km) = ms_phys_window_end (km_state km0) \<and>
     (\<forall>s \<in> V. slice_range_ok (km_state km0) s \<and> untouched km (slice_span s) \<and>
        (\<forall>x \<in> slice_span s. km_memory km x = km_memory km0 x))"

lemma read_mem_span: "(\<forall>x \<in> slice_span (a, n). m' x = m x) \<Longrightarrow> read_mem m' a n = read_mem m a n"
  by (fastforce simp: read_mem_def slice_span_def)

lemma table_state_bytes: "table_state km0 V km \<Longrightarrow> s \<in> V \<Longrightarrow> slice_bytes km s = read_mem (km_memory km0) (fst s) (snd s)"
  unfolding slice_bytes_def by (intro read_mem_span) (auto simp: table_state_def)

definition maps_to :: "kmem \<Rightarrow> mem_slice set \<Rightarrow> ('a, power_error) outcome \<times> kmem \<Rightarrow> ('a, power_error) outcome \<Rightarrow> bool" where
  "maps_to km0 V r x \<longleftrightarrow> table_state km0 V (snd r) \<and> (fst r = x \<or> fst r = Err MappingFailed)"

lemma maps_to_bind:
  assumes "maps_to km0 V (f km) x" "\<And>a km. x = Ok a \<Longrightarrow> table_state km0 V km \<Longrightarrow> maps_to km0 V (g a km) (h a)"
  shows "maps_to km0 V (bind_st f g km) (and_then x h)"
proof -
  obtain r km' where f: "f km = (r, km')" by fastforce
  show ?thesis
    using assms f by (cases x; cases r) (auto simp: maps_to_def bind_st_def)
qed

lemma maps_to_read: "table_state km0 V km \<Longrightarrow> y = x \<Longrightarrow> maps_to km0 V (y, km) x"
  by (simp add: maps_to_def)

lemma map_bytes_maps:
  assumes s: "table_state km0 V km" and v: "(a, n) \<in> V"
  shows "maps_to km0 V (map_bytes a n km) (Ok (a, n))"
proof (cases "n = 0 \<or> checked_add a (of_nat n) = None")
  case True
  then show ?thesis using s by (auto simp: map_bytes_def maps_to_def)
next
  case False
  then have e: "checked_add a (of_nat n) = Some (a + of_nat n)" by (auto simp: checked_add_def split: if_splits)
  obtain r km' where run: "map_kernel_identity_range a (a + of_nat n) False km = (r, km')" by fastforce
  have "range_ok (km_state km) (align_down a PAGE_SIZE) (align_up (a + of_nat n) PAGE_SIZE)"
    using s v range_ok_window [of "km_state km" "km_state km0"] by (auto simp: table_state_def slice_range_ok_def)
  note R = map_kernel_range_ready [OF _ this run]
  have "table_state km0 V km'" using s R by (auto simp: table_state_def)
  moreover have "r \<noteq> Panic" using R(1) s by (simp add: table_state_def)
  ultimately show ?thesis using False run unfolding map_bytes_def e by (cases r) (simp_all add: maps_to_def)
qed

text \<open>\<^verbatim>\<open>map_sdt\<close> hands out a slice; what matters is what is in it.\<close>

lemma map_sdt_maps:
  assumes s: "table_state km0 V km" and v: "sdt_visits (km_memory km0) a \<subseteq> V"
  shows "maps_to km0 V (map_sdt a signature km)
    (and_then (sdt_at (km_memory km0) a signature) (\<lambda>table. Ok (a, length table)))"
proof (cases "a = 0")
  case True
  then show ?thesis using s by (simp add: map_sdt_def sdt_at_def maps_to_def)
next
  case False
  have h: "(a, SDT_HEADER_LENGTH) \<in> V" using v False by (auto simp: sdt_visits_def)
  let ?h = "\<lambda>header km. case parse_table_length (slice_bytes km header) of
          None \<Rightarrow> (Err InvalidRootTable, km)
        | Some len \<Rightarrow>
            bind_st (map_bytes a len) (\<lambda>table km. (and_then (parse_sdt_header (slice_bytes km table) signature) (\<lambda>_. Ok table), km)) km"
  let ?g = "\<lambda>header. and_then (sdt_at (km_memory km0) a signature) (\<lambda>table. Ok (a, length table))"
  have "maps_to km0 V (bind_st (map_bytes a SDT_HEADER_LENGTH) ?h km) (and_then (Ok (a, SDT_HEADER_LENGTH)) ?g)"
  proof (rule maps_to_bind, rule map_bytes_maps [OF s h])
    fix header km1 assume "Ok (a, SDT_HEADER_LENGTH) = (Ok header :: (mem_slice, power_error) outcome)" and s1: "table_state km0 V km1"
    then have b: "slice_bytes km1 header = read_mem (km_memory km0) a SDT_HEADER_LENGTH" using table_state_bytes [OF s1 h] by auto
    show "maps_to km0 V (?h header km1) (?g header)"
    proof (cases "parse_table_length (read_mem (km_memory km0) a SDT_HEADER_LENGTH)")
      case None
      with b s1 False show ?thesis by (simp add: maps_to_def sdt_at_def)
    next
      case (Some len)
      have l: "(a, len) \<in> V" using v Some False by (auto simp: sdt_visits_def)
      have "maps_to km0 V (bind_st (map_bytes a len) (\<lambda>table km. (and_then (parse_sdt_header (slice_bytes km table) signature) (\<lambda>_. Ok table), km)) km1)
          (and_then (Ok (a, len)) (\<lambda>table. and_then (parse_sdt_header (read_mem (km_memory km0) a len) signature) (\<lambda>_. Ok table)))"
        by (rule maps_to_bind, rule map_bytes_maps [OF s1 l], rule maps_to_read, assumption)
          (use table_state_bytes [OF _ l] in auto)
      moreover have "?g header = and_then (parse_sdt_header (read_mem (km_memory km0) a len) signature) (\<lambda>_. Ok (a, len))"
        using Some False by (simp add: sdt_at_def and_then_assoc read_mem_def)
      ultimately show ?thesis using Some b by simp
    qed
  qed
  with False show ?thesis by (simp add: map_sdt_def)
qed

lemma header_signature: "take 4 (read_mem m a SDT_HEADER_LENGTH) = read_mem m a 4" "length (read_mem m a n) = n"
  by (simp_all add: read_mem_def SDT_HEADER_LENGTH_def take_map take_upt)

lemma sdt_header_4: "4 \<le> SDT_HEADER_LENGTH" "\<not> SDT_HEADER_LENGTH < 4"
  by (simp_all add: SDT_HEADER_LENGTH_def)

lemma probe_fadt_maps:
  assumes s: "table_state km0 V km" and v: "a \<noteq> 0 \<Longrightarrow> (a, SDT_HEADER_LENGTH) \<in> V"
  shows "maps_to km0 V (probe_fadt a km) (Ok (if is_fadt (km_memory km0) a then Some a else None))"
proof (cases "a = 0")
  case True
  then show ?thesis using s by (simp add: probe_fadt_def is_fadt_def maps_to_def)
next
  case False
  have "maps_to km0 V (bind_st (map_bytes a SDT_HEADER_LENGTH) (\<lambda>header km.
        (Ok (if 4 \<le> length (slice_bytes km header) \<and> take 4 (slice_bytes km header) = FADT_SIGNATURE then Some a else None), km)) km)
      (and_then (Ok (a, SDT_HEADER_LENGTH)) (\<lambda>_. Ok (if is_fadt (km_memory km0) a then Some a else None)))"
    by (rule maps_to_bind, rule map_bytes_maps [OF s v [OF False]], rule maps_to_read, assumption)
      (use False table_state_bytes [OF _ v [OF False]] sdt_header_4 in \<open>auto simp: is_fadt_def header_signature\<close>)
  with False show ?thesis by (simp add: probe_fadt_def)
qed

lemma root_entry_None: "root_entry root kind offset = None \<longleftrightarrow> length root < offset + entry_size kind"
  by (cases kind) (auto simp: root_entry_def entry_size_def read_u32_def read_u64_def)

lemma find_fadt_maps:
  assumes "table_state km0 V km" "r \<in> V" 
    "\<And>i a. root_entry (read_mem (km_memory km0) (fst r) (snd r)) kind (offset + entry_size kind * i) = Some a \<Longrightarrow> a \<noteq> 0 \<Longrightarrow>
       (a, SDT_HEADER_LENGTH) \<in> V"
  shows "maps_to km0 V (find_fadt_from r kind offset km) (fadt_from (km_memory km0) (read_mem (km_memory km0) (fst r) (snd r)) kind offset)"
  using assms(1,3)
proof (induction "snd r - offset" arbitrary: offset km rule: less_induct)
  case less
  let ?root = "read_mem (km_memory km0) (fst r) (snd r)"
  have b: "slice_bytes km r = ?root" by (rule table_state_bytes [OF less.prems(1) assms(2)])
  show ?case
  proof (cases "root_entry ?root kind offset")
    case None
    then have "\<not> offset + entry_size kind \<le> snd r" by (simp add: root_entry_None header_signature)
    with None less.prems(1) show ?thesis by (subst find_fadt_from.simps, subst fadt_from.simps) (simp add: maps_to_def)
  next
    case (Some a)
    then have in_range: "offset + entry_size kind \<le> snd r"
      using root_entry_None [of ?root kind offset] by (simp add: header_signature)
    obtain p km1 where p: "probe_fadt a km = (p, km1)" by fastforce
    have "a \<noteq> 0 \<Longrightarrow> (a, SDT_HEADER_LENGTH) \<in> V" using less.prems(2) [of 0 a] Some by simp
    note P = probe_fadt_maps [OF less.prems(1) this, unfolded p maps_to_def]
    have "0 < entry_size kind" by (cases kind) (simp_all add: entry_size_def)
    then have IH: "maps_to km0 V (find_fadt_from r kind (offset + entry_size kind) km1) (fadt_from (km_memory km0) ?root kind (offset + entry_size kind))"
      using in_range P less.prems(2) [of "Suc _"] by (intro less.hyps) (simp_all add: algebra_simps)
    show ?thesis
      using P IH in_range Some b p by (subst find_fadt_from.simps, subst fadt_from.simps) (auto simp: maps_to_def split: if_splits)
  qed
qed

section \<open>The parsers do not panic\<close>

lemma checksum_total [panic_free]: "n \<le> length bs \<Longrightarrow> checksum bs n = Ok (foldl (+) 0 (take n bs))"
  by (simp add: checksum_def)

lemma parse_rsdp_total [panic_free]: "parse_rsdp bs \<noteq> Panic"
  by (auto simp: parse_rsdp_def parse_rsdp_v2_def and_then_eq_Panic checksum_total ok_or_def Let_def
      RSDP_V1_LENGTH_def RSDP_V2_LENGTH_def split: option.splits)

lemma parse_sdt_header_total [panic_free]: "parse_sdt_header bs sg \<noteq> Panic"
  by (auto simp: parse_sdt_header_def and_then_eq_Panic checksum_total ok_or_def SDT_HEADER_LENGTH_def split: option.splits)

lemma parse_sdt_header_Ok: "parse_sdt_header bs sg = Ok u \<Longrightarrow> SDT_HEADER_LENGTH \<le> length bs \<and> take 4 bs = sg"
  by (auto simp: parse_sdt_header_def SDT_HEADER_LENGTH_def split: if_splits)

lemma parse_fadt_total [panic_free]: "parse_fadt bs \<noteq> Panic"
proof -
  have g: "parse_system_io_gas xs \<noteq> Panic" for xs
    by (auto simp: parse_system_io_gas_def and_then_eq_Panic ok_or_def GAS_LENGTH_def index_def split: option.splits if_splits)
  have p: "select_pm1_control_block bs l e \<noteq> Panic" for l e
    using g by (auto simp: select_pm1_control_block_def and_then_eq_Panic ok_or_def split: option.splits)
  have d: "select_dsdt_address bs \<noteq> Panic"
    by (auto simp: select_dsdt_address_def and_then_eq_Panic ok_or_def split: option.splits)
  show ?thesis
    using p d by (auto simp: parse_fadt_def and_then_eq_Panic ok_or_def panic_free split: option.splits)
qed

lemma package_length_bound: "parse_package_length bs = Some (l, n) \<Longrightarrow> n \<le> length bs"
  by (auto simp: parse_package_length_def Let_def split: list.splits if_splits)

lemma aml_integer_bound: "parse_aml_integer bs = Some (v, n) \<Longrightarrow> n \<le> length bs"
  by (auto simp: parse_aml_integer_def split: list.splits if_splits)

lemma s5_values_total:
  assumes c: "c \<le> length aml"
  shows "s5_values aml c \<noteq> Panic"
proof (cases "parse_package_length (drop c aml)")
  case None
  with c show ?thesis by (simp add: s5_values_def)
next
  case (Some p)
  obtain l n where p: "p = (l, n)" by fastforce
  let ?c = "c + n + 1"
  have run: "s5_values aml c = (if length aml \<le> c + n then Err InvalidS5Package else
     and_then (slice aml ?c (length aml)) (\<lambda>rest. and_then (ok_or (parse_aml_integer rest) InvalidS5Package) (\<lambda>(a, k).
     and_then (slice aml (?c + k) (length aml)) (\<lambda>rest. and_then (ok_or (parse_aml_integer rest) InvalidS5Package) (\<lambda>(b, _).
       Ok (a AND 7, b AND 7))))))"
    using c Some p by (simp add: s5_values_def Let_def)
  show ?thesis
  proof (cases "parse_aml_integer (drop ?c aml)")
    case None
    then show ?thesis unfolding run by simp
  next
    case (Some q)
    obtain v k where q: "q = (v, k)" by fastforce
    have "k \<le> length aml - ?c" using aml_integer_bound [of "drop ?c aml" v k] Some q by simp
    with Some q show ?thesis unfolding run by (cases "parse_aml_integer (drop (?c + k) aml)") auto
  qed
qed

lemma s5_package_start_eq:
  "s5_package_start aml n =
     Ok (if n + 4 < length aml \<and> take 4 (drop n aml) = S5_NAME \<and> aml ! (n + 4) = AML_PACKAGE_OP then Some (n + 5) else None)"
proof (cases "n + 4 \<le> length aml")
  case True
  then have "slice aml n (n + 4) = (Ok (take 4 (drop n aml)) :: (bytes, power_error) outcome)" by (simp add: slice_def)
  then show ?thesis unfolding s5_package_start_def using True by (cases "n + 4 = length aml") simp_all
qed (simp add: s5_package_start_def)

lemma s5_search_total: "s5_search aml i \<noteq> Panic"
proof (induction aml i rule: s5_search.induct)
  case (1 aml i)
  have n: "s5_name_start aml i \<noteq> Panic" if "i + 6 \<le> length aml" using that by (auto simp: s5_name_start_def and_then_eq_Panic)
  have p: "s5_package_start aml k \<noteq> Panic" for k by (simp add: s5_package_start_eq)
  show ?case
  proof (cases "i + 6 \<le> length aml")
    case True
    obtain name where name: "s5_name_start aml i = Ok name \<or> (\<exists>e. s5_name_start aml i = Err e)" using n [OF True] by (cases "s5_name_start aml i") auto
    let ?p = "case name of None \<Rightarrow> Ok None | Some k \<Rightarrow> s5_package_start aml k"
    have "?p \<noteq> Panic" using p by (simp split: option.splits)
    then obtain e q where q: "?p = Err e \<or> ?p = Ok q" by (cases ?p) auto
    have v: "s5_values aml c \<noteq> Panic" if "?p = Ok (Some c)" for c
      using that by (intro s5_values_total) (auto simp: s5_package_start_eq split: option.splits if_splits)
    show ?thesis
      using True name q v 1 by (subst s5_search.simps) (cases q; auto)
  qed (subst s5_search.simps, simp)
qed

lemma parse_s5_total [panic_free]: "parse_s5_package bs \<noteq> Panic"
  using parse_sdt_header_Ok by (auto simp: parse_s5_package_def and_then_eq_Panic panic_free s5_search_total)

lemma sdt_at_total [panic_free]: "sdt_at m a sg \<noteq> Panic"
  by (auto simp: sdt_at_def and_then_eq_Panic panic_free split: option.splits)

lemma fadt_from_total [panic_free]: "fadt_from m root kind offset \<noteq> Panic"
  by (induction m root kind offset rule: fadt_from.induct) (subst fadt_from.simps, auto split: option.splits)

lemma acpi_walk_total [panic_free]: "acpi_walk m rsdp \<noteq> Panic"
  by (auto simp: acpi_walk_def and_then_eq_Panic panic_free)

section \<open>Discovery is the walk\<close>

lemma sdt_at_Ok:
  assumes "sdt_at m a sg = Ok table"
  shows "table = read_mem m a (length table)" "(a, length table) \<in> sdt_visits m a"
  using assms by (auto simp: sdt_at_def sdt_visits_def header_signature split: if_splits option.splits)

lemma maps_to_sdt:
  assumes s: "table_state km0 V km" "sdt_visits (km_memory km0) a \<subseteq> V"
    and g: "\<And>table km. sdt_at (km_memory km0) a sg = Ok table \<Longrightarrow> table_state km0 V km \<Longrightarrow> slice_bytes km (a, length table) = table \<Longrightarrow>
      (a, length table) \<in> V \<Longrightarrow> maps_to km0 V (g (a, length table) km) (h table)"
  shows "maps_to km0 V (bind_st (map_sdt a sg) g km) (and_then (sdt_at (km_memory km0) a sg) h)"
proof -
  let ?t = "sdt_at (km_memory km0) a sg"
  have "maps_to km0 V (bind_st (map_sdt a sg) g km)
     (and_then (and_then ?t (\<lambda>table. Ok (a, length table))) (\<lambda>_. and_then ?t h))"
  proof (rule maps_to_bind, rule map_sdt_maps [OF s])
    fix sl km1 assume "and_then ?t (\<lambda>table. Ok (a, length table)) = Ok sl" and s1: "table_state km0 V km1"
    then obtain table where t: "?t = Ok table" "sl = (a, length table)" by auto
    have v: "(a, length table) \<in> V" using sdt_at_Ok(2) [OF t(1)] s(2) by blast
    have "slice_bytes km1 (a, length table) = table" using table_state_bytes [OF s1 v] sdt_at_Ok(1) [OF t(1)] by simp
    from g [OF t(1) s1 this v] t show "maps_to km0 V (g sl km1) (and_then ?t h)" by simp
  qed
  moreover have "and_then (and_then ?t (\<lambda>table. Ok (a, length table))) (\<lambda>_. and_then ?t h) = and_then ?t h" by (cases ?t) simp_all
  ultimately show ?thesis by simp
qed

text \<open>The run and the walk from the DSDT, the FADT and the root table on.\<close>

abbreviation shutdown_of :: "fadt_info \<Rightarrow> u16 \<times> u16 \<Rightarrow> acpi_shutdown" where
  "shutdown_of info p \<equiv> \<lparr>sd_pm1a_control_block = fi_pm1a_control_block info, sd_pm1b_control_block = fi_pm1b_control_block info,
     sd_sleep_type_a = fst p, sd_sleep_type_b = snd p\<rparr>"

abbreviation run_dsdt :: "fadt_info \<Rightarrow> acpi_shutdown power_op" where
  "run_dsdt info \<equiv> bind_st (map_sdt (fi_dsdt_address info) DSDT_SIGNATURE) (\<lambda>dsdt.
     bind_st (\<lambda>km. (parse_s5_package (slice_bytes km dsdt), km)) (\<lambda>p km. (Ok (shutdown_of info p), km)))"

abbreviation walk_dsdt :: "memory \<Rightarrow> fadt_info \<Rightarrow> (acpi_shutdown, power_error) outcome" where
  "walk_dsdt m info \<equiv> and_then (sdt_at m (fi_dsdt_address info) DSDT_SIGNATURE) (\<lambda>dsdt.
     and_then (parse_s5_package dsdt) (\<lambda>p. Ok (shutdown_of info p)))"

abbreviation run_fadt :: "u64 \<Rightarrow> acpi_shutdown power_op" where
  "run_fadt f \<equiv> bind_st (map_sdt f FADT_SIGNATURE) (\<lambda>fadt. bind_st (\<lambda>km. (parse_fadt (slice_bytes km fadt), km)) run_dsdt)"

abbreviation walk_fadt :: "memory \<Rightarrow> u64 \<Rightarrow> (acpi_shutdown, power_error) outcome" where
  "walk_fadt m f \<equiv> and_then (sdt_at m f FADT_SIGNATURE) (\<lambda>fadt. and_then (parse_fadt fadt) (walk_dsdt m))"

abbreviation run_root :: "root_table \<Rightarrow> acpi_shutdown power_op" where
  "run_root rt \<equiv> bind_st (map_sdt (rt_address rt) (root_table_signature (rt_kind rt))) (\<lambda>root.
     bind_st (find_fadt_address root (rt_kind rt)) run_fadt)"

abbreviation walk_root :: "memory \<Rightarrow> root_table \<Rightarrow> (acpi_shutdown, power_error) outcome" where
  "walk_root m rt \<equiv> and_then (sdt_at m (rt_address rt) (root_table_signature (rt_kind rt))) (\<lambda>root.
     and_then (fadt_from m root (rt_kind rt) SDT_HEADER_LENGTH) (walk_fadt m))"

lemma discover_split:
  "rsdp \<noteq> 0 \<Longrightarrow> discover_acpi_shutdown rsdp =
     bind_st (map_bytes rsdp RSDP_V2_LENGTH) (\<lambda>s. bind_st (\<lambda>km. (parse_rsdp (slice_bytes km s), km)) run_root)"
  "rsdp \<noteq> 0 \<Longrightarrow> acpi_walk m rsdp = and_then (parse_rsdp (read_mem m rsdp RSDP_V2_LENGTH)) (walk_root m)"
  by (simp_all add: discover_acpi_shutdown_def acpi_walk_def case_prod_unfold)

lemma run_dsdt_maps:
  assumes "table_state km0 V km" "sdt_visits (km_memory km0) (fi_dsdt_address info) \<subseteq> V"
  shows "maps_to km0 V (run_dsdt info km) (walk_dsdt (km_memory km0) info)"
  by (rule maps_to_sdt [OF assms], rule maps_to_bind, rule maps_to_read) (auto simp: maps_to_def)

lemma run_fadt_maps:
  assumes s: "table_state km0 (acpi_visits (km_memory km0) rsdp) km"
    and rt: "parse_rsdp (read_mem (km_memory km0) rsdp RSDP_V2_LENGTH) = Ok rt"
    and root: "sdt_at (km_memory km0) (rt_address rt) (root_table_signature (rt_kind rt)) = Ok root"
    and f: "fadt_from (km_memory km0) root (rt_kind rt) SDT_HEADER_LENGTH = Ok f"
  shows "maps_to km0 (acpi_visits (km_memory km0) rsdp) (run_fadt f km) (walk_fadt (km_memory km0) f)"
proof (rule maps_to_sdt [OF s], goal_cases)
  case 1
  show ?case using acpi_visits.fadt [OF rt root f] by blast
next
  case (2 table km)
  show ?case
    by (rule maps_to_bind, rule maps_to_read, fact, use 2 in simp, rule run_dsdt_maps, assumption)
      (use acpi_visits.dsdt [OF rt root f 2(1)] in blast)
qed

lemma run_root_maps:
  assumes s: "table_state km0 (acpi_visits (km_memory km0) rsdp) km"
    and rt: "parse_rsdp (read_mem (km_memory km0) rsdp RSDP_V2_LENGTH) = Ok rt"
  shows "maps_to km0 (acpi_visits (km_memory km0) rsdp) (run_root rt km) (walk_root (km_memory km0) rt)"
proof (rule maps_to_sdt [OF s], goal_cases)
  case 1
  show ?case using acpi_visits.root [OF rt] by blast
next
  case (2 table km)
  have "maps_to km0 (acpi_visits (km_memory km0) rsdp) (find_fadt_address (rt_address rt, length table) (rt_kind rt) km)
      (fadt_from (km_memory km0) table (rt_kind rt) SDT_HEADER_LENGTH)"
    using find_fadt_maps [OF 2(2,4), of "rt_kind rt" SDT_HEADER_LENGTH] acpi_visits.entry [OF rt 2(1)] sdt_at_Ok(1) [OF 2(1)]
    by (simp add: find_fadt_address_def)
  then show ?case by (rule maps_to_bind) (use run_fadt_maps [OF _ rt 2(1)] in blast)
qed

lemma discover_maps:
  assumes s: "table_state km0 (acpi_visits (km_memory km0) rsdp) km0" and nz: "rsdp \<noteq> 0"
  shows "maps_to km0 (acpi_visits (km_memory km0) rsdp) (discover_acpi_shutdown rsdp km0) (acpi_walk (km_memory km0) rsdp)"
proof -
  note v = acpi_visits.rsdp [of rsdp "km_memory km0"]
  have "maps_to km0 (acpi_visits (km_memory km0) rsdp) (discover_acpi_shutdown rsdp km0)
      (and_then (Ok (rsdp, RSDP_V2_LENGTH)) (\<lambda>s. acpi_walk (km_memory km0) rsdp))"
    unfolding discover_split [OF nz]
    by (rule maps_to_bind, rule map_bytes_maps [OF s v], rule maps_to_bind, rule maps_to_read, assumption)
      (use table_state_bytes [OF _ v] run_root_maps in auto)
  then show ?thesis by simp
qed

lemma power_init_result:
  assumes "kernel_ready km" "acpi_apart km rsdp" "power_init rsdp state km = (r, km')"
  shows "kernel_ready km' \<and> ms_phys_window_end (km_state km') = ms_phys_window_end (km_state km) \<and>
    (\<exists>backend. r = Ok (state\<lparr>pw_backend := backend\<rparr>) \<and>
       (backend = Unavailable MappingFailed \<or>
        (case acpi_walk (km_memory km) rsdp of
           Ok shutdown \<Rightarrow> backend = AcpiSoftOff shutdown
         | Err e \<Rightarrow> backend = Unavailable e
         | Panic \<Rightarrow> False)))"
proof (cases "rsdp = 0")
  case True
  then show ?thesis using assms by (auto simp: power_init_def discover_acpi_shutdown_def acpi_walk_def)
next
  case False
  obtain q km1 where run: "discover_acpi_shutdown rsdp km = (q, km1)" by fastforce
  have "table_state km (acpi_visits (km_memory km) rsdp) km" using assms False by (simp add: table_state_def acpi_apart_def)
  from discover_maps [OF this False] have "table_state km (acpi_visits (km_memory km) rsdp) km1"
    "q = acpi_walk (km_memory km) rsdp \<or> q = Err MappingFailed" by (simp_all add: maps_to_def run)
  then show ?thesis
    using run assms(3) acpi_walk_total [of "km_memory km" rsdp]
    by (cases "acpi_walk (km_memory km) rsdp") (auto simp: power_init_def table_state_def)
qed

section \<open>Tables as firmware writes them\<close>

text \<open>Reference encoders of the ACPI specification's layouts; every table carries the byte that makes its
  sum zero.\<close>

definition rsdp_table :: "u64 \<Rightarrow> bytes" where
  "rsdp_table xsdt =
     (let ext = to_le_bytes 4 (36 :: u32) @ to_le_bytes 8 xsdt
      in RSDP_SIGNATURE @ [- sum_list (2 # RSDP_SIGNATURE)] @ replicate 6 0 @ [2] @ replicate 4 0 @ ext @ [- sum_list ext] @ replicate 3 0)"

definition sdt_table :: "bytes \<Rightarrow> bytes \<Rightarrow> bytes" where
  "sdt_table signature body =
     (let start = signature @ to_le_bytes 4 (of_nat (SDT_HEADER_LENGTH + length body) :: u32)
      in start @ [1, - sum_list (1 # start @ body)] @ replicate 26 0 @ body)"

definition io_gas :: "u16 option \<Rightarrow> bytes" where
  "io_gas port = (case port of None \<Rightarrow> replicate 12 0 | Some p \<Rightarrow> [1, 16, 0, 0] @ to_le_bytes 8 (ucast p :: u64))"

definition fadt_table :: "u64 \<Rightarrow> u16 \<Rightarrow> u16 option \<Rightarrow> bytes" where
  "fadt_table dsdt pm1a pm1b =
     sdt_table FADT_SIGNATURE
       (replicate 53 0 @ [2] @ replicate 50 0 @ to_le_bytes 8 dsdt @ replicate 24 0 @ io_gas (Some pm1a) @ io_gas pm1b)"

definition aml_byte :: "u8 \<Rightarrow> bytes" where
  "aml_byte v = (if v \<le> 1 then [v] else [AML_BYTE_PREFIX, v])"

definition s5_object :: "u8 \<Rightarrow> u8 \<Rightarrow> bytes" where
  "s5_object a b =
     (let body = aml_byte a @ aml_byte b @ [0, 0]
      in [AML_NAME_OP] @ S5_NAME @ [AML_PACKAGE_OP, of_nat (2 + length body), 4] @ body)"

definition dsdt_table :: "bytes \<Rightarrow> u8 \<Rightarrow> u8 \<Rightarrow> bytes \<Rightarrow> bytes" where
  "dsdt_table before a b after = sdt_table DSDT_SIGNATURE (before @ s5_object a b @ after)"

lemma foldl_sum: "foldl (+) (x :: u8) xs = x + sum_list xs"
  by (induction xs arbitrary: x) (simp_all add: add.assoc)

lemma checksum_sum: "n \<le> length bs \<Longrightarrow> checksum bs n = Ok (sum_list (take n bs))"
  by (simp add: checksum_total foldl_sum)

lemma read_at: "read_u32 (xs @ to_le_bytes 4 w @ ys) (length xs) = Some w" "read_u64 (xs @ to_le_bytes 8 v @ ys) (length xs) = Some v"
  by (simp_all add: read_u32_def read_u64_def)

lemma rsdp_table_parsed:
  assumes "xsdt \<noteq> 0"
  shows "parse_rsdp (rsdp_table xsdt) = Ok \<lparr>rt_kind = Xsdt, rt_address = xsdt\<rparr>"
proof -
  let ?ext = "to_le_bytes 4 (36 :: u32) @ to_le_bytes 8 xsdt"
  let ?v1 = "RSDP_SIGNATURE @ [- sum_list (2 # RSDP_SIGNATURE)] @ replicate 6 0 @ [2] @ replicate 4 0"
  have t: "rsdp_table xsdt = ?v1 @ ?ext @ [- sum_list ?ext] @ replicate 3 0" by (simp add: rsdp_table_def)
  have l: "length ?v1 = 20" "length (rsdp_table xsdt) = 36" by (simp_all add: t RSDP_SIGNATURE_def)
  have "sum_list (take 20 (rsdp_table xsdt)) = sum_list ?v1" using l(1) by (simp add: t)
  also have "\<dots> = 0" by (simp add: sum_list_replicate)
  finally have c1: "checksum (rsdp_table xsdt) 20 = Ok 0" using l by (simp add: checksum_sum)
  have "sum_list (rsdp_table xsdt) = sum_list ?v1 + (sum_list ?ext + - sum_list ?ext)" by (simp add: t sum_list_replicate)
  also have "\<dots> = 0" by (simp add: sum_list_replicate)
  finally have c2: "checksum (rsdp_table xsdt) 36 = Ok 0" using l by (simp add: checksum_sum)
  have r1: "read_u32 (rsdp_table xsdt) 20 = Some 36" using read_at(1) [of ?v1 36] l(1) by (simp add: t)
  have r2: "read_u64 (rsdp_table xsdt) 24 = Some xsdt"
    using read_at(2) [of "?v1 @ to_le_bytes 4 (36 :: u32)" xsdt] l(1) by (simp add: t)
  have "take 8 (rsdp_table xsdt) = RSDP_SIGNATURE" "rsdp_table xsdt ! 15 = 2" by (simp_all add: t RSDP_SIGNATURE_def nth_append)
  then show ?thesis
    using l c1 c2 r1 r2 assms by (simp add: parse_rsdp_def parse_rsdp_v2_def RSDP_V1_LENGTH_def RSDP_V2_LENGTH_def)
qed

lemma sdt_table_parsed:
  assumes "length signature = 4" "length body < 2 ^ 31"
  shows "parse_table_length (take SDT_HEADER_LENGTH (sdt_table signature body)) = Some (SDT_HEADER_LENGTH + length body)"
    "length (sdt_table signature body) = SDT_HEADER_LENGTH + length body"
    "parse_sdt_header (sdt_table signature body) signature = Ok ()"
    "drop SDT_HEADER_LENGTH (sdt_table signature body) = body"
proof -
  let ?n = "SDT_HEADER_LENGTH + length body" and ?t = "sdt_table signature body"
  let ?start = "signature @ to_le_bytes 4 (of_nat ?n :: u32)"
  have t: "?t = ?start @ [1, - sum_list (1 # ?start @ body)] @ replicate 26 0 @ body" by (simp add: sdt_table_def Let_def)
  show l: "length ?t = ?n" using assms(1) by (simp add: t SDT_HEADER_LENGTH_def)
  show "drop SDT_HEADER_LENGTH ?t = body" using assms(1) by (simp add: t SDT_HEADER_LENGTH_def)
  have "unat (of_nat k :: u32) = k" if "k < 2 ^ 32" for k using that by (simp add: unsigned_of_nat take_bit_nat_eq_self)
  from this [of ?n] have n: "unat (of_nat ?n :: u32) = ?n" using assms(2) by (simp add: SDT_HEADER_LENGTH_def del: of_nat_add)
  have r: "read_u32 ?t 4 = Some (of_nat ?n)" using read_at(1) [of signature "of_nat ?n"] assms(1) by (simp add: t)
  then have "read_u32 (take SDT_HEADER_LENGTH ?t) 4 = Some (of_nat ?n)"
    using l by (simp add: read_u32_def SDT_HEADER_LENGTH_def drop_take min_def split: if_splits)
  with n show "parse_table_length (take SDT_HEADER_LENGTH ?t) = Some ?n" unfolding parse_table_length_def by simp
  have p: "parse_table_length ?t = Some ?n" using n r unfolding parse_table_length_def by simp
  have "sum_list ?t = 0" by (simp add: t sum_list_replicate)
  then have "checksum ?t ?n = Ok 0" using l by (simp add: checksum_sum)
  moreover have "take 4 ?t = signature" using assms(1) by (simp add: t)
  ultimately show "parse_sdt_header ?t signature = Ok ()"
    using l p by (simp add: parse_sdt_header_def) (simp add: SDT_HEADER_LENGTH_def)
qed

lemma io_gas_parsed:
  assumes "port \<noteq> Some 0"
  shows "length (io_gas port) = 12" "parse_system_io_gas (io_gas port) = Ok port"
proof -
  show l: "length (io_gas port) = 12" by (simp add: io_gas_def split: option.splits)
  show "parse_system_io_gas (io_gas port) = Ok port"
  proof (cases port)
    case None
    have "from_le_bytes (replicate 8 0) = (0 :: u64)" by (rule from_le_bytes_zeros)
    then have "read_u64 (io_gas port) 4 = Some 0" using None by (simp add: read_u64_def io_gas_def drop_replicate)
    with None l show ?thesis by (simp add: parse_system_io_gas_def GAS_LENGTH_def)
  next
    case (Some p)
    have r: "read_u64 (io_gas port) 4 = Some (ucast p)"
      using Some by (simp add: io_gas_def read_u64_def)
    have u: "unat (ucast p :: u64) = unat p" by (simp add: unsigned_ucast_eq take_bit_nat_eq_self order_less_le_trans [OF unsigned_less])
    have "ucast p \<noteq> (0 :: u64)" using assms Some u by (metis unat_eq_zero)
    moreover have "unat p < 2 ^ 16" using unsigned_less [of p] by simp
    then have "\<not> (0xffff :: u64) < ucast p" using u by (simp add: word_less_nat_alt)
    moreover have "ucast (ucast p :: u64) = p" by (rule bit_word_eqI) (simp add: bit_simps)
    ultimately show ?thesis using r l Some by (simp add: parse_system_io_gas_def GAS_LENGTH_def GAS_SPACE_ID_SYSTEM_IO_def io_gas_def)
  qed
qed

lemma fadt_table_parsed:
  assumes "dsdt \<noteq> 0" "pm1a \<noteq> 0" "pm1b \<noteq> Some 0"
  shows "parse_fadt (fadt_table dsdt pm1a pm1b) =
     Ok \<lparr>fi_dsdt_address = dsdt, fi_pm1a_control_block = pm1a, fi_pm1b_control_block = pm1b\<rparr>"
proof -
  let ?t = "fadt_table dsdt pm1a pm1b" let ?h = "take SDT_HEADER_LENGTH ?t"
  let ?mid = "replicate 53 0 @ [2] @ replicate 50 (0 :: u8)"
  let ?body = "?mid @ to_le_bytes 8 dsdt @ replicate 24 0 @ io_gas (Some pm1a) @ io_gas pm1b"
  have ga: "length (io_gas (Some pm1a)) = 12" "parse_system_io_gas (io_gas (Some pm1a)) = Ok (Some pm1a)"
    using io_gas_parsed [of "Some pm1a"] assms(2) by simp_all
  note gb = io_gas_parsed [OF assms(3)]
  have lb: "length ?body = 160" using ga(1) gb(1) by simp
  have eq: "?t = sdt_table FADT_SIGNATURE ?body" by (simp add: fadt_table_def)
  note S = sdt_table_parsed [of FADT_SIGNATURE ?body, folded eq]
  have S': "length ?t = 196" "parse_sdt_header ?t FADT_SIGNATURE = Ok ()" "drop SDT_HEADER_LENGTH ?t = ?body"
    using S lb by (simp_all add: FADT_SIGNATURE_def SDT_HEADER_LENGTH_def)
  then have t: "?t = ?h @ ?body" "length ?h = 36" using append_take_drop_id [of SDT_HEADER_LENGTH ?t] by (simp_all add: SDT_HEADER_LENGTH_def)
  have n89: "?t ! 89 = 2" using t(2) by (subst t(1)) (simp add: nth_append)
  have x: "read_u64 ?t 140 = Some dsdt"
    using read_at(2) [of "?h @ ?mid" dsdt] t(2) by (subst t(1)) simp
  have sa: "take 12 (drop 172 ?t) = io_gas (Some pm1a)" and sb: "take 12 (drop 184 ?t) = io_gas pm1b"
    using t(2) ga(1) gb(1) by (subst t(1), simp)+
  have "take 4 (drop 68 ?t) = replicate 4 0" using t(2) by (subst t(1)) simp
  moreover have "from_le_bytes (replicate 4 0) = (0 :: u32)" by (rule from_le_bytes_zeros)
  ultimately have legacy: "read_u32 ?t 68 = Some 0" using S'(1) by (simp add: read_u32_def)
  have d: "select_dsdt_address ?t = Ok dsdt" using x assms(1) S'(1) by (simp add: select_dsdt_address_def FADT_X_DSDT_OFFSET_def)
  have a: "select_pm1_control_block ?t 64 172 = Ok (Some pm1a)" using sa ga S'(1) by (simp add: select_pm1_control_block_def GAS_LENGTH_def)
  have b: "select_pm1_control_block ?t 68 184 = Ok pm1b"
    using sb gb S'(1) legacy by (cases pm1b) (simp_all add: select_pm1_control_block_def GAS_LENGTH_def)
  show ?thesis
    using S' n89 d a b by (simp add: parse_fadt_def FADT_PM1_CONTROL_LENGTH_OFFSET_def FADT_PM1A_CONTROL_BLOCK_OFFSET_def
        FADT_X_PM1A_CONTROL_BLOCK_OFFSET_def FADT_PM1B_CONTROL_BLOCK_OFFSET_def FADT_X_PM1B_CONTROL_BLOCK_OFFSET_def)
qed

lemma aml_byte_parsed: "parse_aml_integer (aml_byte v @ rest) = Some (ucast v, length (aml_byte v))"
proof (cases "v \<le> 1")
  case True
  then have "v = 0 \<or> v = 1" by (auto simp: word_le_nat_alt le_Suc_eq word_unat_eq_iff)
  then show ?thesis by (elim disjE) (simp_all add: aml_byte_def parse_aml_integer_def)
qed (simp add: aml_byte_def parse_aml_integer_def AML_BYTE_PREFIX_def)

lemma small_and_7:
  fixes a :: u8
  assumes "a < 8"
  shows "(ucast a :: u16) AND 7 = ucast a"
proof -
  have "(ucast a :: u16) AND 7 = take_bit 3 (ucast a)" by (simp add: take_bit_eq_mask mask_eq_exp_minus_1)
  moreover have "unat (ucast a :: u16) = unat a" by (simp add: unsigned_ucast_eq take_bit_nat_eq_self order_less_le_trans [OF unsigned_less])
  then have "unat (ucast a :: u16) < 2 ^ 3" using assms by (simp add: word_less_nat_alt)
  ultimately show ?thesis by (simp add: word_unat_eq_iff unsigned_take_bit_eq take_bit_nat_eq_self)
qed

lemma s5_object_values:
  assumes "a < 8" "b < 8" and d: "drop c aml = [of_nat (4 + length (aml_byte a @ aml_byte b)), 4] @ aml_byte a @ aml_byte b @ rest"
  shows "s5_values aml c = Ok (ucast a, ucast b)"
proof -
  let ?lead = "of_nat (4 + length (aml_byte a @ aml_byte b)) :: u8"
  have "?lead \<in> {6, 7, 8}" by (auto simp: aml_byte_def)
  then have "drop_bit 6 ?lead = 0" by auto
  then obtain l where p: "parse_package_length (drop c aml) = Some (l, 1)" unfolding d by (simp add: parse_package_length_def)
  have len: "c + 2 < length aml" "c \<le> length aml"
    using arg_cong [OF d, of length] by (auto simp: aml_byte_def split: if_splits)
  have d2: "drop (c + 2) aml = aml_byte a @ aml_byte b @ rest" using d drop_drop [of 2 c aml] by (simp add: add.commute)
  then have d3: "drop (c + 2 + length (aml_byte a)) aml = aml_byte b @ rest"
    using drop_drop [of "length (aml_byte a)" "c + 2" aml] by (simp add: add.commute)
  have l3: "c + 2 + length (aml_byte a) \<le> length aml" using arg_cong [OF d2, of length] len by simp
  have "parse_aml_integer (drop (c + 2) aml) = Some (ucast a, length (aml_byte a))"
    "parse_aml_integer (drop (c + 2 + length (aml_byte a)) aml) = Some (ucast b, length (aml_byte b))"
    unfolding d2 d3 by (simp_all add: aml_byte_parsed)
  then show ?thesis
    using p len l3 small_and_7 [OF assms(1)] small_and_7 [OF assms(2)] by (simp add: s5_values_def Let_def)
qed

lemma dsdt_table_parsed:
  assumes ab: "a < 8" "b < 8" and len: "length before + length after < 2 ^ 30"
    and no: "\<forall>i \<le> length before. take 4 (drop i (before @ s5_object a b @ after)) \<noteq> S5_NAME"
  shows "parse_s5_package (dsdt_table before a b after) = Ok (ucast a, ucast b)"
proof -
  let ?aml = "before @ s5_object a b @ after" and ?p = "length before"
  let ?body = "[of_nat (4 + length (aml_byte a @ aml_byte b)), 4] @ aml_byte a @ aml_byte b @ [0, 0] @ after"
  have obj: "s5_object a b @ after = AML_NAME_OP # S5_NAME @ AML_PACKAGE_OP # ?body" by (simp add: s5_object_def Let_def)
  have long: "?p + 10 \<le> length ?aml" unfolding obj by (simp add: S5_NAME_def aml_byte_def)
  have "drop (?p + 6) ?aml = ?body" unfolding obj by (simp add: S5_NAME_def)
  then have v: "s5_values ?aml (?p + 6) = Ok (ucast a, ucast b)" by (intro s5_object_values [OF ab]) simp
  have pk: "s5_package_start ?aml k = Ok (if k = ?p + 1 then Some (?p + 6) else None)" if "k \<le> ?p + 1" for k
  proof (cases "k = ?p + 1")
    case True
    have "take 4 (drop (?p + 1) ?aml) = S5_NAME" "?aml ! (?p + 5) = AML_PACKAGE_OP"
      unfolding obj by (simp_all add: S5_NAME_def nth_append)
    with True long show ?thesis by (simp add: s5_package_start_eq nth_append)
  qed (use that no in \<open>simp add: s5_package_start_eq\<close>)
  have "s5_search ?aml i = Ok (ucast a, ucast b)" if "i \<le> ?p" for i
    using that
  proof (induction i rule: inc_induct)
    case base
    have "?aml ! ?p = AML_NAME_OP" unfolding obj by (simp add: nth_append)
    then have "index ?aml ?p = (Ok AML_NAME_OP :: (u8, power_error) outcome)" using long unfolding index_def by auto
    then have "s5_name_start ?aml ?p = Ok (Some (?p + 1))" by (simp add: s5_name_start_def)
    then show ?case using long pk [of "?p + 1"] v by (subst s5_search.simps) simp
  next
    case (step i)
    have "\<exists>name. s5_name_start ?aml i = Ok name \<and> name \<in> {None, Some (i + 1), Some (i + 2)}"
      using step long by (simp add: s5_name_start_def)
    then obtain name where n: "s5_name_start ?aml i = Ok name" "name \<in> {None, Some (i + 1), Some (i + 2)}" by blast
    then show ?case
      using step long pk [of "i + 1"] pk [of "i + 2"] v by (subst s5_search.simps) (auto split: if_splits)
  qed
  from this [of 0] have s: "s5_search ?aml 0 = Ok (ucast a, ucast b)" by simp
  have l: "length ?aml < 2 ^ 31" using len unfolding obj by (simp add: S5_NAME_def aml_byte_def)
  show ?thesis
    using sdt_table_parsed(2-4) [OF _ l, of DSDT_SIGNATURE] s
    by (simp add: parse_s5_package_def dsdt_table_def DSDT_SIGNATURE_def)
qed

text \<open>In AML the root prefix of a name comes after the name operator. The search expects it before, so a
  definition written as \<^verbatim>\<open>Name (\_S5, ...)\<close> is not recognized.\<close>

lemma rooted_s5_missed:
  "s5_search ([AML_NAME_OP, AML_ROOT_PREFIX] @ drop 1 (s5_object 5 5)) 0 = Err MissingS5Package"
  by code_simp

section \<open>The walk over such tables\<close>

definition xsdt_table :: "u64 list \<Rightarrow> bytes" where
  "xsdt_table entries = sdt_table XSDT_SIGNATURE (concat (map (to_le_bytes 8) entries))"

abbreviation mem_holds :: "memory \<Rightarrow> u64 \<Rightarrow> bytes \<Rightarrow> bool" where
  "mem_holds m a bs \<equiv> read_mem m a (length bs) = bs"

lemma read_mem_prefix: "k \<le> n \<Longrightarrow> read_mem m a k = take k (read_mem m a n)"
  by (simp add: read_mem_def take_map take_upt)

lemma sdt_held:
  assumes "mem_holds m a (sdt_table sg body)" "length sg = 4" "length body < 2 ^ 31" "a \<noteq> 0"
  shows "sdt_at m a sg = Ok (sdt_table sg body)"
proof -
  note T = sdt_table_parsed [OF assms(2,3)]
  have "read_mem m a SDT_HEADER_LENGTH = take SDT_HEADER_LENGTH (sdt_table sg body)"
    using read_mem_prefix [of SDT_HEADER_LENGTH "length (sdt_table sg body)" m a] assms(1) T(2) by simp
  then show ?thesis using T assms(1,4) by (simp add: sdt_at_def)
qed

lemma xsdt_entry:
  assumes "length entries < 2 ^ 16" "i < length entries"
  shows "root_entry (xsdt_table entries) Xsdt (SDT_HEADER_LENGTH + 8 * i) = Some (entries ! i)"
proof -
  let ?enc = "\<lambda>xs. concat (map (to_le_bytes 8) (xs :: u64 list))"
  have lc: "length (?enc xs) = 8 * length xs" for xs by (induction xs) simp_all
  have "?enc entries = ?enc (take i entries) @ to_le_bytes 8 (entries ! i) @ ?enc (drop (Suc i) entries)"
    by (subst id_take_nth_drop [OF assms(2)]) simp
  moreover have "length (?enc entries) < 2 ^ 31" using lc assms(1) by simp
  from sdt_table_parsed(2,4) [OF _ this, of XSDT_SIGNATURE]
  have "drop SDT_HEADER_LENGTH (xsdt_table entries) = ?enc entries" "SDT_HEADER_LENGTH \<le> length (xsdt_table entries)"
    by (simp_all add: xsdt_table_def XSDT_SIGNATURE_def)
  then have "xsdt_table entries = take SDT_HEADER_LENGTH (xsdt_table entries) @ ?enc entries"
    "length (take SDT_HEADER_LENGTH (xsdt_table entries)) = SDT_HEADER_LENGTH" by (metis append_take_drop_id, simp)
  ultimately have "read_u64 (xsdt_table entries) (SDT_HEADER_LENGTH + 8 * i) = Some (entries ! i)"
    using read_at(2) [of "take SDT_HEADER_LENGTH (xsdt_table entries) @ ?enc (take i entries)" "entries ! i" "?enc (drop (Suc i) entries)"]
      lc [of "take i entries"] assms(2) by simp
  then show ?thesis by (simp add: root_entry_def entry_size_def)
qed

lemma fadt_found:
  assumes "length entries < 2 ^ 16" "k < length entries" "is_fadt m (entries ! k)" "\<forall>i < k. \<not> is_fadt m (entries ! i)"
  shows "fadt_from m (xsdt_table entries) Xsdt SDT_HEADER_LENGTH = Ok (entries ! k)"
proof -
  have "fadt_from m (xsdt_table entries) Xsdt (SDT_HEADER_LENGTH + 8 * i) = Ok (entries ! k)" if "i \<le> k" for i
    using that
  proof (induction i rule: inc_induct)
    case base
    show ?case using xsdt_entry [OF assms(1,2)] assms(3) by (subst fadt_from.simps) simp
  next
    case (step i)
    then show ?case
      using xsdt_entry [OF assms(1), of i] assms(2,4) by (subst fadt_from.simps) (simp add: entry_size_def algebra_simps)
  qed
  from this [of 0] show ?thesis by simp
qed

text \<open>What a firmware leaves in memory.\<close>

record firmware_tables =
  ft_rsdp :: u64
  ft_xsdt :: u64
  ft_entries :: "u64 list"
  ft_fadt :: nat
  ft_dsdt :: u64
  ft_pm1a :: u16
  ft_pm1b :: "u16 option"
  ft_before :: bytes
  ft_after :: bytes
  ft_type_a :: u8
  ft_type_b :: u8

definition tables_present :: "memory \<Rightarrow> firmware_tables \<Rightarrow> bool" where
  "tables_present m t \<longleftrightarrow> ft_rsdp t \<noteq> 0 \<and> ft_xsdt t \<noteq> 0 \<and> ft_dsdt t \<noteq> 0 \<and> ft_pm1a t \<noteq> 0 \<and> ft_pm1b t \<noteq> Some 0 \<and>
     ft_type_a t < 8 \<and> ft_type_b t < 8 \<and> length (ft_entries t) < 2 ^ 16 \<and> ft_fadt t < length (ft_entries t) \<and>
     length (ft_before t) + length (ft_after t) < 2 ^ 30 \<and> ft_entries t ! ft_fadt t \<noteq> 0 \<and>
     (\<forall>i < ft_fadt t. \<not> is_fadt m (ft_entries t ! i)) \<and>
     (\<forall>i \<le> length (ft_before t).
        take 4 (drop i (ft_before t @ s5_object (ft_type_a t) (ft_type_b t) @ ft_after t)) \<noteq> S5_NAME) \<and>
     mem_holds m (ft_rsdp t) (rsdp_table (ft_xsdt t)) \<and> mem_holds m (ft_xsdt t) (xsdt_table (ft_entries t)) \<and>
     mem_holds m (ft_entries t ! ft_fadt t) (fadt_table (ft_dsdt t) (ft_pm1a t) (ft_pm1b t)) \<and>
     mem_holds m (ft_dsdt t) (dsdt_table (ft_before t) (ft_type_a t) (ft_type_b t) (ft_after t))"

lemma tables_steps:
  assumes "tables_present m t"
  shows "parse_rsdp (read_mem m (ft_rsdp t) RSDP_V2_LENGTH) = Ok \<lparr>rt_kind = Xsdt, rt_address = ft_xsdt t\<rparr>"
    "sdt_at m (ft_xsdt t) XSDT_SIGNATURE = Ok (xsdt_table (ft_entries t))"
    "fadt_from m (xsdt_table (ft_entries t)) Xsdt SDT_HEADER_LENGTH = Ok (ft_entries t ! ft_fadt t)"
    "sdt_at m (ft_entries t ! ft_fadt t) FADT_SIGNATURE = Ok (fadt_table (ft_dsdt t) (ft_pm1a t) (ft_pm1b t))"
    "parse_fadt (fadt_table (ft_dsdt t) (ft_pm1a t) (ft_pm1b t)) =
       Ok \<lparr>fi_dsdt_address = ft_dsdt t, fi_pm1a_control_block = ft_pm1a t, fi_pm1b_control_block = ft_pm1b t\<rparr>"
    "sdt_at m (ft_dsdt t) DSDT_SIGNATURE = Ok (dsdt_table (ft_before t) (ft_type_a t) (ft_type_b t) (ft_after t))"
    "parse_s5_package (dsdt_table (ft_before t) (ft_type_a t) (ft_type_b t) (ft_after t)) = Ok (ucast (ft_type_a t), ucast (ft_type_b t))"
proof -
  note P = assms [unfolded tables_present_def]
  let ?fadt = "fadt_table (ft_dsdt t) (ft_pm1a t) (ft_pm1b t)" and ?f = "ft_entries t ! ft_fadt t"
  let ?fb = "replicate 53 0 @ [2] @ replicate 50 0 @ to_le_bytes 8 (ft_dsdt t) @ replicate 24 0 @ io_gas (Some (ft_pm1a t)) @ io_gas (ft_pm1b t)"
  have "length (rsdp_table (ft_xsdt t)) = RSDP_V2_LENGTH" by (simp add: rsdp_table_def Let_def RSDP_SIGNATURE_def RSDP_V2_LENGTH_def)
  then show "parse_rsdp (read_mem m (ft_rsdp t) RSDP_V2_LENGTH) = Ok \<lparr>rt_kind = Xsdt, rt_address = ft_xsdt t\<rparr>"
    using P rsdp_table_parsed [of "ft_xsdt t"] by (metis (no_types))
  have "length (concat (map (to_le_bytes 8) (ft_entries t))) < 2 ^ 31"
    using P by (simp add: length_concat comp_def sum_list_triv)
  then show "sdt_at m (ft_xsdt t) XSDT_SIGNATURE = Ok (xsdt_table (ft_entries t))"
    using P sdt_held [of m "ft_xsdt t" XSDT_SIGNATURE] by (simp add: xsdt_table_def XSDT_SIGNATURE_def)
  have fb: "length ?fb < 2 ^ 31" "length FADT_SIGNATURE = 4"
    using P io_gas_parsed(1) [of "Some (ft_pm1a t)"] io_gas_parsed(1) [of "ft_pm1b t"] by (simp_all add: FADT_SIGNATURE_def)
  have lf: "4 \<le> length ?fadt" using sdt_table_parsed(2) [OF fb(2,1)] unfolding fadt_table_def by (simp add: SDT_HEADER_LENGTH_def)
  show "sdt_at m ?f FADT_SIGNATURE = Ok ?fadt"
    using P sdt_held [of m ?f FADT_SIGNATURE ?fb] fb unfolding fadt_table_def by simp
  have "take 4 ?fadt = FADT_SIGNATURE" by (simp add: fadt_table_def sdt_table_def Let_def FADT_SIGNATURE_def)
  then have "is_fadt m ?f" using P read_mem_prefix [OF lf, of m ?f] by (simp add: is_fadt_def)
  then show "fadt_from m (xsdt_table (ft_entries t)) Xsdt SDT_HEADER_LENGTH = Ok ?f"
    using P by (intro fadt_found) simp_all
  let ?db = "ft_before t @ s5_object (ft_type_a t) (ft_type_b t) @ ft_after t"
  have "length ?db < 2 ^ 31" using P by (simp add: s5_object_def Let_def S5_NAME_def aml_byte_def)
  then show "sdt_at m (ft_dsdt t) DSDT_SIGNATURE = Ok (dsdt_table (ft_before t) (ft_type_a t) (ft_type_b t) (ft_after t))"
    using P sdt_held [of m "ft_dsdt t" DSDT_SIGNATURE ?db] unfolding dsdt_table_def by (simp add: DSDT_SIGNATURE_def)
  show "parse_fadt ?fadt = Ok \<lparr>fi_dsdt_address = ft_dsdt t, fi_pm1a_control_block = ft_pm1a t, fi_pm1b_control_block = ft_pm1b t\<rparr>"
    using P by (intro fadt_table_parsed) simp_all
  show "parse_s5_package (dsdt_table (ft_before t) (ft_type_a t) (ft_type_b t) (ft_after t)) = Ok (ucast (ft_type_a t), ucast (ft_type_b t))"
    using P by (intro dsdt_table_parsed) simp_all
qed

lemma tables_walked:
  assumes "tables_present m t"
  shows "acpi_walk m (ft_rsdp t) = Ok \<lparr>sd_pm1a_control_block = ft_pm1a t, sd_pm1b_control_block = ft_pm1b t,
    sd_sleep_type_a = ucast (ft_type_a t), sd_sleep_type_b = ucast (ft_type_b t)\<rparr>"
  using tables_steps [OF assms] assms by (simp add: acpi_walk_def root_table_signature_def tables_present_def)

text \<open>The ranges discovery maps for such tables.\<close>

definition tables_slices :: "firmware_tables \<Rightarrow> mem_slice set" where
  "tables_slices t = {(ft_rsdp t, RSDP_V2_LENGTH), (ft_xsdt t, length (xsdt_table (ft_entries t))),
     (ft_entries t ! ft_fadt t, length (fadt_table (ft_dsdt t) (ft_pm1a t) (ft_pm1b t))),
     (ft_dsdt t, length (dsdt_table (ft_before t) (ft_type_a t) (ft_type_b t) (ft_after t)))} \<union>
     (\<lambda>a. (a, SDT_HEADER_LENGTH)) ` ({ft_xsdt t, ft_dsdt t} \<union> set (ft_entries t))"

lemma sdt_visits_held:
  assumes "sdt_at m a sg = Ok table"
  shows "sdt_visits m a \<subseteq> {(a, SDT_HEADER_LENGTH), (a, length table)}"
  using assms by (auto simp: sdt_at_def sdt_visits_def header_signature split: if_splits option.splits)

lemma tables_visited:
  assumes t: "tables_present m t"
  shows "acpi_visits m (ft_rsdp t) \<subseteq> tables_slices t"
proof
  note S = tables_steps [OF t] and P = t [unfolded tables_present_def]
  have sig: "root_table_signature Xsdt = XSDT_SIGNATURE" by (simp add: root_table_signature_def)
  have f: "ft_entries t ! ft_fadt t \<in> set (ft_entries t)" using P by simp
  fix v assume "v \<in> acpi_visits m (ft_rsdp t)"
  then show "v \<in> tables_slices t"
  proof cases
    case (entry rt root i a)
    have rt: "rt = \<lparr>rt_kind = Xsdt, rt_address = ft_xsdt t\<rparr>" using entry(2) S(1) by simp
    have root: "root = xsdt_table (ft_entries t)" using entry(3) S(2) rt sig by simp
    have "SDT_HEADER_LENGTH + 8 * (i + 1) \<le> length root"
      using entry(4) root_entry_None [of root Xsdt "SDT_HEADER_LENGTH + 8 * i"] rt by (simp add: entry_size_def)
    moreover have "length root = SDT_HEADER_LENGTH + 8 * length (ft_entries t)"
      using P sdt_table_parsed(2) [of XSDT_SIGNATURE "concat (map (to_le_bytes 8) (ft_entries t))"]
      by (simp add: root xsdt_table_def XSDT_SIGNATURE_def length_concat comp_def sum_list_triv)
    ultimately have "i < length (ft_entries t)" by simp
    then have "a \<in> set (ft_entries t)" using entry(4) xsdt_entry [of "ft_entries t" i] P rt root by (simp add: entry_size_def)
    with entry(1) show ?thesis by (auto simp: tables_slices_def)
  qed (use S sig f sdt_visits_held [OF S(2)] sdt_visits_held [OF S(4)] sdt_visits_held [OF S(6)] in \<open>auto simp: tables_slices_def\<close>)
qed

section \<open>A machine with tables\<close>

definition sample_tables :: firmware_tables where
  "sample_tables = \<lparr>ft_rsdp = 0xe0000, ft_xsdt = 0xe1000, ft_entries = [0xe2000], ft_fadt = 0, ft_dsdt = 0xe3000,
     ft_pm1a = 0x604, ft_pm1b = None, ft_before = [], ft_after = [], ft_type_a = 5, ft_type_b = 5\<rparr>"

definition sample_table_memory :: memory where
  "sample_table_memory =
     write_mem (write_mem (write_mem (write_mem (\<lambda>_. 0) 0xe0000 (rsdp_table 0xe1000)) 0xe1000 (xsdt_table [0xe2000]))
       0xe2000 (fadt_table 0xe3000 0x604 None)) 0xe3000 (dsdt_table [] 5 5 [])"

definition sample_acpi_kernel :: kmem where
  "sample_acpi_kernel = \<lparr>km_state = memory_state_new\<lparr>ms_allocator := vm_alloc sample_vm,
     ms_kernel_space := Some \<lparr>as_root_paddr = 0x2000000\<rparr>\<rparr>, km_memory = sample_table_memory\<rparr>"

lemma read_write_apart:
  assumes "length bs \<le> unat (b - a)" "unat (b - a) + n \<le> 2 ^ 64"
  shows "read_mem (write_mem m a bs) b n = read_mem m b n"
proof -
  have "unat (b + of_nat i - a) = unat (b - a) + i" if "i < n" for i
  proof -
    have "unat (of_nat i :: u64) = i" using that assms(2) by (simp add: unsigned_of_nat take_bit_nat_eq_self)
    moreover have e: "b + of_nat i - a = (b - a) + of_nat i" by simp
    ultimately show ?thesis unfolding e using that assms(2) unat_add_lem [of "b - a" "of_nat i"] by simp
  qed
  with assms(1) show ?thesis by (simp add: read_mem_def write_mem_def)
qed

lemma sample_lengths:
  "length (rsdp_table x) = 36" "length (xsdt_table [a]) = 44" "length (fadt_table d p None) = 196" "length (dsdt_table [] 5 5 []) = 50"
  by (simp_all add: rsdp_table_def xsdt_table_def fadt_table_def dsdt_table_def sdt_table_def Let_def RSDP_SIGNATURE_def
      XSDT_SIGNATURE_def FADT_SIGNATURE_def DSDT_SIGNATURE_def io_gas_def s5_object_def S5_NAME_def aml_byte_def word_le_nat_alt)

lemma sample_tables_present: "tables_present sample_table_memory sample_tables"
proof -
  have "mem_holds sample_table_memory 0xe0000 (rsdp_table 0xe1000)" "mem_holds sample_table_memory 0xe1000 (xsdt_table [0xe2000])"
    "mem_holds sample_table_memory 0xe2000 (fadt_table 0xe3000 0x604 None)" "mem_holds sample_table_memory 0xe3000 (dsdt_table [] 5 5 [])"
    using read_write_mem_same [of "rsdp_table 0xe1000"] read_write_mem_same [of "xsdt_table [0xe2000]"]
      read_write_mem_same [of "fadt_table 0xe3000 0x604 None"] read_write_mem_same [of "dsdt_table [] 5 5 []"]
    by (simp_all add: sample_table_memory_def read_write_apart sample_lengths)
  moreover have "take 4 (s5_object 5 5) \<noteq> S5_NAME" by (simp add: s5_object_def Let_def S5_NAME_def AML_NAME_OP_def)
  ultimately show ?thesis by (simp add: tables_present_def sample_tables_def)
qed

lemma sample_fresh_root: "fresh_root sample_table_memory 0x2000000"
proof -
  have z: "sample_table_memory x = 0" if "0xe4000 \<le> unat x" for x
  proof -
    have far: "\<not> unat (x - a) < 200" if "unat a \<le> 0xe3000" for a :: u64
      using that \<open>0xe4000 \<le> unat x\<close> unat_sub [of a x] by (simp add: word_le_nat_alt)
    from far [of "0xe0000"] far [of "0xe1000"] far [of "0xe2000"] far [of "0xe3000"] show ?thesis
      by (simp add: sample_table_memory_def write_mem_def sample_lengths)
  qed
  have fr: "frame_ok 0x2000000" by (simp add: frame_ok_def)
  have "page_entry sample_table_memory 0x2000000 i = page_entry (\<lambda>_. 0) 0x2000000 i" if "i < 512" for i
    using that by (intro page_entry_cong fr) (auto intro!: z dest!: block_bound [OF fr])
  then show ?thesis by (simp add: fresh_root_def)
qed

lemma sample_acpi_ready: "kernel_ready sample_acpi_kernel"
proof -
  have fr: "frame_ok 0x2000000" by (simp add: frame_ok_def)
  note f = sample_fresh_root
  note E = fresh_root_empty [OF f]
  have t: "table_at sample_table_memory 0x2000000 p = Some u \<longleftrightarrow> p = [] \<and> u = 0x2000000" if "good_path p" for p u
    using fresh_root_tables [OF f that] .
  have "block 0x2000000 PAGE_SIZE \<inter> free_set (vm_alloc sample_vm) = {}"
    by (rule space_invD(2) [OF vm_invD(4) [OF sample_vm_inv], of "[]"]) simp_all
  then have "space_inv sample_table_memory 0x2000000 (free_set (vm_alloc sample_vm))" using t fr by (auto simp: space_inv_def)
  then have "vm_inv 0x2000000 (kernel_vm sample_acpi_kernel)" using vm_invD [OF sample_vm_inv] by (simp add: vm_inv_def sample_acpi_kernel_def)
  moreover have "\<not> in_window memory_state_new a" for a by (simp add: in_window_def memory_state_new_def)
  then have "kernel_context (km_state sample_acpi_kernel) sample_table_memory 0x2000000"
    using E by (simp add: kernel_context_def sample_acpi_kernel_def in_window_def good_path_snoc)
  moreover have "layout_ok (km_state sample_acpi_kernel)"
    by (simp add: layout_ok_def framebuffer_mapped_def sample_acpi_kernel_def memory_state_new_def PHYS_WINDOW_START_def)
  ultimately show ?thesis by (simp add: kernel_ready_def sample_acpi_kernel_def)
qed

lemma sample_slice:
  assumes "a \<in> {0xe0000, 0xe1000, 0xe2000, 0xe3000}" "0 < n" "n \<le> 4096"
  shows "slice_range_ok (km_state sample_acpi_kernel) (a, n)" "untouched sample_acpi_kernel (slice_span (a, n))"
proof -
  obtain k where k: "unat a = 4096 * k" "k < 0x100" using that assms(1) by fastforce
  have u: "unat (a + of_nat i) = unat a + i" if "i \<le> 4096" for i
  proof -
    have "unat (of_nat i :: u64) = i" using that by (simp add: unsigned_of_nat take_bit_nat_eq_self)
    with that k show ?thesis using unat_add_lem [of a "of_nat i"] by simp
  qed
  have "unat (align_down a PAGE_SIZE) = 4096 * k" using k by (simp add: PAGE_SIZE_def unat_align_page)
  moreover have "(4095 + (4096 * k + n)) div 4096 = k + 1" using assms(2,3) by (intro div_nat_eqI) simp_all
  then have "unat (align_up (a + of_nat n) PAGE_SIZE) = 4096 * k + 4096"
    using k u [OF assms(3)] by (simp add: PAGE_SIZE_def unat_align_page)
  ultimately show "slice_range_ok (km_state sample_acpi_kernel) (a, n)"
    using k(2) by (auto simp: slice_range_ok_def range_ok_def in_window_def in_user_range_def sample_acpi_kernel_def memory_state_new_def USER_IMAGE_BASE_def)
  have low: "unat x < 0x1000000" if "x \<in> slice_span (a, n)" for x
    using that u assms(3) k by (auto simp: slice_span_def)
  have fr: "frame_ok 0x2000000" by (simp add: frame_ok_def)
  have "table_bytes sample_table_memory 0x2000000 \<subseteq> block 0x2000000 PAGE_SIZE"
    using fresh_root_tables [OF sample_fresh_root] by (auto simp: table_bytes_def)
  moreover have "x \<notin> block 0x2000000 PAGE_SIZE" if "x \<in> slice_span (a, n)" for x using low [OF that] block_bound [OF fr, of x] by auto
  moreover have "x \<notin> free_set (vm_alloc sample_vm)" if "x \<in> slice_span (a, n)" for x
    using low [OF that] by (simp add: sample_vm_def spans_def span_def word_le_nat_alt)
  ultimately show "untouched sample_acpi_kernel (slice_span (a, n))"
    by (auto simp: untouched_def sample_acpi_kernel_def)
qed

lemma sample_slices:
  "\<forall>s \<in> tables_slices sample_tables. slice_range_ok (km_state sample_acpi_kernel) s \<and> untouched sample_acpi_kernel (slice_span s)"
  using sample_slice by (simp add: tables_slices_def sample_tables_def sample_lengths RSDP_V2_LENGTH_def SDT_HEADER_LENGTH_def)

section \<open>Properties\<close>





end
