(* ===== verification/System_Boot.thy ===== *)
theory System_Boot
  imports System_Run Power_Discovery
begin

text \<open>
  \<^verbatim>\<open>kernel_main\<close> in \<^verbatim>\<open>kernel/kernel/src/main.rs\<close>: memory, power control, root filesystem, first program,
  scheduler. The console, serial and descriptor-table set-up in between is left out: it writes the
  framebuffer, ports and the kernel's own image; \<open>io\<close> is the terminal's state after it. A boot that reaches the scheduler satisfies the system invariant, and
  so does every state it runs into.
\<close>

section \<open>The code\<close>

definition INITIAL_USER_PROGRAM :: bytes where
  "INITIAL_USER_PROGRAM = [0x2f, 0x73, 0x79, 0x73, 0x74, 0x65, 0x6d, 0x2f, 0x62, 0x69, 0x6e, 0x2f, 0x6c, 0x61, 0x73, 0x68]"

definition load_user_program_from_disk :: "root_fs option \<Rightarrow> bytes \<Rightarrow> kmem \<Rightarrow> (loaded_user_program \<times> kmem) sched option" where
  "load_user_program_from_disk root path km =
     map_option (\<lambda>(r, km).
       case r of
         Ok program_bytes \<Rightarrow>
           (case with_builder (load_user_program (km_state km) (kernel_buffer_as_slice (km_memory km) program_bytes)
                   \<lparr>ps_argv0 = path, ps_argv_tail = []\<rparr>) km of
              (Ok program, km) \<Rightarrow>
                and_then (with_allocator (kernel_buffer_release program_bytes) km) (\<lambda>km. Ok (program, km))
            | _ \<Rightarrow> Panic)
       | _ \<Rightarrow> Panic)
     (read_root_file root path km)"

text \<open>Everything firmware and hardware hand to the kernel, and the addresses the linker fixed.\<close>

record 'd machine =
  mc_kernel_start :: u64
  mc_kernel_end :: u64
  mc_image :: kernel_image
  mc_terminal_entry :: u64
  mc_idle_entry :: u64
  mc_wp :: bool
  mc_pci :: pci_config
  mc_enable :: "u32 \<times> u32 \<Rightarrow> 'd \<Rightarrow> 'd"
  mc_hba :: "'d hba"

datatype boot_end = BootHalt | Started thread_activation power_state kernel

definition kernel_main ::
  "'d machine \<Rightarrow> boot_info option \<Rightarrow> io_state \<Rightarrow> memory \<Rightarrow> 'd \<Rightarrow> scheduler_state \<Rightarrow> boot_end sched option" where
  "kernel_main mc boot_info io m d st =
     (case boot_info of
        None \<Rightarrow> Some (Ok BootHalt)
      | Some bi \<Rightarrow>
          if \<not> has_valid_header bi \<or> \<not> framebuffer_is_usable (bi_framebuffer bi) then Some (Ok BootHalt)
          else
            (case memory_init (kernel_image_range (mc_kernel_start mc) (mc_kernel_end mc)) bi
                    \<lparr>km_state = memory_state_new, km_memory = m\<rparr> of
               (Ok _, km) \<Rightarrow>
                 (case power_init (bi_acpi_rsdp_addr bi) power_state_new km of
                    (Ok pw, km) \<Rightarrow>
                 (case init_root_fs (mc_pci mc) (mc_enable mc) (mc_hba mc) km d None of
                    (Ok _, km, d, root) \<Rightarrow>
                      map_option (\<lambda>loaded. and_then loaded (\<lambda>(user_program, km).
                        case kernel_address_space (km_state km) of
                          Ok kernel_space \<Rightarrow>
                            and_then (boot_scheduler (mc_image mc) kernel_space 0 user_program
                                (mc_terminal_entry mc) (mc_idle_entry mc) st) (\<lambda>(started, st).
                              Ok (case started of
                                    None \<Rightarrow> BootHalt
                                  | Some a \<Rightarrow> Started a pw \<lparr>kn_sched = st, kn_io = io, kn_mem = km, kn_root = root,
                                      kn_image = mc_image mc, kn_wp = mc_wp mc\<rparr>))
                        | _ \<Rightarrow> Panic))
                      (load_user_program_from_disk root INITIAL_USER_PROGRAM km)
                  | _ \<Rightarrow> Some Panic)
                  | _ \<Rightarrow> Some Panic)
             | _ \<Rightarrow> Some Panic))"

section \<open>The first two processes\<close>

lemma created_process:
  assumes "create_process config st = Ok (pid, st')"
  shows "\<exists>p. first_free (sc_processes st) = Some pid \<and> sc_processes st' = (sc_processes st)[pid := Some p] \<and>
    pc_address_space p = cf_address_space config \<and> pc_owned_pages p = cf_owned_pages config"
proof -
  obtain slot where slot: "first_free (sc_processes st) = Some slot"
    using assms by (cases "first_free (sc_processes st)") (auto simp: create_process_def try_create_process_def expect_def)
  let ?new = "process_new slot (cf_name config) (cf_address_space config) (cf_owned_pages config) (cf_exit_action config)"
  obtain r p where rp: "(case cf_terminal_endpoint config of None \<Rightarrow> (Some (), ?new)
      | Some ep \<Rightarrow> install_three (Some (TerminalEndpoint ep)) (Some (TerminalEndpoint ep)) (Some (TerminalEndpoint ep)) ?new) = (r, p)"
    by fastforce
  have new: "pc_address_space ?new = cf_address_space config" "pc_owned_pages ?new = cf_owned_pages config"
    by (simp_all add: process_new_def)
  have "pc_address_space p = cf_address_space config" "pc_owned_pages p = cf_owned_pages config"
    using rp new install_three_keeps [of _ _ _ ?new] by (auto split: option.splits dest!: sym [of _ "(r, p)"], (metis snd_conv)+)
  moreover have "r \<noteq> None" using assms slot rp
    by (cases r) (auto simp: create_process_def try_create_process_def expect_def Let_def)
  ultimately show ?thesis using assms slot rp
    by (intro exI [of _ p]) (auto simp: create_process_def try_create_process_def expect_def Let_def)
qed

lemma created_thread:
  "create_kernel_thread img name pid entry st = Ok (tid, st') \<Longrightarrow> sc_processes st' = sc_processes st"
  "create_user_thread img name pid entry sp st = Ok (tid, st') \<Longrightarrow> sc_processes st' = sc_processes st"
  by (auto simp: create_kernel_thread_def create_user_thread_def try_create_thread_def initial_context_for_def expect_def Let_def
      split: option.splits prod.splits)

lemma started_processes: "sched_start st = Ok (a, st') \<Longrightarrow> sc_processes st' = sc_processes st"
  by (auto simp: sched_start_def thread_mut_def split: option.splits)

lemma boot_processes:
  assumes b: "boot_scheduler img kernel_space endpoint program terminal_entry idle_entry st0 = Ok (Some a, st)"
  obtains kp up where "live_inv st" "sc_processes st = (replicate MAX_PROCESSES None)[0 := Some kp, 1 := Some up]"
    "pc_address_space kp = kernel_space" "pc_owned_pages kp = owned_pages_empty"
    "pc_address_space up = lp_address_space program" "pc_owned_pages up = lp_owned_pages program"
proof -
  have live: "live_inv st"
    using boot_ok [of img kernel_space endpoint program terminal_entry idle_entry st0] b by (auto simp: live_inv_def)
  from b [unfolded boot_scheduler_def] obtain k st1 where c1: "create_process
       \<lparr>cf_name = ''kernel-system'', cf_address_space = kernel_space, cf_terminal_endpoint = None,
        cf_owned_pages = owned_pages_empty, cf_exit_action = Continue\<rparr> (scheduler_reset st0) = Ok (k, st1)" by auto
  from created_process [OF c1] obtain kp where kp: "k = 0" "sc_processes st1 = (replicate MAX_PROCESSES None)[0 := Some kp]"
    "pc_address_space kp = kernel_space" "pc_owned_pages kp = owned_pages_empty"
    by (auto simp: scheduler_reset_def first_free_tables(1))
  from b [unfolded boot_scheduler_def] c1 obtain u st2 where c2: "create_process
       \<lparr>cf_name = ''user-bootstrap'', cf_address_space = lp_address_space program,
        cf_terminal_endpoint = Some endpoint, cf_owned_pages = lp_owned_pages program,
        cf_exit_action = ShutdownSystem\<rparr> st1 = Ok (u, st2)" by auto
  from created_process [OF c2] obtain up where up: "u = 1"
    "sc_processes st2 = (replicate MAX_PROCESSES None)[0 := Some kp, 1 := Some up]"
    "pc_address_space up = lp_address_space program" "pc_owned_pages up = lp_owned_pages program"
    using kp(2) first_free_tables(2) [of kp] by (auto simp del: One_nat_def)
  from b [unfolded boot_scheduler_def] c1 c2 obtain st3 where c3: "set_process_env u PATH_KEY PATH_VALUE st2 = Ok st3"
    by (auto split: outcome.splits)
  have "sched_process st2 1 = Ok up" using up(2) by (simp add: sched_process_def index_def expect_def MAX_PROCESSES_def)
  then obtain env where s3: "sc_processes st3 = (replicate MAX_PROCESSES None)[0 := Some kp, 1 := Some (up\<lparr>pc_env := env\<rparr>)]"
    using c3 up(1,2) by (auto simp: set_process_env_def)
  have "sc_processes st = sc_processes st3"
    using b [unfolded boot_scheduler_def] c1 c2 c3
    by (auto simp: mark_idle_thread_def dest!: created_thread started_processes)
  with s3 live kp up show thesis by (intro that [of kp "up\<lparr>pc_env := env\<rparr>"]) simp_all
qed

section \<open>The first program\<close>

lemma loaded_from_disk:
  assumes r: "kernel_ready km" and run: "load_user_program_from_disk root path km = Some (Ok (prog, km'))"
  defines "F \<equiv> free_set (ms_allocator (km_state km))" and "own \<equiv> owned_list (lp_owned_pages prog)"
    and "proot \<equiv> as_root_paddr (lp_address_space prog)"
  obtains pa where "kernel_ready km'" "km_state km' = (km_state km)\<lparr>ms_allocator := pa\<rparr>" "alloc_inv pa" "frames_ok pa"
    "\<And>x. x \<notin> F \<Longrightarrow> km_memory km' x = km_memory km x"
    "space_inv (km_memory km') proot (free_set pa)" "space_confined (km_memory km') proot own"
    "table_bytes (km_memory km') proot \<subseteq> frame_bytes own" "owned_pages_wf (lp_owned_pages prog)"
    "\<forall>c \<in> set own. frame_ok c \<and> c \<noteq> 0" "frame_bytes own \<subseteq> F" "free_set pa \<inter> frame_bytes own = {}"
proof -
  have a: "alloc_inv (ms_allocator (km_state km))" "frames_ok (ms_allocator (km_state km))" "layout_ok (km_state km)"
    using r by (auto simp: kernel_ready_def vm_inv_def)
  obtain q km1 where q: "read_root_file root path km = Some (q, km1)"
    using run by (cases "read_root_file root path km") (auto simp: load_user_program_from_disk_def)
  obtain kb where "q = Ok kb" using run q by (cases q) (auto simp: load_user_program_from_disk_def)
  with q have rf: "read_root_file root path km = Some (Ok kb, km1)" by simp
  note R = read_root_file_frames [OF a(1,2) rf]
  obtain pa1 where pa1: "km_state km1 = (km_state km)\<lparr>ms_allocator := pa1\<rparr>" "alloc_inv pa1" "frames_ok pa1"
    "buffer_ok kb" "buffer_block kb \<subseteq> F" "free_set pa1 = F - buffer_block kb"
    using R(1) unfolding F_def by blast
  let ?load = "load_user_program (km_state km1) (kernel_buffer_as_slice (km_memory km1) kb) \<lparr>ps_argv0 = path, ps_argv_tail = []\<rparr>"
  obtain q2 km2 where q2: "with_builder ?load km1 = (q2, km2)" by fastforce
  have "q2 = Ok prog" using run rf q2 by (cases q2) (auto simp: load_user_program_from_disk_def)
  with q2 have ld: "with_builder (load_user_program (km_state km1) (kernel_buffer_as_slice (km_memory km1) kb)
      \<lparr>ps_argv0 = path, ps_argv_tail = []\<rparr>) km1 = (Ok prog, km2)"
    "with_allocator (kernel_buffer_release kb) km2 = Ok km'"
    using run rf by (auto simp: load_user_program_from_disk_def)
  have a1: "alloc_inv (ms_allocator (km_state km1))" "frames_ok (ms_allocator (km_state km1))" "layout_ok (km_state km1)"
    using pa1 a(3) by simp_all
  show thesis
  proof (rule load_child_frames [OF a1 ld(1)], goal_cases)
    case (2 pa2)
    obtain pa3 where pa3: "kernel_buffer_release kb pa2 = Ok pa3" "km' = km2\<lparr>km_state := (km_state km2)\<lparr>ms_allocator := pa3\<rparr>\<rparr>"
      using ld(2) 2(1) by (auto simp: with_allocator_Ok)
    have R3: "alloc_inv pa3" "frames_ok pa3" "free_set pa3 = free_set pa2 \<union> buffer_block kb"
      using kernel_buffer_release_frames [OF 2(2,3) pa1(4) pa3(1)] by simp_all
    have st: "km_state km' = (km_state km)\<lparr>ms_allocator := pa3\<rparr>" using pa3(2) 2(1) pa1(1) by simp
    have m: "km_memory km' x = km_memory km x" if "x \<notin> F" for x
      using that R(2) [of x] 2(5) [of x] pa1 pa3(2) by (simp add: F_def)
    have P: "space_inv (km_memory km2) proot (free_set pa2)" "space_confined (km_memory km2) proot own"
      "table_bytes (km_memory km2) proot \<subseteq> frame_bytes own" "owned_pages_wf (lp_owned_pages prog)"
      "\<forall>c \<in> set own. frame_ok c \<and> c \<noteq> 0" "free_set pa1 = free_set pa2 \<union> frame_bytes own" "free_set pa2 \<inter> frame_bytes own = {}"
      using 2(6) [OF refl] pa1(1) unfolding own_def proot_def by simp_all
    have dis: "frame_bytes own \<subseteq> F" "free_set pa3 \<inter> frame_bytes own = {}" "free_set pa3 \<subseteq> F"
      using P(6,7) R3(3) pa1(5,6) by auto
    have "space_inv (km_memory km2) proot (free_set pa3)"
      using P(1,3) dis(2) unfolding space_inv_def table_bytes_def by blast
    then have "space_inv (km_memory km') proot (free_set pa3)" using pa3(2) by simp
    moreover have "kernel_ready km'"
      by (rule free_memory_ready [OF r st R3(1,2)]) (use dis(3) m in \<open>simp_all add: F_def\<close>)
    ultimately show thesis using P R3(1,2) m dis st pa3(2) by (intro that [of pa3]) simp_all
  qed simp
qed

lemma kernel_space_confined:
  assumes "kernel_context ms m root"
  shows "space_confined m root []"
  using assms unfolding space_confined_def kernel_context_def by fastforce

lemma vm_tables_apart: "vm_inv root st \<Longrightarrow> table_bytes (vm_memory st) root \<inter> free_set (vm_alloc st) = {}"
  using space_invD(2) [OF vm_invD(4)] by (fastforce simp: table_bytes_def)

lemma kernel_tables_apart:
  assumes inv: "vm_inv root (kernel_vm km)"
    and m: "\<And>x. x \<notin> free_set (ms_allocator (km_state km)) \<Longrightarrow> km_memory km' x = km_memory km x"
  shows "table_bytes (km_memory km') root \<inter> free_set (ms_allocator (km_state km)) = {}"
proof -
  have sp: "space_inv (km_memory km) root (free_set (ms_allocator (km_state km)))" using vm_invD(4) [OF inv] by simp
  have t: "table_bytes (km_memory km) root \<inter> free_set (ms_allocator (km_state km)) = {}" using vm_tables_apart [OF inv] by simp
  with space_outside_tables(5) [OF sp, of "km_memory km'"] m show ?thesis by blast
qed

lemma two_processes_inv:
  assumes "live_inv (kn_sched k)" "sc_processes (kn_sched k) = (replicate MAX_PROCESSES None)[0 := Some kp, 1 := Some up]"
    "memory_ok k" "space_ok (kn_memory k) (kn_free k) kp" "space_ok (kn_memory k) (kn_free k) up" "pages_of kp = []"
    "frame_bytes (pages_of up) \<inter> footprint (kn_memory k) kp = {}"
  shows "kernel_inv k"
proof -
  have at: "process_at (kn_sched k) i p \<longleftrightarrow> i = 0 \<and> p = kp \<or> i = 1 \<and> p = up" for i p
    unfolding assms(2) by (auto simp: slot_at_def MAX_PROCESSES_def nth_list_update split: if_splits)
  show ?thesis using assms unfolding kernel_inv_def spaces_apart_def at by auto
qed

text \<open>The state the scheduler starts in: the kernel's space and the first program's space share nothing.\<close>

lemma boot_invariant:
  assumes fw: "firmware_sane (mc_kernel_start mc) (mc_kernel_end mc) bi"
    and pci: "\<And>ms. initialize_allocator (kernel_image_range (mc_kernel_start mc) (mc_kernel_end mc)) bi memory_state_new = Ok ms \<Longrightarrow>
      controller_apart ms (mc_pci mc)"
    and acpi: "\<And>km. memory_init (kernel_image_range (mc_kernel_start mc) (mc_kernel_end mc)) bi
        \<lparr>km_state = memory_state_new, km_memory = m\<rparr> = (Ok (), km) \<Longrightarrow> acpi_apart km (bi_acpi_rsdp_addr bi)"
    and boot: "kernel_main mc (Some bi) io m d st = Some (Ok (Started a pw k))"
  shows "kernel_inv k"
proof -
  let ?img = "kernel_image_range (mc_kernel_start mc) (mc_kernel_end mc)" and ?km = "\<lparr>km_state = memory_state_new, km_memory = m\<rparr>"
  have hd: "has_valid_header bi" "framebuffer_is_usable (bi_framebuffer bi)"
    using boot by (auto simp: kernel_main_def split: if_splits)
  obtain q km0 where q: "memory_init ?img bi ?km = (q, km0)" by fastforce
  have q_ok: "q = Ok ()" using boot q hd by (cases q) (auto simp: kernel_main_def)
  obtain ms where ms0: "kernel_ready km0" "initialize_allocator ?img bi memory_state_new = Ok ms"
    "ms_phys_window_end (km_state km0) = ms_phys_window_end ms"
    using memory_init_ready [OF fw _ q [unfolded q_ok]] by auto
  obtain qp km1 where qp: "power_init (bi_acpi_rsdp_addr bi) power_state_new km0 = (qp, km1)" by fastforce
  obtain pw0 where qp_ok: "qp = Ok pw0" using boot q q_ok hd qp by (cases qp) (auto simp: kernel_main_def)
  have ms: "kernel_ready km1" "initialize_allocator ?img bi memory_state_new = Ok ms"
    "ms_phys_window_end (km_state km1) = ms_phys_window_end ms"
    using power_init_result [OF ms0(1) acpi [OF q [unfolded q_ok]] qp] ms0 by simp_all
  have r1: "kernel_ready km1" "controller_apart (km_state km1) (mc_pci mc)"
    using ms(1) pci [OF ms(2)] by (simp_all add: controller_apart_def range_ok_window [OF ms(3)])
  obtain q2 km2 d2 root where q2: "init_root_fs (mc_pci mc) (mc_enable mc) (mc_hba mc) km1 d None = (q2, km2, d2, root)"
    by (metis prod.exhaust)
  have q2_ok: "q2 = Ok ()" using boot q q_ok hd qp qp_ok q2 by (cases q2) (auto simp: kernel_main_def)
  have r2: "kernel_ready km2" by (rule init_root_fs_ready [OF r1 q2 [unfolded q2_ok]])
  obtain prog km where ld: "load_user_program_from_disk root INITIAL_USER_PROGRAM km2 = Some (Ok (prog, km))"
    using boot q q_ok hd qp qp_ok q2 q2_ok by (auto simp: kernel_main_def)
  show ?thesis
  proof (rule loaded_from_disk [OF r2 ld], goal_cases)
    case (1 pa)
    obtain space where sp: "layout_ok (km_state km)" "ms_kernel_space (km_state km) = Some space"
      "vm_inv (as_root_paddr space) (kernel_vm km)" "kernel_context (km_state km) (km_memory km) (as_root_paddr space)"
      using 1(1) by (auto simp: kernel_ready_def)
    obtain st' where bs: "boot_scheduler (mc_image mc) space 0 prog (mc_terminal_entry mc) (mc_idle_entry mc) st = Ok (Some a, st')"
      "kn_sched k = st'" "kn_mem k = km"
      using boot q q_ok hd qp qp_ok q2 q2_ok ld sp(2)
      by (auto simp: kernel_main_def kernel_address_space_def expect_def split: option.splits)
    note prog = 1(6-12) and mem = 1(2-4)
    have sp2: "vm_inv (as_root_paddr space) (kernel_vm km2)" using r2 sp(2) 1(2) by (auto simp: kernel_ready_def)
    have fr: "free_set (ms_allocator (km_state km)) = free_set pa" using 1(2) by simp
    let ?own = "frame_bytes (owned_list (lp_owned_pages prog))"
    have tabs: "table_bytes (km_memory km) (as_root_paddr space) \<inter> free_set (ms_allocator (km_state km2)) = {}"
      by (rule kernel_tables_apart [OF sp2 1(5)])
    show ?case
    proof (rule boot_processes [OF bs(1)], goal_cases)
      case (1 kp up)
      note P = 1 and L = \<open>kernel_ready km\<close>
      show ?case
      proof (rule two_processes_inv [where kp = kp and up = up])
        show "space_ok (kn_memory k) (kn_free k) kp"
          using sp(3) kernel_space_confined [OF sp(4)] P(3,4) bs(3) vm_tables_apart [OF sp(3)]
          by (simp add: space_ok_def footprint_def vm_inv_def)
        show "space_ok (kn_memory k) (kn_free k) up"
          using prog bs(3) fr P(5,6) by (auto simp: space_ok_def footprint_def)
        show "frame_bytes (pages_of up) \<inter> footprint (kn_memory k) kp = {}"
          using tabs prog(6) P bs(3) by (auto simp: footprint_def)
      qed (use P bs sp mem in \<open>simp_all add: memory_ok_def\<close>)
    qed
  qed
qed

section \<open>Properties\<close>


definition sample_pci :: pci_config where
  "sample_pci a =
     (if a = pci_config_address (pci_at 0 0 0) 0 then 0x29228086
      else if a = pci_config_address (pci_at 0 0 0) 8 then 0x01060100
      else if a = pci_config_address (pci_at 0 0 0) 0x24 then 0xfebd5000
      else 0xffffffff)"

definition sample_machine :: "memory machine" where
  "sample_machine =
     \<lparr>mc_kernel_start = 0x1000000, mc_kernel_end = 0x1000800, mc_image = sample_image, mc_terminal_entry = 1, mc_idle_entry = 2,
      mc_wp = False, mc_pci = sample_pci, mc_enable = (\<lambda>_ d. d), mc_hba = sample_hba (\<lambda>_. replicate 512 0)\<rparr>"

lemma sample_window:
  assumes "initialize_allocator (kernel_image_range 0x1000000 0x1000800) sample_boot memory_state_new = Ok ms"
  shows "unat (ms_phys_window_end ms) = 0x1200000"
proof -
  have s: "\<forall>r \<in> set (bi_memory_regions sample_boot). region_sane r" "length (bi_memory_regions sample_boot) < MAX_FREE_RANGES"
    "unat (0x1000000 :: u64) < unat (0x1000800 :: u64)" "unat (0x1000800 :: u64) \<le> 2 ^ 48"
    by (simp_all add: sample_boot_def boot_info_new_def region_sane_def MAX_FREE_RANGES_def)
  show ?thesis
    by (rule initialize_allocator_run [OF s, where st = memory_state_new])
      (use assms in \<open>auto simp: sample_boot_def boot_info_new_def\<close>)
qed

lemma sample_range_ok:
  assumes "unat (ms_phys_window_end ms) = 0x1200000" "0x1200000 \<le> unat s" "4096 dvd unat s" "4096 dvd unat e" "unat e \<le> 2 ^ 48"
  shows "range_ok ms s e"
  using assms by (auto simp: range_ok_def in_window_def in_user_range_def USER_STACK_TOP_def)


end
