(* ===== verification/Liblazer.thy ===== *)
theory Liblazer
  imports Syscall
begin

text \<open>
  The userland runtime library, \<^verbatim>\<open>libs/liblazer\<close>: system call wrappers that turn an \<^verbatim>\<open>rax\<close> value into a
  \<^verbatim>\<open>Result\<close>, the argument serialization of \<^verbatim>\<open>spawn_wait\<close>, and the argument iterator of a started program.
  The trap instruction with the kernel behind it is the record \<open>system\<close>: each field takes the bytes the
  pointer arguments denote and returns \<^verbatim>\<open>rax\<close>, with the buffer after the call where the kernel fills one.
\<close>

section \<open>System calls\<close>

record 's system =
  sys_read :: "u64 \<Rightarrow> bytes \<Rightarrow> 's \<Rightarrow> u64 \<times> bytes \<times> 's"
  sys_write :: "u64 \<Rightarrow> bytes \<Rightarrow> 's \<Rightarrow> u64 \<times> 's"
  sys_yield :: "'s \<Rightarrow> u64 \<times> 's"
  sys_spawn :: "syscall \<Rightarrow> bytes \<Rightarrow> bytes \<Rightarrow> 's \<Rightarrow> u64 \<times> 's"
  sys_read_dir :: "bytes \<Rightarrow> bytes \<Rightarrow> 's \<Rightarrow> u64 \<times> bytes \<times> 's"
  sys_chdir :: "bytes \<Rightarrow> 's \<Rightarrow> u64 \<times> 's"
  sys_getcwd :: "bytes \<Rightarrow> 's \<Rightarrow> u64 \<times> bytes \<times> 's"
  sys_read_file :: "bytes \<Rightarrow> bytes \<Rightarrow> 's \<Rightarrow> u64 \<times> bytes \<times> 's"
  sys_get_env :: "bytes \<Rightarrow> bytes \<Rightarrow> 's \<Rightarrow> u64 \<times> bytes \<times> 's"
  sys_set_env :: "bytes \<Rightarrow> bytes \<Rightarrow> 's \<Rightarrow> u64 \<times> 's"
  sys_unset_env :: "bytes \<Rightarrow> 's \<Rightarrow> u64 \<times> 's"
  sys_list_env :: "bytes \<Rightarrow> 's \<Rightarrow> u64 \<times> bytes \<times> 's"

section \<open>Environment: env.rs\<close>

datatype get_env_error = GetEnvInvalidKey | GetEnvNotFound | GetEnvBufferTooSmall | GetEnvResourceUnavailable
datatype set_env_error = SetEnvInvalidKey | SetEnvKeyTooLong | SetEnvValueTooLong | SetEnvCapacityExceeded | SetEnvResourceUnavailable
datatype unset_env_error = UnsetEnvInvalidKey | UnsetEnvNotFound | UnsetEnvResourceUnavailable
datatype list_env_error = ListEnvBufferTooSmall | ListEnvResourceUnavailable

text \<open>Each wrapper's \<^verbatim>\<open>match\<close> on the returned status, and the wrapper itself.\<close>

definition get_env_result :: "u64 \<Rightarrow> (u64, get_env_error) outcome" where
  "get_env_result status =
     (if status = get_env_INVALID_KEY then Err GetEnvInvalidKey
      else if status = get_env_NOT_FOUND then Err GetEnvNotFound
      else if status = get_env_BUFFER_TOO_SMALL then Err GetEnvBufferTooSmall
      else if status = get_env_RESOURCE_UNAVAILABLE then Err GetEnvResourceUnavailable
      else Ok status)"

definition lib_get_env :: "'s system \<Rightarrow> bytes \<Rightarrow> bytes \<Rightarrow> 's \<Rightarrow> (u64, get_env_error) outcome \<times> bytes \<times> 's" where
  "lib_get_env sys key buffer s = (case sys_get_env sys key buffer s of (status, buffer, s) \<Rightarrow> (get_env_result status, buffer, s))"

definition set_env_result :: "u64 \<Rightarrow> (unit, set_env_error) outcome" where
  "set_env_result status =
     (if status = 0 then Ok ()
      else if status = set_env_INVALID_KEY then Err SetEnvInvalidKey
      else if status = set_env_KEY_TOO_LONG then Err SetEnvKeyTooLong
      else if status = set_env_VALUE_TOO_LONG then Err SetEnvValueTooLong
      else if status = set_env_CAPACITY_EXCEEDED then Err SetEnvCapacityExceeded
      else Err SetEnvResourceUnavailable)"

definition lib_set_env :: "'s system \<Rightarrow> bytes \<Rightarrow> bytes \<Rightarrow> 's \<Rightarrow> (unit, set_env_error) outcome \<times> 's" where
  "lib_set_env sys key val s = (case sys_set_env sys key val s of (status, s) \<Rightarrow> (set_env_result status, s))"

definition unset_env_result :: "u64 \<Rightarrow> (unit, unset_env_error) outcome" where
  "unset_env_result status =
     (if status = 0 then Ok ()
      else if status = unset_env_INVALID_KEY then Err UnsetEnvInvalidKey
      else if status = unset_env_NOT_FOUND then Err UnsetEnvNotFound
      else Err UnsetEnvResourceUnavailable)"

definition lib_unset_env :: "'s system \<Rightarrow> bytes \<Rightarrow> 's \<Rightarrow> (unit, unset_env_error) outcome \<times> 's" where
  "lib_unset_env sys key s = (case sys_unset_env sys key s of (status, s) \<Rightarrow> (unset_env_result status, s))"

definition list_env_result :: "u64 \<Rightarrow> (u64, list_env_error) outcome" where
  "list_env_result status =
     (if status = list_env_BUFFER_TOO_SMALL then Err ListEnvBufferTooSmall
      else if status = list_env_RESOURCE_UNAVAILABLE then Err ListEnvResourceUnavailable
      else Ok status)"

definition lib_list_env :: "'s system \<Rightarrow> bytes \<Rightarrow> 's \<Rightarrow> (u64, list_env_error) outcome \<times> bytes \<times> 's" where
  "lib_list_env sys buffer s = (case sys_list_env sys buffer s of (status, buffer, s) \<Rightarrow> (list_env_result status, buffer, s))"

section \<open>Files and directories: fs.rs\<close>

datatype read_dir_error = ReadDirInvalidPath | ReadDirNotFound | ReadDirBufferTooSmall | ReadDirResourceUnavailable
datatype chdir_error = ChdirInvalidPath | ChdirNotFound | ChdirResourceUnavailable
datatype get_cwd_error = GetCwdBufferTooSmall | GetCwdResourceUnavailable
datatype read_file_error =
  ReadFileInvalidPath | ReadFileNotFound | ReadFileNotAFile | ReadFileBufferTooSmall | ReadFileResourceUnavailable

definition read_dir_result :: "u64 \<Rightarrow> (u64, read_dir_error) outcome" where
  "read_dir_result status =
     (if status = read_dir_INVALID_PATH then Err ReadDirInvalidPath
      else if status = read_dir_NOT_FOUND then Err ReadDirNotFound
      else if status = read_dir_BUFFER_TOO_SMALL then Err ReadDirBufferTooSmall
      else if status = read_dir_RESOURCE_UNAVAILABLE then Err ReadDirResourceUnavailable
      else Ok status)"

definition lib_read_dir :: "'s system \<Rightarrow> bytes \<Rightarrow> bytes \<Rightarrow> 's \<Rightarrow> (u64, read_dir_error) outcome \<times> bytes \<times> 's" where
  "lib_read_dir sys path buffer s = (case sys_read_dir sys path buffer s of (status, buffer, s) \<Rightarrow> (read_dir_result status, buffer, s))"

definition chdir_result :: "u64 \<Rightarrow> (unit, chdir_error) outcome" where
  "chdir_result status =
     (if status = 0 then Ok ()
      else if status = chdir_INVALID_PATH then Err ChdirInvalidPath
      else if status = chdir_NOT_FOUND then Err ChdirNotFound
      else Err ChdirResourceUnavailable)"

definition lib_chdir :: "'s system \<Rightarrow> bytes \<Rightarrow> 's \<Rightarrow> (unit, chdir_error) outcome \<times> 's" where
  "lib_chdir sys path s = (case sys_chdir sys path s of (status, s) \<Rightarrow> (chdir_result status, s))"

definition getcwd_result :: "u64 \<Rightarrow> (u64, get_cwd_error) outcome" where
  "getcwd_result status =
     (if status = getcwd_BUFFER_TOO_SMALL then Err GetCwdBufferTooSmall
      else if status = getcwd_RESOURCE_UNAVAILABLE then Err GetCwdResourceUnavailable
      else Ok status)"

definition lib_getcwd :: "'s system \<Rightarrow> bytes \<Rightarrow> 's \<Rightarrow> (u64, get_cwd_error) outcome \<times> bytes \<times> 's" where
  "lib_getcwd sys buffer s = (case sys_getcwd sys buffer s of (status, buffer, s) \<Rightarrow> (getcwd_result status, buffer, s))"

definition read_file_result :: "u64 \<Rightarrow> (u64, read_file_error) outcome" where
  "read_file_result status =
     (if status = read_file_INVALID_PATH then Err ReadFileInvalidPath
      else if status = read_file_NOT_FOUND then Err ReadFileNotFound
      else if status = read_file_NOT_A_FILE then Err ReadFileNotAFile
      else if status = read_file_BUFFER_TOO_SMALL then Err ReadFileBufferTooSmall
      else if status = read_file_RESOURCE_UNAVAILABLE then Err ReadFileResourceUnavailable
      else Ok status)"

definition lib_read_file :: "'s system \<Rightarrow> bytes \<Rightarrow> bytes \<Rightarrow> 's \<Rightarrow> (u64, read_file_error) outcome \<times> bytes \<times> 's" where
  "lib_read_file sys path buffer s = (case sys_read_file sys path buffer s of (status, buffer, s) \<Rightarrow> (read_file_result status, buffer, s))"

section \<open>Streams: io.rs and fmt.rs\<close>

definition lib_read :: "'s system \<Rightarrow> u64 \<Rightarrow> bytes \<Rightarrow> 's \<Rightarrow> u64 \<times> bytes \<times> 's" where
  "lib_read sys fd buffer s = sys_read sys fd buffer s"

definition lib_write :: "'s system \<Rightarrow> u64 \<Rightarrow> bytes \<Rightarrow> 's \<Rightarrow> u64 \<times> 's" where
  "lib_write sys fd buffer s = sys_write sys fd buffer s"

definition stdin_read :: "'s system \<Rightarrow> bytes \<Rightarrow> 's \<Rightarrow> u64 \<times> bytes \<times> 's" where
  "stdin_read sys buffer s = lib_read sys 0 buffer s"

definition stdout_write :: "'s system \<Rightarrow> bytes \<Rightarrow> 's \<Rightarrow> u64 \<times> 's" where
  "stdout_write sys buffer s = lib_write sys 1 buffer s"

definition stderr_write :: "'s system \<Rightarrow> bytes \<Rightarrow> 's \<Rightarrow> u64 \<times> 's" where
  "stderr_write sys buffer s = lib_write sys 2 buffer s"

text \<open>\<^verbatim>\<open>write_fmt\<close> hands the non-empty pieces of a formatted text to \<^verbatim>\<open>write_str\<close> one after the other, which
  writes each and drops the count.\<close>

fun lib_print :: "'s system \<Rightarrow> bytes list \<Rightarrow> 's \<Rightarrow> 's" where
  "lib_print sys [] s = s"
| "lib_print sys (piece # pieces) s =
     lib_print sys pieces (if piece = [] then s else snd (stdout_write sys piece s))"

section \<open>Processes: process.rs\<close>

definition MAX_SPAWN_ARG_DATA :: nat where "MAX_SPAWN_ARG_DATA = 512"

datatype lib_spawn_error = LibInvalidPath | LibFileNotFound | LibInvalidExecutable | LibResourceUnavailable
datatype spawn_serialize_error = SerializeInvalidUtf8 | SerializeTooLarge

definition lib_yield_now :: "'s system \<Rightarrow> 's \<Rightarrow> 's" where
  "lib_yield_now sys s = snd (sys_yield sys s)"

fun serialize_from :: "bytes list \<Rightarrow> bytes \<Rightarrow> nat \<Rightarrow> (nat \<times> bytes, spawn_serialize_error) outcome" where
  "serialize_from [] buffer written = Ok (written, buffer)"
| "serialize_from (arg # args) buffer written =
     (if 0 \<in> set arg then Err SerializeInvalidUtf8
      else if length buffer < written + (length arg + 1) then Err SerializeTooLarge
      else and_then (copy_at buffer written arg) (\<lambda>buffer.
           and_then (store buffer (written + length arg) 0) (\<lambda>buffer.
             serialize_from args buffer (written + length arg + 1))))"

definition serialize_spawn_args :: "bytes list \<Rightarrow> bytes \<Rightarrow> (nat \<times> bytes, spawn_serialize_error) outcome" where
  "serialize_spawn_args args buffer = serialize_from args buffer 0"

definition spawn_result :: "u64 \<Rightarrow> (u64, lib_spawn_error) outcome" where
  "spawn_result status =
     (if status = spawn_wait_INVALID_PATH then Err LibInvalidPath
      else if status = spawn_wait_FILE_NOT_FOUND then Err LibFileNotFound
      else if status = spawn_wait_INVALID_EXECUTABLE then Err LibInvalidExecutable
      else if status = spawn_wait_RESOURCE_UNAVAILABLE then Err LibResourceUnavailable
      else Ok status)"

definition spawn_wait_impl :: "'s system \<Rightarrow> syscall \<Rightarrow> bytes \<Rightarrow> bytes list \<Rightarrow> 's \<Rightarrow> (u64, lib_spawn_error) outcome \<times> 's" where
  "spawn_wait_impl sys number path args s =
     (case serialize_spawn_args args (replicate MAX_SPAWN_ARG_DATA 0) of
        Err SerializeInvalidUtf8 \<Rightarrow> (Err LibInvalidPath, s)
      | Err SerializeTooLarge \<Rightarrow> (Err LibResourceUnavailable, s)
      | Panic \<Rightarrow> (Panic, s)
      | Ok (payload_len, payload) \<Rightarrow>
          (case sys_spawn sys number path (take payload_len payload) s of (status, s) \<Rightarrow> (spawn_result status, s)))"

definition spawn_wait :: "'s system \<Rightarrow> bytes \<Rightarrow> bytes list \<Rightarrow> 's \<Rightarrow> (u64, lib_spawn_error) outcome \<times> 's" where
  "spawn_wait sys path args s = spawn_wait_impl sys SpawnWait path args s"

definition spawn_wait_silent :: "'s system \<Rightarrow> bytes \<Rightarrow> bytes list \<Rightarrow> 's \<Rightarrow> (u64, lib_spawn_error) outcome \<times> 's" where
  "spawn_wait_silent sys path args s = spawn_wait_impl sys SpawnWaitSilent path args s"

section \<open>Startup and arguments: runtime.rs\<close>

text \<open>The program's own memory as it reads it: a read of an unmapped address faults, which is \<open>None\<close>.\<close>

type_synonym user_memory = "u64 \<Rightarrow> u8 option"

record startup_args =
  sa_argc :: u64
  sa_argv :: u64

record lib_args =
  ag_index :: u64
  ag_argc :: u64
  ag_argv :: u64

definition read_usize :: "user_memory \<Rightarrow> u64 \<Rightarrow> u64 option" where
  "read_usize peek a =
     (let bs = map (\<lambda>i. peek (a + of_nat i)) [0..<8]
      in if None \<in> set bs then None else Some (from_le_bytes (map the bs)))"

definition liblazer_initialize :: "user_memory \<Rightarrow> u64 \<Rightarrow> startup_args option" where
  "liblazer_initialize peek stack_top =
     map_option (\<lambda>argc. \<lparr>sa_argc = argc, sa_argv = stack_top + 8\<rparr>) (read_usize peek stack_top)"

definition lib_args_new :: "startup_args \<Rightarrow> lib_args" where
  "lib_args_new startup = \<lparr>ag_index = 0, ag_argc = sa_argc startup, ag_argv = sa_argv startup\<rparr>"

text \<open>The scan for the terminating zero byte; it has no bound of its own.\<close>

partial_function (option) c_string_len :: "user_memory \<Rightarrow> u64 \<Rightarrow> u64 \<Rightarrow> u64 option" where
  "c_string_len peek pointer len =
     (case peek (pointer + len) of
        None \<Rightarrow> None
      | Some byte \<Rightarrow> if byte = 0 then Some len else c_string_len peek pointer (len + 1))"

definition user_bytes :: "user_memory \<Rightarrow> u64 \<Rightarrow> nat \<Rightarrow> bytes option" where
  "user_bytes peek a n =
     (let bs = map (\<lambda>i. peek (a + of_nat i)) [0..<n] in if None \<in> set bs then None else Some (map the bs))"

text \<open>\<^verbatim>\<open>Args::next\<close>: the outer \<open>None\<close> is a fault, the inner one the end of the iteration.\<close>

definition args_next :: "user_memory \<Rightarrow> lib_args \<Rightarrow> (bytes option \<times> lib_args) option" where
  "args_next peek a =
     (if ag_argc a \<le> ag_index a then Some (None, a)
      else Option.bind (read_usize peek (ag_argv a + 8 * ag_index a)) (\<lambda>pointer.
           Option.bind (c_string_len peek pointer 0) (\<lambda>len.
           map_option (\<lambda>bs.
             case from_utf8 bs of
               None \<Rightarrow> (None, a)
             | Some val \<Rightarrow> (Some val, a\<lparr>ag_index := ag_index a + 1\<rparr>))
           (user_bytes peek pointer (unat len)))))"

lemma args_next_index: "args_next peek a = Some (Some v, a') \<Longrightarrow> ag_argc a' = ag_argc a \<and> ag_index a < ag_argc a \<and> ag_index a' = ag_index a + 1"
  by (auto simp: args_next_def bind_eq_Some_conv split: if_splits option.splits)

text \<open>A program that iterates over all its arguments.\<close>

function args_collect :: "user_memory \<Rightarrow> lib_args \<Rightarrow> bytes list option" where
  "args_collect peek a =
     (case args_next peek a of
        None \<Rightarrow> None
      | Some (None, a') \<Rightarrow> Some []
      | Some (Some arg, a') \<Rightarrow> map_option (\<lambda>rest. arg # rest) (args_collect peek a'))"
  by pat_completeness auto
termination
proof (relation "measure (\<lambda>(peek, a). unat (ag_argc a) - unat (ag_index a))")
  fix peek a x xa y v
  assume "args_next peek a = Some x" "(xa, y) = x" "xa = Some v"
  then have n: "ag_argc y = ag_argc a" "ag_index a < ag_argc a" "ag_index y = ag_index a + 1" using args_next_index by blast+
  moreover have "unat (ag_argc a) < 2 ^ 64" using unsigned_less [of "ag_argc a"] by simp
  ultimately have "unat (ag_index a + 1) = unat (ag_index a) + 1"
    using unat_add_lem [of "ag_index a" 1] by (simp add: word_less_nat_alt)
  with n show "((peek, y), peek, a) \<in> measure (\<lambda>(peek, a). unat (ag_argc a) - unat (ag_index a))"
    by (simp add: word_less_nat_alt)
qed simp

declare args_collect.simps [simp del]

end
