(* ===== verification/Startup_Args.thy ===== *)
theory Startup_Args
  imports Liblazer
begin

text \<open>
  The path of a program's arguments: \<^verbatim>\<open>spawn_wait\<close> of \<^verbatim>\<open>libs/liblazer\<close> serializes them, the kernel's loader
  lays them out on the new program's stack (\<^verbatim>\<open>memory/loader.rs\<close>), and the new program's argument iterator
  reads them back through its own page tables.
\<close>

section \<open>Serialization\<close>

lemma serialize_from_Ok:
  assumes "serialize_from args buffer written = Ok (n, buffer')" "written \<le> length buffer"
  shows "length buffer' = length buffer \<and> n \<le> length buffer \<and> take n buffer' = take written buffer @ encode_args args \<and>
    n = written + length (encode_args args) \<and> (\<forall>a \<in> set args. 0 \<notin> set a)"
  using assms
proof (induction args arbitrary: buffer written)
  case (Cons arg args)
  let ?b = "overwrite buffer written arg"
  have fit: "written + length arg < length buffer" "serialize_from args (?b[written + length arg := 0]) (written + length arg + 1) = Ok (n, buffer')"
    "0 \<notin> set arg"
    using Cons.prems by (auto simp: copy_at_def store_def overwrite_def split: if_splits)
  have len: "length ?b = length buffer" using fit(1) by (simp add: overwrite_def)
  have "take (written + length arg + 1) (?b[written + length arg := 0]) = take written buffer @ arg @ [0]"
    using fit(1) by (simp add: overwrite_def take_Suc_conv_app_nth nth_append list_update_append)
  with Cons.IH [OF fit(2)] len fit(1,3) show ?case by auto
qed simp

lemma serialize_spawn_args_Ok:
  assumes "serialize_spawn_args args buffer = Ok (n, payload)"
  shows "take n payload = encode_args args" "\<forall>a \<in> set args. 0 \<notin> set a"
  using serialize_from_Ok [of args buffer 0 n payload] assms by (auto simp: serialize_spawn_args_def)

section \<open>Memory seen through the loader's page map\<close>

definition page_peek :: "user_page_map \<Rightarrow> memory \<Rightarrow> user_memory" where
  "page_peek pages m v =
     map_option (\<lambda>page. m (up_phys_page page + (v - align_down v PAGE_SIZE))) (find_user_page pages (align_down v PAGE_SIZE))"

definition pages_apart :: "user_page_map \<Rightarrow> bool" where
  "pages_apart pages \<longleftrightarrow> (\<forall>p \<in> mapped pages. frame_ok (up_phys_page p)) \<and>
     (\<forall>p \<in> mapped pages. \<forall>q \<in> mapped pages. up_phys_page p = up_phys_page q \<longrightarrow> p = q)"

lemma page_split:
  fixes v :: u64
  shows "unat (align_down v PAGE_SIZE) = unat v div 4096 * 4096" "unat (v - align_down v PAGE_SIZE) = unat v mod 4096"
proof -
  show d: "unat (align_down v PAGE_SIZE) = unat v div 4096 * 4096" by (simp add: PAGE_SIZE_def unat_align_page)
  then have "align_down v PAGE_SIZE \<le> v" by (simp add: word_le_nat_alt)
  with d show "unat (v - align_down v PAGE_SIZE) = unat v mod 4096" by (simp add: unat_sub minus_div_mult_eq_mod)
qed

lemma write_mem_offset:
  assumes "unat (o1 :: u64) + length bs \<le> 4096" "unat o2 < 4096"
  shows "write_mem m (p + o1) bs (p + o2) =
    (if unat o1 \<le> unat o2 \<and> unat o2 < unat o1 + length bs then bs ! (unat o2 - unat o1) else m (p + o2))"
proof (cases "o1 \<le> o2")
  case True
  then have "unat (o2 - o1) = unat o2 - unat o1" "unat o1 \<le> unat o2" by (simp_all add: unat_sub word_le_nat_alt)
  then show ?thesis by (auto simp: write_mem_def less_diff_conv2)
next
  case False
  then have "unat (o2 - o1) = unat o2 + 2 ^ 64 - unat o1" by (simp add: unat_sub_if' word_le_nat_alt)
  moreover have "length bs + unat o1 \<le> unat o2 + 2 ^ 64" using assms by simp
  then have "\<not> unat o2 + 2 ^ 64 - unat o1 < length bs" by linarith
  ultimately show ?thesis using False by (simp add: write_mem_def word_le_nat_alt)
qed

lemma page_write_peek:
  assumes ap: "pages_apart pages" and page: "find_user_page pages (align_down a PAGE_SIZE) = Some page"
    and fit: "unat a mod 4096 + length bs \<le> 4096"
  shows "page_peek pages (write_mem m (up_phys_page page + (a - align_down a PAGE_SIZE)) bs) v =
    (if unat a \<le> unat v \<and> unat v < unat a + length bs then Some (bs ! (unat v - unat a)) else page_peek pages m v)"
proof -
  let ?m' = "write_mem m (up_phys_page page + (a - align_down a PAGE_SIZE)) bs"
  note sa = page_split [of a] and sv = page_split [of v]
  show ?thesis
  proof (cases "unat v div 4096 = unat a div 4096")
    case True
    then have same: "align_down v PAGE_SIZE = align_down a PAGE_SIZE" using sa(1) sv(1) by (simp add: word_unat_eq_iff)
    have off: "unat a = unat a div 4096 * 4096 + unat a mod 4096" "unat v = unat a div 4096 * 4096 + unat v mod 4096"
      using True div_mult_mod_eq [of "unat a" 4096] div_mult_mod_eq [of "unat v" 4096] by simp_all
    have "unat a \<le> unat v \<longleftrightarrow> unat a mod 4096 \<le> unat v mod 4096"
      "unat v < unat a + length bs \<longleftrightarrow> unat v mod 4096 < unat a mod 4096 + length bs" "unat v - unat a = unat v mod 4096 - unat a mod 4096"
      using off by linarith+
    moreover have "?m' (up_phys_page page + (v - align_down v PAGE_SIZE)) =
        (if unat a mod 4096 \<le> unat v mod 4096 \<and> unat v mod 4096 < unat a mod 4096 + length bs
         then bs ! (unat v mod 4096 - unat a mod 4096) else m (up_phys_page page + (v - align_down v PAGE_SIZE)))"
      using write_mem_offset [of "a - align_down a PAGE_SIZE" bs "v - align_down v PAGE_SIZE" m "up_phys_page page"] fit sa(2) sv(2) by simp
    ultimately show ?thesis using page same by (simp add: page_peek_def)
  next
    case False
    have out: "\<not> (unat a \<le> unat v \<and> unat v < unat a + length bs)"
    proof
      assume h: "unat a \<le> unat v \<and> unat v < unat a + length bs"
      then have "unat a div 4096 \<le> unat v div 4096" by (simp add: div_le_mono)
      moreover have "unat v < unat a div 4096 * 4096 + 4096"
        using conjunct2 [OF h] fit div_mult_mod_eq [of "unat a" 4096] by linarith
      then have "unat v div 4096 < unat a div 4096 + 1" by (simp add: div_less_iff_less_mult)
      ultimately show False using False by simp
    qed
    have "?m' (up_phys_page q + (v - align_down v PAGE_SIZE)) = m (up_phys_page q + (v - align_down v PAGE_SIZE))"
      if q: "find_user_page pages (align_down v PAGE_SIZE) = Some q" for q
    proof (rule write_in_page)
      have mem: "page \<in> mapped pages" "q \<in> mapped pages" "up_virt_page page \<noteq> up_virt_page q"
        using find_user_page_Some [OF page] find_user_page_Some [OF q] False sa(1) sv(1) by (auto simp: word_unat_eq_iff)
      then have fr: "frame_ok (up_phys_page page)" "frame_ok (up_phys_page q)" "up_phys_page page \<noteq> up_phys_page q"
        using ap by (auto simp: pages_apart_def)
      then show "frame_ok (up_phys_page page)" by simp
      show "unat (a - align_down a PAGE_SIZE) + length bs \<le> 4096" using fit sa(2) by simp
      have "up_phys_page q + (v - align_down v PAGE_SIZE) \<in> block (up_phys_page q) PAGE_SIZE"
      proof -
        have lt: "unat v mod 4096 < 4096" by simp
        moreover have "unat (up_phys_page q) < 2 ^ 52" using fr(2) by (simp add: frame_ok_def)
        ultimately have "unat (up_phys_page q) + unat v mod 4096 < 2 ^ 52 + 4096" by linarith
        then have "unat (up_phys_page q) + unat v mod 4096 < 2 ^ 64" by simp
        then show ?thesis
          using lt sv(2) frame_next [OF fr(2)] unat_add_lem [of "up_phys_page q" "v - align_down v PAGE_SIZE"]
          by (simp add: block_def word_le_nat_alt word_less_nat_alt)
      qed
      then show "up_phys_page q + (v - align_down v PAGE_SIZE) \<notin> block (up_phys_page page) PAGE_SIZE"
        using frames_disjoint [OF fr] by blast
    qed
    with out show ?thesis unfolding page_peek_def by (cases "find_user_page pages (align_down v PAGE_SIZE)") auto
  qed
qed

lemma copy_into_peek:
  assumes "pages_apart pages" "unat a + length bs \<le> 2 ^ 48" "copy_into pages a bs st = (Ok (), st')"
  shows "page_peek pages (vm_memory st') v =
    (if unat a \<le> unat v \<and> unat v < unat a + length bs then Some (bs ! (unat v - unat a)) else page_peek pages (vm_memory st) v)"
  using assms
proof (induction pages a bs st rule: copy_into.induct)
  case (1 pages a bs st)
  show ?case
  proof (cases "bs = []")
    case True
    with "1.prems"(3) show ?thesis by (subst (asm) copy_into.simps) auto
  next
    case ne: False
    obtain page where page: "find_user_page pages (align_down a PAGE_SIZE) = Some page"
      using ne "1.prems"(3) by (subst (asm) copy_into.simps) (auto simp: Let_def split: option.splits)
    let ?off = "a - align_down a PAGE_SIZE" let ?len = "min (length bs) (4096 - unat ?off)"
    let ?st = "st\<lparr>vm_memory := write_mem (vm_memory st) (up_phys_page page + ?off) (take ?len bs)\<rparr>"
    have run: "copy_into pages (a + of_nat ?len) (drop ?len bs) ?st = (Ok (), st')"
      using ne "1.prems"(3) page by (subst (asm) copy_into.simps) (simp add: Let_def)
    have off: "unat ?off = unat a mod 4096" by (rule page_split)
    have ln: "?len \<le> length bs" "unat a mod 4096 + ?len \<le> 4096" using off by auto
    have ua: "unat (a + of_nat ?len) = unat a + ?len"
    proof -
      have "unat (of_nat ?len :: u64) = ?len" using ln "1.prems"(2) by (simp add: unsigned_of_nat take_bit_nat_eq_self)
      moreover have "unat a + ?len < 2 ^ 64" using order_trans [OF add_left_mono [OF ln(1)] "1.prems"(2)] by simp
      ultimately show ?thesis using unat_add_lem [of a "of_nat ?len"] by simp
    qed
    have "page_peek pages (vm_memory st') v =
      (if unat a + ?len \<le> unat v \<and> unat v < unat a + ?len + length (drop ?len bs) then Some (drop ?len bs ! (unat v - (unat a + ?len)))
       else page_peek pages (vm_memory ?st) v)"
      using "1.IH" [OF ne refl page refl refl "1.prems"(1) _ run] "1.prems"(2) ln(1) unfolding ua by simp
    also have "page_peek pages (vm_memory ?st) v =
      (if unat a \<le> unat v \<and> unat v < unat a + ?len then Some (bs ! (unat v - unat a)) else page_peek pages (vm_memory st) v)"
      using page_write_peek [OF "1.prems"(1) page, of "take ?len bs" "vm_memory st" v] ln
      by (auto simp: less_diff_conv2 simp del: min_less_iff_conj)
    finally show ?thesis using ln(1) by (auto simp: nth_drop)
  qed
qed

section \<open>Bytes in user memory\<close>

text \<open>The byte string at an address; addresses are natural numbers here, all far below the word size.\<close>

lemma unat_small: "n < 2 ^ 48 \<Longrightarrow> unat (of_nat n :: u64) = n"
  by (simp add: unsigned_of_nat take_bit_nat_eq_self)

definition holds_at :: "user_memory \<Rightarrow> nat \<Rightarrow> bytes \<Rightarrow> bool" where
  "holds_at peek a bs \<longleftrightarrow> (\<forall>i < length bs. peek (of_nat (a + i)) = Some (bs ! i))"

lemma copy_into_holds:
  assumes "pages_apart pages" "unat a + length bs \<le> 2 ^ 48" "copy_into pages a bs st = (Ok (), st')"
  shows "holds_at (page_peek pages (vm_memory st')) (unat a) bs"
    "holds_at (page_peek pages (vm_memory st)) b cs \<Longrightarrow> b + length cs \<le> unat a \<or> unat a + length bs \<le> b \<Longrightarrow>
      b + length cs \<le> 2 ^ 48 \<Longrightarrow> holds_at (page_peek pages (vm_memory st')) b cs"
proof -
  note C = copy_into_peek [OF assms]
  show "holds_at (page_peek pages (vm_memory st')) (unat a) bs"
    unfolding holds_at_def
  proof (intro allI impI)
    fix i assume i: "i < length bs"
    then have "unat (of_nat (unat a + i) :: u64) = unat a + i" using assms(2) by (intro unat_small) simp
    with C [of "of_nat (unat a + i)"] i show "page_peek pages (vm_memory st') (of_nat (unat a + i)) = Some (bs ! i)"
      by (simp del: of_nat_add)
  qed
  assume h: "holds_at (page_peek pages (vm_memory st)) b cs" "b + length cs \<le> unat a \<or> unat a + length bs \<le> b" "b + length cs \<le> 2 ^ 48"
  show "holds_at (page_peek pages (vm_memory st')) b cs"
    unfolding holds_at_def
  proof (intro allI impI)
    fix i assume i: "i < length cs"
    then have "unat (of_nat (b + i) :: u64) = b + i" using h(3) by (intro unat_small) simp
    with C [of "of_nat (b + i)"] i h(1,2) show "page_peek pages (vm_memory st') (of_nat (b + i)) = Some (cs ! i)"
      by (auto simp: holds_at_def simp del: of_nat_add)
  qed
qed

lemma all_less_add: "(\<forall>i < m + n. P i) \<longleftrightarrow> (\<forall>i < m. P i) \<and> (\<forall>i < n. P (m + i))" for m n :: nat
  by (auto, metis add_diff_inverse_nat nat_add_left_cancel_less)

lemma holds_at_append: "holds_at peek a (bs @ cs) \<longleftrightarrow> holds_at peek a bs \<and> holds_at peek (a + length bs) cs"
  unfolding holds_at_def length_append all_less_add by (simp add: nth_append add.assoc)

lemma holds_at_user_bytes: "holds_at peek (unat a) bs \<Longrightarrow> user_bytes peek a (length bs) = Some bs"
  by (auto simp: holds_at_def user_bytes_def Let_def in_set_conv_nth intro!: nth_equalityI)

lemma holds_at_read_usize: "holds_at peek (unat a) (to_le_bytes 8 (w :: u64)) \<Longrightarrow> read_usize peek a = Some w"
  using holds_at_user_bytes [of peek a "to_le_bytes 8 w"]
  by (auto simp: read_usize_def user_bytes_def Let_def split: if_splits)

lemma c_string_len_holds:
  assumes "holds_at peek (unat p) (bs @ [0])" "0 \<notin> set bs" "length bs < 2 ^ 64"
  shows "c_string_len peek p 0 = Some (of_nat (length bs))"
proof -
  have "c_string_len peek p (of_nat k) = Some (of_nat (length bs))" if "k \<le> length bs" for k
    using that
  proof (induction k rule: inc_induct)
    case base
    have "peek (of_nat (unat p + length bs)) = Some 0" using assms(1) by (auto simp: holds_at_def nth_append)
    then show ?case by (subst c_string_len.simps) simp
  next
    case (step k)
    then have "peek (of_nat (unat p + k)) = Some (bs ! k)" using assms(1) by (auto simp: holds_at_def nth_append)
    moreover have "bs ! k \<noteq> 0" using assms(2) step by (metis nth_mem)
    ultimately show ?case using step by (subst c_string_len.simps) (simp add: add.commute)
  qed
  from this [of 0] show ?thesis by simp
qed

lemma write_strings_holds:
  assumes "pages_apart pages" "unat c + length (encode_args args) \<le> 2 ^ 48" "write_strings pages args c st = (Ok ps, st')"
  shows "holds_at (page_peek pages (vm_memory st')) (unat c) (encode_args args) \<and> length ps = length args \<and>
    (\<forall>i < length args. unat (ps ! i) = unat c + length (encode_args (take i args))) \<and>
    (\<forall>b cs. holds_at (page_peek pages (vm_memory st)) b cs \<and> b + length cs \<le> unat c \<longrightarrow> holds_at (page_peek pages (vm_memory st')) b cs)"
  using assms(2,3)
proof (induction args arbitrary: c st ps)
  case (Cons arg args)
  let ?c1 = "c + of_nat (length arg)"
  obtain st1 st2 ps' where run: "copy_into pages c arg st = (Ok (), st1)" "copy_into pages ?c1 [0] st1 = (Ok (), st2)"
    "write_strings pages args (?c1 + 1) st2 = (Ok ps', st')" "ps = c # ps'"
    using Cons.prems(2) by (auto simp: bind_st_def split: prod.splits outcome.splits)
  have u: "unat ?c1 = unat c + length arg" "unat (?c1 + 1) = unat c + length arg + 1"
  proof -
    have l: "unat (of_nat (length arg) :: u64) = length arg" using Cons.prems(1) by (simp add: unsigned_of_nat take_bit_nat_eq_self)
    then show a: "unat ?c1 = unat c + length arg" using Cons.prems(1) unat_add_lem [of c "of_nat (length arg)"] by simp
    then show "unat (?c1 + 1) = unat c + length arg + 1" using Cons.prems(1) unat_add_lem [of ?c1 1] by simp
  qed
  have b: "unat c + length arg \<le> 2 ^ 48" "unat ?c1 + length [0 :: u8] \<le> 2 ^ 48" using Cons.prems(1) u by simp_all
  note C1 = copy_into_holds [OF assms(1) b(1) run(1)] and C2 = copy_into_holds [OF assms(1) b(2) run(2)]
  have IH: "holds_at (page_peek pages (vm_memory st')) (unat c + length arg + 1) (encode_args args)" "length ps' = length args"
    "\<forall>i < length args. unat (ps' ! i) = unat c + length arg + 1 + length (encode_args (take i args))"
    "\<And>b cs. holds_at (page_peek pages (vm_memory st2)) b cs \<Longrightarrow> b + length cs \<le> unat c + length arg + 1 \<Longrightarrow>
      holds_at (page_peek pages (vm_memory st')) b cs"
    using Cons.IH [OF _ run(3)] Cons.prems(1) u(2) by simp_all
  have keep: "holds_at (page_peek pages (vm_memory st')) b cs"
    if "holds_at (page_peek pages (vm_memory st1)) b cs" "b + length cs \<le> unat c + length arg" for b cs
    using C2(2) [OF that(1)] IH(4) [of b cs] that(2) u(1) Cons.prems(1) by simp
  have "holds_at (page_peek pages (vm_memory st')) (unat c) (encode_args (arg # args))"
    using keep [OF C1(1)] IH(4) [of "unat c + length arg" "[0]"] C2(1) IH(1) u(1)
      holds_at_append [of _ "unat c" arg "0 # encode_args args"] holds_at_append [of _ "unat c + length arg" "[0]" "encode_args args"]
    by simp
  moreover have "holds_at (page_peek pages (vm_memory st')) b cs"
    if "holds_at (page_peek pages (vm_memory st)) b cs" "b + length cs \<le> unat c" for b cs
    using C1(2) [OF that(1)] keep [of b cs] that(2) Cons.prems(1) by simp
  moreover have "unat (ps ! i) = unat c + length (encode_args (take i (arg # args)))" if "i < length (arg # args)" for i
    using that run(4) IH(2,3) by (cases i) simp_all
  ultimately show ?case using run(4) IH(2) by simp
qed (simp add: holds_at_def)

section \<open>The stack of a new program\<close>

lemma startup_layout_Ok:
  assumes "prepare_startup_layout startup = Ok l" and small: "length (ps_argv0 startup) + length (ps_argv_tail startup) < 2 ^ 32"
  obtains xs where "ps_argv_tail startup = encode_args xs" "\<forall>a \<in> set (ps_argv0 startup # xs). utf8_valid a \<and> 0 \<notin> set a"
    "sl_argc l = length (ps_argv0 startup # xs)" "take (sl_argc l) (sl_args l) = ps_argv0 startup # xs"
    "sl_argc l \<le> MAX_STARTUP_ARGS"
    "unat (sl_strings_start l) + length (encode_args (ps_argv0 startup # xs)) = unat USER_STACK_TOP"
    "unat (sl_stack_start l) + 8 + (sl_argc l + 1) * 8 \<le> unat (sl_strings_start l)"
proof -
  let ?args = "(replicate MAX_STARTUP_ARGS [])[0 := ps_argv0 startup]"
  have v: "utf8_valid (ps_argv0 startup)" "0 \<notin> set (ps_argv0 startup)"
    using assms(1) by (auto simp: prepare_startup_layout_def Let_def from_utf8_def split: if_splits)
  obtain args argc where p: "parse_argv_tail (ps_argv_tail startup) ?args 1 = Ok (args, argc)"
    using assms(1) v by (auto simp: prepare_startup_layout_def Let_def from_utf8_def)
  obtain xs where xs: "ps_argv_tail startup = encode_args xs" "\<forall>a \<in> set xs. good_arg a" "1 + length xs \<le> MAX_STARTUP_ARGS"
    "args = overwrite ?args 1 xs" "argc = 1 + length xs"
    using p by (subst (asm) parse_argv_tail_Ok) (auto simp: MAX_STARTUP_ARGS_def)
  have "take (Suc (length xs)) args = ps_argv0 startup # xs"
    using xs(3,4) by (simp add: overwrite_def MAX_STARTUP_ARGS_def numeral_eq_Suc)
  then have t: "take argc args = ps_argv0 startup # xs" using xs(5) by simp
  have sz: "strings_size args argc = length (encode_args (ps_argv0 startup # xs))"
    unfolding strings_size_def t by (simp add: encode_args_def length_concat comp_def)
  let ?n = "length (encode_args (ps_argv0 startup # xs))" and ?p = "(argc + 1) * 8"
  have n: "?n < 2 ^ 33" using small xs(1) by simp
  have un: "unat (of_nat ?n :: u64) = ?n" by (rule unat_small) (use n in simp)
  have up: "unat (of_nat ?p :: u64) = ?p"
    by (rule unat_small) (use xs(3,5) in \<open>simp add: MAX_STARTUP_ARGS_def\<close>)
  obtain b c where bc: "checked_sub USER_STACK_TOP (of_nat ?n) = Some (sl_strings_start l)"
    "checked_sub (sl_strings_start l) (of_nat ?p) = Some b" "checked_sub (align_down b 8) 8 = Some c"
    "sl_stack_start l = align_down c 16" "sl_argc l = argc" "sl_args l = args"
    using assms(1) v p sz by (auto simp: prepare_startup_layout_def Let_def from_utf8_def ok_or_def split: option.splits if_splits)
  have sub: "unat x + unat d = unat y" if "checked_sub y d = Some x" for x y d :: u64
    using that by (auto simp: checked_sub_def unat_sub word_le_nat_alt split: if_splits)
  have "unat (align_down b 8) \<le> unat b" "unat (align_down c 16) \<le> unat c"
    using unat_align_down_pow [of b 3] unat_align_down_pow [of c 4] by simp_all
  then have "unat (sl_stack_start l) + 8 + ?p \<le> unat (sl_strings_start l)"
    using sub [OF bc(2)] sub [OF bc(3)] bc(4) up by simp
  then show thesis
    using xs v t bc(5,6) sub [OF bc(1)] un by (intro that [of xs]) (auto simp: good_arg_def)
qed

lemma holds_at_table:
  assumes "holds_at peek a (concat (map (to_le_bytes 8) (ps :: u64 list)))" "i < length ps"
  shows "holds_at peek (a + 8 * i) (to_le_bytes 8 (ps ! i))"
proof -
  have "concat (map (to_le_bytes 8) ps) =
      concat (map (to_le_bytes 8) (take i ps)) @ to_le_bytes 8 (ps ! i) @ concat (map (to_le_bytes 8) (drop (Suc i) ps))"
    using assms(2) by (subst id_take_nth_drop [OF assms(2)]) simp
  moreover have "length (concat (map (to_le_bytes 8) (take i ps))) = 8 * i"
    using assms(2) by (simp add: length_concat comp_def sum_list_triv)
  ultimately show ?thesis using assms(1) by (simp add: holds_at_append)
qed

lemma holds_at_strings:
  assumes "holds_at peek a (encode_args ws)" "i < length ws"
  shows "holds_at peek (a + length (encode_args (take i ws))) (ws ! i @ [0])"
proof -
  have "encode_args ws = encode_args (take i ws) @ (ws ! i @ [0]) @ encode_args (drop (Suc i) ws)"
    unfolding encode_args_def by (subst id_take_nth_drop [OF assms(2)]) simp
  then show ?thesis using assms(1) by (simp only: holds_at_append)
qed

text \<open>A memory with the count, the pointer table and the strings in place yields exactly the words.\<close>

lemma args_collect_memory:
  fixes sp :: u64 and ps :: "u64 list"
  assumes n: "length ws < 2 ^ 32" "length ps = length ws" "\<forall>w \<in> set ws. utf8_valid w \<and> 0 \<notin> set w \<and> length w < 2 ^ 48"
    and top: "unat sp + 8 + 8 * length ws < 2 ^ 48"
    and argc: "holds_at peek (unat sp) (to_le_bytes 8 (of_nat (length ws) :: u64))"
    and table: "holds_at peek (unat sp + 8) (concat (map (to_le_bytes 8) ps))"
    and strings: "\<And>i. i < length ws \<Longrightarrow> holds_at peek (unat (ps ! i)) (ws ! i @ [0])"
  shows "liblazer_initialize peek sp = Some \<lparr>sa_argc = of_nat (length ws), sa_argv = sp + 8\<rparr> \<and>
    args_collect peek \<lparr>ag_index = 0, ag_argc = of_nat (length ws), ag_argv = sp + 8\<rparr> = Some ws"
proof -
  let ?a = "\<lambda>i. \<lparr>ag_index = of_nat i, ag_argc = of_nat (length ws), ag_argv = sp + 8\<rparr>"
  have "args_collect peek (?a i) = Some (drop i ws)" if "i \<le> length ws" for i
    using that
  proof (induction i rule: inc_induct)
    case base
    then show ?case by (subst args_collect.simps) (simp add: args_next_def)
  next
    case (step i)
    have ui: "unat (of_nat i :: u64) = i" "unat (of_nat (length ws) :: u64) = length ws"
      using step n(1) by (simp_all add: unsigned_of_nat take_bit_nat_eq_self)
    have lt: "\<not> (of_nat (length ws) :: u64) \<le> of_nat i" using ui step by (simp add: word_le_nat_alt)
    have "unat (of_nat (8 * i) :: u64) = 8 * i" by (rule unat_small) (use step n(1) in simp)
    moreover have "unat (sp + 8) = unat sp + 8" using top unat_add_lem [of sp 8] by simp
    ultimately have ua: "unat (sp + 8 + 8 * of_nat i) = unat sp + 8 + 8 * i"
      using top step unat_add_lem [of "sp + 8" "of_nat (8 * i)"] by simp
    have r: "read_usize peek (sp + 8 + 8 * of_nat i) = Some (ps ! i)"
      using holds_at_table [OF table, of i] n(2) step ua by (intro holds_at_read_usize) simp
    have w: "utf8_valid (ws ! i)" "0 \<notin> set (ws ! i)" "length (ws ! i) < 2 ^ 48" using n(3) step by simp_all
    have c: "c_string_len peek (ps ! i) 0 = Some (of_nat (length (ws ! i)))"
      using c_string_len_holds [OF strings [of i] w(2)] step w(3) by simp
    have b: "user_bytes peek (ps ! i) (length (ws ! i)) = Some (ws ! i)"
      using strings [of i] step by (intro holds_at_user_bytes) (simp add: holds_at_append)
    have next_i: "args_next peek (?a i) = Some (Some (ws ! i), ?a (Suc i))"
      using lt r c b w unat_small [OF w(3)] by (simp add: args_next_def from_utf8_def add.commute)
    show ?case
      using step.IH step.hyps by (subst args_collect.simps) (simp add: next_i Cons_nth_drop_Suc)
  qed
  from this [of 0] holds_at_read_usize [OF argc] show ?thesis by (simp add: liblazer_initialize_def)
qed

section \<open>The program's view of its memory\<close>

text \<open>A read by user code: the page must be mapped and open to user mode.\<close>

definition program_view :: "memory \<Rightarrow> u64 \<Rightarrow> user_memory" where
  "program_view m root v =
     (case leaf m root v of
        None \<Rightarrow> None
      | Some e \<Rightarrow> if e AND PAGE_USER \<noteq> 0 then Some (m ((e AND ADDRESS_MASK) + page_offset m root v)) else None)"

lemma page_peek_view:
  assumes inv: "loader_inv ms base root pages st" and p: "page_peek pages (vm_memory st) v = Some b"
  shows "program_view (vm_memory st) root v = Some b"
proof -
  obtain page where page: "find_user_page pages (align_down v PAGE_SIZE) = Some page"
    "b = vm_memory st (up_phys_page page + (v - align_down v PAGE_SIZE))"
    using p by (auto simp: page_peek_def)
  have mem: "page \<in> mapped pages" "up_virt_page page = align_down v PAGE_SIZE" using find_user_page_Some [OF page(1)] by simp_all
  have pl: "in_user_range (unat (align_down v PAGE_SIZE))" "page_grants (vm_memory st) root page"
    using loader_invD(3) [OF inv mem(1)] mem(2) by (simp_all add: page_placed_def)
  have "unat v = unat (align_down v PAGE_SIZE) + unat v mod 4096" using page_split(1) [of v] by simp
  moreover have "unat v mod 4096 < 4096" "unat (align_down v PAGE_SIZE) < 0x800000"
    using pl(1) by (simp_all add: in_user_range_def USER_STACK_TOP_def)
  ultimately have "unat v < 0x801000" by linarith
  then have v48: "unat v < 2 ^ 48" by simp
  have sp: "same_page (up_virt_page page) v"
    using same_page_iff [OF user_range_48 [OF pl(1)] v48] page_split(1) [of v] mem(2) by simp
  obtain e where e: "leaf (vm_memory st) root v = Some e" "e AND PAGE_USER \<noteq> 0" "e AND ADDRESS_MASK = up_phys_page page"
    using pl(2) leaf_same_page [OF sp] by (auto simp: page_grants_def)
  have "in_user_range (unat v)" using user_range_page [OF pl(1) _ v48] sp mem(2) by simp
  then have "\<not> in_window ms (unat v)" by (simp add: in_window_def in_user_range_def PHYS_WINDOW_START_def USER_STACK_TOP_def)
  then have "\<not> huge_at (vm_memory st) root (pd_path v) (pd_index v)"
    using loader_invD(2) [OF inv] v48 by (auto simp: supervisor_rest_def)
  then have off: "page_offset (vm_memory st) root v = v AND 0xfff" by (rule page_offset_4k [OF e(1)])
  have "v AND 0xfff = take_bit 12 v" by (simp add: take_bit_eq_mask mask_eq_exp_minus_1)
  then have "v AND 0xfff = v - align_down v PAGE_SIZE"
    using page_split(2) [of v] by (simp add: word_unat_eq_iff take_bit_eq_mod unat_mod_distrib)
  then show ?thesis using e off page(2) by (simp add: program_view_def)
qed

lemma holds_at_mono: "holds_at peek a bs \<Longrightarrow> (\<And>v b. peek v = Some b \<Longrightarrow> peek' v = Some b) \<Longrightarrow> holds_at peek' a bs"
  by (auto simp: holds_at_def)

lemma loader_pages_apart: "loader_inv ms base root pages st \<Longrightarrow> pages_apart pages"
  using loader_invD(3,4) [of ms base root pages st] unfolding pages_apart_def page_placed_def by blast

text \<open>What the loader left on the stack of a program is what the program reads there.\<close>

lemma startup_written_read:
  assumes w: "startup_written ms base startup root sp st'" and small: "length (ps_argv0 startup) + length (ps_argv_tail startup) < 2 ^ 32"
  obtains xs where "ps_argv_tail startup = encode_args xs" "\<forall>a \<in> set xs. 0 \<notin> set a"
    "liblazer_initialize (program_view (vm_memory st') root) sp = Some \<lparr>sa_argc = of_nat (length xs + 1), sa_argv = sp + 8\<rparr>"
    "args_collect (program_view (vm_memory st') root) (lib_args_new \<lparr>sa_argc = of_nat (length xs + 1), sa_argv = sp + 8\<rparr>) =
       Some (ps_argv0 startup # xs)"
proof -
  obtain pages st where L: "loader_inv ms base root pages st'" "write_startup_arguments pages startup st = (Ok sp, st')"
    using w by (auto simp: startup_written_def)
  note ap = loader_pages_apart [OF L(1)]
  obtain l where l: "prepare_startup_layout startup = Ok l" using L(2) by (auto simp: write_startup_arguments_def split: outcome.splits)
  obtain xs where X: "ps_argv_tail startup = encode_args xs" "\<forall>a \<in> set (ps_argv0 startup # xs). utf8_valid a \<and> 0 \<notin> set a"
    "sl_argc l = length (ps_argv0 startup # xs)" "take (sl_argc l) (sl_args l) = ps_argv0 startup # xs" "sl_argc l \<le> MAX_STARTUP_ARGS"
    "unat (sl_strings_start l) + length (encode_args (ps_argv0 startup # xs)) = unat USER_STACK_TOP"
    "unat (sl_stack_start l) + 8 + (sl_argc l + 1) * 8 \<le> unat (sl_strings_start l)"
    by (rule startup_layout_Ok [OF l small])
  let ?ws = "ps_argv0 startup # xs"
  obtain ps st1 st2 where run: "write_strings pages ?ws (sl_strings_start l) st = (Ok ps, st1)"
    "copy_into pages (sl_stack_start l) (to_le_bytes 8 (of_nat (sl_argc l) :: u64)) st1 = (Ok (), st2)"
    "copy_into pages (sl_stack_start l + 8) (concat (map (to_le_bytes 8) (ps @ [0]))) st2 = (Ok (), st')" "sp = sl_stack_start l"
    using L(2) l X(4) by (auto simp: write_startup_arguments_def bind_st_def split: if_splits prod.splits outcome.splits)
  have top: "unat USER_STACK_TOP = 0x800000" by (simp add: USER_STACK_TOP_def)
  note W = write_strings_holds [OF ap _ run(1)]
  have W': "holds_at (page_peek pages (vm_memory st1)) (unat (sl_strings_start l)) (encode_args ?ws)" "length ps = length ?ws"
    "\<And>i. i < length ?ws \<Longrightarrow> unat (ps ! i) = unat (sl_strings_start l) + length (encode_args (take i ?ws))"
    using W X(6) top by simp_all
  have len: "length (concat (map (to_le_bytes 8) (ps @ [0]))) = (sl_argc l + 1) * 8"
    using W'(2) X(3) by (simp add: length_concat comp_def sum_list_triv)
  have sp8: "unat (sp + 8) = unat sp + 8" using run(4) X(6,7) top unat_add_lem [of sp 8] by simp
  note C1 = copy_into_holds [OF ap _ run(2)] and C2 = copy_into_holds [OF ap _ run(3), folded run(4), unfolded len sp8]
  let ?q = "program_view (vm_memory st') root"
  have view: "holds_at (page_peek pages (vm_memory st')) a bs \<Longrightarrow> holds_at ?q a bs" for a bs
    by (rule holds_at_mono [OF _ page_peek_view [OF L(1)]])
  have lo: "unat sp + 8 + (sl_argc l + 1) * 8 \<le> unat (sl_strings_start l)" "unat (sl_strings_start l) \<le> 0x800000"
    using X(6,7) run(4) top by simp_all
  have argc: "holds_at ?q (unat sp) (to_le_bytes 8 (of_nat (length ?ws) :: u64))"
    using C1(1) C2(2) run(4) lo X(3) by (intro view) simp
  have "holds_at ?q (unat sp + 8) (concat (map (to_le_bytes 8) (ps @ [0])))" using C2(1) lo by (intro view) simp
  then have table: "holds_at ?q (unat sp + 8) (concat (map (to_le_bytes 8) ps))" by (simp add: holds_at_append)
  have "holds_at ?q (unat (sl_strings_start l)) (encode_args ?ws)"
    using C1(2) [OF _ W'(1)] C2(2) lo X(6) run(4) top by (intro view) simp
  from holds_at_strings [OF this] have strings: "holds_at ?q (unat (ps ! i)) (?ws ! i @ [0])" if "i < length ?ws" for i
    using W'(3) [OF that] that by simp
  have "length a < 2 ^ 48" if "a \<in> set ?ws" for a
  proof -
    have "length a + 1 \<le> length (encode_args ?ws)"
      using member_le_sum_list [of "length a + 1" "map (\<lambda>a. length a + 1) ?ws"] that by (auto simp: encode_args_def length_concat comp_def)
    then show ?thesis using X(6) top by simp
  qed
  then have "liblazer_initialize ?q sp = Some \<lparr>sa_argc = of_nat (length ?ws), sa_argv = sp + 8\<rparr> \<and>
    args_collect ?q \<lparr>ag_index = 0, ag_argc = of_nat (length ?ws), ag_argv = sp + 8\<rparr> = Some ?ws"
    using lo X(2,3,5) by (intro args_collect_memory [OF _ W'(2) _ _ argc table strings]) (auto simp: MAX_STARTUP_ARGS_def)
  then show thesis using X(1,2) by (intro that [of xs]) (simp_all add: lib_args_new_def)
qed

lemma encode_args_inject:
  assumes "encode_args xs = encode_args ys" "\<forall>a \<in> set xs. 0 \<notin> set a" "\<forall>a \<in> set ys. 0 \<notin> set a"
  shows "xs = ys"
  using assms
proof (induction xs arbitrary: ys)
  case Nil
  then show ?case by (cases ys) simp_all
next
  case (Cons x xs)
  then obtain y ys' where ys: "ys = y # ys'" by (cases ys) auto
  have e: "x @ 0 # encode_args xs = y @ 0 # encode_args ys'" using Cons.prems(1) ys by simp
  have t: "takeWhile ((\<noteq>) 0) (z @ 0 # r) = z" if "0 \<notin> set z" for z r :: bytes
    using that by (subst takeWhile_append2) auto
  have "x = y" using t [of x "encode_args xs"] t [of y "encode_args ys'"] e Cons.prems(2,3) ys by simp
  with e Cons ys show ?case by simp
qed

text \<open>An empty argument is serialized as a lone zero byte, which the loader refuses.\<close>

lemma empty_argument_rejected:
  assumes "utf8_valid path" "0 \<notin> set path"
  shows "\<exists>payload. serialize_spawn_args [[]] (replicate MAX_SPAWN_ARG_DATA 0) = Ok (1, payload) \<and>
    prepare_startup_layout \<lparr>ps_argv0 = path, ps_argv_tail = take 1 payload\<rparr> = Err InvalidStartupArguments"
proof -
  have "parse_argv_tail [0] args 1 = Err InvalidStartupArguments" for args by (subst parse_argv_tail.simps) simp
  with assms show ?thesis
    by (simp add: serialize_spawn_args_def MAX_SPAWN_ARG_DATA_def prepare_startup_layout_def Let_def from_utf8_def overwrite_def
        take_update_swap)
qed

section \<open>Properties\<close>



end
