(* ===== verification/Font.thy ===== *)
theory Font
  imports Lazers_Prelude
begin

text \<open>
  The bitmap font, \<^verbatim>\<open>kernel/kernel/src/font.rs\<close>: five by seven pixels, a row of a glyph in the low five bits of
  a byte with the leftmost pixel in the highest of them. The glyph constants stand in three tables in
  the order of the \<^verbatim>\<open>match\<close>, each with the bytes it serves.
\<close>

definition GLYPH_WIDTH :: nat where "GLYPH_WIDTH = 5"
definition GLYPH_HEIGHT :: nat where "GLYPH_HEIGHT = 7"

type_synonym glyph = "u8 list"

definition font_symbols :: "(bytes \<times> glyph) list" where
  "font_symbols = [
      ([0x20], [0x0, 0x0, 0x0, 0x0, 0x0, 0x0, 0x0]),
      ([0x21], [0x4, 0x4, 0x4, 0x4, 0x4, 0x0, 0x4]),
      ([0x22], [0xa, 0xa, 0xa, 0x0, 0x0, 0x0, 0x0]),
      ([0x23], [0xa, 0x1f, 0xa, 0x1f, 0xa, 0xa, 0x0]),
      ([0x24], [0x4, 0xf, 0x14, 0xe, 0x5, 0x1e, 0x4]),
      ([0x25], [0x19, 0x1a, 0x4, 0x8, 0x16, 0x6, 0x0]),
      ([0x26], [0xc, 0x12, 0x14, 0x8, 0x15, 0x12, 0xd]),
      ([0x27], [0x4, 0x4, 0x8, 0x0, 0x0, 0x0, 0x0]),
      ([0x28], [0x2, 0x4, 0x8, 0x8, 0x8, 0x4, 0x2]),
      ([0x29], [0x8, 0x4, 0x2, 0x2, 0x2, 0x4, 0x8]),
      ([0x2a], [0x0, 0x4, 0x15, 0xe, 0x15, 0x4, 0x0]),
      ([0x2b], [0x0, 0x4, 0x4, 0x1f, 0x4, 0x4, 0x0]),
      ([0x2c], [0x0, 0x0, 0x0, 0x0, 0x6, 0x4, 0x8]),
      ([0x2d], [0x0, 0x0, 0x0, 0x1f, 0x0, 0x0, 0x0]),
      ([0x2e], [0x0, 0x0, 0x0, 0x0, 0x0, 0xc, 0xc]),
      ([0x2f], [0x1, 0x1, 0x2, 0x4, 0x8, 0x10, 0x10]),
      ([0x30], [0xe, 0x11, 0x13, 0x15, 0x19, 0x11, 0xe]),
      ([0x31], [0x4, 0xc, 0x4, 0x4, 0x4, 0x4, 0xe]),
      ([0x32], [0xe, 0x11, 0x1, 0x2, 0x4, 0x8, 0x1f]),
      ([0x33], [0x1e, 0x1, 0x1, 0xe, 0x1, 0x1, 0x1e]),
      ([0x34], [0x2, 0x6, 0xa, 0x12, 0x1f, 0x2, 0x2]),
      ([0x35], [0x1f, 0x10, 0x10, 0x1e, 0x1, 0x1, 0x1e]),
      ([0x36], [0xe, 0x10, 0x10, 0x1e, 0x11, 0x11, 0xe]),
      ([0x37], [0x1f, 0x1, 0x2, 0x4, 0x8, 0x8, 0x8]),
      ([0x38], [0xe, 0x11, 0x11, 0xe, 0x11, 0x11, 0xe]),
      ([0x39], [0xe, 0x11, 0x11, 0xf, 0x1, 0x1, 0xe]),
      ([0x3a], [0x0, 0x4, 0x4, 0x0, 0x4, 0x4, 0x0]),
      ([0x3b], [0x0, 0x4, 0x4, 0x0, 0x4, 0x4, 0x8]),
      ([0x3c], [0x2, 0x4, 0x8, 0x10, 0x8, 0x4, 0x2]),
      ([0x3d], [0x0, 0x1f, 0x0, 0x1f, 0x0, 0x0, 0x0]),
      ([0x3e], [0x8, 0x4, 0x2, 0x1, 0x2, 0x4, 0x8]),
      ([0x3f], [0xe, 0x11, 0x1, 0x2, 0x4, 0x0, 0x4]),
      ([0x40], [0xe, 0x11, 0x17, 0x15, 0x17, 0x10, 0xe])]"

definition font_letters :: "(bytes \<times> glyph) list" where
  "font_letters = [
      ([0x41, 0x61], [0xe, 0x11, 0x11, 0x1f, 0x11, 0x11, 0x11]),
      ([0x42, 0x62], [0x1e, 0x11, 0x11, 0x1e, 0x11, 0x11, 0x1e]),
      ([0x43, 0x63], [0xe, 0x11, 0x10, 0x10, 0x10, 0x11, 0xe]),
      ([0x44, 0x64], [0x1e, 0x11, 0x11, 0x11, 0x11, 0x11, 0x1e]),
      ([0x45, 0x65], [0x1f, 0x10, 0x10, 0x1e, 0x10, 0x10, 0x1f]),
      ([0x46, 0x66], [0x1f, 0x10, 0x10, 0x1e, 0x10, 0x10, 0x10]),
      ([0x47, 0x67], [0xe, 0x11, 0x10, 0x17, 0x11, 0x11, 0xe]),
      ([0x48, 0x68], [0x11, 0x11, 0x11, 0x1f, 0x11, 0x11, 0x11]),
      ([0x49, 0x69], [0xe, 0x4, 0x4, 0x4, 0x4, 0x4, 0xe]),
      ([0x4a, 0x6a], [0x1, 0x1, 0x1, 0x1, 0x11, 0x11, 0xe]),
      ([0x4b, 0x6b], [0x11, 0x12, 0x14, 0x18, 0x14, 0x12, 0x11]),
      ([0x4c, 0x6c], [0x10, 0x10, 0x10, 0x10, 0x10, 0x10, 0x1f]),
      ([0x4d, 0x6d], [0x11, 0x1b, 0x15, 0x15, 0x11, 0x11, 0x11]),
      ([0x4e, 0x6e], [0x11, 0x19, 0x15, 0x13, 0x11, 0x11, 0x11]),
      ([0x4f, 0x6f], [0xe, 0x11, 0x11, 0x11, 0x11, 0x11, 0xe]),
      ([0x50, 0x70], [0x1e, 0x11, 0x11, 0x1e, 0x10, 0x10, 0x10]),
      ([0x51, 0x71], [0xe, 0x11, 0x11, 0x11, 0x15, 0x12, 0xd]),
      ([0x52, 0x72], [0x1e, 0x11, 0x11, 0x1e, 0x14, 0x12, 0x11]),
      ([0x53, 0x73], [0xf, 0x10, 0x10, 0xe, 0x1, 0x1, 0x1e]),
      ([0x54, 0x74], [0x1f, 0x4, 0x4, 0x4, 0x4, 0x4, 0x4]),
      ([0x55, 0x75], [0x11, 0x11, 0x11, 0x11, 0x11, 0x11, 0xe]),
      ([0x56, 0x76], [0x11, 0x11, 0x11, 0x11, 0x11, 0xa, 0x4]),
      ([0x57, 0x77], [0x11, 0x11, 0x11, 0x15, 0x15, 0x15, 0xa]),
      ([0x58, 0x78], [0x11, 0x11, 0xa, 0x4, 0xa, 0x11, 0x11]),
      ([0x59, 0x79], [0x11, 0x11, 0xa, 0x4, 0x4, 0x4, 0x4]),
      ([0x5a, 0x7a], [0x1f, 0x1, 0x2, 0x4, 0x8, 0x10, 0x1f])]"

definition font_brackets :: "(bytes \<times> glyph) list" where
  "font_brackets = [
      ([0x5b], [0xe, 0x8, 0x8, 0x8, 0x8, 0x8, 0xe]),
      ([0x5c], [0x10, 0x8, 0x4, 0x2, 0x1, 0x0, 0x0]),
      ([0x5d], [0xe, 0x2, 0x2, 0x2, 0x2, 0x2, 0xe]),
      ([0x5e], [0x4, 0xa, 0x11, 0x0, 0x0, 0x0, 0x0]),
      ([0x5f], [0x0, 0x0, 0x0, 0x0, 0x0, 0x0, 0x1f]),
      ([0x60], [0x8, 0x4, 0x2, 0x0, 0x0, 0x0, 0x0]),
      ([0x7b], [0x2, 0x4, 0x4, 0x8, 0x4, 0x4, 0x2]),
      ([0x7c], [0x4, 0x4, 0x4, 0x0, 0x4, 0x4, 0x4]),
      ([0x7d], [0x8, 0x4, 0x4, 0x2, 0x4, 0x4, 0x8]),
      ([0x7e], [0x0, 0x0, 0x9, 0x16, 0x0, 0x0, 0x0])]"

definition QUESTION :: glyph where
  "QUESTION = [0xe, 0x11, 0x1, 0x2, 0x4, 0x0, 0x4]"

definition glyph_for :: "u8 \<Rightarrow> glyph" where
  "glyph_for byte =
     (case find (\<lambda>(bytes, glyph). byte \<in> set bytes) (font_symbols @ font_letters @ font_brackets) of
        None \<Rightarrow> QUESTION
      | Some (bytes, glyph) \<Rightarrow> glyph)"

text \<open>Whether the font draws the pixel in a row and column of a byte's glyph.\<close>

definition glyph_bit :: "u8 \<Rightarrow> nat \<Rightarrow> nat \<Rightarrow> bool" where
  "glyph_bit byte row column \<longleftrightarrow> bit (glyph_for byte ! row) (GLYPH_WIDTH - 1 - column)"

text \<open>Every glyph has seven rows of five pixels, every printable ASCII byte has its own entry, and letters
  are drawn alike in both cases.\<close>

lemma font_tables_shape:
  "list_all (\<lambda>(bytes, glyph). length glyph = GLYPH_HEIGHT \<and> list_all (\<lambda>row. row < 0x20) glyph)
     (font_symbols @ font_letters @ font_brackets)"
  by code_simp

lemma glyph_for_length: "length (glyph_for byte) = GLYPH_HEIGHT"
proof (cases "find (\<lambda>(bytes, glyph). byte \<in> set bytes) (font_symbols @ font_letters @ font_brackets)")
  case None
  then show ?thesis by (simp add: glyph_for_def QUESTION_def GLYPH_HEIGHT_def)
next
  case (Some e)
  then have "e \<in> set (font_symbols @ font_letters @ font_brackets)" by (metis find_Some_iff nth_mem)
  with font_tables_shape Some show ?thesis by (auto simp: glyph_for_def list_all_iff split: prod.splits)
qed

lemma printable_bytes_have_glyphs:
  "concat (map fst font_symbols) = map word_of_nat [32..<65]"
  "map fst font_letters = map (\<lambda>n. [word_of_nat n, word_of_nat (n + 32)]) [65..<91]"
  "concat (map fst font_brackets) = map word_of_nat ([91..<97] @ [123..<127])"
  by code_simp+

end
