(* ===== verification/Console.thy ===== *)
theory Console
  imports Font Boot_Info Terminal
begin

text \<open>
  The framebuffer console, \<^verbatim>\<open>kernel/kernel/src/console.rs\<close>: glyphs drawn pixel by pixel, line wrapping,
  scrolling by moving pixels, and backspace down to the start of the terminal session. The memory behind
  \<^verbatim>\<open>framebuffer.base\<close>, as \<^verbatim>\<open>pixels_mut\<close> slices it, is the list \<open>cn_pixels\<close>. All index arithmetic is on
  products of 32-bit sizes, which 64 bits hold, so lengths and positions are natural numbers.
\<close>

section \<open>State\<close>

definition DEFAULT_FOREGROUND :: u32 where "DEFAULT_FOREGROUND = 0xf9fafb"
definition DEFAULT_BACKGROUND :: u32 where "DEFAULT_BACKGROUND = 0x111827"
definition PADDING_X :: nat where "PADDING_X = 16"
definition PADDING_Y :: nat where "PADDING_Y = 16"
definition GLYPH_ADVANCE_X :: nat where "GLYPH_ADVANCE_X = GLYPH_WIDTH + 2"
definition GLYPH_ADVANCE_Y :: nat where "GLYPH_ADVANCE_Y = GLYPH_HEIGHT + 3"
definition MAX_TRACKED_ROWS :: nat where "MAX_TRACKED_ROWS = 512"

record console_cursor =
  cc_column :: nat
  cc_row :: nat

record console =
  cn_framebuffer :: framebuffer_info
  cn_foreground :: u32
  cn_background :: u32
  cn_visible_height :: nat
  cn_columns :: nat
  cn_rows :: nat
  cn_cursor_column :: nat
  cn_cursor_row :: nat
  cn_row_lengths :: "nat list"
  cn_input_floor :: "console_cursor option"
  cn_pixels :: "u32 list"

abbreviation cn_stride :: "console \<Rightarrow> nat" where "cn_stride cn \<equiv> unat (fb_stride (cn_framebuffer cn))"
abbreviation cn_width :: "console \<Rightarrow> nat" where "cn_width cn \<equiv> unat (fb_width (cn_framebuffer cn))"

type_synonym console_op = "console \<Rightarrow> (console, unit) outcome"

definition visible_height_pixels :: "framebuffer_info \<Rightarrow> nat" where
  "visible_height_pixels fb =
     (let stride = unat (fb_stride fb);
          max_pixels = unat (fb_size fb) div 4;
          rows_from_size = (if stride = 0 then 0 else max_pixels div stride)
      in min (unat (fb_height fb)) rows_from_size)"

definition usable_columns :: "nat \<Rightarrow> nat" where
  "usable_columns width =
     (let usable_width = width - PADDING_X * 2
      in if usable_width < GLYPH_WIDTH then 1 else 1 + (usable_width - GLYPH_WIDTH) div GLYPH_ADVANCE_X)"

definition usable_rows :: "nat \<Rightarrow> nat" where
  "usable_rows visible_height =
     (let usable_height = visible_height - PADDING_Y * 2
      in if usable_height < GLYPH_HEIGHT then 1 else 1 + (usable_height - GLYPH_HEIGHT) div GLYPH_ADVANCE_Y)"

text \<open>\<^verbatim>\<open>FramebufferConsole::new\<close>, over memory with the content \<open>pixels\<close>.\<close>

definition console_new :: "framebuffer_info \<Rightarrow> u32 \<Rightarrow> u32 \<Rightarrow> u32 list \<Rightarrow> console" where
  "console_new framebuffer foreground background pixels =
     (let visible_height = visible_height_pixels framebuffer in
      \<lparr>cn_framebuffer = framebuffer, cn_foreground = foreground, cn_background = background,
       cn_visible_height = visible_height, cn_columns = usable_columns (unat (fb_width framebuffer)),
       cn_rows = min (usable_rows visible_height) MAX_TRACKED_ROWS, cn_cursor_column = 0, cn_cursor_row = 0,
       cn_row_lengths = replicate MAX_TRACKED_ROWS 0, cn_input_floor = None, cn_pixels = pixels\<rparr>)"

section \<open>Pixels\<close>

definition encode_color :: "console \<Rightarrow> u32 \<Rightarrow> u32" where
  "encode_color cn rgb =
     (let red = drop_bit 16 rgb AND 0xff; green = drop_bit 8 rgb AND 0xff; blue = rgb AND 0xff in
      case fb_format (cn_framebuffer cn) of
        Rgb \<Rightarrow> red OR push_bit 8 green OR push_bit 16 blue
      | Bgr \<Rightarrow> blue OR push_bit 8 green OR push_bit 16 red
      | UnknownFormat \<Rightarrow> rgb)"

definition put_pixel :: "nat \<Rightarrow> nat \<Rightarrow> u32 \<Rightarrow> console \<Rightarrow> console" where
  "put_pixel x y pixel cn =
     (if cn_width cn \<le> x \<or> cn_visible_height cn \<le> y then cn
      else let i = y * cn_stride cn + x in
           if length (cn_pixels cn) \<le> i then cn else cn\<lparr>cn_pixels := (cn_pixels cn)[i := pixel]\<rparr>)"

text \<open>The two nested pixel loops, row by row.\<close>

definition draw_glyph :: "nat \<Rightarrow> nat \<Rightarrow> glyph \<Rightarrow> console \<Rightarrow> console" where
  "draw_glyph origin_x origin_y glyph cn =
     (let pixel = encode_color cn (cn_foreground cn) in
      fold (\<lambda>(row_index, column_index) cn.
             if \<not> bit (glyph ! row_index) (GLYPH_WIDTH - 1 - column_index) then cn
             else put_pixel (origin_x + column_index) (origin_y + row_index) pixel cn)
        (List.product [0..<length glyph] [0..<GLYPH_WIDTH]) cn)"

definition clear_glyph_area :: "nat \<Rightarrow> nat \<Rightarrow> console \<Rightarrow> console" where
  "clear_glyph_area origin_x origin_y cn =
     (let background = encode_color cn (cn_background cn) in
      fold (\<lambda>(row, column). put_pixel (origin_x + column) (origin_y + row) background)
        (List.product [0..<GLYPH_HEIGHT] [0..<GLYPH_ADVANCE_X]) cn)"

definition clear_cell :: "nat \<Rightarrow> nat \<Rightarrow> console \<Rightarrow> console" where
  "clear_cell column row =
     clear_glyph_area (PADDING_X + column * GLYPH_ADVANCE_X) (PADDING_Y + row * GLYPH_ADVANCE_Y)"

text \<open>A loop that fills \<^verbatim>\<open>xs[a..b]\<close>, and \<^verbatim>\<open>xs.copy_within(a..b, at)\<close>.\<close>

definition fill_range :: "'a list \<Rightarrow> nat \<Rightarrow> nat \<Rightarrow> 'a \<Rightarrow> ('a list, 'e) outcome" where
  "fill_range xs a b v = (if a \<le> b \<and> b \<le> length xs then Ok (overwrite xs a (replicate (b - a) v)) else Panic)"

definition copy_within :: "'a list \<Rightarrow> nat \<Rightarrow> nat \<Rightarrow> nat \<Rightarrow> ('a list, 'e) outcome" where
  "copy_within xs a b at =
     (if a \<le> b \<and> b \<le> length xs \<and> at + (b - a) \<le> length xs then Ok (overwrite xs at (take (b - a) (drop a xs))) else Panic)"

fun clear_band_from :: "nat \<Rightarrow> nat \<Rightarrow> console_op" where
  "clear_band_from y 0 cn = Ok cn"
| "clear_band_from y (Suc n) cn =
     and_then (fill_range (cn_pixels cn) (y * cn_stride cn) (y * cn_stride cn + cn_stride cn) (encode_color cn (cn_background cn)))
       (\<lambda>pixels. clear_band_from (y + 1) n (cn\<lparr>cn_pixels := pixels\<rparr>))"

definition clear_band :: "nat \<Rightarrow> nat \<Rightarrow> console_op" where
  "clear_band start_y end_y = clear_band_from start_y (end_y - start_y)"

definition console_clear :: "console \<Rightarrow> console" where
  "console_clear cn =
     cn\<lparr>cn_pixels := replicate (length (cn_pixels cn)) (encode_color cn (cn_background cn)),
        cn_cursor_column := 0, cn_cursor_row := 0,
        cn_row_lengths := replicate (length (cn_row_lengths cn)) 0, cn_input_floor := None\<rparr>"

section \<open>Text\<close>

definition console_cursor_of :: "console \<Rightarrow> console_cursor" where
  "console_cursor_of cn = \<lparr>cc_column = cn_cursor_column cn, cc_row = cn_cursor_row cn\<rparr>"

definition scroll_up :: console_op where
  "scroll_up cn =
     (let top = min PADDING_Y (cn_visible_height cn); bottom = cn_visible_height cn - PADDING_Y in
      if bottom \<le> top then Ok (console_clear cn)
      else if bottom - top \<le> GLYPH_ADVANCE_Y then clear_band top bottom cn
      else let stride = cn_stride cn; shift = GLYPH_ADVANCE_Y in
        and_then (copy_within (cn_pixels cn) ((top + shift) * stride) (bottom * stride) (top * stride)) (\<lambda>pixels.
        and_then (copy_within (cn_row_lengths cn) 1 (cn_rows cn) 0) (\<lambda>lengths.
        and_then (store lengths (cn_rows cn - 1) 0) (\<lambda>lengths.
          clear_band (bottom - shift) bottom
            (cn\<lparr>cn_pixels := pixels, cn_row_lengths := lengths,
               cn_input_floor := map_option (\<lambda>floor. floor\<lparr>cc_row := cc_row floor - 1\<rparr>) (cn_input_floor cn)\<rparr>)))))"

definition new_line :: console_op where
  "new_line cn =
     (let cn = cn\<lparr>cn_cursor_column := 0\<rparr> in
      if cn_rows cn \<le> cn_cursor_row cn + 1
      then and_then (scroll_up cn) (\<lambda>cn. Ok (cn\<lparr>cn_cursor_row := cn_rows cn - 1\<rparr>))
      else Ok (cn\<lparr>cn_cursor_row := cn_cursor_row cn + 1\<rparr>))"

definition console_write_byte :: "u8 \<Rightarrow> console_op" where
  "console_write_byte byte cn =
     and_then (if cn_columns cn \<le> cn_cursor_column cn then new_line cn else Ok cn) (\<lambda>cn.
       let origin_x = PADDING_X + cn_cursor_column cn * GLYPH_ADVANCE_X;
           origin_y = PADDING_Y + cn_cursor_row cn * GLYPH_ADVANCE_Y;
           cn = draw_glyph origin_x origin_y (glyph_for byte) (clear_glyph_area origin_x origin_y cn);
           cn = cn\<lparr>cn_cursor_column := cn_cursor_column cn + 1\<rparr>
       in and_then (index (cn_row_lengths cn) (cn_cursor_row cn)) (\<lambda>len.
          and_then (store (cn_row_lengths cn) (cn_cursor_row cn) (max len (cn_cursor_column cn))) (\<lambda>lengths.
            Ok (cn\<lparr>cn_row_lengths := lengths\<rparr>))))"

fun previous_in_rows :: "nat list \<Rightarrow> nat \<Rightarrow> (console_cursor option, unit) outcome" where
  "previous_in_rows lengths 0 = Ok None"
| "previous_in_rows lengths (Suc row) =
     and_then (index lengths row) (\<lambda>len.
       if 0 < len then Ok (Some \<lparr>cc_column = len - 1, cc_row = row\<rparr>) else previous_in_rows lengths row)"

definition previous_cursor_position :: "console \<Rightarrow> (console_cursor option, unit) outcome" where
  "previous_cursor_position cn =
     (if 0 < cn_cursor_column cn then Ok (Some \<lparr>cc_column = cn_cursor_column cn - 1, cc_row = cn_cursor_row cn\<rparr>)
      else previous_in_rows (cn_row_lengths cn) (cn_cursor_row cn))"

definition backspace_from_session :: "console \<Rightarrow> (bool \<times> console, unit) outcome" where
  "backspace_from_session cn =
     (case cn_input_floor cn of
        None \<Rightarrow> Ok (False, cn)
      | Some floor \<Rightarrow>
          if cn_cursor_row cn = cc_row floor \<and> cn_cursor_column cn = cc_column floor then Ok (False, cn)
          else and_then (previous_cursor_position cn) (\<lambda>target.
            case target of
              None \<Rightarrow> Ok (False, cn)
            | Some target \<Rightarrow>
                if cc_row target < cc_row floor \<or> cc_row target = cc_row floor \<and> cc_column target < cc_column floor
                then Ok (False, cn)
                else let cn = (clear_cell (cc_column target) (cc_row target) cn)
                           \<lparr>cn_cursor_column := cc_column target, cn_cursor_row := cc_row target\<rparr>
                     in and_then (store (cn_row_lengths cn) (cc_row target) (cc_column target)) (\<lambda>lengths.
                          Ok (True, cn\<lparr>cn_row_lengths := lengths\<rparr>))))"

definition console_begin_terminal_session :: "console \<Rightarrow> console" where
  "console_begin_terminal_session cn = cn\<lparr>cn_input_floor := Some (console_cursor_of cn)\<rparr>"

definition console_write_terminal_byte :: "u8 \<Rightarrow> console_op" where
  "console_write_terminal_byte byte cn =
     (if byte = 0x0a then new_line cn
      else if byte = 0x7f then and_then (backspace_from_session cn) (\<lambda>(_, cn). Ok cn)
      else console_write_byte byte cn)"

text \<open>\<^verbatim>\<open>write_str\<close> mirrors each byte to the serial line.\<close>

fun console_write_str :: "bytes \<Rightarrow> console \<times> io_state \<Rightarrow> (console \<times> io_state, unit) outcome" where
  "console_write_str [] w = Ok w"
| "console_write_str (byte # bytes) (cn, io) =
     and_then (console_write_terminal_byte byte cn) (\<lambda>cn. console_write_str bytes (cn, serial_write_byte byte io))"

section \<open>The global console\<close>

record console_cell =
  cl_initialized :: bool
  cl_locked :: bool
  cl_console :: console

definition console_init :: "framebuffer_info \<Rightarrow> u32 list \<Rightarrow> console_cell \<Rightarrow> console_cell" where
  "console_init framebuffer pixels cell =
     cell\<lparr>cl_console := console_new framebuffer DEFAULT_FOREGROUND DEFAULT_BACKGROUND pixels, cl_initialized := True\<rparr>"

text \<open>\<^verbatim>\<open>with_console\<close>: nothing happens before the initialization or while the console is in use; the guard is
  released when the operation returns.\<close>

definition with_console :: "console_op \<Rightarrow> console_cell \<Rightarrow> (console_cell, unit) outcome" where
  "with_console operation cell =
     (if \<not> cl_initialized cell \<or> cl_locked cell then Ok cell
      else and_then (operation (cl_console cell)) (\<lambda>cn. Ok (cell\<lparr>cl_console := cn\<rparr>)))"

definition global_clear :: "console_cell \<Rightarrow> (console_cell, unit) outcome" where
  "global_clear = with_console (\<lambda>cn. Ok (console_clear cn))"

definition global_begin_terminal_session :: "console_cell \<Rightarrow> (console_cell, unit) outcome" where
  "global_begin_terminal_session = with_console (\<lambda>cn. Ok (console_begin_terminal_session cn))"

definition global_write_terminal_byte :: "u8 \<Rightarrow> console_cell \<Rightarrow> (console_cell, unit) outcome" where
  "global_write_terminal_byte byte = with_console (console_write_terminal_byte byte)"

text \<open>The bytes a flush of the terminal hands over, one after the other.\<close>

fun console_write_terminal_bytes :: "bytes \<Rightarrow> console_op" where
  "console_write_terminal_bytes [] cn = Ok cn"
| "console_write_terminal_bytes (byte # bytes) cn =
     and_then (console_write_terminal_byte byte cn) (console_write_terminal_bytes bytes)"

end
