(* ===== verification/Console_Text.thy ===== *)
theory Console_Text
  imports Console
begin

text \<open>
  What is on the screen. The specification of the console is a list of lines of bytes, of which the last
  one is being written; \<open>shade\<close> says what color each pixel has when the screen shows these lines. Every
  console operation keeps the pixels in step with the lines, scrolling included.
\<close>

section \<open>The text machine\<close>

type_synonym screen_text = "bytes list \<times> console_cursor option"

definition text_new_line :: "nat \<Rightarrow> screen_text \<Rightarrow> screen_text" where
  "text_new_line rows = (\<lambda>(ls, floor).
     if length ls < rows then (ls @ [[]], floor)
     else (tl ls @ [[]], map_option (\<lambda>f. f\<lparr>cc_row := cc_row f - 1\<rparr>) floor))"

definition text_append :: "u8 \<Rightarrow> bytes list \<Rightarrow> bytes list" where
  "text_append byte ls = butlast ls @ [last ls @ [byte]]"

definition text_put :: "nat \<Rightarrow> nat \<Rightarrow> u8 \<Rightarrow> screen_text \<Rightarrow> screen_text" where
  "text_put rows columns byte t =
     (case if columns \<le> length (last (fst t)) then text_new_line rows t else t of
        (ls, floor) \<Rightarrow> (text_append byte ls, floor))"

definition text_cursor :: "bytes list \<Rightarrow> console_cursor" where
  "text_cursor ls = \<lparr>cc_column = length (last ls), cc_row = length ls - 1\<rparr>"

definition cursor_before :: "console_cursor \<Rightarrow> console_cursor \<Rightarrow> bool" where
  "cursor_before a b \<longleftrightarrow> cc_row a < cc_row b \<or> cc_row a = cc_row b \<and> cc_column a < cc_column b"

text \<open>Empty lines at the end are skipped, then the last byte goes, unless the floor is reached.\<close>

definition drop_empty :: "bytes list \<Rightarrow> bytes list" where
  "drop_empty ls = rev (dropWhile (\<lambda>l. l = []) (rev ls))"

definition text_backspace :: "screen_text \<Rightarrow> screen_text" where
  "text_backspace = (\<lambda>(ls, floor).
     case floor of
       None \<Rightarrow> (ls, floor)
     | Some f \<Rightarrow>
         if text_cursor ls = f then (ls, floor)
         else let ls' = drop_empty ls in
              if ls' = [] then (ls, floor)
              else let erased = butlast ls' @ [butlast (last ls')] in
                   if cursor_before (text_cursor erased) f then (ls, floor) else (erased, floor))"

definition text_byte :: "nat \<Rightarrow> nat \<Rightarrow> u8 \<Rightarrow> screen_text \<Rightarrow> screen_text" where
  "text_byte rows columns byte t =
     (if byte = 0x0a then text_new_line rows t else if byte = 0x7f then text_backspace t else text_put rows columns byte t)"

section \<open>Pixels of a text\<close>

definition lit :: "bytes list \<Rightarrow> nat \<Rightarrow> nat \<Rightarrow> bool" where
  "lit ls x y \<longleftrightarrow>
     PADDING_X \<le> x \<and> PADDING_Y \<le> y \<and>
     (let c = (x - PADDING_X) div GLYPH_ADVANCE_X; dx = (x - PADDING_X) mod GLYPH_ADVANCE_X;
          r = (y - PADDING_Y) div GLYPH_ADVANCE_Y; dy = (y - PADDING_Y) mod GLYPH_ADVANCE_Y
      in dx < GLYPH_WIDTH \<and> dy < GLYPH_HEIGHT \<and> r < length ls \<and> c < length (ls ! r) \<and> glyph_bit (ls ! r ! c) dy dx)"

definition shade :: "console \<Rightarrow> bytes list \<Rightarrow> nat \<Rightarrow> nat \<Rightarrow> u32" where
  "shade cn ls x y = encode_color cn (if x < cn_width cn \<and> lit ls x y then cn_foreground cn else cn_background cn)"

lemma encode_color_cong: "cn_framebuffer a = cn_framebuffer b \<Longrightarrow> encode_color a = encode_color b"
  by (simp add: encode_color_def fun_eq_iff)

lemma shade_cong:
  assumes "cn_framebuffer a = cn_framebuffer b" "cn_foreground a = cn_foreground b" "cn_background a = cn_background b"
  shows "shade a ls x y = shade b ls x y"
  unfolding shade_def encode_color_cong [OF assms(1)] assms ..

definition pixel_at :: "console \<Rightarrow> nat \<Rightarrow> nat \<Rightarrow> u32" where
  "pixel_at cn x y = cn_pixels cn ! (y * cn_stride cn + x)"

text \<open>The sizes \<^verbatim>\<open>new\<close> computes, for a screen with room for more than one line.\<close>

definition console_sized :: "console \<Rightarrow> bool" where
  "console_sized cn \<longleftrightarrow>
     cn_width cn \<le> cn_stride cn \<and> length (cn_pixels cn) = cn_visible_height cn * cn_stride cn \<and>
     0 < cn_columns cn \<and> cn_rows cn = min (usable_rows (cn_visible_height cn)) MAX_TRACKED_ROWS \<and>
     2 * PADDING_Y + GLYPH_ADVANCE_Y < cn_visible_height cn \<and> length (cn_row_lengths cn) = MAX_TRACKED_ROWS"

definition console_shows :: "console \<Rightarrow> screen_text \<Rightarrow> bool" where
  "console_shows cn = (\<lambda>(ls, floor).
     console_sized cn \<and> ls \<noteq> [] \<and> length ls \<le> cn_rows cn \<and> (\<forall>l \<in> set ls. length l \<le> cn_columns cn) \<and>
     console_cursor_of cn = text_cursor ls \<and> cn_input_floor cn = floor \<and>
     (\<forall>r < MAX_TRACKED_ROWS. cn_row_lengths cn ! r = (if r < length ls then length (ls ! r) else 0)) \<and>
     (\<forall>x y. x < cn_stride cn \<and> y < cn_visible_height cn \<longrightarrow> pixel_at cn x y = shade cn ls x y))"

text \<open>What no operation changes.\<close>

definition console_setup :: "console \<Rightarrow> framebuffer_info \<times> u32 \<times> u32 \<times> nat \<times> nat \<times> nat" where
  "console_setup cn = (cn_framebuffer cn, cn_foreground cn, cn_background cn, cn_visible_height cn, cn_columns cn, cn_rows cn)"

section \<open>Drawing\<close>

lemmas glyph_sizes = PADDING_X_def PADDING_Y_def GLYPH_ADVANCE_X_def GLYPH_ADVANCE_Y_def GLYPH_WIDTH_def GLYPH_HEIGHT_def

text \<open>Two consoles that differ in their pixels only.\<close>

definition same_but_pixels :: "console \<Rightarrow> console \<Rightarrow> bool" where
  "same_but_pixels cn cn' \<longleftrightarrow> cn' = cn\<lparr>cn_pixels := cn_pixels cn'\<rparr> \<and> length (cn_pixels cn') = length (cn_pixels cn)"

lemma same_but_pixels_refl [simp]: "same_but_pixels cn cn"
  by (simp add: same_but_pixels_def)

lemma same_but_pixels_trans: "same_but_pixels a b \<Longrightarrow> same_but_pixels b c \<Longrightarrow> same_but_pixels a c"
  unfolding same_but_pixels_def by (cases a; cases b; cases c) simp

lemma same_but_pixels_fields:
  assumes "same_but_pixels cn cn'"
  shows "cn_framebuffer cn' = cn_framebuffer cn" "cn_foreground cn' = cn_foreground cn" "cn_background cn' = cn_background cn"
    "cn_visible_height cn' = cn_visible_height cn" "cn_columns cn' = cn_columns cn" "cn_rows cn' = cn_rows cn"
    "cn_cursor_column cn' = cn_cursor_column cn" "cn_cursor_row cn' = cn_cursor_row cn" "cn_row_lengths cn' = cn_row_lengths cn"
    "cn_input_floor cn' = cn_input_floor cn" "length (cn_pixels cn') = length (cn_pixels cn)" "encode_color cn' = encode_color cn"
  using assms unfolding same_but_pixels_def encode_color_def fun_eq_iff by (cases cn; cases cn'; simp)+

lemma pixel_index:
  assumes "x < (s::nat)" "x' < s" shows "y * s + x = y' * s + x' \<longleftrightarrow> y = y' \<and> x = x'"
proof
  assume e: "y * s + x = y' * s + x'"
  from arg_cong [OF e, of "\<lambda>n. n div s"] arg_cong [OF e, of "\<lambda>n. n mod s"] show "y = y' \<and> x = x'" using assms by simp
qed simp

lemma pixel_bound: "x < (s::nat) \<Longrightarrow> y < h \<Longrightarrow> y * s + x < h * s"
proof -
  assume "x < s" "y < h"
  then have "Suc y * s \<le> h * s" by (intro mult_right_mono) simp_all
  with \<open>x < s\<close> show ?thesis by simp
qed

lemma put_pixel_at:
  assumes "cn_width cn \<le> cn_stride cn" "length (cn_pixels cn) = cn_visible_height cn * cn_stride cn"
  shows "same_but_pixels cn (put_pixel px py v cn)"
    and "x < cn_stride cn \<Longrightarrow> y < cn_visible_height cn \<Longrightarrow>
      pixel_at (put_pixel px py v cn) x y = (if px = x \<and> py = y \<and> x < cn_width cn then v else pixel_at cn x y)"
proof -
  show "same_but_pixels cn (put_pixel px py v cn)" by (simp add: put_pixel_def same_but_pixels_def Let_def)
  assume xy: "x < cn_stride cn" "y < cn_visible_height cn"
  show "pixel_at (put_pixel px py v cn) x y = (if px = x \<and> py = y \<and> x < cn_width cn then v else pixel_at cn x y)"
  proof (cases "cn_width cn \<le> px \<or> cn_visible_height cn \<le> py")
    case True
    with xy show ?thesis by (auto simp: put_pixel_def)
  next
    case False
    then have p: "px < cn_stride cn" "py < cn_visible_height cn" using assms(1) by auto
    have b: "py * cn_stride cn + px < length (cn_pixels cn)" "y * cn_stride cn + x < length (cn_pixels cn)"
      unfolding assms(2) using p xy by (simp_all add: pixel_bound)
    have "pixel_at (put_pixel px py v cn) x y = (cn_pixels cn)[py * cn_stride cn + px := v] ! (y * cn_stride cn + x)"
      using False b(1) by (simp add: put_pixel_def pixel_at_def Let_def)
    also have "\<dots> = (if py = y \<and> px = x then v else pixel_at cn x y)"
      using b pixel_index [OF p(1) xy(1)] by (simp add: nth_list_update pixel_at_def)
    finally show ?thesis using False by auto
  qed
qed

text \<open>A loop of such writes.\<close>

lemma paint_all:
  assumes "cn_width cn \<le> cn_stride cn" "length (cn_pixels cn) = cn_visible_height cn * cn_stride cn"
    and "cn' = fold (\<lambda>p cn. if P p then put_pixel (fx p) (fy p) v cn else cn) ps cn"
  shows "same_but_pixels cn cn'" "x < cn_stride cn \<Longrightarrow> y < cn_visible_height cn \<Longrightarrow>
    pixel_at cn' x y = (if x < cn_width cn \<and> (\<exists>p \<in> set ps. P p \<and> fx p = x \<and> fy p = y) then v else pixel_at cn x y)"
proof -
  have "same_but_pixels cn cn' \<and> (\<forall>x y. x < cn_stride cn \<longrightarrow> y < cn_visible_height cn \<longrightarrow>
    pixel_at cn' x y = (if x < cn_width cn \<and> (\<exists>p \<in> set ps. P p \<and> fx p = x \<and> fy p = y) then v else pixel_at cn x y))"
    using assms
  proof (induction ps arbitrary: cn)
    case (Cons p ps)
    let ?cn = "if P p then put_pixel (fx p) (fy p) v cn else cn"
    have s: "same_but_pixels cn ?cn" using put_pixel_at(1) [OF Cons.prems(1,2)] by simp
    note f = same_but_pixels_fields [OF s]
    have IH: "same_but_pixels ?cn cn'" "\<And>x y. x < cn_stride cn \<Longrightarrow> y < cn_visible_height cn \<Longrightarrow>
        pixel_at cn' x y = (if x < cn_width cn \<and> (\<exists>p \<in> set ps. P p \<and> fx p = x \<and> fy p = y) then v else pixel_at ?cn x y)"
      using Cons.IH [of ?cn] Cons.prems f by simp_all
    have here: "pixel_at ?cn x y = (if P p \<and> fx p = x \<and> fy p = y \<and> x < cn_width cn then v else pixel_at cn x y)"
      if "x < cn_stride cn" "y < cn_visible_height cn" for x y
      using put_pixel_at(2) [OF Cons.prems(1,2) that] by simp
    show ?case
    proof (intro conjI allI impI)
      show "same_but_pixels cn cn'" by (rule same_but_pixels_trans [OF s IH(1)])
      fix x y assume xy: "x < cn_stride cn" "y < cn_visible_height cn"
      show "pixel_at cn' x y = (if x < cn_width cn \<and> (\<exists>q \<in> set (p # ps). P q \<and> fx q = x \<and> fy q = y) then v else pixel_at cn x y)"
        unfolding IH(2) [OF xy] here [OF xy] by auto
    qed
  qed simp
  then show "same_but_pixels cn cn'" "x < cn_stride cn \<Longrightarrow> y < cn_visible_height cn \<Longrightarrow>
    pixel_at cn' x y = (if x < cn_width cn \<and> (\<exists>p \<in> set ps. P p \<and> fx p = x \<and> fy p = y) then v else pixel_at cn x y)" by blast+
qed

section \<open>Cells\<close>

definition in_cell :: "nat \<Rightarrow> nat \<Rightarrow> nat \<Rightarrow> nat \<Rightarrow> bool" where
  "in_cell r c x y \<longleftrightarrow> PADDING_X \<le> x \<and> PADDING_Y \<le> y \<and> (x - PADDING_X) div GLYPH_ADVANCE_X = c \<and>
     (y - PADDING_Y) div GLYPH_ADVANCE_Y = r \<and> (y - PADDING_Y) mod GLYPH_ADVANCE_Y < GLYPH_HEIGHT"

lemma cell_offsets:
  assumes "row < GLYPH_HEIGHT" "column < GLYPH_ADVANCE_X" "PADDING_X + c * GLYPH_ADVANCE_X + column = x" "PADDING_Y + r * GLYPH_ADVANCE_Y + row = y"
  shows "in_cell r c x y" "(x - PADDING_X) mod GLYPH_ADVANCE_X = column" "(y - PADDING_Y) mod GLYPH_ADVANCE_Y = row"
proof -
  have "x - PADDING_X = c * GLYPH_ADVANCE_X + column" "y - PADDING_Y = r * GLYPH_ADVANCE_Y + row" "row < GLYPH_ADVANCE_Y"
    using assms by (simp_all add: glyph_sizes)
  with assms show "in_cell r c x y" "(x - PADDING_X) mod GLYPH_ADVANCE_X = column" "(y - PADDING_Y) mod GLYPH_ADVANCE_Y = row"
    by (auto simp: in_cell_def)
qed

lemma cell_position:
  assumes "in_cell r c x y"
  shows "PADDING_X + c * GLYPH_ADVANCE_X + (x - PADDING_X) mod GLYPH_ADVANCE_X = x"
    "PADDING_Y + r * GLYPH_ADVANCE_Y + (y - PADDING_Y) mod GLYPH_ADVANCE_Y = y"
    "(x - PADDING_X) mod GLYPH_ADVANCE_X < GLYPH_ADVANCE_X" "(y - PADDING_Y) mod GLYPH_ADVANCE_Y < GLYPH_HEIGHT"
  using assms div_mult_mod_eq [of "x - PADDING_X" GLYPH_ADVANCE_X] div_mult_mod_eq [of "y - PADDING_Y" GLYPH_ADVANCE_Y]
  by (auto simp: in_cell_def glyph_sizes)

lemma clear_cell_at:
  assumes "cn_width cn \<le> cn_stride cn" "length (cn_pixels cn) = cn_visible_height cn * cn_stride cn"
  shows "same_but_pixels cn (clear_cell c r cn)"
    and "x < cn_stride cn \<Longrightarrow> y < cn_visible_height cn \<Longrightarrow>
      pixel_at (clear_cell c r cn) x y =
        (if x < cn_width cn \<and> in_cell r c x y then encode_color cn (cn_background cn) else pixel_at cn x y)"
proof -
  define ps where "ps = List.product [0..<GLYPH_HEIGHT] [0..<GLYPH_ADVANCE_X]"
  have eq: "clear_cell c r cn = fold (\<lambda>p cn. if True then put_pixel (PADDING_X + c * GLYPH_ADVANCE_X + snd p)
      (PADDING_Y + r * GLYPH_ADVANCE_Y + fst p) (encode_color cn0 (cn_background cn0)) cn else cn) ps cn" if "cn0 = cn" for cn0
    using that by (simp add: clear_cell_def clear_glyph_area_def ps_def case_prod_unfold Let_def)
  note paint = paint_all [OF assms eq [OF refl]]
  show "same_but_pixels cn (clear_cell c r cn)" by (rule paint(1))
  have "(\<exists>p \<in> set ps. PADDING_X + c * GLYPH_ADVANCE_X + snd p = x \<and> PADDING_Y + r * GLYPH_ADVANCE_Y + fst p = y) \<longleftrightarrow> in_cell r c x y" for x y
  proof
    assume "\<exists>p \<in> set ps. PADDING_X + c * GLYPH_ADVANCE_X + snd p = x \<and> PADDING_Y + r * GLYPH_ADVANCE_Y + fst p = y"
    then show "in_cell r c x y" using cell_offsets(1) by (auto simp: ps_def)
  next
    assume "in_cell r c x y"
    from cell_position [OF this]
    show "\<exists>p \<in> set ps. PADDING_X + c * GLYPH_ADVANCE_X + snd p = x \<and> PADDING_Y + r * GLYPH_ADVANCE_Y + fst p = y"
      by (intro bexI [of _ "((y - PADDING_Y) mod GLYPH_ADVANCE_Y, (x - PADDING_X) mod GLYPH_ADVANCE_X)"]) (simp_all add: ps_def)
  qed
  with paint(2) show "x < cn_stride cn \<Longrightarrow> y < cn_visible_height cn \<Longrightarrow>
      pixel_at (clear_cell c r cn) x y =
        (if x < cn_width cn \<and> in_cell r c x y then encode_color cn (cn_background cn) else pixel_at cn x y)" by simp
qed

definition glyph_pixel :: "u8 \<Rightarrow> nat \<Rightarrow> nat \<Rightarrow> bool" where
  "glyph_pixel byte x y \<longleftrightarrow> (x - PADDING_X) mod GLYPH_ADVANCE_X < GLYPH_WIDTH \<and>
     glyph_bit byte ((y - PADDING_Y) mod GLYPH_ADVANCE_Y) ((x - PADDING_X) mod GLYPH_ADVANCE_X)"

lemma draw_glyph_at:
  assumes "cn_width cn \<le> cn_stride cn" "length (cn_pixels cn) = cn_visible_height cn * cn_stride cn"
  defines "cn' \<equiv> \<lambda>byte r c. draw_glyph (PADDING_X + c * GLYPH_ADVANCE_X) (PADDING_Y + r * GLYPH_ADVANCE_Y) (glyph_for byte) cn"
  shows "same_but_pixels cn (cn' byte r c)"
    and "x < cn_stride cn \<Longrightarrow> y < cn_visible_height cn \<Longrightarrow>
      pixel_at (cn' byte r c) x y =
        (if x < cn_width cn \<and> in_cell r c x y \<and> glyph_pixel byte x y then encode_color cn (cn_foreground cn) else pixel_at cn x y)"
proof -
  define ps where "ps = List.product [0..<GLYPH_HEIGHT] [0..<GLYPH_WIDTH]"
  have eq: "cn' byte r c = fold (\<lambda>p cn. if glyph_bit byte (fst p) (snd p) then put_pixel (PADDING_X + c * GLYPH_ADVANCE_X + snd p)
      (PADDING_Y + r * GLYPH_ADVANCE_Y + fst p) (encode_color cn0 (cn_foreground cn0)) cn else cn) ps cn" if "cn0 = cn" for cn0
    unfolding that cn'_def draw_glyph_def Let_def glyph_for_length ps_def case_prod_unfold glyph_bit_def if_not_P
    by (rule arg_cong [where f = "\<lambda>f. fold f _ cn"]) (auto simp: fun_eq_iff)
  note paint = paint_all [OF assms(1,2) eq [OF refl]]
  show "same_but_pixels cn (cn' byte r c)" by (rule paint(1))
  have "(\<exists>p \<in> set ps. glyph_bit byte (fst p) (snd p) \<and> PADDING_X + c * GLYPH_ADVANCE_X + snd p = x \<and> PADDING_Y + r * GLYPH_ADVANCE_Y + fst p = y)
      \<longleftrightarrow> in_cell r c x y \<and> glyph_pixel byte x y" for x y
  proof (intro iffI conjI)
    assume "\<exists>p \<in> set ps. glyph_bit byte (fst p) (snd p) \<and> PADDING_X + c * GLYPH_ADVANCE_X + snd p = x \<and> PADDING_Y + r * GLYPH_ADVANCE_Y + fst p = y"
    then obtain row column where p: "row < GLYPH_HEIGHT" "column < GLYPH_WIDTH" "glyph_bit byte row column"
      "PADDING_X + c * GLYPH_ADVANCE_X + column = x" "PADDING_Y + r * GLYPH_ADVANCE_Y + row = y" by (auto simp: ps_def)
    then have "column < GLYPH_ADVANCE_X" by (simp add: glyph_sizes)
    note o = cell_offsets [OF p(1) this p(4,5)]
    show "in_cell r c x y" by (rule o(1))
    show "glyph_pixel byte x y" using o(2,3) p(2,3) by (simp add: glyph_pixel_def)
  next
    assume "in_cell r c x y \<and> glyph_pixel byte x y"
    then have g: "in_cell r c x y" "glyph_pixel byte x y" by blast+
    from cell_position [OF g(1)] g(2)
    show "\<exists>p \<in> set ps. glyph_bit byte (fst p) (snd p) \<and> PADDING_X + c * GLYPH_ADVANCE_X + snd p = x \<and> PADDING_Y + r * GLYPH_ADVANCE_Y + fst p = y"
      by (intro bexI [of _ "((y - PADDING_Y) mod GLYPH_ADVANCE_Y, (x - PADDING_X) mod GLYPH_ADVANCE_X)"])
        (simp_all add: ps_def glyph_pixel_def)
  qed
  with paint(2) show "x < cn_stride cn \<Longrightarrow> y < cn_visible_height cn \<Longrightarrow>
      pixel_at (cn' byte r c) x y =
        (if x < cn_width cn \<and> in_cell r c x y \<and> glyph_pixel byte x y then encode_color cn (cn_foreground cn) else pixel_at cn x y)" by simp
qed

text \<open>A pixel is lit when the byte whose cell it lies in has it.\<close>

definition byte_at :: "bytes list \<Rightarrow> nat \<Rightarrow> nat \<Rightarrow> u8 option" where
  "byte_at ls r c = (if r < length ls \<and> c < length (ls ! r) then Some (ls ! r ! c) else None)"

lemma lit_iff: "lit ls x y \<longleftrightarrow> (\<exists>r c byte. in_cell r c x y \<and> byte_at ls r c = Some byte \<and> glyph_pixel byte x y)"
  by (auto simp: lit_def in_cell_def byte_at_def glyph_pixel_def Let_def)

lemma in_cell_unique: "in_cell r c x y \<Longrightarrow> in_cell r' c' x y \<Longrightarrow> r' = r \<and> c' = c"
  by (simp add: in_cell_def)

lemma lit_cell: "in_cell r c x y \<Longrightarrow> lit ls x y \<longleftrightarrow> (case byte_at ls r c of None \<Rightarrow> False | Some byte \<Rightarrow> glyph_pixel byte x y)"
proof -
  assume c: "in_cell r c x y"
  have "lit ls x y \<longleftrightarrow> (\<exists>byte. byte_at ls r c = Some byte \<and> glyph_pixel byte x y)"
    unfolding lit_iff using c in_cell_unique by metis
  then show ?thesis by (simp split: option.split)
qed

lemma lit_cong:
  assumes "\<And>r c. in_cell r c x y \<Longrightarrow> byte_at ls r c = byte_at ls' r c"
  shows "lit ls x y = lit ls' x y"
  unfolding lit_iff using assms by metis

lemma text_append_at:
  assumes "ls \<noteq> []"
  shows "byte_at (text_append byte ls) r c =
    (if r = length ls - 1 \<and> c = length (last ls) then Some byte else byte_at ls r c)"
proof -
  obtain pre l where ls: "ls = pre @ [l]" using assms by (cases ls rule: rev_cases) auto
  show ?thesis by (auto simp: ls text_append_def byte_at_def nth_append less_Suc_eq)
qed

section \<open>The screen shows the text\<close>

lemmas shows_sized = console_shows_def console_sized_def

lemma write_cell_shows:
  assumes h: "console_shows cn (ls, floor)" and room: "length (last ls) < cn_columns cn"
  shows "\<exists>cn'. console_write_byte byte cn = Ok cn' \<and> console_shows cn' (text_append byte ls, floor) \<and>
    console_setup cn' = console_setup cn"
proof -
  let ?r = "length ls - 1" and ?c = "length (last ls)"
  have fit: "cn_width cn \<le> cn_stride cn" "length (cn_pixels cn) = cn_visible_height cn * cn_stride cn"
    and ls: "ls \<noteq> []" and cur: "cn_cursor_row cn = ?r" "cn_cursor_column cn = ?c"
    and rows: "length ls \<le> cn_rows cn" "cn_rows cn \<le> MAX_TRACKED_ROWS" "length (cn_row_lengths cn) = MAX_TRACKED_ROWS"
    using h by (auto simp: shows_sized console_cursor_of_def text_cursor_def)
  define cn1 where "cn1 = clear_cell ?c ?r cn"
  have s1: "same_but_pixels cn cn1" unfolding cn1_def by (rule clear_cell_at [OF fit])
  note f1 = same_but_pixels_fields [OF s1]
  define cn2 where "cn2 = draw_glyph (PADDING_X + ?c * GLYPH_ADVANCE_X) (PADDING_Y + ?r * GLYPH_ADVANCE_Y) (glyph_for byte) cn1"
  have fit1: "cn_width cn1 \<le> cn_stride cn1" "length (cn_pixels cn1) = cn_visible_height cn1 * cn_stride cn1" using fit f1 by simp_all
  have s2: "same_but_pixels cn1 cn2" unfolding cn2_def by (rule draw_glyph_at [OF fit1])
  note f2 = same_but_pixels_fields [OF s2]
  let ?cn = "cn2\<lparr>cn_cursor_column := ?c + 1, cn_row_lengths := (cn_row_lengths cn)[?r := ?c + 1]\<rparr>"
  have r: "?r < MAX_TRACKED_ROWS" "?r < length ls" using rows ls by (cases ls; simp)+
  have len: "cn_row_lengths cn ! ?r = ?c" using h r ls by (auto simp: console_shows_def last_conv_nth)
  have drawn: "draw_glyph (PADDING_X + ?c * GLYPH_ADVANCE_X) (PADDING_Y + ?r * GLYPH_ADVANCE_Y) (glyph_for byte)
      (clear_glyph_area (PADDING_X + ?c * GLYPH_ADVANCE_X) (PADDING_Y + ?r * GLYPH_ADVANCE_Y) cn) = cn2"
    by (simp add: cn1_def cn2_def clear_cell_def)
  have "console_write_byte byte cn = Ok ?cn"
    using room cur f1 f2 r(1) rows(3) len drawn by (simp add: console_write_byte_def index_def store_def Let_def)
  moreover have "pixel_at ?cn x y = shade ?cn (text_append byte ls) x y" if xy: "x < cn_stride cn" "y < cn_visible_height cn" for x y
  proof -
    have xy1: "x < cn_stride cn1" "y < cn_visible_height cn1" using xy f1 by simp_all
    have drawn2: "pixel_at cn2 x y = (if x < cn_width cn1 \<and> in_cell ?r ?c x y \<and> glyph_pixel byte x y
        then encode_color cn1 (cn_foreground cn1) else pixel_at cn1 x y)"
      unfolding cn2_def by (rule draw_glyph_at(2) [OF fit1 xy1])
    have cleared: "pixel_at cn1 x y = (if x < cn_width cn \<and> in_cell ?r ?c x y then encode_color cn (cn_background cn) else pixel_at cn x y)"
      unfolding cn1_def by (rule clear_cell_at(2) [OF fit xy])
    have old: "pixel_at cn x y = shade cn ls x y" using h xy by (simp add: console_shows_def)
    have "pixel_at ?cn x y = pixel_at cn2 x y" by (simp add: pixel_at_def)
    also have "\<dots> = (if x < cn_width cn \<and> in_cell ?r ?c x y
        then encode_color cn (if glyph_pixel byte x y then cn_foreground cn else cn_background cn) else shade cn ls x y)"
      unfolding drawn2 cleared f1 old by simp
    also have "\<dots> = shade cn (text_append byte ls) x y"
    proof (cases "in_cell ?r ?c x y")
      case True
      then show ?thesis by (simp add: shade_def lit_cell [OF True] text_append_at [OF ls])
    next
      case False
      have "lit (text_append byte ls) x y = lit ls x y"
        by (rule lit_cong) (use False in \<open>auto simp: text_append_at [OF ls]\<close>)
      with False show ?thesis by (simp add: shade_def)
    qed
    also have "\<dots> = shade ?cn (text_append byte ls) x y" by (rule shade_cong) (use f1 f2 in simp_all)
    finally show ?thesis .
  qed
  moreover have n: "length (text_append byte ls) = length ls" "last (text_append byte ls) = last ls @ [byte]" "text_append byte ls \<noteq> []"
    using ls by (simp_all add: text_append_def)
  moreover have lens: "length (text_append byte ls ! q) = (if q = ?r then ?c + 1 else length (ls ! q))" if "q < length ls" for q
    using ls that by (cases ls rule: rev_cases) (auto simp: text_append_def nth_append)
  moreover have "(cn_row_lengths cn)[?r := ?c + 1] ! q = (if q < length ls then length (text_append byte ls ! q) else 0)"
    if q: "q < MAX_TRACKED_ROWS" for q
  proof -
    have "cn_row_lengths cn ! q = (if q < length ls then length (ls ! q) else 0)" using h q by (simp add: console_shows_def)
    with lens [of q] q rows(3) r(2) show ?thesis by (simp add: nth_list_update)
  qed
  moreover have "\<forall>l \<in> set (text_append byte ls). length l \<le> cn_columns cn"
    using h room by (auto simp: text_append_def console_shows_def dest: in_set_butlastD)
  moreover have "console_sized ?cn" using h f1 f2 by (simp add: shows_sized)
  moreover have "console_cursor_of ?cn = text_cursor (text_append byte ls)" "cn_input_floor ?cn = floor" "cn_rows ?cn = cn_rows cn"
    "cn_columns ?cn = cn_columns cn" "cn_stride ?cn = cn_stride cn" "cn_visible_height ?cn = cn_visible_height cn"
    using h f1 f2 cur n by (simp_all add: console_shows_def console_cursor_of_def text_cursor_def)
  ultimately show ?thesis
    using rows(1) f1 f2 by (intro exI [of _ ?cn] conjI) (simp_all add: console_shows_def console_setup_def)
qed

section \<open>Scrolling\<close>

lemma row_order:
  assumes "x < (s::nat)"
  shows "a * s \<le> y * s + x \<longleftrightarrow> a \<le> y" "y * s + x < b * s \<longleftrightarrow> y < b"
proof -
  show lt: "y * s + x < b * s \<longleftrightarrow> y < b" for b
  proof
    assume "y * s + x < b * s"
    then have "y * s < b * s" by linarith
    then show "y < b" by simp
  qed (rule pixel_bound [OF assms])
  show "a * s \<le> y * s + x \<longleftrightarrow> a \<le> y" using lt [of a] by (simp add: not_less [symmetric])
qed

lemma overwrite_at:
  "a + length ys \<le> length xs \<Longrightarrow> i < length xs \<Longrightarrow>
   overwrite xs a ys ! i = (if a \<le> i \<and> i < a + length ys then ys ! (i - a) else xs ! i)"
  by (auto simp: overwrite_def nth_append)

lemma clear_band_from_at:
  assumes "length (cn_pixels cn) = cn_visible_height cn * cn_stride cn" "y0 + n \<le> cn_visible_height cn"
  shows "\<exists>cn'. clear_band_from y0 n cn = Ok cn' \<and> same_but_pixels cn cn' \<and>
    (\<forall>x y. x < cn_stride cn \<longrightarrow> y < cn_visible_height cn \<longrightarrow>
      pixel_at cn' x y = (if y0 \<le> y \<and> y < y0 + n then encode_color cn (cn_background cn) else pixel_at cn x y))"
  using assms
proof (induction n arbitrary: y0 cn)
  case (Suc n)
  let ?s = "cn_stride cn" and ?bg = "encode_color cn (cn_background cn)"
  let ?px = "overwrite (cn_pixels cn) (y0 * ?s) (replicate ?s ?bg)"
  let ?cn = "cn\<lparr>cn_pixels := ?px\<rparr>"
  have "(y0 + 1) * ?s \<le> cn_visible_height cn * ?s" using Suc.prems(2) by (intro mult_right_mono) simp_all
  then have in_range: "y0 * ?s + ?s \<le> length (cn_pixels cn)" using Suc.prems(1) by simp
  have s: "same_but_pixels cn ?cn" using in_range by (simp add: same_but_pixels_def)
  note f = same_but_pixels_fields [OF s]
  obtain cn' where cn': "clear_band_from (y0 + 1) n ?cn = Ok cn'" "same_but_pixels ?cn cn'"
    "\<And>x y. x < ?s \<Longrightarrow> y < cn_visible_height cn \<Longrightarrow>
      pixel_at cn' x y = (if y0 + 1 \<le> y \<and> y < y0 + 1 + n then ?bg else pixel_at ?cn x y)"
    using Suc.IH [of ?cn "y0 + 1"] Suc.prems f by auto
  have here: "pixel_at ?cn x y = (if y = y0 then ?bg else pixel_at cn x y)" if xy: "x < ?s" "y < cn_visible_height cn" for x y
  proof -
    have "y * ?s + x < length (cn_pixels cn)" using pixel_bound [OF xy] Suc.prems(1) by simp
    moreover have "y0 * ?s \<le> y * ?s + x \<and> y * ?s + x < y0 * ?s + ?s \<longleftrightarrow> y = y0"
      using row_order(1) [OF xy(1), of y0 y] row_order(2) [OF xy(1), of y "y0 + 1"] by auto
    ultimately show ?thesis using in_range by (auto simp: pixel_at_def overwrite_at)
  qed
  have "clear_band_from y0 (Suc n) cn = Ok cn'" using cn'(1) in_range by (simp add: fill_range_def)
  moreover have "pixel_at cn' x y = (if y0 \<le> y \<and> y < y0 + Suc n then ?bg else pixel_at cn x y)"
    if "x < ?s" "y < cn_visible_height cn" for x y
    unfolding cn'(3) [OF that] here [OF that] by auto
  ultimately show ?case using same_but_pixels_trans [OF s cn'(2)] by blast
qed auto

text \<open>The last line of text ends above the bottom padding.\<close>

lemma rows_fit:
  assumes "console_sized cn"
  shows "PADDING_Y + (cn_rows cn - 1) * GLYPH_ADVANCE_Y + GLYPH_HEIGHT \<le> cn_visible_height cn - PADDING_Y" "0 < cn_rows cn"
proof -
  let ?u = "cn_visible_height cn - PADDING_Y * 2 - GLYPH_HEIGHT"
  have h: "2 * PADDING_Y + GLYPH_ADVANCE_Y < cn_visible_height cn" "cn_rows cn = min (usable_rows (cn_visible_height cn)) MAX_TRACKED_ROWS"
    using assms by (simp_all add: console_sized_def)
  then have u: "usable_rows (cn_visible_height cn) = 1 + ?u div GLYPH_ADVANCE_Y"
    by (simp add: usable_rows_def glyph_sizes Let_def)
  then have "cn_rows cn - 1 \<le> ?u div GLYPH_ADVANCE_Y" using h(2) by simp
  then have "(cn_rows cn - 1) * GLYPH_ADVANCE_Y \<le> ?u div GLYPH_ADVANCE_Y * GLYPH_ADVANCE_Y" by (rule mult_right_mono) simp
  also have "\<dots> \<le> ?u" by simp
  finally show "PADDING_Y + (cn_rows cn - 1) * GLYPH_ADVANCE_Y + GLYPH_HEIGHT \<le> cn_visible_height cn - PADDING_Y"
    using h(1) by (simp add: glyph_sizes)
  show "0 < cn_rows cn" using h(2) u by (simp add: MAX_TRACKED_ROWS_def)
qed

lemma lit_row:
  assumes "lit ls x y"
  obtains r where "r < length ls" "ls ! r \<noteq> []" "PADDING_Y + r * GLYPH_ADVANCE_Y \<le> y" "y < PADDING_Y + r * GLYPH_ADVANCE_Y + GLYPH_HEIGHT"
proof -
  obtain r c byte where "in_cell r c x y" "byte_at ls r c = Some byte" using assms by (auto simp: lit_iff)
  then have "r < length ls" "ls ! r \<noteq> []" by (auto simp: byte_at_def split: if_splits)
  with cell_position(2,4) [OF \<open>in_cell r c x y\<close>] that [of r] show ?thesis by linarith
qed

lemma lit_scrolled:
  assumes "PADDING_Y \<le> y" "ls \<noteq> []"
  shows "lit ls x (y + GLYPH_ADVANCE_Y) = lit (tl ls @ [[]]) x y"
proof -
  obtain z where z: "y = PADDING_Y + z" using assms(1) le_Suc_ex by blast
  have shift: "y + GLYPH_ADVANCE_Y - PADDING_Y = GLYPH_ADVANCE_Y + z" "y - PADDING_Y = z" "PADDING_Y \<le> y + GLYPH_ADVANCE_Y"
    by (simp_all add: z)
  have c: "in_cell r' c x (y + GLYPH_ADVANCE_Y) \<longleftrightarrow> (\<exists>r. r' = Suc r \<and> in_cell r c x y)" for r' c
  proof -
    have "(GLYPH_ADVANCE_Y + z) div GLYPH_ADVANCE_Y = Suc (z div GLYPH_ADVANCE_Y)" by (simp add: glyph_sizes)
    then show ?thesis unfolding in_cell_def shift using assms(1) by auto
  qed
  have "byte_at (tl ls @ [[]]) r c = byte_at ls (Suc r) c" for r c
    using assms(2) by (cases ls) (auto simp: byte_at_def nth_append)
  moreover have "glyph_pixel byte x (y + GLYPH_ADVANCE_Y) = glyph_pixel byte x y" for byte
    unfolding glyph_pixel_def shift by simp
  ultimately show ?thesis unfolding lit_iff c by metis
qed

text \<open>The pixels after a scroll.\<close>

lemma scrolled_pixels:
  assumes h: "console_shows cn (ls, floor)" and full: "length ls = cn_rows cn"
    and xy: "x < cn_stride cn" "y < cn_visible_height cn"
  shows "(if cn_visible_height cn - PADDING_Y - GLYPH_ADVANCE_Y \<le> y \<and> y < cn_visible_height cn - PADDING_Y then encode_color cn (cn_background cn)
     else if PADDING_Y \<le> y \<and> y < cn_visible_height cn - PADDING_Y - GLYPH_ADVANCE_Y then pixel_at cn x (y + GLYPH_ADVANCE_Y)
     else pixel_at cn x y) = shade cn (tl ls @ [[]]) x y"
proof -
  let ?bottom = "cn_visible_height cn - PADDING_Y" and ?ls = "tl ls @ [[]]"
  have sized: "console_sized cn" and ls: "ls \<noteq> []" and px: "\<And>x y. x < cn_stride cn \<Longrightarrow> y < cn_visible_height cn \<Longrightarrow> pixel_at cn x y = shade cn ls x y"
    using h by (auto simp: console_shows_def)
  note fit = rows_fit [OF sized]
  have low: "y < PADDING_Y + (cn_rows cn - 1) * GLYPH_ADVANCE_Y + GLYPH_HEIGHT - GLYPH_ADVANCE_Y" if l: "lit ?ls x y" for x y
  proof -
    obtain r where r: "r < length ?ls" "?ls ! r \<noteq> []" "y < PADDING_Y + r * GLYPH_ADVANCE_Y + GLYPH_HEIGHT" using lit_row [OF l] by metis
    then have "r \<noteq> length ls - 1" using ls by (auto simp: nth_append)
    then have "r + 1 \<le> cn_rows cn - 1" using r(1) full ls by (simp add: less_Suc_eq Suc_le_eq)
    then have "(r + 1) * GLYPH_ADVANCE_Y \<le> (cn_rows cn - 1) * GLYPH_ADVANCE_Y" by (rule mult_right_mono) simp
    with r(3) show ?thesis by (simp add: glyph_sizes)
  qed
  consider "?bottom - GLYPH_ADVANCE_Y \<le> y" "y < ?bottom" | "PADDING_Y \<le> y" "y < ?bottom - GLYPH_ADVANCE_Y" | "y < PADDING_Y" "y < ?bottom - GLYPH_ADVANCE_Y" | "?bottom \<le> y"
    by linarith
  then show ?thesis
  proof cases
    case 1
    then have "\<not> lit ?ls x y" using low [of x y] fit(1) by (auto simp: glyph_sizes)
    with 1 show ?thesis by (simp add: shade_def)
  next
    case 2
    then have "y + GLYPH_ADVANCE_Y < cn_visible_height cn" by (simp add: glyph_sizes)
    with 2 px [OF xy(1) this] lit_scrolled [OF 2(1) ls] show ?thesis by (simp add: shade_def)
  next
    case 3
    then have "\<not> lit ?ls x y" "\<not> lit ls x y" by (simp_all add: lit_def)
    with 3 px [OF xy] show ?thesis by (simp add: shade_def)
  next
    case 4
    have "\<not> lit ?ls x y" using low [of x y] fit(1) 4 by (auto simp: glyph_sizes)
    moreover have "\<not> lit ls x y"
    proof
      assume "lit ls x y"
      then obtain r where r: "r < length ls" "y < PADDING_Y + r * GLYPH_ADVANCE_Y + GLYPH_HEIGHT" using lit_row by metis
      then have "r * GLYPH_ADVANCE_Y \<le> (cn_rows cn - 1) * GLYPH_ADVANCE_Y" using full by (intro mult_right_mono) simp_all
      with r(2) fit(1) 4 show False by linarith
    qed
    moreover have "PADDING_Y \<le> y" "\<not> y < ?bottom - GLYPH_ADVANCE_Y" using 4 fit(1) by (simp_all add: glyph_sizes)
    ultimately show ?thesis using 4 px [OF xy] by (simp add: shade_def)
  qed
qed

text \<open>Moving whole rows of a list that holds a grid.\<close>

lemma copy_rows_at:
  fixes xs :: "'a list" and s :: nat
  assumes len: "length xs = h * s" and b: "tp + shift \<le> bottom" "bottom \<le> h"
  obtains ys where "copy_within xs ((tp + shift) * s) (bottom * s) (tp * s) = (Ok ys :: ('a list, unit) outcome)" "length ys = length xs"
    "\<And>x y. x < s \<Longrightarrow> y < h \<Longrightarrow>
      ys ! (y * s + x) = (if tp \<le> y \<and> y < bottom - shift then xs ! ((y + shift) * s + x) else xs ! (y * s + x))"
proof -
  define n where "n = bottom - shift - tp"
  have bn: "bottom = tp + shift + n" using b by (simp add: n_def)
  have n: "bottom * s - (tp + shift) * s = n * s" "(tp + shift) * s \<le> bottom * s" "bottom * s \<le> length xs" "tp * s + n * s \<le> length xs"
    unfolding len bn using b(2) mult_le_mono1 [of "tp + shift + n" h s] by (auto simp: bn algebra_simps)
  let ?mid = "take (n * s) (drop ((tp + shift) * s) xs)"
  have mid: "length ?mid = n * s" using n(3) unfolding bn by (simp add: algebra_simps)
  show ?thesis
  proof (rule that [of "overwrite xs (tp * s) ?mid"])
    show "copy_within xs ((tp + shift) * s) (bottom * s) (tp * s) = (Ok (overwrite xs (tp * s) ?mid) :: ('a list, unit) outcome)"
      using n by (simp add: copy_within_def)
    show "length (overwrite xs (tp * s) ?mid) = length xs" using n(4) mid by simp
  next
    fix x y assume xy: "x < s" "y < h"
    let ?i = "y * s + x"
    have i: "?i < length xs" unfolding len by (rule pixel_bound [OF xy])
    have range: "tp * s \<le> ?i \<and> ?i < tp * s + n * s \<longleftrightarrow> tp \<le> y \<and> y < bottom - shift"
      using row_order(1) [OF xy(1), of tp y] row_order(2) [OF xy(1), of y "tp + n"] unfolding bn by (simp add: algebra_simps)
    have val: "?mid ! (?i - tp * s) = xs ! ((y + shift) * s + x)" if t: "tp * s \<le> ?i" "?i < tp * s + n * s"
    proof -
      have "(tp + shift) * s + (?i - tp * s) = (y + shift) * s + x" using t by (simp add: algebra_simps)
      moreover have "?i - tp * s < n * s" using t by linarith
      ultimately show ?thesis using n(3) unfolding bn by (simp add: algebra_simps)
    qed
    have "overwrite xs (tp * s) ?mid ! ?i = (if tp * s \<le> ?i \<and> ?i < tp * s + n * s then ?mid ! (?i - tp * s) else xs ! ?i)"
      using overwrite_at [of "tp * s" ?mid xs ?i] n(4) i unfolding mid by blast
    also have "\<dots> = (if tp \<le> y \<and> y < bottom - shift then xs ! ((y + shift) * s + x) else xs ! ?i)"
      by (rule if_cong [OF range]) (use val range in blast)+
    finally show "overwrite xs (tp * s) ?mid ! ?i = (if tp \<le> y \<and> y < bottom - shift then xs ! ((y + shift) * s + x) else xs ! ?i)" .
  qed
qed

lemma copy_lengths_at:
  assumes "0 < rows" "rows \<le> length (xs :: nat list)"
  obtains ys where "and_then (copy_within xs 1 rows 0) (\<lambda>l. store l (rows - 1) 0) = (Ok ys :: (nat list, unit) outcome)" "length ys = length xs"
    "\<And>q. q < length xs \<Longrightarrow> ys ! q = (if q < rows - 1 then xs ! (q + 1) else if q = rows - 1 then 0 else xs ! q)"
proof -
  let ?ys = "(overwrite xs 0 (take (rows - 1) (drop 1 xs)))[rows - 1 := 0]"
  show ?thesis
  proof (rule that [of ?ys])
    show "and_then (copy_within xs 1 rows 0) (\<lambda>l. store l (rows - 1) 0) = (Ok ?ys :: (nat list, unit) outcome)"
      using assms by (simp add: copy_within_def store_def)
    show "length ?ys = length xs" using assms by simp
    fix q assume "q < length xs"
    with assms show "?ys ! q = (if q < rows - 1 then xs ! (q + 1) else if q = rows - 1 then 0 else xs ! q)"
      by (simp add: nth_list_update overwrite_at)
  qed
qed

text \<open>What \<^verbatim>\<open>scroll_up\<close> does to a screen with room for more than one line.\<close>

lemma scroll_up_at:
  assumes sized: "console_sized cn"
  obtains cn' where "scroll_up cn = Ok cn'"
    "cn' = cn\<lparr>cn_pixels := cn_pixels cn', cn_row_lengths := cn_row_lengths cn',
       cn_input_floor := map_option (\<lambda>f. f\<lparr>cc_row := cc_row f - 1\<rparr>) (cn_input_floor cn)\<rparr>"
    "length (cn_pixels cn') = length (cn_pixels cn)" "length (cn_row_lengths cn') = length (cn_row_lengths cn)"
    "\<And>q. q < MAX_TRACKED_ROWS \<Longrightarrow> cn_row_lengths cn' ! q =
      (if q < cn_rows cn - 1 then cn_row_lengths cn ! (q + 1) else if q = cn_rows cn - 1 then 0 else cn_row_lengths cn ! q)"
    "\<And>x y. x < cn_stride cn \<Longrightarrow> y < cn_visible_height cn \<Longrightarrow> pixel_at cn' x y =
      (if cn_visible_height cn - PADDING_Y - GLYPH_ADVANCE_Y \<le> y \<and> y < cn_visible_height cn - PADDING_Y then encode_color cn (cn_background cn)
       else if PADDING_Y \<le> y \<and> y < cn_visible_height cn - PADDING_Y - GLYPH_ADVANCE_Y then pixel_at cn x (y + GLYPH_ADVANCE_Y)
       else pixel_at cn x y)"
proof -
  let ?bottom = "cn_visible_height cn - PADDING_Y" and ?s = "cn_stride cn"
  let ?floor = "map_option (\<lambda>f. f\<lparr>cc_row := cc_row f - 1\<rparr>) (cn_input_floor cn)"
  have len: "length (cn_pixels cn) = cn_visible_height cn * ?s" "length (cn_row_lengths cn) = MAX_TRACKED_ROWS" "cn_rows cn \<le> MAX_TRACKED_ROWS"
    and high: "2 * PADDING_Y + GLYPH_ADVANCE_Y < cn_visible_height cn" "0 < cn_rows cn"
    using sized rows_fit(2) [OF sized] by (simp_all add: console_sized_def)
  have geo: "min PADDING_Y (cn_visible_height cn) = PADDING_Y" "\<not> ?bottom \<le> PADDING_Y" "\<not> ?bottom - PADDING_Y \<le> GLYPH_ADVANCE_Y"
    "PADDING_Y + GLYPH_ADVANCE_Y \<le> ?bottom" "?bottom \<le> cn_visible_height cn" "?bottom - (?bottom - GLYPH_ADVANCE_Y) = GLYPH_ADVANCE_Y"
    "?bottom - GLYPH_ADVANCE_Y + GLYPH_ADVANCE_Y = ?bottom"
    using high(1) by (auto simp: glyph_sizes)
  obtain px where px: "copy_within (cn_pixels cn) ((PADDING_Y + GLYPH_ADVANCE_Y) * ?s) (?bottom * ?s) (PADDING_Y * ?s) = (Ok px :: (u32 list, unit) outcome)"
    "length px = length (cn_pixels cn)" "\<And>x y. x < ?s \<Longrightarrow> y < cn_visible_height cn \<Longrightarrow> px ! (y * ?s + x) =
      (if PADDING_Y \<le> y \<and> y < ?bottom - GLYPH_ADVANCE_Y then cn_pixels cn ! ((y + GLYPH_ADVANCE_Y) * ?s + x) else cn_pixels cn ! (y * ?s + x))"
    by (rule copy_rows_at [OF len(1) geo(4,5)], rule that)
  obtain rl where rl: "and_then (copy_within (cn_row_lengths cn) 1 (cn_rows cn) 0) (\<lambda>l. store l (cn_rows cn - 1) 0) = (Ok rl :: (nat list, unit) outcome)"
    "length rl = length (cn_row_lengths cn)" "\<And>q. q < length (cn_row_lengths cn) \<Longrightarrow> rl ! q =
      (if q < cn_rows cn - 1 then cn_row_lengths cn ! (q + 1) else if q = cn_rows cn - 1 then 0 else cn_row_lengths cn ! q)"
    using copy_lengths_at [of "cn_rows cn" "cn_row_lengths cn"] high(2) len(2,3) by metis
  let ?cn = "cn\<lparr>cn_pixels := px, cn_row_lengths := rl, cn_input_floor := ?floor\<rparr>"
  obtain cn' where cn': "clear_band_from (?bottom - GLYPH_ADVANCE_Y) GLYPH_ADVANCE_Y ?cn = Ok cn'" "same_but_pixels ?cn cn'"
    "\<And>x y. x < ?s \<Longrightarrow> y < cn_visible_height cn \<Longrightarrow> pixel_at cn' x y =
      (if ?bottom - GLYPH_ADVANCE_Y \<le> y \<and> y < ?bottom then encode_color ?cn (cn_background ?cn) else pixel_at ?cn x y)"
    using clear_band_from_at [of ?cn "?bottom - GLYPH_ADVANCE_Y" GLYPH_ADVANCE_Y] len(1) px(2) geo(5,7) by auto
  have scroll: "scroll_up cn = and_then (and_then (copy_within (cn_row_lengths cn) 1 (cn_rows cn) 0) (\<lambda>l. store l (cn_rows cn - 1) 0)) (\<lambda>rl.
      clear_band (?bottom - GLYPH_ADVANCE_Y) ?bottom (cn\<lparr>cn_pixels := px, cn_row_lengths := rl, cn_input_floor := ?floor\<rparr>))"
    unfolding scroll_up_def Let_def geo(1) using geo(2,3) px(1) by (simp add: and_then_assoc)
  show ?thesis
  proof (rule that [of cn'])
    show "scroll_up cn = Ok cn'" unfolding scroll rl(1) and_then.simps clear_band_def geo(6) by (rule cn'(1))
    show "cn' = cn\<lparr>cn_pixels := cn_pixels cn', cn_row_lengths := cn_row_lengths cn', cn_input_floor := ?floor\<rparr>"
      using cn'(2) unfolding same_but_pixels_def by (cases cn; cases cn') simp
    show "length (cn_pixels cn') = length (cn_pixels cn)" "length (cn_row_lengths cn') = length (cn_row_lengths cn)"
      using same_but_pixels_fields [OF cn'(2)] px(2) rl(2) by simp_all
    show "cn_row_lengths cn' ! q = (if q < cn_rows cn - 1 then cn_row_lengths cn ! (q + 1) else if q = cn_rows cn - 1 then 0 else cn_row_lengths cn ! q)"
      if "q < MAX_TRACKED_ROWS" for q using same_but_pixels_fields(9) [OF cn'(2)] rl(3) [of q] len(2) that by simp
  next
    fix x y assume xy: "x < ?s" "y < cn_visible_height cn"
    have "pixel_at ?cn x y = (if PADDING_Y \<le> y \<and> y < ?bottom - GLYPH_ADVANCE_Y then pixel_at cn x (y + GLYPH_ADVANCE_Y) else pixel_at cn x y)"
      using px(3) [OF xy] by (simp add: pixel_at_def)
    moreover have "encode_color ?cn (cn_background ?cn) = encode_color cn (cn_background cn)" using encode_color_cong [of ?cn cn] by simp
    ultimately show "pixel_at cn' x y = (if ?bottom - GLYPH_ADVANCE_Y \<le> y \<and> y < ?bottom then encode_color cn (cn_background cn)
       else if PADDING_Y \<le> y \<and> y < ?bottom - GLYPH_ADVANCE_Y then pixel_at cn x (y + GLYPH_ADVANCE_Y) else pixel_at cn x y)"
      using cn'(3) [OF xy] by simp
  qed
qed

lemma byte_at_snoc_empty: "byte_at (ls @ [[]]) r c = byte_at ls r c"
  by (auto simp: byte_at_def nth_append)

lemma console_showsD:
  assumes "console_shows cn (ls, floor)"
  shows "console_sized cn" "ls \<noteq> []" "length ls \<le> cn_rows cn" "\<forall>l \<in> set ls. length l \<le> cn_columns cn"
    "cn_input_floor cn = floor" "cn_cursor_row cn = length ls - 1" "cn_cursor_column cn = length (last ls)"
    "r < MAX_TRACKED_ROWS \<Longrightarrow> cn_row_lengths cn ! r = (if r < length ls then length (ls ! r) else 0)"
    "x < cn_stride cn \<Longrightarrow> y < cn_visible_height cn \<Longrightarrow> pixel_at cn x y = shade cn ls x y"
  using assms by (auto simp: console_shows_def console_cursor_of_def text_cursor_def)

lemma new_line_below:
  assumes h: "console_shows cn (ls, floor)" and True: "length ls < cn_rows cn"
  shows "\<exists>cn'. new_line cn = Ok cn' \<and> console_shows cn' (text_new_line (cn_rows cn) (ls, floor)) \<and>
    console_setup cn' = console_setup cn"
proof -
  note sized = console_showsD(1) [OF h] and ls = console_showsD(2-4) [OF h] and fl = console_showsD(5) [OF h]
    and cur = console_showsD(6) [OF h] and rl = console_showsD(8) [OF h] and px = console_showsD(9) [OF h]
  let ?cn = "cn\<lparr>cn_cursor_column := 0, cn_cursor_row := cn_cursor_row cn + 1\<rparr>"
  have "new_line cn = Ok ?cn" using True ls(1) cur by (cases ls) (simp_all add: new_line_def)
  moreover have "lit (ls @ [[]]) x y = lit ls x y" for x y by (rule lit_cong) (simp add: byte_at_snoc_empty)
  then have "pixel_at ?cn x y = shade ?cn (ls @ [[]]) x y" if "x < cn_stride cn" "y < cn_visible_height cn" for x y
    using px [OF that] encode_color_cong [of ?cn cn] by (simp add: pixel_at_def shade_def)
  moreover have "console_sized ?cn" using sized by (simp add: console_sized_def)
  ultimately show ?thesis
    using True ls fl cur rl
    by (auto simp: console_shows_def console_setup_def text_new_line_def console_cursor_of_def text_cursor_def nth_append less_Suc_eq)
qed

lemma new_line_scrolls:
  assumes h: "console_shows cn (ls, floor)" and False: "\<not> length ls < cn_rows cn"
  shows "\<exists>cn'. new_line cn = Ok cn' \<and> console_shows cn' (text_new_line (cn_rows cn) (ls, floor)) \<and>
    console_setup cn' = console_setup cn"
proof -
  note sized = console_showsD(1) [OF h] and ls = console_showsD(2-4) [OF h] and fl = console_showsD(5) [OF h]
    and cur = console_showsD(6) [OF h] and rl = console_showsD(8) [OF h] and px = console_showsD(9) [OF h]
  let ?cn = "cn\<lparr>cn_cursor_column := 0\<rparr>"
  have s: "console_sized ?cn" using sized by (simp add: console_sized_def)
  obtain cn' where cn': "scroll_up ?cn = Ok cn'" "cn' = ?cn\<lparr>cn_pixels := cn_pixels cn', cn_row_lengths := cn_row_lengths cn',
       cn_input_floor := map_option (\<lambda>f. f\<lparr>cc_row := cc_row f - 1\<rparr>) (cn_input_floor ?cn)\<rparr>"
    "length (cn_pixels cn') = length (cn_pixels ?cn)" "length (cn_row_lengths cn') = length (cn_row_lengths ?cn)"
    "\<And>q. q < MAX_TRACKED_ROWS \<Longrightarrow> cn_row_lengths cn' ! q =
      (if q < cn_rows ?cn - 1 then cn_row_lengths ?cn ! (q + 1) else if q = cn_rows ?cn - 1 then 0 else cn_row_lengths ?cn ! q)"
    "\<And>x y. x < cn_stride ?cn \<Longrightarrow> y < cn_visible_height ?cn \<Longrightarrow> pixel_at cn' x y =
      (if cn_visible_height ?cn - PADDING_Y - GLYPH_ADVANCE_Y \<le> y \<and> y < cn_visible_height ?cn - PADDING_Y then encode_color ?cn (cn_background ?cn)
       else if PADDING_Y \<le> y \<and> y < cn_visible_height ?cn - PADDING_Y - GLYPH_ADVANCE_Y then pixel_at ?cn x (y + GLYPH_ADVANCE_Y)
       else pixel_at ?cn x y)"
    by (rule scroll_up_at [OF s], rule that)
  have full: "length ls = cn_rows cn" "cn_rows cn \<le> MAX_TRACKED_ROWS" using False ls(2) sized by (simp_all add: console_sized_def)
  have f: "cn_framebuffer cn' = cn_framebuffer cn" "cn_foreground cn' = cn_foreground cn" "cn_background cn' = cn_background cn"
    "cn_visible_height cn' = cn_visible_height cn" "cn_columns cn' = cn_columns cn" "cn_rows cn' = cn_rows cn" "cn_cursor_column cn' = 0"
    "cn_input_floor cn' = map_option (\<lambda>f. f\<lparr>cc_row := cc_row f - 1\<rparr>) floor"
    using arg_cong [OF cn'(2), of cn_framebuffer] arg_cong [OF cn'(2), of cn_foreground] arg_cong [OF cn'(2), of cn_background]
      arg_cong [OF cn'(2), of cn_visible_height] arg_cong [OF cn'(2), of cn_columns] arg_cong [OF cn'(2), of cn_rows]
      arg_cong [OF cn'(2), of cn_cursor_column] arg_cong [OF cn'(2), of cn_input_floor] fl by simp_all
  let ?cn' = "cn'\<lparr>cn_cursor_row := cn_rows cn' - 1\<rparr>" and ?ls = "tl ls @ [[]]"
  have "new_line cn = Ok ?cn'" using False cn'(1) ls cur by (simp add: new_line_def Let_def)
  moreover have "pixel_at ?cn' x y = shade ?cn' ?ls x y" if xy: "x < cn_stride cn" "y < cn_visible_height cn" for x y
  proof -
    have fields: "cn_visible_height ?cn = cn_visible_height cn" "cn_framebuffer ?cn = cn_framebuffer cn" "cn_background ?cn = cn_background cn"
      "encode_color ?cn = encode_color cn" using encode_color_cong [of ?cn cn] by simp_all
    have same: "pixel_at ?cn x y = pixel_at cn x y" for x y by (simp add: pixel_at_def)
    have "pixel_at ?cn' x y = pixel_at cn' x y" by (simp add: pixel_at_def)
    also have "\<dots> = shade cn ?ls x y"
      using cn'(6) [of x y] xy unfolding same fields by (simp only: scrolled_pixels [OF h full(1) xy])
    also have "\<dots> = shade ?cn' ?ls x y" by (rule shade_cong) (simp_all add: f)
    finally show ?thesis .
  qed
  moreover have "cn_row_lengths cn' ! q = (if q < length ?ls then length (?ls ! q) else 0)" if q: "q < MAX_TRACKED_ROWS" for q
  proof -
    have "cn_row_lengths cn' ! q = (if q < length ls - 1 then cn_row_lengths cn ! (q + 1) else if q = length ls - 1 then 0 else cn_row_lengths cn ! q)"
      using cn'(5) [OF q] full(1) by simp
    then show ?thesis using rl [of q] rl [of "q + 1"] q full ls(1) by (auto simp: nth_append nth_tl)
  qed
  moreover have "console_sized ?cn'" using sized f cn'(3,4) by (simp add: console_sized_def)
  moreover have "\<forall>l \<in> set ?ls. length l \<le> cn_columns cn" using ls(1,3) by (auto dest: list.set_sel(2))
  moreover have "console_cursor_of ?cn' = text_cursor ?ls" "length ?ls \<le> cn_rows cn"
    using f full(1) [symmetric] ls(1) by (cases ls; simp add: console_cursor_of_def text_cursor_def)+
  ultimately show ?thesis
    using False f by (intro exI [of _ ?cn'] conjI) (simp_all add: console_shows_def console_setup_def text_new_line_def)
qed

lemma new_line_shows:
  assumes "console_shows cn (ls, floor)"
  shows "\<exists>cn'. new_line cn = Ok cn' \<and> console_shows cn' (text_new_line (cn_rows cn) (ls, floor)) \<and>
    console_setup cn' = console_setup cn"
  using new_line_below [OF assms] new_line_scrolls [OF assms] by blast

section \<open>Backspace\<close>

lemma drop_empty_snoc [simp]: "drop_empty (ls @ [l]) = (if l = [] then drop_empty ls else ls @ [l])"
  by (simp add: drop_empty_def)

lemma drop_empty_Nil [simp]: "drop_empty [] = []"
  by (simp add: drop_empty_def)

lemma drop_empty_split: "\<exists>k. ls = drop_empty ls @ replicate k []"
proof (induction ls rule: rev_induct)
  case (snoc l ls)
  then obtain k where k: "ls = drop_empty ls @ replicate k []" by blast
  show ?case
  proof (cases "l = []")
    case True
    have "ls @ [[]] = (drop_empty ls @ replicate k []) @ [[]]" by (rule arg_cong [OF k])
    also have "\<dots> = drop_empty ls @ replicate (Suc k) []" by (simp add: replicate_append_same)
    finally have "ls @ [[]] = drop_empty ls @ replicate (Suc k) []" .
    moreover have "drop_empty (ls @ [l]) = drop_empty ls" using True by simp
    ultimately show ?thesis unfolding True by metis
  qed (auto intro: exI [of _ 0])
qed simp

lemma drop_empty_last: "drop_empty ls \<noteq> [] \<Longrightarrow> last (drop_empty ls) \<noteq> []"
  by (induction ls rule: rev_induct) auto

lemma previous_in_rows_text:
  assumes "n \<le> length ls" "n \<le> length rl" "\<And>r. r < n \<Longrightarrow> rl ! r = length (ls ! r)"
  shows "previous_in_rows rl n = Ok (let ls' = drop_empty (take n ls) in
    if ls' = [] then None else Some \<lparr>cc_column = length (last ls') - 1, cc_row = length ls' - 1\<rparr>)"
  using assms
proof (induction n)
  case (Suc n)
  then have "take (Suc n) ls = take n ls @ [ls ! n]" by (simp add: take_Suc_conv_app_nth)
  with Suc show ?case by (simp add: index_def Let_def)
qed simp

lemma previous_position_text:
  assumes h: "console_shows cn (ls, floor)"
  shows "previous_cursor_position cn = Ok (let ls' = drop_empty ls in
    if ls' = [] then None else Some \<lparr>cc_column = length (last ls') - 1, cc_row = length ls' - 1\<rparr>)"
proof -
  note d = console_showsD [OF h]
  obtain pre l where ls: "ls = pre @ [l]" using d(2) by (cases ls rule: rev_cases) auto
  have rows: "length pre < MAX_TRACKED_ROWS" "length (cn_row_lengths cn) = MAX_TRACKED_ROWS"
    using d(1,3) ls by (simp_all add: console_sized_def)
  show ?thesis
  proof (cases "l = []")
    case True
    have "previous_in_rows (cn_row_lengths cn) (length pre) = Ok (let ls' = drop_empty (take (length pre) ls) in
        if ls' = [] then None else Some \<lparr>cc_column = length (last ls') - 1, cc_row = length ls' - 1\<rparr>)"
      using rows d(8) by (intro previous_in_rows_text) (simp_all add: ls)
    with True d(6,7) ls show ?thesis by (simp add: previous_cursor_position_def)
  next
    case False
    with d(6,7) ls show ?thesis by (simp add: previous_cursor_position_def)
  qed
qed

lemma erased_at:
  assumes "drop_empty ls \<noteq> []"
  defines "e \<equiv> butlast (drop_empty ls) @ [butlast (last (drop_empty ls))]"
  shows "byte_at e r c = (if r = length (drop_empty ls) - 1 \<and> c = length (last (drop_empty ls)) - 1 then None else byte_at ls r c)"
proof -
  obtain k where k: "ls = drop_empty ls @ replicate k []" using drop_empty_split by blast
  obtain pre l where pl: "drop_empty ls = pre @ [l]" using assms(1) by (cases "drop_empty ls" rule: rev_cases) auto
  have l: "l \<noteq> []" using drop_empty_last [OF assms(1)] pl by simp
  have "byte_at ls r c = byte_at (pre @ [l]) r c" by (subst k) (auto simp: pl byte_at_def nth_append nth_Cons split: nat.splits)
  with l show ?thesis unfolding e_def pl by (auto simp: byte_at_def nth_append nth_butlast less_Suc_eq)
qed

lemma erase_shows:
  assumes h: "console_shows cn (ls, floor)" and ne: "drop_empty ls \<noteq> []"
  defines "e \<equiv> butlast (drop_empty ls) @ [butlast (last (drop_empty ls))]" and "r \<equiv> length (drop_empty ls) - 1"
    and "c \<equiv> length (last (drop_empty ls)) - 1"
  shows "console_shows ((clear_cell c r cn)\<lparr>cn_cursor_column := c, cn_cursor_row := r, cn_row_lengths := (cn_row_lengths cn)[r := c]\<rparr>) (e, floor)"
proof -
  note d = console_showsD [OF h]
  have fit: "cn_width cn \<le> cn_stride cn" "length (cn_pixels cn) = cn_visible_height cn * cn_stride cn"
    and rows: "cn_rows cn \<le> MAX_TRACKED_ROWS" "length (cn_row_lengths cn) = MAX_TRACKED_ROWS" using d(1) by (simp_all add: console_sized_def)
  define cn1 where "cn1 = clear_cell c r cn"
  have s: "same_but_pixels cn cn1" unfolding cn1_def by (rule clear_cell_at [OF fit])
  note f = same_but_pixels_fields [OF s]
  let ?cn = "cn1\<lparr>cn_cursor_column := c, cn_cursor_row := r, cn_row_lengths := (cn_row_lengths cn)[r := c]\<rparr>"
  obtain k where k: "ls = drop_empty ls @ replicate k []" using drop_empty_split by blast
  obtain pre l where pl: "drop_empty ls = pre @ [l]" using ne by (cases "drop_empty ls" rule: rev_cases) auto
  have rc: "r = length pre" "c = length l - 1" "e = pre @ [butlast l]" using pl by (simp_all add: r_def c_def e_def)
  have len: "length pre + 1 + k = length ls" using arg_cong [OF k, of length] pl by simp
  have at: "byte_at e r' c' = (if r' = r \<and> c' = c then None else byte_at ls r' c')" for r' c'
    using erased_at [OF ne] unfolding e_def r_def c_def by simp
  have "pixel_at ?cn x y = shade ?cn e x y" if xy: "x < cn_stride cn" "y < cn_visible_height cn" for x y
  proof -
    have "pixel_at ?cn x y = pixel_at cn1 x y" by (simp add: pixel_at_def)
    also have "\<dots> = (if x < cn_width cn \<and> in_cell r c x y then encode_color cn (cn_background cn) else shade cn ls x y)"
      unfolding cn1_def clear_cell_at(2) [OF fit xy] d(9) [OF xy] ..
    also have "\<dots> = shade cn e x y"
    proof (cases "in_cell r c x y")
      case True
      then show ?thesis by (simp add: shade_def lit_cell [OF True] at)
    next
      case False
      have "lit e x y = lit ls x y" by (rule lit_cong) (use False in \<open>auto simp: at\<close>)
      with False show ?thesis by (simp add: shade_def)
    qed
    also have "\<dots> = shade ?cn e x y" by (rule shade_cong) (simp_all add: f)
    finally show ?thesis .
  qed
  moreover have "(cn_row_lengths cn)[r := c] ! q = (if q < length e then length (e ! q) else 0)" if q: "q < MAX_TRACKED_ROWS" for q
  proof -
    have "cn_row_lengths cn ! q = (if q < length ls then length (ls ! q) else 0)" by (rule d(8) [OF q])
    moreover have "ls ! q = (if q < length pre then pre ! q else if q = length pre then l else [])" if "q < length ls"
      using that len by (subst k) (simp add: pl nth_append)
    ultimately show ?thesis using q rows(2) rc len by (auto simp: nth_list_update nth_append)
  qed
  moreover have "console_sized ?cn" using d(1) f by (simp add: console_sized_def)
  moreover have "\<forall>l \<in> set e. length l \<le> cn_columns cn"
  proof
    fix m assume "m \<in> set e"
    then have "m \<in> set ls \<or> m = butlast l" unfolding rc by (subst k) (auto simp: pl)
    moreover have "l \<in> set ls" by (subst k) (simp add: pl)
    ultimately show "length m \<le> cn_columns cn" using d(4) by fastforce
  qed
  moreover have "length e \<le> cn_rows cn" "e \<noteq> []" "console_cursor_of ?cn = text_cursor e"
    using d(3) len by (simp_all add: rc console_cursor_of_def text_cursor_def)
  ultimately have "console_shows ?cn (e, floor)" using d(5) f by (simp add: console_shows_def)
  then show ?thesis by (simp only: cn1_def)
qed

lemma backspace_shows:
  assumes h: "console_shows cn (ls, floor)"
  shows "\<exists>b cn'. backspace_from_session cn = Ok (b, cn') \<and> console_shows cn' (text_backspace (ls, floor)) \<and>
    console_setup cn' = console_setup cn"
proof -
  note d = console_showsD [OF h]
  let ?ls = "drop_empty ls"
  let ?e = "butlast ?ls @ [butlast (last ?ls)]"
  consider "floor = None \<or> floor = Some (text_cursor ls) \<or> ?ls = [] \<or> (\<exists>f. floor = Some f \<and> cursor_before (text_cursor ?e) f)"
    | f where "floor = Some f" "f \<noteq> text_cursor ls" "?ls \<noteq> []" "\<not> cursor_before (text_cursor ?e) f"
    by (cases floor) auto
  then show ?thesis
  proof cases
    case 1
    have "backspace_from_session cn = Ok (False, cn) \<and> text_backspace (ls, floor) = (ls, floor)"
      using 1 d(5-7) previous_position_text [OF h]
      by (cases floor) (auto simp: backspace_from_session_def text_backspace_def text_cursor_def cursor_before_def Let_def)
    with h show ?thesis by auto
  next
    case 2
    let ?r = "length ?ls - 1" and ?c = "length (last ?ls) - 1"
    let ?cn = "(clear_cell ?c ?r cn)\<lparr>cn_cursor_column := ?c, cn_cursor_row := ?r, cn_row_lengths := (cn_row_lengths cn)[?r := ?c]\<rparr>"
    have fit: "cn_width cn \<le> cn_stride cn" "length (cn_pixels cn) = cn_visible_height cn * cn_stride cn"
      and rows: "cn_rows cn \<le> MAX_TRACKED_ROWS" "length (cn_row_lengths cn) = MAX_TRACKED_ROWS" using d(1) by (simp_all add: console_sized_def)
    note f = same_but_pixels_fields [OF clear_cell_at(1) [OF fit, of ?c ?r]]
    obtain k where "ls = ?ls @ replicate k []" using drop_empty_split by blast
    then have "length ?ls \<le> length ls" by (metis le_add1 length_append)
    then have r: "?r < MAX_TRACKED_ROWS" using 2(3) d(3) rows(1) by (cases ?ls) auto
    have "backspace_from_session cn = Ok (True, ?cn)"
      using 2 d(5-7) previous_position_text [OF h] r rows(2) f
      by (auto simp: backspace_from_session_def text_cursor_def cursor_before_def Let_def store_def)
    moreover have "text_backspace (ls, floor) = (?e, floor)" using 2 by (auto simp: text_backspace_def Let_def)
    ultimately show ?thesis using erase_shows [OF h 2(3)] f by (auto simp: console_setup_def)
  qed
qed

section \<open>The property of the console\<close>

lemma terminal_byte_shows:
  assumes h: "console_shows cn t"
  shows "\<exists>cn'. console_write_terminal_byte byte cn = Ok cn' \<and> console_shows cn' (text_byte (cn_rows cn) (cn_columns cn) byte t) \<and>
    console_setup cn' = console_setup cn"
proof -
  obtain ls floor where t: "t = (ls, floor)" by fastforce
  note h' = h [unfolded t]
  consider "byte = 0x0a" | "byte \<noteq> 0x0a" "byte = 0x7f" | "byte \<noteq> 0x0a" "byte \<noteq> 0x7f" by blast
  then show ?thesis
  proof cases
    case 1
    with new_line_shows [OF h'] t show ?thesis by (auto simp: console_write_terminal_byte_def text_byte_def)
  next
    case 2
    with backspace_shows [OF h'] t show ?thesis by (fastforce simp: console_write_terminal_byte_def text_byte_def)
  next
    case 3
    then have w: "console_write_terminal_byte byte cn = console_write_byte byte cn" "text_byte (cn_rows cn) (cn_columns cn) byte t = text_put (cn_rows cn) (cn_columns cn) byte t"
      by (simp_all add: console_write_terminal_byte_def text_byte_def)
    show ?thesis
    proof (cases "cn_columns cn \<le> length (last ls)")
      case False
      then have "text_put (cn_rows cn) (cn_columns cn) byte t = (text_append byte ls, floor)" by (simp add: text_put_def t)
      with write_cell_shows [OF h', of byte] False w show ?thesis by (auto simp: not_le)
    next
      case True
      obtain cn1 where n: "new_line cn = Ok cn1" "console_shows cn1 (text_new_line (cn_rows cn) (ls, floor))"
        "console_setup cn1 = console_setup cn" using new_line_shows [OF h'] by blast
      obtain ls1 floor1 where t1: "text_new_line (cn_rows cn) (ls, floor) = (ls1, floor1)" by fastforce
      then have "last ls1 = []" by (auto simp: text_new_line_def split: if_splits)
      moreover have "0 < cn_columns cn1" using n(2) by (auto simp: console_shows_def console_sized_def)
      moreover have "cn_columns cn \<le> cn_cursor_column cn" using True console_showsD(7) [OF h'] by simp
      moreover have "cn_cursor_column cn1 = length (last ls1)" using console_showsD(7) n(2) t1 by metis
      ultimately have "console_write_byte byte cn = console_write_byte byte cn1"
        using n(1) by (simp add: console_write_byte_def)
      moreover have "text_put (cn_rows cn) (cn_columns cn) byte t = (text_append byte ls1, floor1)" using True t1 by (simp add: text_put_def t)
      ultimately show ?thesis using write_cell_shows [of cn1 ls1 floor1 byte] n t1 w \<open>last ls1 = []\<close> \<open>0 < cn_columns cn1\<close> by auto
    qed
  qed
qed

lemma terminal_bytes_show:
  "console_shows cn t \<Longrightarrow> console_setup cn = (fb, fg, bg, vh, columns, rows) \<Longrightarrow>
   \<exists>cn'. console_write_terminal_bytes bytes cn = Ok cn' \<and> console_shows cn' (fold (text_byte rows columns) bytes t) \<and>
     console_setup cn' = (fb, fg, bg, vh, columns, rows)"
proof (induction bytes arbitrary: cn t)
  case (Cons byte bytes)
  have "cn_rows cn = rows" "cn_columns cn = columns" using Cons.prems(2) by (simp_all add: console_setup_def)
  then obtain cn1 where 1: "console_write_terminal_byte byte cn = Ok cn1" "console_shows cn1 (text_byte rows columns byte t)"
    "console_setup cn1 = console_setup cn" using terminal_byte_shows [OF Cons.prems(1)] by blast
  with Cons.IH [OF 1(2)] Cons.prems(2) show ?case by auto
qed simp

lemma fresh_console_shows:
  assumes "framebuffer_is_usable fb" "2 * PADDING_Y + GLYPH_ADVANCE_Y < visible_height_pixels fb"
    "length mem = visible_height_pixels fb * unat (fb_stride fb)"
  shows "console_shows (console_clear (console_new fb fg bg mem)) ([[]], None)"
proof -
  let ?cn = "console_clear (console_new fb fg bg mem)"
  have fb: "unat (fb_width fb) \<le> unat (fb_stride fb)" using assms(1) by (simp add: framebuffer_is_usable_def word_le_nat_alt)
  have f: "cn_framebuffer ?cn = fb" "cn_visible_height ?cn = visible_height_pixels fb" "length (cn_pixels ?cn) = length mem"
    "cn_pixels ?cn = replicate (length mem) (encode_color ?cn (cn_background ?cn))"
    using encode_color_cong [of ?cn "console_new fb fg bg mem"] by (simp_all add: console_clear_def console_new_def Let_def)
  have sized: "console_sized ?cn"
    using fb assms(2,3) f by (simp add: console_sized_def) (simp add: console_clear_def console_new_def Let_def usable_columns_def MAX_TRACKED_ROWS_def)
  have "pixel_at ?cn x y = shade ?cn [[]] x y" if "x < cn_stride ?cn" "y < cn_visible_height ?cn" for x y
  proof -
    have "y * cn_stride ?cn + x < length mem" using pixel_bound [OF that] f(1,2) assms(3) by simp
    moreover have "\<not> lit [[]] x y" by (simp add: lit_iff byte_at_def)
    ultimately show ?thesis unfolding pixel_at_def f(4) by (simp add: shade_def)
  qed
  with sized rows_fit(2) [OF sized] show ?thesis
    by (auto simp: console_shows_def console_cursor_of_def text_cursor_def)
      (auto simp: console_clear_def console_new_def Let_def Suc_le_eq)
qed

lemma begin_session_shows:
  assumes "console_shows cn (ls, floor)"
  shows "console_shows (console_begin_terminal_session cn) (ls, Some (text_cursor ls))"
proof -
  let ?cn = "console_begin_terminal_session cn"
  have same: "pixel_at ?cn = pixel_at cn" "shade ?cn ls = shade cn ls"
    by (auto simp: fun_eq_iff pixel_at_def console_begin_terminal_session_def intro: shade_cong)
  have "cn_input_floor ?cn = Some (text_cursor ls)" using assms by (simp add: console_begin_terminal_session_def console_shows_def)
  moreover have "console_sized ?cn = console_sized cn" by (simp add: console_begin_terminal_session_def console_sized_def)
  ultimately show ?thesis
    using assms same by (simp add: console_shows_def) (simp add: console_begin_terminal_session_def console_cursor_of_def)
qed

text \<open>Backspace erases nothing in front of the start of the session.\<close>

lemma backspace_stops_at_floor:
  assumes "cursor_before \<lparr>cc_column = c, cc_row = r\<rparr> f"
  shows "byte_at (fst (text_backspace (ls, Some f))) r c = byte_at ls r c"
proof (cases "drop_empty ls = []")
  case False
  with erased_at [OF False, of r c] assms show ?thesis
    by (auto simp: text_backspace_def Let_def cursor_before_def text_cursor_def)
qed (simp add: text_backspace_def Let_def)

text \<open>C6. What the user sees is what was written. On any direct-color framebuffer with room for more than one line of
  text, a cleared console takes any boot messages and then any bytes of a terminal session without a
  panic, and every single pixel is the one that shows the resulting text: the bytes wrapped at the
  screen's width, scrolled when the last line is full, with backspace stopping at the session's start.\<close>

theorem console_shows_text:
  assumes "framebuffer_is_usable fb" "2 * PADDING_Y + GLYPH_ADVANCE_Y < visible_height_pixels fb"
    "length mem = visible_height_pixels fb * unat (fb_stride fb)"
  shows "let cn0 = console_clear (console_new fb foreground background mem);
       text = fold (text_byte (cn_rows cn0) (cn_columns cn0));
       ls1 = fst (text messages ([[]], None));
       ls2 = fst (text session (ls1, Some (text_cursor ls1)))
     in \<exists>cn1 cn2. console_write_terminal_bytes messages cn0 = Ok cn1 \<and>
          console_write_terminal_bytes session (console_begin_terminal_session cn1) = Ok cn2 \<and>
          (\<forall>x y. x < unat (fb_stride fb) \<and> y < visible_height_pixels fb \<longrightarrow> pixel_at cn2 x y = shade cn0 ls2 x y)"
proof -
  let ?cn0 = "console_clear (console_new fb foreground background mem)"
  let ?rows = "cn_rows ?cn0" and ?columns = "cn_columns ?cn0" and ?vh = "visible_height_pixels fb"
  let ?text = "fold (text_byte ?rows ?columns)"
  let ?ls1 = "fst (?text messages ([[]], None))" and ?floor = "snd (?text messages ([[]], None))"
  have s0: "console_setup ?cn0 = (fb, foreground, background, ?vh, ?columns, ?rows)"
    by (simp add: console_setup_def console_clear_def console_new_def Let_def)
  obtain cn1 where 1: "console_write_terminal_bytes messages ?cn0 = Ok cn1" "console_shows cn1 (?ls1, ?floor)"
    "console_setup cn1 = (fb, foreground, background, ?vh, ?columns, ?rows)"
    using terminal_bytes_show [OF fresh_console_shows [OF assms] s0, of messages] by auto
  have s1: "console_setup (console_begin_terminal_session cn1) = (fb, foreground, background, ?vh, ?columns, ?rows)"
    using 1(3) by (simp add: console_setup_def console_begin_terminal_session_def)
  obtain cn2 where 2: "console_write_terminal_bytes session (console_begin_terminal_session cn1) = Ok cn2"
    "console_shows cn2 (?text session (?ls1, Some (text_cursor ?ls1)))"
    "console_setup cn2 = (fb, foreground, background, ?vh, ?columns, ?rows)"
    using terminal_bytes_show [OF begin_session_shows [OF 1(2)] s1, of session] by blast
  let ?ls2 = "fst (?text session (?ls1, Some (text_cursor ?ls1)))"
  have f: "cn_framebuffer cn2 = fb" "cn_foreground cn2 = foreground" "cn_background cn2 = background" "cn_visible_height cn2 = ?vh"
    "cn_framebuffer ?cn0 = fb" "cn_foreground ?cn0 = foreground" "cn_background ?cn0 = background"
    using 2(3) s0 by (simp_all add: console_setup_def)
  have "pixel_at cn2 x y = shade ?cn0 ?ls2 x y" if "x < unat (fb_stride fb)" "y < ?vh" for x y
  proof -
    have "console_shows cn2 (?ls2, snd (?text session (?ls1, Some (text_cursor ?ls1))))" using 2(2) by simp
    then have "pixel_at cn2 x y = shade cn2 ?ls2 x y" by (rule console_showsD(9)) (simp_all only: f that)
    also have "\<dots> = shade ?cn0 ?ls2 x y" by (rule shade_cong) (simp_all only: f)
    finally show ?thesis .
  qed
  with 1(1) 2(1) show ?thesis unfolding Let_def by blast
qed

text \<open>A screen of 64 by 64 pixels after the message \<^verbatim>\<open>H\<close>, then \<^verbatim>\<open>a\<close> and two backspaces, shows the \<^verbatim>\<open>H\<close>.\<close>

theorem console_shows_text_witness:
  "let fb = \<lparr>fb_base = 0x1000, fb_size = 0x4000, fb_width = 64, fb_height = 64, fb_stride = 64, fb_format = Rgb\<rparr>;
       cn0 = console_clear (console_new fb DEFAULT_FOREGROUND DEFAULT_BACKGROUND (replicate 4096 0))
   in \<exists>cn1 cn2. console_write_terminal_bytes [0x48] cn0 = Ok cn1 \<and>
        console_write_terminal_bytes [0x61, 0x7f, 0x7f] (console_begin_terminal_session cn1) = Ok cn2 \<and>
        (\<forall>x y. x < 64 \<and> y < 64 \<longrightarrow> pixel_at cn2 x y = shade cn0 [[0x48]] x y)"
proof -
  let ?fb = "\<lparr>fb_base = 0x1000, fb_size = 0x4000, fb_width = 64, fb_height = 64, fb_stride = 64, fb_format = Rgb\<rparr>"
  define mem where "mem = replicate 4096 (0::u32)"
  let ?cn0 = "console_clear (console_new ?fb DEFAULT_FOREGROUND DEFAULT_BACKGROUND mem)"
  have vh: "visible_height_pixels ?fb = 64" by (simp add: visible_height_pixels_def)
  have len: "length mem = 4096" unfolding mem_def by (rule length_replicate)
  have fb: "framebuffer_is_usable ?fb" "2 * PADDING_Y + GLYPH_ADVANCE_Y < visible_height_pixels ?fb"
    "length mem = visible_height_pixels ?fb * unat (fb_stride ?fb)"
    unfolding vh len by (simp_all add: framebuffer_is_usable_def is_direct_def glyph_sizes)
  have dims: "cn_rows ?cn0 = 3" "cn_columns ?cn0 = 4"
    by (simp_all add: console_clear_def console_new_def Let_def vh usable_rows_def usable_columns_def glyph_sizes MAX_TRACKED_ROWS_def)
  have t: "fst (fold (text_byte 3 4) [0x61, 0x7f, 0x7f] (fst (fold (text_byte 3 4) [0x48] ([[]], None)),
      Some (text_cursor (fst (fold (text_byte 3 4) [0x48] ([[]], None)))))) = [[0x48]]" by code_simp
  have "unat (fb_stride ?fb) = 64" by simp
  with console_shows_text [OF fb, of DEFAULT_FOREGROUND DEFAULT_BACKGROUND "[0x48]" "[0x61, 0x7f, 0x7f]"]
  show ?thesis unfolding Let_def dims t vh unfolding mem_def by (simp only:)
qed

end
