(* ===== verification/Lash_Parser.thy ===== *)
theory Lash_Parser
  imports Lazers_Prelude
begin

text \<open>
  The shell's parser, \<^verbatim>\<open>user/lash/src/lib.rs\<close>: \<^verbatim>\<open>TokenizedCommand::parse\<close> splits one command into words with
  quotes and escapes, \<^verbatim>\<open>scan_segments\<close> splits a line at \<^verbatim>\<open>&&\<close>, \<^verbatim>\<open>||\<close> and \<^verbatim>\<open>;\<close>. Both fill fixed arrays. They
  are related to recursive descriptions of the two languages on plain lists.
\<close>

section \<open>Constants and types\<close>

definition LINE_CAPACITY :: nat where "LINE_CAPACITY = 256"
definition MAX_COMMAND_ARGS :: nat where "MAX_COMMAND_ARGS = 16"
definition MAX_CHAIN_SEGMENTS :: nat where "MAX_CHAIN_SEGMENTS = 32"

datatype parse_error =
    UnmatchedSingleQuote
  | UnmatchedDoubleQuote
  | TrailingBackslash
  | InvalidSyntax
  | ResourceUnavailable

datatype segment_operator = And | Or | Sequence

datatype parse_state = Unquoted | SingleQuoted | DoubleQuoted

abbreviation space :: u8 where "space \<equiv> 0x20"
abbreviation squote :: u8 where "squote \<equiv> 0x27"
abbreviation dquote :: u8 where "dquote \<equiv> 0x22"
abbreviation backslash :: u8 where "backslash \<equiv> 0x5c"

section \<open>Words\<close>

record tokenized_command =
  tk_storage :: bytes
  tk_offsets :: "nat list"
  tk_lengths :: "nat list"
  tk_count :: nat

definition start_token :: "nat \<Rightarrow> tokenized_command \<Rightarrow> (tokenized_command, parse_error) outcome" where
  "start_token storage_offset tk =
     (if length (tk_offsets tk) \<le> tk_count tk then Err ResourceUnavailable
      else and_then (store (tk_offsets tk) (tk_count tk) storage_offset) (\<lambda>offsets.
           and_then (store (tk_lengths tk) (tk_count tk) 0) (\<lambda>lengths.
             Ok (tk\<lparr>tk_offsets := offsets, tk_lengths := lengths\<rparr>))))"

definition finish_token :: "nat \<Rightarrow> tokenized_command \<Rightarrow> (tokenized_command, parse_error) outcome" where
  "finish_token token_len tk =
     (if length (tk_lengths tk) \<le> tk_count tk then Err ResourceUnavailable
      else and_then (store (tk_lengths tk) (tk_count tk) token_len) (\<lambda>lengths.
             Ok (tk\<lparr>tk_lengths := lengths, tk_count := tk_count tk + 1\<rparr>)))"

definition push_token_byte :: "nat \<Rightarrow> u8 \<Rightarrow> tokenized_command \<Rightarrow> (tokenized_command, parse_error) outcome" where
  "push_token_byte storage_index byte tk =
     (if length (tk_storage tk) \<le> storage_index then Err ResourceUnavailable
      else and_then (store (tk_storage tk) storage_index byte) (\<lambda>storage. Ok (tk\<lparr>tk_storage := storage\<rparr>)))"

text \<open>The mutable locals of \<^verbatim>\<open>parse\<close>, its two repeated fragments and one turn of its loop.\<close>

record lexer =
  lx_parsed :: tokenized_command
  lx_state :: parse_state
  lx_index :: nat
  lx_storage_len :: nat
  lx_current_len :: nat
  lx_active :: bool

definition ensure_token :: "lexer \<Rightarrow> (lexer, parse_error) outcome" where
  "ensure_token lx =
     (if lx_active lx then Ok lx
      else and_then (start_token (lx_storage_len lx) (lx_parsed lx)) (\<lambda>tk. Ok (lx\<lparr>lx_parsed := tk, lx_active := True\<rparr>)))"

definition take_byte :: "u8 \<Rightarrow> lexer \<Rightarrow> (lexer, parse_error) outcome" where
  "take_byte byte lx =
     and_then (push_token_byte (lx_storage_len lx) byte (lx_parsed lx)) (\<lambda>tk.
       Ok (lx\<lparr>lx_parsed := tk, lx_storage_len := lx_storage_len lx + 1, lx_current_len := lx_current_len lx + 1\<rparr>))"

definition end_token :: "lexer \<Rightarrow> (lexer, parse_error) outcome" where
  "end_token lx =
     (if lx_active lx
      then and_then (finish_token (lx_current_len lx) (lx_parsed lx)) (\<lambda>tk.
             Ok (lx\<lparr>lx_parsed := tk, lx_current_len := 0, lx_active := False\<rparr>))
      else Ok lx)"

definition take_escaped :: "bytes \<Rightarrow> (lexer \<Rightarrow> (lexer, parse_error) outcome) \<Rightarrow> lexer \<Rightarrow> (lexer, parse_error) outcome" where
  "take_escaped line before lx =
     (if length line \<le> lx_index lx + 1 then Err TrailingBackslash
      else and_then (before lx) (\<lambda>lx.
           and_then (index line (lx_index lx + 1)) (\<lambda>byte.
             take_byte byte (lx\<lparr>lx_index := lx_index lx + 1\<rparr>))))"

definition parse_byte :: "bytes \<Rightarrow> u8 \<Rightarrow> lexer \<Rightarrow> (lexer, parse_error) outcome" where
  "parse_byte line byte lx =
     (case lx_state lx of
        Unquoted \<Rightarrow>
          (if byte = space then end_token lx
           else if byte = squote then and_then (ensure_token lx) (\<lambda>lx. Ok (lx\<lparr>lx_state := SingleQuoted\<rparr>))
           else if byte = dquote then and_then (ensure_token lx) (\<lambda>lx. Ok (lx\<lparr>lx_state := DoubleQuoted\<rparr>))
           else if byte = backslash then take_escaped line ensure_token lx
           else and_then (ensure_token lx) (take_byte byte))
      | SingleQuoted \<Rightarrow> if byte = squote then Ok (lx\<lparr>lx_state := Unquoted\<rparr>) else take_byte byte lx
      | DoubleQuoted \<Rightarrow>
          (if byte = dquote then Ok (lx\<lparr>lx_state := Unquoted\<rparr>)
           else if byte = backslash then take_escaped line Ok lx
           else take_byte byte lx))"

text \<open>A turn never moves the index back, so the loop ends.\<close>

lemma parse_byte_index: "parse_byte line b lx = Ok lx' \<Longrightarrow> lx_index lx \<le> lx_index lx'"
  by (auto simp: parse_byte_def take_escaped_def ensure_token_def take_byte_def end_token_def
      split: parse_state.splits if_splits)

function parse_loop :: "bytes \<Rightarrow> lexer \<Rightarrow> (lexer, parse_error) outcome" where
  "parse_loop line lx =
     (if lx_index lx < length line
      then case parse_byte line (line ! lx_index lx) lx of
             Ok lx' \<Rightarrow> parse_loop line (lx'\<lparr>lx_index := lx_index lx' + 1\<rparr>)
           | Err e \<Rightarrow> Err e
           | Panic \<Rightarrow> Panic
      else Ok lx)"
  by pat_completeness auto
termination
  by (relation "measure (\<lambda>(line, lx). length line - lx_index lx)") (auto dest!: parse_byte_index)

declare parse_loop.simps [simp del]

definition tokenized_new :: tokenized_command where
  "tokenized_new = \<lparr>tk_storage = replicate LINE_CAPACITY 0, tk_offsets = replicate MAX_COMMAND_ARGS 0,
     tk_lengths = replicate MAX_COMMAND_ARGS 0, tk_count = 0\<rparr>"

definition parse_end :: "lexer \<Rightarrow> (tokenized_command, parse_error) outcome" where
  "parse_end lx =
     (case lx_state lx of
        SingleQuoted \<Rightarrow> Err UnmatchedSingleQuote
      | DoubleQuoted \<Rightarrow> Err UnmatchedDoubleQuote
      | Unquoted \<Rightarrow> and_then (end_token lx) (\<lambda>lx. Ok (lx_parsed lx)))"

definition tokenized_parse :: "bytes \<Rightarrow> (tokenized_command, parse_error) outcome" where
  "tokenized_parse line =
     and_then (parse_loop line
       \<lparr>lx_parsed = tokenized_new, lx_state = Unquoted, lx_index = 0, lx_storage_len = 0, lx_current_len = 0, lx_active = False\<rparr>)
       parse_end"

text \<open>\<^verbatim>\<open>token\<close>: the outer \<open>None\<close>-able result of the two \<^verbatim>\<open>get\<close> calls, a slice that may be out of range, and
  \<^verbatim>\<open>from_utf8(...).ok()\<close>.\<close>

definition tokenized_token :: "tokenized_command \<Rightarrow> nat \<Rightarrow> (bytes option, parse_error) outcome" where
  "tokenized_token tk i =
     (if length (tk_offsets tk) \<le> i \<or> length (tk_lengths tk) \<le> i then Ok None
      else and_then (slice (tk_storage tk) (tk_offsets tk ! i) (tk_offsets tk ! i + tk_lengths tk ! i)) (\<lambda>s. Ok (from_utf8 s)))"

text \<open>The words of a parsed command.\<close>

definition token_bytes :: "tokenized_command \<Rightarrow> bytes list" where
  "token_bytes tk = map (\<lambda>i. take (tk_lengths tk ! i) (drop (tk_offsets tk ! i) (tk_storage tk))) [0..<tk_count tk]"

section \<open>The language of words\<close>

text \<open>The words a line holds up to its end or its first error, and that error. \<open>cur\<close> is the word under
  construction.\<close>

definition word_list :: "bytes option \<Rightarrow> bytes list" where
  "word_list cur = (case cur of None \<Rightarrow> [] | Some w \<Rightarrow> [w])"

definition word_add :: "u8 \<Rightarrow> bytes option \<Rightarrow> bytes option" where
  "word_add b cur = Some (case cur of None \<Rightarrow> [b] | Some w \<Rightarrow> w @ [b])"

definition word_open :: "bytes option \<Rightarrow> bytes option" where
  "word_open cur = Some (case cur of None \<Rightarrow> [] | Some w \<Rightarrow> w)"

fun words :: "parse_state \<Rightarrow> bytes option \<Rightarrow> bytes \<Rightarrow> bytes list \<times> parse_error option" where
  "words Unquoted cur [] = (word_list cur, None)"
| "words SingleQuoted cur [] = (word_list cur, Some UnmatchedSingleQuote)"
| "words DoubleQuoted cur [] = (word_list cur, Some UnmatchedDoubleQuote)"
| "words Unquoted cur (b # bs) =
     (if b = space then let (ws, e) = words Unquoted None bs in (word_list cur @ ws, e)
      else if b = squote then words SingleQuoted (word_open cur) bs
      else if b = dquote then words DoubleQuoted (word_open cur) bs
      else if b = backslash
      then (case bs of [] \<Rightarrow> (word_list cur, Some TrailingBackslash) | c # cs \<Rightarrow> words Unquoted (word_add c cur) cs)
      else words Unquoted (word_add b cur) bs)"
| "words SingleQuoted cur (b # bs) =
     (if b = squote then words Unquoted cur bs else words SingleQuoted (word_add b cur) bs)"
| "words DoubleQuoted cur (b # bs) =
     (if b = dquote then words Unquoted cur bs
      else if b = backslash
      then (case bs of [] \<Rightarrow> (word_list cur, Some TrailingBackslash) | c # cs \<Rightarrow> words DoubleQuoted (word_add c cur) cs)
      else words DoubleQuoted (word_add b cur) bs)"

section \<open>The parser recognizes the language\<close>

text \<open>A lexer that holds the finished words \<open>done\<close> and the open word \<open>cur\<close>.\<close>

definition tokens_hold :: "tokenized_command \<Rightarrow> bytes list \<Rightarrow> bool" where
  "tokens_hold tk ws \<longleftrightarrow>
     length (tk_storage tk) = LINE_CAPACITY \<and> length (tk_offsets tk) = MAX_COMMAND_ARGS \<and>
     length (tk_lengths tk) = MAX_COMMAND_ARGS \<and> tk_count tk = length ws \<and> length ws \<le> MAX_COMMAND_ARGS \<and>
     length (concat ws) \<le> LINE_CAPACITY \<and> take (length (concat ws)) (tk_storage tk) = concat ws \<and>
     (\<forall>i < length ws. tk_offsets tk ! i = length (concat (take i ws)) \<and> tk_lengths tk ! i = length (ws ! i))"

definition lexer_holds :: "lexer \<Rightarrow> bytes list \<Rightarrow> bytes option \<Rightarrow> bool" where
  "lexer_holds lx done cur \<longleftrightarrow>
     tokens_hold (lx_parsed lx) done \<and> lx_active lx = (cur \<noteq> None) \<and>
     lx_current_len lx = length (concat (word_list cur)) \<and>
     lx_storage_len lx = length (concat (done @ word_list cur)) \<and> lx_storage_len lx \<le> LINE_CAPACITY \<and>
     take (lx_storage_len lx) (tk_storage (lx_parsed lx)) = concat (done @ word_list cur) \<and>
     (cur \<noteq> None \<longrightarrow> length done < MAX_COMMAND_ARGS \<and> tk_offsets (lx_parsed lx) ! length done = length (concat done))"

lemma word_simps [simp]: "word_list None = []" "word_list (Some w) = [w]"
  "word_open None = Some []" "word_open (Some w) = Some w" "word_add b None = Some [b]" "word_add b (Some w) = Some (w @ [b])"
  "word_open (word_add b cur) = word_add b cur" "word_add b (word_open cur) = word_add b cur"
  by (simp_all add: word_list_def word_open_def word_add_def split: option.splits)

lemma ensure_token_holds:
  assumes "lexer_holds lx done cur"
  shows "if cur = None \<and> length done = MAX_COMMAND_ARGS then ensure_token lx = Err ResourceUnavailable
     else \<exists>lx'. ensure_token lx = Ok lx' \<and> lexer_holds lx' done (word_open cur) \<and> lx_state lx' = lx_state lx \<and> lx_index lx' = lx_index lx"
proof (cases cur)
  case (Some w)
  with assms show ?thesis by (auto simp: ensure_token_def lexer_holds_def)
next
  case None
  with assms show ?thesis
    by (auto simp: ensure_token_def lexer_holds_def tokens_hold_def start_token_def store_def)
qed

lemma take_byte_holds:
  assumes h: "lexer_holds lx done (Some w)"
  shows "if length (concat done) + length w = LINE_CAPACITY then take_byte b lx = Err ResourceUnavailable
     else \<exists>lx'. take_byte b lx = Ok lx' \<and> lexer_holds lx' done (Some (w @ [b])) \<and> lx_state lx' = lx_state lx \<and> lx_index lx' = lx_index lx"
proof -
  let ?n = "length (concat done) + length w" and ?st = "tk_storage (lx_parsed lx)"
  have n: "lx_storage_len lx = ?n" "?n \<le> LINE_CAPACITY" "length ?st = LINE_CAPACITY" "take ?n ?st = concat done @ w"
    using h by (auto simp: lexer_holds_def tokens_hold_def)
  show ?thesis
  proof (cases "?n = LINE_CAPACITY")
    case True
    then show ?thesis using n by (simp add: take_byte_def push_token_byte_def)
  next
    case False
    with n have lt: "?n < length ?st" by simp
    have t: "take (Suc ?n) (?st[?n := b]) = concat done @ w @ [b]"
      using lt n(4) by (simp add: take_Suc_conv_app_nth)
    have "take (length (concat done)) (?st[?n := b]) = concat done"
      using arg_cong [OF t, of "take (length (concat done))"] lt by (simp add: min_absorb1)
    with h t lt n False show ?thesis
      by (simp add: take_byte_def push_token_byte_def store_def lexer_holds_def tokens_hold_def)
  qed
qed

lemma end_token_holds:
  assumes h: "lexer_holds lx done cur"
  shows "\<exists>lx'. end_token lx = Ok lx' \<and> lexer_holds lx' (done @ word_list cur) None \<and> lx_state lx' = lx_state lx \<and> lx_index lx' = lx_index lx"
proof (cases cur)
  case None
  with h show ?thesis by (auto simp: end_token_def lexer_holds_def)
next
  case (Some w)
  have "(tk_lengths (lx_parsed lx))[length done := length w] ! i = length ((done @ [w]) ! i)"
    "tk_offsets (lx_parsed lx) ! i = length (concat (take i (done @ [w])))" if "i \<le> length done" for i
    using h Some that by (auto simp: lexer_holds_def tokens_hold_def nth_append less_Suc_eq nth_list_update le_less)
  moreover have "take (length (concat done) + length w) (tk_storage (lx_parsed lx)) = concat done @ w"
    "length (concat done) + length w \<le> LINE_CAPACITY"
    using h Some by (auto simp: lexer_holds_def)
  ultimately show ?thesis
    using h Some by (simp add: end_token_def finish_token_def store_def lexer_holds_def tokens_hold_def less_Suc_eq_le)
qed

lemma words_extend: "\<exists>v rest. fst (words s (Some w) bs) = (w @ v) # rest"
proof -
  have "cur = Some w \<Longrightarrow> \<exists>v rest. fst (words s cur bs) = (w @ v) # rest" for cur
  proof (induction s cur bs arbitrary: w rule: words.induct)
    case (4 cur b bs)
    then show ?case by (cases bs) (auto simp: case_prod_unfold Let_def, (metis append.assoc)+)
  next
    case (5 cur b bs)
    from 5(2) [of "w @ [b]"] 5(1) [of w] 5(3) show ?case by (cases "b = squote") auto
  next
    case (6 cur b bs)
    then show ?case by (cases bs) (auto, (metis append.assoc)+)
  qed auto
  then show ?thesis by simp
qed

definition words_fit :: "bytes list \<Rightarrow> bool" where
  "words_fit ws \<longleftrightarrow> length ws \<le> MAX_COMMAND_ARGS \<and> length (concat ws) \<le> LINE_CAPACITY"

text \<open>What the rest of the parse owes to the words still in the line.\<close>

definition parse_meets :: "(tokenized_command, parse_error) outcome \<Rightarrow> bytes list \<Rightarrow> bytes list \<times> parse_error option \<Rightarrow> bool" where
  "parse_meets r done p \<longleftrightarrow>
     (if words_fit (done @ fst p)
      then case snd p of None \<Rightarrow> \<exists>tk. r = Ok tk \<and> tokens_hold tk (done @ fst p) | Some e \<Rightarrow> r = Err e
      else r = Err ResourceUnavailable)"

lemma too_many:
  assumes "length done = MAX_COMMAND_ARGS" "lexer_holds lx done None"
  shows "parse_meets (Err ResourceUnavailable) done (words s (Some w) bs)"
  using words_extend [of s w bs] assms by (auto simp: parse_meets_def words_fit_def)

lemma too_long:
  assumes "length (concat done) + length w = LINE_CAPACITY"
  shows "parse_meets (Err ResourceUnavailable) done (words s (Some (w @ [b])) bs)"
  using words_extend [of s "w @ [b]" bs] assms by (auto simp: parse_meets_def words_fit_def)

definition parse_rest :: "bytes \<Rightarrow> lexer \<Rightarrow> (tokenized_command, parse_error) outcome" where
  "parse_rest line lx = and_then (parse_loop line lx) parse_end"

lemma parse_rest_step:
  assumes "drop (lx_index lx) line = b # bs"
  shows "parse_rest line lx =
    (case parse_byte line b lx of Ok lx' \<Rightarrow> parse_rest line (lx'\<lparr>lx_index := lx_index lx' + 1\<rparr>) | Err e \<Rightarrow> Err e | Panic \<Rightarrow> Panic)"
proof -
  have "lx_index lx < length line" "line ! lx_index lx = b"
    using assms by (metis drop_eq_Nil linorder_not_le list.distinct(1), metis assms nth_via_drop)
  then show ?thesis
    unfolding parse_rest_def by (subst parse_loop.simps) (simp split: outcome.splits)
qed

lemma lexer_holds_index [simp]: "lexer_holds (lx\<lparr>lx_index := i\<rparr>) done cur = lexer_holds lx done cur"
  "lexer_holds (lx\<lparr>lx_state := s\<rparr>) done cur = lexer_holds lx done cur"
  by (simp_all add: lexer_holds_def)

text \<open>Adding one byte to the open word, or to a new one.\<close>

lemma add_byte_holds:
  fixes c :: u8 and k :: nat
  assumes h: "lexer_holds lx done cur"
  defines "r \<equiv> and_then (ensure_token lx) (\<lambda>lx. take_byte c (lx\<lparr>lx_index := lx_index lx + k\<rparr>))"
  shows "(r = Err ResourceUnavailable \<and> (\<forall>s bs. parse_meets (Err ResourceUnavailable) done (words s (word_add c cur) bs))) \<or>
    (\<exists>lx'. r = Ok lx' \<and> lexer_holds lx' done (word_add c cur) \<and> lx_state lx' = lx_state lx \<and> lx_index lx' = lx_index lx + k)"
proof (cases "cur = None \<and> length done = MAX_COMMAND_ARGS")
  case True
  with ensure_token_holds [OF h] too_many h show ?thesis by (auto simp: r_def)
next
  case False
  with ensure_token_holds [OF h] obtain lx1 where lx1: "ensure_token lx = Ok lx1" "lexer_holds lx1 done (word_open cur)"
    "lx_state lx1 = lx_state lx" "lx_index lx1 = lx_index lx" by auto
  obtain w where w: "word_open cur = Some w" "word_add c cur = Some (w @ [c])" by (cases cur) simp_all
  have h1: "lexer_holds (lx1\<lparr>lx_index := lx_index lx1 + k\<rparr>) done (Some w)" using lx1(2) w by simp
  show ?thesis
    using take_byte_holds [OF h1, of c] too_long [of "done" w] lx1 w by (auto simp: r_def split: if_splits)
qed

lemma ensure_active: "lexer_holds lx done (Some w) \<Longrightarrow> ensure_token lx = Ok lx"
  by (simp add: ensure_token_def lexer_holds_def)

lemma open_word_meets:
  assumes "lexer_holds lx done cur"
  shows "(ensure_token lx = Err ResourceUnavailable \<and> (\<forall>s bs. parse_meets (Err ResourceUnavailable) done (words s (word_open cur) bs))) \<or>
    (\<exists>lx'. ensure_token lx = Ok lx' \<and> lexer_holds lx' done (word_open cur) \<and> lx_state lx' = lx_state lx \<and> lx_index lx' = lx_index lx)"
  using ensure_token_holds [OF assms] too_many assms by (cases cur) (auto split: if_splits)

lemma current_fits: "lexer_holds lx done cur \<Longrightarrow> words_fit (done @ word_list cur)"
  by (cases cur) (auto simp: lexer_holds_def tokens_hold_def words_fit_def)

lemma drop_index_Cons:
  assumes "drop i line = b # bs"
  shows "drop (Suc i) line = bs" "i < length line" "bs = c # cs \<Longrightarrow> index line (Suc i) = Ok c" "bs \<noteq> [] \<longleftrightarrow> Suc i < length line"
proof -
  show i: "i < length line" using assms by (metis drop_eq_Nil linorder_not_le list.distinct(1))
  show d: "drop (Suc i) line = bs" using assms by (metis drop_Suc list.sel(3) tl_drop)
  show "bs \<noteq> [] \<longleftrightarrow> Suc i < length line" using d by auto
  then show "bs = c # cs \<Longrightarrow> index line (Suc i) = Ok c" using d by (auto simp: index_def nth_via_drop)
qed

definition byte_meets :: "bytes \<Rightarrow> (lexer, parse_error) outcome \<Rightarrow> bytes list \<Rightarrow> bytes \<Rightarrow> bytes list \<times> parse_error option \<Rightarrow> bool" where
  "byte_meets line q done rest p \<longleftrightarrow>
    (\<exists>r. q = Err r \<and> parse_meets (Err r) done p) \<or>
    (\<exists>lx' done' cur'. q = Ok lx' \<and> lexer_holds lx' done' cur' \<and> (lx_state lx' = Unquoted \<or> cur' \<noteq> None) \<and>
       length (drop (lx_index lx' + 1) line) < length rest \<and>
       (\<forall>r. parse_meets r done' (words (lx_state lx') cur' (drop (lx_index lx' + 1) line)) \<longrightarrow> parse_meets r done p))"

lemma byte_meetsI:
  "parse_meets (Err r) done p \<Longrightarrow> byte_meets line (Err r) done rest p"
  "lexer_holds lx done cur \<Longrightarrow> lx_state lx = Unquoted \<or> cur \<noteq> None \<Longrightarrow> length (drop (Suc (lx_index lx)) line) < length rest \<Longrightarrow>
   p = words (lx_state lx) cur (drop (Suc (lx_index lx)) line) \<Longrightarrow> byte_meets line (Ok lx) done rest p"
  by (auto simp: byte_meets_def)

lemma word_add_Some: "\<exists>w. word_add b cur = Some w" "\<exists>w. word_open cur = Some w"
  by (simp_all add: word_add_def word_open_def)

lemma take_escaped_meets:
  assumes h: "lexer_holds lx done cur" and idx: "drop (lx_index lx) line = backslash # bs"
    and before: "before lx = ensure_token lx" and q: "lx_state lx = s"
  shows "byte_meets line (take_escaped line before lx) done (backslash # bs)
    (case bs of [] \<Rightarrow> (word_list cur, Some TrailingBackslash) | c # cs \<Rightarrow> words s (word_add c cur) cs)"
proof (cases bs)
  case Nil
  have "length line \<le> Suc (lx_index lx)" using drop_index_Cons(4) [OF idx] Nil by simp
  with current_fits [OF h] Nil show ?thesis by (simp add: byte_meets_def take_escaped_def parse_meets_def)
next
  case (Cons c cs)
  have i: "\<not> length line \<le> Suc (lx_index lx)" "index line (Suc (lx_index lx)) = (Ok c :: (u8, parse_error) outcome)"
    "drop (Suc (Suc (lx_index lx))) line = cs"
    using drop_index_Cons(3,4) [OF idx] drop_index_Cons(1) [OF drop_index_Cons(1) [OF idx, unfolded Cons]] Cons by auto
  have "take_escaped line before lx = and_then (ensure_token lx) (\<lambda>lx. take_byte c (lx\<lparr>lx_index := lx_index lx + 1\<rparr>))"
  proof (cases "ensure_token lx")
    case (Ok lx1)
    then have "lx_index lx1 = lx_index lx" by (auto simp: ensure_token_def split: if_splits)
    with Ok i before show ?thesis by (simp add: take_escaped_def)
  qed (use i before in \<open>simp_all add: take_escaped_def\<close>)
  with add_byte_holds [OF h, of c 1] i(3) Cons q show ?thesis
    by (auto intro!: byte_meetsI simp: word_add_Some)
qed

lemma parse_byte_meets:
  assumes h: "lexer_holds lx done cur" and idx: "drop (lx_index lx) line = b # bs"
    and quoted: "lx_state lx = Unquoted \<or> cur \<noteq> None"
  shows "byte_meets line (parse_byte line b lx) done (b # bs) (words (lx_state lx) cur (b # bs))"
proof -
  note d = drop_index_Cons [OF idx]
  have add: "byte_meets line (and_then (ensure_token lx) (take_byte b)) done (b # bs) (words (lx_state lx) (word_add b cur) bs)"
    using add_byte_holds [OF h, of b 0] d(1) by (auto intro!: byte_meetsI simp: word_add_Some)
  have same: "byte_meets line (Ok (lx\<lparr>lx_state := Unquoted\<rparr>)) done (b # bs) (words Unquoted cur bs)"
    using h d(1) by (auto intro!: byte_meetsI)
  show ?thesis
  proof (cases "lx_state lx")
    case Unquoted
    have opn: "byte_meets line (and_then (ensure_token lx) (\<lambda>lx. Ok (lx\<lparr>lx_state := s\<rparr>))) done (b # bs) (words s (word_open cur) bs)" for s
      using open_word_meets [OF h] d(1) by (auto intro!: byte_meetsI simp: word_add_Some)
    have "byte_meets line (end_token lx) done (b # bs) (let (ws, e) = words Unquoted None bs in (word_list cur @ ws, e))"
    proof -
      obtain lx' where lx': "end_token lx = Ok lx'" "lexer_holds lx' (done @ word_list cur) None" "lx_state lx' = Unquoted"
        "lx_index lx' = lx_index lx" using end_token_holds [OF h] Unquoted by auto
      then show ?thesis
        unfolding byte_meets_def
        by (intro disjI2 exI [of _ lx'] exI [of _ "done @ word_list cur"] exI [of _ None])
          (simp add: d(1) parse_meets_def case_prod_unfold Let_def split: option.split)
    qed
    with Unquoted add opn take_escaped_meets [OF h, of line bs ensure_token] idx show ?thesis
      by (auto simp: parse_byte_def)
  next
    case SingleQuoted
    then obtain w where "cur = Some w" using quoted by auto
    with SingleQuoted add same ensure_active [of lx "done" w] h show ?thesis by (auto simp: parse_byte_def)
  next
    case DoubleQuoted
    then obtain w where "cur = Some w" using quoted by auto
    with DoubleQuoted add same ensure_active [of lx "done" w] h take_escaped_meets [OF h, of line bs Ok] idx show ?thesis
      by (auto simp: parse_byte_def)
  qed
qed

lemma parse_rest_meets:
  assumes "lexer_holds lx done cur" "lx_state lx = Unquoted \<or> cur \<noteq> None"
  shows "parse_meets (parse_rest line lx) done (words (lx_state lx) cur (drop (lx_index lx) line))"
  using assms
proof (induction "length (drop (lx_index lx) line)" arbitrary: lx "done" cur rule: less_induct)
  case less
  show ?case
  proof (cases "drop (lx_index lx) line")
    case Nil
    then have r: "parse_rest line lx = parse_end lx" unfolding parse_rest_def by (subst parse_loop.simps) simp
    have fit: "words_fit (done @ word_list cur)" using less.prems(1)
      by (cases cur) (auto simp: lexer_holds_def tokens_hold_def words_fit_def)
    show ?thesis
    proof (cases "lx_state lx")
      case Unquoted
      with end_token_holds [OF less.prems(1)] fit show ?thesis
        unfolding r Nil by (auto simp: parse_meets_def parse_end_def lexer_holds_def)
    qed (use fit in \<open>simp_all add: r Nil parse_meets_def parse_end_def\<close>)
  next
    case (Cons b bs)
    from parse_byte_meets [OF less.prems(1) Cons less.prems(2)] show ?thesis
      unfolding Cons parse_rest_step [OF Cons] byte_meets_def
    proof (elim disjE [of "Ex _"] exE conjE, goal_cases)
      case (2 lx' done' cur')
      let ?lx = "lx'\<lparr>lx_index := lx_index lx' + 1\<rparr>"
      have "parse_meets (parse_rest line ?lx) done' (words (lx_state ?lx) cur' (drop (lx_index ?lx) line))"
        using 2 Cons by (intro less.hyps) simp_all
      with 2 show ?case by simp
    qed simp
  qed
qed

lemma tokenized_parse_meets: "parse_meets (tokenized_parse line) [] (words Unquoted None line)"
proof -
  let ?lx = "\<lparr>lx_parsed = tokenized_new, lx_state = Unquoted, lx_index = 0, lx_storage_len = 0, lx_current_len = 0, lx_active = False\<rparr>"
  have "lexer_holds ?lx [] None" by (simp add: lexer_holds_def tokens_hold_def tokenized_new_def)
  from parse_rest_meets [OF this, of line] show ?thesis by (simp add: tokenized_parse_def parse_rest_def)
qed

lemma tokens_hold_bytes:
  assumes "tokens_hold tk ws"
  shows "token_bytes tk = ws" "i < length ws \<Longrightarrow> tokenized_token tk i = Ok (from_utf8 (ws ! i))"
proof -
  have sl: "tk_offsets tk ! i + tk_lengths tk ! i \<le> length (tk_storage tk) \<and>
      take (tk_lengths tk ! i) (drop (tk_offsets tk ! i) (tk_storage tk)) = ws ! i" if i: "i < length ws" for i
  proof -
    have c: "concat ws = concat (take i ws) @ ws ! i @ concat (drop (Suc i) ws)"
      using i by (metis concat.simps(2) concat_append id_take_nth_drop)
    let ?n = "length (concat (take i ws))"
    have o: "tk_offsets tk ! i = ?n" "tk_lengths tk ! i = length (ws ! i)" "take (length (concat ws)) (tk_storage tk) = concat ws"
      "length (concat ws) \<le> length (tk_storage tk)" using assms i by (auto simp: tokens_hold_def)
    have le: "?n + length (ws ! i) \<le> length (concat ws)" by (subst c) simp
    have "take (length (ws ! i)) (drop ?n (tk_storage tk)) = take (length (ws ! i)) (drop ?n (take (length (concat ws)) (tk_storage tk)))"
      using le by (simp add: take_drop min_absorb1 add.commute)
    also have "\<dots> = ws ! i" unfolding o(3) by (subst c) simp
    finally show ?thesis using o le by simp
  qed
  show "token_bytes tk = ws"
    using sl assms by (intro nth_equalityI) (simp_all add: token_bytes_def tokens_hold_def)
  show "i < length ws \<Longrightarrow> tokenized_token tk i = Ok (from_utf8 (ws ! i))"
    using sl [of i] assms by (auto simp: tokenized_token_def slice_def tokens_hold_def)
qed

section \<open>Properties of the word parser\<close>

text \<open>C9. The word parser with its fixed arrays computes exactly the recursive description of the shell's word
  language: when the line holds at most sixteen words of at most 256 bytes in all, it returns
  exactly those words, or exactly the quoting error of the line; otherwise it reports
  \<^verbatim>\<open>ResourceUnavailable\<close>. It never panics.\<close>

theorem tokenizer_refines_words:
  "case words Unquoted None line of (ws, e) \<Rightarrow>
     if length ws \<le> MAX_COMMAND_ARGS \<and> length (concat ws) \<le> LINE_CAPACITY
     then case e of
            None \<Rightarrow> (\<exists>tk. tokenized_parse line = Ok tk \<and> tk_count tk = length ws \<and> token_bytes tk = ws)
          | Some e \<Rightarrow> tokenized_parse line = Err e
     else tokenized_parse line = Err ResourceUnavailable"
proof (cases "words Unquoted None line")
  case (Pair ws e)
  with tokenized_parse_meets [of line] show ?thesis
    using tokens_hold_bytes(1)
    by (auto simp: parse_meets_def words_fit_def tokens_hold_def split: option.splits if_splits)
qed

text \<open>A way to type any words: an escaped byte stands for itself, an empty word is a pair of quotes.\<close>

definition quote_word :: "bytes \<Rightarrow> bytes" where
  "quote_word w = (if w = [] then [squote, squote] else concat (map (\<lambda>b. [backslash, b]) w))"

definition quote_line :: "bytes list \<Rightarrow> bytes" where
  "quote_line ws = concat (map (\<lambda>w. quote_word w @ [space]) ws)"

lemma words_escaped: "words Unquoted (Some v) (concat (map (\<lambda>b. [backslash, b]) w) @ rest) = words Unquoted (Some (v @ w)) rest"
  by (induction w arbitrary: v) simp_all

lemma words_quoted: "words Unquoted None (quote_word w @ rest) = words Unquoted (Some w) rest"
  using words_escaped [of "[hd w]" "tl w" rest] by (cases w) (simp_all add: quote_word_def)

lemma words_quote_line: "words Unquoted None (quote_line ws) = (ws, None)"
  by (induction ws) (simp_all add: quote_line_def words_quoted)

text \<open>Every list of words the shell has room for can be typed: quoting and parsing give the words back.\<close>

theorem quoted_words_roundtrip:
  assumes "length ws \<le> MAX_COMMAND_ARGS" "length (concat ws) \<le> LINE_CAPACITY"
  shows "\<exists>tk. tokenized_parse (quote_line ws) = Ok tk \<and> token_bytes tk = ws"
  using tokenized_parse_meets [of "quote_line ws"] assms tokens_hold_bytes(1)
  by (auto simp: words_quote_line parse_meets_def words_fit_def)

theorem quoted_words_roundtrip_witness:
  "\<exists>tk. tokenized_parse (quote_line [[0x61, squote], [], [space]]) = Ok tk \<and> token_bytes tk = [[0x61, squote], [], [space]]"
  by (rule quoted_words_roundtrip) (simp_all add: MAX_COMMAND_ARGS_def LINE_CAPACITY_def)

end
