(* ===== verification/Lash_Chain.thy ===== *)
theory Lash_Chain
  imports Lash_Parser
begin

text \<open>
  The second half of the shell's parser, \<^verbatim>\<open>user/lash/src/lib.rs\<close>: \<^verbatim>\<open>scan_segments\<close> cuts a line at
  \<^verbatim>\<open>&&\<close>, \<^verbatim>\<open>||\<close> and \<^verbatim>\<open>;\<close> outside quotes and records the bounds of the trimmed pieces in the fixed arrays of
  \<^verbatim>\<open>SegmentScan\<close>. It is related to \<open>chain_spec\<close>, a structural description on plain lists.
\<close>

abbreviation ampersand :: u8 where "ampersand \<equiv> 0x26"
abbreviation bar :: u8 where "bar \<equiv> 0x7c"
abbreviation semicolon :: u8 where "semicolon \<equiv> 0x3b"

section \<open>The scan\<close>

record segment_scan =
  sg_starts :: "nat list"
  sg_ends :: "nat list"
  sg_operators :: "segment_operator list"
  sg_count :: nat

definition segment_scan_new :: segment_scan where
  "segment_scan_new = \<lparr>sg_starts = replicate MAX_CHAIN_SEGMENTS 0, sg_ends = replicate MAX_CHAIN_SEGMENTS 0,
     sg_operators = replicate (MAX_CHAIN_SEGMENTS - 1) Sequence, sg_count = 0\<rparr>"

definition scan_segment :: "segment_scan \<Rightarrow> bytes \<Rightarrow> nat \<Rightarrow> (bytes option, parse_error) outcome" where
  "scan_segment sg line i =
     (if sg_count sg \<le> i then Ok None
      else and_then (index (sg_starts sg) i) (\<lambda>a. and_then (index (sg_ends sg) i) (\<lambda>b.
           and_then (slice line a b) (\<lambda>s. Ok (Some s)))))"

definition operator_before :: "segment_scan \<Rightarrow> nat \<Rightarrow> (segment_operator option, parse_error) outcome" where
  "operator_before sg i =
     (if i = 0 \<or> sg_count sg - 1 < i then Ok None
      else and_then (index (sg_operators sg) (i - 1)) (\<lambda>op. Ok (Some op)))"

definition scan_push :: "nat \<Rightarrow> nat \<Rightarrow> segment_operator option \<Rightarrow> segment_scan \<Rightarrow> (segment_scan, parse_error) outcome" where
  "scan_push start end operator sg =
     (if length (sg_starts sg) \<le> sg_count sg then Err ResourceUnavailable
      else and_then (store (sg_starts sg) (sg_count sg) start) (\<lambda>starts.
           and_then (store (sg_ends sg) (sg_count sg) end) (\<lambda>ends.
             let sg = sg\<lparr>sg_starts := starts, sg_ends := ends\<rparr> in
             case operator of
               None \<Rightarrow> Ok (sg\<lparr>sg_count := sg_count sg + 1\<rparr>)
             | Some op \<Rightarrow>
                 if length (sg_operators sg) \<le> sg_count sg then Err ResourceUnavailable
                 else and_then (store (sg_operators sg) (sg_count sg) op) (\<lambda>ops.
                        Ok (sg\<lparr>sg_operators := ops, sg_count := sg_count sg + 1\<rparr>)))))"

text \<open>The two loops of \<^verbatim>\<open>trim_spaces_range\<close>.\<close>

function trim_front :: "bytes \<Rightarrow> nat \<Rightarrow> nat \<Rightarrow> (nat, parse_error) outcome" where
  "trim_front bs a b =
     (if a < b then and_then (index bs a) (\<lambda>c. if c = space then trim_front bs (a + 1) b else Ok a) else Ok a)"
  by pat_completeness auto
termination by (relation "measure (\<lambda>(bs, a, b). b - a)") auto

fun trim_back :: "bytes \<Rightarrow> nat \<Rightarrow> nat \<Rightarrow> (nat, parse_error) outcome" where
  "trim_back bs a 0 = Ok 0"
| "trim_back bs a (Suc b) =
     (if a < Suc b then and_then (index bs b) (\<lambda>c. if c = space then trim_back bs a b else Ok (Suc b)) else Ok (Suc b))"

declare trim_front.simps [simp del]

definition trim_spaces_range :: "bytes \<Rightarrow> nat \<Rightarrow> nat \<Rightarrow> (nat \<times> nat, parse_error) outcome" where
  "trim_spaces_range bs start end =
     and_then (trim_front bs start end) (\<lambda>a. and_then (trim_back bs a end) (\<lambda>b. Ok (a, b)))"

text \<open>The fragment the three operators share: trim, refuse an empty segment, record it.\<close>

definition cut_segment :: "bytes \<Rightarrow> nat \<Rightarrow> nat \<Rightarrow> segment_operator \<Rightarrow> segment_scan \<Rightarrow> (segment_scan, parse_error) outcome" where
  "cut_segment line segment_start i op sg =
     and_then (trim_spaces_range line segment_start i) (\<lambda>(start, end).
       if start = end then Err InvalidSyntax else scan_push start end (Some op) sg)"

definition next_is :: "bytes \<Rightarrow> nat \<Rightarrow> u8 \<Rightarrow> bool" where
  "next_is line i c \<longleftrightarrow> i + 1 < length line \<and> line ! (i + 1) = c"

function scan_loop ::
  "bytes \<Rightarrow> segment_scan \<Rightarrow> nat \<Rightarrow> nat \<Rightarrow> parse_state \<Rightarrow> (segment_scan \<times> nat \<times> parse_state, parse_error) outcome" where
  "scan_loop line sg segment_start i state =
     (if i < length line
      then let byte = line ! i in
        case state of
          Unquoted \<Rightarrow>
            (if byte = squote then scan_loop line sg segment_start (i + 1) SingleQuoted
             else if byte = dquote then scan_loop line sg segment_start (i + 1) DoubleQuoted
             else if byte = backslash
             then (if length line \<le> i + 1 then Err TrailingBackslash else scan_loop line sg segment_start (i + 2) Unquoted)
             else if byte = ampersand \<and> next_is line i ampersand
             then and_then (cut_segment line segment_start i And sg) (\<lambda>sg. scan_loop line sg (i + 2) (i + 2) Unquoted)
             else if byte = bar \<and> next_is line i bar
             then and_then (cut_segment line segment_start i Or sg) (\<lambda>sg. scan_loop line sg (i + 2) (i + 2) Unquoted)
             else if byte = semicolon
             then and_then (cut_segment line segment_start i Sequence sg) (\<lambda>sg. scan_loop line sg (i + 1) (i + 1) Unquoted)
             else scan_loop line sg segment_start (i + 1) Unquoted)
        | SingleQuoted \<Rightarrow> scan_loop line sg segment_start (i + 1) (if byte = squote then Unquoted else SingleQuoted)
        | DoubleQuoted \<Rightarrow>
            (if byte = dquote then scan_loop line sg segment_start (i + 1) Unquoted
             else if byte = backslash
             then (if length line \<le> i + 1 then Err TrailingBackslash else scan_loop line sg segment_start (i + 2) DoubleQuoted)
             else scan_loop line sg segment_start (i + 1) DoubleQuoted)
      else Ok (sg, segment_start, state))"
  by pat_completeness auto
termination by (relation "measure (\<lambda>(line, sg, a, i, s). length line - i)") auto

declare scan_loop.simps [simp del]

definition scan_end :: "bytes \<Rightarrow> segment_scan \<times> nat \<times> parse_state \<Rightarrow> (segment_scan, parse_error) outcome" where
  "scan_end line = (\<lambda>(sg, segment_start, state).
     case state of
       SingleQuoted \<Rightarrow> Err UnmatchedSingleQuote
     | DoubleQuoted \<Rightarrow> Err UnmatchedDoubleQuote
     | Unquoted \<Rightarrow>
         and_then (trim_spaces_range line segment_start (length line)) (\<lambda>(start, end).
           if start = end then (if sg_count sg = 0 then Ok sg else Err InvalidSyntax)
           else scan_push start end None sg))"

definition scan_segments :: "bytes \<Rightarrow> (segment_scan, parse_error) outcome" where
  "scan_segments line = and_then (scan_loop line segment_scan_new 0 0 Unquoted) (scan_end line)"

section \<open>The language of command chains\<close>

definition trim :: "bytes \<Rightarrow> bytes" where
  "trim bs = rev (dropWhile (\<lambda>b. b = space) (rev (dropWhile (\<lambda>b. b = space) bs)))"

text \<open>A finished segment with the operator that ends it, in front of the rest of the chain.\<close>

definition chain_cut ::
  "segment_operator \<Rightarrow> bytes \<Rightarrow> (bytes \<times> segment_operator) list \<times> (parse_error + bytes)
   \<Rightarrow> (bytes \<times> segment_operator) list \<times> (parse_error + bytes)" where
  "chain_cut op raw rest = (if trim raw = [] then ([], Inl InvalidSyntax) else ((trim raw, op) # fst rest, snd rest))"

text \<open>The finished segments up to the end of the line or its first error; then that error, or the last segment.
  \<open>raw\<close> is the text since the last cut.\<close>

fun chain :: "parse_state \<Rightarrow> bytes \<Rightarrow> bytes \<Rightarrow> (bytes \<times> segment_operator) list \<times> (parse_error + bytes)" where
  "chain Unquoted raw [] = ([], Inr (trim raw))"
| "chain SingleQuoted raw [] = ([], Inl UnmatchedSingleQuote)"
| "chain DoubleQuoted raw [] = ([], Inl UnmatchedDoubleQuote)"
| "chain Unquoted raw (b # bs) =
     (if b = squote then chain SingleQuoted (raw @ [b]) bs
      else if b = dquote then chain DoubleQuoted (raw @ [b]) bs
      else if b = semicolon then chain_cut Sequence raw (chain Unquoted [] bs)
      else case bs of
             [] \<Rightarrow> if b = backslash then ([], Inl TrailingBackslash) else chain Unquoted (raw @ [b]) []
           | c # cs \<Rightarrow>
               if b = backslash then chain Unquoted (raw @ [b, c]) cs
               else if b = ampersand \<and> c = ampersand then chain_cut And raw (chain Unquoted [] cs)
               else if b = bar \<and> c = bar then chain_cut Or raw (chain Unquoted [] cs)
               else chain Unquoted (raw @ [b]) (c # cs))"
| "chain SingleQuoted raw (b # bs) = chain (if b = squote then Unquoted else SingleQuoted) (raw @ [b]) bs"
| "chain DoubleQuoted raw (b # bs) =
     (if b = dquote then chain Unquoted (raw @ [b]) bs
      else if b = backslash
      then (case bs of [] \<Rightarrow> ([], Inl TrailingBackslash) | c # cs \<Rightarrow> chain DoubleQuoted (raw @ [b, c]) cs)
      else chain DoubleQuoted (raw @ [b]) bs)"

definition chain_result ::
  "(bytes \<times> segment_operator) list \<times> (parse_error + bytes) \<Rightarrow> (bytes list \<times> segment_operator list, parse_error) outcome" where
  "chain_result = (\<lambda>(cuts, last).
     if MAX_CHAIN_SEGMENTS \<le> length cuts then Err ResourceUnavailable
     else case last of
            Inl e \<Rightarrow> Err e
          | Inr s \<Rightarrow> if s \<noteq> [] then Ok (map fst cuts @ [s], map snd cuts)
                     else if cuts = [] then Ok ([], []) else Err InvalidSyntax)"

definition chain_spec :: "bytes \<Rightarrow> (bytes list \<times> segment_operator list, parse_error) outcome" where
  "chain_spec line = chain_result (chain Unquoted [] line)"

section \<open>Trimming\<close>

definition part :: "bytes \<Rightarrow> nat \<Rightarrow> nat \<Rightarrow> bytes" where
  "part bs a b = take (b - a) (drop a bs)"

lemma part_Cons: "a < b \<Longrightarrow> b \<le> length bs \<Longrightarrow> part bs a b = bs ! a # part bs (Suc a) b"
  unfolding part_def by (simp add: Cons_nth_drop_Suc [symmetric] take_Cons' Suc_diff_Suc [symmetric])

lemma part_snoc: "a \<le> b \<Longrightarrow> b < length bs \<Longrightarrow> part bs a (Suc b) = part bs a b @ [bs ! b]"
  unfolding part_def by (simp add: Suc_diff_le take_Suc_conv_app_nth)

lemma part_empty [simp]: "part bs a a = []"
  by (simp add: part_def)

lemma part_Nil_iff: "a \<le> b \<Longrightarrow> b \<le> length bs \<Longrightarrow> part bs a b = [] \<longleftrightarrow> a = b"
  by (auto simp: part_def)

lemma trim_front_part:
  assumes "a \<le> b" "b \<le> length bs"
  shows "\<exists>a'. trim_front bs a b = Ok a' \<and> a \<le> a' \<and> a' \<le> b \<and> part bs a' b = dropWhile (\<lambda>b. b = space) (part bs a b)"
  using assms
proof (induction "b - a" arbitrary: a)
  case 0
  then show ?case by (subst trim_front.simps) simp
next
  case (Suc n)
  then have lt: "a < b" "a < length bs" by simp_all
  then have step: "trim_front bs a b = (if bs ! a = space then trim_front bs (Suc a) b else Ok a)"
    by (subst trim_front.simps) (simp add: index_def)
  have "n = b - Suc a" using Suc.hyps(2) by simp
  then obtain a' where "trim_front bs (Suc a) b = Ok a'" "Suc a \<le> a'" "a' \<le> b"
    "part bs a' b = dropWhile (\<lambda>b. b = space) (part bs (Suc a) b)"
    using Suc.hyps(1) [of "Suc a"] Suc.prems lt by auto
  with step lt Suc.prems show ?case by (cases "bs ! a = space") (simp_all add: part_Cons)
qed

lemma trim_back_part:
  assumes "a \<le> b" "b \<le> length bs"
  shows "\<exists>b'. trim_back bs a b = Ok b' \<and> a \<le> b' \<and> b' \<le> b \<and>
    part bs a b' = rev (dropWhile (\<lambda>b. b = space) (rev (part bs a b)))"
  using assms
proof (induction b)
  case (Suc b)
  show ?case
  proof (cases "a = Suc b")
    case False
    with Suc show ?thesis by (auto simp: part_snoc index_def intro: le_SucI)
  qed simp
qed simp

lemma trim_spaces_range_part:
  assumes "a \<le> b" "b \<le> length bs"
  obtains a' b' where "trim_spaces_range bs a b = Ok (a', b')" "a' \<le> b'" "b' \<le> length bs" "part bs a' b' = trim (part bs a b)"
proof -
  obtain a' where a: "trim_front bs a b = Ok a'" "a' \<le> b" "part bs a' b = dropWhile (\<lambda>b. b = space) (part bs a b)"
    using trim_front_part [OF assms] by blast
  obtain b' where "trim_back bs a' b = Ok b'" "a' \<le> b'" "b' \<le> b"
    "part bs a' b' = rev (dropWhile (\<lambda>b. b = space) (rev (part bs a' b)))"
    using trim_back_part [OF a(2) assms(2)] by blast
  with a assms show ?thesis by (intro that [of a' b']) (simp_all add: trim_spaces_range_def trim_def)
qed

section \<open>The scan recognizes the language\<close>

definition scan_holds :: "bytes \<Rightarrow> segment_scan \<Rightarrow> bytes list \<Rightarrow> segment_operator list \<Rightarrow> bool" where
  "scan_holds line sg ss ops \<longleftrightarrow>
     length (sg_starts sg) = MAX_CHAIN_SEGMENTS \<and> length (sg_ends sg) = MAX_CHAIN_SEGMENTS \<and>
     length (sg_operators sg) = MAX_CHAIN_SEGMENTS - 1 \<and> sg_count sg = length ss \<and> length ss \<le> MAX_CHAIN_SEGMENTS \<and>
     take (length ops) (sg_operators sg) = ops \<and> length ops \<le> MAX_CHAIN_SEGMENTS - 1 \<and>
     (\<forall>i < length ss. sg_starts sg ! i \<le> sg_ends sg ! i \<and> sg_ends sg ! i \<le> length line \<and>
        part line (sg_starts sg ! i) (sg_ends sg ! i) = ss ! i)"

lemma scan_push_holds:
  assumes h: "scan_holds line sg (map fst cuts) (map snd cuts)" and r: "a \<le> b" "b \<le> length line"
  shows "length cuts < MAX_CHAIN_SEGMENTS \<Longrightarrow>
      \<exists>sg'. scan_push a b None sg = Ok sg' \<and> scan_holds line sg' (map fst cuts @ [part line a b]) (map snd cuts)"
    and "if length cuts < MAX_CHAIN_SEGMENTS - 1
      then \<exists>sg'. scan_push a b (Some op) sg = Ok sg' \<and> scan_holds line sg' (map fst (cuts @ [(part line a b, op)])) (map snd (cuts @ [(part line a b, op)]))
      else scan_push a b (Some op) sg = Err ResourceUnavailable"
  using assms
  by (auto simp: scan_push_def scan_holds_def store_def nth_append nth_list_update less_Suc_eq Let_def take_Suc_conv_app_nth)

lemma cut_segment_holds:
  assumes h: "scan_holds line sg (map fst cuts) (map snd cuts)" and r: "a \<le> i" "i \<le> length line"
  shows "if trim (part line a i) = [] then cut_segment line a i op sg = Err InvalidSyntax
     else if MAX_CHAIN_SEGMENTS - 1 \<le> length cuts then cut_segment line a i op sg = Err ResourceUnavailable
     else \<exists>sg'. cut_segment line a i op sg = Ok sg' \<and>
       scan_holds line sg' (map fst (cuts @ [(trim (part line a i), op)])) (map snd (cuts @ [(trim (part line a i), op)]))"
proof -
  obtain a' b' where t: "trim_spaces_range line a i = Ok (a', b')" "a' \<le> b'" "b' \<le> length line" "part line a' b' = trim (part line a i)"
    using trim_spaces_range_part [OF r] .
  have "trim (part line a i) = [] \<longleftrightarrow> a' = b'" using part_Nil_iff [OF t(2,3)] t(4) by simp
  with scan_push_holds(2) [OF h t(2,3), of op] t show ?thesis by (simp add: cut_segment_def split: if_splits)
qed

text \<open>What the scan returns when \<open>cuts\<close> is already recorded and \<open>p\<close> describes the rest.\<close>

definition scan_meets ::
  "bytes \<Rightarrow> (segment_scan, parse_error) outcome \<Rightarrow> (bytes \<times> segment_operator) list
   \<Rightarrow> (bytes \<times> segment_operator) list \<times> (parse_error + bytes) \<Rightarrow> bool" where
  "scan_meets line r cuts p \<longleftrightarrow>
     (case chain_result (cuts @ fst p, snd p) of
        Ok (ss, ops) \<Rightarrow> \<exists>sg. r = Ok sg \<and> scan_holds line sg ss ops
      | Err e \<Rightarrow> r = Err e
      | Panic \<Rightarrow> False)"

lemma scan_end_meets:
  assumes h: "scan_holds line sg (map fst cuts) (map snd cuts)" and r: "a \<le> length line" and c: "length cuts < MAX_CHAIN_SEGMENTS"
  shows "scan_meets line (scan_end line (sg, a, s)) cuts (chain s (part line a (length line)) [])"
proof (cases s)
  case Unquoted
  obtain a' b' where t: "trim_spaces_range line a (length line) = Ok (a', b')" "a' \<le> b'" "b' \<le> length line"
    "part line a' b' = trim (part line a (length line))"
    using trim_spaces_range_part [OF r order_refl] .
  have "trim (part line a (length line)) = [] \<longleftrightarrow> a' = b'" using part_Nil_iff [OF t(2,3)] t(4) by simp
  moreover have "sg_count sg = 0 \<longleftrightarrow> cuts = []" using h by (simp add: scan_holds_def)
  ultimately show ?thesis
    using scan_push_holds(1) [OF h t(2,3) c] t h c Unquoted
    by (auto simp: scan_end_def scan_meets_def chain_result_def)
qed (use c in \<open>simp_all add: scan_end_def scan_meets_def chain_result_def\<close>)

lemma scan_cut_meets:
  assumes h: "scan_holds line sg (map fst cuts) (map snd cuts)" and r: "a \<le> i" "i \<le> length line"
    and c: "length cuts < MAX_CHAIN_SEGMENTS"
    and rest: "\<And>sg cuts. scan_holds line sg (map fst cuts) (map snd cuts) \<Longrightarrow> length cuts < MAX_CHAIN_SEGMENTS \<Longrightarrow>
      scan_meets line (f sg) cuts p"
  shows "scan_meets line (and_then (cut_segment line a i op sg) f) cuts (chain_cut op (part line a i) p)"
proof (cases "trim (part line a i) = []")
  case True
  with cut_segment_holds [OF h r, of op] c show ?thesis by (simp add: chain_cut_def scan_meets_def chain_result_def)
next
  case False
  note q = cut_segment_holds [OF h r, of op]
  let ?cuts = "cuts @ [(trim (part line a i), op)]"
  show ?thesis
  proof (cases "MAX_CHAIN_SEGMENTS - 1 \<le> length cuts")
    case True
    with c have "MAX_CHAIN_SEGMENTS \<le> Suc (length cuts + k)" for k by simp
    with True False q show ?thesis by (simp add: chain_cut_def scan_meets_def chain_result_def)
  next
    case n: False
    with False q obtain sg' where sg: "cut_segment line a i op sg = Ok sg'" "scan_holds line sg' (map fst ?cuts) (map snd ?cuts)"
      by auto
    have "scan_meets line (f sg') ?cuts p" using n by (intro rest [OF sg(2)]) simp
    with sg(1) False show ?thesis by (simp add: chain_cut_def scan_meets_def)
  qed
qed

lemma next_is_drop: "drop i line = b # bs \<Longrightarrow> next_is line i c \<longleftrightarrow> (\<exists>cs. bs = c # cs)"
proof -
  assume d: "drop i line = b # bs"
  show ?thesis
  proof (cases bs)
    case Nil
    with drop_index_Cons(4) [OF d] show ?thesis by (simp add: next_is_def)
  next
    case (Cons c' cs)
    then have "drop (Suc i) line = c' # cs" "Suc i < length line" using drop_index_Cons [OF d] by auto
    then have "line ! Suc i = c'" by (simp add: nth_via_drop)
    with Cons \<open>Suc i < length line\<close> show ?thesis by (auto simp: next_is_def)
  qed
qed

definition scan_rest :: "bytes \<Rightarrow> segment_scan \<Rightarrow> nat \<Rightarrow> nat \<Rightarrow> parse_state \<Rightarrow> (segment_scan, parse_error) outcome" where
  "scan_rest line sg a i s = and_then (scan_loop line sg a i s) (scan_end line)"

lemma and_then_if: "and_then (if b then x else y) f = (if b then and_then x f else and_then y f)"
  by simp

lemma scan_rest_step:
  assumes d: "drop i line = b # bs"
  shows "scan_rest line sg a i s =
    (case s of
       Unquoted \<Rightarrow>
         (if b = squote then scan_rest line sg a (i + 1) SingleQuoted
          else if b = dquote then scan_rest line sg a (i + 1) DoubleQuoted
          else if b = backslash then (if bs = [] then Err TrailingBackslash else scan_rest line sg a (i + 2) Unquoted)
          else if b = ampersand \<and> (\<exists>cs. bs = ampersand # cs)
          then and_then (cut_segment line a i And sg) (\<lambda>sg. scan_rest line sg (i + 2) (i + 2) Unquoted)
          else if b = bar \<and> (\<exists>cs. bs = bar # cs)
          then and_then (cut_segment line a i Or sg) (\<lambda>sg. scan_rest line sg (i + 2) (i + 2) Unquoted)
          else if b = semicolon
          then and_then (cut_segment line a i Sequence sg) (\<lambda>sg. scan_rest line sg (i + 1) (i + 1) Unquoted)
          else scan_rest line sg a (i + 1) Unquoted)
     | SingleQuoted \<Rightarrow> scan_rest line sg a (i + 1) (if b = squote then Unquoted else SingleQuoted)
     | DoubleQuoted \<Rightarrow>
         (if b = dquote then scan_rest line sg a (i + 1) Unquoted
          else if b = backslash then (if bs = [] then Err TrailingBackslash else scan_rest line sg a (i + 2) DoubleQuoted)
          else scan_rest line sg a (i + 1) DoubleQuoted))"
proof -
  have i: "i < length line" "line ! i = b" "length line \<le> i + 1 \<longleftrightarrow> bs = []"
    using drop_index_Cons(2,4) [OF d] nth_via_drop [OF d] by (auto simp: not_less [symmetric])
  show ?thesis
    unfolding scan_rest_def
    by (subst scan_loop.simps, cases s)
      (simp_all only: i Let_def parse_state.case if_True and_then_if and_then_assoc next_is_drop [OF d] and_then.simps)
qed

lemma part_step: "drop i line = b # bs \<Longrightarrow> a \<le> i \<Longrightarrow> part line a (Suc i) = part line a i @ [b]"
  using drop_index_Cons(2) [of i line b bs] by (simp add: part_snoc nth_via_drop)

lemma scan_rest_meets:
  assumes "scan_holds line sg (map fst cuts) (map snd cuts)" "length cuts < MAX_CHAIN_SEGMENTS" "a \<le> i" "i \<le> length line"
  shows "scan_meets line (scan_rest line sg a i s) cuts (chain s (part line a i) (drop i line))"
  using assms
proof (induction "length line - i" arbitrary: sg cuts a i s rule: less_induct)
  case less
  show ?case
  proof (cases "drop i line")
    case Nil
    then have "scan_rest line sg a i s = scan_end line (sg, a, s)" "i = length line"
      using less.prems unfolding scan_rest_def by (subst scan_loop.simps, simp_all)
    with scan_end_meets less.prems Nil show ?thesis by simp
  next
    case (Cons b bs)
    note d = drop_index_Cons [OF Cons]
    have lt: "i < length line" using d by simp
    have one: "scan_meets line (scan_rest line sg a (i + 1) s') cuts (chain s' (part line a i @ [b]) bs)" for s'
      using less.hyps [of "i + 1" sg cuts a s'] less.prems lt d(1) part_step [OF Cons less.prems(3)] by simp
    have two: "scan_meets line (scan_rest line sg a (i + 2) s') cuts (chain s' (part line a i @ [b, c]) cs)" if bs: "bs = c # cs" for s' c cs
    proof -
      have d': "drop (Suc i) line = c # cs" using d(1) bs by simp
      have "part line a (Suc (Suc i)) = part line a i @ [b, c]"
        using part_step [OF d', of a] part_step [OF Cons less.prems(3)] less.prems(3) by simp
      with less.hyps [of "i + 2" sg cuts a s'] less.prems drop_index_Cons [OF d'] lt show ?thesis by simp
    qed
    have err: "scan_meets line (Err e) cuts ([], Inl e)" for e
      using less.prems(2) by (simp add: scan_meets_def chain_result_def)
    have cut1: "scan_meets line (and_then (cut_segment line a i op sg) (\<lambda>sg. scan_rest line sg (i + 1) (i + 1) Unquoted)) cuts
        (chain_cut op (part line a i) (chain Unquoted [] bs))" for op
    proof (rule scan_cut_meets [OF less.prems(1,3,4,2)], goal_cases)
      case (1 sg cuts)
      with less.hyps [of "i + 1" sg cuts "i + 1" Unquoted] lt d(1) show ?case by simp
    qed
    have cut2: "scan_meets line (and_then (cut_segment line a i op sg) (\<lambda>sg. scan_rest line sg (i + 2) (i + 2) Unquoted)) cuts
        (chain_cut op (part line a i) (chain Unquoted [] cs))" if bs: "bs = c # cs" for op c cs
    proof (rule scan_cut_meets [OF less.prems(1,3,4,2)], goal_cases)
      case (1 sg cuts)
      have d': "drop (Suc i) line = c # cs" using d(1) bs by simp
      from 1 less.hyps [of "i + 2" sg cuts "i + 2" Unquoted] lt drop_index_Cons [OF d'] show ?case by simp
    qed
    show ?thesis
    proof (cases s)
      case Unquoted
      show ?thesis
        unfolding Cons scan_rest_step [OF Cons] Unquoted chain.simps(4) [of "part line a i" b bs]
        using one err cut1 two cut2 by (cases bs) (auto simp del: chain.simps)
    next
      case SingleQuoted
      show ?thesis
        unfolding Cons scan_rest_step [OF Cons] SingleQuoted chain.simps(5) [of "part line a i" b bs]
        using one by (auto simp del: chain.simps)
    next
      case DoubleQuoted
      show ?thesis
        unfolding Cons scan_rest_step [OF Cons] DoubleQuoted chain.simps(6) [of "part line a i" b bs]
        using one err two by (cases bs) (auto simp del: chain.simps)
    qed
  qed
qed

lemma scan_segments_meets: "scan_meets line (scan_segments line) [] (chain Unquoted [] line)"
proof -
  have "scan_holds line segment_scan_new (map fst []) (map snd [])"
    by (simp add: scan_holds_def segment_scan_new_def MAX_CHAIN_SEGMENTS_def)
  from scan_rest_meets [OF this, of 0 0 Unquoted] show ?thesis
    by (simp add: scan_rest_def scan_segments_def MAX_CHAIN_SEGMENTS_def part_def)
qed

lemma chain_result_lengths:
  "chain_result p = Ok (ss, ops) \<Longrightarrow> length ops = length ss - 1"
  by (auto simp: chain_result_def split: prod.splits sum.splits if_splits)

lemma scan_holds_reads:
  assumes h: "scan_holds line sg ss ops" and n: "length ops = length ss - 1"
  shows "scan_segment sg line i = Ok (if i < length ss then Some (ss ! i) else None)"
    and "operator_before sg i = Ok (if i \<noteq> 0 \<and> i < length ss then Some (ops ! (i - 1)) else None)"
proof -
  show "scan_segment sg line i = Ok (if i < length ss then Some (ss ! i) else None)"
    using h by (auto simp: scan_holds_def scan_segment_def index_def slice_def part_def)
  have "sg_operators sg ! j = ops ! j" if "j < length ops" for j
    using h that by (metis nth_take scan_holds_def)
  then show "operator_before sg i = Ok (if i \<noteq> 0 \<and> i < length ss then Some (ops ! (i - 1)) else None)"
    using h n by (auto simp: scan_holds_def operator_before_def index_def)
qed

lemma scan_segments_spec:
  "case chain_spec line of
     Ok (ss, ops) \<Rightarrow> \<exists>sg. scan_segments line = Ok sg \<and> sg_count sg = length ss \<and>
       (\<forall>i. scan_segment sg line i = Ok (if i < length ss then Some (ss ! i) else None)) \<and>
       (\<forall>i. operator_before sg i = Ok (if i \<noteq> 0 \<and> i < length ss then Some (ops ! (i - 1)) else None))
   | Err e \<Rightarrow> scan_segments line = Err e
   | Panic \<Rightarrow> False"
proof (cases "chain_spec line")
  case (Ok p)
  obtain ss ops where p: "p = (ss, ops)" by fastforce
  with Ok scan_segments_meets [of line] obtain sg where "scan_segments line = Ok sg" "scan_holds line sg ss ops"
    by (auto simp: scan_meets_def chain_spec_def)
  moreover from Ok p have "length ops = length ss - 1" by (simp add: chain_spec_def chain_result_lengths)
  ultimately show ?thesis
    using scan_holds_reads Ok p by (auto simp: scan_holds_def)
qed (use scan_segments_meets [of line] in \<open>auto simp: scan_meets_def chain_spec_def\<close>)

section \<open>Property of the segment scanner\<close>

text \<open>Cutting a line with fixed arrays and index arithmetic computes the structural description of a
  command chain: the scanner reports exactly the error of the line (an empty segment, an open quote,
  a trailing backslash, more than 32 segments), or records a scan whose accessors return exactly the
  trimmed segments and the operators between them, and nothing past the end. It never panics.\<close>

theorem scan_refines_chain:
  "case chain_spec line of
     Ok (ss, ops) \<Rightarrow> \<exists>sg. scan_segments line = Ok sg \<and> sg_count sg = length ss \<and>
       (\<forall>i. scan_segment sg line i = Ok (if i < length ss then Some (ss ! i) else None)) \<and>
       (\<forall>i. operator_before sg i = Ok (if i \<noteq> 0 \<and> i < length ss then Some (ops ! (i - 1)) else None))
   | Err e \<Rightarrow> scan_segments line = Err e
   | Panic \<Rightarrow> False"
  by (rule scan_segments_spec)

end
