(* ===== verification/Lash_Paths.thy ===== *)
theory Lash_Paths
  imports Lash_Chain Liblazer Path_Norm
begin

text \<open>
  How the shell finds programs, \<^verbatim>\<open>user/lash/src/paths.rs\<close>: lexical normalization of a typed path against
  the working directory, the probe for an existing file, and the walk over the entries of \<^verbatim>\<open>PATH\<close>. A shell
  operation is a function of the state behind its system calls; it returns, panics, or ends the process
  with \<^verbatim>\<open>exit\<close>, which is the \<open>Err\<close> of its outcome. A failed library call is a value the shell matches on:
  \<open>attempt\<close> makes it one.
\<close>

section \<open>Operations of a user program\<close>

datatype program_exit = Exited u64

type_synonym ('s, 'a) program = "'s \<Rightarrow> ('a, program_exit) outcome \<times> 's"

definition return_st :: "'a \<Rightarrow> ('s, 'a) program" where
  "return_st a s = (Ok a, s)"

definition panic_st :: "('s, 'a) program" where
  "panic_st s = (Panic, s)"

definition lib_exit :: "u64 \<Rightarrow> ('s, 'a) program" where
  "lib_exit status s = (Err (Exited status), s)"

definition attempt :: "('s \<Rightarrow> ('a, 'e) outcome \<times> 's) \<Rightarrow> ('s, 'e + 'a) program" where
  "attempt call s = (case call s of
       (Ok a, s) \<Rightarrow> (Ok (Inr a), s)
     | (Err e, s) \<Rightarrow> (Ok (Inl e), s)
     | (Panic, s) \<Rightarrow> (Panic, s))"

text \<open>A call that fills a buffer which is only read after a success, and which the program slices to the
  reported length.\<close>

definition attempt_fill :: "('s \<Rightarrow> (u64, 'e) outcome \<times> bytes \<times> 's) \<Rightarrow> ('s, 'e + bytes) program" where
  "attempt_fill call s = (case call s of
       (Ok len, buffer, s) \<Rightarrow> if unat len \<le> length buffer then (Ok (Inr (take (unat len) buffer)), s) else (Panic, s)
     | (Err e, buffer, s) \<Rightarrow> (Ok (Inl e), s)
     | (Panic, buffer, s) \<Rightarrow> (Panic, s))"

text \<open>String literals, and \<^verbatim>\<open>println!\<close>: the pieces of the format string and its arguments, then the line end.\<close>

definition ascii :: "string \<Rightarrow> bytes" where
  "ascii s = map of_char s"

definition println :: "'s system \<Rightarrow> bytes list \<Rightarrow> ('s, unit) program" where
  "println sys pieces s = (Ok (), lib_print sys (pieces @ [[0x0a]]) s)"

definition println_status :: "'s system \<Rightarrow> bytes list \<Rightarrow> u64 \<Rightarrow> ('s, u64) program" where
  "println_status sys pieces status = bind_st (println sys pieces) (\<lambda>_. return_st status)"

section \<open>Types\<close>

definition COMMAND_PATH_CAPACITY :: nat where "COMMAND_PATH_CAPACITY = LINE_CAPACITY + 1 + 128"
definition PATH_BUFFER_CAPACITY :: nat where "PATH_BUFFER_CAPACITY = 128"

record shell =
  sh_line :: bytes
  sh_len :: nat
  sh_byte :: bytes
  sh_cwd :: bytes

record lash_normalized_path =
  lp_bytes :: bytes
  lp_len :: nat

datatype resolution_error = ResolutionInvalidPath | ResolutionResourceUnavailable

datatype 'a path_search_step = SearchContinue | SearchMatched | SearchReturn 'a

datatype 'a path_search_outcome = SearchNoMatches | SearchSomeMatched | SearchReturned 'a

definition normalized_as_str :: "lash_normalized_path \<Rightarrow> (bytes, resolution_error) outcome" where
  "normalized_as_str np = and_then (slice (lp_bytes np) 0 (lp_len np)) (\<lambda>s. ok_or (from_utf8 s) ResolutionInvalidPath)"

section \<open>Normalization\<close>

text \<open>The two scanning loops over the typed text.\<close>

function skip_while :: "(u8 \<Rightarrow> bool) \<Rightarrow> bytes \<Rightarrow> nat \<Rightarrow> nat" where
  "skip_while P bs i = (if i < length bs \<and> P (bs ! i) then skip_while P bs (i + 1) else i)"
  by pat_completeness auto
termination by (relation "measure (\<lambda>(P, bs, i). length bs - i)") auto

declare skip_while.simps [simp del]

text \<open>\<^verbatim>\<open>while len > 0 && output[len] != b'/' { len -= 1 }\<close>\<close>

fun back_to_slash :: "bytes \<Rightarrow> nat \<Rightarrow> (nat, resolution_error) outcome" where
  "back_to_slash output 0 = Ok 0"
| "back_to_slash output (Suc len) =
     and_then (index output (Suc len)) (\<lambda>b. if b \<noteq> 0x2f then back_to_slash output len else Ok (Suc len))"

definition root_if_empty :: "bytes \<times> nat \<Rightarrow> (bytes \<times> nat, resolution_error) outcome" where
  "root_if_empty = (\<lambda>(output, len). if len = 0 then and_then (store output 0 0x2f) (\<lambda>output. Ok (output, 1)) else Ok (output, len))"

definition separate :: "bytes \<times> nat \<Rightarrow> (bytes \<times> nat, resolution_error) outcome" where
  "separate = (\<lambda>(output, len).
     if 1 < len
     then and_then (index output (len - 1)) (\<lambda>b.
            if b = 0x2f then Ok (output, len)
            else if length output \<le> len then Err ResolutionResourceUnavailable
            else and_then (store output len 0x2f) (\<lambda>output. Ok (output, len + 1)))
     else Ok (output, len))"

definition apply_segment :: "bytes \<Rightarrow> bytes \<times> nat \<Rightarrow> (bytes \<times> nat, resolution_error) outcome" where
  "apply_segment segment = (\<lambda>(output, len).
     if segment = [0x2e] then Ok (output, len)
     else if segment = [0x2e, 0x2e]
     then (if 1 < len then and_then (back_to_slash output (len - 1)) (\<lambda>l. root_if_empty (output, l)) else Ok (output, len))
     else and_then (root_if_empty (output, len)) (\<lambda>p.
          and_then (separate p) (\<lambda>(output, len).
            if length output < len + length segment then Err ResolutionResourceUnavailable
            else and_then (copy_at output len segment) (\<lambda>output. Ok (output, len + length segment)))))"

lemma skip_while_ge: "i \<le> skip_while P bs i"
proof (induction P bs i rule: skip_while.induct)
  case (1 P bs i)
  then show ?case by (subst skip_while.simps) auto
qed

lemma skip_while_stops: "skip_while P bs i < length bs \<Longrightarrow> \<not> P (bs ! skip_while P bs i)"
proof (induction P bs i rule: skip_while.induct)
  case (1 P bs i)
  then show ?case by (subst (asm) skip_while.simps, subst skip_while.simps) (auto split: if_splits)
qed

lemma skip_while_progress: "i < length bs \<Longrightarrow> P (bs ! i) \<Longrightarrow> i < skip_while P bs i"
  using skip_while_ge [of "Suc i" P bs] by (subst skip_while.simps) simp

function normalize_loop :: "bytes \<Rightarrow> nat \<Rightarrow> bytes \<times> nat \<Rightarrow> (bytes \<times> nat, resolution_error) outcome" where
  "normalize_loop input i out =
     (let start = skip_while (\<lambda>b. b = 0x2f) input i;
          stop = skip_while (\<lambda>b. b \<noteq> 0x2f) input start
      in if length input \<le> start then Ok out
         else and_then (slice input start stop) (\<lambda>segment.
              and_then (apply_segment segment out) (\<lambda>out. normalize_loop input stop out)))"
  by pat_completeness auto
termination
proof (relation "measure (\<lambda>(input, i, out). length input - i)", goal_cases)
  case (2 input i out start stop)
  then have "start < stop" using skip_while_stops skip_while_progress by (metis not_le)
  moreover have "i \<le> start" using 2 skip_while_ge by simp
  ultimately show ?case using 2 by simp
qed simp

declare normalize_loop.simps [simp del]

definition normalize_against :: "bytes \<Rightarrow> bytes \<Rightarrow> (lash_normalized_path, resolution_error) outcome" where
  "normalize_against cwd input =
     and_then (if input \<noteq> [] \<and> hd input = 0x2f
               then and_then (store (replicate LINE_CAPACITY 0) 0 0x2f) (\<lambda>output. Ok (output, 1))
               else if LINE_CAPACITY < length cwd then Err ResolutionResourceUnavailable
               else and_then (copy_at (replicate LINE_CAPACITY 0) 0 cwd) (\<lambda>output. Ok (output, length cwd))) (\<lambda>out.
     and_then (normalize_loop input 0 out) (\<lambda>out.
     and_then (root_if_empty out) (\<lambda>(output, len). Ok \<lparr>lp_bytes = output, lp_len = len\<rparr>)))"

text \<open>The working directory as the shell reads it into its own buffer, \<^verbatim>\<open>unwrap_or("/")\<close> included; \<open>Inl\<close> when
  the kernel refuses.\<close>

definition read_cwd :: "'s system \<Rightarrow> (shell \<times> 's, get_cwd_error + bytes) program" where
  "read_cwd sys = (\<lambda>(sh, s).
     case lib_getcwd sys (sh_cwd sh) s of
       (Ok len, buffer, s) \<Rightarrow>
         (let w = (sh\<lparr>sh_cwd := buffer\<rparr>, s) in
          if unat len \<le> length buffer
          then (Ok (Inr (case from_utf8 (take (unat len) buffer) of None \<Rightarrow> [0x2f] | Some cwd \<Rightarrow> cwd)), w)
          else (Panic, w))
     | (Err e, buffer, s) \<Rightarrow> (Ok (Inl e), (sh\<lparr>sh_cwd := buffer\<rparr>, s))
     | (Panic, buffer, s) \<Rightarrow> (Panic, (sh\<lparr>sh_cwd := buffer\<rparr>, s)))"

definition normalize_command_path :: "'s system \<Rightarrow> bytes \<Rightarrow> (shell \<times> 's, resolution_error + lash_normalized_path) program" where
  "normalize_command_path sys input =
     bind_st (read_cwd sys) (\<lambda>cwd.
       case cwd of
         Inl _ \<Rightarrow> return_st (Inl ResolutionResourceUnavailable)
       | Inr cwd \<Rightarrow> attempt (\<lambda>w. (normalize_against cwd input, w)))"

section \<open>Probing and searching\<close>

text \<open>The one-byte buffer of \<^verbatim>\<open>probe_path\<close> is never read.\<close>

definition probe_path :: "'s system \<Rightarrow> bytes \<Rightarrow> ('s, resolution_error + bool) program" where
  "probe_path sys path =
     bind_st (attempt (\<lambda>s. case lib_read_file sys path [0] s of (r, buffer, s) \<Rightarrow> (r, s))) (\<lambda>r.
       return_st (case r of
           Inr _ \<Rightarrow> Inr True
         | Inl ReadFileBufferTooSmall \<Rightarrow> Inr True
         | Inl ReadFileNotFound \<Rightarrow> Inr False
         | Inl ReadFileNotAFile \<Rightarrow> Inr False
         | Inl ReadFileInvalidPath \<Rightarrow> Inl ResolutionInvalidPath
         | Inl ReadFileResourceUnavailable \<Rightarrow> Inl ResolutionResourceUnavailable))"

definition load_path :: "'s system \<Rightarrow> ('s, bytes option) program" where
  "load_path sys =
     bind_st (attempt_fill (lib_get_env sys (ascii ''PATH'') (replicate PATH_BUFFER_CAPACITY 0))) (\<lambda>r.
       return_st (case r of Inl _ \<Rightarrow> None | Inr path \<Rightarrow> from_utf8 path))"

definition build_path_candidate :: "bytes \<Rightarrow> bytes \<Rightarrow> bytes \<Rightarrow> (bytes \<times> bytes, resolution_error) outcome" where
  "build_path_candidate entry command candidate_buffer =
     (let needed = length entry + 1 + length command in
      if length candidate_buffer < needed then Err ResolutionResourceUnavailable
      else and_then (copy_at candidate_buffer 0 entry) (\<lambda>b.
           and_then (store b (length entry) 0x2f) (\<lambda>b.
           and_then (copy_at b (length entry + 1) command) (\<lambda>b.
           and_then (slice b 0 needed) (\<lambda>s.
           and_then (ok_or (from_utf8 s) ResolutionInvalidPath) (\<lambda>candidate. Ok (candidate, b)))))))"

definition search_step :: "(bytes \<Rightarrow> ('s, 'a path_search_step) program) \<Rightarrow> bytes \<Rightarrow> bytes \<Rightarrow> bytes
   \<Rightarrow> ('s, resolution_error + bytes \<times> 'a path_search_step) program" where
  "search_step visitor entry command candidate_buffer =
     (if entry \<noteq> [] \<and> hd entry = 0x2f
      then bind_st (attempt (\<lambda>s. (build_path_candidate entry command candidate_buffer, s))) (\<lambda>r.
             case r of
               Inl e \<Rightarrow> return_st (Inl e)
             | Inr (candidate, b) \<Rightarrow> bind_st (visitor candidate) (\<lambda>step. return_st (Inr (b, step))))
      else return_st (Inr (candidate_buffer, SearchContinue)))"

function search_loop ::
  "(bytes \<Rightarrow> ('s, 'a path_search_step) program) \<Rightarrow> bytes \<Rightarrow> bytes \<Rightarrow> bytes \<Rightarrow> bool \<Rightarrow> nat
   \<Rightarrow> ('s, resolution_error + 'a path_search_outcome) program" where
  "search_loop visitor command path candidate_buffer matched segment_start =
     (let finish = \<lambda>m. return_st (Inr (if m then SearchSomeMatched else SearchNoMatches)) in
      if segment_start \<le> length path
      then let remainder = drop segment_start path;
               segment_len = length (takeWhile (\<lambda>b. b \<noteq> 0x3a) remainder);
               entry = take segment_len remainder
           in bind_st (search_step visitor entry command candidate_buffer) (\<lambda>r.
                case r of
                  Inl e \<Rightarrow> return_st (Inl e)
                | Inr (b, SearchReturn val) \<Rightarrow> return_st (Inr (SearchReturned val))
                | Inr (b, step) \<Rightarrow>
                    let m = (matched \<or> step = SearchMatched) in
                    if length path \<le> segment_start + segment_len then finish m
                    else search_loop visitor command path b m (segment_start + (segment_len + 1)))
      else finish matched)"
  by pat_completeness auto
termination
  by (relation "measure (\<lambda>(v, c, p, b, m, i). length p + 1 - i)") auto

declare search_loop.simps [simp del]

definition with_path_candidates ::
  "'s system \<Rightarrow> bytes \<Rightarrow> (bytes \<Rightarrow> ('s, 'a path_search_step) program) \<Rightarrow> ('s, resolution_error + 'a path_search_outcome) program" where
  "with_path_candidates sys command visitor =
     bind_st (load_path sys) (\<lambda>path.
       case path of
         None \<Rightarrow> return_st (Inr SearchNoMatches)
       | Some path \<Rightarrow> search_loop visitor command path (replicate COMMAND_PATH_CAPACITY 0) False 0)"

section \<open>Text that stays UTF-8\<close>

text \<open>One encoded character: how many bytes follow its first one, and which.\<close>

definition utf8_tail_len :: "u8 \<Rightarrow> nat" where
  "utf8_tail_len b = (if b < 0x80 then 0 else if 0xc2 \<le> b \<and> b \<le> 0xdf then 1 else if 0xe0 \<le> b \<and> b \<le> 0xef then 2
     else if 0xf0 \<le> b \<and> b \<le> 0xf4 then 3 else 0)"

definition utf8_tail :: "u8 \<Rightarrow> bytes \<Rightarrow> bool" where
  "utf8_tail b cs \<longleftrightarrow> length cs = utf8_tail_len b \<and> (\<forall>c \<in> set cs. utf8_cont c) \<and>
     (b < 0x80 \<or> 0xc2 \<le> b \<and> b \<le> 0xf4) \<and>
     (b = 0xe0 \<longrightarrow> 0xa0 \<le> hd cs) \<and> (b = 0xed \<longrightarrow> hd cs \<le> 0x9f) \<and> (b = 0xf0 \<longrightarrow> 0x90 \<le> hd cs) \<and> (b = 0xf4 \<longrightarrow> hd cs \<le> 0x8f)"

lemma utf8_valid_Cons:
  "utf8_valid (b # bs) \<longleftrightarrow> utf8_tail b (take (utf8_tail_len b) bs) \<and> utf8_valid (drop (utf8_tail_len b) bs)"
proof -
  consider "b < 0x80" | "\<not> b < 0x80" "0xc2 \<le> b \<and> b \<le> 0xdf" | "\<not> b < 0x80" "0xe0 \<le> b \<and> b \<le> 0xef"
    | "\<not> b < 0x80" "0xf0 \<le> b \<and> b \<le> 0xf4"
    | "\<not> b < 0x80" "\<not> (0xc2 \<le> b \<and> b \<le> 0xdf)" "\<not> (0xe0 \<le> b \<and> b \<le> 0xef)" "\<not> (0xf0 \<le> b \<and> b \<le> 0xf4)"
    by blast
  then show ?thesis
  proof cases
    case 1
    then have "b \<noteq> 0xe0" "b \<noteq> 0xed" "b \<noteq> 0xf0" "b \<noteq> 0xf4" by auto
    with 1 show ?thesis by (simp add: utf8_tail_def utf8_tail_len_def)
  next
    case 2
    then have n: "b \<noteq> 0xe0" "b \<noteq> 0xed" "b \<noteq> 0xf0" "b \<noteq> 0xf4" "b \<le> 0xf4" by (auto intro: order.trans)
    have l: "utf8_tail_len b = 1" using 2 by (simp add: utf8_tail_len_def)
    from n l 2 show ?thesis by (cases bs) (simp_all add: utf8_tail_def)
  next
    case 3
    then have n: "\<not> (0xc2 \<le> b \<and> b \<le> 0xdf)" "b \<noteq> 0xf0" "b \<noteq> 0xf4" "0xc2 \<le> b" "b \<le> 0xf4"
      by (auto simp: word_le_nat_alt)
    have l: "utf8_tail_len b = 2" using 3 n by (simp add: utf8_tail_len_def)
    have t: "take 2 (x # y # r) = [x, y]" "drop 2 (x # y # r) = r" "take 2 [x] = [x]" for x y :: u8 and r
      by (simp_all add: numeral_2_eq_2)
    show ?thesis
    proof (cases bs)
      case (Cons x r)
      with n l 3 t show ?thesis by (cases r) (auto simp: utf8_tail_def)
    qed (use n l 3 in \<open>simp add: utf8_tail_def\<close>)
  next
    case 4
    then have n: "\<not> (0xc2 \<le> b \<and> b \<le> 0xdf)" "\<not> (0xe0 \<le> b \<and> b \<le> 0xef)" "b \<noteq> 0xe0" "b \<noteq> 0xed" "0xc2 \<le> b" "b \<le> 0xf4"
      by (auto simp: word_le_nat_alt)
    have l: "utf8_tail_len b = 3" using 4 n by (simp add: utf8_tail_len_def)
    have t: "take 3 (x # y # z # r) = [x, y, z]" "drop 3 (x # y # z # r) = r" "take 3 [x] = [x]" "take 3 [x, y] = [x, y]" for x y z :: u8 and r
      by (simp_all add: numeral_3_eq_3)
    show ?thesis
    proof (cases bs)
      case (Cons x r)
      show ?thesis
      proof (cases r)
        case r: (Cons y r')
        with Cons n l 4 t show ?thesis by (cases r') (auto simp: utf8_tail_def)
      qed (use Cons n l 4 t in \<open>auto simp: utf8_tail_def\<close>)
    qed (use n l 4 in \<open>simp add: utf8_tail_def\<close>)
  next
    case 5
    then have "\<not> (0xc2 \<le> b \<and> b \<le> 0xf4)"
      by (auto simp: word_le_nat_alt)
    with 5 show ?thesis by (simp add: utf8_tail_def del: de_Morgan_conj)
  qed
qed

lemma utf8_append: "utf8_valid a \<Longrightarrow> utf8_valid (a @ b) = utf8_valid b"
proof (induction "length a" arbitrary: a rule: less_induct)
  case less
  show ?case
  proof (cases a)
    case (Cons x r)
    let ?n = "utf8_tail_len x"
    have v: "utf8_tail x (take ?n r)" "utf8_valid (drop ?n r)" using less.prems Cons utf8_valid_Cons by blast+
    then have n: "?n \<le> length r" by (auto simp: utf8_tail_def min_def split: if_splits)
    then have "utf8_valid (a @ b) \<longleftrightarrow> utf8_valid (drop ?n r @ b)"
      using v(1) utf8_valid_Cons [of x "r @ b"] Cons by simp
    with less.hyps [OF _ v(2)] Cons show ?thesis by simp
  qed simp
qed

lemma utf8_ascii_cut:
  assumes c: "c < 0x80" and v: "utf8_valid (a @ c # b)"
  shows "utf8_valid a \<and> utf8_valid b"
proof -
  have nc: "\<not> utf8_cont c" using c by (auto simp: utf8_cont_def)
  have "utf8_valid a" using v
  proof (induction "length a" arbitrary: a rule: less_induct)
    case less
    show ?case
    proof (cases a)
      case (Cons x r)
      let ?n = "utf8_tail_len x"
      have v: "utf8_tail x (take ?n (r @ c # b))" "utf8_valid (drop ?n (r @ c # b))"
        using less.prems Cons utf8_valid_Cons [of x "r @ c # b"] by simp_all
      have n: "?n \<le> length r"
      proof (rule ccontr)
        assume "\<not> ?n \<le> length r"
        then have "c \<in> set (take ?n (r @ c # b))" by (simp add: take_Cons')
        with v(1) nc show False by (auto simp: utf8_tail_def)
      qed
      with v less.hyps [of "drop ?n r"] Cons have "utf8_valid (drop ?n r)" by simp
      with v(1) n Cons utf8_valid_Cons [of x r] show ?thesis by simp
    qed simp
  qed
  with utf8_append [OF this, of "c # b"] v c show ?thesis by simp
qed

lemma split_on_unfold:
  "split_on s xs = takeWhile (\<lambda>x. x \<noteq> s) xs # (case dropWhile (\<lambda>x. x \<noteq> s) xs of [] \<Rightarrow> [] | y # ys \<Rightarrow> split_on s ys)"
  by (induction xs) auto

lemma split_on_utf8:
  assumes "s < 0x80" "utf8_valid xs" "c \<in> set (split_on s xs)"
  shows "utf8_valid c"
  using assms(2,3)
proof (induction "length xs" arbitrary: xs rule: less_induct)
  case less
  show ?case
  proof (cases "dropWhile (\<lambda>x. x \<noteq> s) xs")
    case Nil
    then have "takeWhile (\<lambda>x. x \<noteq> s) xs = xs" by (metis append.right_neutral takeWhile_dropWhile_id)
    then have "c = xs" using less.prems(2) unfolding split_on_unfold [of s xs] Nil by simp
    with less.prems(1) show ?thesis by simp
  next
    case (Cons y ys)
    have "y = s" using hd_dropWhile [of "\<lambda>x. x \<noteq> s" xs] Cons by simp
    then have xs: "takeWhile (\<lambda>x. x \<noteq> s) xs @ s # ys = xs" using Cons takeWhile_dropWhile_id [of "\<lambda>x. x \<noteq> s" xs] by simp
    have v: "utf8_valid (takeWhile (\<lambda>x. x \<noteq> s) xs)" "utf8_valid ys"
      using utf8_ascii_cut [OF assms(1), of "takeWhile (\<lambda>x. x \<noteq> s) xs" ys] less.prems(1) unfolding xs by auto
    have "length (takeWhile (\<lambda>x. x \<noteq> s) xs @ s # ys) = length xs" using xs by simp
    then have "length ys < length xs" by simp
    moreover have "c = takeWhile (\<lambda>x. x \<noteq> s) xs \<or> c \<in> set (split_on s ys)"
      using less.prems(2) unfolding split_on_unfold [of s xs] Cons by simp
    ultimately show ?thesis using less.hyps v by blast
  qed
qed

section \<open>The search visits the candidates in order\<close>

text \<open>The files a command name stands for: one for each absolute entry of \<^verbatim>\<open>PATH\<close>, in the order of the list.\<close>

definition candidates :: "bytes \<Rightarrow> bytes \<Rightarrow> bytes list" where
  "candidates path command =
     map (\<lambda>entry. entry @ 0x2f # command) (filter (\<lambda>entry. entry \<noteq> [] \<and> hd entry = 0x2f) (split_on 0x3a path))"

fun visit_all ::
  "(bytes \<Rightarrow> ('s, 'a path_search_step) program) \<Rightarrow> bool \<Rightarrow> bytes list \<Rightarrow> ('s, resolution_error + 'a path_search_outcome) program" where
  "visit_all visitor matched [] = return_st (Inr (if matched then SearchSomeMatched else SearchNoMatches))"
| "visit_all visitor matched (c # cs) =
     bind_st (visitor c) (\<lambda>step.
       case step of
         SearchReturn val \<Rightarrow> return_st (Inr (SearchReturned val))
       | SearchMatched \<Rightarrow> visit_all visitor True cs
       | SearchContinue \<Rightarrow> visit_all visitor matched cs)"

lemma bind_st_return [simp]: "bind_st (return_st a) f = f a"
  by (rule ext) (simp add: bind_st_def return_st_def)

lemma bind_st_assoc: "bind_st (bind_st m f) g = bind_st m (\<lambda>a. bind_st (f a) g)"
  by (rule ext) (simp add: bind_st_def split: prod.splits outcome.splits)

lemma attempt_pure [simp]:
  "attempt (\<lambda>s. (Ok a, s)) = return_st (Inr a)" "attempt (\<lambda>s. (Err e, s)) = return_st (Inl e)"
  by (simp_all add: attempt_def return_st_def fun_eq_iff)

lemma build_path_candidate_ok:
  assumes "length entry + 1 + length command \<le> length b" "utf8_valid entry" "utf8_valid command"
  shows "\<exists>b'. build_path_candidate entry command b = Ok (entry @ 0x2f # command, b') \<and> length b' = length b"
proof -
  let ?b1 = "overwrite b 0 entry" and ?n = "length entry + 1 + length command"
  let ?b2 = "?b1[length entry := 0x2f]"
  let ?b3 = "overwrite ?b2 (length entry + 1) command"
  have l: "length ?b1 = length b" "length ?b2 = length b" "length ?b3 = length b" using assms(1) by simp_all
  have "take ?n ?b3 = take (length entry + 1) ?b2 @ command" using assms(1) l by simp
  also have "\<dots> = entry @ 0x2f # command" using assms(1) l by (simp add: take_Suc_conv_app_nth)
  finally have "take ?n ?b3 = entry @ 0x2f # command" .
  moreover have "utf8_valid (entry @ 0x2f # command)" using assms(2,3) by (simp add: utf8_append)
  ultimately show ?thesis
    using assms(1) l by (simp add: build_path_candidate_def Let_def store_def ok_or_def from_utf8_def)
qed

lemma search_step_eq:
  assumes "length entry + 1 + length command \<le> length b" "utf8_valid entry" "utf8_valid command"
  shows "\<exists>b'. length b' = length b \<and> search_step visitor entry command b =
    (if entry \<noteq> [] \<and> hd entry = 0x2f then bind_st (visitor (entry @ 0x2f # command)) (\<lambda>step. return_st (Inr (b', step)))
     else return_st (Inr (b', SearchContinue)))"
proof -
  obtain b' where b': "build_path_candidate entry command b = Ok (entry @ 0x2f # command, b')" "length b' = length b"
    using build_path_candidate_ok [OF assms] by blast
  show ?thesis
  proof (cases "entry \<noteq> [] \<and> hd entry = 0x2f")
    case True
    with b' show ?thesis by (intro exI [of _ b']) (simp add: search_step_def)
  next
    case False
    then show ?thesis by (intro exI [of _ b]) (simp only: search_step_def if_False)
  qed
qed

lemma first_entry:
  fixes xs :: "'a list"
  defines "e \<equiv> \<lambda>i s. takeWhile (\<lambda>x. x \<noteq> s) (drop i xs)"
  shows "i + length (e i s) < length xs \<Longrightarrow> drop i xs = e i s @ s # drop (i + (length (e i s) + 1)) xs"
    and "length xs \<le> i + length (e i s) \<Longrightarrow> drop i xs = e i s"
    and "s \<notin> set (e i s)"
proof -
  have id: "e i s @ drop (i + length (e i s)) xs = drop i xs"
    using takeWhile_dropWhile_id [of "\<lambda>x. x \<noteq> s" "drop i xs"] by (simp add: e_def dropWhile_eq_drop add.commute)
  show "s \<notin> set (e i s)" unfolding e_def by (auto dest: set_takeWhileD)
  show "length xs \<le> i + length (e i s) \<Longrightarrow> drop i xs = e i s" using id by simp
  assume more: "i + length (e i s) < length xs"
  then obtain y ys where y: "drop (i + length (e i s)) xs = y # ys" by (cases "drop (i + length (e i s)) xs") auto
  then have d: "dropWhile (\<lambda>x. x \<noteq> s) (drop i xs) = y # ys" by (simp add: e_def dropWhile_eq_drop add.commute)
  have "y = s" using hd_dropWhile [of "\<lambda>x. x \<noteq> s" "drop i xs"] unfolding d by simp
  with id y drop_index_Cons(1) [OF y] show "drop i xs = e i s @ s # drop (i + (length (e i s) + 1)) xs" by simp
qed

text \<open>One turn of the search, with what follows it abbreviated.\<close>

lemma search_loop_turn:
  fixes visitor :: "bytes \<Rightarrow> ('s, 'a path_search_step) program"
  defines "e \<equiv> \<lambda>i path. takeWhile (\<lambda>x. x \<noteq> 0x3a) (drop i path)"
  defines "rest \<equiv> \<lambda>visitor command path b i m. if length path \<le> i + length (e i path)
      then return_st (Inr (if m then SearchSomeMatched else SearchNoMatches))
      else search_loop (visitor :: bytes \<Rightarrow> ('s, 'a path_search_step) program) command path b m (i + (length (e i path) + 1))"
  assumes "length path + 1 + length command \<le> length b" "utf8_valid (drop i path)" "utf8_valid command" "i \<le> length path"
  obtains b' where "length b' = length b" "search_loop visitor command path b matched i =
      (if e i path \<noteq> [] \<and> hd (e i path) = 0x2f
       then bind_st (visitor (e i path @ 0x2f # command)) (\<lambda>step.
              case step of
                SearchReturn v \<Rightarrow> return_st (Inr (SearchReturned v))
              | SearchMatched \<Rightarrow> rest visitor command path b' i True
              | SearchContinue \<Rightarrow> rest visitor command path b' i matched)
       else rest visitor command path b' i matched)"
proof -
  have e: "take (length (e i path)) (drop i path) = e i path" unfolding e_def by (metis takeWhile_eq_take)
  have fits: "length (e i path) + 1 + length command \<le> length b"
    using length_takeWhile_le [of "\<lambda>x. x \<noteq> 0x3a" "drop i path"] assms(3) unfolding e_def by simp
  have "utf8_valid (e i path)"
    using split_on_utf8 [of "0x3a" "drop i path" "e i path"] assms(4) split_on_unfold [of "0x3a" "drop i path"] by (simp add: e_def)
  then obtain b' where b': "length b' = length b" "search_step visitor (e i path) command b =
      (if e i path \<noteq> [] \<and> hd (e i path) = 0x2f
       then bind_st (visitor (e i path @ 0x2f # command)) (\<lambda>step. return_st (Inr (b', step)))
       else return_st (Inr (b', SearchContinue)))"
    using search_step_eq [OF fits _ assms(5), of visitor] by blast
  have "search_loop visitor command path b matched i =
    bind_st (search_step visitor (e i path) command b) (\<lambda>r.
      case r of
        Inl e \<Rightarrow> return_st (Inl e)
      | Inr (b, SearchReturn val) \<Rightarrow> return_st (Inr (SearchReturned val))
      | Inr (b, step) \<Rightarrow> rest visitor command path b i (matched \<or> step = SearchMatched))"
    using assms(6) by (subst search_loop.simps) (simp only: Let_def if_True rest_def e_def e [unfolded e_def])
  with b' show ?thesis
    by (intro that [of b']) (auto simp: bind_st_assoc intro!: arg_cong2 [where f = bind_st] split: path_search_step.split)
qed

lemma search_loop_visits:
  assumes "length path + 1 + length command \<le> length b" "utf8_valid (drop i path)" "utf8_valid command" "i \<le> length path"
  shows "search_loop visitor command path b matched i = visit_all visitor matched (candidates (drop i path) command)"
  using assms
proof (induction "length path - i" arbitrary: i b matched rule: less_induct)
  case less
  let ?e = "takeWhile (\<lambda>x. x \<noteq> 0x3a) (drop i path)"
  let ?next = "i + (length ?e + 1)"
  obtain b' where b': "length b' = length b" and step: "search_loop visitor command path b matched i =
      (let rest = \<lambda>m. if length path \<le> i + length ?e then return_st (Inr (if m then SearchSomeMatched else SearchNoMatches))
          else search_loop visitor command path b' m ?next
       in if ?e \<noteq> [] \<and> hd ?e = 0x2f
          then bind_st (visitor (?e @ 0x2f # command)) (\<lambda>step.
              case step of SearchReturn v \<Rightarrow> return_st (Inr (SearchReturned v)) | SearchMatched \<Rightarrow> rest True | SearchContinue \<Rightarrow> rest matched)
          else rest matched)"
    unfolding Let_def by (rule search_loop_turn [OF less.prems])
  show ?case
  proof (cases "length path \<le> i + length ?e")
    case True
    then have "split_on 0x3a (drop i path) = [?e]" using first_entry(2,3) [where xs = path and i = i and s = "0x3a"] split_on_no by metis
    then show ?thesis unfolding step candidates_def using True by (simp cong: path_search_step.case_cong)
  next
    case False
    then have cut: "drop i path = ?e @ 0x3a # drop ?next path" using first_entry(1) [where xs = path and i = i and s = "0x3a"] by simp
    then have "split_on 0x3a (drop i path) = ?e # split_on 0x3a (drop ?next path)"
      using split_on_append_sep [OF first_entry(3)] by metis
    moreover have "utf8_valid (drop ?next path)"
      using utf8_ascii_cut [of "0x3a" ?e "drop ?next path"] less.prems(2) cut by simp
    then have "search_loop visitor command path b' m ?next = visit_all visitor m (candidates (drop ?next path) command)" for m
      using less.hyps [of ?next b' m] less.prems(1,3,4) False b' by simp
    ultimately show ?thesis unfolding step candidates_def using False by (simp cong: path_search_step.case_cong)
  qed
qed

end
