(* ===== verification/Lash_Resolution.thy ===== *)
theory Lash_Resolution
  imports Lash_Paths
begin

text \<open>
  The shell resolves a typed path by itself (\<^verbatim>\<open>normalize_command_path\<close>), the kernel resolves the path of a
  system call (\<^verbatim>\<open>normalize_path\<close>): two different routines, one with a stack of component offsets, one that
  searches back for a slash. They agree.
\<close>

section \<open>The typed text as components\<close>

fun apply_segments :: "bytes list \<Rightarrow> bytes \<times> nat \<Rightarrow> (bytes \<times> nat, resolution_error) outcome" where
  "apply_segments [] out = Ok out"
| "apply_segments (c # cs) out = and_then (apply_segment c out) (apply_segments cs)"

lemma skip_while_takeWhile: "i \<le> length bs \<Longrightarrow> skip_while P bs i = i + length (takeWhile P (drop i bs))"
proof (induction P bs i rule: skip_while.induct)
  case (1 P bs i)
  show ?case
  proof (cases "i < length bs")
    case True
    then have d: "drop i bs = bs ! i # drop (i + 1) bs" by (simp add: Cons_nth_drop_Suc)
    show ?thesis using 1 True by (subst skip_while.simps) (simp add: d)
  next
    case False
    then show ?thesis by (subst skip_while.simps) simp
  qed
qed

lemma split_on_skip: "filter (\<lambda>c. c \<noteq> []) (split_on s (dropWhile (\<lambda>x. x = s) xs)) = filter (\<lambda>c. c \<noteq> []) (split_on s xs)"
  by (induction xs) simp_all

lemma normalize_loop_segments:
  "i \<le> length input \<Longrightarrow>
   normalize_loop input i out = apply_segments (filter (\<lambda>c. c \<noteq> []) (split_on 0x2f (drop i input))) out"
proof (induction "length input - i" arbitrary: i out rule: less_induct)
  case less
  let ?start = "skip_while (\<lambda>b. b = 0x2f) input i"
  let ?stop = "skip_while (\<lambda>b. b \<noteq> 0x2f) input ?start"
  have start: "?start = i + length (takeWhile (\<lambda>b. b = 0x2f) (drop i input))" using skip_while_takeWhile less.prems by blast
  then have dstart: "drop ?start input = dropWhile (\<lambda>b. b = 0x2f) (drop i input)" by (simp add: dropWhile_eq_drop add.commute)
  have le: "?start \<le> length input"
    using start length_takeWhile_le [of "\<lambda>b. b = 0x2f" "drop i input"] less.prems by simp
  have segs: "filter (\<lambda>c. c \<noteq> []) (split_on 0x2f (drop i input)) = filter (\<lambda>c. c \<noteq> []) (split_on 0x2f (drop ?start input))"
    unfolding dstart by (rule split_on_skip [symmetric])
  show ?case
  proof (cases "length input \<le> ?start")
    case True
    then show ?thesis unfolding segs by (subst normalize_loop.simps) simp
  next
    case False
    let ?seg = "takeWhile (\<lambda>b. b \<noteq> 0x2f) (drop ?start input)"
    have stop: "?stop = ?start + length ?seg" using skip_while_takeWhile le by blast
    have lt: "?start < ?stop" using False skip_while_stops skip_while_progress by (metis not_le)
    have stop_le: "?stop \<le> length input"
      using stop length_takeWhile_le [of "\<lambda>b. b \<noteq> 0x2f" "drop ?start input"] le by simp
    have slice: "slice input ?start ?stop = (Ok ?seg :: (bytes, resolution_error) outcome)"
      using lt stop_le stop by (simp add: takeWhile_eq_take [symmetric])
    have dstop: "drop ?stop input = dropWhile (\<lambda>b. b \<noteq> 0x2f) (drop ?start input)"
      using stop by (simp add: dropWhile_eq_drop add.commute)
    have "split_on 0x2f (drop ?start input) = ?seg # (case drop ?stop input of [] \<Rightarrow> [] | y # ys \<Rightarrow> split_on 0x2f ys)"
      unfolding dstop by (rule split_on_unfold)
    moreover have "filter (\<lambda>c. c \<noteq> []) (case drop ?stop input of [] \<Rightarrow> [] | y # ys \<Rightarrow> split_on 0x2f ys)
        = filter (\<lambda>c. c \<noteq> []) (split_on 0x2f (drop ?stop input))"
      using hd_dropWhile [of "\<lambda>b. b \<noteq> 0x2f" "drop ?start input"] unfolding dstop [symmetric]
      by (cases "drop ?stop input") auto
    moreover have "?seg \<noteq> []" using lt stop by (metis add.right_neutral length_0_conv less_irrefl)
    ultimately have split: "filter (\<lambda>c. c \<noteq> []) (split_on 0x2f (drop ?start input))
        = ?seg # filter (\<lambda>c. c \<noteq> []) (split_on 0x2f (drop ?stop input))" by simp
    have IH: "normalize_loop input ?stop = apply_segments (filter (\<lambda>c. c \<noteq> []) (split_on 0x2f (drop ?stop input)))"
      using less.hyps [of ?stop] stop_le lt False skip_while_ge [of i "\<lambda>b. b = 0x2f" input] by (intro ext) simp
    have "normalize_loop input i out = and_then (apply_segment ?seg out) (normalize_loop input ?stop)"
      using False slice by (subst normalize_loop.simps) (simp add: Let_def)
    then show ?thesis unfolding segs split IH by simp
  qed
qed

section \<open>One component\<close>

text \<open>The buffer holds the printed form of a stack of components.\<close>

definition out_holds :: "bytes \<times> nat \<Rightarrow> bytes list \<Rightarrow> bool" where
  "out_holds = (\<lambda>(output, len) stack. length output = LINE_CAPACITY \<and> len = length (render stack) \<and> len \<le> LINE_CAPACITY \<and>
     take len output = render stack \<and> (\<forall>c \<in> set stack. canonical_component c))"

lemma back_to_slash_finds:
  "p \<le> n \<Longrightarrow> n < length output \<Longrightarrow> output ! p = 0x2f \<Longrightarrow> (\<forall>q. p < q \<and> q \<le> n \<longrightarrow> output ! q \<noteq> 0x2f) \<Longrightarrow> back_to_slash output n = Ok p"
proof (induction n)
  case (Suc n)
  show ?case
  proof (cases "p = Suc n")
    case True
    with Suc.prems show ?thesis by (simp add: index_def)
  next
    case False
    with Suc show ?thesis by (simp add: index_def)
  qed
qed simp

lemma render_last:
  assumes "canonical_component c"
  shows "1 < length (render (stack @ [c]))" "last (render (stack @ [c])) \<noteq> 0x2f"
proof -
  have c: "c \<noteq> []" "0x2f \<notin> set c" using assms by (auto simp: canonical_component_def)
  then show "1 < length (render (stack @ [c]))" by (cases c) (simp_all add: render_snoc)
  have "last c \<noteq> 0x2f" using c last_in_set by metis
  with c show "last (render (stack @ [c])) \<noteq> 0x2f" by (simp add: render_snoc)
qed

lemma apply_up:
  assumes h: "out_holds (output, len) stack"
  shows "\<exists>out'. apply_segment [0x2e, 0x2e] (output, len) = Ok out' \<and> out_holds out' (butlast stack)"
proof (cases stack rule: rev_cases)
  case Nil
  with h show ?thesis by (auto simp: apply_segment_def out_holds_def)
next
  case (snoc st c)
  have c: "canonical_component c" "0x2f \<notin> set c" and cst: "\<forall>c \<in> set st. canonical_component c"
    using h snoc by (auto simp: out_holds_def canonical_component_def)
  let ?p = "if st = [] then 0 else length (render st)"
  let ?pre = "if st = [] then [] else render st"
  have len: "len = ?p + 1 + length c" "1 < len" "len \<le> length output" "length output = LINE_CAPACITY"
    using h snoc render_last(1) [OF c(1), of st] by (auto simp: out_holds_def render_snoc)
  have t: "take len output = ?pre @ 0x2f # c" using h snoc by (auto simp: out_holds_def render_snoc)
  have at: "output ! q = (?pre @ 0x2f # c) ! q" if "q < len" for q using t that by (metis nth_take)
  have "back_to_slash output (len - 1) = Ok ?p"
  proof (rule back_to_slash_finds)
    show "output ! ?p = 0x2f" using at [of ?p] len(1) by (simp add: nth_append)
    show "\<forall>q. ?p < q \<and> q \<le> len - 1 \<longrightarrow> output ! q \<noteq> 0x2f"
    proof (intro allI impI)
      fix q assume q: "?p < q \<and> q \<le> len - 1"
      then have "output ! q = c ! (q - ?p - 1)" using at [of q] len(1,2) by (auto simp: nth_append nth_Cons')
      moreover have "q - ?p - 1 < length c" using q len(1) by linarith
      ultimately show "output ! q \<noteq> 0x2f" using c(2) nth_mem by metis
    qed
  qed (use len in auto)
  then have a: "apply_segment [0x2e, 0x2e] (output, len) = root_if_empty (output, ?p)"
    using len(2) by (simp add: apply_segment_def)
  show ?thesis
  proof (cases "st = []")
    case True
    with a snoc len show ?thesis by (cases "output") (simp_all add: root_if_empty_def out_holds_def store_def)
  next
    case False
    have "take (length (render st)) output = render st"
      using arg_cong [OF t, of "take (length (render st))"] False len by (simp add: min_absorb1)
    with False a snoc len cst render_length_pos [of st] show ?thesis
      by (simp add: root_if_empty_def out_holds_def)
  qed
qed

lemma apply_push:
  assumes h: "out_holds (output, len) stack" and c: "canonical_component c"
  shows "if LINE_CAPACITY < length (render (stack @ [c])) then apply_segment c (output, len) = Err ResolutionResourceUnavailable
     else \<exists>out'. apply_segment c (output, len) = Ok out' \<and> out_holds out' (stack @ [c])"
proof -
  have out: "length output = LINE_CAPACITY" "len = length (render stack)" "len \<le> LINE_CAPACITY" "take len output = render stack"
    and all: "\<forall>d \<in> set (stack @ [c]). canonical_component d" using h c by (auto simp: out_holds_def)
  have cc: "c \<noteq> []" "c \<noteq> [0x2e]" "c \<noteq> [0x2e, 0x2e]" using c by (auto simp: canonical_component_def)
  have pos: "len \<noteq> 0" using render_length_pos [of stack] out(2) by simp
  have a: "apply_segment c (output, len) = and_then (separate (output, len)) (\<lambda>(output, len).
      if length output < len + length c then Err ResolutionResourceUnavailable
      else and_then (copy_at output len c) (\<lambda>output. Ok (output, len + length c)))"
    using cc pos by (simp add: apply_segment_def root_if_empty_def)
  show ?thesis
  proof (cases stack rule: rev_cases)
    case Nil
    with a out all show ?thesis by (simp add: separate_def out_holds_def)
  next
    case (snoc st d)
    then have d: "1 < len" "last (render stack) \<noteq> 0x2f" using render_last [of d st] all out(2) by auto
    have "last (render stack) = output ! (len - 1)"
      using last_conv_nth [of "render stack"] arg_cong [OF out(4), of "\<lambda>xs. xs ! (len - 1)"] out(2) pos by simp
    then have s: "separate (output, len) = (if LINE_CAPACITY \<le> len then Err ResolutionResourceUnavailable else Ok (output[len := 0x2f], len + 1))"
      using d out(1,3) by (auto simp: separate_def index_def store_def)
    have r: "render (stack @ [c]) = render stack @ 0x2f # c" using snoc render_snoc [of stack c] by simp
    show ?thesis
    proof (cases "LINE_CAPACITY < length (render (stack @ [c]))")
      case True
      with a s r out(1,2) cc(1) show ?thesis by (cases "LINE_CAPACITY \<le> len") simp_all
    next
      case False
      then have lt: "len + 1 + length c \<le> LINE_CAPACITY" "\<not> LINE_CAPACITY \<le> len" using r out(2) by simp_all
      have "take (len + 1 + length c) (overwrite (output[len := 0x2f]) (len + 1) c) = render stack @ 0x2f # c"
        using lt out(1,4) by (simp add: take_Suc_conv_app_nth)
      with False lt a s r out(1,2) all show ?thesis by (simp add: out_holds_def)
    qed
  qed
qed

section \<open>Agreement\<close>

lemma apply_segments_walk:
  assumes "out_holds out stack" "\<forall>c \<in> set cs. c \<noteq> [] \<and> 0x2f \<notin> set c" "walk LINE_CAPACITY cs stack = Some stack'"
  shows "\<exists>out'. apply_segments cs out = Ok out' \<and> out_holds out' stack'"
  using assms
proof (induction cs arbitrary: out stack)
  case (Cons c cs)
  obtain buf len where out: "out = (buf, len)" by fastforce
  consider "c = [0x2e]" | "c = [0x2e, 0x2e]" | "canonical_component c"
    using Cons.prems(2) by (auto simp: canonical_component_def)
  then show ?case
  proof cases
    case 1
    with Cons.IH [OF Cons.prems(1)] Cons.prems(2,3) out show ?thesis by (simp add: apply_segment_def)
  next
    case 2
    obtain out' where "apply_segment c out = Ok out'" "out_holds out' (butlast stack)"
      using apply_up Cons.prems(1) 2 out by blast
    with Cons.IH Cons.prems(2,3) 2 show ?thesis by simp
  next
    case 3
    then have w: "\<not> LINE_CAPACITY < length (render (stack @ [c]))" "walk LINE_CAPACITY cs (stack @ [c]) = Some stack'"
      using Cons.prems(3) by (auto simp: canonical_component_def split: if_splits)
    then obtain out' where "apply_segment c out = Ok out'" "out_holds out' (stack @ [c])"
      using apply_push [of buf len stack c] Cons.prems(1) 3 out by auto
    with Cons.IH w(2) Cons.prems(2) show ?thesis by simp
  qed
qed simp

lemma walk_skip_empty: "walk cap (filter (\<lambda>c. c \<noteq> []) cs) stack = walk cap cs stack"
  by (induction cs arbitrary: stack) simp_all

lemma normalize_against_walk:
  assumes st: "\<forall>c \<in> set st. canonical_component c" "length (render st) \<le> LINE_CAPACITY"
    and w: "walk LINE_CAPACITY (split_on 0x2f input) (if input \<noteq> [] \<and> hd input = 0x2f then [] else st) = Some stack"
  shows "\<exists>np. normalize_against (render st) input = Ok np \<and> lp_len np = length (render stack) \<and>
     lp_len np \<le> LINE_CAPACITY \<and> take (lp_len np) (lp_bytes np) = render stack"
proof -
  let ?s = "if input \<noteq> [] \<and> hd input = 0x2f then [] else st"
  let ?out = "if input \<noteq> [] \<and> hd input = 0x2f then ((replicate LINE_CAPACITY 0)[0 := 0x2f], 1)
     else (overwrite (replicate LINE_CAPACITY 0) 0 (render st), length (render st))"
  have h: "out_holds ?out ?s"
  proof (cases "input \<noteq> [] \<and> hd input = 0x2f")
    case True
    then show ?thesis by (simp add: out_holds_def LINE_CAPACITY_def take_update_swap)
  next
    case False
    with st show ?thesis by (auto simp: out_holds_def)
  qed
  have "\<forall>c \<in> set (filter (\<lambda>c. c \<noteq> []) (split_on 0x2f input)). c \<noteq> [] \<and> 0x2f \<notin> set c" using split_on_no_sep by fastforce
  then obtain out' where o: "apply_segments (filter (\<lambda>c. c \<noteq> []) (split_on 0x2f input)) ?out = Ok out'" "out_holds out' stack"
    using apply_segments_walk [OF h] w walk_skip_empty by metis
  have "normalize_against (render st) input = and_then (normalize_loop input 0 ?out) (\<lambda>out.
      and_then (root_if_empty out) (\<lambda>(output, len). Ok \<lparr>lp_bytes = output, lp_len = len\<rparr>))"
    using st(2) by (simp add: normalize_against_def LINE_CAPACITY_def store_def)
  then show ?thesis
    using o render_length_pos [of stack] normalize_loop_segments [of 0 input ?out]
    by (cases out') (simp add: root_if_empty_def out_holds_def)
qed

text \<open>C10. The shell and the kernel name the same file: whenever the kernel's own path resolution, given the
  process's working directory, accepts a typed path, the shell's independent routine resolves it to
  the same absolute path. (The working directory of a process is always the printed form of canonical
  components, at most 64 deep.)\<close>

theorem shell_resolves_like_kernel:
  assumes "\<forall>c \<in> set st. canonical_component c" "length st \<le> MAX_PATH_COMPONENTS" "length (render st) \<le> LINE_CAPACITY"
    "normalize_path (render st) input (replicate LINE_CAPACITY 0) = Ok (n, buffer)"
  shows "\<exists>np. normalize_against (render st) input = Ok np \<and> lp_len np = n \<and>
    take n (lp_bytes np) = take n buffer"
proof -
  have ne: "input \<noteq> []" "0 < length (replicate LINE_CAPACITY (0::u8))"
    using assms(4) by (auto simp: normalize_path_def LINE_CAPACITY_def)
  obtain stack where s: "walk LINE_CAPACITY (path_components (render st) input) [] = Some stack" "n = length (render stack)"
    "take n buffer = render stack"
    using normalize_path_eq [OF ne, of "render st"] assms(4) by (auto split: option.splits)
  have "walk LINE_CAPACITY (split_on 0x2f input) (if input \<noteq> [] \<and> hd input = 0x2f then [] else st) = Some stack"
    using s(1) walk_render [OF assms(1-3)] by (auto simp: path_components_def walk_append split: if_splits)
  from normalize_against_walk [OF assms(1,3) this] s(2,3) show ?thesis by metis
qed

text \<open>In \<^verbatim>\<open>/a\<close>, the text \<^verbatim>\<open>./../b\<close> names \<^verbatim>\<open>/b\<close> for both.\<close>

theorem shell_resolves_like_kernel_witness:
  "\<exists>np. normalize_against [0x2f, 0x61] [0x2e, 0x2f, 0x2e, 0x2e, 0x2f, 0x62] = Ok np \<and> lp_len np = 2 \<and>
     take 2 (lp_bytes np) = [0x2f, 0x62]"
proof -
  have w: "walk LINE_CAPACITY (path_components (render [[0x61]]) [0x2e, 0x2f, 0x2e, 0x2e, 0x2f, 0x62]) [] = Some [[0x62]]"
    by code_simp
  obtain b where b: "normalize_path (render [[0x61]]) [0x2e, 0x2f, 0x2e, 0x2e, 0x2f, 0x62] (replicate LINE_CAPACITY 0) = Ok (2, b)"
    "take 2 b = [0x2f, 0x62]"
    using normalize_path_eq [of "[0x2e, 0x2f, 0x2e, 0x2e, 0x2f, 0x62]" "replicate LINE_CAPACITY 0" "render [[0x61]]"] w
    by (auto simp: LINE_CAPACITY_def numeral_2_eq_2)
  from shell_resolves_like_kernel [OF _ _ _ b(1)] b(2) show ?thesis
    by (simp add: canonical_component_def MAX_PATH_COMPONENTS_def LINE_CAPACITY_def)
qed

end
