(* ===== verification/Lash_Shell.thy ===== *)
theory Lash_Shell
  imports Lash_Resolution
begin

text \<open>
  The shell itself: \<^verbatim>\<open>commands.rs\<close> runs programs, \<^verbatim>\<open>builtins.rs\<close> holds the built-in commands, \<^verbatim>\<open>shell.rs\<close>
  executes a line and \<^verbatim>\<open>repl.rs\<close> edits it. Everything is a function of the shell's own buffers and of the
  state behind its system calls, for any behaviour of those calls.
\<close>

datatype execution_mode = Interactive | Batch

text \<open>\<^verbatim>\<open>tokens.token(i).unwrap_or(d)\<close>, and \<^verbatim>\<open>{}\<close> on an integer.\<close>

definition token_or :: "tokenized_command \<Rightarrow> nat \<Rightarrow> bytes \<Rightarrow> ('s, bytes) program" where
  "token_or tk i d =
     (case tokenized_token tk i of
        Ok None \<Rightarrow> return_st d
      | Ok (Some t) \<Rightarrow> return_st t
      | _ \<Rightarrow> panic_st)"

function decimal :: "nat \<Rightarrow> bytes" where
  "decimal n = (if n < 10 then [of_nat (48 + n)] else decimal (n div 10) @ [of_nat (48 + n mod 10)])"
  by pat_completeness auto
termination by (relation "measure id") auto

declare decimal.simps [simp del]

section \<open>Running programs: commands.rs\<close>

definition command_not_found :: "'s system \<Rightarrow> bytes \<Rightarrow> ('s, unit) program" where
  "command_not_found sys command = println sys [ascii ''lash: command not found: '', command]"

definition report_command_status :: "'s system \<Rightarrow> u64 \<Rightarrow> execution_mode \<Rightarrow> ('s, u64) program" where
  "report_command_status sys status mode =
     (if status \<noteq> 0 \<and> mode = Interactive
      then bind_st (println sys [ascii ''lash: command exited with status '', decimal (unat status)]) (\<lambda>_.
             println_status sys [] status)
      else return_st status)"

definition print_invalid_path :: "'s system \<Rightarrow> bytes \<Rightarrow> ('s, u64) program" where
  "print_invalid_path sys path = println_status sys [ascii ''lash: invalid path: '', path] 1"

definition print_resource_unavailable :: "'s system \<Rightarrow> bytes \<Rightarrow> ('s, u64) program" where
  "print_resource_unavailable sys message = println_status sys [message] 1"

definition not_found_status :: "'s system \<Rightarrow> bytes \<Rightarrow> ('s, u64) program" where
  "not_found_status sys command = bind_st (command_not_found sys command) (\<lambda>_. return_st 1)"

definition unable_to_run :: bytes where "unable_to_run = ascii ''lash: unable to run command: resource unavailable''"
definition unable_to_resolve :: bytes where "unable_to_resolve = ascii ''lash: unable to resolve command: resource unavailable''"

definition spawn_visitor :: "'s system \<Rightarrow> bytes list \<Rightarrow> execution_mode \<Rightarrow> bytes \<Rightarrow> ('s, u64 path_search_step) program" where
  "spawn_visitor sys arguments mode candidate =
     bind_st (attempt (spawn_wait sys candidate arguments)) (\<lambda>r.
       case r of
         Inr status \<Rightarrow> bind_st (report_command_status sys status mode) (\<lambda>st. return_st (SearchReturn st))
       | Inl LibFileNotFound \<Rightarrow> return_st SearchContinue
       | Inl LibInvalidPath \<Rightarrow> bind_st (print_invalid_path sys candidate) (\<lambda>st. return_st (SearchReturn st))
       | Inl LibInvalidExecutable \<Rightarrow>
           bind_st (println sys [ascii ''lash: invalid executable: '', candidate]) (\<lambda>_. return_st (SearchReturn 1))
       | Inl LibResourceUnavailable \<Rightarrow>
           bind_st (print_resource_unavailable sys unable_to_run) (\<lambda>st. return_st (SearchReturn st)))"

definition spawn_verdict :: "'s system \<Rightarrow> bytes \<Rightarrow> resolution_error + u64 path_search_outcome \<Rightarrow> ('s, u64) program" where
  "spawn_verdict sys command r =
     (case r of
        Inr (SearchReturned status) \<Rightarrow> return_st status
      | Inr _ \<Rightarrow> not_found_status sys command
      | Inl ResolutionInvalidPath \<Rightarrow> print_invalid_path sys command
      | Inl ResolutionResourceUnavailable \<Rightarrow> print_resource_unavailable sys unable_to_run)"

definition run_path_command :: "'s system \<Rightarrow> bytes \<Rightarrow> bytes list \<Rightarrow> execution_mode \<Rightarrow> ('s, u64) program" where
  "run_path_command sys command arguments mode =
     bind_st (with_path_candidates sys command (spawn_visitor sys arguments mode)) (spawn_verdict sys command)"

definition probe_visitor :: "'s system \<Rightarrow> bytes \<Rightarrow> ('s, u64 path_search_step) program" where
  "probe_visitor sys candidate =
     bind_st (probe_path sys candidate) (\<lambda>r.
       case r of
         Inr True \<Rightarrow> bind_st (println sys [candidate]) (\<lambda>_. return_st SearchMatched)
       | Inr False \<Rightarrow> return_st SearchContinue
       | Inl ResolutionInvalidPath \<Rightarrow> bind_st (print_invalid_path sys candidate) (\<lambda>st. return_st (SearchReturn st))
       | Inl ResolutionResourceUnavailable \<Rightarrow>
           bind_st (print_resource_unavailable sys unable_to_resolve) (\<lambda>st. return_st (SearchReturn st)))"

definition print_path_matches :: "'s system \<Rightarrow> bytes \<Rightarrow> ('s, u64) program" where
  "print_path_matches sys command =
     bind_st (with_path_candidates sys command (probe_visitor sys)) (\<lambda>r.
       case r of
         Inr SearchSomeMatched \<Rightarrow> return_st 0
       | Inr (SearchReturned status) \<Rightarrow> return_st status
       | Inr SearchNoMatches \<Rightarrow> not_found_status sys command
       | Inl ResolutionInvalidPath \<Rightarrow> print_invalid_path sys command
       | Inl ResolutionResourceUnavailable \<Rightarrow> print_resource_unavailable sys unable_to_resolve)"

definition print_explicit_where :: "'s system \<Rightarrow> bytes \<Rightarrow> bytes \<Rightarrow> ('s, u64) program" where
  "print_explicit_where sys display_name path =
     bind_st (probe_path sys path) (\<lambda>r.
       case r of
         Inr True \<Rightarrow> println_status sys [path] 0
       | Inr False \<Rightarrow> not_found_status sys display_name
       | Inl ResolutionInvalidPath \<Rightarrow> print_invalid_path sys path
       | Inl ResolutionResourceUnavailable \<Rightarrow> print_resource_unavailable sys unable_to_resolve)"

definition run_command_at_path :: "'s system \<Rightarrow> bytes \<Rightarrow> bytes \<Rightarrow> bytes list \<Rightarrow> execution_mode \<Rightarrow> ('s, u64) program" where
  "run_command_at_path sys display_name path arguments mode =
     bind_st (attempt (spawn_wait sys path arguments)) (\<lambda>r.
       case r of
         Inr status \<Rightarrow> report_command_status sys status mode
       | Inl LibFileNotFound \<Rightarrow> not_found_status sys display_name
       | Inl LibInvalidPath \<Rightarrow> print_invalid_path sys path
       | Inl LibInvalidExecutable \<Rightarrow> println_status sys [ascii ''lash: invalid executable: '', path] 1
       | Inl LibResourceUnavailable \<Rightarrow> print_resource_unavailable sys unable_to_run)"

text \<open>The argument loop of \<^verbatim>\<open>run_command\<close>; \<open>None\<close> when the array is full.\<close>

function gather_arguments :: "tokenized_command \<Rightarrow> nat \<Rightarrow> bytes list \<Rightarrow> nat \<Rightarrow> ('s, (bytes list \<times> nat) option) program" where
  "gather_arguments tk i arguments argument_count =
     (if i < tk_count tk
      then if length arguments \<le> argument_count then return_st None
           else bind_st (token_or tk i []) (\<lambda>t.
                  gather_arguments tk (i + 1) (arguments[argument_count := t]) (argument_count + 1))
      else return_st (Some (arguments, argument_count)))"
  by pat_completeness auto
termination by (relation "measure (\<lambda>(tk, i, a, n). tk_count tk - i)") auto

declare gather_arguments.simps [simp del]

definition unable_to_parse :: bytes where "unable_to_parse = ascii ''lash: unable to parse command: resource unavailable''"

definition run_command :: "'s system \<Rightarrow> bytes \<Rightarrow> tokenized_command \<Rightarrow> execution_mode \<Rightarrow> ('s, u64) program" where
  "run_command sys command tk mode =
     bind_st (gather_arguments tk 1 (replicate MAX_COMMAND_ARGS []) 0) (\<lambda>r.
       case r of
         None \<Rightarrow> println_status sys [unable_to_parse] 1
       | Some (arguments, argument_count) \<Rightarrow>
           if (command \<noteq> [] \<and> hd command = 0x2f) \<or> 0x2f \<in> set command
           then run_command_at_path sys command command (take argument_count arguments) mode
           else run_path_command sys command (take argument_count arguments) mode)"

section \<open>Built-in commands: builtins.rs\<close>

definition ENV_LIST_BUFFER_CAPACITY :: nat where "ENV_LIST_BUFFER_CAPACITY = 1024"

text \<open>A method that leaves the shell's own fields alone.\<close>

definition on_system :: "('s, 'a) program \<Rightarrow> (shell \<times> 's, 'a) program" where
  "on_system m = (\<lambda>(sh, s). case m s of (r, s') \<Rightarrow> (r, (sh, s')))"

definition run_cd :: "'s system \<Rightarrow> tokenized_command \<Rightarrow> ('s, u64) program" where
  "run_cd sys tk =
     bind_st (if 1 < tk_count tk then token_or tk 1 [0x2f] else return_st [0x2f]) (\<lambda>path.
     bind_st (attempt (lib_chdir sys path)) (\<lambda>r.
       case r of
         Inr _ \<Rightarrow> return_st 0
       | Inl ChdirResourceUnavailable \<Rightarrow>
           println_status sys [ascii ''lash: unable to change directory: resource unavailable''] 1
       | Inl _ \<Rightarrow> println_status sys [ascii ''lash: directory not found: '', path] 1))"

definition run_env :: "'s system \<Rightarrow> tokenized_command \<Rightarrow> ('s, u64) program" where
  "run_env sys tk =
     (if tk_count tk \<noteq> 1 then println_status sys [ascii ''lash: usage: env''] 1
      else bind_st (attempt_fill (lib_list_env sys (replicate ENV_LIST_BUFFER_CAPACITY 0))) (\<lambda>r.
        case r of
          Inr text_out \<Rightarrow> (\<lambda>s. (Ok 0, if text_out = [] then s else snd (stdout_write sys text_out s)))
        | Inl ListEnvBufferTooSmall \<Rightarrow> println_status sys [ascii ''lash: unable to list environment: buffer too small''] 1
        | Inl ListEnvResourceUnavailable \<Rightarrow>
            println_status sys [ascii ''lash: unable to list environment: resource unavailable''] 1))"

text \<open>The loop of \<^verbatim>\<open>run_set\<close> that joins the value's words; \<open>None\<close> when they do not fit.\<close>

function join_tokens :: "tokenized_command \<Rightarrow> nat \<Rightarrow> bytes \<Rightarrow> nat \<Rightarrow> ('s, (bytes \<times> nat) option) program" where
  "join_tokens tk i value_bytes value_len =
     (if i < tk_count tk
      then bind_st (token_or tk i []) (\<lambda>token.
        let separator_len = (if i = 2 then 0 else 1) in
        if length value_bytes < value_len + separator_len + length token then return_st None
        else let value_bytes = (if separator_len = 1 then value_bytes[value_len := 0x20] else value_bytes);
                 value_len = value_len + separator_len
             in join_tokens tk (i + 1) (overwrite value_bytes value_len token) (value_len + length token))
      else return_st (Some (value_bytes, value_len)))"
  by pat_completeness auto
termination by (relation "measure (\<lambda>(tk, i, v, n). tk_count tk - i)") auto

declare join_tokens.simps [simp del]

definition run_set :: "'s system \<Rightarrow> tokenized_command \<Rightarrow> ('s, u64) program" where
  "run_set sys tk =
     (if tk_count tk < 3 then println_status sys [ascii ''lash: usage: set KEY VALUE...''] 1
      else bind_st (token_or tk 1 []) (\<lambda>key.
           bind_st (join_tokens tk 2 (replicate LINE_CAPACITY 0) 0) (\<lambda>joined.
             case joined of
               None \<Rightarrow> println_status sys [ascii ''lash: unable to set environment: value too long''] 1
             | Some (value_bytes, value_len) \<Rightarrow>
                 let val = (case from_utf8 (take value_len value_bytes) of None \<Rightarrow> [] | Some v \<Rightarrow> v) in
                 bind_st (attempt (lib_set_env sys key val)) (\<lambda>r.
                   case r of
                     Inr _ \<Rightarrow> return_st 0
                   | Inl SetEnvInvalidKey \<Rightarrow> println_status sys [ascii ''lash: invalid environment key: '', key] 1
                   | Inl SetEnvKeyTooLong \<Rightarrow> println_status sys [ascii ''lash: environment key too long: '', key] 1
                   | Inl SetEnvValueTooLong \<Rightarrow> println_status sys [ascii ''lash: environment value too long for key: '', key] 1
                   | Inl SetEnvCapacityExceeded \<Rightarrow> println_status sys [ascii ''lash: unable to set environment: capacity exceeded''] 1
                   | Inl SetEnvResourceUnavailable \<Rightarrow>
                       println_status sys [ascii ''lash: unable to set environment: resource unavailable''] 1))))"

definition run_unset :: "'s system \<Rightarrow> tokenized_command \<Rightarrow> ('s, u64) program" where
  "run_unset sys tk =
     (if tk_count tk \<noteq> 2 then println_status sys [ascii ''lash: usage: unset KEY''] 1
      else bind_st (token_or tk 1 []) (\<lambda>key.
           bind_st (attempt (lib_unset_env sys key)) (\<lambda>r.
             case r of
               Inr _ \<Rightarrow> return_st 0
             | Inl UnsetEnvInvalidKey \<Rightarrow> println_status sys [ascii ''lash: invalid environment key: '', key] 1
             | Inl UnsetEnvNotFound \<Rightarrow> println_status sys [ascii ''lash: environment variable not found: '', key] 1
             | Inl UnsetEnvResourceUnavailable \<Rightarrow>
                 println_status sys [ascii ''lash: unable to unset environment: resource unavailable''] 1)))"

text \<open>\<^verbatim>\<open>resolved_path.as_str().unwrap_or(name)\<close>\<close>

definition resolved_or :: "lash_normalized_path \<Rightarrow> bytes \<Rightarrow> ('s, bytes) program" where
  "resolved_or lp name =
     (case normalized_as_str lp of Ok path \<Rightarrow> return_st path | Err _ \<Rightarrow> return_st name | Panic \<Rightarrow> panic_st)"

definition run_where :: "'s system \<Rightarrow> tokenized_command \<Rightarrow> (shell \<times> 's, u64) program" where
  "run_where sys tk =
     (if tk_count tk \<noteq> 2 then on_system (println_status sys [ascii ''lash: usage: where NAME''] 1)
      else bind_st (on_system (token_or tk 1 [])) (\<lambda>name.
        if name \<noteq> [] \<and> hd name = 0x2f then on_system (print_explicit_where sys name name)
        else if 0x2f \<in> set name
        then bind_st (normalize_command_path sys name) (\<lambda>r.
          case r of
            Inr path \<Rightarrow> on_system (bind_st (resolved_or path name) (print_explicit_where sys name))
          | Inl ResolutionInvalidPath \<Rightarrow> on_system (println_status sys [ascii ''lash: invalid path: '', name] 1)
          | Inl ResolutionResourceUnavailable \<Rightarrow> on_system (println_status sys [unable_to_resolve] 1))
        else on_system (print_path_matches sys name)))"

section \<open>Executing a line: shell.rs\<close>

definition shell_new :: shell where
  "shell_new = \<lparr>sh_line = replicate LINE_CAPACITY 0, sh_len = 0, sh_byte = [0], sh_cwd = replicate LINE_CAPACITY 0\<rparr>"

definition print_parse_error :: "'s system \<Rightarrow> execution_mode \<Rightarrow> ('s, unit) program" where
  "print_parse_error sys mode =
     bind_st (println sys [ascii ''lash: parse error'']) (\<lambda>_.
       if mode = Interactive then println sys [] else return_st ())"

text \<open>The error arms that \<^verbatim>\<open>execute_line\<close> and \<^verbatim>\<open>execute_segment\<close> both have.\<close>

definition report_parse_error :: "'s system \<Rightarrow> execution_mode \<Rightarrow> parse_error \<Rightarrow> ('s, u64) program" where
  "report_parse_error sys mode e =
     (if e = ResourceUnavailable then println_status sys [unable_to_parse] 1
      else bind_st (print_parse_error sys mode) (\<lambda>_. return_st 1))"

definition dispatch_command :: "'s system \<Rightarrow> execution_mode \<Rightarrow> bytes \<Rightarrow> tokenized_command \<Rightarrow> (shell \<times> 's, u64) program" where
  "dispatch_command sys mode command tk =
     (if command = ascii ''cd'' then on_system (run_cd sys tk)
      else if command = ascii ''env'' then on_system (run_env sys tk)
      else if command = ascii ''set'' then on_system (run_set sys tk)
      else if command = ascii ''unset'' then on_system (run_unset sys tk)
      else if command = ascii ''where'' then run_where sys tk
      else if command = ascii ''exit'' then lib_exit 0
      else if command \<noteq> [] then on_system (run_command sys command tk mode)
      else on_system (not_found_status sys command))"

definition execute_segment :: "'s system \<Rightarrow> execution_mode \<Rightarrow> bytes \<Rightarrow> (shell \<times> 's, u64) program" where
  "execute_segment sys mode line =
     (case tokenized_parse line of
        Ok tk \<Rightarrow>
          if tk_count tk = 0 then return_st 0
          else bind_st (on_system (token_or tk 0 [])) (\<lambda>command. dispatch_command sys mode command tk)
      | Err e \<Rightarrow> on_system (report_parse_error sys mode e)
      | Panic \<Rightarrow> panic_st)"

definition should_run :: "segment_operator \<Rightarrow> u64 \<Rightarrow> bool" where
  "should_run op last_status = (case op of And \<Rightarrow> last_status = 0 | Or \<Rightarrow> last_status \<noteq> 0 | Sequence \<Rightarrow> True)"

text \<open>The loop of \<^verbatim>\<open>execute_line\<close>, with both \<^verbatim>\<open>unwrap\<close> calls.\<close>

function execute_loop :: "'s system \<Rightarrow> execution_mode \<Rightarrow> bytes \<Rightarrow> segment_scan \<Rightarrow> u64 \<Rightarrow> nat \<Rightarrow> (shell \<times> 's, u64) program" where
  "execute_loop sys mode line sg last_status i =
     (if i < sg_count sg
      then bind_st (if i = 0 then return_st True
                    else case operator_before sg i of
                           Ok (Some op) \<Rightarrow> return_st (should_run op last_status)
                         | _ \<Rightarrow> panic_st) (\<lambda>run.
           bind_st (if run
                    then case scan_segment sg line i of
                           Ok (Some segment) \<Rightarrow> execute_segment sys mode segment
                         | _ \<Rightarrow> panic_st
                    else return_st last_status) (\<lambda>last_status.
             execute_loop sys mode line sg last_status (i + 1)))
      else return_st last_status)"
  by pat_completeness auto
termination by (relation "measure (\<lambda>(sys, mode, line, sg, st, i). sg_count sg - i)") auto

declare execute_loop.simps [simp del]

definition execute_line :: "'s system \<Rightarrow> execution_mode \<Rightarrow> bytes \<Rightarrow> (shell \<times> 's, u64) program" where
  "execute_line sys mode line =
     (case scan_segments line of
        Ok segments \<Rightarrow> if sg_count segments = 0 then return_st 0 else execute_loop sys mode line segments 0 0
      | Err e \<Rightarrow> on_system (report_parse_error sys mode e)
      | Panic \<Rightarrow> panic_st)"

section \<open>Reading a line: repl.rs\<close>

definition print_prompt :: "'s system \<Rightarrow> (shell \<times> 's, unit) program" where
  "print_prompt sys =
     bind_st (read_cwd sys) (\<lambda>cwd.
       on_system (\<lambda>s. (Ok (), lib_print sys [case cwd of Inl _ \<Rightarrow> [0x2f] | Inr cwd \<Rightarrow> cwd, ascii '' > ''] s)))"

definition append_printable :: "'s system \<Rightarrow> u8 \<Rightarrow> (shell \<times> 's, unit) program" where
  "append_printable sys byte = (\<lambda>(sh, s).
     if LINE_CAPACITY \<le> sh_len sh then (Ok (), (sh, s))
     else if sh_len sh < length (sh_line sh)
     then (Ok (), (sh\<lparr>sh_line := (sh_line sh)[sh_len sh := byte], sh_len := sh_len sh + 1\<rparr>, snd (stdout_write sys [byte] s)))
     else (Panic, (sh, s)))"

definition backspace :: "'s system \<Rightarrow> (shell \<times> 's, unit) program" where
  "backspace sys = (\<lambda>(sh, s).
     if sh_len sh = 0 then (Ok (), (sh, s))
     else (Ok (), (sh\<lparr>sh_len := sh_len sh - 1\<rparr>, snd (stdout_write sys [0x7f] s))))"

definition submit_line :: "'s system \<Rightarrow> (shell \<times> 's, unit) program" where
  "submit_line sys =
     bind_st (on_system (println sys [])) (\<lambda>_.
     bind_st (\<lambda>(sh, s). if sh_len sh \<le> LINE_CAPACITY \<and> sh_len sh \<le> length (sh_line sh)
                        then (Ok (take (sh_len sh) (sh_line sh)), (sh, s)) else (Panic, (sh, s))) (\<lambda>line.
     bind_st (execute_line sys Interactive line) (\<lambda>_.
     bind_st (\<lambda>(sh, s). (Ok (), (sh\<lparr>sh_len := 0\<rparr>, s))) (\<lambda>_. print_prompt sys))))"

definition handle_byte :: "'s system \<Rightarrow> u8 \<Rightarrow> (shell \<times> 's, unit) program" where
  "handle_byte sys byte =
     (if byte = 0x0a then submit_line sys
      else if byte = 0x7f then backspace sys
      else if 0x20 \<le> byte \<and> byte \<le> 0x7e then append_printable sys byte
      else return_st ())"

text \<open>One turn of the loop of \<^verbatim>\<open>run_interactive\<close>, and \<open>n\<close> turns after the greeting.\<close>

definition interactive_turn :: "'s system \<Rightarrow> (shell \<times> 's, unit) program" where
  "interactive_turn sys = (\<lambda>(sh, s).
     case stdin_read sys (sh_byte sh) s of
       (bytes_read, byte, s) \<Rightarrow>
         (let w = (sh\<lparr>sh_byte := byte\<rparr>, s); yield = on_system (\<lambda>s. (Ok (), lib_yield_now sys s)) in
          if bytes_read = 0 then yield w
          else case byte of
                 [] \<Rightarrow> (Panic, w)
               | b # _ \<Rightarrow> bind_st (handle_byte sys b) (\<lambda>_. yield) w))"

fun interactive_turns :: "'s system \<Rightarrow> nat \<Rightarrow> (shell \<times> 's, unit) program" where
  "interactive_turns sys 0 = return_st ()"
| "interactive_turns sys (Suc n) = bind_st (interactive_turn sys) (\<lambda>_. interactive_turns sys n)"

definition run_interactive :: "'s system \<Rightarrow> nat \<Rightarrow> (shell \<times> 's, unit) program" where
  "run_interactive sys n =
     bind_st (on_system (println sys [ascii ''Lash !!''])) (\<lambda>_.
     bind_st (print_prompt sys) (\<lambda>_. interactive_turns sys n))"

text \<open>\<^verbatim>\<open>start\<close> on the arguments the iterator yields; \<open>n\<close> bounds the turns of an interactive shell.\<close>

definition shell_start :: "'s system \<Rightarrow> nat \<Rightarrow> bytes list \<Rightarrow> (shell \<times> 's, unit) program" where
  "shell_start sys n args =
     (case tl args of
        option # rest \<Rightarrow>
          if option = ascii ''-c''
          then (case rest of
                  [] \<Rightarrow> bind_st (on_system (println sys [ascii ''lash: missing command string''])) (\<lambda>_. lib_exit 1)
                | command_line # _ \<Rightarrow> bind_st (execute_line sys Batch command_line) lib_exit)
          else run_interactive sys n
      | [] \<Rightarrow> run_interactive sys n)"

definition lash_main :: "'s system \<Rightarrow> nat \<Rightarrow> bytes list \<Rightarrow> ('s, unit) program" where
  "lash_main sys n args s = (case shell_start sys n args (shell_new, s) of (r, (sh, s)) \<Rightarrow> (r, s))"

end
