(* ===== verification/Lash_Run.thy ===== *)
theory Lash_Run
  imports Lash_Shell
begin

text \<open>
  What the shell does with a line: the operators of a chain decide which segments run, a typed command
  becomes one system call with exactly the typed words, a bare name is looked up in \<^verbatim>\<open>PATH\<close> from left to
  right, and the keys typed since the prompt are the line that runs.
\<close>

section \<open>Chains\<close>

text \<open>Short-circuit evaluation from left to right; a skipped segment leaves the status as it was.\<close>

fun chain_eval :: "(bytes \<Rightarrow> ('w, u64) program) \<Rightarrow> u64 \<Rightarrow> (segment_operator \<times> bytes) list \<Rightarrow> ('w, u64) program" where
  "chain_eval run status [] = return_st status"
| "chain_eval run status ((op, segment) # rest) =
     bind_st (case op of
         And \<Rightarrow> if status = 0 then run segment else return_st status
       | Or \<Rightarrow> if status = 0 then return_st status else run segment
       | Sequence \<Rightarrow> run segment) (\<lambda>status. chain_eval run status rest)"

lemma execute_loop_eval:
  assumes n: "sg_count sg = length ss" "length ops = length ss - 1"
    and seg: "\<And>i. scan_segment sg line i = Ok (if i < length ss then Some (ss ! i) else None)"
    and op: "\<And>i. operator_before sg i = Ok (if i \<noteq> 0 \<and> i < length ss then Some (ops ! (i - 1)) else None)"
    and i: "0 < i" "i \<le> length ss"
  shows "execute_loop sys mode line sg status i =
    chain_eval (execute_segment sys mode) status (zip (drop (i - 1) ops) (drop i ss))"
  using i
proof (induction "length ss - i" arbitrary: i status)
  case 0
  then show ?case using n by (subst execute_loop.simps) simp
next
  case (Suc k)
  then have lt: "i < length ss" "i - 1 < length ops" using n(2) by auto
  then have d: "drop i ss = ss ! i # drop (i + 1) ss" "drop (i - 1) ops = ops ! (i - 1) # drop i ops"
    using Cons_nth_drop_Suc [of i ss] Cons_nth_drop_Suc [of "i - 1" ops] Suc.prems(1) by simp_all
  have IH: "execute_loop sys mode line sg status' (i + 1) =
      chain_eval (execute_segment sys mode) status' (zip (drop i ops) (drop (i + 1) ss))" for status'
    using Suc.hyps(1) [of "i + 1" status'] Suc.hyps(2) lt by simp
  have "execute_loop sys mode line sg status i =
      bind_st (if should_run (ops ! (i - 1)) status then execute_segment sys mode (ss ! i) else return_st status)
        (\<lambda>st. execute_loop sys mode line sg st (i + 1))"
    using n(1) seg [of i] op [of i] lt Suc.prems(1) by (subst execute_loop.simps) simp
  then show ?case unfolding IH d by (simp add: should_run_def split: segment_operator.split)
qed

lemma execute_loop_start:
  assumes "sg_count sg = length (s # ss)" "length ops = length ss"
    and seg: "\<And>i. scan_segment sg line i = Ok (if i < length (s # ss) then Some ((s # ss) ! i) else None)"
    and op: "\<And>i. operator_before sg i = Ok (if i \<noteq> 0 \<and> i < length (s # ss) then Some (ops ! (i - 1)) else None)"
  shows "execute_loop sys mode line sg status 0 =
    bind_st (execute_segment sys mode s) (\<lambda>st. chain_eval (execute_segment sys mode) st (zip ops ss))"
proof -
  have "execute_loop sys mode line sg st 1 = chain_eval (execute_segment sys mode) st (zip ops ss)" for st
    using execute_loop_eval [of sg "s # ss" ops line 1 sys mode st] assms by simp
  then show ?thesis using assms(1) seg [of 0] by (subst execute_loop.simps) simp
qed

text \<open>C7. Executing a line is the short-circuit evaluation of its chain: a line the language rejects runs
  nothing and reports the error with status one, an empty line runs nothing, and otherwise the first
  segment runs, then each further segment exactly when \<^verbatim>\<open>&&\<close> follows a zero status, \<^verbatim>\<open>||\<close> follows a
  non-zero one or \<^verbatim>\<open>;\<close> precedes it, on the state its predecessors left, until the end or until a
  segment ends the shell. The value is the status of the last segment that ran. No \<^verbatim>\<open>unwrap\<close> of the loop
  can fail.\<close>

theorem execute_line_runs_chain:
  "execute_line sys mode line =
     (case chain_spec line of
        Ok ([], _) \<Rightarrow> return_st 0
      | Ok (s # ss, ops) \<Rightarrow>
          bind_st (execute_segment sys mode s) (\<lambda>status. chain_eval (execute_segment sys mode) status (zip ops ss))
      | Err e \<Rightarrow> on_system (report_parse_error sys mode e)
      | Panic \<Rightarrow> panic_st)"
proof (cases "chain_spec line")
  case (Ok p)
  obtain ss ops where p: "p = (ss, ops)" by fastforce
  then obtain sg where sg: "scan_segments line = Ok sg" "sg_count sg = length ss"
    "\<And>i. scan_segment sg line i = Ok (if i < length ss then Some (ss ! i) else None)"
    "\<And>i. operator_before sg i = Ok (if i \<noteq> 0 \<and> i < length ss then Some (ops ! (i - 1)) else None)"
    using scan_segments_spec [of line] Ok by auto
  show ?thesis
  proof (cases ss)
    case Nil
    with Ok p sg(1,2) show ?thesis by (simp add: execute_line_def)
  next
    case (Cons s ss')
    have "length ops = length ss'" using Ok p Cons chain_result_lengths [of _ ss ops] by (simp add: chain_spec_def)
    with execute_loop_start [of sg s ss' ops line sys mode 0] sg(2-4) have
      "execute_loop sys mode line sg 0 0 =
        bind_st (execute_segment sys mode s) (\<lambda>status. chain_eval (execute_segment sys mode) status (zip ops ss'))"
      unfolding Cons by blast
    with sg(1,2) Ok p Cons show ?thesis by (simp add: execute_line_def)
  qed
next
  case (Err e)
  with scan_segments_spec [of line] show ?thesis by (simp add: execute_line_def)
next
  case Panic
  with scan_segments_spec [of line] show ?thesis by simp
qed

section \<open>Commands\<close>

text \<open>A bare name is tried under each absolute entry of \<^verbatim>\<open>PATH\<close> in turn; only \<^verbatim>\<open>FileNotFound\<close> moves on.\<close>

fun try_candidates :: "'s system \<Rightarrow> bytes list \<Rightarrow> execution_mode \<Rightarrow> bytes \<Rightarrow> bytes list \<Rightarrow> ('s, u64) program" where
  "try_candidates sys args mode command [] = not_found_status sys command"
| "try_candidates sys args mode command (file # files) =
     bind_st (attempt (spawn_wait sys file args)) (\<lambda>r.
       case r of
         Inr status \<Rightarrow> report_command_status sys status mode
       | Inl LibFileNotFound \<Rightarrow> try_candidates sys args mode command files
       | Inl LibInvalidPath \<Rightarrow> print_invalid_path sys file
       | Inl LibInvalidExecutable \<Rightarrow> println_status sys [ascii ''lash: invalid executable: '', file] 1
       | Inl LibResourceUnavailable \<Rightarrow> print_resource_unavailable sys unable_to_run)"

text \<open>\<^verbatim>\<open>get_env\<close> fills the slice it is given; it cannot change its length.\<close>

definition keeps_buffer :: "'s system \<Rightarrow> bool" where
  "keeps_buffer sys \<longleftrightarrow> (\<forall>key buffer s. length (fst (snd (sys_get_env sys key buffer s))) = length buffer)"

lemma load_path_valid:
  assumes "keeps_buffer sys"
  shows "load_path sys s = (Ok (Some path), s') \<Longrightarrow> utf8_valid path \<and> length path \<le> PATH_BUFFER_CAPACITY"
proof -
  assume l: "load_path sys s = (Ok (Some path), s')"
  obtain st b s1 where g: "sys_get_env sys (ascii ''PATH'') (replicate PATH_BUFFER_CAPACITY 0) s = (st, b, s1)" by (metis surj_pair)
  then have "length b = PATH_BUFFER_CAPACITY" using assms unfolding keeps_buffer_def by (metis fst_conv length_replicate snd_conv)
  with l g show ?thesis
    by (auto simp: load_path_def bind_st_def attempt_fill_def lib_get_env_def return_st_def from_utf8_def
        split: outcome.splits if_splits sum.splits)
qed

lemma bind_st_cong:
  "m s = m' s \<Longrightarrow> (\<And>a s'. m' s = (Ok a, s') \<Longrightarrow> f a s' = g a s') \<Longrightarrow> bind_st m f s = bind_st m' g s"
  by (simp add: bind_st_def split: prod.split outcome.split)

lemma spawn_verdict_simps [simp]:
  "spawn_verdict sys command (Inr (SearchReturned st)) = return_st st"
  "spawn_verdict sys command (Inr SearchNoMatches) = not_found_status sys command"
  by (simp_all add: spawn_verdict_def)

lemma visit_all_spawn:
  "bind_st (visit_all (spawn_visitor sys args mode) False files) (spawn_verdict sys command) =
   try_candidates sys args mode command files"
proof (induction files)
  case (Cons f files)
  show ?case
    unfolding visit_all.simps try_candidates.simps spawn_visitor_def [of sys args mode f] bind_st_assoc
    by (intro arg_cong2 [where f = bind_st] refl ext)
      (simp add: Cons.IH bind_st_assoc println_status_def print_invalid_path_def
        print_resource_unavailable_def report_command_status_def split: sum.split lib_spawn_error.split)
qed simp

lemma run_path_command_search:
  assumes k: "keeps_buffer sys" and c: "utf8_valid command" "length command \<le> LINE_CAPACITY"
  shows "run_path_command sys command args mode =
    bind_st (load_path sys) (\<lambda>path.
      try_candidates sys args mode command (case path of None \<Rightarrow> [] | Some path \<Rightarrow> candidates path command))"
proof (rule ext)
  fix s
  show "run_path_command sys command args mode s = bind_st (load_path sys) (\<lambda>path.
      try_candidates sys args mode command (case path of None \<Rightarrow> [] | Some path \<Rightarrow> candidates path command)) s"
    unfolding run_path_command_def with_path_candidates_def bind_st_assoc
  proof (rule bind_st_cong [OF refl])
    fix path s'
    assume l: "load_path sys s = (Ok path, s')"
    have "(case path of None \<Rightarrow> return_st (Inr SearchNoMatches)
        | Some path \<Rightarrow> search_loop (spawn_visitor sys args mode) command path (replicate COMMAND_PATH_CAPACITY 0) False 0) =
      visit_all (spawn_visitor sys args mode) False (case path of None \<Rightarrow> [] | Some path \<Rightarrow> candidates path command)"
    proof (cases path)
      case (Some p)
      with load_path_valid [OF k] l have "utf8_valid p" "length p \<le> PATH_BUFFER_CAPACITY" by auto
      with c Some show ?thesis
        using search_loop_visits [of p command "replicate COMMAND_PATH_CAPACITY 0" 0]
        by (simp add: COMMAND_PATH_CAPACITY_def PATH_BUFFER_CAPACITY_def LINE_CAPACITY_def)
    qed simp
    then show "bind_st (case path of None \<Rightarrow> return_st (Inr SearchNoMatches)
        | Some path \<Rightarrow> search_loop (spawn_visitor sys args mode) command path (replicate COMMAND_PATH_CAPACITY 0) False 0)
        (spawn_verdict sys command) s' =
      try_candidates sys args mode command (case path of None \<Rightarrow> [] | Some path \<Rightarrow> candidates path command) s'"
      by (simp only: visit_all_spawn)
  qed
qed

section \<open>The words of a command\<close>

lemma gather_arguments_words:
  assumes tk: "tk_count tk = length ws" "\<And>i. i < length ws \<Longrightarrow> tokenized_token tk i = Ok (Some (ws ! i))"
    and i: "0 < i" "i \<le> length ws" "length ws \<le> length args" "take (i - 1) args = take (i - 1) (tl ws)"
  shows "\<exists>args'. (gather_arguments tk i args (i - 1) :: ('s, (bytes list \<times> nat) option) program) = return_st (Some (args', length ws - 1)) \<and> take (length ws - 1) args' = tl ws"
  using i
proof (induction "length ws - i" arbitrary: i args)
  case 0
  then have "(gather_arguments tk i args (i - 1) :: ('s, (bytes list \<times> nat) option) program) = return_st (Some (args, length ws - 1))"
    "take (length ws - 1) args = tl ws"
    using tk(1) by (auto simp: gather_arguments.simps [of tk i])
  then show ?case by blast
next
  case (Suc k)
  then have lt: "i < length ws" "i - 1 < length args" by auto
  let ?args = "args[i - 1 := ws ! i]"
  have "take i ?args = take (i - 1) args @ [ws ! i]"
    using lt(2) Suc.prems(1) take_Suc_conv_app_nth [of "i - 1" ?args] by simp
  also have "\<dots> = take i (tl ws)"
    using Suc.prems lt take_Suc_conv_app_nth [of "i - 1" "tl ws"] by (simp add: nth_tl)
  finally have "take (i + 1 - 1) ?args = take (i + 1 - 1) (tl ws)" by simp
  moreover have "k = length ws - (i + 1)" using Suc.hyps(2) by simp
  ultimately obtain args' where "(gather_arguments tk (i + 1) ?args (i + 1 - 1) :: ('s, (bytes list \<times> nat) option) program) = return_st (Some (args', length ws - 1))"
    "take (length ws - 1) args' = tl ws" using Suc.hyps(1) [of "i + 1" ?args] Suc.prems lt by auto
  moreover from this(1) have "(gather_arguments tk i args (i - 1) :: ('s, (bytes list \<times> nat) option) program)
      = return_st (Some (args', length ws - 1))"
    using tk lt Suc.prems(1) by (subst gather_arguments.simps) (simp add: token_or_def)
  ultimately show ?case by blast
qed

definition builtin_names :: "bytes list" where
  "builtin_names = map ascii [''cd'', ''env'', ''set'', ''unset'', ''where'', ''exit'']"

lemma parsed_words:
  assumes "words Unquoted None line = (ws, None)" "length ws \<le> MAX_COMMAND_ARGS" "length (concat ws) \<le> LINE_CAPACITY"
    "\<forall>w \<in> set ws. utf8_valid w"
  obtains tk where "tokenized_parse line = Ok tk" "tk_count tk = length ws"
    "\<And>i. i < length ws \<Longrightarrow> tokenized_token tk i = Ok (Some (ws ! i))"
proof -
  obtain tk where tk: "tokenized_parse line = Ok tk" "tokens_hold tk ws"
    using tokenized_parse_meets [of line] assms(1-3) by (auto simp: parse_meets_def words_fit_def)
  then have "tk_count tk = length ws" by (simp add: tokens_hold_def)
  moreover have "tokenized_token tk i = Ok (Some (ws ! i))" if "i < length ws" for i
    using tokens_hold_bytes(2) [OF tk(2) that] assms(4) that by (simp add: from_utf8_def)
  ultimately show ?thesis using that tk(1) by blast
qed

text \<open>C8. A typed command that is not a built-in becomes exactly one kind of system call: with a slash in its name
  the named file is spawned, otherwise the files \<^verbatim>\<open>entry/name\<close> for the absolute entries of \<^verbatim>\<open>PATH\<close>, in order,
  until one is not reported missing; each time the arguments are exactly the remaining words of the
  line, with quotes and escapes resolved. Without a match the command is reported as not found.\<close>

theorem typed_command_spawns:
  fixes sys :: "'s system"
  assumes "words Unquoted None line = (command # args, None)"
    "length (command # args) \<le> MAX_COMMAND_ARGS" "length (concat (command # args)) \<le> LINE_CAPACITY"
    "\<forall>w \<in> set (command # args). utf8_valid w"
    "command \<noteq> []" "command \<notin> set builtin_names" "keeps_buffer sys"
  shows "execute_segment sys mode line = on_system
     (if 0x2f \<in> set command then run_command_at_path sys command command args mode
      else bind_st (load_path sys) (\<lambda>path.
             try_candidates sys args mode command (case path of None \<Rightarrow> [] | Some path \<Rightarrow> candidates path command)))"
proof -
  obtain tk where tk: "tokenized_parse line = Ok tk" "tk_count tk = length (command # args)"
    "\<And>i. i < length (command # args) \<Longrightarrow> tokenized_token tk i = Ok (Some ((command # args) ! i))"
    using parsed_words [OF assms(1-4)] by blast
  obtain args' where g: "(gather_arguments tk 1 (replicate MAX_COMMAND_ARGS []) 0 :: ('s, (bytes list \<times> nat) option) program) = return_st (Some (args', length args))"
    "take (length args) args' = args"
    using gather_arguments_words [OF tk(2,3), of 1 "replicate MAX_COMMAND_ARGS []"] assms(2) by auto
  have slash: "(command \<noteq> [] \<and> hd command = 0x2f) \<or> 0x2f \<in> set command \<longleftrightarrow> 0x2f \<in> set command" by (metis hd_in_set)
  have token: "(on_system (token_or tk 0 []) :: (shell \<times> 's, bytes) program) = return_st command"
    using tk(3) [of 0] by (simp add: token_or_def on_system_def return_st_def fun_eq_iff)
  have "execute_segment sys mode line = dispatch_command sys mode command tk"
    using tk(1,2) token by (simp add: execute_segment_def)
  also have "\<dots> = on_system (run_command sys command tk mode)"
    using assms(5,6) by (simp add: dispatch_command_def builtin_names_def)
  also have "run_command sys command tk mode =
      (if 0x2f \<in> set command then run_command_at_path sys command command args mode else run_path_command sys command args mode)"
    unfolding run_command_def slash using g by simp
  finally show ?thesis
    using run_path_command_search [OF assms(7), of command args mode] assms(3,4) by simp
qed

text \<open>A system with \<^verbatim>\<open>PATH=/bin:/usr\<close> on which only \<^verbatim>\<open>/usr/ls\<close> exists; it keeps the list of spawn calls.\<close>

definition demo_system :: "(bytes \<times> bytes) list system" where
  "demo_system = \<lparr>
     sys_read = \<lambda>fd b s. (0, b, s), sys_write = \<lambda>fd b s. (0, s), sys_yield = \<lambda>s. (0, s),
     sys_spawn = \<lambda>n path args s. (if path = ascii ''/usr/ls'' then 0 else spawn_wait_FILE_NOT_FOUND, s @ [(path, args)]),
     sys_read_dir = \<lambda>p b s. (0, b, s), sys_chdir = \<lambda>p s. (0, s), sys_getcwd = \<lambda>b s. (0, b, s),
     sys_read_file = \<lambda>p b s. (0, b, s),
     sys_get_env = \<lambda>k b s. (9, take (length b) (ascii ''/bin:/usr'' @ drop 9 b), s),
     sys_set_env = \<lambda>k v s. (0, s), sys_unset_env = \<lambda>k s. (0, s), sys_list_env = \<lambda>b s. (0, b, s)\<rparr>"

lemma demo_system_keeps_buffer: "keeps_buffer demo_system"
  by (simp add: keeps_buffer_def demo_system_def ascii_def)

text \<open>The line \<^verbatim>\<open>ls 'a b'\<close> is tried in both directories, each time with the one argument \<^verbatim>\<open>a b\<close>.\<close>

theorem typed_command_spawns_witness:
  "execute_segment demo_system Batch (ascii ''ls '' @ [squote] @ ascii ''a b'' @ [squote]) (shell_new, []) =
     (Ok 0, (shell_new, [(ascii ''/bin/ls'', ascii ''a b'' @ [0]), (ascii ''/usr/ls'', ascii ''a b'' @ [0])]))"
proof -
  have "execute_segment demo_system Batch (ascii ''ls '' @ [squote] @ ascii ''a b'' @ [squote]) = on_system
     (if 0x2f \<in> set (ascii ''ls'') then run_command_at_path demo_system (ascii ''ls'') (ascii ''ls'') [ascii ''a b''] Batch
      else bind_st (load_path demo_system) (\<lambda>path. try_candidates demo_system [ascii ''a b''] Batch (ascii ''ls'')
        (case path of None \<Rightarrow> [] | Some path \<Rightarrow> candidates path (ascii ''ls''))))"
    by (rule typed_command_spawns [OF _ _ _ _ _ _ demo_system_keeps_buffer]) code_simp+
  moreover have "on_system
     (if 0x2f \<in> set (ascii ''ls'') then run_command_at_path demo_system (ascii ''ls'') (ascii ''ls'') [ascii ''a b''] Batch
      else bind_st (load_path demo_system) (\<lambda>path. try_candidates demo_system [ascii ''a b''] Batch (ascii ''ls'')
        (case path of None \<Rightarrow> [] | Some path \<Rightarrow> candidates path (ascii ''ls'')))) (shell_new, []) =
     (Ok 0, (shell_new, [(ascii ''/bin/ls'', ascii ''a b'' @ [0]), (ascii ''/usr/ls'', ascii ''a b'' @ [0])]))"
    by code_simp
  ultimately show ?thesis by simp
qed

section \<open>The line editor\<close>

text \<open>The keys typed since the prompt: backspace drops the last one, other control keys and keys past the
  capacity do nothing.\<close>

definition edit_key :: "bytes \<Rightarrow> u8 \<Rightarrow> bytes" where
  "edit_key line key =
     (if key = 0x7f then butlast line
      else if 0x20 \<le> key \<and> key \<le> 0x7e \<and> length line < LINE_CAPACITY then line @ [key] else line)"

definition line_typed :: "shell \<Rightarrow> bytes \<Rightarrow> bool" where
  "line_typed sh line \<longleftrightarrow>
     length (sh_line sh) = LINE_CAPACITY \<and> sh_len sh = length line \<and> length line \<le> LINE_CAPACITY \<and>
     take (length line) (sh_line sh) = line"

lemma handle_key:
  assumes h: "line_typed sh line" and k: "key \<noteq> 0x0a"
  shows "\<exists>sh' s'. handle_byte sys key (sh, s) = (Ok (), (sh', s')) \<and> line_typed sh' (edit_key line key)"
proof -
  consider "key = 0x7f" | "key \<noteq> 0x7f" "0x20 \<le> key \<and> key \<le> 0x7e" | "key \<noteq> 0x7f" "\<not> (0x20 \<le> key \<and> key \<le> 0x7e)" by blast
  then show ?thesis
  proof cases
    case 1
    have "take (length line - 1) (sh_line sh) = take (length line - 1) (take (length line) (sh_line sh))" by simp
    also have "\<dots> = butlast line" using h by (simp only: line_typed_def butlast_conv_take)
    finally show ?thesis using 1 h by (auto simp: handle_byte_def backspace_def line_typed_def edit_key_def)
  next
    case 2
    with h k show ?thesis
      by (auto simp: handle_byte_def append_printable_def line_typed_def edit_key_def take_Suc_conv_app_nth)
  next
    case 3
    with h k show ?thesis by (auto simp: handle_byte_def line_typed_def edit_key_def return_st_def)
  qed
qed

fun handle_keys :: "'s system \<Rightarrow> bytes \<Rightarrow> (shell \<times> 's, unit) program" where
  "handle_keys sys [] = return_st ()"
| "handle_keys sys (key # keys) = bind_st (handle_byte sys key) (\<lambda>_. handle_keys sys keys)"

lemma handle_keys_edit:
  "line_typed sh line \<Longrightarrow> 0x0a \<notin> set keys \<Longrightarrow>
   \<exists>sh' s'. handle_keys sys keys (sh, s) = (Ok (), (sh', s')) \<and> line_typed sh' (foldl edit_key line keys)"
proof (induction keys arbitrary: sh line s)
  case Nil
  then show ?case by (simp add: return_st_def)
next
  case (Cons key keys)
  obtain sh1 s1 where 1: "handle_byte sys key (sh, s) = (Ok (), (sh1, s1))" "line_typed sh1 (edit_key line key)"
    using handle_key [OF Cons.prems(1), of key sys s] Cons.prems(2) by auto
  with Cons.IH [OF 1(2), of s1] Cons.prems(2) show ?case by (auto simp: bind_st_def)
qed

lemma submit_runs_line:
  assumes "line_typed sh line"
  shows "submit_line sys (sh, s) =
    bind_st (execute_line sys Interactive line) (\<lambda>_.
      bind_st (\<lambda>(sh, s). (Ok (), (sh\<lparr>sh_len := 0\<rparr>, s))) (\<lambda>_. print_prompt sys)) (sh, lib_print sys [[0x0a]] s)"
  using assms by (simp add: submit_line_def bind_st_def on_system_def println_def line_typed_def)

text \<open>From an empty line on, any keys without a line end lead, without a panic, to a state in which the line
  end runs exactly the edited line: printable keys are kept up to the capacity, backspace removes one,
  everything else is ignored; then the line is empty again and the prompt is printed.\<close>

theorem typed_keys_run_edited_line:
  assumes "length (sh_line sh) = LINE_CAPACITY" "sh_len sh = 0" "0x0a \<notin> set keys"
  shows "\<exists>sh' s'. handle_keys sys keys (sh, s) = (Ok (), (sh', s')) \<and>
    handle_byte sys 0x0a (sh', s') =
      bind_st (execute_line sys Interactive (foldl edit_key [] keys)) (\<lambda>_.
        bind_st (\<lambda>(sh, s). (Ok (), (sh\<lparr>sh_len := 0\<rparr>, s))) (\<lambda>_. print_prompt sys)) (sh', lib_print sys [[0x0a]] s')"
proof -
  have "line_typed sh []" using assms by (simp add: line_typed_def)
  from handle_keys_edit [OF this assms(3), of sys s] show ?thesis
    using submit_runs_line by (fastforce simp: handle_byte_def)
qed

theorem typed_keys_run_edited_line_witness:
  "\<exists>sh' s'. handle_keys demo_system [0x6c, 0x78, 0x7f, 0x73] (shell_new, []) = (Ok (), (sh', s')) \<and>
    handle_byte demo_system 0x0a (sh', s') =
      bind_st (execute_line demo_system Interactive (ascii ''ls'')) (\<lambda>_.
        bind_st (\<lambda>(sh, s). (Ok (), (sh\<lparr>sh_len := 0\<rparr>, s))) (\<lambda>_. print_prompt demo_system)) (sh', lib_print demo_system [[0x0a]] s')"
proof -
  have "foldl edit_key [] [0x6c, 0x78, 0x7f, 0x73] = ascii ''ls''" by code_simp
  then show ?thesis
    using typed_keys_run_edited_line [of shell_new "[0x6c, 0x78, 0x7f, 0x73]" demo_system "[]"]
    by (simp add: shell_new_def)
qed

end
