(* ===== verification/User_Programs.thy ===== *)
theory User_Programs
  imports Lash_Run
begin

text \<open>
  The small programs of \<^verbatim>\<open>user/\<close>: \<^verbatim>\<open>echo\<close>, \<^verbatim>\<open>pwd\<close>, \<^verbatim>\<open>cat\<close> and \<^verbatim>\<open>ls\<close>. Each takes the strings its argument
  iterator yields (the first is its own name) and ends with \<^verbatim>\<open>exit\<close>.
\<close>

section \<open>The programs\<close>

text \<open>\<^verbatim>\<open>print!\<close>\<close>

definition print_st :: "'s system \<Rightarrow> bytes list \<Rightarrow> ('s, unit) program" where
  "print_st sys pieces s = (Ok (), lib_print sys pieces s)"

definition println_exit :: "'s system \<Rightarrow> bytes list \<Rightarrow> u64 \<Rightarrow> ('s, unit) program" where
  "println_exit sys pieces status = bind_st (println sys pieces) (\<lambda>_. lib_exit status)"

fun echo_loop :: "'s system \<Rightarrow> bool \<Rightarrow> bytes list \<Rightarrow> ('s, unit) program" where
  "echo_loop sys first [] = return_st ()"
| "echo_loop sys first (arg # args) =
     bind_st (if first then return_st () else print_st sys [[0x20]]) (\<lambda>_.
     bind_st (print_st sys [arg]) (\<lambda>_. echo_loop sys False args))"

definition echo_main :: "'s system \<Rightarrow> bytes list \<Rightarrow> ('s, unit) program" where
  "echo_main sys args = bind_st (echo_loop sys True (tl args)) (\<lambda>_. println_exit sys [] 0)"

definition CWD_BUFFER_SIZE :: nat where "CWD_BUFFER_SIZE = 256"

definition pwd_main :: "'s system \<Rightarrow> ('s, unit) program" where
  "pwd_main sys =
     bind_st (attempt_fill (lib_getcwd sys (replicate CWD_BUFFER_SIZE 0))) (\<lambda>r.
       case r of
         Inr text_out \<Rightarrow> println_exit sys [case from_utf8 text_out of None \<Rightarrow> [0x2f] | Some cwd \<Rightarrow> cwd] 0
       | Inl GetCwdBufferTooSmall \<Rightarrow> println_exit sys [ascii ''pwd: path too large''] 1
       | Inl GetCwdResourceUnavailable \<Rightarrow> println_exit sys [ascii ''pwd: unable to read working directory''] 1)"

definition FILE_BUFFER_SIZE :: nat where "FILE_BUFFER_SIZE = 32 * 1024"

text \<open>\<^verbatim>\<open>stdout_write\<close> with its count dropped, then \<^verbatim>\<open>exit(0)\<close>.\<close>

definition write_exit :: "'s system \<Rightarrow> bytes \<Rightarrow> ('s, unit) program" where
  "write_exit sys text_out s = lib_exit 0 (snd (stdout_write sys text_out s))"

definition cat_main :: "'s system \<Rightarrow> bytes list \<Rightarrow> ('s, unit) program" where
  "cat_main sys args =
     (case tl args of
        [] \<Rightarrow> println_exit sys [ascii ''cat: missing path''] 1
      | path # _ \<Rightarrow>
          bind_st (attempt_fill (lib_read_file sys path (replicate FILE_BUFFER_SIZE 0))) (\<lambda>r.
            case r of
              Inr text_out \<Rightarrow> write_exit sys text_out
            | Inl ReadFileInvalidPath \<Rightarrow> println_exit sys [ascii ''cat: invalid path: '', path] 1
            | Inl ReadFileNotFound \<Rightarrow> println_exit sys [ascii ''cat: file not found: '', path] 1
            | Inl ReadFileNotAFile \<Rightarrow> println_exit sys [ascii ''cat: not a file: '', path] 1
            | Inl ReadFileBufferTooSmall \<Rightarrow> println_exit sys [ascii ''cat: file too large''] 1
            | Inl ReadFileResourceUnavailable \<Rightarrow> println_exit sys [ascii ''cat: unable to read file''] 1))"

definition DIRECTORY_BUFFER_SIZE :: nat where "DIRECTORY_BUFFER_SIZE = 1024"

definition ls_main :: "'s system \<Rightarrow> bytes list \<Rightarrow> ('s, unit) program" where
  "ls_main sys args =
     (let path = (case tl args of [] \<Rightarrow> ascii ''.'' | path # _ \<Rightarrow> path) in
      bind_st (attempt_fill (lib_read_dir sys path (replicate DIRECTORY_BUFFER_SIZE 0))) (\<lambda>r.
        case r of
          Inr text_out \<Rightarrow> write_exit sys text_out
        | Inl ReadDirInvalidPath \<Rightarrow> println_exit sys [ascii ''ls: invalid path: '', path] 1
        | Inl ReadDirNotFound \<Rightarrow> println_exit sys [ascii ''ls: directory not found: '', path] 1
        | Inl ReadDirBufferTooSmall \<Rightarrow> println_exit sys [ascii ''ls: output too large''] 1
        | Inl ReadDirResourceUnavailable \<Rightarrow> println_exit sys [ascii ''ls: unable to read directory''] 1))"

section \<open>What they print\<close>

text \<open>A system whose writes all append to one output.\<close>

definition collects_output :: "'s system \<Rightarrow> ('s \<Rightarrow> bytes) \<Rightarrow> bool" where
  "collects_output sys out \<longleftrightarrow> (\<forall>text_out s. out (snd (sys_write sys 1 text_out s)) = out s @ text_out)"

lemma lib_print_output: "collects_output sys out \<Longrightarrow> out (lib_print sys pieces s) = out s @ concat pieces"
  by (induction pieces arbitrary: s) (auto simp: collects_output_def stdout_write_def lib_write_def)

text \<open>The words with single spaces between them.\<close>

fun spaced :: "bytes list \<Rightarrow> bytes" where
  "spaced [] = []"
| "spaced [w] = w"
| "spaced (w # ws) = w @ 0x20 # spaced ws"

lemma echo_loop_output:
  assumes "collects_output sys out"
  shows "\<exists>s'. echo_loop sys False args s = (Ok (), s') \<and> out s' = out s @ concat (map (\<lambda>w. 0x20 # w) args)"
proof (induction args arbitrary: s)
  case (Cons w args)
  let ?s = "lib_print sys [w] (lib_print sys [[0x20]] s)"
  have "echo_loop sys False (w # args) s = echo_loop sys False args ?s" by (simp add: bind_st_def print_st_def del: lib_print.simps)
  with Cons.IH [of ?s] lib_print_output [OF assms] show ?case by (simp del: lib_print.simps)
qed (simp add: return_st_def)

lemma spaced_Cons: "spaced (w # ws) = w @ concat (map (\<lambda>w. 0x20 # w) ws)"
  by (induction ws arbitrary: w) simp_all

text \<open>\<^verbatim>\<open>echo\<close> always succeeds, and what reaches the output is its arguments with single spaces between them and a
  line end.\<close>

lemma echo_prints_arguments:
  assumes "collects_output sys out"
  shows "\<exists>s'. echo_main sys args s = (Err (Exited 0), s') \<and> out s' = out s @ spaced (tl args) @ [0x0a]"
proof -
  have "\<exists>s'. echo_loop sys True (tl args) s = (Ok (), s') \<and> out s' = out s @ spaced (tl args)"
  proof (cases "tl args")
    case (Cons w ws)
    have "echo_loop sys True (w # ws) s = echo_loop sys False ws (lib_print sys [w] s)"
      by (simp add: bind_st_def print_st_def del: lib_print.simps)
    with echo_loop_output [OF assms, of ws "lib_print sys [w] s"] lib_print_output [OF assms] Cons show ?thesis
      by (simp add: spaced_Cons del: lib_print.simps)
  qed (simp add: return_st_def)
  with lib_print_output [OF assms] show ?thesis
    by (auto simp: echo_main_def bind_st_def println_exit_def println_def lib_exit_def simp del: lib_print.simps)
qed

text \<open>\<^verbatim>\<open>cat\<close> copies a file of at most 32 KiB to the output unchanged and succeeds; if the file does not fit or
  cannot be read, the status is one.\<close>

lemma cat_copies_file:
  assumes "collects_output sys out"
    and call: "lib_read_file sys path (replicate FILE_BUFFER_SIZE 0) s = (r, buffer, s1)" and len: "length buffer = FILE_BUFFER_SIZE"
  shows "r = Ok n \<Longrightarrow> unat n \<le> FILE_BUFFER_SIZE \<Longrightarrow>
      \<exists>s'. cat_main sys (name # path # rest) s = (Err (Exited 0), s') \<and> out s' = out s1 @ take (unat n) buffer"
    and "r = Err e \<Longrightarrow> \<exists>s'. cat_main sys (name # path # rest) s = (Err (Exited 1), s')"
proof -
  assume "r = Ok n" "unat n \<le> FILE_BUFFER_SIZE"
  with assms show "\<exists>s'. cat_main sys (name # path # rest) s = (Err (Exited 0), s') \<and> out s' = out s1 @ take (unat n) buffer"
    by (simp add: cat_main_def bind_st_def attempt_fill_def write_exit_def lib_exit_def collects_output_def stdout_write_def lib_write_def)
next
  assume "r = Err e"
  with assms show "\<exists>s'. cat_main sys (name # path # rest) s = (Err (Exited 1), s')"
    by (cases e) (simp_all add: cat_main_def bind_st_def attempt_fill_def println_exit_def println_def lib_exit_def)
qed

end
