(* ===== verification/Spec2Isabelle.thy ===== *)
theory Spec2Isabelle
  imports System_Boot Startup_Args Console_Text User_Programs
begin

text \<open>
  A verification development for Lazers OS, a small x86-64 operating system in Rust: a kernel with paging,
  a cooperative scheduler, system calls, a PS/2 keyboard, an AHCI disk with a FAT32 root filesystem and
  ACPI power-off (\<^verbatim>\<open>kernel/kernel/src\<close>), the libraries it shares with its programs (\<^verbatim>\<open>libs\<close>) and the
  programs, with a shell (\<^verbatim>\<open>user\<close>).

  \<^bold>\<open>How the parts interact.\<close> The UEFI loader hands a \<^verbatim>\<open>BootInfo\<close> to \<^verbatim>\<open>kernel_main\<close>, which sets up physical
  memory and the kernel's address space, looks for the ACPI power-off registers, mounts the disk,
  loads the first program (the shell) and starts the scheduler with it, a terminal thread and an idle
  thread. Programs run in their own address spaces and trap into the kernel for system calls; a call
  answers at once, or gives up the processor (yield, exit, spawn and wait). The terminal thread moves
  key presses to the terminal's input queue and its output queue to the screen. The shell reads lines
  from the terminal, splits them into commands and words and spawns programs.

  \<^bold>\<open>Conventions\<close> (theory \<^verbatim>\<open>Lazers_Prelude\<close>). Machine integers are words of their width, and unchecked
  arithmetic wraps, as in the release build the images are made of; counters and lengths that stay
  far below the word size are natural numbers. A fallible call returns an \<open>outcome\<close>: \<open>Ok\<close>, \<open>Err\<close> or
  \<open>Panic\<close>, where \<open>Panic\<close> covers every index out of range, failed \<^verbatim>\<open>expect\<close> and explicit panic. State is
  passed explicitly, and an error keeps the writes made before it. Loops are recursive functions with
  a termination proof; the loops of the FAT32 reader over a possibly cyclic chain and the scan for a
  terminating zero byte have no bound of their own, so they are partial functions whose value \<open>None\<close> is
  a run that never ends. Fuel appears once: the terminal thread drains at most one more event than
  the key queue can hold, which is enough because nothing is added while it drains.

  \<^bold>\<open>Kernel memory.\<close>
  \<^item> \<^verbatim>\<open>Memory_Types\<close>, \<^verbatim>\<open>Kernel_Errors\<close>, \<^verbatim>\<open>Lzutil\<close>, \<^verbatim>\<open>Boot_Info\<close>: the shared types and helpers.
  \<^item> \<^verbatim>\<open>Allocator\<close> (\<^verbatim>\<open>memory/allocator.rs\<close>): the free-range table. Its operations are set operations on the
    free addresses, allocation hands out zeroed pages, and blocks in use never overlap.
  \<^item> \<^verbatim>\<open>Paging\<close>, \<^verbatim>\<open>Range_Mapping\<close> (\<^verbatim>\<open>memory/paging.rs\<close>): page tables on byte-addressed physical memory. Mapping
    changes one translation and keeps the tables disjoint from free memory; range loops identity-map.
  \<^item> \<^verbatim>\<open>Kernel_Memory\<close> (\<^verbatim>\<open>memory/kernel.rs\<close>, \<^verbatim>\<open>state.rs\<close>, \<^verbatim>\<open>user.rs\<close>): boot allocator, kernel context, user buffer checks.
  \<^item> \<^verbatim>\<open>Elf_Image\<close> (\<^verbatim>\<open>libs/elf\<close>), \<^verbatim>\<open>Program_Loader\<close> (\<^verbatim>\<open>memory/loader.rs\<close>), \<^verbatim>\<open>Page_Release\<close>, \<^verbatim>\<open>Loader_Isolation\<close>: a
    loaded program reaches only frames it owns.
  \<^item> \<^verbatim>\<open>Boot_Memory\<close>: the kernel's address space through \<^verbatim>\<open>memory::init\<close>, device mappings and mounting.

  \<^bold>\<open>Devices and storage.\<close>
  \<^item> \<^verbatim>\<open>Queue_Interface\<close> with \<^verbatim>\<open>Keyboard\<close> and \<^verbatim>\<open>Terminal\<close> (\<^verbatim>\<open>keyboard.rs\<close>, \<^verbatim>\<open>terminal.rs\<close>, \<^verbatim>\<open>io.rs\<close>, \<^verbatim>\<open>serial.rs\<close>): one
    locale states the contract of the fixed-capacity queues; both queues interpret it.
  \<^item> \<^verbatim>\<open>Font\<close>, \<^verbatim>\<open>Console\<close>, \<^verbatim>\<open>Console_Text\<close> (\<^verbatim>\<open>font.rs\<close>, \<^verbatim>\<open>console.rs\<close>): the framebuffer as a list of pixels. Every pixel is
    the one that shows the text written so far: wrapped, scrolled, with backspace stopping at the start
    of the session. The screen has room for more than one line (a visible height above 42 pixels).
  \<^item> \<^verbatim>\<open>Pci\<close>, \<^verbatim>\<open>Ahci\<close>, \<^verbatim>\<open>Gpt\<close>, \<^verbatim>\<open>Fat32\<close>, \<^verbatim>\<open>Fat_Volume\<close>, \<^verbatim>\<open>Rootfs\<close>: from configuration space to file contents. The
    PCI configuration space, the disk controller and the disk are arguments; that a controller
    carries out a read command as documented is a named hypothesis, with an instance in the witness.
  \<^item> \<^verbatim>\<open>Power_Control\<close>, \<^verbatim>\<open>Power_Discovery\<close> (\<^verbatim>\<open>power.rs\<close>): ACPI table discovery equals a pure walk over
    memory, and a shutdown writes the described command.

  \<^bold>\<open>Processes and calls.\<close>
  \<^item> \<^verbatim>\<open>Environment\<close> (\<^verbatim>\<open>env.rs\<close>, with a locale for the map it implements), \<^verbatim>\<open>Path_Norm\<close> (\<^verbatim>\<open>storage/path.rs\<close>),
    \<^verbatim>\<open>Process\<close> (\<^verbatim>\<open>process.rs\<close>, \<^verbatim>\<open>thread.rs\<close>), \<^verbatim>\<open>Scheduler\<close> (\<^verbatim>\<open>scheduler\<close>): state machines with their invariants.
  \<^item> \<^verbatim>\<open>Services\<close> (\<^verbatim>\<open>scheduler/services.rs\<close>), \<^verbatim>\<open>User_Memory\<close>, \<^verbatim>\<open>Syscall\<close> (\<^verbatim>\<open>syscall.rs\<close>, \<^verbatim>\<open>libs/kernel-abi\<close>, trap entry of
    \<^verbatim>\<open>arch.rs\<close>): every system call, on user buffers reached through the caller's page tables.
  \<^item> \<^verbatim>\<open>System_Inv\<close>, \<^verbatim>\<open>Quiet_Calls\<close>, \<^verbatim>\<open>Switching_Calls\<close>, \<^verbatim>\<open>Spawn_Frames\<close>, \<^verbatim>\<open>System_Isolation\<close>, \<^verbatim>\<open>System_Run\<close>: the system
    invariant, that every call keeps it, and the step relation of the whole machine (program stores,
    traps, resumption, terminal rounds, idling) with its reachable states.
  \<^item> \<^verbatim>\<open>System_Boot\<close> (\<^verbatim>\<open>main.rs\<close>): from boot information to any later state.

  \<^bold>\<open>Userland.\<close>
  \<^item> \<^verbatim>\<open>Liblazer\<close> (\<^verbatim>\<open>libs/liblazer\<close>): wrappers over a record of kernel operations; \<^verbatim>\<open>Startup_Args\<close> follows a
    program's arguments from the spawning program to the spawned one.
  \<^item> \<^verbatim>\<open>Lash_Parser\<close>, \<^verbatim>\<open>Lash_Chain\<close> (\<^verbatim>\<open>user/lash/src/lib.rs\<close>): the shell's tokenizer and its segment scanner equal
    structural descriptions of words and of command chains.
  \<^item> \<^verbatim>\<open>Lash_Paths\<close>, \<^verbatim>\<open>Lash_Resolution\<close> (\<^verbatim>\<open>paths.rs\<close>): the walk over \<^verbatim>\<open>PATH\<close> visits its absolute entries in order; the
    shell resolves a typed path as the kernel does.
  \<^item> \<^verbatim>\<open>Lash_Shell\<close>, \<^verbatim>\<open>Lash_Run\<close> (\<^verbatim>\<open>shell.rs\<close>, \<^verbatim>\<open>commands.rs\<close>, \<^verbatim>\<open>builtins.rs\<close>, \<^verbatim>\<open>repl.rs\<close>): executing a line is the
    short-circuit evaluation of its chain, a command is spawned with exactly its words, the keys typed
    since the prompt are the line that runs. The endless loop of the interactive shell is modelled turn
    by turn, for any number of turns. A formatted text is written piece by piece: its literal
    parts and arguments, then the line end; a compiler may join adjacent literal parts into one write.
  \<^item> \<^verbatim>\<open>User_Programs\<close> (\<^verbatim>\<open>user/echo\<close>, \<^verbatim>\<open>pwd\<close>, \<^verbatim>\<open>cat\<close>, \<^verbatim>\<open>ls\<close>): \<^verbatim>\<open>echo\<close> prints its words, \<^verbatim>\<open>cat\<close> copies a file.

  \<^bold>\<open>Not modelled.\<close>
  \<^item> The assembly shims (entry, context switch, trap stubs), port instructions, descriptor-table loading
    and the serial line-status wait: a few instructions each with no state of the model.
  \<^item> The UEFI loader (\<^verbatim>\<open>boot/uefi-loader\<close>): calls of firmware services around the ELF parser.
  \<^item> \<^verbatim>\<open>user/selftest\<close> and the unit tests: test drivers.
\<close>

end
